(* ===== verification/Prelude.thy ===== *)
theory Prelude
  imports Main "HOL-Library.Word" "HOL-Library.List_Lexorder"
begin

unbundle bit_operations_syntax

text \<open>
  Shared vocabulary of the development: the machine types of the Go sources, the
  lexicographic byte order, the little- and big-endian integer codecs of Go's
  \<^verbatim>\<open>encoding/binary\<close>, and list lemmas used by several components. Go's \<^verbatim>\<open>int\<close>
  lengths and offsets are \<^typ>\<open>nat\<close> (or \<^typ>\<open>int\<close> where the code can go below 0);
  fixed-width integers are words wherever the code shifts, masks, truncates or compares them.
\<close>

section \<open>Machine types\<close>

type_synonym byte = "8 word"
type_synonym bytes = "byte list"
type_synonym u32 = "32 word"
type_synonym u64 = "64 word"

named_theorems codec_simps
  \<open>length and decoding facts of the byte codecs\<close>

section \<open>Lists\<close>

lemma take_append_exact [simp]: "length xs = n \<Longrightarrow> take n (xs @ ys) = xs"
  by simp

lemma drop_append_exact [simp]: "length xs = n \<Longrightarrow> drop n (xs @ ys) = ys"
  by simp

lemma take_take_append_drop: "take (m + n) xs = take m xs @ take n (drop m xs)"
  by (rule take_add)

lemma list_update_append_at: "length xs = n \<Longrightarrow> (xs @ y # ys)[n := z] = xs @ z # ys"
  by (induction xs arbitrary: n) auto

lemma sorted_wrt_snoc:
  "sorted_wrt P (xs @ [x]) \<longleftrightarrow> sorted_wrt P xs \<and> (\<forall>y\<in>set xs. P y x)"
  by (auto simp: sorted_wrt_append)

section \<open>Words\<close>

lemma word_xor_cancel_right [simp]: "a XOR c = b XOR c \<longleftrightarrow> a = (b :: 'a::len word)"
  by (auto simp: bit_eq_iff bit_simps)

lemma word_xor_cancel_left [simp]: "c XOR a = c XOR b \<longleftrightarrow> a = (b :: 'a::len word)"
  by (auto simp: bit_eq_iff bit_simps)

lemma word_not_bit_beyond: "LENGTH('a) \<le> n \<Longrightarrow> \<not> bit (w :: 'a::len word) n"
  using bit_imp_le_length leD by blast

section \<open>Endian codecs of \<^verbatim>\<open>encoding/binary\<close>\<close>

text \<open>
  \<^verbatim>\<open>LittleEndian.PutUint32/PutUint64\<close> store the low byte first; \<^verbatim>\<open>BigEndian\<close> is the
  reversed list. \<^verbatim>\<open>Uint32/Uint64\<close> read 4 or 8 bytes.
\<close>

fun le_bytes :: "nat \<Rightarrow> 'a::len word \<Rightarrow> bytes" where
  "le_bytes 0 w = []"
| "le_bytes (Suc n) w = ucast w # le_bytes n (drop_bit 8 w)"

fun le_word :: "bytes \<Rightarrow> 'a::len word" where
  "le_word [] = 0"
| "le_word (b # bs) = ucast b OR push_bit 8 (le_word bs)"

definition be_bytes :: "nat \<Rightarrow> 'a::len word \<Rightarrow> bytes" where
  "be_bytes n w = rev (le_bytes n w)"

definition be_word :: "bytes \<Rightarrow> 'a::len word" where
  "be_word bs = le_word (rev bs)"

definition PutUint32LE :: "u32 \<Rightarrow> bytes" where
  "PutUint32LE v = le_bytes 4 v"

definition Uint32LE :: "bytes \<Rightarrow> u32" where
  "Uint32LE bs = le_word (take 4 bs)"

definition PutUint64LE :: "u64 \<Rightarrow> bytes" where
  "PutUint64LE v = le_bytes 8 v"

definition Uint64LE :: "bytes \<Rightarrow> u64" where
  "Uint64LE bs = le_word (take 8 bs)"

definition PutUint64BE :: "u64 \<Rightarrow> bytes" where
  "PutUint64BE v = be_bytes 8 v"

definition Uint64BE :: "bytes \<Rightarrow> u64" where
  "Uint64BE bs = be_word (take 8 bs)"

lemma length_le_bytes [simp]: "length (le_bytes n w) = n"
  by (induction n arbitrary: w) auto

lemma length_be_bytes [simp]: "length (be_bytes n w) = n"
  by (simp add: be_bytes_def)

lemma bit_ucast_byte: "bit (ucast (w::'a::len word) :: byte) i \<longleftrightarrow> i < 8 \<and> bit w i"
  by (auto simp: bit_simps dest: bit_imp_le_length)

lemma le_word_le_bytes: "le_word (le_bytes n w) = take_bit (8 * n) (w :: 'a::len word)"
proof (induction n arbitrary: w)
  case (Suc n)
  show ?case
  proof (rule bit_word_eqI)
    fix i assume "i < LENGTH('a)"
    then show "bit (le_word (le_bytes (Suc n) w) :: 'a word) i = bit (take_bit (8 * Suc n) w) i"
      by (cases "i < 8")
        (auto simp: Suc.IH bit_simps le_add_diff_inverse dest: bit_imp_le_length)
  qed
qed simp

lemma le_word_le_bytes_id [codec_simps]:
  "LENGTH('a) \<le> 8 * n \<Longrightarrow> le_word (le_bytes n w) = (w :: 'a::len word)"
  by (simp add: le_word_le_bytes take_bit_word_eq_self)

lemma be_word_be_bytes_id [codec_simps]:
  "LENGTH('a) \<le> 8 * n \<Longrightarrow> be_word (be_bytes n w) = (w :: 'a::len word)"
  by (simp add: be_word_def be_bytes_def le_word_le_bytes_id)

lemma length_PutUint [simp, codec_simps]:
  "length (PutUint32LE v) = 4" "length (PutUint64LE x) = 8" "length (PutUint64BE x) = 8"
  by (simp_all add: PutUint32LE_def PutUint64LE_def PutUint64BE_def)

lemma Uint32LE_Put [simp, codec_simps]: "Uint32LE (PutUint32LE v @ bs) = v"
  by (simp add: Uint32LE_def PutUint32LE_def codec_simps)

lemma Uint64LE_Put [simp, codec_simps]: "Uint64LE (PutUint64LE v @ bs) = v"
  by (simp add: Uint64LE_def PutUint64LE_def codec_simps)

lemma Uint64BE_Put [simp, codec_simps]: "Uint64BE (PutUint64BE v @ bs) = v"
  by (simp add: Uint64BE_def PutUint64BE_def codec_simps)

lemma Uint_Put_nil [simp, codec_simps]:
  "Uint32LE (PutUint32LE v) = v" "Uint64LE (PutUint64LE x) = x" "Uint64BE (PutUint64BE x) = x"
  using Uint32LE_Put [of v "[]"] Uint64LE_Put [of x "[]"] Uint64BE_Put [of x "[]"] by simp_all

lemma le_word_zeros [simp]: "le_word (replicate n 0) = 0"
  by (induction n) auto

lemma le_bytes_le_word:
  "length bs = n \<Longrightarrow> 8 * n \<le> LENGTH('a) \<Longrightarrow> le_bytes n (le_word bs :: 'a::len word) = bs"
proof (induction n arbitrary: bs)
  case (Suc n)
  then obtain b cs where bs: "bs = b # cs" and cs: "length cs = n" by (cases bs) auto
  let ?w = "le_word bs :: 'a word"
  have "ucast ?w = b"
    by (rule bit_word_eqI) (use Suc.prems(2) in \<open>auto simp: bs bit_simps\<close>)
  moreover have "le_bytes n (drop_bit 8 ?w) = cs"
  proof -
    have "bit (drop_bit 8 ?w) i = bit (take_bit (LENGTH('a) - 8) (le_word cs :: 'a word)) i" for i
      using Suc.prems(2) by (auto simp: bs bit_simps dest: bit_imp_le_length)
    then have eq: "drop_bit 8 ?w = take_bit (LENGTH('a) - 8) (le_word cs)"
      by (simp add: bit_word_eqI)
    have "le_bytes n (take_bit m w) = le_bytes n w" if "8 * n \<le> m" for m and w :: "'a word"
      using that
    proof (induction n arbitrary: m w)
      case (Suc n)
      then have "ucast (take_bit m w) = (ucast w :: byte)"
        by (intro bit_word_eqI) (auto simp: bit_simps)
      moreover have "drop_bit 8 (take_bit m w) = take_bit (m - 8) (drop_bit 8 w)"
        using Suc.prems by (simp add: drop_bit_take_bit)
      ultimately show ?case using Suc.IH [of "m - 8" "drop_bit 8 w"] Suc.prems by simp
    qed simp
    then have "le_bytes n (drop_bit 8 ?w) = le_bytes n (le_word cs :: 'a word)"
      using Suc.prems(2) by (simp add: eq)
    with Suc.IH [OF cs] Suc.prems(2) show ?thesis by simp
  qed
  ultimately show ?case by (simp add: bs)
qed simp

end
