(* ===== verification/Crc.thy ===== *)
theory Crc
  imports Prelude
begin

unbundle bit_operations_syntax

text \<open>
  \<^verbatim>\<open>pkg/crc/crc.go\<close>: the seedable CRC-32C digest that chains WAL records, over Go's
  \<^verbatim>\<open>hash/crc32\<close> (the table of \<^verbatim>\<open>MakeTable(Castagnoli)\<close> and the byte loop of
  \<^verbatim>\<open>Update\<close>). The lemmas show that writing in pieces is writing at once, that the digest
  continues a previous chain, and that no single corrupted byte goes unnoticed.
\<close>

section \<open>\<^verbatim>\<open>hash/crc32\<close>\<close>

definition Castagnoli :: u32 where
  "Castagnoli = 0x82f63b78"

definition crc_bit :: "u32 \<Rightarrow> u32" where
  "crc_bit c = (if bit c 0 then drop_bit 1 c XOR Castagnoli else drop_bit 1 c)"

definition crc_entry :: "byte \<Rightarrow> u32" where
  "crc_entry i = (crc_bit ^^ 8) (ucast i)"

definition crc_byte :: "u32 \<Rightarrow> byte \<Rightarrow> u32" where
  "crc_byte c v = crc_entry (ucast c XOR v) XOR drop_bit 8 c"

fun crc_loop :: "u32 \<Rightarrow> bytes \<Rightarrow> u32" where
  "crc_loop c [] = c"
| "crc_loop c (v # p) = crc_loop (crc_byte c v) p"

definition crc32_Update :: "u32 \<Rightarrow> bytes \<Rightarrow> u32" where
  "crc32_Update c p = NOT (crc_loop (NOT c) p)"

section \<open>The digest of \<^verbatim>\<open>pkg/crc\<close>\<close>

record digest =
  crc :: u32

definition crc_Size :: nat where
  "crc_Size = 4"

definition crc_BlockSize :: nat where
  "crc_BlockSize = 1"

definition crc_New :: "u32 \<Rightarrow> digest" where
  "crc_New prev = \<lparr>crc = prev\<rparr>"

definition crc_Reset :: "digest \<Rightarrow> digest" where
  "crc_Reset d = d\<lparr>crc := 0\<rparr>"

definition crc_Write :: "digest \<Rightarrow> bytes \<Rightarrow> digest \<times> nat" where
  "crc_Write d p = (d\<lparr>crc := crc32_Update (crc d) p\<rparr>, length p)"

definition crc_Sum32 :: "digest \<Rightarrow> u32" where
  "crc_Sum32 d = crc d"

definition crc_Sum :: "digest \<Rightarrow> bytes \<Rightarrow> bytes" where
  "crc_Sum d inp =
     (let s = crc_Sum32 d
      in inp @ [ucast (drop_bit 24 s), ucast (drop_bit 16 s), ucast (drop_bit 8 s), ucast s])"

section \<open>Chaining\<close>

lemma crc32_Update_Nil [simp]: "crc32_Update c [] = c"
  by (simp add: crc32_Update_def)

lemma crc_loop_append [simp]: "crc_loop c (p @ q) = crc_loop (crc_loop c p) q"
  by (induction p arbitrary: c) auto

lemma crc32_Update_append: "crc32_Update c (p @ q) = crc32_Update (crc32_Update c p) q"
  by (simp add: crc32_Update_def)

lemma crc_Write_simps [simp]:
  "crc (fst (crc_Write d p)) = crc32_Update (crc d) p"
  "snd (crc_Write d p) = length p"
  by (simp_all add: crc_Write_def)

lemma crc_New_Sum32 [simp]: "crc_Sum32 (crc_New c) = c"
  by (simp add: crc_New_def crc_Sum32_def)

lemma crc_entry_unfold:
  "crc_entry i = crc_bit (crc_bit (crc_bit (crc_bit (crc_bit (crc_bit (crc_bit (crc_bit (ucast i))))))))"
  by (simp add: crc_entry_def eval_nat_numeral)

lemma crc_bit_odd: "crc_bit c = (if odd c then drop_bit 1 c XOR 0x82f63b78 else drop_bit 1 c)"
  by (simp add: crc_bit_def Castagnoli_def bit_0)

lemma crc32_Update_eval:
  "crc32_Update c p = 0xffffffff XOR crc_loop (0xffffffff XOR c) p"
proof -
  have "(0xffffffff :: u32) = -1" by simp
  then have "NOT w = 0xffffffff XOR w" for w :: u32
    by (metis bit.xor_one_left)
  then show ?thesis by (simp add: crc32_Update_def)
qed

lemmas crc_eval = crc32_Update_eval crc_byte_def crc_entry_unfold crc_bit_odd

section \<open>Injectivity of the byte step\<close>

text \<open>
  The reflected Castagnoli polynomial has its top bit set while a right shift clears it, so
  one bit step can be undone; hence the byte step is injective in the register and, for a
  fixed register, in the byte.
\<close>

lemma bit_Castagnoli_31: "bit Castagnoli 31"
  by (simp add: Castagnoli_def)

lemma crc_bit_top: "bit (crc_bit c) 31 = bit c 0"
  using word_not_bit_beyond [of 32 c] by (simp add: crc_bit_def bit_simps bit_Castagnoli_31)

lemma crc_bit_inj: "crc_bit c = crc_bit d \<Longrightarrow> c = d"
proof -
  assume eq: "crc_bit c = crc_bit d"
  then have b0: "bit c 0 = bit d 0" by (metis crc_bit_top)
  with eq have sh: "drop_bit 1 c = drop_bit 1 d"
    by (simp add: crc_bit_def bit_0 split: if_splits del: One_nat_def)
  show "c = d"
  proof (rule bit_word_eqI)
    fix n assume "n < LENGTH(32)"
    show "bit c n = bit d n"
    proof (cases n)
      case 0
      with b0 show ?thesis by simp
    next
      case (Suc m)
      from sh have "bit (drop_bit 1 c) m = bit (drop_bit 1 d) m" by simp
      with Suc show ?thesis by (simp add: bit_simps)
    qed
  qed
qed

lemma crc_bit_xor: "crc_bit (c XOR d) = crc_bit c XOR crc_bit d"
  by (rule bit_word_eqI) (auto simp: crc_bit_def bit_simps)

lemma crc_bits_inj: "(crc_bit ^^ n) c = (crc_bit ^^ n) d \<Longrightarrow> c = d"
  by (induction n) (auto dest: crc_bit_inj)

lemma crc_bits_xor: "(crc_bit ^^ n) (c XOR d) = (crc_bit ^^ n) c XOR (crc_bit ^^ n) d"
  by (induction n) (auto simp: crc_bit_xor)

lemma crc_bits_high: "(crc_bit ^^ n) c = drop_bit n c" if "take_bit n c = 0" for c :: u32
  using that
proof (induction n arbitrary: c)
  case (Suc n)
  have b: "\<not> bit c i" if "i < Suc n" for i
    using Suc.prems that by (metis bit_0_eq bot_apply bot_bool_def bit_take_bit_iff)
  then have "crc_bit c = drop_bit 1 c" by (simp add: crc_bit_def)
  moreover have "take_bit n (drop_bit 1 c) = 0"
    by (rule bit_word_eqI) (use b in \<open>auto simp: bit_simps\<close>)
  ultimately show ?case using Suc.IH [of "drop_bit 1 c"]
    by (simp add: funpow_swap1 drop_bit_drop_bit)
qed simp

lemma crc_byte_bits: "crc_byte c v = (crc_bit ^^ 8) (c XOR ucast v)"
proof -
  let ?lo = "ucast (ucast c XOR v) :: u32" and ?hi = "push_bit 8 (drop_bit 8 c)"
  have split: "c XOR ucast v = ?lo XOR ?hi"
    by (rule bit_word_eqI) (auto simp: bit_simps)
  have low: "take_bit 8 ?hi = 0"
    by (rule bit_word_eqI) (auto simp: bit_simps)
  have "(crc_bit ^^ 8) ?hi = drop_bit 8 ?hi"
    by (rule crc_bits_high [OF low])
  also have "\<dots> = drop_bit 8 c"
    by (rule bit_word_eqI) (auto simp: bit_simps dest: bit_imp_le_length)
  finally show ?thesis
    by (simp only: split crc_bits_xor crc_byte_def crc_entry_def)
qed

lemma crc_byte_inj_reg: "crc_byte c v = crc_byte d v \<Longrightarrow> c = d"
  unfolding crc_byte_bits by (drule crc_bits_inj) simp

lemma crc_byte_inj_byte: "crc_byte c v = crc_byte c w \<Longrightarrow> v = w"
proof -
  assume "crc_byte c v = crc_byte c w"
  then have "c XOR ucast v = c XOR ucast w"
    unfolding crc_byte_bits by (rule crc_bits_inj)
  then have "(ucast v :: u32) = ucast w" by simp
  then have "(ucast (ucast v :: u32) :: byte) = ucast (ucast w :: u32)" by simp
  then show "v = w" by (simp add: ucast_up_ucast_id is_up)
qed

lemma crc_loop_inj: "crc_loop c p = crc_loop d p \<Longrightarrow> c = d"
  by (induction p arbitrary: c d) (auto dest: crc_byte_inj_reg)

lemma crc32_Update_inj: "crc32_Update c p = crc32_Update d p \<Longrightarrow> c = d"
  unfolding crc32_Update_def
  by (metis crc_loop_inj bit.double_compl)

lemma crc32_Update_changed_byte:
  assumes "i < length p" and "p ! i \<noteq> v"
  shows "crc32_Update c (p[i := v]) \<noteq> crc32_Update c p"
proof
  assume eq: "crc32_Update c (p[i := v]) = crc32_Update c p"
  let ?a = "take i p" and ?z = "drop (Suc i) p"
  have p: "p = ?a @ p ! i # ?z" and q: "p[i := v] = ?a @ v # ?z"
    using assms(1) by (simp_all add: id_take_nth_drop upd_conv_take_nth_drop)
  let ?r = "crc_loop (NOT c) ?a"
  from eq have "crc_loop (crc_byte ?r v) ?z = crc_loop (crc_byte ?r (p ! i)) ?z"
    unfolding crc32_Update_def
    by (metis (no_types, lifting) p q crc_loop_append crc_loop.simps(2) bit.double_compl)
  then show False
    using crc_loop_inj crc_byte_inj_byte assms(2) by blast
qed

section \<open>Properties\<close>

text \<open>The check value of CRC-32C: the digest of the nine characters \<open>123456789\<close>.\<close>

lemma crc_check_value:
  "crc_Sum32 (fst (crc_Write (crc_New 0) [0x31, 0x32, 0x33, 0x34, 0x35, 0x36, 0x37, 0x38, 0x39])) = 0xE3069283"
  by (simp add: crc_Sum32_def crc_New_def crc_eval)

text \<open>Writing a payload in two pieces leaves the digest that writing it at once does; a digest
  seeded with the sum of another continues it; and \<^verbatim>\<open>Sum\<close> appends the four bytes of the sum,
  most significant first.\<close>

theorem crc_digest_chaining:
  "fst (crc_Write (fst (crc_Write d p)) q) = fst (crc_Write d (p @ q)) \<and>
   fst (crc_Write (crc_New (crc_Sum32 d)) p) = fst (crc_Write d p) \<and>
   length (crc_Sum d inp) = length inp + crc_Size \<and> take (length inp) (crc_Sum d inp) = inp"
  by (simp add: crc_Write_def crc32_Update_append crc_New_def crc_Sum32_def crc_Sum_def crc_Size_def Let_def)

text \<open>C38: No single changed byte goes unnoticed: whatever the seed, the digest of a payload differs
  from that of the payload with one byte replaced by another.\<close>

theorem crc_detects_changed_byte:
  assumes "i < length p" and "p ! i \<noteq> v"
  shows "crc_Sum32 (fst (crc_Write d (p[i := v]))) \<noteq> crc_Sum32 (fst (crc_Write d p))"
  using crc32_Update_changed_byte [OF assms] by (simp add: crc_Sum32_def)

theorem crc_detects_changed_byte_witness:
  "crc_Sum32 (fst (crc_Write (crc_New 0) [1, 3])) \<noteq> crc_Sum32 (fst (crc_Write (crc_New 0) [1, 2]))"
  using crc_detects_changed_byte [of 1 "[1, 2]" 3 "crc_New 0"] by simp

end
