(* ===== verification/Go_IO.thy ===== *)
theory Go_IO
  imports Prelude
begin

text \<open>
  What the sources use of Go's \<^verbatim>\<open>io\<close> and \<^verbatim>\<open>os\<close> packages. A file has its current
  contents and the contents of its last \<^verbatim>\<open>fsync\<close>; a descriptor is a name and a position.
  Every system call that can fail takes the next entry of a fault schedule: \<open>None\<close> (or an
  exhausted schedule) lets the call succeed, \<open>Some c\<close> makes it fail, a write after \<open>c\<close> bytes.
  The interface \<open>io_writer\<close> is the contract \<^verbatim>\<open>io.Writer\<close> documents, with what has reached
  the writer as the abstraction; it is interpreted on the file write below.
\<close>

section \<open>Files and descriptors\<close>

datatype io_error = EOF | ErrUnexpectedEOF | ErrIO | ErrFileClosed

record osfile =
  fdata :: bytes
  fsynced :: bytes
  fisdir :: bool

record os =
  files :: "(string \<times> osfile) list"
  faults :: "nat option list"

record fd =
  fd_name :: string
  fd_pos :: nat
  fd_open :: bool

definition next_fault :: "os \<Rightarrow> nat option \<times> os" where
  "next_fault w = (case faults w of [] \<Rightarrow> (None, w) | f # fs \<Rightarrow> (f, w\<lparr>faults := fs\<rparr>))"

fun alist_put :: "'k \<Rightarrow> 'v \<Rightarrow> ('k \<times> 'v) list \<Rightarrow> ('k \<times> 'v) list" where
  "alist_put k v [] = [(k, v)]"
| "alist_put k v ((k', v') # xs) = (if k' = k then (k, v) # xs else (k', v') # alist_put k v xs)"

definition file_of :: "os \<Rightarrow> string \<Rightarrow> osfile" where
  "file_of w nm =
     (case map_of (files w) nm of Some f \<Rightarrow> f | None \<Rightarrow> \<lparr>fdata = [], fsynced = [], fisdir = False\<rparr>)"

definition put_file :: "string \<Rightarrow> osfile \<Rightarrow> os \<Rightarrow> os" where
  "put_file nm f w = w\<lparr>files := alist_put nm f (files w)\<rparr>"

definition zero_extend :: "nat \<Rightarrow> bytes \<Rightarrow> bytes" where
  "zero_extend n bs = bs @ replicate (n - length bs) 0"

text \<open>\<^verbatim>\<open>pwrite\<close>: overwrite from a position on, filling a hole with zeros.\<close>

definition overwrite :: "nat \<Rightarrow> bytes \<Rightarrow> bytes \<Rightarrow> bytes" where
  "overwrite n p bs = take n (zero_extend n bs) @ p @ drop (n + length p) bs"

definition file_Write :: "os \<times> fd \<Rightarrow> bytes \<Rightarrow> (os \<times> fd) \<times> nat \<times> io_error option" where
  "file_Write = (\<lambda>(w, h) p.
     (if \<not> fd_open h then ((w, h), 0, Some ErrFileClosed)
      else
        let (flt, w1) = next_fault w;
            n = (case flt of None \<Rightarrow> length p | Some c \<Rightarrow> min c (length p));
            f = file_of w1 (fd_name h);
            w2 = put_file (fd_name h) (f\<lparr>fdata := overwrite (fd_pos h) (take n p) (fdata f)\<rparr>) w1
        in ((w2, h\<lparr>fd_pos := fd_pos h + n\<rparr>), n, map_option (\<lambda>_. ErrIO) flt)))"

definition file_Sync :: "os \<Rightarrow> fd \<Rightarrow> os \<times> io_error option" where
  "file_Sync w h =
     (if \<not> fd_open h then (w, Some ErrFileClosed)
      else
        let (flt, w1) = next_fault w; f = file_of w1 (fd_name h)
        in case flt of
             None \<Rightarrow> (put_file (fd_name h) (f\<lparr>fsynced := fdata f\<rparr>) w1, None)
           | Some _ \<Rightarrow> (w1, Some ErrIO))"

text \<open>Calls that have no effect on the contents: seek, close, opening to read.\<close>

definition os_call :: "os \<Rightarrow> os \<times> io_error option" where
  "os_call w = (let (flt, w1) = next_fault w in (w1, map_option (\<lambda>_. ErrIO) flt))"

text \<open>\<^verbatim>\<open>os.OpenFile\<close> with \<^verbatim>\<open>O_RDWR|O_CREATE|O_TRUNC\<close>, which is also \<^verbatim>\<open>os.Create\<close>.\<close>

definition OpenTrunc :: "os \<Rightarrow> string \<Rightarrow> os \<times> (io_error + fd)" where
  "OpenTrunc w name =
     (case os_call w of
        (w1, Some e) \<Rightarrow> (w1, Inl e)
      | (w1, None) \<Rightarrow>
          if fisdir (file_of w1 name) then (w1, Inl ErrIO)
          else (put_file name ((file_of w1 name)\<lparr>fdata := []\<rparr>) w1,
                Inr \<lparr>fd_name = name, fd_pos = 0, fd_open = True\<rparr>))"

section \<open>Numbers in \<^verbatim>\<open>fmt\<close>: \<^verbatim>\<open>%d\<close> and zero padding\<close>

fun dec_digits :: "nat \<Rightarrow> string" where
  "dec_digits n =
     (if n < 10 then [char_of (48 + n)] else dec_digits (n div 10) @ [char_of (48 + n mod 10)])"

declare dec_digits.simps [simp del]

definition pad_left :: "nat \<Rightarrow> char \<Rightarrow> string \<Rightarrow> string" where
  "pad_left n c s = replicate (n - length s) c @ s"

section \<open>The directory and crashes\<close>

definition dir_names :: "os \<Rightarrow> (string \<times> bool) list" where
  "dir_names s = map (\<lambda>(n, f). (n, fisdir f)) (files s)"

definition has_file :: "os \<Rightarrow> string \<Rightarrow> bool" where
  "has_file s n \<longleftrightarrow> n \<in> fst ` set (dir_names s)"

text \<open>
  After a crash every file holds a prefix of its contents that contains what the last
  \<^verbatim>\<open>fsync\<close> made durable; the entries of the directory survive.
\<close>

definition crash :: "os \<Rightarrow> os \<Rightarrow> bool" where
  "crash s s' \<longleftrightarrow> dir_names s' = dir_names s \<and>
     (\<forall>n. fisdir (file_of s' n) = fisdir (file_of s n) \<and>
        (\<exists>k \<ge> length (fsynced (file_of s n)). fdata (file_of s' n) = take k (fdata (file_of s n))))"

text \<open>A restart after a crash: what a file still holds is on the disk.\<close>

definition restart :: "os \<Rightarrow> os \<Rightarrow> bool" where
  "restart s s' \<longleftrightarrow> crash s s' \<and> (\<forall>n. fsynced (file_of s' n) = fdata (file_of s' n))"

section \<open>\<^verbatim>\<open>io.ReadFull\<close>\<close>

definition ReadFull :: "nat \<Rightarrow> bytes \<Rightarrow> io_error + bytes \<times> bytes" where
  "ReadFull n r =
     (if n \<le> length r then Inr (take n r, drop n r)
      else if r = [] then Inl EOF else Inl ErrUnexpectedEOF)"

lemma ReadFull_append [simp]: "ReadFull (length p) (p @ q) = Inr (p, q)"
  by (simp add: ReadFull_def)

lemma ReadFull_exact: "length p = n \<Longrightarrow> ReadFull n (p @ q) = Inr (p, q)"
  by (simp add: ReadFull_def)

section \<open>The contract of \<^verbatim>\<open>io.Writer\<close>\<close>

locale io_writer =
  fixes wr :: "'s \<Rightarrow> bytes \<Rightarrow> 's \<times> nat \<times> io_error option"
    and out :: "'s \<Rightarrow> bytes"
  assumes wr_count: "wr s p = (s', n, err) \<Longrightarrow> n \<le> length p"
    and wr_out: "wr s p = (s', n, err) \<Longrightarrow> out s' = out s @ take n p"
    and wr_full: "wr s p = (s', n, None) \<Longrightarrow> n = length p"
begin

lemma wr_ok: "wr s p = (s', n, None) \<Longrightarrow> out s' = out s @ p"
  using wr_out [of s p s' n None] wr_full [of s p s' n] by simp

end

section \<open>The file write meets the contract\<close>

lemma map_of_alist_put [simp]: "map_of (alist_put k v xs) = (map_of xs)(k \<mapsto> v)"
  by (induction xs) (auto simp: fun_eq_iff)

lemma alist_put_keys: "set (map fst (alist_put k v xs)) = insert k (set (map fst xs))"
  by (induction k v xs rule: alist_put.induct) auto

lemma distinct_alist_put: "distinct (map fst xs) \<Longrightarrow> distinct (map fst (alist_put k v xs))"
  by (induction k v xs rule: alist_put.induct) (auto simp: alist_put_keys simp del: set_map)

lemma file_of_put [simp]:
  "file_of (put_file nm f w) nm' = (if nm' = nm then f else file_of w nm')"
  by (simp add: file_of_def put_file_def)

lemma files_next_fault [simp]: "next_fault w = (f, w') \<Longrightarrow> files w' = files w"
  by (auto simp: next_fault_def split: list.splits)

lemma file_of_next_fault: "next_fault w = (f, w') \<Longrightarrow> file_of w' = file_of w"
  by (auto simp: file_of_def fun_eq_iff)

definition file_out :: "os \<times> fd \<Rightarrow> bytes" where
  "file_out = (\<lambda>(w, h). take (fd_pos h) (zero_extend (fd_pos h) (fdata (file_of w (fd_name h)))))"

lemma length_zero_extend [simp]: "length (zero_extend n bs) = max n (length bs)"
  by (auto simp: zero_extend_def)

lemma length_file_out [simp]: "length (file_out s) = fd_pos (snd s)"
  by (cases s) (simp add: file_out_def min_def max_def)

lemma take_overwrite:
  "take (n + length p) (zero_extend (n + length p) (overwrite n p bs)) =
   take n (zero_extend n bs) @ p"
proof -
  let ?a = "take n (zero_extend n bs)"
  have "length (?a @ p) = n + length p" by (simp add: min_def max_def)
  then show ?thesis
    unfolding overwrite_def zero_extend_def [of "n + length p"]
    by (metis append_assoc take_append_exact)
qed

lemma overwrite_Nil: "n \<le> length bs \<Longrightarrow> overwrite n [] bs = bs"
  by (simp add: overwrite_def zero_extend_def)

lemma file_Write_cases:
  assumes "file_Write (w, h) p = ((w', h'), n, err)"
  shows "n \<le> length p"
    and "err = None \<Longrightarrow> n = length p \<and> fd_open h"
    and "h' = h\<lparr>fd_pos := fd_pos h + n\<rparr>"
    and "fd_open h \<Longrightarrow> fdata (file_of w' (fd_name h)) =
           overwrite (fd_pos h) (take n p) (fdata (file_of w (fd_name h)))"
    and "\<not> fd_open h \<Longrightarrow> n = 0 \<and> w' = w"
    and "fsynced (file_of w' (fd_name h)) = fsynced (file_of w (fd_name h))"
    and "nm \<noteq> fd_name h \<Longrightarrow> file_of w' nm = file_of w nm"
proof -
  obtain flt w1 where nf: "next_fault w = (flt, w1)" by fastforce
  note fw1 = file_of_next_fault [OF nf]
  show "n \<le> length p" "err = None \<Longrightarrow> n = length p \<and> fd_open h"
    "h' = h\<lparr>fd_pos := fd_pos h + n\<rparr>"
    "fd_open h \<Longrightarrow> fdata (file_of w' (fd_name h)) =
       overwrite (fd_pos h) (take n p) (fdata (file_of w (fd_name h)))"
    "\<not> fd_open h \<Longrightarrow> n = 0 \<and> w' = w"
    "fsynced (file_of w' (fd_name h)) = fsynced (file_of w (fd_name h))"
    "nm \<noteq> fd_name h \<Longrightarrow> file_of w' nm = file_of w nm"
    using assms
    by (auto simp: file_Write_def nf fw1 Let_def split: option.splits if_splits)
qed

interpretation fw: io_writer file_Write file_out
proof unfold_locales
  fix s p s' n err
  assume wr: "file_Write s p = (s', n, err)"
  obtain w h w' h' where s: "s = (w, h)" "s' = (w', h')" by (cases s, cases s') auto
  note c = file_Write_cases [OF wr [unfolded s]]
  show "n \<le> length p" by (rule c(1))
  show "file_out s' = file_out s @ take n p"
  proof (cases "fd_open h")
    case True
    have "length (take n p) = n" using c(1) by simp
    with take_overwrite [of "fd_pos h" "take n p" "fdata (file_of w (fd_name h))"] True
    show ?thesis by (simp add: s file_out_def c(3,4))
  next
    case False
    with c(3,5) show ?thesis by (simp add: s)
  qed
next
  fix s p s' n
  assume "file_Write s p = (s', n, None)"
  then show "n = length p"
    by (cases s, cases s') (auto dest: file_Write_cases(2))
qed

section \<open>Directory facts\<close>

lemma has_file_map_of: "has_file s n \<longleftrightarrow> map_of (files s) n \<noteq> None"
  by (auto simp: has_file_def dir_names_def map_of_eq_None_iff image_iff) force+

lemma has_file_put [simp]: "has_file (put_file n f s) k \<longleftrightarrow> k = n \<or> has_file s k"
  by (auto simp: has_file_map_of put_file_def)

lemma dir_names_next_fault: "next_fault s = (f, s') \<Longrightarrow> dir_names s' = dir_names s"
  by (auto simp: dir_names_def)

lemma has_file_cong: "dir_names s' = dir_names s \<Longrightarrow> has_file s' n = has_file s n"
  by (simp add: has_file_def)

end
