(* ===== verification/PageWriter.thy ===== *)
theory PageWriter
  imports Go_IO
begin

text \<open>
  \<^verbatim>\<open>pkg/wal/pagewriter.go\<close>: the page-aligned write buffer under the WAL encoder. The
  operations take the underlying \<^verbatim>\<open>io.Writer\<close> as the function argument \<open>wr\<close> and its
  state. Inside the locale \<open>io_writer\<close> the lemmas show that the buffer never overflows (so
  no \<^verbatim>\<open>copy\<close> is cut short), that output and buffer together are exactly the bytes written,
  and that a write hands data down on page boundaries only.
\<close>

section \<open>State and operations\<close>

record pagewriter =
  pageOffset :: nat
  pageBytes :: nat
  bufferedBytes :: nat
  buf :: bytes
  bufWatermarkBytes :: nat

definition defaultBufferBytes :: nat where
  "defaultBufferBytes = 128 * 1024"

definition defaultPageBytes :: nat where
  "defaultPageBytes = 4096"

definition NewPageWriter :: "int \<Rightarrow> nat \<Rightarrow> int \<Rightarrow> pagewriter" where
  "NewPageWriter pgBytes pgOffset bufferSize =
     (let pgb = (if pgBytes \<le> 0 then defaultPageBytes else nat pgBytes);
          bs = (if bufferSize \<le> 0 then defaultBufferBytes else nat bufferSize)
      in \<lparr>pageOffset = pgOffset, pageBytes = pgb, bufferedBytes = 0,
          buf = replicate (bs + pgb) 0, bufWatermarkBytes = bs\<rparr>)"

text \<open>Go's \<^verbatim>\<open>copy(dst[k:], src)\<close>: as many bytes as fit.\<close>

definition copy_at :: "bytes \<Rightarrow> nat \<Rightarrow> bytes \<Rightarrow> bytes" where
  "copy_at dst k src =
     take k dst @ take (length dst - k) src @ drop (k + length src) dst"

definition pw_buffer :: "pagewriter \<Rightarrow> bytes \<Rightarrow> pagewriter" where
  "pw_buffer pw p =
     pw\<lparr>buf := copy_at (buf pw) (bufferedBytes pw) p,
        bufferedBytes := bufferedBytes pw + length p\<rparr>"

definition PageWriter_Flush ::
  "('s \<Rightarrow> bytes \<Rightarrow> 's \<times> nat \<times> 'e option) \<Rightarrow> pagewriter \<Rightarrow> 's \<Rightarrow> pagewriter \<times> 's \<times> 'e option" where
  "PageWriter_Flush wr pw s =
     (if bufferedBytes pw = 0 then (pw, s, None)
      else let (s', _, err) = wr s (take (bufferedBytes pw) (buf pw))
           in (pw\<lparr>pageOffset := (pageOffset pw + bufferedBytes pw) mod pageBytes pw,
                  bufferedBytes := 0\<rparr>, s', err))"

definition pw_tail :: "pagewriter \<Rightarrow> 's \<Rightarrow> nat \<Rightarrow> bytes \<Rightarrow> pagewriter \<times> 's \<times> nat \<times> 'e option" where
  "pw_tail pw s n p =
     (if 0 < length p then (pw_buffer pw p, s, n + length p, None) else (pw, s, n, None))"

definition pw_direct ::
  "('s \<Rightarrow> bytes \<Rightarrow> 's \<times> nat \<times> 'e option) \<Rightarrow> pagewriter \<Rightarrow> 's \<Rightarrow> nat \<Rightarrow> bytes
   \<Rightarrow> pagewriter \<times> 's \<times> nat \<times> 'e option" where
  "pw_direct wr pw s n p =
     (if length p > pageBytes pw
      then let m = length p div pageBytes pw * pageBytes pw;
               (s', c, werr) = wr s (take m p)
           in case werr of
                Some e \<Rightarrow> (pw, s', n + c, Some e)
              | None \<Rightarrow> pw_tail pw s' (n + c) (drop m p)
      else pw_tail pw s n p)"

definition PageWriter_Write ::
  "('s \<Rightarrow> bytes \<Rightarrow> 's \<times> nat \<times> 'e option) \<Rightarrow> pagewriter \<Rightarrow> 's \<Rightarrow> bytes
   \<Rightarrow> pagewriter \<times> 's \<times> nat \<times> 'e option" where
  "PageWriter_Write wr pw s p =
     (if length p + bufferedBytes pw \<le> bufWatermarkBytes pw
      then (pw_buffer pw p, s, length p, None)
      else
        let slack = pageBytes pw - (pageOffset pw + bufferedBytes pw) mod pageBytes pw
        in if slack \<noteq> pageBytes pw \<and> slack > length p
           then (pw_buffer pw p, s, length p, None)
           else
             let (pw1, n1, p1) =
                   (if slack \<noteq> pageBytes pw
                    then (pw_buffer pw (take slack p), slack, drop slack p)
                    else (pw, 0, p));
                 (pw2, s2, err) = PageWriter_Flush wr pw1 s
             in case err of
                  Some e \<Rightarrow> (pw2, s2, n1, Some e)
                | None \<Rightarrow> pw_direct wr pw2 s2 n1 p1)"

section \<open>Invariant\<close>

text \<open>
  Either the buffer is below its watermark, or it holds the start of one page after a flush,
  or it is filling up the page that contains the watermark. Each case leaves room in
  the \<open>bufWatermarkBytes + pageBytes\<close> bytes of the buffer.
\<close>

definition pw_fill_ok :: "pagewriter \<Rightarrow> bool" where
  "pw_fill_ok pw \<longleftrightarrow>
     bufferedBytes pw \<le> bufWatermarkBytes pw \<or>
     (pageOffset pw mod pageBytes pw = 0 \<and> bufferedBytes pw \<le> pageBytes pw) \<or>
     (pageOffset pw + bufferedBytes pw) div pageBytes pw \<le>
       (pageOffset pw + bufWatermarkBytes pw) div pageBytes pw"

definition pw_inv :: "pagewriter \<Rightarrow> bool" where
  "pw_inv pw \<longleftrightarrow>
     0 < pageBytes pw \<and> 0 < bufWatermarkBytes pw \<and>
     length (buf pw) = bufWatermarkBytes pw + pageBytes pw \<and> pw_fill_ok pw"

definition pw_wf :: "pagewriter \<Rightarrow> bool" where
  "pw_wf pw \<longleftrightarrow>
     0 < pageBytes pw \<and> 0 < bufWatermarkBytes pw \<and>
     length (buf pw) = bufWatermarkBytes pw + pageBytes pw \<and> bufferedBytes pw \<le> length (buf pw)"

definition pw_pending :: "pagewriter \<Rightarrow> bytes" where
  "pw_pending pw = take (bufferedBytes pw) (buf pw)"

lemma pw_inv_New: "pw_inv (NewPageWriter pgb off bs)"
  by (auto simp: pw_inv_def pw_fill_ok_def NewPageWriter_def Let_def
      defaultPageBytes_def defaultBufferBytes_def)

lemma pw_pending_New [simp]: "pw_pending (NewPageWriter pgb off bs) = []"
  by (simp add: pw_pending_def NewPageWriter_def Let_def)

text \<open>The fill bound: the buffered bytes never exceed the buffer.\<close>

lemma div_le_imp_less_add:
  fixes a b P :: nat
  assumes "a div P \<le> b div P" and "0 < P"
  shows "a < b + P"
proof -
  have "a mod P < P" using assms(2) by simp
  then have "a < a div P * P + P" using div_mult_mod_eq [of a P] by linarith
  then have "a < (a div P + 1) * P" by (simp add: algebra_simps)
  also have "\<dots> \<le> (b div P + 1) * P" using assms(1) by simp
  also have "\<dots> \<le> b + P" by (simp add: algebra_simps)
  finally show ?thesis .
qed

lemma pw_inv_room: "pw_inv pw \<Longrightarrow> bufferedBytes pw \<le> length (buf pw)"
  by (auto simp: pw_inv_def pw_fill_ok_def dest!: div_le_imp_less_add)

lemma pw_inv_wf: "pw_inv pw \<Longrightarrow> pw_wf pw"
  using pw_inv_room [of pw] by (simp add: pw_inv_def pw_wf_def)

lemma length_copy_at: "k \<le> length dst \<Longrightarrow> k + length src \<le> length dst \<Longrightarrow>
    length (copy_at dst k src) = length dst"
  by (simp add: copy_at_def)

lemma pw_pending_buffer:
  assumes "bufferedBytes pw + length p \<le> length (buf pw)"
  shows "pw_pending (pw_buffer pw p) = pw_pending pw @ p"
    and "length (buf (pw_buffer pw p)) = length (buf pw)"
  using assms by (auto simp: pw_pending_def pw_buffer_def copy_at_def)

lemma pw_buffer_sel [simp]:
  "pageOffset (pw_buffer pw p) = pageOffset pw" "pageBytes (pw_buffer pw p) = pageBytes pw"
  "bufWatermarkBytes (pw_buffer pw p) = bufWatermarkBytes pw"
  "bufferedBytes (pw_buffer pw p) = bufferedBytes pw + length p"
  by (simp_all add: pw_buffer_def)

lemma pw_inv_buffer:
  assumes "pw_inv pw" and "bufferedBytes pw + length p \<le> length (buf pw)"
    and "pw_fill_ok (pw_buffer pw p)"
  shows "pw_inv (pw_buffer pw p)"
  using assms pw_pending_buffer(2) [of pw p] by (simp add: pw_inv_def)

text \<open>Filling a page that is already open keeps its page number.\<close>

lemma fill_page_div:
  fixes x k P :: nat
  assumes "0 < P" and "k < P - x mod P"
  shows "(x + k) div P = x div P"
proof -
  have "x mod P + k < P" using assms by linarith
  then have "x div P * P \<le> x + k" "x + k < x div P * P + P"
    using div_mult_mod_eq [of x P] by linarith+
  then show ?thesis by (intro div_nat_eqI) (simp_all add: algebra_simps)
qed

lemma fill_page_aligned:
  fixes x P :: nat
  assumes "0 < P"
  shows "(x + (P - x mod P)) mod P = 0"
proof -
  have "x mod P < P" using assms by simp
  then have "x + (P - x mod P) = x div P * P + P"
    using div_mult_mod_eq [of x P] by linarith
  then show ?thesis by simp
qed

text \<open>Buffering below the watermark, and into the open page.\<close>

lemma pw_buffer_low:
  assumes "pw_inv pw" and "length p + bufferedBytes pw \<le> bufWatermarkBytes pw"
  shows "pw_inv (pw_buffer pw p)" and "pw_pending (pw_buffer pw p) = pw_pending pw @ p"
proof -
  have room: "bufferedBytes pw + length p \<le> length (buf pw)"
    using assms by (simp add: pw_inv_def)
  then show "pw_pending (pw_buffer pw p) = pw_pending pw @ p" by (rule pw_pending_buffer)
  show "pw_inv (pw_buffer pw p)"
    by (rule pw_inv_buffer [OF assms(1) room]) (use assms(2) in \<open>simp add: pw_fill_ok_def\<close>)
qed

lemma slack_room:
  assumes "pw_inv pw" and "k \<le> pageBytes pw - (pageOffset pw + bufferedBytes pw) mod pageBytes pw"
    and "(pageOffset pw + bufferedBytes pw) mod pageBytes pw \<noteq> 0"
  shows "bufferedBytes pw + k \<le> length (buf pw)"
proof -
  let ?P = "pageBytes pw" and ?o = "pageOffset pw" and ?b = "bufferedBytes pw"
    and ?w = "bufWatermarkBytes pw"
  have P: "0 < ?P" and len: "length (buf pw) = ?w + ?P" and fill: "pw_fill_ok pw"
    using assms(1) by (auto simp: pw_inv_def)
  have m: "(?o + ?b) mod ?P < ?P" using P by simp
  from fill consider "?b \<le> ?w" | "?o mod ?P = 0 \<and> ?b \<le> ?P"
    | "(?o + ?b) div ?P \<le> (?o + ?w) div ?P"
    by (auto simp: pw_fill_ok_def)
  then show ?thesis
  proof cases
    case 1
    with assms(2) len m show ?thesis by linarith
  next
    case 2
    then have eq: "(?o + ?b) mod ?P = ?b mod ?P" by (metis mod_add_left_eq add_0)
    with assms(3) have "?b \<noteq> ?P" by auto
    with 2 have "?b < ?P" by simp
    with eq assms(2) len show ?thesis by simp
  next
    case 3
    have "?o + ?b + (?P - (?o + ?b) mod ?P) = (?o + ?b) div ?P * ?P + ?P"
      using div_mult_mod_eq [of "?o + ?b" ?P] m by linarith
    also have "\<dots> \<le> (?o + ?w) div ?P * ?P + ?P" using 3 by simp
    also have "\<dots> \<le> ?o + ?w + ?P" by simp
    finally show ?thesis using assms(2) len by linarith
  qed
qed

lemma pw_buffer_slack:
  assumes "pw_inv pw"
    and "length p < pageBytes pw - (pageOffset pw + bufferedBytes pw) mod pageBytes pw"
    and "(pageOffset pw + bufferedBytes pw) mod pageBytes pw \<noteq> 0"
  shows "pw_inv (pw_buffer pw p)" and "pw_pending (pw_buffer pw p) = pw_pending pw @ p"
proof -
  let ?P = "pageBytes pw" and ?o = "pageOffset pw" and ?b = "bufferedBytes pw"
    and ?w = "bufWatermarkBytes pw"
  have P: "0 < ?P" and fill: "pw_fill_ok pw" using assms(1) by (auto simp: pw_inv_def)
  have room: "?b + length p \<le> length (buf pw)"
    using slack_room [OF assms(1) _ assms(3), of "length p"] assms(2) by simp
  then show "pw_pending (pw_buffer pw p) = pw_pending pw @ p" by (rule pw_pending_buffer)
  have dv: "(?o + (?b + length p)) div ?P = (?o + ?b) div ?P"
    using fill_page_div [OF P assms(2)] by (simp add: add.assoc)
  from fill consider "?b \<le> ?w" | "?o mod ?P = 0 \<and> ?b \<le> ?P"
    | "(?o + ?b) div ?P \<le> (?o + ?w) div ?P"
    by (auto simp: pw_fill_ok_def)
  then have "pw_fill_ok (pw_buffer pw p)"
  proof cases
    case 1
    then have "(?o + ?b) div ?P \<le> (?o + ?w) div ?P" by (simp add: div_le_mono)
    with dv show ?thesis by (simp add: pw_fill_ok_def)
  next
    case 2
    then have eq: "(?o + ?b) mod ?P = ?b mod ?P" by (metis mod_add_left_eq add_0)
    with assms(3) 2 have "?b < ?P" by (auto simp: le_less)
    with eq assms(2) have "?b + length p \<le> ?P" by simp
    with 2 show ?thesis by (simp add: pw_fill_ok_def)
  next
    case 3
    with dv show ?thesis by (simp add: pw_fill_ok_def)
  qed
  then show "pw_inv (pw_buffer pw p)" by (rule pw_inv_buffer [OF assms(1) room])
qed

section \<open>Behaviour over any writer\<close>

definition pw_same_size :: "pagewriter \<Rightarrow> pagewriter \<Rightarrow> bool" where
  "pw_same_size pw pw' \<longleftrightarrow>
     pageBytes pw' = pageBytes pw \<and> bufWatermarkBytes pw' = bufWatermarkBytes pw"

text \<open>The page offset the buffer assumes is the one the writer is at, from a base offset.\<close>

definition pw_at :: "nat \<Rightarrow> pagewriter \<Rightarrow> bytes \<Rightarrow> bool" where
  "pw_at base pw bs \<longleftrightarrow> pageOffset pw mod pageBytes pw = (base + length bs) mod pageBytes pw"

context io_writer
begin

lemma Flush_spec:
  assumes "pw_wf pw" and "PageWriter_Flush wr pw s = (pw', s', err)"
  shows "pw_inv pw'" and "pw_pending pw' = []" and "bufferedBytes pw' = 0" and "pw_same_size pw pw'"
    and "\<exists>k. out s' = out s @ take k (pw_pending pw)"
    and "err = None \<Longrightarrow> out s' = out s @ pw_pending pw"
    and "pageOffset pw' mod pageBytes pw = (pageOffset pw + bufferedBytes pw) mod pageBytes pw"
proof -
  have upd: "pw_inv (pw\<lparr>pageOffset := k, bufferedBytes := 0\<rparr>)" for k
    using assms(1) by (simp add: pw_inv_def pw_wf_def pw_fill_ok_def)
  have "bufferedBytes pw = 0 \<Longrightarrow> pw_inv pw"
    using assms(1) by (simp add: pw_inv_def pw_wf_def pw_fill_ok_def)
  note upd = upd this
  show "pw_inv pw'" "pw_pending pw' = []" "bufferedBytes pw' = 0" "pw_same_size pw pw'"
    "err = None \<Longrightarrow> out s' = out s @ pw_pending pw"
    "pageOffset pw' mod pageBytes pw = (pageOffset pw + bufferedBytes pw) mod pageBytes pw"
    using assms upd wr_ok
    by (auto simp: PageWriter_Flush_def pw_pending_def pw_same_size_def Let_def
        split: if_splits prod.splits)
  show "\<exists>k. out s' = out s @ take k (pw_pending pw)"
    using assms(2) unfolding PageWriter_Flush_def pw_pending_def
    by (auto split: if_splits prod.splits dest: wr_out simp del: take_take intro: exI [of _ 0])
qed

lemma pw_tail_spec:
  assumes "pw_inv pw" and "bufferedBytes pw = 0" and "pageOffset pw mod pageBytes pw = 0"
    and "length p \<le> pageBytes pw" and "pw_tail pw s n p = (pw', s', n', err)"
  shows "pw_inv pw' \<and> pw_pending pw' = p \<and> s' = s \<and> n' = n + length p \<and> err = None \<and>
    pageOffset pw' = pageOffset pw \<and> pw_same_size pw pw'"
proof (cases "p = []")
  case True
  with assms show ?thesis by (auto simp: pw_tail_def pw_pending_def pw_same_size_def)
next
  case False
  have room: "bufferedBytes pw + length p \<le> length (buf pw)"
    using assms(1,2,4) by (simp add: pw_inv_def)
  have "pw_inv (pw_buffer pw p)"
    by (rule pw_inv_buffer [OF assms(1) room]) (use assms in \<open>simp add: pw_fill_ok_def\<close>)
  moreover have "pw_pending (pw_buffer pw p) = p"
    using pw_pending_buffer(1) [OF room] assms(2) by (simp add: pw_pending_def)
  moreover have "pw' = pw_buffer pw p" "s' = s" "n' = n + length p" "err = None"
    using False assms(5) by (auto simp: pw_tail_def)
  ultimately show ?thesis by (simp add: pw_same_size_def)
qed

lemma pw_direct_spec:
  assumes inv: "pw_inv pw" and b0: "bufferedBytes pw = 0"
    and po: "pageOffset pw mod pageBytes pw = 0"
    and d: "pw_direct wr pw s n p = (pw', s', n', err)"
  shows "pw_inv pw' \<and> pw_same_size pw pw' \<and> pageOffset pw' = pageOffset pw \<and>
    (\<exists>k. out s' = out s @ take k p) \<and>
    (err = None \<longrightarrow> n' = n + length p \<and> out s' @ pw_pending pw' = out s @ p \<and>
       (\<exists>k. length (out s') = length (out s) + k * pageBytes pw))"
proof (cases "length p > pageBytes pw")
  case False
  then have "length p \<le> pageBytes pw" by simp
  from pw_tail_spec [OF inv b0 po this, of s n pw' s' n' err] False d
  have "pw_inv pw' \<and> pw_pending pw' = p \<and> s' = s \<and> n' = n + length p \<and> err = None \<and>
    pageOffset pw' = pageOffset pw \<and> pw_same_size pw pw'"
    by (simp add: pw_direct_def)
  then show ?thesis by (auto intro: exI [of _ 0])
next
  case True
  let ?P = "pageBytes pw"
  let ?m = "length p div ?P * ?P"
  obtain s1 c werr where w: "wr s (take ?m p) = (s1, c, werr)" by (metis prod_cases3)
  show ?thesis
  proof (cases werr)
    case (Some e)
    with True d w have "pw' = pw" "s' = s1" "err = Some e" by (auto simp: pw_direct_def)
    moreover have "out s1 = out s @ take (min c ?m) p"
      using wr_out [OF w] by (simp add: min.commute)
    ultimately show ?thesis using inv by (auto simp: pw_same_size_def)
  next
    case None
    have P: "0 < ?P" using inv by (simp add: pw_inv_def)
    have m: "?m \<le> length p" by simp
    have c: "c = ?m" using wr_full w m None by fastforce
    have o: "out s1 = out s @ take ?m p" using wr_ok w None by blast
    have "length p - ?m \<le> ?P"
      using P by (simp add: minus_div_mult_eq_mod less_imp_le)
    then have tail: "length (drop ?m p) \<le> ?P" by simp
    have "pw_tail pw s1 (n + c) (drop ?m p) = (pw', s', n', err)"
      using True d w None by (simp add: pw_direct_def)
    from pw_tail_spec [OF inv b0 po tail this]
    have t: "pw_inv pw'" "pw_pending pw' = drop ?m p" "s' = s1" "n' = n + length p"
      "pageOffset pw' = pageOffset pw" "pw_same_size pw pw'"
      using c m by auto
    have "length (out s') = length (out s) + (length p div ?P) * ?P"
      using o t(3) m by (simp add: min_absorb2 del: div_times_less_eq_dividend)
    then show ?thesis using t o by auto
  qed
qed

text \<open>The fill step before the flush: pad the buffer up to the next page boundary.\<close>

lemma fill_spec:
  assumes inv: "pw_inv pw"
    and sl: "slack = pageBytes pw - (pageOffset pw + bufferedBytes pw) mod pageBytes pw"
    and np: "\<not> (slack \<noteq> pageBytes pw \<and> slack > length p)"
    and f: "(if slack \<noteq> pageBytes pw
             then (pw_buffer pw (take slack p), slack, drop slack p) else (pw, 0, p)) = (pw1, n1, p1)"
  shows "pw_wf pw1" and "pw_same_size pw pw1"
    and "pw_pending pw1 @ p1 = pw_pending pw @ p" and "n1 + length p1 = length p"
    and "(pageOffset pw1 + bufferedBytes pw1) mod pageBytes pw = 0"
    and "pageOffset pw1 = pageOffset pw" and "bufferedBytes pw1 = length (pw_pending pw1)"
proof -
  let ?P = "pageBytes pw" and ?x = "pageOffset pw + bufferedBytes pw"
  have P: "0 < ?P" using inv by (simp add: pw_inv_def)
  have wf: "pw_wf pw" using inv by (rule pw_inv_wf)
  have all: "pw_wf pw1 \<and> pw_same_size pw pw1 \<and> pw_pending pw1 @ p1 = pw_pending pw @ p \<and>
    n1 + length p1 = length p \<and> (pageOffset pw1 + bufferedBytes pw1) mod ?P = 0 \<and>
    pageOffset pw1 = pageOffset pw"
  proof (cases "slack = ?P")
    case True
    have "?x mod ?P < ?P" using P by simp
    with True P sl have "?x mod ?P = 0" by linarith
    with True wf f show ?thesis by (auto simp: pw_same_size_def)
  next
    case False
    with f have e: "pw1 = pw_buffer pw (take slack p)" "n1 = slack" "p1 = drop slack p" by auto
    have le: "slack \<le> length p" using np False by simp
    have "?x mod ?P \<noteq> 0" using False sl by auto
    then have room: "bufferedBytes pw + slack \<le> length (buf pw)"
      using slack_room [OF inv] sl by simp
    then have "bufferedBytes pw + length (take slack p) \<le> length (buf pw)" using le by simp
    note pb = pw_pending_buffer [OF this]
    have "(?x + slack) mod ?P = 0" using fill_page_aligned [OF P, of ?x] sl by simp
    then show ?thesis using e pb room le wf by (auto simp: pw_same_size_def pw_wf_def add.assoc)
  qed
  then show "pw_wf pw1" "pw_same_size pw pw1" "pw_pending pw1 @ p1 = pw_pending pw @ p"
    "n1 + length p1 = length p" "(pageOffset pw1 + bufferedBytes pw1) mod ?P = 0"
    "pageOffset pw1 = pageOffset pw" by auto
  from all show "bufferedBytes pw1 = length (pw_pending pw1)"
    by (simp add: pw_pending_def pw_wf_def)
qed

lemma pw_at_aligned:
  "(base + length bs) mod pageBytes pw = 0 \<Longrightarrow> pageOffset pw mod pageBytes pw = 0 \<Longrightarrow> pw_at base pw bs"
  by (simp add: pw_at_def)

lemma Write_spec:
  assumes inv: "pw_inv pw" and W: "PageWriter_Write wr pw s p = (pw', s', n, err)"
  shows "pw_inv pw' \<and> pw_same_size pw pw' \<and> (\<exists>k. out s' = out s @ take k (pw_pending pw @ p)) \<and>
    (err = None \<longrightarrow> n = length p \<and> out s' @ pw_pending pw' = out s @ pw_pending pw @ p \<and>
       (pw_at base pw (out s) \<longrightarrow> pw_at base pw' (out s') \<and>
          (out s' = out s \<or> (base + length (out s')) mod pageBytes pw = 0)))"
proof (cases "length p + bufferedBytes pw \<le> bufWatermarkBytes pw")
  case True
  with W pw_buffer_low [OF inv True] show ?thesis
    by (auto simp: PageWriter_Write_def pw_same_size_def pw_at_def intro: exI [of _ 0])
next
  case high: False
  define slack where "slack = pageBytes pw - (pageOffset pw + bufferedBytes pw) mod pageBytes pw"
  show ?thesis
  proof (cases "slack \<noteq> pageBytes pw \<and> slack > length p")
    case True
    then have "length p < pageBytes pw - (pageOffset pw + bufferedBytes pw) mod pageBytes pw"
      "(pageOffset pw + bufferedBytes pw) mod pageBytes pw \<noteq> 0"
      by (auto simp: slack_def)
    with W high True pw_buffer_slack [OF inv this] show ?thesis
      by (auto simp: PageWriter_Write_def pw_same_size_def pw_at_def Let_def
          simp flip: slack_def intro: exI [of _ 0])
  next
    case False
    obtain pw1 n1 p1 where f: "(if slack \<noteq> pageBytes pw
        then (pw_buffer pw (take slack p), slack, drop slack p) else (pw, 0, p)) = (pw1, n1, p1)"
      by (metis prod_cases3)
    obtain pw2 s2 e where F: "PageWriter_Flush wr pw1 s = (pw2, s2, e)" by (metis prod_cases3)
    note fs = fill_spec [OF inv slack_def False f]
    note fl = Flush_spec [OF fs(1) F]
    have W': "(case e of Some x \<Rightarrow> (pw2, s2, n1, Some x) | None \<Rightarrow> pw_direct wr pw2 s2 n1 p1)
        = (pw', s', n, err)"
      using W high False f F by (simp add: PageWriter_Write_def Let_def flip: slack_def)
    obtain k where k: "out s2 = out s @ take k (pw_pending pw1)" using fl(5) by blast
    have sz: "pw_same_size pw pw2" "pageBytes pw2 = pageBytes pw" "pageBytes pw1 = pageBytes pw"
      using fs(2) fl(4) by (auto simp: pw_same_size_def)
    show ?thesis
    proof (cases e)
      case (Some x)
      have "take k (pw_pending pw1) = take (min k (length (pw_pending pw1))) (pw_pending pw1 @ p1)"
        by (simp add: min_def)
      with Some W' fl(1) sz(1) k fs(3) show ?thesis by auto
    next
      case None
      have o2: "out s2 = out s @ pw_pending pw1" using fl(6) None by simp
      have po2: "pageOffset pw2 mod pageBytes pw2 = 0" using fl(7) fs(5) sz by simp
      have d: "pw_direct wr pw2 s2 n1 p1 = (pw', s', n, err)" using W' None by simp
      note ds = pw_direct_spec [OF fl(1) fl(3) po2 d]
      from ds obtain j where j: "out s' = out s2 @ take j p1" by blast
      have "out s' = out s @ take (length (pw_pending pw1) + j) (pw_pending pw1 @ p1)"
        using o2 j by simp
      then have pre: "\<exists>k. out s' = out s @ take k (pw_pending pw @ p)" using fs(3) by metis
      have al: "pw_at base pw' (out s') \<and> (base + length (out s')) mod pageBytes pw = 0"
        if ok: "err = None" and at: "pw_at base pw (out s)"
      proof -
        obtain m where "length (out s') = length (out s2) + m * pageBytes pw" using ds ok sz by auto
        then have "(base + length (out s')) mod pageBytes pw =
            (base + length (out s2)) mod pageBytes pw"
          by (simp flip: add.assoc)
        also have "\<dots> = (base + length (out s) + bufferedBytes pw1) mod pageBytes pw"
          by (simp add: o2 fs(7) add.assoc)
        also have "\<dots> = (pageOffset pw1 + bufferedBytes pw1) mod pageBytes pw"
          using at fs(6) by (metis mod_add_left_eq pw_at_def)
        finally have "(base + length (out s')) mod pageBytes pw = 0" by (simp add: fs(5))
        then show ?thesis using ds po2 sz by (auto simp: pw_same_size_def intro: pw_at_aligned)
      qed
      have "out s' @ pw_pending pw' = out s @ pw_pending pw @ p" if "err = None"
        using ds that o2 fs(3) by simp
      then show ?thesis using ds pre al sz fs(4) by (auto simp: pw_same_size_def)
    qed
  qed
qed

end

section \<open>What a writer leaves alone\<close>

text \<open>
  A reflexive and transitive relation that every write keeps is kept by the page writer: the
  frame of the write, whatever else the state of the writer holds.
\<close>

locale io_writer_frame = io_writer +
  fixes R :: "'s \<Rightarrow> 's \<Rightarrow> bool"
  assumes R_refl: "R s s"
    and R_trans: "R s t \<Longrightarrow> R t v \<Longrightarrow> R s v"
    and R_wr: "wr s p = (s', n, err) \<Longrightarrow> R s s'"
begin

lemma Flush_frame: "PageWriter_Flush wr pw s = (pw', s', err) \<Longrightarrow> R s s'"
  by (auto simp: PageWriter_Flush_def Let_def split: if_splits prod.splits intro: R_refl R_wr)

lemma pw_direct_frame: "pw_direct wr pw s n p = (pw', s', n', err) \<Longrightarrow> R s s'"
  by (auto simp: pw_direct_def pw_tail_def Let_def split: if_splits prod.splits option.splits
      intro: R_refl R_wr)

lemma Write_frame:
  assumes "PageWriter_Write wr pw s p = (pw', s', n, err)"
  shows "R s s'"
proof -
  obtain slack where sl: "slack = pageBytes pw - (pageOffset pw + bufferedBytes pw) mod pageBytes pw"
    by blast
  obtain pw1 n1 p1 where f: "(if slack \<noteq> pageBytes pw
      then (pw_buffer pw (take slack p), slack, drop slack p) else (pw, 0, p)) = (pw1, n1, p1)"
    by (metis prod_cases3)
  obtain pw2 s2 e where F: "PageWriter_Flush wr pw1 s = (pw2, s2, e)" by (metis prod_cases3)
  show ?thesis
    using assms Flush_frame [OF F] R_refl R_trans pw_direct_frame [of pw2 s2 n1 p1 pw' s' n err]
    by (auto simp: PageWriter_Write_def Let_def f F simp flip: sl split: if_splits option.splits)
qed

end

section \<open>A writer that does not fail\<close>

text \<open>As long as the writer is in a state whose writes succeed, so do the page writer's.\<close>

locale io_writer_live = io_writer +
  fixes live :: "'s \<Rightarrow> bool"
  assumes wr_live: "live s \<Longrightarrow> wr s p = (s', n, err) \<Longrightarrow> live s' \<and> err = None"
begin

lemma Flush_live: "live s \<Longrightarrow> PageWriter_Flush wr pw s = (pw', s', err) \<Longrightarrow> live s' \<and> err = None"
  by (auto simp: PageWriter_Flush_def Let_def split: if_splits prod.splits dest: wr_live)

lemma pw_direct_live:
  assumes "live s" and "pw_direct wr pw s n p = (pw', s', n', err)"
  shows "live s' \<and> err = None"
proof -
  obtain s1 c e where w: "wr s (take (length p div pageBytes pw * pageBytes pw) p) = (s1, c, e)"
    by (metis prod_cases3)
  from wr_live [OF assms(1) w] assms show ?thesis
    by (auto simp: pw_direct_def pw_tail_def Let_def w split: if_splits)
qed

lemma Write_live:
  assumes "live s" and "PageWriter_Write wr pw s p = (pw', s', n, err)"
  shows "live s' \<and> err = None"
proof -
  obtain slack where sl: "slack = pageBytes pw - (pageOffset pw + bufferedBytes pw) mod pageBytes pw"
    by blast
  obtain pw1 n1 p1 where f: "(if slack \<noteq> pageBytes pw
      then (pw_buffer pw (take slack p), slack, drop slack p) else (pw, 0, p)) = (pw1, n1, p1)"
    by (metis prod_cases3)
  obtain pw2 s2 e where F: "PageWriter_Flush wr pw1 s = (pw2, s2, e)" by (metis prod_cases3)
  from Flush_live [OF assms(1) F] have l2: "live s2" "e = None" by auto
  show ?thesis
    using assms l2 pw_direct_live [OF l2(1), of pw2 n1 p1 pw' s' n err]
    by (auto simp: PageWriter_Write_def Let_def f F simp flip: sl split: if_splits)
qed

end

section \<open>Properties\<close>

text \<open>C24: A write through the page writer to a file keeps the buffer within its bounds; what reaches
  the file is always a prefix of the bytes handed in, in order; and if it reports success, all
  bytes were accepted, the file and the buffer together hold exactly the bytes written so far, and
  the file, if it grew, grew to a page boundary.\<close>

theorem page_writer_stream:
  assumes inv: "pw_inv pw" and at: "pw_at base pw (file_out (s, h))"
    and wr: "PageWriter_Write file_Write pw (s, h) p = (pw', (s', h'), n, err)"
  shows "pw_inv pw' \<and> bufferedBytes pw' \<le> length (buf pw') \<and>
    (\<exists>k. file_out (s', h') = file_out (s, h) @ take k (pw_pending pw @ p)) \<and>
    (err = None \<longrightarrow> n = length p \<and>
       file_out (s', h') @ pw_pending pw' = file_out (s, h) @ pw_pending pw @ p \<and>
       (file_out (s', h') = file_out (s, h) \<or> (base + fd_pos h') mod pageBytes pw = 0))"
proof -
  note k = fw.Write_spec [OF inv wr, of base]
  then have "bufferedBytes pw' \<le> length (buf pw')" by (intro pw_inv_room) simp
  with k at show ?thesis by simp
qed

definition open_file :: "os \<times> fd" where
  "open_file = (\<lparr>files = [], faults = []\<rparr>, \<lparr>fd_name = ''f'', fd_pos = 0, fd_open = True\<rparr>)"

theorem page_writer_stream_witness:
  "\<exists>pw' s' h'. PageWriter_Write file_Write (NewPageWriter 4 0 2) open_file [1, 2, 3, 4, 5] = (pw', (s', h'), 5, None) \<and>
    file_out (s', h') @ pw_pending pw' = [1, 2, 3, 4, 5] \<and>
    (file_out (s', h') = [] \<or> fd_pos h' mod 4 = 0)"
proof -
  let ?pw = "NewPageWriter 4 0 2" and ?p = "[1, 2, 3, 4, 5] :: bytes"
  obtain s h where sh: "open_file = (s, h)" by fastforce
  obtain pw' s' h' n err where w: "PageWriter_Write file_Write ?pw (s, h) ?p = (pw', (s', h'), n, err)"
    by (metis prod_cases4 surj_pair)
  have o: "file_out (s, h) = []" using sh by (auto simp: open_file_def file_out_def)
  then have at: "pw_at 0 ?pw (file_out (s, h))" by (simp add: pw_at_def NewPageWriter_def Let_def)
  have "err = None"
    using w sh by (auto simp: PageWriter_Write_def NewPageWriter_def PageWriter_Flush_def pw_direct_def
        pw_tail_def file_Write_def next_fault_def open_file_def Let_def split: if_splits)
  moreover have "pageBytes ?pw = 4" by (simp add: NewPageWriter_def Let_def)
  ultimately show ?thesis using page_writer_stream [OF pw_inv_New at w] w sh o by simp
qed

text \<open>When the write of a flush fails, the buffered bytes are dropped: the next flush has
  nothing to write and reports success.\<close>

theorem failed_flush_drops_buffer:
  assumes "PageWriter_Flush wr pw s = (pw', s', Some e)"
  shows "pw_pending pw' = [] \<and> PageWriter_Flush wr pw' t = (pw', t, None)"
  using assms by (auto simp: PageWriter_Flush_def pw_pending_def Let_def split: if_splits prod.splits)

theorem failed_flush_drops_buffer_witness:
  "pw_pending \<lparr>pageOffset = 1, pageBytes = 4, bufferedBytes = 0, buf = [7, 0, 0, 0, 0, 0], bufWatermarkBytes = 2\<rparr> = [] \<and>
   PageWriter_Flush (\<lambda>s p. (s, 0, Some ErrIO))
     \<lparr>pageOffset = 0, pageBytes = 4, bufferedBytes = 1, buf = [7, 0, 0, 0, 0, 0], bufWatermarkBytes = 2\<rparr> () =
   (\<lparr>pageOffset = 1, pageBytes = 4, bufferedBytes = 0, buf = [7, 0, 0, 0, 0, 0], bufWatermarkBytes = 2\<rparr>, (), Some ErrIO)"
  using failed_flush_drops_buffer [of "\<lambda>s p. (s, 0, Some ErrIO)"
      "\<lparr>pageOffset = 0, pageBytes = 4, bufferedBytes = 1, buf = [7, 0, 0, 0, 0, 0], bufWatermarkBytes = 2\<rparr>" "()"
      "\<lparr>pageOffset = 1, pageBytes = 4, bufferedBytes = 0, buf = [7, 0, 0, 0, 0, 0], bufWatermarkBytes = 2\<rparr>" "()" ErrIO "()"]
  by (simp add: PageWriter_Flush_def Let_def)

end
