(* ===== verification/Encoder.thy ===== *)
theory Encoder
  imports Crc PageWriter
begin

unbundle bit_operations_syntax

text \<open>
  \<^verbatim>\<open>pkg/wal/encoder.go\<close> and \<^verbatim>\<open>pkg/wal/walpb/types.go\<close>: the record envelope, the
  8-byte frame header and the encoder with its running CRC chain. Protobuf marshalling is
  code outside the repository: the definitions take it as the argument \<open>marshal\<close>. The
  scratch buffers of the Go struct (\<^verbatim>\<open>buf\<close>, \<^verbatim>\<open>uint64buf\<close>, \<^verbatim>\<open>padBuf\<close>) carry no
  state from one call to the next and are left out. The lemmas say what one successful
  \<^verbatim>\<open>Encode\<close> adds to the stream and to the chain.
\<close>

section \<open>Records\<close>

record walrec =
  rtype :: int
  rcrc :: u32
  rdata :: bytes

definition CrcType :: int where
  "CrcType = 1"

definition SnapshotType :: int where
  "SnapshotType = 2"

definition DataType :: int where
  "DataType = 3"

datatype wal_error =
    ErrClosed
  | ErrCRCMismatch
  | ErrCorrupted
  | ErrIOwrap io_error
  | ErrMarshal
  | ErrNoCRC
  | ErrNilSnapshot

definition MarshalAppend :: "('r \<Rightarrow> bytes option) \<Rightarrow> bytes \<Rightarrow> 'r \<Rightarrow> bytes option" where
  "MarshalAppend marshal b r = map_option (\<lambda>m. b @ m) (marshal r)"

section \<open>Frame header\<close>

definition encodeFrameSize :: "nat \<Rightarrow> u64 \<times> nat" where
  "encodeFrameSize dataBytes =
     (let lenField = (of_nat dataBytes :: u64);
          padBytes = (8 - dataBytes mod 8) mod 8
      in (if padBytes \<noteq> 0 then lenField OR push_bit 56 (0x80 OR of_nat padBytes) else lenField,
          padBytes))"

section \<open>The encoder\<close>

definition frameSizeBytes :: nat where
  "frameSizeBytes = 8"

definition minSectorSize :: nat where
  "minSectorSize = 512"

definition walPageBytes :: nat where
  "walPageBytes = 8 * minSectorSize"

record encoder =
  e_pw :: pagewriter
  e_crc :: digest
  e_offset :: nat

definition NewEncoder :: "u32 \<Rightarrow> nat \<Rightarrow> int \<Rightarrow> encoder" where
  "NewEncoder prevCrc pgOffset bufferSize =
     \<lparr>e_pw = NewPageWriter (int walPageBytes) pgOffset bufferSize,
      e_crc = crc_New prevCrc,
      e_offset = pgOffset\<rparr>"

definition Encoder_Encode ::
  "(walrec \<Rightarrow> bytes option) \<Rightarrow> ('s \<Rightarrow> bytes \<Rightarrow> 's \<times> nat \<times> io_error option)
   \<Rightarrow> encoder \<Rightarrow> 's \<Rightarrow> walrec \<Rightarrow> encoder \<times> 's \<times> walrec \<times> (wal_error + nat)" where
  "Encoder_Encode marshal wr e s r =
     (let (d, _) = crc_Write (e_crc e) (rdata r);
          r1 = r\<lparr>rcrc := crc_Sum32 d\<rparr>;
          e1 = e\<lparr>e_crc := d\<rparr>
      in case MarshalAppend marshal [] r1 of
           None \<Rightarrow> (e1, s, r1, Inl ErrMarshal)
         | Some data \<Rightarrow>
             let (lenField, padBytes) = encodeFrameSize (length data);
                 startOffset = e_offset e1;
                 (pw1, s1, _, err1) = PageWriter_Write wr (e_pw e1) s (PutUint64LE lenField)
             in case err1 of
                  Some x \<Rightarrow> (e1\<lparr>e_pw := pw1\<rparr>, s1, r1, Inl (ErrIOwrap x))
                | None \<Rightarrow>
                    let (pw2, s2, _, err2) = PageWriter_Write wr pw1 s1 data
                    in case err2 of
                         Some x \<Rightarrow> (e1\<lparr>e_pw := pw2\<rparr>, s2, r1, Inl (ErrIOwrap x))
                       | None \<Rightarrow>
                           let (pw3, s3, err3) =
                                 (if padBytes > 0
                                  then let (a, b, _, c) =
                                         PageWriter_Write wr pw2 s2 (replicate padBytes 0)
                                       in (a, b, c)
                                  else (pw2, s2, None))
                           in case err3 of
                                Some x \<Rightarrow> (e1\<lparr>e_pw := pw3\<rparr>, s3, r1, Inl (ErrIOwrap x))
                              | None \<Rightarrow>
                                  (e1\<lparr>e_pw := pw3,
                                      e_offset := e_offset e1 + frameSizeBytes + length data + padBytes\<rparr>,
                                   s3, r1, Inr startOffset))"

definition Encoder_Flush ::
  "('s \<Rightarrow> bytes \<Rightarrow> 's \<times> nat \<times> io_error option) \<Rightarrow> encoder \<Rightarrow> 's \<Rightarrow> encoder \<times> 's \<times> io_error option" where
  "Encoder_Flush wr e s =
     (let (pw, s', err) = PageWriter_Flush wr (e_pw e) s in (e\<lparr>e_pw := pw\<rparr>, s', err))"

definition Encoder_CRC :: "encoder \<Rightarrow> u32" where
  "Encoder_CRC e = crc_Sum32 (e_crc e)"

definition Encoder_Offset :: "encoder \<Rightarrow> nat" where
  "Encoder_Offset e = e_offset e"

section \<open>Frames\<close>

definition frame :: "bytes \<Rightarrow> bytes" where
  "frame data =
     (let (lenField, padBytes) = encodeFrameSize (length data)
      in PutUint64LE lenField @ data @ replicate padBytes 0)"

definition seal :: "u32 \<Rightarrow> walrec \<Rightarrow> walrec" where
  "seal c r = r\<lparr>rcrc := crc32_Update c (rdata r)\<rparr>"

lemma padBytes_bound: "snd (encodeFrameSize n) < 8"
  by (simp add: encodeFrameSize_def Let_def)

lemma length_frame: "length (frame data) = 8 + length data + snd (encodeFrameSize (length data))"
  by (simp add: frame_def case_prod_unfold Let_def)

lemma padded_multiple: "(n + snd (encodeFrameSize n)) mod 8 = 0"
proof -
  have "(n + (8 - n mod 8) mod 8) mod 8 = (n mod 8 + (8 - n mod 8)) mod 8"
    by (metis mod_add_left_eq mod_add_right_eq)
  also have "\<dots> = 0" by simp
  finally show ?thesis by (simp add: encodeFrameSize_def Let_def)
qed

text \<open>Every frame is a multiple of 8 bytes, so headers stay 8-byte aligned.\<close>

lemma length_frame_mod8: "length (frame data) mod 8 = 0"
proof -
  have "length (frame data) = 8 + (length data + snd (encodeFrameSize (length data)))"
    by (simp add: length_frame)
  then show ?thesis using padded_multiple [of "length data"] by (metis mod_add_self1)
qed

lemma length_frame_ge: "8 \<le> length (frame data)"
  by (simp add: length_frame)

section \<open>What a successful encode does\<close>

definition enc_inv :: "encoder \<Rightarrow> bool" where
  "enc_inv e \<longleftrightarrow> pw_inv (e_pw e)"

definition enc_pending :: "encoder \<Rightarrow> bytes" where
  "enc_pending e = pw_pending (e_pw e)"

lemma enc_inv_New [simp]: "enc_inv (NewEncoder c off bs)"
  by (simp add: enc_inv_def NewEncoder_def pw_inv_New)

lemma enc_New_simps [simp]:
  "enc_pending (NewEncoder c off bs) = []" "Encoder_CRC (NewEncoder c off bs) = c"
  "e_offset (NewEncoder c off bs) = off"
  by (simp_all add: enc_pending_def NewEncoder_def Encoder_CRC_def)

context io_writer
begin

lemma Write_ok:
  assumes "pw_inv pw" and "PageWriter_Write wr pw s p = (pw', s', n, None)"
  shows "pw_inv pw'" and "out s' @ pw_pending pw' = (out s @ pw_pending pw) @ p"
  using Write_spec [OF assms] by auto

lemma Write_inv: "pw_inv pw \<Longrightarrow> PageWriter_Write wr pw s p = (pw', s', n, err) \<Longrightarrow> pw_inv pw'"
  using Write_spec by blast

lemma Write_prefix:
  "pw_inv pw \<Longrightarrow> PageWriter_Write wr pw s p = (pw', s', n, err) \<Longrightarrow>
   \<exists>k. out s' = out s @ take k (pw_pending pw @ p)"
  using Write_spec by blast

lemma Encode_ok:
  assumes inv: "enc_inv e" and enc: "Encoder_Encode marshal wr e s r = (e', s', r', Inr off)"
  shows "\<exists>b. marshal (seal (Encoder_CRC e) r) = Some b \<and>
      out s' @ enc_pending e' = (out s @ enc_pending e) @ frame b \<and>
      e_offset e' = e_offset e + length (frame b)"
    and "enc_inv e'" and "r' = seal (Encoder_CRC e) r" and "Encoder_CRC e' = rcrc r'"
    and "off = e_offset e"
proof -
  let ?r = "seal (Encoder_CRC e) r" and ?d = "\<lparr>crc = crc32_Update (crc (e_crc e)) (rdata r)\<rparr>"
  have r1: "r\<lparr>rcrc := crc_Sum32 ?d\<rparr> = ?r"
    by (simp add: seal_def Encoder_CRC_def crc_Sum32_def)
  have cw: "crc_Write (e_crc e) (rdata r) = (?d, length (rdata r))" by (simp add: crc_Write_def)
  obtain b where b: "marshal ?r = Some b"
    using enc by (auto simp: Encoder_Encode_def MarshalAppend_def cw r1 Let_def split: option.splits)
  obtain lf pad where fs: "encodeFrameSize (length b) = (lf, pad)" by fastforce
  obtain pw1 s1 n1 x1 where w1: "PageWriter_Write wr (e_pw e) s (PutUint64LE lf) = (pw1, s1, n1, x1)"
    by (metis prod_cases4)
  obtain pw2 s2 n2 x2 where w2: "PageWriter_Write wr pw1 s1 b = (pw2, s2, n2, x2)"
    by (metis prod_cases4)
  obtain pw3 s3 n3 x3 where w3: "PageWriter_Write wr pw2 s2 (replicate pad 0) = (pw3, s3, n3, x3)"
    by (metis prod_cases4)
  note ex = enc [unfolded Encoder_Encode_def cw MarshalAppend_def Let_def split_conv r1, simplified, unfolded b,
      simplified, unfolded fs, simplified, unfolded w1, simplified, unfolded w2 w3, simplified]
  from ex have x1: "x1 = None" and x2: "x2 = None"
    by (auto simp: w2 split: option.splits)
  have i0: "pw_inv (e_pw e)" using inv by (simp add: enc_inv_def)
  note k1 = Write_ok [OF i0 w1 [unfolded x1]]
  note k2 = Write_ok [OF k1(1) w2 [unfolded x2]]
  have "x3 = None \<or> pad = 0" using ex x1 x2 w2 w3 by (auto split: option.splits if_splits)
  then consider "pad = 0" | "pad > 0" "x3 = None" by auto
  then have res: "enc_inv e' \<and> r' = ?r \<and> Encoder_CRC e' = rcrc r' \<and> off = e_offset e \<and>
    out s' @ enc_pending e' = (out s @ enc_pending e) @ frame b \<and>
    e_offset e' = e_offset e + length (frame b)"
  proof cases
    case 1
    with ex x1 x2 w2 k1 k2 fs show ?thesis
      by (auto simp: enc_inv_def enc_pending_def frame_def Encoder_CRC_def crc_Sum32_def seal_def
          frameSizeBytes_def)
  next
    case 2
    note k3 = Write_ok [OF k2(1) w3 [unfolded 2]]
    from ex x1 x2 2 w2 w3 k1 k2 k3 fs show ?thesis
      by (auto simp: enc_inv_def enc_pending_def frame_def Encoder_CRC_def crc_Sum32_def seal_def
          frameSizeBytes_def)
  qed
  then show "\<exists>b. marshal ?r = Some b \<and>
      out s' @ enc_pending e' = (out s @ enc_pending e) @ frame b \<and>
      e_offset e' = e_offset e + length (frame b)"
    "enc_inv e'" "r' = ?r" "Encoder_CRC e' = rcrc r'" "off = e_offset e"
    using b by auto
qed

lemma Encoder_Flush_ok:
  assumes "enc_inv e" and "Encoder_Flush wr e s = (e', s', None)"
  shows "enc_inv e'" and "enc_pending e' = []" and "out s' = out s @ enc_pending e"
    and "Encoder_CRC e' = Encoder_CRC e" and "e_offset e' = e_offset e"
proof -
  obtain pw where f: "PageWriter_Flush wr (e_pw e) s = (pw, s', None)" and e: "e' = e\<lparr>e_pw := pw\<rparr>"
    using assms(2) by (auto simp: Encoder_Flush_def split: prod.splits)
  have "pw_wf (e_pw e)" using assms(1) by (simp add: enc_inv_def pw_inv_wf)
  from Flush_spec [OF this f] e
  show "enc_inv e'" "enc_pending e' = []" "out s' = out s @ enc_pending e"
    "Encoder_CRC e' = Encoder_CRC e" "e_offset e' = e_offset e"
    by (auto simp: enc_inv_def enc_pending_def Encoder_CRC_def)
qed

end

context io_writer_frame
begin

lemma Encoder_Flush_frame: "Encoder_Flush wr e s = (e', s', err) \<Longrightarrow> R s s'"
  by (auto simp: Encoder_Flush_def split: prod.splits intro: Flush_frame)

lemma Encode_frame:
  assumes enc: "Encoder_Encode marshal wr e s r = (e', s', r', res)"
  shows "R s s'"
proof (cases "marshal (seal (Encoder_CRC e) r)")
  case None
  with enc show ?thesis
    by (auto simp: Encoder_Encode_def MarshalAppend_def crc_Write_def seal_def Encoder_CRC_def
        crc_Sum32_def Let_def intro: R_refl)
next
  case (Some b)
  then have mb: "marshal (r\<lparr>rcrc := crc32_Update (crc (e_crc e)) (rdata r)\<rparr>) = Some b"
    by (simp add: seal_def Encoder_CRC_def crc_Sum32_def)
  obtain lf pad where fs: "encodeFrameSize (length b) = (lf, pad)" by fastforce
  obtain pw1 s1 n1 x1 where w1: "PageWriter_Write wr (e_pw e) s (PutUint64LE lf) = (pw1, s1, n1, x1)"
    by (metis prod_cases4)
  obtain pw2 s2 n2 x2 where w2: "PageWriter_Write wr pw1 s1 b = (pw2, s2, n2, x2)"
    by (metis prod_cases4)
  obtain pw3 s3 n3 x3 where w3: "PageWriter_Write wr pw2 s2 (replicate pad 0) = (pw3, s3, n3, x3)"
    by (metis prod_cases4)
  have "R s s1" "R s s2" "R s s3"
    using Write_frame [OF w1] Write_frame [OF w2] Write_frame [OF w3] R_trans by blast+
  with enc show ?thesis
    by (auto simp: Encoder_Encode_def MarshalAppend_def crc_Write_def crc_Sum32_def Let_def
        mb fs w1 w2 w3 split: option.splits if_splits)
qed

end

context io_writer_live
begin

lemma Encoder_Flush_live: "live s \<Longrightarrow> Encoder_Flush wr e s = (e', s', err) \<Longrightarrow> live s' \<and> err = None"
  by (auto simp: Encoder_Flush_def split: prod.splits dest: Flush_live)

lemma Encode_live:
  assumes "live s" and "marshal (seal (Encoder_CRC e) r) = Some b"
    and enc: "Encoder_Encode marshal wr e s r = (e', s', r', res)"
  shows "live s' \<and> res = Inr (e_offset e)"
proof -
  have mb: "marshal (r\<lparr>rcrc := crc32_Update (crc (e_crc e)) (rdata r)\<rparr>) = Some b"
    using assms(2) by (simp add: seal_def Encoder_CRC_def crc_Sum32_def)
  obtain lf pad where fs: "encodeFrameSize (length b) = (lf, pad)" by fastforce
  obtain pw1 s1 n1 x1 where w1: "PageWriter_Write wr (e_pw e) s (PutUint64LE lf) = (pw1, s1, n1, x1)"
    by (metis prod_cases4)
  obtain pw2 s2 n2 x2 where w2: "PageWriter_Write wr pw1 s1 b = (pw2, s2, n2, x2)"
    by (metis prod_cases4)
  obtain pw3 s3 n3 x3 where w3: "PageWriter_Write wr pw2 s2 (replicate pad 0) = (pw3, s3, n3, x3)"
    by (metis prod_cases4)
  have l: "live s1" "x1 = None" "live s2" "x2 = None" "live s3" "x3 = None"
    using Write_live [OF assms(1) w1] Write_live [OF _ w2] Write_live [OF _ w3] by auto
  with enc show ?thesis
    by (auto simp: Encoder_Encode_def MarshalAppend_def crc_Write_def crc_Sum32_def Let_def
        mb fs w1 w2 w3 split: if_splits)
qed

end

end
