(* ===== verification/Decoder.thy ===== *)
theory Decoder
  imports Encoder
begin

unbundle bit_operations_syntax

text \<open>
  \<^verbatim>\<open>pkg/wal/decoder.go\<close>: reading frames back, validating the CRC chain and telling a torn
  write from corruption. Protobuf unmarshalling is the argument \<open>unmarshal\<close>; what the code
  relies on is the named hypothesis \<open>proto_codec\<close>. A reader is the list of the bytes it has
  not delivered yet. The lemmas show the frame and chain round trip, recovery of every whole
  record from a log cut off at any byte, detection of a changed record, and what a zeroed
  sector does.
\<close>

section \<open>Operations\<close>

definition proto_codec :: "(walrec \<Rightarrow> bytes option) \<Rightarrow> (bytes \<Rightarrow> walrec option) \<Rightarrow> bool" where
  \<comment> \<open>unmarshalling inverts marshalling, and no bytes are the message with default fields\<close>
  "proto_codec marshal unmarshal \<longleftrightarrow>
     (\<forall>r b. marshal r = Some b \<longrightarrow> unmarshal b = Some r) \<and>
     unmarshal [] = Some \<lparr>rtype = 0, rcrc = 0, rdata = []\<rparr>"

record decoder =
  d_r :: bytes
  d_crc :: digest
  lastValidOff :: nat

definition NewDecoder :: "bytes \<Rightarrow> decoder" where
  "NewDecoder r = \<lparr>d_r = r, d_crc = crc_New 0, lastValidOff = 0\<rparr>"

definition decodeFrameSize :: "u64 \<Rightarrow> nat \<times> nat" where
  "decodeFrameSize lenField =
     (unat (lenField AND NOT (push_bit 56 0xff)),
      if sint lenField < 0 then unat (drop_bit 56 lenField AND 0x7) else 0)"

definition maxRecordSize :: nat where
  "maxRecordSize = 64 * 1024 * 1024"

function torn_loop :: "nat \<Rightarrow> bytes \<Rightarrow> bool" where
  "torn_loop fileOff data =
     (if data = [] then False
      else let chunkLen = min (minSectorSize - fileOff mod minSectorSize) (length data)
           in if (\<forall>b\<in>set (take chunkLen data). b = 0) then True
              else torn_loop (fileOff + chunkLen) (drop chunkLen data))"
  by pat_completeness auto
termination
  by (relation "measure (\<lambda>(_, data). length data)") (auto simp: minSectorSize_def)

declare torn_loop.simps [simp del]

definition isTornEntry :: "decoder \<Rightarrow> bytes \<Rightarrow> bool" where
  "isTornEntry d data = torn_loop (lastValidOff d + frameSizeBytes) data"

definition Decoder_Decode :: "(bytes \<Rightarrow> walrec option) \<Rightarrow> decoder \<Rightarrow> decoder \<times> (wal_error + walrec)" where
  "Decoder_Decode unmarshal d =
     (case ReadFull 8 (d_r d) of
        Inl e \<Rightarrow> (d\<lparr>d_r := []\<rparr>, Inl (ErrIOwrap e))
      | Inr (lenBuf, r1) \<Rightarrow>
          let d1 = d\<lparr>d_r := r1\<rparr>;
              lenField = Uint64LE lenBuf
          in if lenField = 0 then (d1, Inl (ErrIOwrap EOF))
             else
               let (recBytes, padBytes) = decodeFrameSize lenField
               in if recBytes > maxRecordSize then (d1, Inl ErrCorrupted)
                  else case ReadFull (recBytes + padBytes) r1 of
                         Inl e \<Rightarrow>
                           (d1\<lparr>d_r := []\<rparr>, Inl (ErrIOwrap (if e = EOF then ErrUnexpectedEOF else e)))
                       | Inr (data, r2) \<Rightarrow>
                           let d2 = d1\<lparr>d_r := r2\<rparr>
                           in case unmarshal (take recBytes data) of
                                None \<Rightarrow>
                                  (d2, Inl (if isTornEntry d2 data then ErrIOwrap ErrUnexpectedEOF
                                            else ErrCorrupted))
                              | Some r \<Rightarrow>
                                  if rtype r = CrcType
                                  then (d2\<lparr>d_crc := crc_New (rcrc r),
                                           lastValidOff := lastValidOff d2 + frameSizeBytes + recBytes + padBytes\<rparr>,
                                        Inr r)
                                  else
                                    let d3 = d2\<lparr>d_crc := fst (crc_Write (d_crc d2) (rdata r))\<rparr>
                                    in if crc_Sum32 (d_crc d3) \<noteq> rcrc r
                                       then (d3, Inl (if isTornEntry d3 data
                                                      then ErrIOwrap ErrUnexpectedEOF
                                                      else ErrCRCMismatch))
                                       else (d3\<lparr>lastValidOff := lastValidOff d3 + frameSizeBytes + recBytes + padBytes\<rparr>,
                                             Inr r))"

definition LastOffset :: "decoder \<Rightarrow> nat" where
  "LastOffset d = lastValidOff d"

definition LastCRC :: "decoder \<Rightarrow> u32" where
  "LastCRC d = crc_Sum32 (d_crc d)"

section \<open>Frame header round trip\<close>

lemma mask8_u64: "(0xff :: u64) = mask 8"
  by (simp add: mask_eq_exp_minus_1)

lemma bit_of_nat_small: "n < 2 ^ 56 \<Longrightarrow> bit (of_nat n :: u64) i \<Longrightarrow> i < 56"
proof (rule ccontr)
  assume n: "n < 2 ^ 56" and b: "bit (of_nat n :: u64) i" and i: "\<not> i < 56"
  from b have "bit n i" by (simp add: bit_simps)
  then have "2 ^ i \<le> n" by (metis bit_nat_iff bit_iff_odd not_less div_less even_zero)
  moreover have "(2::nat) ^ 56 \<le> 2 ^ i" using i by (intro power_increasing) auto
  ultimately show False using n by linarith
qed

lemma decodeFrameSize_encode:
  assumes n: "n < 2 ^ 56"
  shows "decodeFrameSize (fst (encodeFrameSize n)) = (n, snd (encodeFrameSize n))"
proof -
  define pad where "pad = (8 - n mod 8) mod 8"
  let ?w = "of_nat n :: u64"
  have pad8: "pad < 8" by (simp add: pad_def)
  have w: "bit ?w i \<Longrightarrow> i < 56" for i using bit_of_nat_small [OF n] .
  have un: "unat ?w = n"
    using n by (simp add: unat_of_nat take_bit_nat_eq_self)
  have nob: "\<not> bit ?w i" if "56 \<le> i" for i using w [of i] that by linarith
  have lo: "(?w OR push_bit 56 x) AND NOT (push_bit 56 0xff) = ?w" for x
    by (rule bit_word_eqI) (use nob in \<open>auto simp: bit_simps mask8_u64\<close>)
  show ?thesis
  proof (cases "pad = 0")
    case True
    have "\<not> bit ?w 63" by (rule nob) simp
    then have "\<not> sint ?w < 0" by (simp add: bit_last_iff [of ?w, simplified, symmetric])
    moreover have "?w AND NOT (push_bit 56 0xff) = ?w" using lo [of 0] by simp
    ultimately show ?thesis using True un by (simp add: encodeFrameSize_def decodeFrameSize_def flip: pad_def)
  next
    case False
    let ?x = "0x80 OR of_nat pad :: u64"
    let ?l = "?w OR push_bit 56 ?x"
    have "bit ?x 7" by (simp add: bit_simps bit_numeral_rec)
    then have "bit ?l 63" by (simp add: bit_simps)
    then have neg: "sint ?l < 0" by (simp add: bit_last_iff [of ?l, simplified, symmetric])
    have "drop_bit 56 ?l = take_bit 8 ?x"
      by (rule bit_word_eqI) (use nob in \<open>auto simp: bit_simps\<close>)
    moreover have "unat (take_bit 8 ?x AND 0x7) = pad"
    proof -
      have "pad \<in> {0, 1, 2, 3, 4, 5, 6, 7}" using pad8 by force
      then show ?thesis by (elim insertE emptyE) simp_all
    qed
    ultimately have "unat (drop_bit 56 ?l AND 0x7) = pad" by simp
    with False neg lo [of ?x] un show ?thesis
      by (simp add: encodeFrameSize_def decodeFrameSize_def flip: pad_def)
  qed
qed

lemma encodeFrameSize_nonzero: "0 < n \<Longrightarrow> n < 2 ^ 56 \<Longrightarrow> fst (encodeFrameSize n) \<noteq> 0"
  using decodeFrameSize_encode [of n] by (auto simp: decodeFrameSize_def)

section \<open>One frame\<close>

definition rec_ok :: "(walrec \<Rightarrow> bytes option) \<Rightarrow> walrec \<Rightarrow> bool" where
  "rec_ok marshal r \<longleftrightarrow>
     rtype r \<noteq> 0 \<and> (case marshal r of None \<Rightarrow> False | Some b \<Rightarrow> length b \<le> maxRecordSize)"

definition chain_step :: "u32 \<Rightarrow> walrec \<Rightarrow> bool" where
  "chain_step c r \<longleftrightarrow> rtype r = CrcType \<or> rcrc r = crc32_Update c (rdata r)"

definition rec_frame :: "(walrec \<Rightarrow> bytes option) \<Rightarrow> walrec \<Rightarrow> bytes" where
  "rec_frame marshal r = (case marshal r of None \<Rightarrow> [] | Some b \<Rightarrow> frame b)"

lemma chain_step_seal [simp]: "chain_step c (seal c r)"
  by (simp add: chain_step_def seal_def)

lemma rtype_seal [simp]: "rtype (seal c r) = rtype r" and rdata_seal [simp]: "rdata (seal c r) = rdata r"
  by (simp_all add: seal_def)

lemma rec_okE:
  assumes "proto_codec m u" and "rec_ok m r"
  obtains b where "m r = Some b" "u b = Some r" "0 < length b" "length b < 2 ^ 56"
    "length b \<le> maxRecordSize" "rec_frame m r = frame b"
proof -
  from assms(2) obtain b where b: "m r = Some b" "length b \<le> maxRecordSize"
    by (auto simp: rec_ok_def split: option.splits)
  with assms(1) have u: "u b = Some r" by (auto simp: proto_codec_def)
  have "b \<noteq> []"
    using assms u by (auto simp: proto_codec_def rec_ok_def)
  then show thesis
    using b u by (intro that) (auto simp: maxRecordSize_def rec_frame_def)
qed

lemma Decode_split:
  assumes "lf = fst (encodeFrameSize n)" and "pad = snd (encodeFrameSize n)" and "0 < n"
    and "n \<le> maxRecordSize" and "length data = n + pad"
    and "d_r d = PutUint64LE lf @ data @ rest"
  shows "Decoder_Decode u d =
    (let d2 = d\<lparr>d_r := rest\<rparr>
     in case u (take n data) of
          None \<Rightarrow> (d2, Inl (if isTornEntry d2 data then ErrIOwrap ErrUnexpectedEOF else ErrCorrupted))
        | Some r \<Rightarrow>
            if rtype r = CrcType
            then (d2\<lparr>d_crc := crc_New (rcrc r), lastValidOff := lastValidOff d + (8 + n + pad)\<rparr>, Inr r)
            else let d3 = d2\<lparr>d_crc := fst (crc_Write (d_crc d) (rdata r))\<rparr>
                 in if crc_Sum32 (d_crc d3) \<noteq> rcrc r
                    then (d3, Inl (if isTornEntry d3 data then ErrIOwrap ErrUnexpectedEOF else ErrCRCMismatch))
                    else (d3\<lparr>lastValidOff := lastValidOff d + (8 + n + pad)\<rparr>, Inr r))"
proof -
  have n: "n < 2 ^ 56" using assms(4) by (simp add: maxRecordSize_def)
  have lf: "lf \<noteq> 0" using encodeFrameSize_nonzero [OF assms(3) n] assms(1) by simp
  have sz: "decodeFrameSize lf = (n, pad)" using decodeFrameSize_encode [OF n] assms(1,2) by simp
  have r1: "ReadFull 8 (d_r d) = Inr (PutUint64LE lf, data @ rest)"
    by (simp add: assms(6) ReadFull_exact)
  have r2: "ReadFull (n + pad) (data @ rest) = Inr (data, rest)"
    by (simp add: ReadFull_exact assms(5))
  show ?thesis
    using assms(4)
    by (simp add: Decoder_Decode_def r1 lf sz r2 Let_def frameSizeBytes_def add.assoc
        split: option.split)
qed

lemma Decode_frame:
  assumes codec: "proto_codec m u" and ok: "rec_ok m r" and ch: "chain_step (LastCRC d) r"
    and d: "d_r d = rec_frame m r @ rest"
  shows "Decoder_Decode u d =
    (d\<lparr>d_r := rest, d_crc := \<lparr>crc = rcrc r\<rparr>, lastValidOff := lastValidOff d + length (rec_frame m r)\<rparr>, Inr r)"
proof -
  from codec ok obtain b where b: "u b = Some r" "0 < length b" "length b \<le> maxRecordSize"
    "rec_frame m r = frame b" by (rule rec_okE)
  obtain lf pad where fs: "encodeFrameSize (length b) = (lf, pad)" by fastforce
  have dr: "d_r d = PutUint64LE lf @ (b @ replicate pad 0) @ rest"
    using d b(4) by (simp add: frame_def fs)
  have len: "length (rec_frame m r) = 8 + length b + pad" by (simp add: b(4) length_frame fs)
  have crcw: "fst (crc_Write (d_crc d) (rdata r)) = \<lparr>crc = rcrc r\<rparr>" if "rtype r \<noteq> CrcType"
    using ch that by (simp add: chain_step_def crc_Write_def LastCRC_def crc_Sum32_def)
  have tk: "take (length b) (b @ replicate pad 0) = b" by simp
  have l2: "length (b @ replicate pad 0) = length b + pad" by simp
  note sp = Decode_split [of lf "length b" pad, OF _ _ b(2,3) l2 dr, unfolded fs, simplified, of u,
      unfolded b(1)]
  show ?thesis
  proof (cases "rtype r = CrcType")
    case True
    show ?thesis unfolding sp len by (simp add: True crc_New_def)
  next
    case False
    show ?thesis unfolding sp len by (simp add: False crcw crc_Sum32_def Let_def)
  qed
qed

definition storable :: "(walrec \<Rightarrow> bytes option) \<Rightarrow> int \<Rightarrow> bytes \<Rightarrow> bool" where
  \<comment> \<open>the record marshals to at most the size the decoder accepts, whatever its CRC\<close>
  "storable m ty data \<longleftrightarrow> (\<forall>c. rec_ok m \<lparr>rtype = ty, rcrc = c, rdata = data\<rparr>)"

lemma storable_seal: "storable m (rtype r) (rdata r) \<Longrightarrow> rec_ok m (seal c r)"
  by (cases r) (simp add: storable_def seal_def)

section \<open>The decode loop\<close>

lemma ReadFull_short:
  "length r < n \<Longrightarrow> ReadFull n r = Inl (if r = [] then EOF else ErrUnexpectedEOF)"
  by (simp add: ReadFull_def)

lemma ReadFull_length: "ReadFull n r = Inr (p, q) \<Longrightarrow> length r = n + length q"
  by (auto simp: ReadFull_def split: if_splits)

lemma Decode_progress:
  assumes dec: "Decoder_Decode u d = (d', Inr r)"
  shows "length (d_r d') < length (d_r d)"
proof -
  obtain lb r1 where r1: "ReadFull 8 (d_r d) = Inr (lb, r1)"
    using dec by (cases "ReadFull 8 (d_r d)") (auto simp: Decoder_Decode_def)
  obtain n pad where sz: "decodeFrameSize (Uint64LE lb) = (n, pad)" by fastforce
  obtain data r2 where r2: "ReadFull (n + pad) r1 = Inr (data, r2)"
    using dec by (cases "ReadFull (n + pad) r1")
      (auto simp: Decoder_Decode_def r1 sz Let_def split: if_splits)
  have "d_r d' = r2"
    using dec
    by (cases "u (take n data)") (auto simp: Decoder_Decode_def r1 sz r2 Let_def split: if_splits)
  with ReadFull_length [OF r1] ReadFull_length [OF r2] show ?thesis by simp
qed

text \<open>
  The loop shared by \<^verbatim>\<open>openSegment\<close> and \<^verbatim>\<open>readSegment\<close>: decode until the first error.
\<close>

function decode_all :: "(bytes \<Rightarrow> walrec option) \<Rightarrow> decoder \<Rightarrow> decoder \<times> walrec list \<times> wal_error" where
  "decode_all u d =
     (case Decoder_Decode u d of
        (d', Inl e) \<Rightarrow> (d', [], e)
      | (d', Inr r) \<Rightarrow> let (d2, rs, e) = decode_all u d' in (d2, r # rs, e))"
  by pat_completeness auto
termination
  by (relation "measure (\<lambda>(_, d). length (d_r d))") (auto dest: Decode_progress [OF sym])

declare decode_all.simps [simp del]

fun chain_ok :: "u32 \<Rightarrow> walrec list \<Rightarrow> bool" where
  "chain_ok c [] = True"
| "chain_ok c (r # rs) = (chain_step c r \<and> chain_ok (rcrc r) rs)"

fun chain_end :: "u32 \<Rightarrow> walrec list \<Rightarrow> u32" where
  "chain_end c [] = c"
| "chain_end c (r # rs) = chain_end (rcrc r) rs"

definition frames :: "(walrec \<Rightarrow> bytes option) \<Rightarrow> walrec list \<Rightarrow> bytes" where
  "frames m rs = concat (map (rec_frame m) rs)"

lemma frames_simps [simp]:
  "frames m [] = []" "frames m (r # rs) = rec_frame m r @ frames m rs"
  "frames m (rs @ qs) = frames m rs @ frames m qs"
  by (simp_all add: frames_def)

lemma chain_ok_append: "chain_ok c (rs @ qs) \<longleftrightarrow> chain_ok c rs \<and> chain_ok (chain_end c rs) qs"
  by (induction rs arbitrary: c) auto

lemma chain_end_append: "chain_end c (rs @ qs) = chain_end (chain_end c rs) qs"
  by (induction rs arbitrary: c) auto

lemma decode_all_frames:
  assumes "proto_codec m u" and "\<forall>r\<in>set rs. rec_ok m r" and "chain_ok (LastCRC d) rs"
    and "d_r d = frames m rs @ tail"
  shows "decode_all u d =
    (let (d', qs, e) = decode_all u (d\<lparr>d_r := tail, d_crc := \<lparr>crc = chain_end (LastCRC d) rs\<rparr>,
                                      lastValidOff := lastValidOff d + length (frames m rs)\<rparr>)
     in (d', rs @ qs, e))"
  using assms(2-)
proof (induction rs arbitrary: d)
  case Nil
  then have "d\<lparr>d_r := tail, d_crc := \<lparr>crc = chain_end (LastCRC d) []\<rparr>,
                lastValidOff := lastValidOff d + length (frames m [])\<rparr> = d"
    by (simp add: LastCRC_def crc_Sum32_def)
  then show ?case by (simp split: prod.split)
next
  case (Cons r rs)
  have "Decoder_Decode u d = (d\<lparr>d_r := frames m rs @ tail, d_crc := \<lparr>crc = rcrc r\<rparr>,
      lastValidOff := lastValidOff d + length (rec_frame m r)\<rparr>, Inr r)"
    by (rule Decode_frame [OF assms(1)]) (use Cons.prems in auto)
  then show ?case
    using Cons.IH [of "d\<lparr>d_r := frames m rs @ tail, d_crc := \<lparr>crc = rcrc r\<rparr>,
      lastValidOff := lastValidOff d + length (rec_frame m r)\<rparr>"] Cons.prems
    by (subst decode_all.simps) (simp add: LastCRC_def crc_Sum32_def Let_def add.assoc split: prod.split)
qed

section \<open>Ends of a log\<close>

definition recoverable :: "wal_error \<Rightarrow> bool" where
  \<comment> \<open>the errors the recovery loops stop at without failing\<close>
  "recoverable e \<longleftrightarrow> e = ErrIOwrap EOF \<or> e = ErrIOwrap ErrUnexpectedEOF"

lemma decode_all_stop:
  "Decoder_Decode u d = (d', Inl e) \<Longrightarrow> decode_all u d = (d', [], e)"
  by (subst decode_all.simps) simp

lemma Decode_short:
  assumes "length (d_r d) < 8"
  shows "\<exists>e. recoverable e \<and> Decoder_Decode u d = (d\<lparr>d_r := []\<rparr>, Inl e)"
  using assms by (auto simp: Decoder_Decode_def ReadFull_def recoverable_def)

lemma Uint64LE_zeros: "Uint64LE (replicate n 0) = 0"
  by (simp add: Uint64LE_def)

lemma Decode_zeros:
  assumes "d_r d = replicate z 0"
  shows "\<exists>e r. recoverable e \<and> Decoder_Decode u d = (d\<lparr>d_r := r\<rparr>, Inl e)"
proof (cases "z < 8")
  case True
  with assms have "length (d_r d) < 8" by simp
  from Decode_short [OF this, of u] show ?thesis by blast
next
  case False
  then have "ReadFull 8 (d_r d) = Inr (replicate 8 0, drop 8 (d_r d))"
    using assms by (simp add: ReadFull_def min_def)
  then show ?thesis by (auto simp: Decoder_Decode_def Uint64LE_zeros recoverable_def Let_def)
qed

lemma Decode_cut:
  assumes codec: "proto_codec m u" and ok: "rec_ok m r" and k: "k < length (rec_frame m r)"
    and d: "d_r d = take k (rec_frame m r)"
  shows "\<exists>e. recoverable e \<and> Decoder_Decode u d = (d\<lparr>d_r := []\<rparr>, Inl e)"
proof -
  from codec ok obtain b where b: "0 < length b" "length b < 2 ^ 56" "length b \<le> maxRecordSize"
    "rec_frame m r = frame b" by (rule rec_okE)
  obtain lf pad where fs: "encodeFrameSize (length b) = (lf, pad)" by fastforce
  have lf: "lf \<noteq> 0" "decodeFrameSize lf = (length b, pad)"
    using encodeFrameSize_nonzero [OF b(1,2)] decodeFrameSize_encode [OF b(2)] fs by auto
  show ?thesis
  proof (cases "k < 8")
    case True
    with d have "length (d_r d) < 8" by simp
    from Decode_short [OF this] show ?thesis .
  next
    case False
    define rest where "rest = take (k - 8) (b @ replicate pad 0)"
    have "d_r d = PutUint64LE lf @ rest"
      using d False by (simp add: b(4) frame_def fs rest_def)
    then have r1: "ReadFull 8 (d_r d) = Inr (PutUint64LE lf, rest)" by (simp add: ReadFull_exact)
    have short: "length rest < length b + pad"
      using k False by (simp add: b(4) length_frame fs rest_def)
    obtain e where r2: "ReadFull (length b + pad) rest = Inl e" "e = EOF \<or> e = ErrUnexpectedEOF"
      using ReadFull_short [OF short] by metis
    have "Decoder_Decode u d =
        (d\<lparr>d_r := []\<rparr>, Inl (ErrIOwrap (if e = EOF then ErrUnexpectedEOF else e)))"
      unfolding Decoder_Decode_def using b(3) by (simp add: r1 lf r2(1) Let_def)
    then show ?thesis using r2(2) by (auto simp: recoverable_def)
  qed
qed

text \<open>A byte position falls into the frame of one record, or behind all of them.\<close>

lemma frames_cut:
  assumes "k \<le> length (frames m rs)"
  obtains j t where "j \<le> length rs" "take k (frames m rs) = frames m (take j rs) @ t"
    "j = length rs \<Longrightarrow> t = []"
    "j < length rs \<Longrightarrow> \<exists>i. i < length (rec_frame m (rs ! j)) \<and> t = take i (rec_frame m (rs ! j))"
proof -
  have "\<exists>j t. j \<le> length rs \<and> take k (frames m rs) = frames m (take j rs) @ t \<and>
      (j = length rs \<longrightarrow> t = []) \<and>
      (j < length rs \<longrightarrow> (\<exists>i < length (rec_frame m (rs ! j)). t = take i (rec_frame m (rs ! j))))"
    using assms
  proof (induction rs arbitrary: k)
    case (Cons r rs)
    show ?case
    proof (cases "k < length (rec_frame m r)")
      case True
      then show ?thesis by (intro exI [of _ 0] exI [of _ "take k (rec_frame m r)"]) auto
    next
      case False
      with Cons.prems have "k - length (rec_frame m r) \<le> length (frames m rs)" by simp
      from Cons.IH [OF this] obtain j t where
        "j \<le> length rs" "take (k - length (rec_frame m r)) (frames m rs) = frames m (take j rs) @ t"
        "j = length rs \<longrightarrow> t = []"
        "j < length rs \<longrightarrow> (\<exists>i < length (rec_frame m (rs ! j)). t = take i (rec_frame m (rs ! j)))"
        by blast
      with False show ?thesis by (intro exI [of _ "Suc j"] exI [of _ t]) auto
    qed
  qed simp
  then show thesis using that by blast
qed

text \<open>What the loop leaves behind: the records read, a recoverable end, and the state to go on from.\<close>

definition stops_after :: "(walrec \<Rightarrow> bytes option) \<Rightarrow> u32 \<Rightarrow> walrec list \<Rightarrow> decoder \<times> walrec list \<times> wal_error \<Rightarrow> bool" where
  "stops_after m c rs res \<longleftrightarrow>
     (case res of (d, qs, e) \<Rightarrow>
        qs = rs \<and> recoverable e \<and> lastValidOff d = length (frames m rs) \<and> LastCRC d = chain_end c rs)"

lemma decode_all_tail:
  assumes "proto_codec m u" and "\<forall>r\<in>set rs. rec_ok m r" and "chain_ok 0 rs"
    and stop: "\<And>d. d_r d = tail \<Longrightarrow> \<exists>e r. recoverable e \<and> Decoder_Decode u d = (d\<lparr>d_r := r\<rparr>, Inl e)"
  shows "stops_after m 0 rs (decode_all u (NewDecoder (frames m rs @ tail)))"
proof -
  let ?d = "NewDecoder (frames m rs @ tail)"
  let ?d1 = "?d\<lparr>d_r := tail, d_crc := \<lparr>crc = chain_end 0 rs\<rparr>, lastValidOff := length (frames m rs)\<rparr>"
  have c0: "LastCRC ?d = 0" by (simp add: NewDecoder_def LastCRC_def)
  obtain e r where e: "recoverable e" "Decoder_Decode u ?d1 = (?d1\<lparr>d_r := r\<rparr>, Inl e)"
    using stop [of ?d1] by auto
  have "decode_all u ?d = (?d1\<lparr>d_r := r\<rparr>, rs, e)"
    using decode_all_frames [OF assms(1,2), of ?d tail] assms(3) decode_all_stop [OF e(2)] c0
    by (simp add: NewDecoder_def)
  with e(1) show ?thesis by (simp add: stops_after_def LastCRC_def crc_Sum32_def)
qed

lemma decode_all_zeros:
  assumes "proto_codec m u" and "\<forall>r\<in>set rs. rec_ok m r" and "chain_ok 0 rs"
  shows "stops_after m 0 rs (decode_all u (NewDecoder (frames m rs @ replicate z 0)))"
  by (rule decode_all_tail [OF assms]) (rule Decode_zeros)

lemma chain_ok_take: "chain_ok c rs \<Longrightarrow> chain_ok c (take j rs)"
  by (metis append_take_drop_id chain_ok_append)

lemma decode_all_cut:
  assumes "proto_codec m u" and ok: "\<forall>r\<in>set rs. rec_ok m r" and "chain_ok 0 rs"
    and k: "k \<le> length (frames m rs)"
  shows "\<exists>j \<le> length rs. length (frames m (take j rs)) \<le> k \<and>
      (j < length rs \<longrightarrow> k < length (frames m (take (Suc j) rs))) \<and>
      stops_after m 0 (take j rs) (decode_all u (NewDecoder (take k (frames m rs))))"
proof -
  from k obtain j t where j: "j \<le> length rs" and cut: "take k (frames m rs) = frames m (take j rs) @ t"
    and te: "j = length rs \<Longrightarrow> t = []"
    and ti: "j < length rs \<Longrightarrow> \<exists>i. i < length (rec_frame m (rs ! j)) \<and> t = take i (rec_frame m (rs ! j))"
    by (rule frames_cut) blast
  have len: "k = length (frames m (take j rs)) + length t"
    using arg_cong [OF cut, of length] k by simp
  have stop: "\<exists>e r. recoverable e \<and> Decoder_Decode u d = (d\<lparr>d_r := r\<rparr>, Inl e)" if "d_r d = t" for d
  proof (cases "j < length rs")
    case True
    from ti [OF True] obtain i where i: "i < length (rec_frame m (rs ! j))"
      "t = take i (rec_frame m (rs ! j))" by blast
    from Decode_cut [OF assms(1) _ i(1), of d] ok True i(2) that show ?thesis by auto
  next
    case False
    with j te that Decode_zeros [of d 0 u] show ?thesis by simp
  qed
  have "stops_after m 0 (take j rs) (decode_all u (NewDecoder (frames m (take j rs) @ t)))"
    by (rule decode_all_tail [OF assms(1) _ chain_ok_take [OF assms(3)] stop])
      (use ok in \<open>auto dest: in_set_takeD\<close>)
  moreover have "k < length (frames m (take (Suc j) rs))" if "j < length rs"
    using ti [OF that] len that by (auto simp: take_Suc_conv_app_nth)
  ultimately show ?thesis using j len cut by (intro exI [of _ j]) auto
qed

section \<open>Torn sectors and corruption\<close>

text \<open>
  If a write stopped at a sector boundary and the rest of the entry is still zero, some sector
  of it is entirely zero and the entry is recognised as torn.
\<close>

lemma torn_loop_zero_tail:
  assumes "(fileOff + length p) mod minSectorSize = 0" and "0 < z"
  shows "torn_loop fileOff (p @ replicate z 0)"
  using assms(1)
proof (induction "length p" arbitrary: fileOff p rule: less_induct)
  case less
  let ?s = "minSectorSize - fileOff mod minSectorSize"
  let ?data = "p @ replicate z 0"
  let ?c = "min ?s (length ?data)"
  have s: "0 < ?s" by (simp add: minSectorSize_def)
  have ne: "?data \<noteq> []" using assms(2) by auto
  show ?case
  proof (cases "p = []")
    case True
    then show ?thesis using ne by (subst torn_loop.simps) (simp add: Let_def)
  next
    case False
    have cp: "?s \<le> length p"
    proof (rule ccontr)
      assume "\<not> ?s \<le> length p"
      then have "length p < ?s" by simp
      moreover have "(fileOff + length p) mod minSectorSize =
          (fileOff mod minSectorSize + length p) mod minSectorSize"
        by (simp add: mod_add_left_eq)
      ultimately have "(fileOff + length p) mod minSectorSize = fileOff mod minSectorSize + length p"
        by simp
      with less.prems False show False by simp
    qed
    then have c: "?c = ?s" by simp
    have "length (drop ?s p) < length p" using s cp by simp
    moreover have "(fileOff + ?s + length (drop ?s p)) mod minSectorSize = 0"
      using less.prems cp by (simp add: add.assoc)
    ultimately have "torn_loop (fileOff + ?s) (drop ?s p @ replicate z 0)"
      by (rule less.hyps)
    moreover have "drop ?c ?data = drop ?s p @ replicate z 0" using cp c by simp
    ultimately show ?thesis using ne c by (subst torn_loop.simps) (simp add: Let_def)
  qed
qed

lemma Decode_torn:
  assumes n: "0 < n" "n \<le> maxRecordSize" and lf: "lf = fst (encodeFrameSize n)" "pad = snd (encodeFrameSize n)"
    and len: "length p + z = n + pad" and z: "0 < z"
    and sector: "(lastValidOff d + frameSizeBytes + length p) mod minSectorSize = 0"
    and d: "d_r d = PutUint64LE lf @ (p @ replicate z 0) @ rest"
  shows "snd (Decoder_Decode u d) = Inl (ErrIOwrap ErrUnexpectedEOF) \<or>
    (\<exists>r. u (take n (p @ replicate z 0)) = Some r \<and> snd (Decoder_Decode u d) = Inr r)"
proof -
  have torn: "isTornEntry (d\<lparr>d_r := rest\<rparr>) (p @ replicate z 0)"
    "isTornEntry (d\<lparr>d_r := rest, d_crc := c\<rparr>) (p @ replicate z 0)" for c
    using torn_loop_zero_tail [OF sector z] by (simp_all add: isTornEntry_def)
  have l2: "length (p @ replicate z 0) = n + pad" using len by simp
  show ?thesis
    using Decode_split [OF lf n l2 d, of u] torn
    by (auto simp: Let_def split: option.split)
qed

lemma Decode_mismatch:
  assumes codec: "proto_codec m u" and ok: "rec_ok m r" and ty: "rtype r \<noteq> CrcType"
    and bad: "rcrc r \<noteq> crc32_Update (LastCRC d) (rdata r)"
    and d: "d_r d = rec_frame m r @ rest"
  shows "\<exists>d' e. Decoder_Decode u d = (d', Inl e) \<and> (e = ErrCRCMismatch \<or> e = ErrIOwrap ErrUnexpectedEOF) \<and>
    lastValidOff d' = lastValidOff d \<and> LastCRC d' = crc32_Update (LastCRC d) (rdata r)"
proof -
  from codec ok obtain b where b: "u b = Some r" "0 < length b" "length b \<le> maxRecordSize"
    "rec_frame m r = frame b" by (rule rec_okE)
  obtain lf pad where fs: "encodeFrameSize (length b) = (lf, pad)" by fastforce
  have dr: "d_r d = PutUint64LE lf @ (b @ replicate pad 0) @ rest"
    using d b(4) by (simp add: frame_def fs)
  have l2: "length (b @ replicate pad 0) = length b + pad" by simp
  note sp = Decode_split [of lf "length b" pad, OF _ _ b(2,3) l2 dr, unfolded fs, simplified, of u,
      unfolded b(1)]
  have "crc (fst (crc_Write (d_crc d) (rdata r))) \<noteq> rcrc r"
    using bad by (simp add: LastCRC_def crc_Sum32_def)
  then show ?thesis
    unfolding sp by (auto simp: ty Let_def crc_Sum32_def LastCRC_def)
qed

lemma Decode_oversize:
  assumes "maxRecordSize < length b" and "length b < 2 ^ 56" and "d_r d = frame b @ rest"
  shows "snd (Decoder_Decode u d) = Inl ErrCorrupted"
proof -
  obtain lf pad where fs: "encodeFrameSize (length b) = (lf, pad)" by fastforce
  have n: "0 < length b" using assms(1) by linarith
  have lf: "lf \<noteq> 0" "decodeFrameSize lf = (length b, pad)"
    using encodeFrameSize_nonzero [OF n assms(2)] decodeFrameSize_encode [OF assms(2)] fs by auto
  have "ReadFull 8 (d_r d) = Inr (PutUint64LE lf, b @ replicate pad 0 @ rest)"
    using assms(3) by (simp add: frame_def fs ReadFull_exact)
  then show ?thesis using assms(1) by (simp add: Decoder_Decode_def lf Let_def)
qed

section \<open>A message format\<close>

text \<open>A small concrete format that meets \<open>proto_codec\<close>; the properties are applied to it.\<close>

definition tiny_marshal :: "walrec \<Rightarrow> bytes option" where
  "tiny_marshal r =
     (if rtype r \<in> {1, 2, 3} then Some (word_of_int (rtype r) # PutUint32LE (rcrc r) @ rdata r) else None)"

definition tiny_unmarshal :: "bytes \<Rightarrow> walrec option" where
  "tiny_unmarshal b =
     (case b of
        [] \<Rightarrow> Some \<lparr>rtype = 0, rcrc = 0, rdata = []\<rparr>
      | t # rest \<Rightarrow>
          if length rest < 4 then None
          else Some \<lparr>rtype = uint t, rcrc = Uint32LE (take 4 rest), rdata = drop 4 rest\<rparr>)"

lemma length_PutUint32LE: "length (PutUint32LE w) = 4"
  by (simp add: PutUint32LE_def)

lemma tiny_codec: "proto_codec tiny_marshal tiny_unmarshal"
  unfolding proto_codec_def
proof (intro conjI allI impI)
  fix r b assume "tiny_marshal r = Some b"
  then have b: "b = word_of_int (rtype r) # PutUint32LE (rcrc r) @ rdata r" and ty: "rtype r \<in> {1, 2, 3}"
    by (auto simp: tiny_marshal_def split: if_splits)
  from ty have "uint (word_of_int (rtype r) :: byte) = rtype r" by auto
  then show "tiny_unmarshal b = Some r"
    by (simp add: b tiny_unmarshal_def length_PutUint32LE)
qed (simp add: tiny_unmarshal_def)

lemma tiny_storable: "ty \<in> {1, 2, 3} \<Longrightarrow> length data + 5 \<le> maxRecordSize \<Longrightarrow> storable tiny_marshal ty data"
  by (auto simp: storable_def rec_ok_def tiny_marshal_def length_PutUint32LE)

lemma tiny_storable_small [simp]:
  "storable tiny_marshal CrcType []" "storable tiny_marshal DataType [x]" "storable tiny_marshal SnapshotType []"
  by (auto intro!: tiny_storable simp: CrcType_def DataType_def SnapshotType_def maxRecordSize_def)

section \<open>Soundness on any bytes\<close>

lemma Decode_sound:
  assumes dec: "Decoder_Decode u d = (d', Inr r)"
  shows "chain_step (LastCRC d) r" and "LastCRC d' = rcrc r"
    and "lastValidOff d' + length (d_r d') = lastValidOff d + length (d_r d)"
proof -
  obtain lb r1 where r1: "ReadFull 8 (d_r d) = Inr (lb, r1)"
    using dec by (cases "ReadFull 8 (d_r d)") (auto simp: Decoder_Decode_def)
  obtain n pad where sz: "decodeFrameSize (Uint64LE lb) = (n, pad)" by fastforce
  obtain data r2 where r2: "ReadFull (n + pad) r1 = Inr (data, r2)"
    using dec by (cases "ReadFull (n + pad) r1")
      (auto simp: Decoder_Decode_def r1 sz Let_def split: if_splits)
  have len: "length (d_r d) = frameSizeBytes + n + pad + length r2"
    using ReadFull_length [OF r1] ReadFull_length [OF r2] by (simp add: frameSizeBytes_def)
  show "chain_step (LastCRC d) r" "LastCRC d' = rcrc r"
    "lastValidOff d' + length (d_r d') = lastValidOff d + length (d_r d)"
    using dec len
    by (cases "u (take n data)";
        auto simp: Decoder_Decode_def r1 sz r2 Let_def chain_step_def LastCRC_def crc_Sum32_def
          crc_Write_def crc_New_def split: if_splits)+
qed

lemma Decode_error_offset: "Decoder_Decode u d = (d', Inl e) \<Longrightarrow> lastValidOff d' = lastValidOff d"
  by (auto simp: Decoder_Decode_def Let_def split: sum.splits if_splits option.splits prod.splits)

lemma decode_all_sound_aux:
  "decode_all u d = (d', rs, e) \<Longrightarrow>
     chain_ok (LastCRC d) rs \<and> lastValidOff d' \<le> lastValidOff d + length (d_r d)"
proof (induction u d arbitrary: d' rs e rule: decode_all.induct)
  case (1 u d)
  obtain d1 res where dec: "Decoder_Decode u d = (d1, res)" by fastforce
  show ?case
  proof (cases res)
    case (Inl x)
    then show ?thesis
      using 1(2) decode_all_stop [OF dec [unfolded Inl]] Decode_error_offset [of u d d1 x] dec by auto
  next
    case (Inr r)
    obtain d2 qs x where rest: "decode_all u d1 = (d2, qs, x)" by (metis prod_cases3)
    note k = Decode_sound [OF dec [unfolded Inr]]
    have "rs = r # qs" "d' = d2"
      using 1(2) by (subst (asm) decode_all.simps, simp add: dec Inr rest)+
    with "1.IH" [OF dec [symmetric] Inr rest] k show ?thesis by simp
  qed
qed

section \<open>Encoding and decoding a list of records\<close>

text \<open>A writer that collects what it is given.\<close>

definition mem_Write :: "bytes \<Rightarrow> bytes \<Rightarrow> bytes \<times> nat \<times> io_error option" where
  "mem_Write s p = (s @ p, length p, None)"

interpretation mw: io_writer_live mem_Write "\<lambda>s. s" "\<lambda>_. True"
  by unfold_locales (auto simp: mem_Write_def)

fun encode_list ::
  "(walrec \<Rightarrow> bytes option) \<Rightarrow> encoder \<Rightarrow> bytes \<Rightarrow> walrec list \<Rightarrow> encoder \<times> bytes \<times> walrec list" where
  "encode_list m e s [] = (e, s, [])"
| "encode_list m e s (r # rs) =
     (let (e1, s1, r1, _) = Encoder_Encode m mem_Write e s r;
          (e2, s2, qs) = encode_list m e1 s1 rs
      in (e2, s2, r1 # qs))"

lemma encode_list_ok:
  assumes "enc_inv e" and "\<forall>r\<in>set rs. storable m (rtype r) (rdata r)"
    and "encode_list m e s rs = (e', s', qs)"
  shows "enc_inv e' \<and> s' @ enc_pending e' = s @ enc_pending e @ frames m qs \<and>
    chain_ok (Encoder_CRC e) qs \<and> (\<forall>r\<in>set qs. rec_ok m r) \<and>
    map rtype qs = map rtype rs \<and> map rdata qs = map rdata rs"
  using assms
proof (induction rs arbitrary: e s qs)
  case (Cons r rs)
  obtain e1 s1 r1 res where en: "Encoder_Encode m mem_Write e s r = (e1, s1, r1, res)"
    by (metis prod_cases4)
  have ok: "rec_ok m (seal (Encoder_CRC e) r)" using Cons.prems(2) by (intro storable_seal) simp
  then obtain b where b: "m (seal (Encoder_CRC e) r) = Some b" by (auto simp: rec_ok_def split: option.splits)
  from mw.Encode_live [OF _ b en] have res: "res = Inr (e_offset e)" by simp
  note k = mw.Encode_ok [OF Cons.prems(1) en [unfolded res]]
  have fb: "rec_frame m r1 = frame b" using b k(3) by (simp add: rec_frame_def)
  have o: "s1 @ enc_pending e1 = (s @ enc_pending e) @ frame b" using k(1) b by auto
  obtain qs' where rest: "encode_list m e1 s1 rs = (e', s', qs')" and qs: "qs = r1 # qs'"
    using Cons.prems(3) en by (auto split: prod.splits)
  have "\<forall>r\<in>set rs. storable m (rtype r) (rdata r)" using Cons.prems(2) by simp
  from Cons.IH [OF k(2) this rest] show ?case
    using o fb k(3,4) ok by (simp add: qs)
qed simp

lemma encode_list_crc: "encode_list m e s rs = (e', s', qs) \<Longrightarrow> Encoder_CRC e' = chain_end (Encoder_CRC e) qs"
proof (induction rs arbitrary: e s qs)
  case (Cons r rs)
  obtain e1 s1 r1 res where en: "Encoder_Encode m mem_Write e s r = (e1, s1, r1, res)"
    by (metis prod_cases4)
  have "Encoder_CRC e1 = rcrc r1"
    using en by (auto simp: Encoder_Encode_def Encoder_CRC_def crc_Write_def crc_Sum32_def Let_def
        split: option.splits prod.splits if_splits)
  with Cons en show ?case by (auto split: prod.splits)
qed simp

section \<open>Properties\<close>

text \<open>C19: A list of records that marshal within the size limit, encoded one after the other by a
  new encoder into a writer and flushed, decodes back to the same types and payloads in order,
  and the decoder ends with a clean \<^verbatim>\<open>io.EOF\<close>, the encoder's CRC and the offset of the
  end of the written bytes.\<close>

theorem encode_decode_stream:
  assumes codec: "proto_codec m u" and st: "\<forall>r\<in>set rs. storable m (rtype r) (rdata r)"
    and enc: "encode_list m (NewEncoder 0 0 bs) [] rs = (e, s, qs)"
    and fl: "Encoder_Flush mem_Write e s = (e', s', err)"
  shows "err = None \<and> map rtype qs = map rtype rs \<and> map rdata qs = map rdata rs \<and>
    (\<exists>d. decode_all u (NewDecoder s') = (d, qs, ErrIOwrap EOF) \<and>
       LastCRC d = Encoder_CRC e' \<and> LastOffset d = length s')"
proof -
  have "enc_inv (NewEncoder 0 0 bs)" by simp
  note k = encode_list_ok [OF this st enc]
  then have k1: "enc_inv e" by simp
  have err: "err = None" using mw.Encoder_Flush_live [OF TrueI fl] by simp
  note f = mw.Encoder_Flush_ok [OF k1 fl [unfolded err]]
  have s': "s' = frames m qs" using f(3) k by simp
  let ?d = "NewDecoder (frames m qs)"
  let ?d1 = "?d\<lparr>d_r := [], d_crc := \<lparr>crc = chain_end 0 qs\<rparr>, lastValidOff := length (frames m qs)\<rparr>"
  have c0: "LastCRC ?d = 0" by (simp add: NewDecoder_def LastCRC_def)
  have "Decoder_Decode u ?d1 = (?d1, Inl (ErrIOwrap EOF))"
    by (simp add: Decoder_Decode_def ReadFull_def)
  from decode_all_stop [OF this] have "decode_all u ?d = (?d1, qs, ErrIOwrap EOF)"
    using decode_all_frames [OF codec, of qs ?d "[]"] k c0 by (simp add: NewDecoder_def)
  moreover have "Encoder_CRC e' = chain_end 0 qs"
    using f(4) encode_list_crc [OF enc] by simp
  ultimately show ?thesis using k err s' by (simp add: LastCRC_def LastOffset_def crc_Sum32_def)
qed

theorem encode_decode_stream_witness:
  "\<exists>d e s qs e' s'. encode_list tiny_marshal (NewEncoder 0 0 16) [] [\<lparr>rtype = 3, rcrc = 0, rdata = [7]\<rparr>] = (e, s, qs) \<and>
    Encoder_Flush mem_Write e s = (e', s', None) \<and> map rdata qs = [[7]] \<and>
    decode_all tiny_unmarshal (NewDecoder s') = (d, qs, ErrIOwrap EOF)"
proof -
  let ?rs = "[\<lparr>rtype = 3, rcrc = 0, rdata = [7]\<rparr>]"
  obtain e s qs where e: "encode_list tiny_marshal (NewEncoder 0 0 16) [] ?rs = (e, s, qs)"
    by (metis prod_cases3)
  obtain e' s' err where f: "Encoder_Flush mem_Write e s = (e', s', err)" by (metis prod_cases3)
  have "\<forall>r\<in>set ?rs. storable tiny_marshal (rtype r) (rdata r)"
    by (simp add: tiny_storable maxRecordSize_def)
  from encode_decode_stream [OF tiny_codec this e f] e f show ?thesis by auto
qed

text \<open>C20: Whatever bytes a segment holds, the records the decode loop returns satisfy the CRC chain
  from its start: every record that is not a checkpoint carries the CRC of the payload continued
  from the record before it. The offset reported for the end of valid data lies in the file.\<close>

theorem decode_any_bytes_sound:
  assumes "decode_all u (NewDecoder bs) = (d, rs, e)"
  shows "chain_ok 0 rs \<and> LastOffset d \<le> length bs"
  using decode_all_sound_aux [OF assms] by (simp add: NewDecoder_def LastCRC_def LastOffset_def)

theorem decode_any_bytes_sound_witness:
  "\<exists>d rs e. decode_all tiny_unmarshal (NewDecoder [1, 2, 3]) = (d, rs, e) \<and> chain_ok 0 rs \<and> LastOffset d \<le> 3"
proof -
  obtain d rs e where "decode_all tiny_unmarshal (NewDecoder [1, 2, 3]) = (d, rs, e)" by (metis prod_cases3)
  with decode_any_bytes_sound [OF this] show ?thesis by simp
qed

text \<open>C21: A log cut off at any byte decodes to exactly the records whose frames are whole, with a
  recoverable error, and leaves the decoder at the end of the last whole frame with its CRC.\<close>

theorem decode_cut_log:
  assumes "proto_codec m u" and "\<forall>r\<in>set rs. rec_ok m r" and "chain_ok 0 rs" and "k \<le> length (frames m rs)"
  shows "\<exists>j d e. j \<le> length rs \<and> length (frames m (take j rs)) \<le> k \<and>
    (j < length rs \<longrightarrow> k < length (frames m (take (Suc j) rs))) \<and>
    decode_all u (NewDecoder (take k (frames m rs))) = (d, take j rs, e) \<and> recoverable e \<and>
    LastOffset d = length (frames m (take j rs)) \<and> LastCRC d = chain_end 0 (take j rs)"
proof -
  obtain d qs e where d: "decode_all u (NewDecoder (take k (frames m rs))) = (d, qs, e)"
    by (metis prod_cases3)
  from decode_all_cut [OF assms] d show ?thesis
    by (auto simp: stops_after_def LastOffset_def)
qed

theorem decode_cut_log_witness:
  "\<exists>j d e. j \<le> 1 \<and> length (frames tiny_marshal (take j [\<lparr>rtype = 1, rcrc = 5, rdata = []\<rparr>])) \<le> 9 \<and>
    decode_all tiny_unmarshal (NewDecoder (take 9 (frames tiny_marshal [\<lparr>rtype = 1, rcrc = 5, rdata = []\<rparr>])))
      = (d, take j [\<lparr>rtype = 1, rcrc = 5, rdata = []\<rparr>], e) \<and> recoverable e"
proof -
  let ?rs = "[\<lparr>rtype = 1, rcrc = 5, rdata = []\<rparr>]"
  have a: "\<forall>r\<in>set ?rs. rec_ok tiny_marshal r"
    by (simp add: rec_ok_def tiny_marshal_def length_PutUint32LE maxRecordSize_def)
  have b: "chain_ok 0 ?rs" by (simp add: chain_step_def CrcType_def)
  have c: "9 \<le> length (frames tiny_marshal ?rs)"
    by (simp add: rec_frame_def tiny_marshal_def length_frame length_PutUint32LE)
  from decode_cut_log [OF tiny_codec a b c] show ?thesis by force
qed

text \<open>C22: If the write of an entry stopped at a sector boundary and the rest of the entry is zero,
  decoding it reports a torn write, or accepts the entry with its zeros as a record that unmarshals; it
  never reports corruption or a CRC mismatch.\<close>

theorem decode_torn_sector:
  assumes "0 < n" and "n \<le> maxRecordSize"
    and "length p + z = n + snd (encodeFrameSize n)" and "0 < z"
    and "(lastValidOff d + frameSizeBytes + length p) mod minSectorSize = 0"
    and "d_r d = PutUint64LE (fst (encodeFrameSize n)) @ (p @ replicate z 0) @ rest"
  shows "snd (Decoder_Decode u d) = Inl (ErrIOwrap ErrUnexpectedEOF) \<or>
    (\<exists>r. u (take n (p @ replicate z 0)) = Some r \<and> snd (Decoder_Decode u d) = Inr r)"
  using assms by (intro Decode_torn) auto

theorem decode_torn_sector_witness:
  "snd (Decoder_Decode (\<lambda>_. None) \<lparr>d_r = PutUint64LE (fst (encodeFrameSize 8)) @ replicate 8 0,
     d_crc = crc_New 0, lastValidOff = 504\<rparr>) = Inl (ErrIOwrap ErrUnexpectedEOF)"
  using decode_torn_sector [of 8 "[]" 8 "\<lparr>d_r = PutUint64LE (fst (encodeFrameSize 8)) @ replicate 8 0,
     d_crc = crc_New 0, lastValidOff = 504\<rparr>" "[]" "\<lambda>_. None"]
  by (simp add: encodeFrameSize_def maxRecordSize_def frameSizeBytes_def minSectorSize_def)

text \<open>A record whose payload differs from the payload its CRC was computed for in one byte is
  not accepted: decoding reports a CRC mismatch, or a torn write if a sector of it is zero.\<close>

theorem decode_changed_byte:
  assumes codec: "proto_codec m u" and "rec_ok m r" and "rtype r \<noteq> CrcType"
    and i: "i < length p" "p ! i \<noteq> v" and r: "rdata r = p[i := v]" "rcrc r = crc32_Update (LastCRC d) p"
    and "d_r d = rec_frame m r @ rest"
  shows "snd (Decoder_Decode u d) = Inl ErrCRCMismatch \<or>
    snd (Decoder_Decode u d) = Inl (ErrIOwrap ErrUnexpectedEOF)"
proof -
  have "rcrc r \<noteq> crc32_Update (LastCRC d) (rdata r)"
    using crc32_Update_changed_byte [OF i, of "LastCRC d"] r by metis
  from Decode_mismatch [OF assms(1-3) this assms(8)] show ?thesis by auto
qed

theorem decode_changed_byte_witness:
  "snd (Decoder_Decode tiny_unmarshal (NewDecoder (rec_frame tiny_marshal
     \<lparr>rtype = 3, rcrc = crc32_Update 0 [1], rdata = [2]\<rparr>))) \<in>
   {Inl ErrCRCMismatch, Inl (ErrIOwrap ErrUnexpectedEOF)}"
proof -
  let ?r = "\<lparr>rtype = 3, rcrc = crc32_Update 0 [1], rdata = [2]\<rparr>"
  have ok: "rec_ok tiny_marshal ?r"
    by (simp add: rec_ok_def tiny_marshal_def length_PutUint32LE maxRecordSize_def)
  show ?thesis
    using decode_changed_byte [OF tiny_codec ok, of 0 "[1]" 2 "NewDecoder (rec_frame tiny_marshal ?r)" "[]"]
    by (simp add: CrcType_def NewDecoder_def LastCRC_def crc_New_def crc_Sum32_def)
qed

text \<open>The frame header: the length and the padding of a record below \<open>2 ^ 56\<close> bytes survive the
  packing into one 64-bit word, the word is not the zero that marks the end of the data, and
  record and padding together are a multiple of 8 bytes.\<close>

theorem frame_size_roundtrip:
  assumes "0 < n" and "n < 2 ^ 56"
  shows "decodeFrameSize (fst (encodeFrameSize n)) = (n, snd (encodeFrameSize n)) \<and>
    fst (encodeFrameSize n) \<noteq> 0 \<and> snd (encodeFrameSize n) < 8 \<and> (n + snd (encodeFrameSize n)) mod 8 = 0"
  using decodeFrameSize_encode encodeFrameSize_nonzero padBytes_bound padded_multiple assms by blast

theorem frame_size_roundtrip_witness: "decodeFrameSize (fst (encodeFrameSize 13)) = (13, 3)"
  using frame_size_roundtrip [of 13] by (simp add: encodeFrameSize_def)

text \<open>The encoder has no size limit but the decoder has one: the frame of a record of more than
  64 MB is written without an error and then read as corruption.\<close>

theorem oversize_record_unreadable:
  assumes "enc_inv e" and "m (seal (Encoder_CRC e) r) = Some b" and "maxRecordSize < length b" and "length b < 2 ^ 56"
  shows "\<exists>e' s' r'. Encoder_Encode m mem_Write e s r = (e', s', r', Inr (Encoder_Offset e)) \<and>
    s' @ enc_pending e' = s @ enc_pending e @ frame b \<and>
    (\<forall>d. d_r d = frame b \<longrightarrow> snd (Decoder_Decode u d) = Inl ErrCorrupted)"
proof -
  obtain e' s' r' res where en: "Encoder_Encode m mem_Write e s r = (e', s', r', res)"
    by (metis prod_cases4)
  from mw.Encode_live [OF _ assms(2) en] have res: "res = Inr (e_offset e)" by simp
  from mw.Encode_ok(1) [OF assms(1) en [unfolded res]] assms(2)
  have "s' @ enc_pending e' = s @ enc_pending e @ frame b" by auto
  moreover have "snd (Decoder_Decode u d) = Inl ErrCorrupted" if "d_r d = frame b" for d
    using Decode_oversize [OF assms(3,4), of d "[]"] that by simp
  ultimately show ?thesis using en res by (simp add: Encoder_Offset_def)
qed

theorem oversize_record_unreadable_witness:
  "\<exists>e' s' r'. Encoder_Encode (\<lambda>_. Some (replicate (maxRecordSize + 1) 1)) mem_Write (NewEncoder 0 0 16) []
      \<lparr>rtype = 3, rcrc = 0, rdata = []\<rparr> = (e', s', r', Inr 0)"
  using oversize_record_unreadable [of "NewEncoder 0 0 16" "\<lambda>_. Some (replicate (maxRecordSize + 1) 1)"
      "\<lparr>rtype = 3, rcrc = 0, rdata = []\<rparr>" "replicate (maxRecordSize + 1) 1" "[]" "\<lambda>_. None"]
  by (auto simp: maxRecordSize_def Encoder_Offset_def)

text \<open>C40: When a record is judged torn because its CRC does not match, the decoder reports a
  recoverable end before that record but has already fed the torn payload into its running CRC:
  \<^verbatim>\<open>LastCRC\<close> is not the CRC of the records returned, although \<^verbatim>\<open>openSegment\<close> seeds
  the next encoder with it.\<close>

theorem torn_record_pollutes_crc:
  assumes codec: "proto_codec m u" and rs: "\<forall>r\<in>set rs. rec_ok m r" "chain_ok 0 rs"
    and r: "rec_ok m r" "rtype r \<noteq> CrcType" "rcrc r \<noteq> crc32_Update (chain_end 0 rs) (rdata r)"
    and torn: "torn_loop (length (frames m rs) + frameSizeBytes) (drop 8 (rec_frame m r))"
  shows "\<exists>d. decode_all u (NewDecoder (frames m rs @ rec_frame m r)) = (d, rs, ErrIOwrap ErrUnexpectedEOF) \<and>
    LastOffset d = length (frames m rs) \<and> LastCRC d = crc32_Update (chain_end 0 rs) (rdata r)"
proof -
  let ?d = "NewDecoder (frames m rs @ rec_frame m r)"
  define d1 where "d1 = ?d\<lparr>d_r := rec_frame m r, d_crc := \<lparr>crc = chain_end 0 rs\<rparr>,
    lastValidOff := length (frames m rs)\<rparr>"
  have c0: "LastCRC ?d = 0" and l1: "LastCRC d1 = chain_end 0 rs" "lastValidOff d1 = length (frames m rs)"
    "d_r d1 = rec_frame m r @ []"
    by (simp_all add: NewDecoder_def LastCRC_def d1_def crc_Sum32_def crc_New_def)
  from codec r(1) obtain b where b: "u b = Some r" "0 < length b" "length b \<le> maxRecordSize"
    "rec_frame m r = frame b" by (rule rec_okE)
  obtain lf pad where fs: "encodeFrameSize (length b) = (lf, pad)" by fastforce
  have fr: "rec_frame m r = PutUint64LE lf @ b @ replicate pad 0" by (simp add: b(4) frame_def fs)
  have dr: "d_r d1 = PutUint64LE lf @ (b @ replicate pad 0) @ []" by (simp add: l1(3) fr)
  have l2: "length (b @ replicate pad 0) = length b + pad" by simp
  have tn: "torn_loop (length (frames m rs) + frameSizeBytes) (b @ replicate pad 0)"
    using torn by (simp add: fr)
  note sp = Decode_split [of lf "length b" pad, OF _ _ b(2,3) l2 dr, unfolded fs, simplified, of u,
      unfolded b(1)]
  have bad: "crc (fst (crc_Write (d_crc d1) (rdata r))) \<noteq> rcrc r"
    using r(3) l1(1) by (simp add: LastCRC_def crc_Sum32_def)
  have "\<exists>d2. Decoder_Decode u d1 = (d2, Inl (ErrIOwrap ErrUnexpectedEOF)) \<and>
      lastValidOff d2 = length (frames m rs) \<and> LastCRC d2 = crc32_Update (chain_end 0 rs) (rdata r)"
    unfolding sp using bad tn l1(1,2) r(2)
    by (simp add: Let_def crc_Sum32_def isTornEntry_def LastCRC_def)
  then obtain d2 where d2: "Decoder_Decode u d1 = (d2, Inl (ErrIOwrap ErrUnexpectedEOF))"
    "lastValidOff d2 = length (frames m rs)" "LastCRC d2 = crc32_Update (chain_end 0 rs) (rdata r)" by blast
  have "decode_all u ?d = (d2, rs, ErrIOwrap ErrUnexpectedEOF)"
    using decode_all_frames [OF codec rs(1), of ?d "rec_frame m r"] rs(2) decode_all_stop [OF d2(1)] c0
    by (simp add: NewDecoder_def d1_def)
  with d2 show ?thesis by (simp add: LastOffset_def)
qed

theorem torn_record_pollutes_crc_witness:
  "\<exists>d r. decode_all tiny_unmarshal (NewDecoder (rec_frame tiny_marshal r)) = (d, [], ErrIOwrap ErrUnexpectedEOF) \<and>
    LastOffset d = 0 \<and> LastCRC d = crc32_Update 0 (rdata r)"
proof -
  define data where "data = replicate 600 (0 :: byte)"
  define r where "r = \<lparr>rtype = 3, rcrc = NOT (crc32_Update 0 data), rdata = data\<rparr>"
  have ok: "rec_ok tiny_marshal r"
    by (simp add: rec_ok_def tiny_marshal_def length_PutUint32LE maxRecordSize_def r_def data_def)
  have bad: "rcrc r \<noteq> crc32_Update (chain_end 0 []) (rdata r)"
  proof
    assume "rcrc r = crc32_Update (chain_end 0 []) (rdata r)"
    then have "bit (NOT (crc32_Update 0 data)) 0 = bit (crc32_Update 0 data) 0" by (simp add: r_def)
    then show False by (simp add: bit_simps)
  qed
  let ?p = "3 # PutUint32LE (rcrc r) @ replicate 499 0"
  have "drop 8 (rec_frame tiny_marshal r) = ?p @ replicate 104 0"
    by (simp add: rec_frame_def tiny_marshal_def r_def data_def frame_def encodeFrameSize_def
        length_PutUint32LE flip: replicate_add)
  moreover have "torn_loop 8 (?p @ replicate 104 0)"
    by (rule torn_loop_zero_tail) (simp_all add: length_PutUint32LE minSectorSize_def)
  ultimately have "torn_loop (length (frames tiny_marshal []) + frameSizeBytes) (drop 8 (rec_frame tiny_marshal r))"
    by (simp add: frameSizeBytes_def)
  moreover have "rtype r \<noteq> CrcType" by (simp add: r_def CrcType_def)
  ultimately show ?thesis
    using torn_record_pollutes_crc [OF tiny_codec _ _ ok _ bad] by fastforce
qed

end
