(* ===== verification/Wal.thy ===== *)
theory Wal
  imports Decoder
begin

text \<open>
  \<^verbatim>\<open>pkg/wal/wal.go\<close> and \<^verbatim>\<open>pkg/wal/options.go\<close>: the segmented write-ahead log over the
  file model of \<^verbatim>\<open>Go_IO\<close>. The directory of the WAL is the \<open>files\<close> of the operating-system
  state, so a path is a file name. Each operation is the body of the Go method with its early
  returns; the lock of the Go struct makes it atomic, and \<^verbatim>\<open>Sync\<close> here is what a single
  caller of the group commit does (the interleavings are in \<^verbatim>\<open>SyncGroup\<close>). Errors a method
  ignores (\<^verbatim>\<open>f.Close()\<close> on a failure path) take no fault from the schedule.
\<close>

section \<open>Options\<close>

record options =
  SegmentSize :: int
  BufferSize :: int
  PreallocSize :: int

definition DefaultOptions :: options where
  "DefaultOptions = \<lparr>SegmentSize = 0, BufferSize = 128 * 1024, PreallocSize = 0\<rparr>"

definition SchemaOptions :: options where
  "SchemaOptions = \<lparr>SegmentSize = 0, BufferSize = 4 * 1024, PreallocSize = 0\<rparr>"

definition ResourceOptions :: options where
  "ResourceOptions =
     \<lparr>SegmentSize = 64 * 1024 * 1024, BufferSize = 128 * 1024, PreallocSize = 64 * 1024 * 1024\<rparr>"

section \<open>Segment names\<close>

definition walFilePrefix :: string where
  "walFilePrefix = ''wal-''"

definition walFileSuffix :: string where
  "walFileSuffix = ''.log''"

definition WAL_segmentPath :: "nat \<Rightarrow> string" where
  "WAL_segmentPath seq = walFilePrefix @ pad_left 16 CHR ''0'' (dec_digits seq) @ walFileSuffix"

text \<open>\<^verbatim>\<open>strconv.ParseUint(s, 10, 64)\<close> and the \<^verbatim>\<open>strings\<close> functions used with it.\<close>

definition digit_val :: "char \<Rightarrow> nat option" where
  "digit_val c = (let n = of_char c in if 48 \<le> n \<and> n < 58 then Some (n - 48) else None)"

fun parse_digits :: "nat \<Rightarrow> string \<Rightarrow> nat option" where
  "parse_digits acc [] = Some acc"
| "parse_digits acc (c # cs) =
     (case digit_val c of None \<Rightarrow> None | Some d \<Rightarrow> parse_digits (10 * acc + d) cs)"

definition ParseUint :: "string \<Rightarrow> nat option" where
  "ParseUint s =
     (if s = [] then None
      else case parse_digits 0 s of
             None \<Rightarrow> None
           | Some n \<Rightarrow> if n < 2 ^ 64 then Some n else None)"

definition HasPrefix :: "'a list \<Rightarrow> 'a list \<Rightarrow> bool" where
  "HasPrefix s p \<longleftrightarrow> take (length p) s = p"

definition HasSuffix :: "'a list \<Rightarrow> 'a list \<Rightarrow> bool" where
  "HasSuffix s p \<longleftrightarrow> length p \<le> length s \<and> drop (length s - length p) s = p"

definition TrimPrefix :: "'a list \<Rightarrow> 'a list \<Rightarrow> 'a list" where
  "TrimPrefix s p = (if HasPrefix s p then drop (length p) s else s)"

definition TrimSuffix :: "'a list \<Rightarrow> 'a list \<Rightarrow> 'a list" where
  "TrimSuffix s p = (if HasSuffix s p then take (length s - length p) s else s)"

type_synonym segmentInfo = "nat \<times> string"

definition segment_of_entry :: "string \<times> osfile \<Rightarrow> segmentInfo option" where
  "segment_of_entry = (\<lambda>(name, f).
     if fisdir f then None
     else if \<not> HasPrefix name walFilePrefix \<or> \<not> HasSuffix name walFileSuffix then None
     else map_option (\<lambda>seq. (seq, name))
            (ParseUint (TrimSuffix (TrimPrefix name walFilePrefix) walFileSuffix)))"

text \<open>The sort of the listing; Go's \<^verbatim>\<open>sort.Slice\<close> leaves the order of equal numbers open.\<close>

definition dir_segments :: "os \<Rightarrow> segmentInfo list" where
  "dir_segments w = sort_key fst (List.map_filter segment_of_entry (files w))"

definition WAL_listSegments :: "os \<Rightarrow> os \<times> (wal_error + segmentInfo list)" where
  "WAL_listSegments w =
     (case os_call w of
        (w1, Some e) \<Rightarrow> (w1, Inl (ErrIOwrap e))
      | (w1, None) \<Rightarrow> (w1, Inr (dir_segments w1)))"

section \<open>State\<close>

record wal =
  w_opts :: options
  w_file :: fd
  w_enc :: encoder
  w_seq :: nat
  w_offset :: nat
  w_closed :: bool

definition file_Truncate :: "os \<Rightarrow> fd \<Rightarrow> nat \<Rightarrow> os \<times> io_error option" where
  "file_Truncate w h n =
     (case os_call w of
        (w1, Some e) \<Rightarrow> (w1, Some e)
      | (w1, None) \<Rightarrow>
          let f = file_of w1 (fd_name h)
          in (put_file (fd_name h) (f\<lparr>fdata := take n (zero_extend n (fdata f))\<rparr>) w1, None))"

definition preallocate :: "os \<Rightarrow> fd \<Rightarrow> int \<Rightarrow> os \<times> io_error option" where
  "preallocate w h n = file_Truncate w h (nat n)"

section \<open>Segments\<close>

definition WAL_createSegment ::
  "(walrec \<Rightarrow> bytes option) \<Rightarrow> wal \<Rightarrow> os \<Rightarrow> nat \<Rightarrow> u32 \<Rightarrow> wal \<times> os \<times> wal_error option" where
  "WAL_createSegment m w s0 seq prevCrc =
     (case OpenTrunc s0 (WAL_segmentPath seq) of
        (s1, Inl e) \<Rightarrow> (w, s1, Some (ErrIOwrap e))
      | (s1, Inr f) \<Rightarrow>
          let (s2, perr) =
                (if PreallocSize (w_opts w) > 0
                 then case preallocate s1 f (PreallocSize (w_opts w)) of
                        (sa, Some e) \<Rightarrow> (sa, Some e)
                      | (sa, None) \<Rightarrow> os_call sa
                 else (s1, None))
          in case perr of
               Some e \<Rightarrow> (w, s2, Some (ErrIOwrap e))
             | None \<Rightarrow>
                 let enc = NewEncoder prevCrc 0 (BufferSize (w_opts w));
                     (enc1, (s3, f1), _, eres) =
                       Encoder_Encode m file_Write enc (s2, f)
                         \<lparr>rtype = CrcType, rcrc = prevCrc, rdata = []\<rparr>
                 in case eres of
                      Inl e \<Rightarrow> (w, s3, Some e)
                    | Inr _ \<Rightarrow>
                        let (enc2, (s4, f2), ferr) = Encoder_Flush file_Write enc1 (s3, f1)
                        in case ferr of
                             Some e \<Rightarrow> (w, s4, Some (ErrIOwrap e))
                           | None \<Rightarrow>
                               let (s5, serr) = file_Sync s4 f2
                               in case serr of
                                    Some e \<Rightarrow> (w, s5, Some (ErrIOwrap e))
                                  | None \<Rightarrow>
                                      (w\<lparr>w_file := f2, w_enc := enc2, w_seq := seq,
                                         w_offset := Encoder_Offset enc2\<rparr>, s5, None))"

text \<open>The chunk loop of \<^verbatim>\<open>zeroToEnd\<close>.\<close>

function zero_loop :: "os \<times> fd \<Rightarrow> nat \<Rightarrow> (os \<times> fd) \<times> io_error option" where
  "zero_loop s remaining =
     (if remaining = 0 then (s, None)
      else let n = min 4096 remaining
           in case file_Write s (replicate n 0) of
                (s', _, Some e) \<Rightarrow> (s', Some e)
              | (s', _, None) \<Rightarrow> zero_loop s' (remaining - n))"
  by pat_completeness auto
termination
  by (relation "measure (\<lambda>(_, r). r)") auto

declare zero_loop.simps [simp del]

text \<open>The three seeks of \<^verbatim>\<open>zeroToEnd\<close> come before the writes; the position is the current one.\<close>

definition zeroToEnd :: "os \<Rightarrow> fd \<Rightarrow> os \<times> fd \<times> io_error option" where
  "zeroToEnd s f =
     (case os_call s of
        (s1, Some e) \<Rightarrow> (s1, f, Some e)
      | (s1, None) \<Rightarrow>
          (case os_call s1 of
             (s2, Some e) \<Rightarrow> (s2, f, Some e)
           | (s2, None) \<Rightarrow>
               let end = length (fdata (file_of s2 (fd_name f)))
               in if fd_pos f \<ge> end then (s2, f\<lparr>fd_pos := end\<rparr>, None)
                  else case os_call s2 of
                         (s3, Some e) \<Rightarrow> (s3, f, Some e)
                       | (s3, None) \<Rightarrow>
                           let ((s4, f4), err) = zero_loop (s3, f) (end - fd_pos f)
                           in (s4, f4, err)))"

definition WAL_openSegment ::
  "(bytes \<Rightarrow> walrec option) \<Rightarrow> wal \<Rightarrow> os \<Rightarrow> segmentInfo \<Rightarrow> wal \<times> os \<times> wal_error option" where
  "WAL_openSegment u w s0 seg =
     (case os_call s0 of
        (s1, Some e) \<Rightarrow> (w, s1, Some (ErrIOwrap e))
      | (s1, None) \<Rightarrow>
          let (d, _, derr) = decode_all u (NewDecoder (fdata (file_of s1 (snd seg))))
          in if derr \<noteq> ErrIOwrap EOF \<and> derr \<noteq> ErrIOwrap ErrUnexpectedEOF
             then (w, s1, Some derr)
             else
               let validOffset = LastOffset d
               in case os_call s1 of
                    (s2, Some e) \<Rightarrow> (w, s2, Some (ErrIOwrap e))
                  | (s2, None) \<Rightarrow>
                      (case zeroToEnd s2 \<lparr>fd_name = snd seg, fd_pos = validOffset, fd_open = True\<rparr> of
                         (s3, _, Some e) \<Rightarrow> (w, s3, Some (ErrIOwrap e))
                       | (s3, f, None) \<Rightarrow>
                           (case os_call s3 of
                              (s4, Some e) \<Rightarrow> (w, s4, Some (ErrIOwrap e))
                            | (s4, None) \<Rightarrow>
                                (w\<lparr>w_file := f\<lparr>fd_pos := validOffset\<rparr>,
                                   w_enc := NewEncoder (LastCRC d) (validOffset mod walPageBytes)
                                              (BufferSize (w_opts w)),
                                   w_seq := fst seg,
                                   w_offset := validOffset\<rparr>, s4, None))))"

definition WAL_syncLocked :: "wal \<Rightarrow> os \<Rightarrow> wal \<times> os \<times> wal_error option" where
  "WAL_syncLocked w s =
     (let (e', (s1, f1), ferr) = Encoder_Flush file_Write (w_enc w) (s, w_file w);
          w1 = w\<lparr>w_enc := e', w_file := f1\<rparr>
      in case ferr of
           Some x \<Rightarrow> (w1, s1, Some (ErrIOwrap x))
         | None \<Rightarrow> let (s2, serr) = file_Sync s1 f1 in (w1, s2, map_option ErrIOwrap serr))"

text \<open>\<^verbatim>\<open>file.Close\<close>: the descriptor is closed even when the call reports an error.\<close>

definition WAL_closeFile :: "wal \<Rightarrow> os \<Rightarrow> wal \<times> os \<times> io_error option" where
  "WAL_closeFile w s =
     (if \<not> fd_open (w_file w) then (w, s, Some ErrFileClosed)
      else let (s1, err) = os_call s in (w\<lparr>w_file := (w_file w)\<lparr>fd_open := False\<rparr>\<rparr>, s1, err))"

definition WAL_rotate :: "(walrec \<Rightarrow> bytes option) \<Rightarrow> wal \<Rightarrow> os \<Rightarrow> wal \<times> os \<times> wal_error option" where
  "WAL_rotate m w s =
     (case WAL_syncLocked w s of
        (w1, s1, Some e) \<Rightarrow> (w1, s1, Some e)
      | (w1, s1, None) \<Rightarrow>
          let prevCrc = Encoder_CRC (w_enc w1)
          in case WAL_closeFile w1 s1 of
               (w2, s2, Some e) \<Rightarrow> (w2, s2, Some (ErrIOwrap e))
             | (w2, s2, None) \<Rightarrow> WAL_createSegment m w2 s2 ((w_seq w2 + 1) mod 2 ^ 64) prevCrc)"

definition WAL_readSegment ::
  "(bytes \<Rightarrow> walrec option) \<Rightarrow> os \<Rightarrow> string \<Rightarrow> os \<times> (wal_error + bytes list)" where
  "WAL_readSegment u s path =
     (case os_call s of
        (s1, Some e) \<Rightarrow> (s1, Inl (ErrIOwrap e))
      | (s1, None) \<Rightarrow>
          let (_, rs, derr) = decode_all u (NewDecoder (fdata (file_of s1 path)))
          in if derr \<noteq> ErrIOwrap EOF \<and> derr \<noteq> ErrIOwrap ErrUnexpectedEOF
             then (s1, Inl derr)
             else (s1, Inr (map rdata (filter (\<lambda>r. rtype r = DataType) rs))))"

section \<open>Exported methods\<close>

definition WAL_Open ::
  "(walrec \<Rightarrow> bytes option) \<Rightarrow> (bytes \<Rightarrow> walrec option) \<Rightarrow> os \<Rightarrow> options \<Rightarrow> os \<times> (wal_error + wal)" where
  "WAL_Open m u s0 opts =
     (case os_call s0 of
        (s1, Some e) \<Rightarrow> (s1, Inl (ErrIOwrap e))
      | (s1, None) \<Rightarrow>
          let w = \<lparr>w_opts = opts, w_file = \<lparr>fd_name = [], fd_pos = 0, fd_open = False\<rparr>,
                   w_enc = NewEncoder 0 0 0, w_seq = 0, w_offset = 0, w_closed = False\<rparr>
          in case WAL_listSegments s1 of
               (s2, Inl e) \<Rightarrow> (s2, Inl e)
             | (s2, Inr segments) \<Rightarrow>
                 (case (if segments = [] then WAL_createSegment m w s2 0 0
                        else WAL_openSegment u w s2 (last segments)) of
                    (_, s3, Some e) \<Rightarrow> (s3, Inl e)
                  | (w3, s3, None) \<Rightarrow> (s3, Inr w3)))"

definition WAL_maybeRotate :: "(walrec \<Rightarrow> bytes option) \<Rightarrow> wal \<Rightarrow> os \<Rightarrow> wal \<times> os \<times> wal_error option" where
  "WAL_maybeRotate m w s =
     (if SegmentSize (w_opts w) > 0 \<and> int (w_offset w) \<ge> SegmentSize (w_opts w)
      then WAL_rotate m w s else (w, s, None))"

definition WAL_Append ::
  "(walrec \<Rightarrow> bytes option) \<Rightarrow> wal \<Rightarrow> os \<Rightarrow> bytes \<Rightarrow> wal \<times> os \<times> (wal_error + nat)" where
  "WAL_Append m w s data =
     (if w_closed w then (w, s, Inl ErrClosed)
      else case WAL_maybeRotate m w s of
             (w1, s1, Some e) \<Rightarrow> (w1, s1, Inl e)
           | (w1, s1, None) \<Rightarrow>
               let (enc, (s2, f2), r, res) =
                     Encoder_Encode m file_Write (w_enc w1) (s1, w_file w1)
                       \<lparr>rtype = DataType, rcrc = 0, rdata = data\<rparr>;
                   w2 = w1\<lparr>w_enc := enc, w_file := f2\<rparr>
               in case res of
                    Inl e \<Rightarrow> (w2, s2, Inl e)
                  | Inr off \<Rightarrow>
                      if rcrc r = 0 \<and> length data > 0 then (w2, s2, Inl ErrNoCRC)
                      else (w2\<lparr>w_offset := Encoder_Offset enc\<rparr>, s2, Inr off))"

text \<open>\<^verbatim>\<open>Sync\<close> with no concurrent caller: one round of the group commit's \<^verbatim>\<open>syncFunc\<close>.\<close>

definition WAL_Sync :: "wal \<Rightarrow> os \<Rightarrow> wal \<times> os \<times> wal_error option" where
  "WAL_Sync w s = (if w_closed w then (w, s, Some ErrClosed) else WAL_syncLocked w s)"

record snapshot =
  snap_offset :: u64
  snap_metadata :: bytes

definition WAL_SaveSnapshot ::
  "(walrec \<Rightarrow> bytes option) \<Rightarrow> (snapshot \<Rightarrow> bytes option) \<Rightarrow> wal \<Rightarrow> os \<Rightarrow> snapshot option
   \<Rightarrow> wal \<times> os \<times> wal_error option" where
  "WAL_SaveSnapshot m msnap w s snap =
     (case snap of
        None \<Rightarrow> (w, s, Some ErrNilSnapshot)
      | Some sn \<Rightarrow>
          if w_closed w then (w, s, Some ErrClosed)
          else case WAL_maybeRotate m w s of
                 (w1, s1, Some e) \<Rightarrow> (w1, s1, Some e)
               | (w1, s1, None) \<Rightarrow>
                   (case msnap sn of
                      None \<Rightarrow> (w1, s1, Some ErrMarshal)
                    | Some snapData \<Rightarrow>
                        let (enc, (s2, f2), _, res) =
                              Encoder_Encode m file_Write (w_enc w1) (s1, w_file w1)
                                \<lparr>rtype = SnapshotType, rcrc = 0, rdata = snapData\<rparr>;
                            w2 = w1\<lparr>w_enc := enc, w_file := f2\<rparr>
                        in case res of
                             Inl e \<Rightarrow> (w2, s2, Some e)
                           | Inr _ \<Rightarrow> WAL_Sync (w2\<lparr>w_offset := Encoder_Offset enc\<rparr>) s2))"

fun read_segments ::
  "(bytes \<Rightarrow> walrec option) \<Rightarrow> os \<Rightarrow> segmentInfo list \<Rightarrow> os \<times> (wal_error + bytes list)" where
  "read_segments u s [] = (s, Inr [])"
| "read_segments u s (seg # segs) =
     (case WAL_readSegment u s (snd seg) of
        (s1, Inl e) \<Rightarrow> (s1, Inl e)
      | (s1, Inr ds) \<Rightarrow>
          (case read_segments u s1 segs of
             (s2, Inl e) \<Rightarrow> (s2, Inl e)
           | (s2, Inr es) \<Rightarrow> (s2, Inr (ds @ es))))"

definition WAL_ReadAll ::
  "(bytes \<Rightarrow> walrec option) \<Rightarrow> wal \<Rightarrow> os \<Rightarrow> wal \<times> os \<times> (wal_error + bytes list)" where
  "WAL_ReadAll u w s =
     (if w_closed w then (w, s, Inl ErrClosed)
      else
        let (enc, (s1, f1), ferr) = Encoder_Flush file_Write (w_enc w) (s, w_file w);
            w1 = w\<lparr>w_enc := enc, w_file := f1\<rparr>
        in case ferr of
             Some e \<Rightarrow> (w1, s1, Inl (ErrIOwrap e))
           | None \<Rightarrow>
               (case WAL_listSegments s1 of
                  (s2, Inl e) \<Rightarrow> (w1, s2, Inl e)
                | (s2, Inr segs) \<Rightarrow> let (s3, res) = read_segments u s2 segs in (w1, s3, res)))"

definition WAL_Close :: "wal \<Rightarrow> os \<Rightarrow> wal \<times> os \<times> wal_error option" where
  "WAL_Close w s =
     (if w_closed w then (w, s, None)
      else
        let w0 = w\<lparr>w_closed := True\<rparr>;
            (enc, (s1, f1), ferr) = Encoder_Flush file_Write (w_enc w0) (s, w_file w0);
            w1 = w0\<lparr>w_enc := enc, w_file := f1\<rparr>;
            w1c = w1\<lparr>w_file := f1\<lparr>fd_open := False\<rparr>\<rparr>
        in case ferr of
             Some e \<Rightarrow> (w1c, s1, Some (ErrIOwrap e))
           | None \<Rightarrow>
               let (s2, serr) = file_Sync s1 f1
               in case serr of
                    Some e \<Rightarrow> (w1c, s2, Some (ErrIOwrap e))
                  | None \<Rightarrow>
                      let (w3, s3, cerr) = WAL_closeFile w1 s2
                      in (w3, s3, map_option ErrIOwrap cerr))"

end
