(* ===== verification/File_Frame.thy ===== *)
theory File_Frame
  imports Encoder
begin

text \<open>
  What a write to a file leaves alone: the other files, the directory, what is durable. The frame is
  an instance of the contract for writers, so that everything built on a writer has it.
\<close>

section \<open>Directory entries\<close>

lemma dir_names_alist_put:
  assumes "map_of xs k = Some v0" and "fisdir v = fisdir v0"
  shows "map (\<lambda>(n, f). (n, fisdir f)) (alist_put k v xs) = map (\<lambda>(n, f). (n, fisdir f)) xs"
  using assms by (induction k v xs rule: alist_put.induct) (auto split: if_splits)

lemma dir_names_put_file:
  "has_file s n \<Longrightarrow> fisdir f = fisdir (file_of s n) \<Longrightarrow> dir_names (put_file n f s) = dir_names s"
  by (auto simp: has_file_map_of dir_names_def put_file_def file_of_def dir_names_alist_put)

lemma alist_put_new: "map_of xs k = None \<Longrightarrow> alist_put k v xs = xs @ [(k, v)]"
  by (induction k v xs rule: alist_put.induct) (auto split: if_splits)

lemma dir_names_put_new:
  "\<not> has_file s n \<Longrightarrow> dir_names (put_file n f s) = dir_names s @ [(n, fisdir f)]"
  by (simp add: has_file_map_of dir_names_def put_file_def alist_put_new)

lemma os_call_same:
  assumes "os_call s = (s', err)"
  shows "file_of s' = file_of s" and "dir_names s' = dir_names s"
  using assms by (auto simp: os_call_def Let_def file_of_next_fault dir_names_next_fault split: prod.splits)

section \<open>The frame of a file write\<close>

definition tail_zero :: "os \<times> fd \<Rightarrow> bool" where
  "tail_zero = (\<lambda>(s, h). fd_pos h \<le> length (fdata (file_of s (fd_name h))) \<and>
     (\<forall>b\<in>set (drop (fd_pos h) (fdata (file_of s (fd_name h)))). b = 0))"

definition no_tail :: "os \<times> fd \<Rightarrow> bool" where
  "no_tail = (\<lambda>(s, h). fd_pos h = length (fdata (file_of s (fd_name h))))"

definition same_dir :: "string \<Rightarrow> os \<Rightarrow> os \<Rightarrow> bool" where
  "same_dir nm s s' \<longleftrightarrow>
     (\<forall>n. n \<noteq> nm \<longrightarrow> file_of s' n = file_of s n) \<and>
     fisdir (file_of s' nm) = fisdir (file_of s nm) \<and>
     (has_file s nm \<longrightarrow> dir_names s' = dir_names s)"

definition file_frame :: "os \<times> fd \<Rightarrow> os \<times> fd \<Rightarrow> bool" where
  "file_frame = (\<lambda>(s, h) (s', h').
     fd_name h' = fd_name h \<and> fd_open h' = fd_open h \<and> fd_pos h \<le> fd_pos h' \<and> same_dir (fd_name h) s s' \<and>
     fsynced (file_of s' (fd_name h)) = fsynced (file_of s (fd_name h)) \<and>
     (tail_zero (s, h) \<longrightarrow> tail_zero (s', h')) \<and> (no_tail (s, h) \<longrightarrow> no_tail (s', h')))"

lemma same_dir_refl [simp]: "same_dir nm s s"
  by (simp add: same_dir_def)

lemma same_dir_trans: "same_dir nm s t \<Longrightarrow> same_dir nm t v \<Longrightarrow> same_dir nm s v"
  by (auto simp: same_dir_def has_file_def)

lemma same_dir_put: "fisdir f = fisdir (file_of s nm) \<Longrightarrow> same_dir nm s (put_file nm f s)"
  by (auto simp: same_dir_def dir_names_put_file)

lemma same_dir_call: "file_of s' = file_of s \<Longrightarrow> dir_names s' = dir_names s \<Longrightarrow> same_dir nm s s'"
  by (simp add: same_dir_def)

lemma tail_zero_content:
  assumes "tail_zero (s, h)"
  shows "\<exists>z. fdata (file_of s (fd_name h)) = file_out (s, h) @ replicate z 0"
proof -
  let ?d = "fdata (file_of s (fd_name h))"
  have le: "fd_pos h \<le> length ?d" and z: "\<forall>b\<in>set (drop (fd_pos h) ?d). b = 0"
    using assms by (auto simp: tail_zero_def)
  have "drop (fd_pos h) ?d = replicate (length (drop (fd_pos h) ?d)) 0"
    using z by (intro replicate_length_same [symmetric]) simp
  moreover have "file_out (s, h) = take (fd_pos h) ?d"
    using le by (simp add: file_out_def zero_extend_def)
  ultimately show ?thesis by (metis append_take_drop_id)
qed

lemma tail_zero_overwrite:
  assumes "n \<le> length bs" and "\<forall>b\<in>set (drop n bs). b = 0"
  shows "n + length p \<le> length (overwrite n p bs)"
    and "\<forall>b\<in>set (drop (n + length p) (overwrite n p bs)). b = 0"
proof -
  have e: "overwrite n p bs = (take n bs @ p) @ drop (n + length p) bs"
    using assms(1) by (simp add: overwrite_def zero_extend_def)
  have l: "length (take n bs @ p) = n + length p" using assms(1) by simp
  show "n + length p \<le> length (overwrite n p bs)" unfolding e using l by simp
  have "drop (n + length p) (overwrite n p bs) = drop (length p) (drop n bs)"
    unfolding e using l by (simp add: add.commute)
  then show "\<forall>b\<in>set (drop (n + length p) (overwrite n p bs)). b = 0"
    using assms(2) by (metis in_set_dropD)
qed

lemma file_Write_frame:
  assumes wr: "file_Write (s, h) p = ((s', h'), n, err)"
  shows "file_frame (s, h) (s', h')"
proof (cases "fd_open h")
  case False
  with file_Write_cases [OF wr] show ?thesis by (simp add: file_frame_def)
next
  case True
  note c = file_Write_cases [OF wr]
  obtain flt s1 where nf: "next_fault s = (flt, s1)" by fastforce
  note s1 = file_of_next_fault [OF nf] dir_names_next_fault [OF nf]
  have "\<exists>f. s' = put_file (fd_name h) f s1 \<and> fisdir f = fisdir (file_of s1 (fd_name h))"
    using wr True by (auto simp: file_Write_def nf Let_def)
  then have "same_dir (fd_name h) s s'"
    using same_dir_trans [OF same_dir_call [OF s1] same_dir_put] by blast
  moreover have "tail_zero (s', h')" if "tail_zero (s, h)"
    using that c(1,3) c(4) [OF True] tail_zero_overwrite [of "fd_pos h" "fdata (file_of s (fd_name h))" "take n p"]
    by (simp add: tail_zero_def)
  moreover have "no_tail (s', h')" if "no_tail (s, h)"
    using that c(1,3) c(4) [OF True] by (simp add: no_tail_def overwrite_def zero_extend_def)
  ultimately show ?thesis using c(3,6) by (simp add: file_frame_def)
qed

interpretation ff: io_writer_frame file_Write file_out file_frame
proof unfold_locales
  show "file_frame s s" for s by (cases s) (simp add: file_frame_def)
  show "file_frame s v" if "file_frame s t" "file_frame t v" for s t v
    using that by (cases s, cases t, cases v) (auto simp: file_frame_def intro: same_dir_trans)
  show "file_frame s s'" if "file_Write s p = (s', n, err)" for s p s' n err
    using that by (cases s, cases s') (auto intro: file_Write_frame)
qed

interpretation fl: io_writer_live file_Write file_out "\<lambda>(s, h). faults s = [] \<and> fd_open h"
proof unfold_locales
  fix s p s' n err
  assume "case s of (s, h) \<Rightarrow> faults s = [] \<and> fd_open h" and "file_Write s p = (s', n, err)"
  then show "(case s' of (s, h) \<Rightarrow> faults s = [] \<and> fd_open h) \<and> err = None"
    by (auto simp: file_Write_def next_fault_def put_file_def Let_def split: prod.splits)
qed

lemma file_Sync_frame:
  assumes "file_Sync s h = (s', err)"
  shows "same_dir (fd_name h) s s'"
    and "fdata (file_of s' n) = fdata (file_of s n)"
    and "err = None \<Longrightarrow> fd_open h \<and> fsynced (file_of s' (fd_name h)) = fdata (file_of s (fd_name h))"
proof -
  obtain flt s1 where nf: "next_fault s = (flt, s1)" by fastforce
  note s1 = file_of_next_fault [OF nf] dir_names_next_fault [OF nf]
  have c1: "same_dir (fd_name h) s s1" by (rule same_dir_call [OF s1])
  show "same_dir (fd_name h) s s'"
    using assms c1 same_dir_trans [OF c1 same_dir_put]
    by (auto simp: file_Sync_def nf Let_def split: if_splits option.splits)
  show "fdata (file_of s' n) = fdata (file_of s n)"
    "err = None \<Longrightarrow> fd_open h \<and> fsynced (file_of s' (fd_name h)) = fdata (file_of s (fd_name h))"
    using assms s1(1) by (auto simp: file_Sync_def nf Let_def split: if_splits option.splits)
qed

lemma no_tail_out: "no_tail (s, h) \<Longrightarrow> fdata (file_of s (fd_name h)) = file_out (s, h)"
  by (simp add: no_tail_def file_out_def zero_extend_def)

end
