(* ===== verification/Wal_Log.thy ===== *)
theory Wal_Log
  imports Wal File_Frame
begin

text \<open>
  Correctness of the write-ahead log. \<open>wal_repr\<close> relates the state of a WAL and its directory
  to the list of its segments with their records: every segment file is the frames of its
  records followed by zeros, the last segment continues in the encoder's buffer, and the CRC
  chain runs through. The operations of \<^verbatim>\<open>Wal\<close> keep it and read back exactly the
  appended payloads, across rotation, close, reopen and a crash.
\<close>

section \<open>Segment names\<close>

lemma digit_val_char: "n < 10 \<Longrightarrow> digit_val (char_of (48 + n)) = Some n"
  by (simp add: digit_val_def Let_def)

lemma parse_digits_append:
  "parse_digits acc (xs @ ys) =
     (case parse_digits acc xs of None \<Rightarrow> None | Some n \<Rightarrow> parse_digits n ys)"
  by (induction acc xs rule: parse_digits.induct) (auto split: option.split)

lemma parse_dec_digits: "\<exists>k. \<forall>acc. parse_digits acc (dec_digits n) = Some (acc * 10 ^ k + n)"
proof (induction n rule: dec_digits.induct)
  case (1 n)
  show ?case
  proof (cases "n < 10")
    case True
    have "parse_digits acc (dec_digits n) = Some (acc * 10 ^ 1 + n)" for acc
      by (subst dec_digits.simps) (simp add: True digit_val_char)
    then show ?thesis by blast
  next
    case False
    from "1.IH" [OF False] obtain k
      where k: "\<And>acc. parse_digits acc (dec_digits (n div 10)) = Some (acc * 10 ^ k + n div 10)"
      by blast
    have "parse_digits acc (dec_digits n) = Some (acc * 10 ^ Suc k + n)" for acc
      by (subst dec_digits.simps)
        (simp add: False parse_digits_append k digit_val_char algebra_simps)
    then show ?thesis by blast
  qed
qed

lemma parse_zeros: "parse_digits 0 (replicate k CHR ''0'' @ xs) = parse_digits 0 xs"
  by (induction k) (simp_all add: digit_val_def)

lemma dec_digits_nonempty: "dec_digits n \<noteq> []"
  by (subst dec_digits.simps) simp

lemma ParseUint_padded: "n < 2 ^ 64 \<Longrightarrow> ParseUint (pad_left k CHR ''0'' (dec_digits n)) = Some n"
  using parse_dec_digits [of n]
  by (auto simp: ParseUint_def pad_left_def parse_zeros dec_digits_nonempty)

lemma segment_of_path:
  assumes "seq < 2 ^ 64" and "\<not> fisdir f"
  shows "segment_of_entry (WAL_segmentPath seq, f) = Some (seq, WAL_segmentPath seq)"
proof -
  let ?d = "pad_left 16 CHR ''0'' (dec_digits seq)"
  have p: "HasPrefix (WAL_segmentPath seq) walFilePrefix"
    and q: "HasSuffix (WAL_segmentPath seq) walFileSuffix"
    by (simp_all add: HasPrefix_def HasSuffix_def WAL_segmentPath_def)
  have t: "TrimPrefix (WAL_segmentPath seq) walFilePrefix = ?d @ walFileSuffix"
    using p by (simp add: TrimPrefix_def WAL_segmentPath_def)
  have "HasSuffix (?d @ walFileSuffix) walFileSuffix" by (simp add: HasSuffix_def)
  then have "TrimSuffix (?d @ walFileSuffix) walFileSuffix = ?d" by (simp add: TrimSuffix_def)
  with p q t assms show ?thesis by (simp add: segment_of_entry_def ParseUint_padded)
qed

lemma segmentPath_inj:
  assumes "a < 2 ^ 64" and "b < 2 ^ 64" and "WAL_segmentPath a = WAL_segmentPath b"
  shows "a = b"
proof -
  let ?f = "\<lparr>fdata = [], fsynced = [], fisdir = False\<rparr>"
  have "segment_of_entry (WAL_segmentPath a, ?f) = Some (a, WAL_segmentPath a)"
    "segment_of_entry (WAL_segmentPath b, ?f) = Some (b, WAL_segmentPath b)"
    using assms(1,2) by (auto intro!: segment_of_path)
  then show ?thesis by (metis assms(3) option.inject prod.inject)
qed

section \<open>The directory\<close>

definition seg_of_name :: "string \<times> bool \<Rightarrow> segmentInfo option" where
  "seg_of_name = (\<lambda>(n, b). segment_of_entry (n, \<lparr>fdata = [], fsynced = [], fisdir = b\<rparr>))"

lemma segment_of_entry_name: "segment_of_entry (n, f) = seg_of_name (n, fisdir f)"
  by (simp add: seg_of_name_def segment_of_entry_def)

lemma dir_segments_names: "dir_segments s = sort_key fst (List.map_filter seg_of_name (dir_names s))"
proof -
  have "List.map_filter segment_of_entry xs =
      List.map_filter seg_of_name (map (\<lambda>(n, f). (n, fisdir f)) xs)" for xs
    by (induction xs) (auto simp: map_filter_simps segment_of_entry_name split: option.split)
  then show ?thesis by (simp add: dir_segments_def dir_names_def)
qed

lemma insort_key_last: "f a \<le> f x \<Longrightarrow> insort_key f a (ys @ [x]) = insort_key f a ys @ [x]"
  by (induction ys) auto

lemma sort_key_last: "\<forall>y\<in>set xs. f y \<le> f x \<Longrightarrow> sort_key f (xs @ [x]) = sort_key f xs @ [x]"
  by (induction xs) (auto simp: insort_key_last)

text \<open>A new segment with a number above all others is listed last.\<close>

lemma dir_segments_new:
  assumes "\<not> has_file s (WAL_segmentPath seq)" and "seq < 2 ^ 64" and "\<not> fisdir f"
    and "\<forall>x\<in>set (dir_segments s). fst x < seq"
  shows "dir_segments (put_file (WAL_segmentPath seq) f s) =
    dir_segments s @ [(seq, WAL_segmentPath seq)]"
proof -
  let ?n = "WAL_segmentPath seq"
  have "seg_of_name (?n, fisdir f) = Some (seq, ?n)"
    using segment_of_path [OF assms(2,3)] by (simp add: segment_of_entry_name)
  then have mf: "List.map_filter seg_of_name (dir_names s @ [(?n, fisdir f)]) =
      List.map_filter seg_of_name (dir_names s) @ [(seq, ?n)]"
    by (simp add: map_filter_def)
  have "\<forall>y\<in>set (List.map_filter seg_of_name (dir_names s)). fst y \<le> fst (seq, ?n)"
    using assms(4) by (auto simp: dir_segments_names intro: less_imp_le)
  then show ?thesis
    by (simp add: dir_segments_names dir_names_put_new [OF assms(1)] mf sort_key_last)
qed

lemma dir_segments_has_file:
  assumes "(q, n) \<in> set (dir_segments s)" shows "has_file s n"
  using assms
  by (force simp: dir_segments_names has_file_def map_filter_def seg_of_name_def segment_of_entry_def
      split: if_splits)

lemma has_file_listed:
  assumes "has_file s (WAL_segmentPath q)" and "q < 2 ^ 64" and "\<not> fisdir (file_of s (WAL_segmentPath q))"
  shows "(q, WAL_segmentPath q) \<in> set (dir_segments s)"
proof -
  from assms(1,3) obtain f where "map_of (files s) (WAL_segmentPath q) = Some f" "\<not> fisdir f"
    by (auto simp: has_file_map_of file_of_def)
  then have "(WAL_segmentPath q, f) \<in> set (files s)" "\<not> fisdir f"
    by (auto dest: map_of_SomeD)
  then have "(WAL_segmentPath q, fisdir f) \<in> set (dir_names s)" "\<not> fisdir f"
    by (force simp: dir_names_def)+
  moreover from this have "seg_of_name (WAL_segmentPath q, fisdir f) = Some (q, WAL_segmentPath q)"
    using segment_of_path [OF assms(2)] by (metis segment_of_entry_name)
  ultimately show ?thesis
    by (force simp: dir_segments_names map_filter_def)
qed

section \<open>Representation\<close>

abbreviation seg_path :: "nat \<Rightarrow> string" where
  "seg_path \<equiv> WAL_segmentPath"

definition good_log :: "(walrec \<Rightarrow> bytes option) \<Rightarrow> walrec list \<Rightarrow> bool" where
  "good_log m rs \<longleftrightarrow> (\<forall>r\<in>set rs. rec_ok m r) \<and> chain_ok 0 rs"

definition seg_ok :: "(walrec \<Rightarrow> bytes option) \<Rightarrow> os \<Rightarrow> nat \<times> walrec list \<Rightarrow> bool" where
  "seg_ok m s = (\<lambda>(q, rs). q < 2 ^ 64 \<and> good_log m rs \<and> \<not> fisdir (file_of s (seg_path q)) \<and>
     (\<exists>z. fdata (file_of s (seg_path q)) = frames m rs @ replicate z 0))"

definition cur_ok :: "(walrec \<Rightarrow> bytes option) \<Rightarrow> wal \<Rightarrow> os \<Rightarrow> walrec list \<Rightarrow> bool" where
  "cur_ok m w s rs \<longleftrightarrow>
     w_seq w < 2 ^ 64 \<and> good_log m rs \<and>
     fd_name (w_file w) = seg_path (w_seq w) \<and> fd_open (w_file w) \<and>
     has_file s (seg_path (w_seq w)) \<and> \<not> fisdir (file_of s (seg_path (w_seq w))) \<and>
     enc_inv (w_enc w) \<and> Encoder_CRC (w_enc w) = chain_end 0 rs \<and>
     file_out (s, w_file w) @ enc_pending (w_enc w) = frames m rs \<and> tail_zero (s, w_file w)"

definition wal_repr ::
  "(walrec \<Rightarrow> bytes option) \<Rightarrow> wal \<Rightarrow> os \<Rightarrow> (nat \<times> walrec list) list \<Rightarrow> walrec list \<Rightarrow> bool" where
  "wal_repr m w s olds cur \<longleftrightarrow>
     \<not> w_closed w \<and> (\<forall>x\<in>set olds. seg_ok m s x \<and> fst x < w_seq w) \<and> cur_ok m w s cur \<and>
     dir_segments s = map (\<lambda>q. (q, seg_path q)) (map fst olds @ [w_seq w])"

definition payloads :: "walrec list \<Rightarrow> bytes list" where
  "payloads rs = map rdata (filter (\<lambda>r. rtype r = DataType) rs)"

definition log_of :: "(nat \<times> walrec list) list \<Rightarrow> walrec list \<Rightarrow> bytes list" where
  "log_of olds cur = concat (map (payloads \<circ> snd) olds) @ payloads cur"

lemma payloads_simps [simp]:
  "payloads [] = []" "payloads (rs @ qs) = payloads rs @ payloads qs"
  "payloads [r] = (if rtype r = DataType then [rdata r] else [])"
  by (simp_all add: payloads_def)

lemma log_of_simps [simp]:
  "log_of olds (rs @ qs) = log_of olds rs @ payloads qs"
  "log_of (olds @ [(q, rs)]) cur = log_of olds rs @ payloads cur"
  by (simp_all add: log_of_def)

lemma good_log_snoc:
  "good_log m (rs @ [r]) \<longleftrightarrow> good_log m rs \<and> rec_ok m r \<and> chain_step (chain_end 0 rs) r"
  by (auto simp: good_log_def chain_ok_append)

lemma wal_repr_offset [simp]: "wal_repr m (w\<lparr>w_offset := x\<rparr>) s olds cur = wal_repr m w s olds cur"
  by (simp add: wal_repr_def cur_ok_def)

lemma seg_ok_same_dir:
  assumes "same_dir (seg_path p) s s'" and "fst x \<noteq> p" and "p < 2 ^ 64" and "seg_ok m s x"
  shows "seg_ok m s' x"
proof -
  obtain q rs where x: "x = (q, rs)" by fastforce
  with assms(4) have "q < 2 ^ 64" by (simp add: seg_ok_def)
  with assms(2,3) x have "seg_path q \<noteq> seg_path p" using segmentPath_inj by auto
  with assms(1) have "file_of s' (seg_path q) = file_of s (seg_path q)" by (simp add: same_dir_def)
  with assms(4) show ?thesis by (simp add: x seg_ok_def)
qed

text \<open>A step on the current segment that stays within its frame.\<close>

lemma wal_repr_step:
  assumes "wal_repr m w s olds cur" and "same_dir (seg_path (w_seq w)) s s'"
    and "w_seq w' = w_seq w" and "\<not> w_closed w'" and "cur_ok m w' s' cur'"
  shows "wal_repr m w' s' olds cur'"
proof -
  have q: "w_seq w < 2 ^ 64" using assms(1) by (simp add: wal_repr_def cur_ok_def)
  have "dir_names s' = dir_names s"
    using assms(1,2) by (simp add: wal_repr_def cur_ok_def same_dir_def)
  then have "dir_segments s' = dir_segments s" by (simp add: dir_segments_names)
  moreover have "seg_ok m s' x" if "x \<in> set olds" for x
    by (rule seg_ok_same_dir [OF assms(2) _ q]) (use assms(1) that in \<open>auto simp: wal_repr_def\<close>)
  ultimately show ?thesis using assms by (simp add: wal_repr_def)
qed

lemma encode_step:
  assumes rep: "wal_repr m w s olds cur"
    and enc: "Encoder_Encode m file_Write (w_enc w) (s, w_file w) r = (e', (s', f'), r', Inr off)"
    and st: "storable m (rtype r) (rdata r)"
  shows "wal_repr m (w\<lparr>w_enc := e', w_file := f'\<rparr>) s' olds (cur @ [r'])"
    and "r' = seal (chain_end 0 cur) r"
proof -
  have cur: "cur_ok m w s cur" using rep by (simp add: wal_repr_def)
  then have inv: "enc_inv (w_enc w)" and crc: "Encoder_CRC (w_enc w) = chain_end 0 cur"
    by (auto simp: cur_ok_def)
  note k = fw.Encode_ok [OF inv enc]
  from k(1) obtain b where b: "m (seal (Encoder_CRC (w_enc w)) r) = Some b"
    and o: "file_out (s', f') @ enc_pending e' = (file_out (s, w_file w) @ enc_pending (w_enc w)) @ frame b"
    by blast
  show r': "r' = seal (chain_end 0 cur) r" using k(3) crc by simp
  have fr: "file_frame (s, w_file w) (s', f')" by (rule ff.Encode_frame [OF enc])
  then have sd: "same_dir (seg_path (w_seq w)) s s'" using cur by (simp add: file_frame_def cur_ok_def)
  have rok: "rec_ok m r'" using storable_seal [OF st] r' by simp
  have fb: "rec_frame m r' = frame b" using b r' crc by (simp add: rec_frame_def)
  have "cur_ok m (w\<lparr>w_enc := e', w_file := f'\<rparr>) s' (cur @ [r'])"
    using cur k(2,4) o fr fb rok r'
    by (auto simp: cur_ok_def file_frame_def good_log_snoc chain_end_append same_dir_def has_file_def)
  then show "wal_repr m (w\<lparr>w_enc := e', w_file := f'\<rparr>) s' olds (cur @ [r'])"
    using rep by (intro wal_repr_step [OF rep sd]) (auto simp: wal_repr_def)
qed

lemma flush_step:
  assumes rep: "wal_repr m w s olds cur"
    and fl: "Encoder_Flush file_Write (w_enc w) (s, w_file w) = (e', (s', f'), None)"
  shows "wal_repr m (w\<lparr>w_enc := e', w_file := f'\<rparr>) s' olds cur" and "enc_pending e' = []"
    and "file_out (s', f') = frames m cur"
proof -
  have cur: "cur_ok m w s cur" using rep by (simp add: wal_repr_def)
  then have inv: "enc_inv (w_enc w)" by (simp add: cur_ok_def)
  note k = fw.Encoder_Flush_ok [OF inv fl]
  have fr: "file_frame (s, w_file w) (s', f')" by (rule ff.Encoder_Flush_frame [OF fl])
  then have sd: "same_dir (seg_path (w_seq w)) s s'" using cur by (simp add: file_frame_def cur_ok_def)
  show "enc_pending e' = []" by (rule k(2))
  show "file_out (s', f') = frames m cur" using k(3) cur by (simp add: cur_ok_def)
  have "cur_ok m (w\<lparr>w_enc := e', w_file := f'\<rparr>) s' cur"
    using cur k fr by (auto simp: cur_ok_def file_frame_def same_dir_def has_file_def)
  then show "wal_repr m (w\<lparr>w_enc := e', w_file := f'\<rparr>) s' olds cur"
    using rep by (intro wal_repr_step [OF rep sd]) (auto simp: wal_repr_def)
qed

lemma file_out_cong:
  "fdata (file_of s' (fd_name h)) = fdata (file_of s (fd_name h)) \<Longrightarrow> file_out (s', h) = file_out (s, h)"
  "fdata (file_of s' (fd_name h)) = fdata (file_of s (fd_name h)) \<Longrightarrow> tail_zero (s', h) = tail_zero (s, h)"
  by (simp_all add: file_out_def tail_zero_def)

lemma sync_file_step:
  assumes rep: "wal_repr m w s olds cur" and sy: "file_Sync s (w_file w) = (s', None)"
  shows "wal_repr m w s' olds cur"
    and "fsynced (file_of s' (seg_path (w_seq w))) = fdata (file_of s' (seg_path (w_seq w)))"
proof -
  note k = file_Sync_frame [OF sy]
  have cur: "cur_ok m w s cur" using rep by (simp add: wal_repr_def)
  then have nm: "fd_name (w_file w) = seg_path (w_seq w)" by (simp add: cur_ok_def)
  have sd: "same_dir (seg_path (w_seq w)) s s'" using k(1) nm by simp
  have "cur_ok m w s' cur"
    using cur sd file_out_cong [of s' "w_file w" s] k(2)
    by (auto simp: cur_ok_def same_dir_def has_file_def)
  then show "wal_repr m w s' olds cur"
    using rep by (intro wal_repr_step [OF rep sd]) (auto simp: wal_repr_def)
  show "fsynced (file_of s' (seg_path (w_seq w))) = fdata (file_of s' (seg_path (w_seq w)))"
    using k(2,3) nm by simp
qed

lemma syncLocked_step:
  assumes rep: "wal_repr m w s olds cur" and sy: "WAL_syncLocked w s = (w', s', None)"
  shows "wal_repr m w' s' olds cur" and "enc_pending (w_enc w') = []"
    and "w_seq w' = w_seq w" and "w_opts w' = w_opts w"
    and "fsynced (file_of s' (seg_path (w_seq w))) = fdata (file_of s' (seg_path (w_seq w)))"
proof -
  obtain e1 s1 f1 err where fl: "Encoder_Flush file_Write (w_enc w) (s, w_file w) = (e1, (s1, f1), err)"
    by (metis prod_cases3 surj_pair)
  have err: "err = None" using sy by (auto simp: WAL_syncLocked_def fl Let_def split: option.splits prod.splits)
  note k = flush_step [OF rep fl [unfolded err]]
  have w': "w' = w\<lparr>w_enc := e1, w_file := f1\<rparr>" and fs: "file_Sync s1 f1 = (s', None)"
    using sy err by (auto simp: WAL_syncLocked_def fl Let_def split: prod.splits)
  note r = sync_file_step [OF k(1), of s'] fs
  show "wal_repr m w' s' olds cur"
    "fsynced (file_of s' (seg_path (w_seq w))) = fdata (file_of s' (seg_path (w_seq w)))"
    using r by (auto simp: w')
  show "enc_pending (w_enc w') = []" "w_seq w' = w_seq w" "w_opts w' = w_opts w"
    using k(2) by (simp_all add: w')
qed

section \<open>What an \<^verbatim>\<open>fsync\<close> has made durable\<close>

definition all_synced :: "os \<Rightarrow> nat \<Rightarrow> bool" where
  "all_synced s q \<longleftrightarrow> fsynced (file_of s (seg_path q)) = fdata (file_of s (seg_path q))"

text \<open>
  Without preallocation the current segment only grows at its end; what was there at the last
  \<^verbatim>\<open>fsync\<close> is the frames of its first \<open>j\<close> records, and these hold at least \<open>n\<close> payloads.
\<close>

definition durable ::
  "(walrec \<Rightarrow> bytes option) \<Rightarrow> wal \<Rightarrow> os \<Rightarrow> (nat \<times> walrec list) list \<Rightarrow> walrec list \<Rightarrow> nat \<Rightarrow> bool" where
  "durable m w s olds cur n \<longleftrightarrow>
     PreallocSize (w_opts w) \<le> 0 \<and> no_tail (s, w_file w) \<and> (\<forall>x\<in>set olds. all_synced s (fst x)) \<and>
     (\<exists>j \<le> length cur. fsynced (file_of s (seg_path (w_seq w))) = frames m (take j cur) \<and>
        length (frames m (take j cur)) \<le> fd_pos (w_file w) \<and>
        n \<le> length (log_of olds (take j cur)))"

lemma repr_old_path:
  assumes "wal_repr m w s olds cur" and "x \<in> set olds"
  shows "seg_path (fst x) \<noteq> seg_path (w_seq w)"
proof -
  have "fst x < w_seq w" "w_seq w < 2 ^ 64" using assms by (auto simp: wal_repr_def cur_ok_def)
  then show ?thesis using segmentPath_inj [of "fst x" "w_seq w"] by fastforce
qed

lemma durable_grow:
  assumes rep: "wal_repr m w s olds cur" and dur: "durable m w s olds cur n"
    and fr: "file_frame (s, w_file w) (s', f')"
  shows "durable m (w\<lparr>w_enc := e', w_file := f'\<rparr>) s' olds (cur @ rs) n"
proof -
  have nm: "fd_name (w_file w) = seg_path (w_seq w)" using rep by (simp add: wal_repr_def cur_ok_def)
  obtain j where j: "j \<le> length cur" "fsynced (file_of s (seg_path (w_seq w))) = frames m (take j cur)"
    "length (frames m (take j cur)) \<le> fd_pos (w_file w)"
    "n \<le> length (log_of olds (take j cur))" using dur by (auto simp: durable_def)
  have "all_synced s' (fst x)" if "x \<in> set olds" for x
    using dur fr nm that repr_old_path [OF rep that]
    by (simp add: durable_def all_synced_def file_frame_def same_dir_def)
  moreover have "take j (cur @ rs) = take j cur" using j(1) by simp
  ultimately show ?thesis
    using dur fr nm j by (auto simp: durable_def file_frame_def intro!: exI [of _ j])
qed

lemma durable_sync:
  assumes rep: "wal_repr m w s olds cur" and pend: "enc_pending (w_enc w) = []"
    and sync: "all_synced s (w_seq w)" "\<forall>x\<in>set olds. all_synced s (fst x)"
    and nt: "no_tail (s, w_file w)" "PreallocSize (w_opts w) \<le> 0"
  shows "durable m w s olds cur (length (log_of olds cur))"
proof -
  have "fdata (file_of s (seg_path (w_seq w))) = frames m cur"
    using rep pend no_tail_out [OF nt(1)] by (auto simp: wal_repr_def cur_ok_def)
  then show ?thesis
    using sync nt rep
    by (auto simp: durable_def all_synced_def no_tail_def wal_repr_def cur_ok_def
        intro!: exI [of _ "length cur"])
qed

lemma durable_file_cong: "file_of s' = file_of s \<Longrightarrow> durable m w s' olds cur n = durable m w s olds cur n"
  by (simp add: durable_def no_tail_def all_synced_def)

lemma durable_mono: "durable m w s olds cur n \<Longrightarrow> k \<le> n \<Longrightarrow> durable m w s olds cur k"
  by (auto simp: durable_def intro: order_trans)

lemma durable_bound: "durable m w s olds cur n \<Longrightarrow> n \<le> length (log_of olds cur)"
  by (auto simp: durable_def log_of_def payloads_def elim!: order_trans)
    (metis append_take_drop_id filter_append length_append le_add1)

lemma durable_offset [simp]: "durable m (w\<lparr>w_offset := x\<rparr>) s olds cur n = durable m w s olds cur n"
  by (simp add: durable_def)

lemma syncLocked_durable:
  assumes rep: "wal_repr m w s olds cur" and sy: "WAL_syncLocked w s = (w', s', None)"
    and dur: "durable m w s olds cur n"
  shows "durable m w' s' olds cur (length (log_of olds cur))" and "all_synced s' (w_seq w)"
proof -
  note k = syncLocked_step [OF rep sy]
  obtain e1 s1 f1 err where fl: "Encoder_Flush file_Write (w_enc w) (s, w_file w) = (e1, (s1, f1), err)"
    by (metis prod_cases3 surj_pair)
  have w': "w' = w\<lparr>w_enc := e1, w_file := f1\<rparr>" and fs: "file_Sync s1 f1 = (s', None)"
    using sy by (auto simp: WAL_syncLocked_def fl Let_def split: prod.splits option.splits)
  have d1: "durable m (w\<lparr>w_enc := e1, w_file := f1\<rparr>) s1 olds (cur @ []) n"
    by (rule durable_grow [OF rep dur ff.Encoder_Flush_frame [OF fl]])
  note fy = file_Sync_frame [OF fs]
  have nm: "fd_name f1 = seg_path (w_seq w)" using k(1) by (simp add: w' wal_repr_def cur_ok_def)
  show a: "all_synced s' (w_seq w)" using k(5) by (simp add: all_synced_def)
  have "all_synced s' (fst x)" if "x \<in> set olds" for x
    using d1 fy(1) nm that repr_old_path [OF rep that]
    by (simp add: durable_def all_synced_def same_dir_def)
  moreover have "no_tail (s', f1)" using d1 fy(2) by (simp add: durable_def no_tail_def)
  ultimately show "durable m w' s' olds cur (length (log_of olds cur))"
    using durable_sync [OF k(1,2)] a dur by (simp add: w' durable_def)
qed

section \<open>Creating a segment\<close>

definition fresh_file :: "os \<Rightarrow> os \<Rightarrow> fd \<Rightarrow> bool" where
  "fresh_file s s' f \<longleftrightarrow>
     fd_pos f = 0 \<and> fd_open f \<and> tail_zero (s', f) \<and>
     (\<forall>n. n \<noteq> fd_name f \<longrightarrow> file_of s' n = file_of s n) \<and>
     \<not> fisdir (file_of s (fd_name f)) \<and> \<not> fisdir (file_of s' (fd_name f)) \<and>
     has_file s' (fd_name f) \<and>
     dir_names s' = (if has_file s (fd_name f) then dir_names s else dir_names s @ [(fd_name f, False)])"

lemma OpenTrunc_fresh:
  assumes "OpenTrunc s n = (s', Inr f)"
  shows "fresh_file s s' f" and "fd_name f = n" and "no_tail (s', f)"
proof -
  obtain s1 err where c: "os_call s = (s1, err)" by fastforce
  note k = os_call_same [OF c]
  have hf: "has_file s1 n = has_file s n" using has_file_cong [OF k(2)] .
  have "err = None" "\<not> fisdir (file_of s n)" "f = \<lparr>fd_name = n, fd_pos = 0, fd_open = True\<rparr>"
    "s' = put_file n ((file_of s1 n)\<lparr>fdata := []\<rparr>) s1"
    using assms k(1) by (auto simp: OpenTrunc_def c split: option.splits if_splits)
  then show "fresh_file s s' f" "fd_name f = n" "no_tail (s', f)"
    using k hf
    by (auto simp: fresh_file_def tail_zero_def no_tail_def dir_names_put_file dir_names_put_new)
qed

lemma preallocate_fresh:
  assumes fr: "fresh_file s s1 f" and pr: "preallocate s1 f n = (s2, None)"
  shows "fresh_file s s2 f"
proof -
  obtain sa err where c: "os_call s1 = (sa, err)" by fastforce
  note k = os_call_same [OF c]
  let ?g = "file_of s1 (fd_name f)"
  have "err = None"
    using pr by (auto simp: preallocate_def file_Truncate_def c split: option.splits)
  then have s2: "s2 = put_file (fd_name f) (?g\<lparr>fdata := take (nat n) (zero_extend (nat n) (fdata ?g))\<rparr>) sa"
    using pr k(1) by (auto simp: preallocate_def file_Truncate_def c Let_def)
  have hf: "has_file sa (fd_name f)" using fr has_file_cong [OF k(2)] by (simp add: fresh_file_def)
  have "\<forall>b\<in>set (fdata ?g). b = 0" using fr by (simp add: fresh_file_def tail_zero_def)
  then have "\<forall>b\<in>set (take (nat n) (zero_extend (nat n) (fdata ?g))). b = 0"
    by (auto simp: zero_extend_def dest!: in_set_takeD)
  then show ?thesis
    using fr k hf by (auto simp: s2 fresh_file_def tail_zero_def dir_names_put_file)
qed

lemma os_call_fresh: "fresh_file s s1 f \<Longrightarrow> os_call s1 = (s2, err) \<Longrightarrow> fresh_file s s2 f"
  using os_call_same [of s1 s2 err] by (simp add: fresh_file_def tail_zero_def has_file_def)

text \<open>The first record of a segment bridges the chain.\<close>

definition crc_record :: "u32 \<Rightarrow> walrec" where
  "crc_record c = \<lparr>rtype = CrcType, rcrc = c, rdata = []\<rparr>"

lemma seal_crc_record [simp]: "seal c (crc_record c) = crc_record c"
  by (simp add: seal_def crc_record_def)

lemma good_log_crc_record: "storable m CrcType [] \<Longrightarrow> good_log m [crc_record c]"
  by (simp add: good_log_def crc_record_def storable_def chain_step_def)

lemma createSegment_ok:
  assumes cr: "WAL_createSegment m w s q c = (w', s', None)" and q: "q < 2 ^ 64"
    and ctl: "storable m CrcType []"
  shows "cur_ok m w' s' [crc_record c]" and "w_seq w' = q" and "w_closed w' = w_closed w"
    and "w_opts w' = w_opts w" and "enc_pending (w_enc w') = []"
    and "fsynced (file_of s' (seg_path q)) = fdata (file_of s' (seg_path q))"
    and "\<forall>n. n \<noteq> seg_path q \<longrightarrow> file_of s' n = file_of s n"
    and "\<not> fisdir (file_of s (seg_path q))"
    and "dir_names s' = (if has_file s (seg_path q) then dir_names s else dir_names s @ [(seg_path q, False)])"
    and "PreallocSize (w_opts w) \<le> 0 \<Longrightarrow> no_tail (s', w_file w')"
proof -
  obtain s1 f where op: "OpenTrunc s (seg_path q) = (s1, Inr f)"
    using cr by (auto simp: WAL_createSegment_def split: prod.splits sum.splits)
  note f1 = OpenTrunc_fresh [OF op]
  define pre where "pre = (if PreallocSize (w_opts w) > 0
                 then case preallocate s1 f (PreallocSize (w_opts w)) of
                        (sa, Some e) \<Rightarrow> (sa, Some e)
                      | (sa, None) \<Rightarrow> os_call sa
                 else (s1, None))"
  obtain s2 where pre: "pre = (s2, None)"
    using cr by (auto simp: WAL_createSegment_def op simp flip: pre_def split: prod.splits option.splits)
  have f2: "fresh_file s s2 f"
    using pre f1(1)
    by (auto simp: pre_def split: if_splits prod.splits option.splits
        intro: os_call_fresh [OF preallocate_fresh [OF f1(1)]])
  let ?enc = "NewEncoder c 0 (BufferSize (w_opts w))"
  obtain enc1 s3 g1 r1 eres where en: "Encoder_Encode m file_Write ?enc (s2, f) (crc_record c)
      = (enc1, (s3, g1), r1, eres)"
    by (metis prod_cases4 surj_pair)
  obtain off where off: "eres = Inr off"
    using cr by (auto simp: WAL_createSegment_def op pre en simp flip: pre_def crc_record_def
        split: sum.splits)
  obtain enc2 s4 g2 ferr where fl: "Encoder_Flush file_Write enc1 (s3, g1) = (enc2, (s4, g2), ferr)"
    by (metis prod_cases3 surj_pair)
  have ferr: "ferr = None"
    using cr by (auto simp: WAL_createSegment_def op pre en off fl simp flip: pre_def crc_record_def
        split: option.splits)
  have sy: "file_Sync s4 g2 = (s', None)"
    and w': "w' = w\<lparr>w_file := g2, w_enc := enc2, w_seq := q, w_offset := Encoder_Offset enc2\<rparr>"
    using cr by (auto simp: WAL_createSegment_def op pre en off fl ferr simp flip: pre_def crc_record_def
        split: option.splits prod.splits)
  note ke = fw.Encode_ok [OF enc_inv_New en [unfolded off]]
  note kf = fw.Encoder_Flush_ok [OF ke(2) fl [unfolded ferr]]
  note ks = file_Sync_frame [OF sy]
  have "file_frame (s2, f) (s4, g2)"
    using ff.R_trans [OF ff.Encode_frame [OF en] ff.Encoder_Flush_frame [OF fl]] .
  then have fr: "fd_name g2 = seg_path q" "fd_open g2" "same_dir (seg_path q) s2 s4" "tail_zero (s4, g2)"
    and nt: "no_tail (s2, f) \<longrightarrow> no_tail (s4, g2)"
    using f2 f1(2) by (auto simp: file_frame_def fresh_file_def)
  have "no_tail (s4, g2)" if "PreallocSize (w_opts w) \<le> 0"
    using pre that f1(3) nt by (auto simp: pre_def)
  then show "no_tail (s', w_file w')" if "PreallocSize (w_opts w) \<le> 0"
    using that ks(2) by (simp add: w' no_tail_def)
  have sd: "same_dir (seg_path q) s2 s'" using same_dir_trans [OF fr(3)] ks(1) fr(1) by simp
  have tz: "tail_zero (s', g2)" using file_out_cong(2) [OF ks(2)] fr(4) by simp
  have "file_out (s2, f) = []" using f2 by (simp add: fresh_file_def file_out_def)
  then have "file_out (s4, g2) = frames m [crc_record c]"
    using ke(1) kf(3) by (auto simp: rec_frame_def)
  then have fo: "file_out (s', g2) = frames m [crc_record c]"
    using file_out_cong(1) [OF ks(2), of g2] by simp
  have hf: "has_file s2 (seg_path q)" "\<not> fisdir (file_of s2 (seg_path q))"
    using f2 f1(2) by (auto simp: fresh_file_def)
  have gl: "good_log m [crc_record c]" by (rule good_log_crc_record [OF ctl])
  have ec: "Encoder_CRC enc2 = chain_end 0 [crc_record c]"
    using ke(3,4) kf(4) by (simp add: crc_record_def seal_def)
  show "cur_ok m w' s' [crc_record c]"
    using q gl ec sd fr tz fo hf kf(1,2)
    by (simp add: cur_ok_def w' same_dir_def has_file_def)
  show "w_seq w' = q" "w_closed w' = w_closed w" "w_opts w' = w_opts w" "enc_pending (w_enc w') = []"
    using kf(2) by (simp_all add: w')
  show "fsynced (file_of s' (seg_path q)) = fdata (file_of s' (seg_path q))"
    using ks(2,3) fr(1) by simp
  show "\<forall>n. n \<noteq> seg_path q \<longrightarrow> file_of s' n = file_of s n" "\<not> fisdir (file_of s (seg_path q))"
    "dir_names s' = (if has_file s (seg_path q) then dir_names s else dir_names s @ [(seg_path q, False)])"
    using sd f2 f1(2) hf by (auto simp: same_dir_def fresh_file_def)
qed

section \<open>Rotation and append\<close>

lemma wal_repr_file_cong:
  assumes "wal_repr m w s olds cur" and "file_of s' = file_of s" and "dir_names s' = dir_names s"
  shows "wal_repr m w s' olds cur"
  by (rule wal_repr_step [OF assms(1) same_dir_call [OF assms(2,3)]])
    (use assms in \<open>auto simp: wal_repr_def cur_ok_def file_out_def tail_zero_def has_file_def\<close>)

lemma rotate_step:
  assumes rep: "wal_repr m w s olds cur" and ro: "WAL_rotate m w s = (w', s', None)"
    and ctl: "storable m CrcType []" and seq: "w_seq w + 1 < 2 ^ 64"
  shows "wal_repr m w' s' (olds @ [(w_seq w, cur)]) [crc_record (chain_end 0 cur)]"
    and "w_opts w' = w_opts w"
proof -
  obtain w1 s1 e1 where sy: "WAL_syncLocked w s = (w1, s1, e1)" by (metis prod_cases3)
  have e1: "e1 = None" using ro by (auto simp: WAL_rotate_def sy split: option.splits)
  note k = syncLocked_step [OF rep sy [unfolded e1]]
  obtain w2 s2 e2 where cl: "WAL_closeFile w1 s1 = (w2, s2, e2)" by (metis prod_cases3)
  have e2: "e2 = None" using ro by (auto simp: WAL_rotate_def sy e1 cl Let_def split: option.splits)
  have op: "fd_open (w_file w1)" using k(1) by (simp add: wal_repr_def cur_ok_def)
  obtain err where "os_call s1 = (s2, err)" and w2: "w2 = w1\<lparr>w_file := (w_file w1)\<lparr>fd_open := False\<rparr>\<rparr>"
    using cl op by (auto simp: WAL_closeFile_def split: prod.splits)
  note oc = os_call_same [OF this(1)]
  have c1: "cur_ok m w1 s1 cur" using k(1) by (simp add: wal_repr_def)
  let ?q = "w_seq w + 1" and ?c = "chain_end 0 cur"
  have crc: "Encoder_CRC (w_enc w1) = ?c" using c1 by (simp add: cur_ok_def)
  have cr: "WAL_createSegment m w2 s2 ?q ?c = (w', s', None)"
    using ro seq k(3) by (simp add: WAL_rotate_def sy e1 cl e2 w2 crc Let_def)
  note n = createSegment_ok [OF cr seq ctl]
  show "w_opts w' = w_opts w" using n(4) k(4) by (simp add: w2)
  have d1: "dir_segments s2 = map (\<lambda>q. (q, seg_path q)) (map fst olds @ [w_seq w])"
    using k(1,3) oc(2) by (simp add: wal_repr_def dir_segments_names)
  have lt: "\<forall>x\<in>set olds. fst x < w_seq w" using rep by (simp add: wal_repr_def)
  have below: "\<forall>x\<in>set (dir_segments s2). fst x < ?q" using d1 lt by auto
  have new: "\<not> has_file s2 (seg_path ?q)"
    using has_file_listed [OF _ seq n(8)] below by fastforce
  have "seg_of_name (seg_path ?q, False) = Some (?q, seg_path ?q)"
    using segment_of_path [OF seq, of "\<lparr>fdata = [], fsynced = [], fisdir = False\<rparr>"]
    by (simp add: segment_of_entry_name)
  then have "List.map_filter seg_of_name (dir_names s2 @ [(seg_path ?q, False)]) =
      List.map_filter seg_of_name (dir_names s2) @ [(?q, seg_path ?q)]"
    by (simp add: map_filter_def)
  moreover have "\<forall>y\<in>set (List.map_filter seg_of_name (dir_names s2)). fst y \<le> ?q"
    using below by (auto simp: dir_segments_names intro: less_imp_le)
  ultimately have d2: "dir_segments s' = dir_segments s2 @ [(?q, seg_path ?q)]"
    using n(9) new by (simp add: dir_segments_names sort_key_last)
  have same: "file_of s' (seg_path p) = file_of s1 (seg_path p)" if "p < 2 ^ 64" "p \<noteq> ?q" for p
    using n(7) oc(1) segmentPath_inj [OF that(1) seq] that(2) by auto
  have olds: "seg_ok m s' x" if "x \<in> set olds" for x
    using k(1) that same [of "fst x"] lt by (auto simp: wal_repr_def seg_ok_def split: prod.splits)
  have "seg_ok m s' (w_seq w, cur)"
    using c1 k(2,3) tail_zero_content [of s1 "w_file w1"] same [of "w_seq w"]
    by (auto simp: cur_ok_def seg_ok_def)
  then show "wal_repr m w' s' (olds @ [(w_seq w, cur)]) [crc_record ?c]"
    using n(1,2,3) k(1) olds lt d1 d2 by (auto simp: wal_repr_def w2 less_SucI)
qed

lemma rotate_durable:
  assumes rep: "wal_repr m w s olds cur" and ro: "WAL_rotate m w s = (w', s', None)"
    and ctl: "storable m CrcType []" and seq: "w_seq w + 1 < 2 ^ 64" and dur: "durable m w s olds cur n"
  shows "durable m w' s' (olds @ [(w_seq w, cur)]) [crc_record (chain_end 0 cur)] n"
proof -
  obtain w1 s1 where sy: "WAL_syncLocked w s = (w1, s1, None)"
    using ro by (auto simp: WAL_rotate_def split: option.splits prod.splits)
  note k = syncLocked_step [OF rep sy] and kd = syncLocked_durable [OF rep sy dur]
  obtain w2 s2 where cl: "WAL_closeFile w1 s1 = (w2, s2, None)"
    using ro by (auto simp: WAL_rotate_def sy Let_def split: option.splits prod.splits)
  have w2: "w2 = w1\<lparr>w_file := (w_file w1)\<lparr>fd_open := False\<rparr>\<rparr>" and oc: "file_of s2 = file_of s1"
    using cl by (auto simp: WAL_closeFile_def split: if_splits prod.splits dest: os_call_same(1))
  have cr: "WAL_createSegment m w2 s2 (w_seq w + 1) (Encoder_CRC (w_enc w1)) = (w', s', None)"
    using ro seq k(3) by (simp add: WAL_rotate_def sy cl w2 Let_def)
  note c = createSegment_ok [OF cr seq ctl] and r = rotate_step(1) [OF rep ro ctl seq]
  have pre: "PreallocSize (w_opts w2) \<le> 0" using dur k(4) by (simp add: durable_def w2)
  have old: "all_synced s' q" if "all_synced s1 q" "q < w_seq w + 1" for q
    using c(7) segmentPath_inj [of q "w_seq w + 1"] that seq oc by (fastforce simp: all_synced_def)
  have "\<forall>x\<in>set (olds @ [(w_seq w, cur)]). all_synced s' (fst x)"
    using old kd rep by (fastforce simp: durable_def wal_repr_def)
  then have "durable m w' s' (olds @ [(w_seq w, cur)]) [crc_record (chain_end 0 cur)]
      (length (log_of (olds @ [(w_seq w, cur)]) [crc_record (chain_end 0 cur)]))"
    using durable_sync [OF r c(5)] c(2,4,6) c(10) [OF pre] pre by (simp add: all_synced_def)
  then show ?thesis
    by (rule durable_mono) (use durable_bound [OF dur] in simp)
qed

lemma maybeRotate_step:
  assumes rep: "wal_repr m w s olds cur" and ro: "WAL_maybeRotate m w s = (w', s', None)"
    and ctl: "storable m CrcType []" and seq: "w_seq w + 1 < 2 ^ 64"
  shows "\<exists>olds' cur'. wal_repr m w' s' olds' cur' \<and> log_of olds' cur' = log_of olds cur \<and>
    chain_end 0 cur' = chain_end 0 cur \<and>
    (\<forall>n. durable m w s olds cur n \<longrightarrow> durable m w' s' olds' cur' n)"
proof (cases "SegmentSize (w_opts w) > 0 \<and> int (w_offset w) \<ge> SegmentSize (w_opts w)")
  case True
  with ro have r: "WAL_rotate m w s = (w', s', None)" by (simp add: WAL_maybeRotate_def)
  have "log_of (olds @ [(w_seq w, cur)]) [crc_record (chain_end 0 cur)] = log_of olds cur"
    "chain_end 0 [crc_record (chain_end 0 cur)] = chain_end 0 cur"
    by (simp_all add: crc_record_def CrcType_def DataType_def)
  with rotate_step(1) [OF rep r ctl seq] rotate_durable [OF rep r ctl seq] show ?thesis by blast
next
  case False
  with ro rep show ?thesis by (auto simp: WAL_maybeRotate_def)
qed

text \<open>Encoding one record of either kind, as \<^verbatim>\<open>Append\<close> and \<^verbatim>\<open>SaveSnapshot\<close> do after rotating.\<close>

lemma rotate_encode_step:
  assumes rep: "wal_repr m w s olds cur" and mr: "WAL_maybeRotate m w s = (w1, s1, None)"
    and en: "Encoder_Encode m file_Write (w_enc w1) (s1, w_file w1)
               \<lparr>rtype = ty, rcrc = 0, rdata = data\<rparr> = (enc, (s2, f2), r, Inr off)"
    and ctl: "storable m CrcType []" and st: "storable m ty data" and seq: "w_seq w + 1 < 2 ^ 64"
  shows "\<exists>olds' cur'. wal_repr m (w1\<lparr>w_enc := enc, w_file := f2\<rparr>) s2 olds' cur' \<and>
    log_of olds' cur' = log_of olds cur @ (if ty = DataType then [data] else []) \<and>
    (\<forall>n. durable m w s olds cur n \<longrightarrow> durable m (w1\<lparr>w_enc := enc, w_file := f2\<rparr>) s2 olds' cur' n)"
proof -
  from maybeRotate_step [OF rep mr ctl seq] obtain olds1 cur1
    where r1: "wal_repr m w1 s1 olds1 cur1" and l1: "log_of olds1 cur1 = log_of olds cur"
      and d1: "\<forall>n. durable m w s olds cur n \<longrightarrow> durable m w1 s1 olds1 cur1 n" by blast
  have st': "storable m (rtype \<lparr>rtype = ty, rcrc = 0, rdata = data\<rparr>)
      (rdata \<lparr>rtype = ty, rcrc = 0, rdata = data\<rparr>)" using st by simp
  note k = encode_step [OF r1 en st']
  have "log_of olds1 (cur1 @ [r]) = log_of olds cur @ (if ty = DataType then [data] else [])"
    using k(2) l1 by simp
  moreover have "durable m (w1\<lparr>w_enc := enc, w_file := f2\<rparr>) s2 olds1 (cur1 @ [r]) n"
    if "durable m w s olds cur n" for n
    using durable_grow [OF r1 _ ff.Encode_frame [OF en]] d1 that by blast
  ultimately show ?thesis using k(1) by blast
qed

lemma Append_step:
  assumes rep: "wal_repr m w s olds cur" and ap: "WAL_Append m w s data = (w', s', Inr off)"
    and ctl: "storable m CrcType []" and st: "storable m DataType data" and seq: "w_seq w + 1 < 2 ^ 64"
  shows "\<exists>olds' cur'. wal_repr m w' s' olds' cur' \<and> log_of olds' cur' = log_of olds cur @ [data] \<and>
    (\<forall>n. durable m w s olds cur n \<longrightarrow> durable m w' s' olds' cur' n)"
proof -
  have op: "\<not> w_closed w" using rep by (simp add: wal_repr_def)
  obtain w1 s1 e1 where mr: "WAL_maybeRotate m w s = (w1, s1, e1)" by (metis prod_cases3)
  have e1: "e1 = None" using ap op by (auto simp: WAL_Append_def mr split: option.splits)
  let ?r = "\<lparr>rtype = DataType, rcrc = 0, rdata = data\<rparr>"
  obtain enc s2 f2 r res where en: "Encoder_Encode m file_Write (w_enc w1) (s1, w_file w1) ?r
      = (enc, (s2, f2), r, res)"
    by (metis prod_cases4 surj_pair)
  have res: "res = Inr off" and s': "s' = s2"
    and w': "w' = w1\<lparr>w_enc := enc, w_file := f2, w_offset := Encoder_Offset enc\<rparr>"
    using ap op by (auto simp: WAL_Append_def mr e1 en Let_def split: sum.splits if_splits)
  from rotate_encode_step [OF rep mr [unfolded e1] en [unfolded res] ctl st seq] show ?thesis
    by (simp add: w' s')
qed

lemma Sync_step:
  assumes rep: "wal_repr m w s olds cur" and sy: "WAL_Sync w s = (w', s', None)"
  shows "wal_repr m w' s' olds cur"
    and "durable m w s olds cur n \<Longrightarrow> durable m w' s' olds cur (length (log_of olds cur))"
proof -
  have k: "WAL_syncLocked w s = (w', s', None)"
    using rep sy by (simp add: WAL_Sync_def wal_repr_def)
  show "wal_repr m w' s' olds cur" by (rule syncLocked_step(1) [OF rep k])
  show "durable m w s olds cur n \<Longrightarrow> durable m w' s' olds cur (length (log_of olds cur))"
    by (rule syncLocked_durable(1) [OF rep k])
qed

lemma SaveSnapshot_step:
  assumes rep: "wal_repr m w s olds cur"
    and sn: "WAL_SaveSnapshot m msnap w s (Some sp) = (w', s', None)"
    and ctl: "storable m CrcType []" and st: "\<And>b. msnap sp = Some b \<Longrightarrow> storable m SnapshotType b"
    and seq: "w_seq w + 1 < 2 ^ 64"
  shows "\<exists>olds' cur'. wal_repr m w' s' olds' cur' \<and> log_of olds' cur' = log_of olds cur \<and>
    (\<forall>n. durable m w s olds cur n \<longrightarrow> durable m w' s' olds' cur' (length (log_of olds cur)))"
proof -
  have op: "\<not> w_closed w" using rep by (simp add: wal_repr_def)
  obtain w1 s1 e1 where mr: "WAL_maybeRotate m w s = (w1, s1, e1)" by (metis prod_cases3)
  have e1: "e1 = None" using sn op by (auto simp: WAL_SaveSnapshot_def mr split: option.splits)
  obtain b where b: "msnap sp = Some b"
    using sn op by (auto simp: WAL_SaveSnapshot_def mr e1 split: option.splits)
  obtain enc s2 f2 r res where en: "Encoder_Encode m file_Write (w_enc w1) (s1, w_file w1)
      \<lparr>rtype = SnapshotType, rcrc = 0, rdata = b\<rparr> = (enc, (s2, f2), r, res)"
    by (metis prod_cases4 surj_pair)
  obtain off where res: "res = Inr off"
    using sn op by (auto simp: WAL_SaveSnapshot_def mr e1 b en Let_def split: sum.splits)
  have sy: "WAL_Sync (w1\<lparr>w_enc := enc, w_file := f2, w_offset := Encoder_Offset enc\<rparr>) s2 = (w', s', None)"
    using sn op by (simp add: WAL_SaveSnapshot_def mr e1 b en res Let_def)
  from rotate_encode_step [OF rep mr [unfolded e1] en [unfolded res] ctl st [OF b] seq]
  obtain olds1 cur1 where
    r1: "wal_repr m (w1\<lparr>w_enc := enc, w_file := f2, w_offset := Encoder_Offset enc\<rparr>) s2 olds1 cur1"
    and l1: "log_of olds1 cur1 = log_of olds cur"
    and d1: "\<forall>n. durable m w s olds cur n \<longrightarrow>
      durable m (w1\<lparr>w_enc := enc, w_file := f2, w_offset := Encoder_Offset enc\<rparr>) s2 olds1 cur1 n"
    by (auto simp: SnapshotType_def DataType_def)
  show ?thesis
    using Sync_step(1) [OF r1 sy] Sync_step(2) [OF r1 sy] l1 d1 by (metis (no_types))
qed

section \<open>Properties\<close>

text \<open>A directory listing finds every segment again: it is sorted by sequence number, and every
  regular file named for a 64-bit sequence number is listed with that number. Distinct numbers
  have distinct names.\<close>

theorem segment_listing:
  assumes "WAL_listSegments s = (s', Inr segs)"
  shows "sorted (map fst segs) \<and>
    (\<forall>q < 2 ^ 64. has_file s (WAL_segmentPath q) \<and> \<not> fisdir (file_of s (WAL_segmentPath q)) \<longrightarrow>
       (q, WAL_segmentPath q) \<in> set segs) \<and>
    (\<forall>q < 2 ^ 64. \<forall>p < 2 ^ 64. WAL_segmentPath q = WAL_segmentPath p \<longrightarrow> q = p)"
proof -
  obtain s1 err where c: "os_call s = (s1, err)" by fastforce
  note k = os_call_same [OF c]
  have "segs = dir_segments s"
    using assms k(2) by (auto simp: WAL_listSegments_def c dir_segments_names split: option.splits)
  moreover have "sorted (map fst (dir_segments s))" by (simp add: dir_segments_def)
  ultimately show ?thesis using has_file_listed segmentPath_inj by blast
qed

theorem segment_listing_witness:
  "\<exists>s' segs. WAL_listSegments \<lparr>files = [(WAL_segmentPath 5, \<lparr>fdata = [], fsynced = [], fisdir = False\<rparr>)], faults = []\<rparr>
     = (s', Inr segs) \<and> (5, WAL_segmentPath 5) \<in> set segs"
proof -
  let ?s = "\<lparr>files = [(WAL_segmentPath 5, \<lparr>fdata = [], fsynced = [], fisdir = False\<rparr>)], faults = []\<rparr>"
  have e: "WAL_listSegments ?s = (?s, Inr (dir_segments ?s))"
    by (simp add: WAL_listSegments_def os_call_def next_fault_def)
  have "has_file ?s (WAL_segmentPath 5)" "\<not> fisdir (file_of ?s (WAL_segmentPath 5))"
    by (simp_all add: has_file_def dir_names_def file_of_def)
  with segment_listing [OF e] e show ?thesis by simp
qed

end
