(* ===== verification/Wal_Recovery.thy ===== *)
theory Wal_Recovery
  imports Wal_Log
begin

text \<open>
  Reading the log back and opening it again. A directory of segments is described by
  \<open>dir_repr\<close>; \<^verbatim>\<open>ReadAll\<close> returns its payloads, \<^verbatim>\<open>Close\<close> leaves it behind, and
  \<^verbatim>\<open>Open\<close> takes it up again. A crash keeps of every file a prefix that contains what was
  synced; the log found after it is a prefix of the log written that contains every payload
  appended before the last successful \<^verbatim>\<open>Sync\<close>.
\<close>

section \<open>Reading segments\<close>

definition dir_repr :: "(walrec \<Rightarrow> bytes option) \<Rightarrow> os \<Rightarrow> (nat \<times> walrec list) list \<Rightarrow> bool" where
  "dir_repr m s segs \<longleftrightarrow>
     (\<forall>x\<in>set segs. seg_ok m s x) \<and> dir_segments s = map (\<lambda>q. (q, seg_path q)) (map fst segs)"

lemma readSegment_ok:
  assumes codec: "proto_codec m u" and seg: "seg_ok m s (q, rs)"
    and rd: "WAL_readSegment u s (seg_path q) = (s', res)"
  shows "file_of s' = file_of s" and "dir_names s' = dir_names s"
    and "res = Inr (payloads rs) \<or> (\<exists>e. res = Inl (ErrIOwrap e))"
    and "faults s = [] \<Longrightarrow> res = Inr (payloads rs) \<and> faults s' = []"
proof -
  obtain s1 err where c: "os_call s = (s1, err)" by fastforce
  note k = os_call_same [OF c]
  obtain z where z: "fdata (file_of s (seg_path q)) = frames m rs @ replicate z 0"
    and g: "good_log m rs" using seg by (auto simp: seg_ok_def)
  obtain d qs e where d: "decode_all u (NewDecoder (frames m rs @ replicate z 0)) = (d, qs, e)"
    by (metis prod_cases3)
  have st: "qs = rs" "recoverable e"
    using decode_all_zeros [OF codec, of rs z] g d by (auto simp: good_log_def stops_after_def)
  have rc: "\<not> (e \<noteq> ErrIOwrap EOF \<and> e \<noteq> ErrIOwrap ErrUnexpectedEOF)"
    using st(2) by (auto simp: recoverable_def)
  have r: "WAL_readSegment u s (seg_path q) =
      (s1, case err of Some x \<Rightarrow> Inl (ErrIOwrap x) | None \<Rightarrow> Inr (payloads rs))"
    using k(1) z d st(1) rc by (auto simp: WAL_readSegment_def c payloads_def split: option.split)
  show "file_of s' = file_of s" "dir_names s' = dir_names s"
    "res = Inr (payloads rs) \<or> (\<exists>e. res = Inl (ErrIOwrap e))"
    using k r rd by (auto split: option.splits)
  show "res = Inr (payloads rs) \<and> faults s' = []" if "faults s = []"
    using that c r rd by (auto simp: os_call_def next_fault_def split: option.splits)
qed

lemma seg_ok_cong: "file_of s' = file_of s \<Longrightarrow> seg_ok m s' x = seg_ok m s x"
  by (cases x) (simp add: seg_ok_def)

lemma read_segments_ok:
  assumes codec: "proto_codec m u" and "\<forall>x\<in>set segs. seg_ok m s x"
    and "read_segments u s (map (\<lambda>q. (q, seg_path q)) (map fst segs)) = (s', res)"
  shows "file_of s' = file_of s \<and> dir_names s' = dir_names s \<and>
    (res = Inr (concat (map (payloads \<circ> snd) segs)) \<or> (\<exists>e. res = Inl (ErrIOwrap e))) \<and>
    (faults s = [] \<longrightarrow> res = Inr (concat (map (payloads \<circ> snd) segs)) \<and> faults s' = [])"
  using assms(2,3)
proof (induction segs arbitrary: s s' res)
  case (Cons x segs)
  obtain q rs where x: "x = (q, rs)" by fastforce
  obtain s1 r1 where r1: "WAL_readSegment u s (seg_path q) = (s1, r1)" by fastforce
  have ok: "seg_ok m s (q, rs)" using Cons.prems(1) x by simp
  note k = readSegment_ok [OF codec ok r1]
  obtain s2 r2 where r2: "read_segments u s1 (map (\<lambda>q. (q, seg_path q)) (map fst segs)) = (s2, r2)"
    by fastforce
  have "\<forall>x\<in>set segs. seg_ok m s1 x" using Cons.prems(1) seg_ok_cong [OF k(1)] by simp
  note ih = Cons.IH [OF this r2]
  show ?case
    using Cons.prems(2) k ih by (auto simp: x r1 r2 simp del: map_map split: sum.splits)
qed auto

lemma listSegments_cases:
  assumes "WAL_listSegments s = (s', res)"
  shows "file_of s' = file_of s" and "dir_names s' = dir_names s"
    and "res = Inr (dir_segments s) \<or> (\<exists>e. res = Inl (ErrIOwrap e))"
    and "faults s = [] \<Longrightarrow> res = Inr (dir_segments s) \<and> faults s' = []"
proof -
  obtain s1 err where c: "os_call s = (s1, err)" by fastforce
  note k = os_call_same [OF c]
  have "res = (case err of Some e \<Rightarrow> Inl (ErrIOwrap e) | None \<Rightarrow> Inr (dir_segments s))" "s' = s1"
    using assms k(2) by (auto simp: WAL_listSegments_def c dir_segments_names split: option.splits)
  then show "file_of s' = file_of s" "dir_names s' = dir_names s"
    "res = Inr (dir_segments s) \<or> (\<exists>e. res = Inl (ErrIOwrap e))"
    "faults s = [] \<Longrightarrow> res = Inr (dir_segments s) \<and> faults s' = []"
    using k c by (auto simp: os_call_def next_fault_def split: option.splits)
qed

section \<open>Flushed state\<close>

text \<open>With an empty buffer the current segment is on disk like the others.\<close>

lemma flushed_dir_repr:
  assumes rep: "wal_repr m w s olds cur" and pend: "enc_pending (w_enc w) = []"
  shows "dir_repr m s (olds @ [(w_seq w, cur)])"
proof -
  have c: "cur_ok m w s cur" using rep by (simp add: wal_repr_def)
  then have "seg_ok m s (w_seq w, cur)"
    using pend tail_zero_content [of s "w_file w"] by (auto simp: cur_ok_def seg_ok_def)
  then show ?thesis using rep by (auto simp: wal_repr_def dir_repr_def)
qed

lemma ReadAll_step:
  assumes codec: "proto_codec m u" and rep: "wal_repr m w s olds cur"
    and rd: "WAL_ReadAll u w s = (w', s', res)"
  shows "(res = Inr (log_of olds cur) \<or> (\<exists>e. res = Inl (ErrIOwrap e))) \<and>
    (faults s = [] \<longrightarrow> res = Inr (log_of olds cur)) \<and> (res = Inr ds \<longrightarrow> wal_repr m w' s' olds cur) \<and>
    (res = Inr ds \<longrightarrow> durable m w s olds cur n \<longrightarrow> durable m w' s' olds cur n)"
proof -
  have op: "\<not> w_closed w" "fd_open (w_file w)" using rep by (auto simp: wal_repr_def cur_ok_def)
  obtain e1 s1 f1 err where fl: "Encoder_Flush file_Write (w_enc w) (s, w_file w) = (e1, (s1, f1), err)"
    by (metis prod_cases3 surj_pair)
  let ?w = "w\<lparr>w_enc := e1, w_file := f1\<rparr>"
  obtain s2 r2 where ls: "WAL_listSegments s1 = (s2, r2)" by fastforce
  note l = listSegments_cases [OF ls]
  have live: "faults s1 = [] \<and> fd_open f1 \<and> err = None" if "faults s = []"
    using fl.Encoder_Flush_live [of "(s, w_file w)", OF _ fl] that op by auto
  show ?thesis
  proof (cases err)
    case (Some x)
    with rd op show ?thesis
      using live by (auto simp: WAL_ReadAll_def fl Let_def)
  next
    case None
    note k = flush_step [OF rep fl [unfolded None]]
    define segs where "segs = olds @ [(w_seq w, cur)]"
    have dr: "dir_repr m s1 segs"
      using flushed_dir_repr [OF k(1)] k(2) by (simp add: segs_def)
    obtain s3 r3 where rs: "read_segments u s2
        (map (\<lambda>q. (q, seg_path q)) (map fst segs)) = (s3, r3)" by fastforce
    have "\<forall>x\<in>set segs. seg_ok m s2 x"
      using dr seg_ok_cong [OF l(1)] by (simp add: dir_repr_def)
    note r = read_segments_ok [OF codec this rs]
    have lg: "concat (map (payloads \<circ> snd) segs) = log_of olds cur"
      by (simp add: segs_def log_of_def)
    have rp: "wal_repr m ?w s3 olds cur"
      using wal_repr_file_cong [OF k(1)] r l by metis
    have du: "durable m ?w s3 olds cur n" if "durable m w s olds cur n"
      using durable_grow [OF rep that ff.Encoder_Flush_frame [OF fl], of e1 "[]"] r l(1) durable_file_cong [of s3 s1]
      by simp
    have ds: "dir_segments s1 = map (\<lambda>q. (q, seg_path q)) (map fst segs)"
      using dr by (simp add: dir_repr_def)
    show ?thesis
      using rd op l(3,4) r rp du live unfolding lg
      by (auto simp: WAL_ReadAll_def fl None ls ds rs Let_def simp del: map_map)
  qed
qed

section \<open>Close\<close>

lemma Close_step:
  assumes rep: "wal_repr m w s olds cur" and cl: "WAL_Close w s = (w', s', None)"
  shows "dir_repr m s' (olds @ [(w_seq w, cur)])" and "w_closed w'" and "all_synced s' (w_seq w)"
proof -
  have op: "\<not> w_closed w" using rep by (simp add: wal_repr_def)
  obtain e1 s1 f1 err where fl: "Encoder_Flush file_Write (w_enc w) (s, w_file w) = (e1, (s1, f1), err)"
    by (metis prod_cases3 surj_pair)
  have err: "err = None" using cl op by (auto simp: WAL_Close_def fl Let_def split: option.splits)
  note k = flush_step [OF rep fl [unfolded err]]
  obtain s2 serr where sy: "file_Sync s1 f1 = (s2, serr)" by fastforce
  have serr: "serr = None" using cl op by (auto simp: WAL_Close_def fl err sy Let_def split: option.splits)
  have fo: "fd_open f1" using file_Sync_frame(3) [OF sy] serr by simp
  obtain s3 cerr where oc: "os_call s2 = (s3, cerr)" by fastforce
  have s': "s' = s3" and "w_closed w'"
    using cl op fo by (auto simp: WAL_Close_def fl err sy serr oc WAL_closeFile_def Let_def)
  then show "w_closed w'" by simp
  note y = sync_file_step [OF k(1), of s2] and c = os_call_same [OF oc]
  have r2: "wal_repr m (w\<lparr>w_enc := e1, w_file := f1\<rparr>) s2 olds cur" using y(1) sy serr by simp
  have r3: "wal_repr m (w\<lparr>w_enc := e1, w_file := f1\<rparr>) s3 olds cur"
    using wal_repr_file_cong [OF r2 c] .
  show "dir_repr m s' (olds @ [(w_seq w, cur)])"
    using flushed_dir_repr [OF r3] k(2) by (simp add: s')
  show "all_synced s' (w_seq w)" using y(2) sy serr c(1) by (simp add: all_synced_def s')
qed

section \<open>Opening a segment again\<close>

lemma overwrite_inside:
  "n + length p \<le> length bs \<Longrightarrow> overwrite n p bs = take n bs @ p @ drop (n + length p) bs"
  by (simp add: overwrite_def zero_extend_def)

lemma zero_loop_ok:
  assumes "zero_loop (s, h) r = ((s', h'), None)"
    and "fd_pos h + r \<le> length (fdata (file_of s (fd_name h)))"
  shows "fdata (file_of s' (fd_name h)) =
      take (fd_pos h) (fdata (file_of s (fd_name h))) @ replicate r 0 @ drop (fd_pos h + r) (fdata (file_of s (fd_name h)))
    \<and> file_frame (s, h) (s', h')"
  using assms
proof (induction r arbitrary: s h rule: less_induct)
  case (less r)
  show ?case
  proof (cases "r = 0")
    case True
    then show ?thesis using less.prems by (simp add: zero_loop.simps ff.R_refl)
  next
    case False
    let ?n = "min 4096 r" and ?d = "fdata (file_of s (fd_name h))"
    have n: "0 < ?n" using False by simp
    obtain s1 h1 c err where w: "file_Write (s, h) (replicate ?n 0) = ((s1, h1), c, err)"
      by (metis prod_cases3 surj_pair)
    have err: "err = None" and rest: "zero_loop (s1, h1) (r - ?n) = ((s', h'), None)"
      using less.prems(1) False w
      by (auto simp: zero_loop.simps [of "(s, h)" r] Let_def split: option.splits)
    note k = file_Write_cases [OF w] and fr = ff.R_wr [OF w]
    have c: "c = ?n" "fd_open h" using k(2) [OF err] by auto
    have h1: "fd_pos h1 = fd_pos h + ?n" "fd_name h1 = fd_name h" using k(3) c by auto
    have d1: "fdata (file_of s1 (fd_name h)) = take (fd_pos h) ?d @ replicate ?n 0 @ drop (fd_pos h + ?n) ?d"
      using k(4) [OF c(2)] less.prems(2) by (simp add: c(1) overwrite_inside)
    have "fd_pos h1 + (r - ?n) \<le> length (fdata (file_of s1 (fd_name h1)))"
      using less.prems(2) h1 d1 by simp
    note ih = less.IH [OF _ rest this]
    have tk: "take (fd_pos h1) (fdata (file_of s1 (fd_name h))) = take (fd_pos h) ?d @ replicate ?n 0"
      using less.prems(2) by (simp add: d1 h1(1))
    have dr: "drop (fd_pos h1 + (r - ?n)) (fdata (file_of s1 (fd_name h))) = drop (fd_pos h + r) ?d"
      using less.prems(2) by (simp add: d1 h1(1) min_def add.commute)
    have "replicate ?n 0 @ replicate (r - ?n) (0::byte) = replicate r 0"
      by (simp flip: replicate_add)
    then show ?thesis
      using ih n False tk dr h1(2) ff.R_trans [OF fr] by simp
  qed
qed

lemma zeroToEnd_ok:
  assumes z: "zeroToEnd s f = (s', f', None)"
    and pos: "fd_pos f \<le> length (fdata (file_of s (fd_name f)))"
  shows "fdata (file_of s' (fd_name f)) = take (fd_pos f) (fdata (file_of s (fd_name f))) @
      replicate (length (fdata (file_of s (fd_name f))) - fd_pos f) 0"
    and "same_dir (fd_name f) s s'" and "fd_name f' = fd_name f" and "fd_open f' = fd_open f"
    and "fd_pos f = length (fdata (file_of s (fd_name f))) \<Longrightarrow> file_of s' = file_of s"
proof -
  obtain s1 e1 where c1: "os_call s = (s1, e1)" by fastforce
  obtain s2 e2 where c2: "os_call s1 = (s2, e2)" by fastforce
  obtain s3 e3 where c3: "os_call s2 = (s3, e3)" by fastforce
  note k1 = os_call_same [OF c1] and k2 = os_call_same [OF c2] and k3 = os_call_same [OF c3]
  let ?d = "fdata (file_of s (fd_name f))"
  have e: "e1 = None" "e2 = None"
    using z by (auto simp: zeroToEnd_def c1 c2 split: option.splits)
  have d2: "file_of s2 = file_of s" "dir_names s2 = dir_names s" using k1 k2 by auto
  have goal: "fdata (file_of s' (fd_name f)) = take (fd_pos f) ?d @ replicate (length ?d - fd_pos f) 0 \<and>
      same_dir (fd_name f) s s' \<and> fd_name f' = fd_name f \<and> fd_open f' = fd_open f"
  proof (cases "fd_pos f \<ge> length ?d")
    case True
    then have "s' = s2" "f' = f\<lparr>fd_pos := length ?d\<rparr>"
      using z d2(1) by (auto simp: zeroToEnd_def c1 c2 e Let_def)
    then show ?thesis using True pos d2 by (simp add: same_dir_def)
  next
    case False
    obtain s4 f4 e4 where zl: "zero_loop (s3, f) (length ?d - fd_pos f) = ((s4, f4), e4)"
      by (metis prod_cases3 surj_pair)
    have e4: "e4 = None" and s': "s' = s4" "f' = f4"
      using z False d2(1) by (auto simp: zeroToEnd_def c1 c2 c3 e zl Let_def split: option.splits)
    have b: "fd_pos f + (length ?d - fd_pos f) \<le> length (fdata (file_of s3 (fd_name f)))"
      using pos k3(1) d2(1) by simp
    have "same_dir (fd_name f) s s3" using same_dir_call k3 d2 by auto
    with zero_loop_ok [OF zl [unfolded e4] b] s' show ?thesis
      using pos k3(1) d2(1) by (auto simp: file_frame_def intro: same_dir_trans)
  qed
  then show "fdata (file_of s' (fd_name f)) = take (fd_pos f) ?d @ replicate (length ?d - fd_pos f) 0"
    "same_dir (fd_name f) s s'" "fd_name f' = fd_name f" "fd_open f' = fd_open f" by auto
  show "file_of s' = file_of s" if "fd_pos f = length ?d"
    using z that d2(1) by (auto simp: zeroToEnd_def c1 c2 e Let_def)
qed

text \<open>
  A segment whose decoding stops recoverably after \<open>rs\<close> is opened for appending behind \<open>rs\<close>.
\<close>

definition reads_as ::
  "(walrec \<Rightarrow> bytes option) \<Rightarrow> (bytes \<Rightarrow> walrec option) \<Rightarrow> bytes \<Rightarrow> walrec list \<Rightarrow> bool" where
  "reads_as m u bs rs \<longleftrightarrow>
     good_log m rs \<and> (\<exists>tl. bs = frames m rs @ tl) \<and> stops_after m 0 rs (decode_all u (NewDecoder bs))"

lemma reads_as_zeros: "proto_codec m u \<Longrightarrow> good_log m rs \<Longrightarrow> reads_as m u (frames m rs @ replicate z 0) rs"
  using decode_all_zeros by (auto simp: reads_as_def good_log_def)

lemma openSegment_ok:
  assumes op: "WAL_openSegment u w s (q, seg_path q) = (w', s', None)" and q: "q < 2 ^ 64"
    and hf: "has_file s (seg_path q)" "\<not> fisdir (file_of s (seg_path q))"
    and rd: "reads_as m u (fdata (file_of s (seg_path q))) rs"
  shows "cur_ok m w' s' rs" and "w_seq w' = q" and "same_dir (seg_path q) s s'"
    and "w_closed w' = w_closed w" and "w_opts w' = w_opts w"
    and "enc_pending (w_enc w') = []"
    and "fdata (file_of s (seg_path q)) = frames m rs \<Longrightarrow> no_tail (s', w_file w') \<and> file_of s' = file_of s"
proof -
  obtain s1 e1 where c1: "os_call s = (s1, e1)" by fastforce
  note k1 = os_call_same [OF c1]
  obtain d qs e where d: "decode_all u (NewDecoder (fdata (file_of s (seg_path q)))) = (d, qs, e)"
    by (metis prod_cases3)
  have st: "recoverable e" "LastOffset d = length (frames m rs)" "LastCRC d = chain_end 0 rs"
    using rd d by (auto simp: reads_as_def stops_after_def LastOffset_def)
  have rc: "\<not> (e \<noteq> ErrIOwrap EOF \<and> e \<noteq> ErrIOwrap ErrUnexpectedEOF)"
    using st(1) by (auto simp: recoverable_def)
  obtain tl where tl: "fdata (file_of s (seg_path q)) = frames m rs @ tl" using rd by (auto simp: reads_as_def)
  have e1: "e1 = None" using op by (auto simp: WAL_openSegment_def c1 split: option.splits)
  obtain s2 e2 where c2: "os_call s1 = (s2, e2)" by fastforce
  note k2 = os_call_same [OF c2]
  have e2: "e2 = None"
    using op rc d k1(1) by (auto simp: WAL_openSegment_def c1 e1 c2 Let_def split: option.splits)
  let ?f = "\<lparr>fd_name = seg_path q, fd_pos = length (frames m rs), fd_open = True\<rparr>"
  obtain s3 f3 e3 where z: "zeroToEnd s2 ?f = (s3, f3, e3)" by (metis prod_cases3)
  obtain s4 e4 where c4: "os_call s3 = (s4, e4)" by fastforce
  note k4 = os_call_same [OF c4]
  have e3: "e3 = None"
    using op rc d k1(1) st z by (auto simp: WAL_openSegment_def c1 e1 c2 e2 Let_def split: option.splits)
  have w': "w' = w\<lparr>w_file := f3\<lparr>fd_pos := length (frames m rs)\<rparr>,
      w_enc := NewEncoder (chain_end 0 rs) (length (frames m rs) mod walPageBytes) (BufferSize (w_opts w)),
      w_seq := q, w_offset := length (frames m rs)\<rparr>" and s': "s' = s4"
    using op rc d k1(1) st z
    by (auto simp: WAL_openSegment_def c1 e1 c2 e2 e3 c4 Let_def split: option.splits)
  have pos: "fd_pos ?f \<le> length (fdata (file_of s2 (fd_name ?f)))" using tl k1(1) k2(1) by simp
  note zz = zeroToEnd_ok [OF z [unfolded e3] pos]
  have fd: "fdata (file_of s' (seg_path q)) = frames m rs @ replicate (length tl) 0"
    using zz(1) tl k1(1) k2(1) k4(1) s' by simp
  have "same_dir (seg_path q) s s2" "same_dir (seg_path q) s3 s4"
    using k1 k2 k4 by (auto intro!: same_dir_call)
  with zz(2) show sd: "same_dir (seg_path q) s s'"
    using s' by (auto intro: same_dir_trans)
  show "cur_ok m w' s' rs"
    using q hf sd rd zz(3,4) fd
    by (auto simp: cur_ok_def w' reads_as_def same_dir_def has_file_def file_out_def zero_extend_def tail_zero_def)
  show "w_seq w' = q" "w_closed w' = w_closed w" "w_opts w' = w_opts w" "enc_pending (w_enc w') = []"
    by (simp_all add: w')
  show "no_tail (s', w_file w') \<and> file_of s' = file_of s"
    if "fdata (file_of s (seg_path q)) = frames m rs"
    using zz(3,5) that k1(1) k2(1) k4(1) by (simp add: w' s' no_tail_def)
qed

lemma Open_existing:
  assumes op: "WAL_Open m u s opts = (s', Inr w)"
    and dir: "dir_segments s = map (\<lambda>q. (q, seg_path q)) (map fst olds @ [q])"
    and olds: "\<forall>x\<in>set olds. seg_ok m s x \<and> fst x < q" and q: "q < 2 ^ 64"
    and nd: "\<not> fisdir (file_of s (seg_path q))"
    and rd: "reads_as m u (fdata (file_of s (seg_path q))) rs"
  shows "wal_repr m w s' olds rs" and "w_opts w = opts" and "w_seq w = q"
    and "enc_pending (w_enc w) = []"
    and "fdata (file_of s (seg_path q)) = frames m rs \<Longrightarrow> no_tail (s', w_file w) \<and> file_of s' = file_of s"
proof -
  obtain s1 e1 where c1: "os_call s = (s1, e1)" by fastforce
  obtain s2 r2 where ls: "WAL_listSegments s1 = (s2, r2)" by fastforce
  note k1 = os_call_same [OF c1] and l = listSegments_cases [OF ls]
  have same: "file_of s2 = file_of s" "dir_names s2 = dir_names s" using k1 l(1,2) by auto
  have ds: "dir_segments s1 = dir_segments s" "dir_segments s2 = dir_segments s"
    using k1(2) same(2) by (simp_all add: dir_segments_names)
  have e1: "e1 = None" using op by (auto simp: WAL_Open_def c1 split: option.splits)
  have r2: "r2 = Inr (dir_segments s)"
    using op l(3) ds by (auto simp: WAL_Open_def c1 e1 ls Let_def)
  have ne: "dir_segments s \<noteq> []" "last (dir_segments s) = (q, seg_path q)" using dir by simp_all
  define w0 where "w0 = \<lparr>w_opts = opts, w_file = \<lparr>fd_name = [], fd_pos = 0, fd_open = False\<rparr>,
    w_enc = NewEncoder 0 0 0, w_seq = 0, w_offset = 0, w_closed = False\<rparr>"
  have os: "WAL_openSegment u w0 s2 (q, seg_path q) = (w, s', None)"
    using op ne
    by (auto simp: WAL_Open_def c1 e1 ls r2 Let_def simp flip: w0_def split: option.splits prod.splits)
  have hf: "has_file s2 (seg_path q)"
    using dir_segments_has_file [of q "seg_path q" s2] ds dir by simp
  have c: "cur_ok m w s' rs" "w_seq w = q" "same_dir (seg_path q) s2 s'" "\<not> w_closed w" "w_opts w = opts"
    "enc_pending (w_enc w) = []"
    "fdata (file_of s (seg_path q)) = frames m rs \<Longrightarrow> no_tail (s', w_file w) \<and> file_of s' = file_of s"
    using openSegment_ok [OF os q hf] nd rd same(1) by (auto simp: w0_def)
  have "dir_names s' = dir_names s" using c(3) hf same(2) by (simp add: same_dir_def)
  then have "dir_segments s' = dir_segments s" by (simp add: dir_segments_names)
  moreover have "seg_ok m s' x" if "x \<in> set olds" for x
    by (rule seg_ok_same_dir [OF c(3) _ q]) (use olds that seg_ok_cong [OF same(1)] in auto)
  ultimately show "wal_repr m w s' olds rs" using c olds dir by (simp add: wal_repr_def)
  show "w_opts w = opts" "w_seq w = q" "enc_pending (w_enc w) = []" by (rule c)+
  show "fdata (file_of s (seg_path q)) = frames m rs \<Longrightarrow> no_tail (s', w_file w) \<and> file_of s' = file_of s"
    by (rule c(7))
qed

lemma Open_empty:
  assumes op: "WAL_Open m u s opts = (s', Inr w)" and dir: "dir_segments s = []"
    and nd: "\<not> fisdir (file_of s (seg_path 0))" and ctl: "storable m CrcType []"
  shows "wal_repr m w s' [] [crc_record 0]" and "w_opts w = opts"
    and "PreallocSize opts \<le> 0 \<Longrightarrow> durable m w s' [] [crc_record 0] 0"
    and "w_seq w = 0" and "n \<noteq> seg_path 0 \<Longrightarrow> file_of s' n = file_of s n"
proof -
  obtain s1 e1 where c1: "os_call s = (s1, e1)" by fastforce
  obtain s2 r2 where ls: "WAL_listSegments s1 = (s2, r2)" by fastforce
  note k1 = os_call_same [OF c1] and l = listSegments_cases [OF ls]
  have same: "file_of s2 = file_of s" "dir_names s2 = dir_names s" using k1 l(1,2) by auto
  have ds: "dir_segments s1 = dir_segments s" "dir_segments s2 = dir_segments s"
    using k1(2) same(2) by (simp_all add: dir_segments_names)
  have e1: "e1 = None" using op by (auto simp: WAL_Open_def c1 split: option.splits)
  have r2: "r2 = Inr []"
    using op l(3) ds dir by (auto simp: WAL_Open_def c1 e1 ls Let_def)
  define w0 where "w0 = \<lparr>w_opts = opts, w_file = \<lparr>fd_name = [], fd_pos = 0, fd_open = False\<rparr>,
    w_enc = NewEncoder 0 0 0, w_seq = 0, w_offset = 0, w_closed = False\<rparr>"
  have cr: "WAL_createSegment m w0 s2 0 0 = (w, s', None)"
    using op
    by (auto simp: WAL_Open_def c1 e1 ls r2 Let_def simp flip: w0_def split: option.splits prod.splits)
  note c = createSegment_ok [OF cr _ ctl, simplified]
  have new: "\<not> has_file s2 (seg_path 0)"
    using has_file_listed [of s2 0] ds dir nd same(1) by auto
  have "seg_of_name (seg_path 0, False) = Some (0, seg_path 0)"
    using segment_of_path [of 0 "\<lparr>fdata = [], fsynced = [], fisdir = False\<rparr>"]
    by (simp add: segment_of_entry_name)
  moreover have "List.map_filter seg_of_name (dir_names s2) = []"
    using ds(2) dir by (metis dir_segments_names sort_key_simps(1) length_sort length_0_conv)
  ultimately have "dir_segments s' = [(0, seg_path 0)]"
    using c(9) new by (simp add: dir_segments_names map_filter_def)
  then show r: "wal_repr m w s' [] [crc_record 0]"
    using c(1,2,3) by (simp add: wal_repr_def w0_def)
  show "w_seq w = 0" "n \<noteq> seg_path 0 \<Longrightarrow> file_of s' n = file_of s n" using c(2,7) same(1) by auto
  show "w_opts w = opts" using c(4) by (simp add: w0_def)
  then show "durable m w s' [] [crc_record 0] 0" if "PreallocSize opts \<le> 0"
    using durable_mono [OF durable_sync [OF r c(5)], of 0] c(2,6,10) that
    by (simp add: all_synced_def w0_def)
qed

section \<open>Operations succeed when no call fails\<close>

lemma os_call_live: "faults s = [] \<Longrightarrow> os_call s = (s, None)"
  by (simp add: os_call_def next_fault_def)

lemma file_Sync_live:
  assumes "faults s = []" and "fd_open f"
  shows "\<exists>s'. file_Sync s f = (s', None) \<and> faults s' = []"
  using assms by (simp add: file_Sync_def next_fault_def put_file_def Let_def)

lemma wal_Flush_live:
  assumes "faults s = []" and "fd_open f"
  shows "\<exists>e' s' f'. Encoder_Flush file_Write e (s, f) = (e', (s', f'), None) \<and> faults s' = [] \<and> fd_open f'"
proof -
  obtain e' s' f' err where fl: "Encoder_Flush file_Write e (s, f) = (e', (s', f'), err)"
    by (metis prod_cases3 surj_pair)
  with fl.Encoder_Flush_live [OF _ fl] assms show ?thesis by auto
qed

lemma wal_Encode_live:
  assumes "faults s = []" and "fd_open f" and "m (seal (Encoder_CRC e) r) \<noteq> None"
  obtains e' s' f' r' off where "Encoder_Encode m file_Write e (s, f) r = (e', (s', f'), r', Inr off)"
    "faults s' = []" "fd_open f'"
proof -
  obtain b where b: "m (seal (Encoder_CRC e) r) = Some b" using assms(3) by blast
  obtain e' s' f' r' res where en: "Encoder_Encode m file_Write e (s, f) r = (e', (s', f'), r', res)"
    by (metis prod_cases4 surj_pair)
  from fl.Encode_live [OF _ b en] assms have l: "faults s' = []" "fd_open f'" "res = Inr (e_offset e)" by auto
  with en l that show thesis by blast
qed

lemma storable_marshal: "storable m ty data \<Longrightarrow> m \<lparr>rtype = ty, rcrc = c, rdata = data\<rparr> \<noteq> None"
  by (auto simp: storable_def rec_ok_def split: option.splits)

lemma createSegment_live:
  assumes "faults s = []" and "\<not> fisdir (file_of s (seg_path q))" and "storable m CrcType []"
  shows "\<exists>w' s'. WAL_createSegment m w s q c = (w', s', None) \<and> faults s' = []"
proof -
  obtain s1 f where op: "OpenTrunc s (seg_path q) = (s1, Inr f)" and l1: "faults s1 = []" "fd_open f"
    using assms by (simp add: OpenTrunc_def os_call_live put_file_def)
  define pre where "pre = (if PreallocSize (w_opts w) > 0
                 then case preallocate s1 f (PreallocSize (w_opts w)) of
                        (sa, Some e) \<Rightarrow> (sa, Some e)
                      | (sa, None) \<Rightarrow> os_call sa
                 else (s1, None))"
  have "\<exists>s2. pre = (s2, None) \<and> faults s2 = []"
    using l1 by (simp add: pre_def preallocate_def file_Truncate_def os_call_live put_file_def Let_def)
  then obtain s2 where pre: "pre = (s2, None)" and l2: "faults s2 = []" by blast
  let ?r = "\<lparr>rtype = CrcType, rcrc = c, rdata = []\<rparr>" and ?enc = "NewEncoder c 0 (BufferSize (w_opts w))"
  have "m (seal (Encoder_CRC ?enc) ?r) \<noteq> None"
    using storable_marshal [OF assms(3)] by (simp add: seal_def)
  from l2 l1(2) this obtain e3 s3 f3 r3 off
    where en: "Encoder_Encode m file_Write ?enc (s2, f) ?r = (e3, (s3, f3), r3, Inr off)"
      and l3: "faults s3 = []" "fd_open f3" by (rule wal_Encode_live)
  from wal_Flush_live [OF l3, of e3] obtain e4 s4 f4
    where fl: "Encoder_Flush file_Write e3 (s3, f3) = (e4, (s4, f4), None)"
      and l4: "faults s4 = []" "fd_open f4" by blast
  from file_Sync_live [OF l4] obtain s5 where "file_Sync s4 f4 = (s5, None)" "faults s5 = []" by blast
  then show ?thesis
    by (simp add: WAL_createSegment_def op pre en fl flip: pre_def)
qed

lemma syncLocked_live:
  assumes "faults s = []" and "fd_open (w_file w)"
  shows "\<exists>w' s'. WAL_syncLocked w s = (w', s', None) \<and> faults s' = [] \<and> fd_open (w_file w')"
proof -
  from wal_Flush_live [OF assms, of "w_enc w"] obtain e1 s1 f1
    where fl: "Encoder_Flush file_Write (w_enc w) (s, w_file w) = (e1, (s1, f1), None)"
      and l: "faults s1 = []" "fd_open f1" by blast
  from file_Sync_live [OF l] fl l(2) show ?thesis by (auto simp: WAL_syncLocked_def)
qed

lemma maybeRotate_live:
  assumes rep: "wal_repr m w s olds cur" and "faults s = []" and seq: "w_seq w + 1 < 2 ^ 64"
    and ctl: "storable m CrcType []" and nd: "\<not> fisdir (file_of s (seg_path (w_seq w + 1)))"
  shows "\<exists>w' s'. WAL_maybeRotate m w s = (w', s', None) \<and> faults s' = []"
proof (cases "SegmentSize (w_opts w) > 0 \<and> int (w_offset w) \<ge> SegmentSize (w_opts w)")
  case True
  have "fd_open (w_file w)" using rep by (simp add: wal_repr_def cur_ok_def)
  from syncLocked_live [OF assms(2) this] obtain w1 s1
    where sy: "WAL_syncLocked w s = (w1, s1, None)" and l1: "faults s1 = []" "fd_open (w_file w1)" by blast
  note k = syncLocked_step [OF rep sy]
  have "fd_name (w_file w) = seg_path (w_seq w)" using rep by (simp add: wal_repr_def cur_ok_def)
  have "same_dir (seg_path (w_seq w)) s s1"
  proof -
    obtain e1 sa f1 err where fl: "Encoder_Flush file_Write (w_enc w) (s, w_file w) = (e1, (sa, f1), err)"
      by (metis prod_cases3 surj_pair)
    have fs: "file_Sync sa f1 = (s1, None)"
      using sy by (auto simp: WAL_syncLocked_def fl Let_def split: option.splits prod.splits)
    have nm: "fd_name (w_file w) = seg_path (w_seq w)" using rep by (simp add: wal_repr_def cur_ok_def)
    show ?thesis
      using same_dir_trans [of _ s sa s1] ff.Encoder_Flush_frame [OF fl] file_Sync_frame(1) [OF fs] nm
      by (auto simp: file_frame_def)
  qed
  then have nd1: "\<not> fisdir (file_of s1 (seg_path (w_seq w + 1)))"
    using nd by (metis same_dir_def)
  let ?w = "w1\<lparr>w_file := (w_file w1)\<lparr>fd_open := False\<rparr>\<rparr>"
  have "WAL_closeFile w1 s1 = (?w, s1, None)" by (simp add: WAL_closeFile_def os_call_live l1)
  then show ?thesis
    using createSegment_live [OF l1(1) nd1 ctl, of ?w "Encoder_CRC (w_enc w1)"] True sy seq k(3)
    by (simp add: WAL_maybeRotate_def WAL_rotate_def)
next
  case False
  with assms(2) show ?thesis by (auto simp: WAL_maybeRotate_def)
qed

text \<open>
  The one way an append of a storable payload fails without a failing call: the chained CRC of
  the record happens to be zero.
\<close>

lemma Append_live:
  assumes rep: "wal_repr m w s olds cur" and lv: "faults s = []" and seq: "w_seq w + 1 < 2 ^ 64"
    and ctl: "storable m CrcType []" and st: "storable m DataType data"
    and nd: "\<not> fisdir (file_of s (seg_path (w_seq w + 1)))"
    and ap: "WAL_Append m w s data = (w', s', res)"
  shows "faults s' = [] \<and> ((\<exists>off. res = Inr off) \<or>
    res = Inl ErrNoCRC \<and> data \<noteq> [] \<and> crc32_Update (chain_end 0 cur) data = 0)"
proof -
  have op: "\<not> w_closed w" using rep by (simp add: wal_repr_def)
  from maybeRotate_live [OF rep lv seq ctl nd] obtain w1 s1
    where mr: "WAL_maybeRotate m w s = (w1, s1, None)" and l1: "faults s1 = []" by blast
  from maybeRotate_step [OF rep mr ctl seq] obtain olds1 cur1
    where r1: "wal_repr m w1 s1 olds1 cur1" and ce: "chain_end 0 cur1 = chain_end 0 cur" by blast
  then have f1: "fd_open (w_file w1)" and inv: "enc_inv (w_enc w1)"
    and crc: "Encoder_CRC (w_enc w1) = chain_end 0 cur"
    by (auto simp: wal_repr_def cur_ok_def)
  let ?r = "\<lparr>rtype = DataType, rcrc = 0, rdata = data\<rparr>"
  have "m (seal (Encoder_CRC (w_enc w1)) ?r) \<noteq> None"
    using storable_marshal [OF st] by (simp add: seal_def)
  from l1 f1 this obtain e2 s2 f2 r2 off
    where en: "Encoder_Encode m file_Write (w_enc w1) (s1, w_file w1) ?r = (e2, (s2, f2), r2, Inr off)"
      and l2: "faults s2 = []" by (rule wal_Encode_live)
  have "rcrc r2 = crc32_Update (chain_end 0 cur) data"
    using fw.Encode_ok(3) [OF inv en] crc by (simp add: seal_def)
  then show ?thesis
    using ap op l2 by (auto simp: WAL_Append_def mr en Let_def split: if_splits)
qed

lemma Sync_live:
  assumes "wal_repr m w s olds cur" and "faults s = []"
  shows "\<exists>w' s'. WAL_Sync w s = (w', s', None) \<and> faults s' = []"
  using syncLocked_live [OF assms(2), of w] assms(1)
  by (auto simp: WAL_Sync_def wal_repr_def cur_ok_def)

lemma zero_loop_live:
  "faults s = [] \<Longrightarrow> fd_open h \<Longrightarrow> \<exists>s' h'. zero_loop (s, h) r = ((s', h'), None) \<and> faults s' = []"
proof (induction r arbitrary: s h rule: less_induct)
  case (less r)
  show ?case
  proof (cases "r = 0")
    case False
    obtain s1 h1 n e where w: "file_Write (s, h) (replicate (min 4096 r) 0) = ((s1, h1), n, e)"
      by (metis prod_cases3 surj_pair)
    with fl.wr_live [OF _ w] less.prems have l: "faults s1 = []" "fd_open h1" "e = None" by auto
    have "r - min 4096 r < r" using False by simp
    from less.IH [OF this l(1,2)] False w l show ?thesis
      by (subst zero_loop.simps) (simp add: Let_def)
  qed (use less in \<open>simp add: zero_loop.simps\<close>)
qed

lemma Open_live:
  assumes lv: "faults s = []"
    and dir: "dir_segments s = map (\<lambda>q. (q, seg_path q)) (map fst olds @ [q])"
    and rd: "reads_as m u (fdata (file_of s (seg_path q))) rs"
  shows "\<exists>s' w. WAL_Open m u s opts = (s', Inr w) \<and> faults s' = []"
proof -
  have c: "os_call s = (s, None)" by (rule os_call_live [OF lv])
  obtain d qs e where d: "decode_all u (NewDecoder (fdata (file_of s (seg_path q)))) = (d, qs, e)"
    by (metis prod_cases3)
  have rc: "\<not> (e \<noteq> ErrIOwrap EOF \<and> e \<noteq> ErrIOwrap ErrUnexpectedEOF)"
    using rd d by (auto simp: reads_as_def stops_after_def recoverable_def)
  have "\<exists>s3 f3. zeroToEnd s \<lparr>fd_name = seg_path q, fd_pos = LastOffset d, fd_open = True\<rparr> = (s3, f3, None)
      \<and> faults s3 = []"
    using zero_loop_live [OF lv, of "\<lparr>fd_name = seg_path q, fd_pos = LastOffset d, fd_open = True\<rparr>"
        "length (fdata (file_of s (seg_path q))) - LastOffset d"] lv
    by (auto simp: zeroToEnd_def c Let_def)
  then obtain s3 f3 where z: "zeroToEnd s \<lparr>fd_name = seg_path q, fd_pos = LastOffset d, fd_open = True\<rparr>
      = (s3, f3, None)" "faults s3 = []" by blast
  have "\<exists>w'. WAL_openSegment u w s (q, seg_path q) = (w', s3, None)" for w
    using rc by (auto simp: WAL_openSegment_def c d z os_call_live Let_def)
  then obtain w' where os: "WAL_openSegment u
      \<lparr>w_opts = opts, w_file = \<lparr>fd_name = [], fd_pos = 0, fd_open = False\<rparr>, w_enc = NewEncoder 0 0 0,
        w_seq = 0, w_offset = 0, w_closed = False\<rparr> s (q, seg_path q) = (w', s3, None)" by blast
  have "dir_segments s \<noteq> []" "last (dir_segments s) = (q, seg_path q)" by (simp_all add: dir)
  then have "WAL_Open m u s opts = (s3, Inr w')"
    using os by (simp add: WAL_Open_def c WAL_listSegments_def)
  then show ?thesis using z(2) by blast
qed

lemma Open_empty_live:
  assumes "faults s = []" and "dir_segments s = []" and "\<not> fisdir (file_of s (seg_path 0))"
    and "storable m CrcType []"
  shows "\<exists>s' w. WAL_Open m u s opts = (s', Inr w) \<and> faults s' = []"
  using createSegment_live [OF assms(1,3,4), of "\<lparr>w_opts = opts, w_file = \<lparr>fd_name = [], fd_pos = 0, fd_open = False\<rparr>,
    w_enc = NewEncoder 0 0 0, w_seq = 0, w_offset = 0, w_closed = False\<rparr>" 0] assms(1,2)
  by (auto simp: WAL_Open_def os_call_live WAL_listSegments_def)

section \<open>Close and reopen\<close>

lemma reopen_step:
  assumes codec: "proto_codec m u" and rep: "wal_repr m w s olds cur"
    and cl: "WAL_Close w s = (w1, s1, None)" and op: "WAL_Open m u s1 opts = (s2, Inr w2)"
  shows "wal_repr m w2 s2 olds cur" and "w_opts w2 = opts"
    and "durable m w s olds cur n \<Longrightarrow> PreallocSize opts \<le> 0 \<Longrightarrow>
      durable m w2 s2 olds cur (length (log_of olds cur))"
proof -
  note c = Close_step [OF rep cl]
  have lt: "\<forall>x\<in>set olds. fst x < w_seq w" using rep by (simp add: wal_repr_def)
  have sg: "seg_ok m s1 (w_seq w, cur)" and olds: "\<forall>x\<in>set olds. seg_ok m s1 x \<and> fst x < w_seq w"
    and dir: "dir_segments s1 = map (\<lambda>q. (q, seg_path q)) (map fst olds @ [w_seq w])"
    using c(1) lt by (auto simp: dir_repr_def)
  from sg obtain z where q: "w_seq w < 2 ^ 64" and nd: "\<not> fisdir (file_of s1 (seg_path (w_seq w)))"
    and z: "fdata (file_of s1 (seg_path (w_seq w))) = frames m cur @ replicate z 0" and g: "good_log m cur"
    by (auto simp: seg_ok_def)
  have rd: "reads_as m u (fdata (file_of s1 (seg_path (w_seq w)))) cur"
    using reads_as_zeros [OF codec g] z by simp
  note o = Open_existing [OF op dir olds q nd rd]
  show r2: "wal_repr m w2 s2 olds cur" and "w_opts w2 = opts" by (rule o)+
  assume dur: "durable m w s olds cur n" and pre: "PreallocSize opts \<le> 0"
  obtain e1 sa f1 where fl: "Encoder_Flush file_Write (w_enc w) (s, w_file w) = (e1, (sa, f1), None)"
    and sy: "\<exists>sb. file_Sync sa f1 = (sb, None) \<and> file_of s1 = file_of sb"
    using cl rep
    by (auto simp: WAL_Close_def wal_repr_def WAL_closeFile_def Let_def
        split: option.splits prod.splits if_splits dest!: os_call_same(1))
  then obtain sb where sy: "file_Sync sa f1 = (sb, None)" "file_of s1 = file_of sb" by blast
  have sl: "WAL_syncLocked w s = (w\<lparr>w_enc := e1, w_file := f1\<rparr>, sb, None)"
    by (simp add: WAL_syncLocked_def fl sy)
  have db: "durable m (w\<lparr>w_enc := e1, w_file := f1\<rparr>) s1 olds cur (length (log_of olds cur))"
    using syncLocked_durable(1) [OF rep sl dur] durable_file_cong [OF sy(2)] by simp
  have k: "file_out (sb, f1) = frames m cur" "fd_name f1 = seg_path (w_seq w)"
    using syncLocked_step(1,2) [OF rep sl] by (auto simp: wal_repr_def cur_ok_def)
  have "fdata (file_of s1 (seg_path (w_seq w))) = frames m cur"
    using no_tail_out [of sb f1] db k sy(2) by (simp add: durable_def no_tail_def)
  with o(5) have nt: "no_tail (s2, w_file w2)" "file_of s2 = file_of s1" by auto
  show "durable m w2 s2 olds cur (length (log_of olds cur))"
    using durable_sync [OF r2 o(4)] nt pre o(2,3) c(3) db by (simp add: durable_def all_synced_def)
qed

section \<open>Crash\<close>

lemma frames_take_mono: "i \<le> j \<Longrightarrow> length (frames m (take i rs)) \<le> length (frames m (take j rs))"
  by (metis frames_simps(3) le_add1 length_append min.absorb1 take_take append_take_drop_id)

lemma payloads_take_mono: "i \<le> j \<Longrightarrow> length (payloads (take i rs)) \<le> length (payloads (take j rs))"
  by (metis payloads_simps(2) le_add1 length_append min.absorb1 take_take append_take_drop_id)

lemma payloads_take: "\<exists>k. payloads (take j rs) = take k (payloads rs)"
  by (metis append_take_drop_id append_eq_conv_conj payloads_simps(2))

lemma log_of_take: "\<exists>k. log_of olds (take j cur) = take k (log_of olds cur)"
proof -
  obtain k where "payloads (take j cur) = take k (payloads cur)" using payloads_take by blast
  then show ?thesis
    by (intro exI [of _ "length (concat (map (payloads \<circ> snd) olds)) + k"]) (simp add: log_of_def)
qed

lemma crash_reads:
  assumes codec: "proto_codec m u" and rep: "wal_repr m w s olds cur" and dur: "durable m w s olds cur n"
    and cr: "crash s s1"
  shows "\<exists>j. reads_as m u (fdata (file_of s1 (seg_path (w_seq w)))) (take j cur) \<and>
      n \<le> length (log_of olds (take j cur))"
    and "\<forall>x\<in>set olds. seg_ok m s1 x"
proof -
  have c: "cur_ok m w s cur" using rep by (simp add: wal_repr_def)
  then have g: "good_log m cur" and nm: "fd_name (w_file w) = seg_path (w_seq w)"
    and fo: "file_out (s, w_file w) @ enc_pending (w_enc w) = frames m cur" by (auto simp: cur_ok_def)
  obtain i where i: "fsynced (file_of s (seg_path (w_seq w))) = frames m (take i cur)"
    "length (frames m (take i cur)) \<le> fd_pos (w_file w)" "n \<le> length (log_of olds (take i cur))"
    and nt: "no_tail (s, w_file w)" using dur by (auto simp: durable_def)
  obtain k where k: "length (frames m (take i cur)) \<le> k"
    "fdata (file_of s1 (seg_path (w_seq w))) = take k (fdata (file_of s (seg_path (w_seq w))))"
    using cr i(1) unfolding crash_def by metis
  define k' where "k' = min k (fd_pos (w_file w))"
  have "file_out (s, w_file w) = take (fd_pos (w_file w)) (frames m cur)"
    unfolding fo [symmetric] by simp
  then have cut: "fdata (file_of s1 (seg_path (w_seq w))) = take k' (frames m cur)"
    using k(2) no_tail_out [OF nt] nm by (simp add: k'_def)
  have le: "k' \<le> length (frames m cur)"
    using arg_cong [OF fo, of length] by (simp add: k'_def)
  have ge: "length (frames m (take i cur)) \<le> k'" using k(1) i(2) by (simp add: k'_def)
  from decode_all_cut [OF codec _ _ le] g obtain j where j: "j \<le> length cur"
    "length (frames m (take j cur)) \<le> k'" "j < length cur \<longrightarrow> k' < length (frames m (take (Suc j) cur))"
    "stops_after m 0 (take j cur) (decode_all u (NewDecoder (take k' (frames m cur))))"
    by (auto simp: good_log_def)
  have gj: "good_log m (take j cur)" using g chain_ok_take by (auto simp: good_log_def dest: in_set_takeD)
  have ij: "i \<le> j \<or> j = length cur"
  proof (rule ccontr)
    assume "\<not> (i \<le> j \<or> j = length cur)"
    then have "Suc j \<le> i" "j < length cur" using j(1) by auto
    with j(3) ge frames_take_mono [of "Suc j" i m cur] show False by simp
  qed
  have n: "n \<le> length (log_of olds (take j cur))"
  proof (cases "i \<le> j")
    case True
    then show ?thesis using i(3) payloads_take_mono [OF True, of cur] by (simp add: log_of_def)
  next
    case False
    with ij have "take j cur = cur" "take i cur = cur" by auto
    then show ?thesis using i(3) by simp
  qed
  have "\<exists>tl. take k' (frames m cur) = frames m (take j cur) @ tl"
  proof -
    have f: "frames m cur = frames m (take j cur) @ frames m (drop j cur)"
      by (metis append_take_drop_id frames_simps(3))
    show ?thesis using j(2) by (subst f) simp
  qed
  with gj j(4) n show "\<exists>j. reads_as m u (fdata (file_of s1 (seg_path (w_seq w)))) (take j cur) \<and>
      n \<le> length (log_of olds (take j cur))"
    by (auto simp: reads_as_def cut)
  have "fdata (file_of s1 (seg_path (fst x))) = fdata (file_of s (seg_path (fst x)))" if "x \<in> set olds" for x
  proof -
    have "all_synced s (fst x)" using dur that by (simp add: durable_def)
    then show ?thesis using cr unfolding crash_def all_synced_def by (metis take_all)
  qed
  then show "\<forall>x\<in>set olds. seg_ok m s1 x"
    using rep cr by (auto simp: wal_repr_def seg_ok_def crash_def split: prod.splits)
qed

lemma crash_open:
  assumes codec: "proto_codec m u" and rep: "wal_repr m w s olds cur" and dur: "durable m w s olds cur n"
    and cr: "crash s s1" and op: "WAL_Open m u s1 opts = (s2, Inr w2)"
  shows "\<exists>rs k. wal_repr m w2 s2 olds rs \<and> log_of olds rs = take k (log_of olds cur) \<and>
    n \<le> length (log_of olds rs)"
proof -
  note r = crash_reads [OF codec rep dur cr]
  from r(1) obtain j where rd: "reads_as m u (fdata (file_of s1 (seg_path (w_seq w)))) (take j cur)"
    and n: "n \<le> length (log_of olds (take j cur))" by blast
  have dir: "dir_segments s1 = map (\<lambda>q. (q, seg_path q)) (map fst olds @ [w_seq w])"
    using rep cr by (simp add: wal_repr_def crash_def dir_segments_names)
  have "\<forall>x\<in>set olds. seg_ok m s1 x \<and> fst x < w_seq w" "w_seq w < 2 ^ 64"
    "\<not> fisdir (file_of s1 (seg_path (w_seq w)))"
    using r(2) rep cr by (auto simp: wal_repr_def cur_ok_def crash_def)
  from Open_existing(1) [OF op dir this rd] n log_of_take show ?thesis by metis
qed

lemma crash_open_live:
  assumes codec: "proto_codec m u" and rep: "wal_repr m w s olds cur" and dur: "durable m w s olds cur n"
    and cr: "crash s s1" and lv: "faults s1 = []"
  shows "\<exists>s2 w2. WAL_Open m u s1 opts = (s2, Inr w2) \<and> faults s2 = []"
proof -
  from crash_reads(1) [OF codec rep dur cr] obtain j
    where rd: "reads_as m u (fdata (file_of s1 (seg_path (w_seq w)))) (take j cur)" by blast
  have dir: "dir_segments s1 = map (\<lambda>q. (q, seg_path q)) (map fst olds @ [w_seq w])"
    using rep cr by (simp add: wal_repr_def crash_def dir_segments_names)
  from Open_live [OF lv dir rd] show ?thesis .
qed

section \<open>Runs\<close>

text \<open>
  The states a client reaches from a new log by calls that return without error, with the
  payloads appended so far and how many of them a successful \<^verbatim>\<open>Sync\<close> has covered.
\<close>

inductive wal_run ::
  "(walrec \<Rightarrow> bytes option) \<Rightarrow> (bytes \<Rightarrow> walrec option) \<Rightarrow> (snapshot \<Rightarrow> bytes option) \<Rightarrow> options
   \<Rightarrow> wal \<Rightarrow> os \<Rightarrow> bytes list \<Rightarrow> nat \<Rightarrow> bool"
  for m u msnap opts where
  run_open: "wal_run m u msnap opts w s' [] 0"
    if "files s = []" and "WAL_Open m u s opts = (s', Inr w)"
| run_append: "wal_run m u msnap opts w' s' (L @ [data]) n"
    if "wal_run m u msnap opts w s L n" and "WAL_Append m w s data = (w', s', Inr off)"
      and "storable m DataType data" and "w_seq w + 1 < 2 ^ 64"
| run_sync: "wal_run m u msnap opts w' s' L (length L)"
    if "wal_run m u msnap opts w s L n" and "WAL_Sync w s = (w', s', None)"
| run_snapshot: "wal_run m u msnap opts w' s' L (length L)"
    if "wal_run m u msnap opts w s L n" and "WAL_SaveSnapshot m msnap w s (Some sn) = (w', s', None)"
      and "msnap sn = Some b" and "storable m SnapshotType b" and "w_seq w + 1 < 2 ^ 64"
| run_read: "wal_run m u msnap opts w' s' L n"
    if "wal_run m u msnap opts w s L n" and "WAL_ReadAll u w s = (w', s', Inr ds)"
| run_reopen: "wal_run m u msnap opts w2 s2 L (length L)"
    if "wal_run m u msnap opts w s L n" and "WAL_Close w s = (w1, s1, None)"
      and "WAL_Open m u s1 opts = (s2, Inr w2)"

text \<open>The state after a run stands for the payloads appended, the synced ones durable.\<close>

lemma wal_run_repr:
  assumes "wal_run m u msnap opts w s L n" and codec: "proto_codec m u" and ctl: "storable m CrcType []"
  shows "\<exists>olds cur. wal_repr m w s olds cur \<and> log_of olds cur = L \<and>
    (PreallocSize opts \<le> 0 \<longrightarrow> durable m w s olds cur n)"
  using assms(1)
proof induction
  case (run_open s s' w)
  then have "dir_segments s = []" "\<not> fisdir (file_of s (seg_path 0))"
    by (simp_all add: dir_segments_def file_of_def map_filter_def)
  note k = Open_empty [OF run_open(2) this ctl]
  have "log_of [] [crc_record 0] = []" by (simp add: log_of_def crc_record_def CrcType_def DataType_def)
  with k show ?case by blast
next
  case (run_append w s L n data w' s' off)
  then show ?case using Append_step [OF _ run_append(2) ctl run_append(3,4)] by blast
next
  case (run_sync w s L n w' s')
  then show ?case using Sync_step [OF _ run_sync(2)] by blast
next
  case (run_snapshot w s L n sn w' s' b)
  then show ?case using SaveSnapshot_step [OF _ run_snapshot(2) ctl _ run_snapshot(5)]
    by (metis option.inject)
next
  case (run_read w s L n w' s' ds)
  then show ?case using ReadAll_step [OF codec _ run_read(2)] by blast
next
  case (run_reopen w s L n w1 s1 s2 w2)
  then show ?case using reopen_step [OF codec _ run_reopen(2,3)] by blast
qed

end
