(* ===== verification/SyncGroup.thy ===== *)
theory SyncGroup
  imports Wal_Recovery
begin

text \<open>
  \<^verbatim>\<open>pkg/wal/sync_group.go\<close>: leader-follower group commit, as a step relation on the lock's
  critical sections. A goroutine is a number with a program counter; its channel is a one-place
  buffer. The sync function is the closure that \<^verbatim>\<open>Open\<close> builds, one atomic step on the WAL
  because it holds \<^verbatim>\<open>w.mu\<close>; appends of other goroutines are interleaved freely. The
  invariant shows that no waiting caller is forgotten and that a caller who gets \<^verbatim>\<open>nil\<close> had
  a successful sync after its call, so everything appended before the call is durable.
\<close>

section \<open>State and steps\<close>

datatype sg_pc =
    Idle
  | Follower
  | Leading "nat list"
  | Notifying "nat list" "wal_error option"
  | Returned "wal_error option"

datatype wal_event =
    EvAppend bytes "wal_error + nat"
  | EvSync "wal_error option"

record syncGroup =
  sg_pending :: "nat list"
  sg_syncing :: bool
  sg_pc :: "nat \<Rightarrow> sg_pc"
  sg_chan :: "nat \<Rightarrow> wal_error option option"
  sg_wal :: wal
  sg_os :: os
  sg_events :: "wal_event list"
  sg_called :: "nat \<Rightarrow> nat"

definition newSyncGroup :: "wal \<Rightarrow> os \<Rightarrow> syncGroup" where
  "newSyncGroup w s =
     \<lparr>sg_pending = [], sg_syncing = False, sg_pc = (\<lambda>_. Idle), sg_chan = (\<lambda>_. None),
      sg_wal = w, sg_os = s, sg_events = [], sg_called = (\<lambda>_. 0)\<rparr>"

text \<open>
  The fields \<open>sg_events\<close> and \<open>sg_called\<close> record the history: the calls that reached the WAL,
  and how many there were when a goroutine called \<^verbatim>\<open>sync\<close>.
\<close>

definition sg_call :: "syncGroup \<Rightarrow> nat \<Rightarrow> syncGroup" where
  "sg_call g i =
     (let g1 = g\<lparr>sg_called := (sg_called g)(i := length (sg_events g))\<rparr>
      in if sg_syncing g
         then g1\<lparr>sg_pending := sg_pending g @ [i], sg_chan := (sg_chan g)(i := None),
                 sg_pc := (sg_pc g)(i := Follower)\<rparr>
         else g1\<lparr>sg_syncing := True, sg_pending := [],
                 sg_pc := (sg_pc g)(i := Leading (sg_pending g))\<rparr>)"

definition sg_round :: "syncGroup \<Rightarrow> nat \<Rightarrow> nat list \<Rightarrow> syncGroup" where
  "sg_round g i batch =
     (let (w, s, lastErr) = WAL_Sync (sg_wal g) (sg_os g)
      in g\<lparr>sg_wal := w, sg_os := s, sg_events := sg_events g @ [EvSync lastErr],
           sg_pc := (sg_pc g)(i := Notifying batch lastErr)\<rparr>)"

definition sg_notify :: "syncGroup \<Rightarrow> nat \<Rightarrow> nat \<Rightarrow> nat list \<Rightarrow> wal_error option \<Rightarrow> syncGroup" where
  "sg_notify g i j batch lastErr =
     g\<lparr>sg_chan := (sg_chan g)(j := Some lastErr), sg_pc := (sg_pc g)(i := Notifying batch lastErr)\<rparr>"

definition sg_finish :: "syncGroup \<Rightarrow> nat \<Rightarrow> wal_error option \<Rightarrow> syncGroup" where
  "sg_finish g i lastErr =
     (if sg_pending g = []
      then g\<lparr>sg_syncing := False, sg_pc := (sg_pc g)(i := Returned lastErr)\<rparr>
      else g\<lparr>sg_pending := [], sg_pc := (sg_pc g)(i := Leading (sg_pending g))\<rparr>)"

definition sg_receive :: "syncGroup \<Rightarrow> nat \<Rightarrow> wal_error option \<Rightarrow> syncGroup" where
  "sg_receive g i err = g\<lparr>sg_pc := (sg_pc g)(i := Returned err)\<rparr>"

definition sg_append :: "(walrec \<Rightarrow> bytes option) \<Rightarrow> syncGroup \<Rightarrow> bytes \<Rightarrow> syncGroup" where
  "sg_append m g data =
     (let (w, s, res) = WAL_Append m (sg_wal g) (sg_os g) data
      in g\<lparr>sg_wal := w, sg_os := s, sg_events := sg_events g @ [EvAppend data res]\<rparr>)"

inductive sg_step :: "(walrec \<Rightarrow> bytes option) \<Rightarrow> syncGroup \<Rightarrow> syncGroup \<Rightarrow> bool" for m where
  st_call: "sg_step m g (sg_call g i)" if "sg_pc g i = Idle"
| st_round: "sg_step m g (sg_round g i batch)" if "sg_pc g i = Leading batch"
| st_notify: "sg_step m g (sg_notify g i j batch err)" if "sg_pc g i = Notifying (j # batch) err"
| st_finish: "sg_step m g (sg_finish g i err)" if "sg_pc g i = Notifying [] err"
| st_receive: "sg_step m g (sg_receive g i err)" if "sg_pc g i = Follower" and "sg_chan g i = Some err"
| st_append: "sg_step m g (sg_append m g data)"

inductive sg_reach :: "(walrec \<Rightarrow> bytes option) \<Rightarrow> wal \<Rightarrow> os \<Rightarrow> syncGroup \<Rightarrow> bool" for m w s where
  reach_init: "sg_reach m w s (newSyncGroup w s)"
| reach_step: "sg_reach m w s g'" if "sg_reach m w s g" and "sg_step m g g'"

inductive_cases sg_stepE: "sg_step m g g'"

section \<open>Invariant\<close>

definition leads :: "sg_pc \<Rightarrow> bool" where
  "leads pc \<longleftrightarrow> (case pc of Leading _ \<Rightarrow> True | Notifying _ _ \<Rightarrow> True | _ \<Rightarrow> False)"

definition batch_of :: "sg_pc \<Rightarrow> nat list" where
  "batch_of pc = (case pc of Leading b \<Rightarrow> b | Notifying b _ \<Rightarrow> b | _ \<Rightarrow> [])"

definition answered :: "syncGroup \<Rightarrow> nat \<Rightarrow> wal_error option \<Rightarrow> bool" where
  \<comment> \<open>the result is that of a sync round that ran after the call\<close>
  "answered g j err \<longleftrightarrow>
     (\<exists>k < length (sg_events g). sg_called g j \<le> k \<and> sg_events g ! k = EvSync err)"

definition sg_waits :: "syncGroup \<Rightarrow> nat list \<Rightarrow> bool" where
  "sg_waits g js \<longleftrightarrow> (\<forall>j\<in>set js. sg_pc g j = Follower \<and> sg_chan g j = None)"

definition sg_leader :: "syncGroup \<Rightarrow> nat \<Rightarrow> bool" where
  "sg_leader g l \<longleftrightarrow>
     (\<forall>i. leads (sg_pc g i) = (i = l)) \<and> sg_waits g (batch_of (sg_pc g l) @ sg_pending g) \<and>
     distinct (batch_of (sg_pc g l) @ sg_pending g)"

definition sg_lead_ok :: "syncGroup \<Rightarrow> bool" where
  "sg_lead_ok g \<longleftrightarrow>
     (if sg_syncing g then \<exists>l. sg_leader g l else (\<forall>i. \<not> leads (sg_pc g i)) \<and> sg_pending g = [])"

definition sg_no_lost :: "syncGroup \<Rightarrow> bool" where
  "sg_no_lost g \<longleftrightarrow>
     (\<forall>j. sg_pc g j = Follower \<and> sg_chan g j = None \<longrightarrow>
        j \<in> set (sg_pending g) \<or> (\<exists>i. j \<in> set (batch_of (sg_pc g i))))"

definition sg_answers :: "syncGroup \<Rightarrow> bool" where
  "sg_answers g \<longleftrightarrow>
     (\<forall>j err. sg_pc g j = Returned err \<longrightarrow> answered g j err) \<and>
     (\<forall>j err. sg_pc g j = Follower \<and> sg_chan g j = Some err \<longrightarrow> answered g j err) \<and>
     (\<forall>i b err. sg_pc g i = Notifying b err \<longrightarrow> answered g i err \<and> (\<forall>j\<in>set b. answered g j err)) \<and>
     (\<forall>j. sg_called g j \<le> length (sg_events g))"

lemma answered_mono:
  "answered g j err \<Longrightarrow> sg_called g' j = sg_called g j \<Longrightarrow> sg_events g' = sg_events g @ es \<Longrightarrow> answered g' j err"
  by (auto simp: answered_def nth_append)

lemma answered_last: "sg_called g j \<le> length es \<Longrightarrow> sg_events g = es @ [EvSync err] \<Longrightarrow> answered g j err"
  by (auto simp: answered_def nth_append intro!: exI [of _ "length es"])

lemma leads_simps [simp]:
  "leads (Leading b)" "leads (Notifying b err)" "\<not> leads Idle" "\<not> leads Follower" "\<not> leads (Returned err)"
  "batch_of (Leading b) = b" "batch_of (Notifying b err) = b"
  "batch_of Idle = []" "batch_of Follower = []" "batch_of (Returned err) = []"
  by (simp_all add: leads_def batch_of_def)

lemma batch_leads: "j \<in> set (batch_of pc) \<Longrightarrow> leads pc"
  by (cases pc) auto

lemma lead_okD:
  assumes "sg_lead_ok g" and "leads (sg_pc g i)"
  shows "sg_syncing g" and "sg_waits g (batch_of (sg_pc g i) @ sg_pending g)"
    and "distinct (batch_of (sg_pc g i) @ sg_pending g)" and "leads (sg_pc g i') \<Longrightarrow> i' = i"
proof -
  show sy: "sg_syncing g" using assms by (auto simp: sg_lead_ok_def split: if_splits)
  with assms(1) obtain l where l: "sg_leader g l" by (auto simp: sg_lead_ok_def)
  with assms(2) have "i = l" by (simp add: sg_leader_def)
  with l show "sg_waits g (batch_of (sg_pc g i) @ sg_pending g)"
    "distinct (batch_of (sg_pc g i) @ sg_pending g)" "leads (sg_pc g i') \<Longrightarrow> i' = i"
    by (simp_all add: sg_leader_def)
qed

lemma lead_okI:
  assumes "leads (sg_pc g l)" and "\<And>i. leads (sg_pc g i) \<Longrightarrow> i = l" and "sg_syncing g"
    and "sg_waits g (batch_of (sg_pc g l) @ sg_pending g)" and "distinct (batch_of (sg_pc g l) @ sg_pending g)"
  shows "sg_lead_ok g"
proof -
  have "leads (sg_pc g i) = (i = l)" for i using assms(1,2) by blast
  with assms(3-5) show ?thesis by (auto simp: sg_lead_ok_def sg_leader_def)
qed

lemma lead_ok_idleI:
  "(\<And>i. \<not> leads (sg_pc g i)) \<Longrightarrow> \<not> sg_syncing g \<Longrightarrow> sg_pending g = [] \<Longrightarrow> sg_lead_ok g"
  by (simp add: sg_lead_ok_def)

lemma lead_callI:
  assumes inv: "sg_lead_ok g" and i: "sg_pc g i = Idle"
  shows "sg_lead_ok (sg_call g i)"
proof (cases "sg_syncing g")
  case True
  with inv obtain l where l: "leads (sg_pc g l)" by (auto simp: sg_lead_ok_def sg_leader_def)
  note d = lead_okD [OF inv l]
  have il: "i \<noteq> l" using l i by auto
  have fr: "i \<notin> set (batch_of (sg_pc g l) @ sg_pending g)" using d(2) i by (auto simp: sg_waits_def)
  show ?thesis
  proof (rule lead_okI [of _ l])
    show "sg_waits (sg_call g i) (batch_of (sg_pc (sg_call g i) l) @ sg_pending (sg_call g i))"
      using True il d(2) by (auto simp: sg_call_def Let_def sg_waits_def)
    show "distinct (batch_of (sg_pc (sg_call g i) l) @ sg_pending (sg_call g i))"
      using True il d(3) fr by (simp add: sg_call_def Let_def)
    show "leads (sg_pc (sg_call g i) i') \<Longrightarrow> i' = l" for i'
      using True d(4) by (simp add: sg_call_def Let_def split: if_splits)
  qed (use True l il in \<open>simp_all add: sg_call_def Let_def\<close>)
next
  case False
  then have nl: "\<not> leads (sg_pc g l)" for l using lead_okD(1) [OF inv] by blast
  have p: "sg_pending g = []" using inv False by (simp add: sg_lead_ok_def)
  show ?thesis
    by (rule lead_okI [of _ i])
      (use False nl p in \<open>auto simp: sg_call_def Let_def sg_waits_def split: if_splits\<close>)
qed

text \<open>A step of the leader that replaces its program counter and leaves the followers waiting.\<close>

lemma lead_moveI:
  assumes inv: "sg_lead_ok g" and l: "leads (sg_pc g i)"
    and "leads pc" and "sg_pc g' = (sg_pc g)(i := pc)" and "sg_syncing g'"
    and "distinct (batch_of pc @ sg_pending g')"
    and sub: "set (batch_of pc @ sg_pending g') \<subseteq> set (batch_of (sg_pc g i) @ sg_pending g)"
    and ch: "\<forall>j\<in>set (batch_of pc @ sg_pending g'). sg_chan g' j = sg_chan g j"
  shows "sg_lead_ok g'"
proof (rule lead_okI [of _ i])
  note d = lead_okD [OF inv l]
  have "sg_pc g j = Follower \<and> sg_chan g' j = None \<and> j \<noteq> i" if "j \<in> set (batch_of pc @ sg_pending g')" for j
  proof -
    have "sg_pc g j = Follower \<and> sg_chan g j = None"
      using d(2) sub that unfolding sg_waits_def by blast
    with ch that l show ?thesis by force
  qed
  then show "sg_waits g' (batch_of (sg_pc g' i) @ sg_pending g')"
    unfolding sg_waits_def assms(4) by simp
  show "leads (sg_pc g' i') \<Longrightarrow> i' = i" for i'
    using d(4) assms(4) by (simp split: if_splits)
qed (use assms in simp_all)

lemma sg_lead_ok_step:
  assumes "sg_step m g g'" and inv: "sg_lead_ok g"
  shows "sg_lead_ok g'"
  using assms(1)
proof cases
  case (st_call i)
  then show ?thesis using lead_callI [OF inv] by simp
next
  case (st_round i batch)
  have l: "leads (sg_pc g i)" using st_round by simp
  note d = lead_okD [OF inv l]
  show ?thesis
    unfolding st_round(1)
    by (intro lead_moveI [OF inv l, where pc = "Notifying batch (snd (snd (WAL_Sync (sg_wal g) (sg_os g))))"])
      (use st_round(2) d in \<open>auto simp: sg_round_def split: prod.splits\<close>)
next
  case (st_notify i j batch err)
  have l: "leads (sg_pc g i)" using st_notify by simp
  note d = lead_okD [OF inv l]
  show ?thesis
    unfolding st_notify(1)
    by (intro lead_moveI [OF inv l, where pc = "Notifying batch err"])
      (use st_notify(2) d in \<open>auto simp: sg_notify_def\<close>)
next
  case (st_finish i err)
  have l: "leads (sg_pc g i)" using st_finish by simp
  note d = lead_okD [OF inv l]
  show ?thesis
  proof (cases "sg_pending g = []")
    case True
    then show ?thesis
      unfolding st_finish(1)
      by (intro lead_ok_idleI) (use d(4) in \<open>auto simp: sg_finish_def\<close>)
  next
    case False
    show ?thesis
      unfolding st_finish(1)
      by (intro lead_moveI [OF inv l, where pc = "Leading (sg_pending g)"])
        (use st_finish(2) d False in \<open>auto simp: sg_finish_def\<close>)
  qed
next
  case (st_receive i err)
  have same: "leads (sg_pc g' l) = leads (sg_pc g l)" "batch_of (sg_pc g' l) = batch_of (sg_pc g l)"
    "sg_syncing g' = sg_syncing g" "sg_pending g' = sg_pending g" for l
    using st_receive by (simp_all add: sg_receive_def)
  moreover have "sg_waits g' js = sg_waits g js" for js
    using st_receive by (auto simp: sg_waits_def sg_receive_def)
  ultimately have "sg_leader g' l = sg_leader g l" for l by (simp add: sg_leader_def)
  then show ?thesis using inv same by (simp add: sg_lead_ok_def)
next
  case (st_append data)
  then have same: "sg_pc g' = sg_pc g" "sg_chan g' = sg_chan g" "sg_syncing g' = sg_syncing g"
    "sg_pending g' = sg_pending g"
    by (simp_all add: sg_append_def split: prod.splits)
  then have "sg_leader g' l = sg_leader g l" for l by (simp add: sg_leader_def sg_waits_def)
  then show ?thesis using inv same by (simp add: sg_lead_ok_def)
qed

lemma no_lostI:
  assumes nl: "sg_no_lost g"
    and keep: "\<And>j. j \<in> set (sg_pending g) \<Longrightarrow> sg_chan g' j = None \<Longrightarrow>
      j \<in> set (sg_pending g') \<or> (\<exists>i. j \<in> set (batch_of (sg_pc g' i)))"
    and keep2: "\<And>i j. j \<in> set (batch_of (sg_pc g i)) \<Longrightarrow> sg_chan g' j = None \<Longrightarrow>
      \<exists>i. j \<in> set (batch_of (sg_pc g' i))"
    and new: "\<And>j. sg_pc g' j = Follower \<Longrightarrow> sg_chan g' j = None \<Longrightarrow>
      sg_pc g j = Follower \<and> sg_chan g j = None \<or> j \<in> set (sg_pending g')"
  shows "sg_no_lost g'"
  unfolding sg_no_lost_def
proof (intro allI impI)
  fix j assume j: "sg_pc g' j = Follower \<and> sg_chan g' j = None"
  then have "sg_pc g j = Follower \<and> sg_chan g j = None \<or> j \<in> set (sg_pending g')" using new by simp
  then show "j \<in> set (sg_pending g') \<or> (\<exists>i. j \<in> set (batch_of (sg_pc g' i)))"
  proof
    assume "sg_pc g j = Follower \<and> sg_chan g j = None"
    with nl have "j \<in> set (sg_pending g) \<or> (\<exists>i. j \<in> set (batch_of (sg_pc g i)))"
      by (simp add: sg_no_lost_def)
    with keep keep2 j show ?thesis by blast
  qed simp
qed

lemma sg_no_lost_step:
  assumes "sg_step m g g'" and inv: "sg_lead_ok g" and nl: "sg_no_lost g"
  shows "sg_no_lost g'"
  using assms(1)
proof cases
  case (st_call i)
  have e: "\<exists>l. j \<in> set (batch_of (sg_pc g' l))" if "j \<in> set (batch_of (sg_pc g l))" for j l
    using that st_call by (intro exI [of _ l]) (auto simp: sg_call_def Let_def)
  show ?thesis
    by (rule no_lostI [OF nl _ e])
      (use st_call in \<open>auto simp: sg_call_def Let_def split: if_splits intro!: exI [of _ i]\<close>)
next
  case (st_round i batch)
  have e: "\<exists>l. j \<in> set (batch_of (sg_pc g' l))" if "j \<in> set (batch_of (sg_pc g l))" for j l
    using that st_round by (intro exI [of _ l]) (auto simp: sg_round_def split: prod.splits)
  show ?thesis
    by (rule no_lostI [OF nl _ e])
      (use st_round in \<open>auto simp: sg_round_def split: prod.splits if_splits\<close>)
next
  case (st_notify i k batch err)
  have e: "\<exists>l. j \<in> set (batch_of (sg_pc g' l))"
    if "j \<in> set (batch_of (sg_pc g l))" "sg_chan g' j = None" for j l
    using that st_notify by (intro exI [of _ l]) (auto simp: sg_notify_def split: if_splits)
  show ?thesis
    by (rule no_lostI [OF nl _ e])
      (use st_notify in \<open>auto simp: sg_notify_def split: if_splits\<close>)
next
  case (st_finish i err)
  have e: "\<exists>l. j \<in> set (batch_of (sg_pc g' l))" if "j \<in> set (batch_of (sg_pc g l))" for j l
    using that st_finish by (intro exI [of _ l]) (auto simp: sg_finish_def split: if_splits)
  show ?thesis
    by (rule no_lostI [OF nl _ e])
      (use st_finish in \<open>auto simp: sg_finish_def split: if_splits intro!: exI [of _ i]\<close>)
next
  case (st_receive i err)
  have e: "\<exists>l. j \<in> set (batch_of (sg_pc g' l))" if "j \<in> set (batch_of (sg_pc g l))" for j l
    using that st_receive by (intro exI [of _ l]) (auto simp: sg_receive_def)
  show ?thesis
    by (rule no_lostI [OF nl _ e]) (use st_receive in \<open>auto simp: sg_receive_def split: if_splits\<close>)
next
  case (st_append data)
  then show ?thesis using nl by (auto simp: sg_append_def sg_no_lost_def split: prod.splits)
qed

lemma sg_answers_step:
  assumes "sg_step m g g'" and inv: "sg_lead_ok g" and an: "sg_answers g"
  shows "sg_answers g'"
  using assms(1)
proof cases
  case (st_call i)
  have waits: "i \<notin> set b" if "sg_pc g l = Notifying b err" for l b err
    using lead_okD(2) [OF inv, of l] st_call(2) that by (auto simp: sg_waits_def)
  have "answered (sg_call g i) j err = answered g j err" if "j \<noteq> i" for j err
    using that by (simp add: answered_def sg_call_def Let_def)
  with waits an st_call show ?thesis
    by (auto simp: sg_answers_def sg_call_def Let_def split: if_splits) (metis leads_simps(7))+
next
  case (st_round i batch)
  obtain w s err where r: "WAL_Sync (sg_wal g) (sg_os g) = (w, s, err)" by (metis prod_cases3)
  have g': "sg_events g' = sg_events g @ [EvSync err]" "sg_called g' = sg_called g" "sg_chan g' = sg_chan g"
    "sg_pc g' = (sg_pc g)(i := Notifying batch err)"
    using st_round(1) r by (simp_all add: sg_round_def)
  have m: "answered g j e \<Longrightarrow> answered g' j e" for j e using answered_mono g' by metis
  have "answered g' j err" for j using answered_last [OF _ g'(1)] an g'(2) by (simp add: sg_answers_def)
  with m an g' show ?thesis by (auto simp: sg_answers_def le_SucI)
next
  case (st_append data)
  obtain w s res where r: "WAL_Append m (sg_wal g) (sg_os g) data = (w, s, res)" by (metis prod_cases3)
  have g': "sg_events g' = sg_events g @ [EvAppend data res]" "sg_called g' = sg_called g"
    "sg_chan g' = sg_chan g" "sg_pc g' = sg_pc g"
    using st_append r by (simp_all add: sg_append_def)
  have m: "answered g j e \<Longrightarrow> answered g' j e" for j e using answered_mono g' by metis
  with an g' show ?thesis by (auto simp: sg_answers_def le_SucI)
next
  case (st_notify i j batch err)
  then show ?thesis
    using an by (auto simp: sg_answers_def answered_def sg_notify_def)
next
  case (st_finish i err)
  then show ?thesis
    using an by (auto simp: sg_answers_def answered_def sg_finish_def)
next
  case (st_receive i err)
  then show ?thesis
    using an by (auto simp: sg_answers_def answered_def sg_receive_def)
qed

lemma sg_inv_reach:
  assumes "sg_reach m w s g"
  shows "sg_lead_ok g \<and> sg_no_lost g \<and> sg_answers g"
  using assms
proof induction
  case reach_init
  show ?case by (simp add: newSyncGroup_def sg_lead_ok_def sg_no_lost_def sg_answers_def sg_waits_def)
next
  case (reach_step g g')
  then show ?case using sg_lead_ok_step sg_no_lost_step sg_answers_step by blast
qed

section \<open>Group commit over the log\<close>

definition ev_ok :: "(walrec \<Rightarrow> bytes option) \<Rightarrow> wal_event \<Rightarrow> bool" where
  "ev_ok m e = (case e of EvAppend data res \<Rightarrow> \<not> isl res \<and> storable m DataType data | EvSync r \<Rightarrow> r = None)"

fun appended :: "wal_event list \<Rightarrow> bytes list" where
  "appended [] = []"
| "appended (EvAppend data (Inr _) # es) = data # appended es"
| "appended (_ # es) = appended es"

lemma appended_append [simp]: "appended (es @ fs) = appended es @ appended fs"
  by (induction es rule: appended.induct) auto

lemma appended_take_le: "length (appended (take k es)) \<le> length (appended es)"
  by (metis appended_append append_take_drop_id le_add1 length_append)

lemma createSegment_seq: "WAL_createSegment m w s q c = (w', s', err) \<Longrightarrow> w_seq w' = w_seq w \<or> w_seq w' = q"
  by (auto simp: WAL_createSegment_def Let_def split: prod.splits sum.splits option.splits)

lemma syncLocked_seq: "WAL_syncLocked w s = (w', s', err) \<Longrightarrow> w_seq w' = w_seq w"
  by (auto simp: WAL_syncLocked_def Let_def split: prod.splits option.splits)

lemma rotate_seq: "WAL_rotate m w s = (w', s', err) \<Longrightarrow> w_seq w' \<le> w_seq w + 1"
  by (auto simp: WAL_rotate_def WAL_closeFile_def Let_def mod_less_eq_dividend
      split: prod.splits option.splits if_splits dest!: createSegment_seq syncLocked_seq)

lemma Append_seq: "WAL_Append m w s data = (w', s', res) \<Longrightarrow> w_seq w' \<le> w_seq w + 1"
  by (auto simp: WAL_Append_def WAL_maybeRotate_def Let_def
      split: prod.splits option.splits sum.splits if_splits dest!: rotate_seq)

lemma Sync_seq: "WAL_Sync w s = (w', s', err) \<Longrightarrow> w_seq w' = w_seq w"
  by (auto simp: WAL_Sync_def split: if_splits dest: syncLocked_seq)

lemma sg_events_step:
  assumes "sg_step m g g'"
  obtains "sg_events g' = sg_events g" "sg_wal g' = sg_wal g" "sg_os g' = sg_os g"
  | r where "sg_events g' = sg_events g @ [EvSync r]"
      "WAL_Sync (sg_wal g) (sg_os g) = (sg_wal g', sg_os g', r)"
  | data res where "sg_events g' = sg_events g @ [EvAppend data res]"
      "WAL_Append m (sg_wal g) (sg_os g) data = (sg_wal g', sg_os g', res)"
  using assms
proof cases
  case (st_round i batch)
  obtain w s r where "WAL_Sync (sg_wal g) (sg_os g) = (w, s, r)" by (metis prod_cases3)
  then show thesis using st_round(1) by (intro that(2) [of r]) (simp_all add: sg_round_def)
next
  case (st_append data)
  obtain w s r where "WAL_Append m (sg_wal g) (sg_os g) data = (w, s, r)" by (metis prod_cases3)
  then show thesis using st_append by (intro that(3) [of data r]) (simp_all add: sg_append_def)
qed (simp_all add: that(1) sg_call_def sg_notify_def sg_finish_def sg_receive_def Let_def)

lemma sg_seq:
  assumes "sg_reach m w s g"
  shows "w_seq (sg_wal g) \<le> w_seq w + length (sg_events g)"
  using assms
proof induction
  case reach_init
  show ?case by (simp add: newSyncGroup_def)
next
  case (reach_step g g')
  from reach_step.hyps(2) show ?case
    by (cases rule: sg_events_step)
      (use reach_step.IH in \<open>auto dest!: Append_seq Sync_seq simp: le_SucI\<close>)
qed

text \<open>
  While every call on the WAL succeeds, the group commit is a run of the log, and a sync round
  covers what was appended before it.
\<close>

lemma sg_run:
  assumes "sg_reach m w s g" and run: "wal_run m u msnap opts w s L n"
    and "\<forall>e\<in>set (sg_events g). ev_ok m e" and "w_seq w + length (sg_events g) + 1 < 2 ^ 64"
  shows "\<exists>n'. wal_run m u msnap opts (sg_wal g) (sg_os g) (L @ appended (sg_events g)) n' \<and>
    (\<forall>k < length (sg_events g). sg_events g ! k = EvSync None \<longrightarrow>
       length (L @ appended (take k (sg_events g))) \<le> n')"
  using assms(1,3,4)
proof induction
  case reach_init
  show ?case using run by (auto simp: newSyncGroup_def)
next
  case (reach_step g g')
  from reach_step.hyps(2) show ?case
  proof (cases rule: sg_events_step)
    case 1
    with reach_step show ?thesis by simp
  next
    case (2 r)
    with reach_step.prems have r: "r = None" by (auto simp: ev_ok_def)
    from 2 reach_step obtain n' where
      "wal_run m u msnap opts (sg_wal g) (sg_os g) (L @ appended (sg_events g)) n'" by auto
    from run_sync [OF this 2(2) [unfolded r]]
    have "wal_run m u msnap opts (sg_wal g') (sg_os g') (L @ appended (sg_events g'))
        (length (L @ appended (sg_events g')))" by (simp add: 2(1))
    then show ?thesis using appended_take_le [of _ "sg_events g'"] by (intro exI conjI) auto
  next
    case (3 data res)
    from 3 reach_step obtain n' where
      n': "wal_run m u msnap opts (sg_wal g) (sg_os g) (L @ appended (sg_events g)) n'"
      "\<forall>k < length (sg_events g). sg_events g ! k = EvSync None \<longrightarrow>
         length (L @ appended (take k (sg_events g))) \<le> n'" by auto
    obtain off where res: "res = Inr off" and st: "storable m DataType data"
      using 3(1) reach_step.prems(1) by (cases res) (auto simp: ev_ok_def)
    have "w_seq (sg_wal g) + 1 < 2 ^ 64"
      using sg_seq [OF reach_step.hyps(1)] reach_step.prems(2) 3(1) by simp
    from run_append [OF n'(1) 3(2) [unfolded res] st this]
    have "wal_run m u msnap opts (sg_wal g') (sg_os g') (L @ appended (sg_events g')) n'"
      by (simp add: 3(1) res)
    moreover have "\<forall>k < length (sg_events g'). sg_events g' ! k = EvSync None \<longrightarrow>
        length (L @ appended (take k (sg_events g'))) \<le> n'"
      using n'(2) by (auto simp: 3(1) nth_append less_Suc_eq)
    ultimately show ?thesis by blast
  qed
qed

end
