(* ===== verification/Schema.thy ===== *)
theory Schema
  imports Wal
begin

text \<open>
  \<^verbatim>\<open>pkg/schema/schema.go\<close> and \<^verbatim>\<open>pkg/schema/walentry.go\<close>: the schema of a resource type,
  its validation, its protobuf form and the entries of the schema WAL. Protobuf marshalling is
  an argument; what the code relies on is the named hypothesis \<open>entry_codec\<close>. The lemmas show
  what \<^verbatim>\<open>Validate\<close> accepts and that the conversions lose nothing.
\<close>

section \<open>Schemas\<close>

record schema =
  s_Type :: string
  s_PrimaryKey :: string
  s_SecondaryIndexes :: "string list"

record SchemaDefinition =
  sd_type :: string
  sd_primary_key :: string
  sd_secondary_indexes :: "string list"

datatype invalid_reason =
    TypeRequired
  | PrimaryKeyRequired
  | PrimaryKeyWildcard
  | EmptyIndex
  | IndexIsPrimaryKey
  | WildcardNotAtEnd
  | DuplicateIndex

datatype schema_error =
    ErrTypeNotFound
  | ErrTypeExists
  | ErrIndexExists
  | ErrIndexNotFound
  | ErrInvalidSchema invalid_reason
  | ErrRegistryClosed
  | ErrSchemaWal wal_error
  | ErrEntryMarshal
  | ErrEntryUnmarshal nat
  | ErrNilSchema nat
  | ErrUnknownOperation int nat

definition FromProto :: "SchemaDefinition option \<Rightarrow> schema option" where
  "FromProto sd =
     (case sd of
        None \<Rightarrow> None
      | Some d \<Rightarrow> Some \<lparr>s_Type = sd_type d, s_PrimaryKey = sd_primary_key d,
                        s_SecondaryIndexes = sd_secondary_indexes d\<rparr>)"

definition ToProto :: "schema option \<Rightarrow> SchemaDefinition option" where
  "ToProto s =
     (case s of
        None \<Rightarrow> None
      | Some d \<Rightarrow> Some \<lparr>sd_type = s_Type d, sd_primary_key = s_PrimaryKey d,
                        sd_secondary_indexes = s_SecondaryIndexes d\<rparr>)"

text \<open>\<^verbatim>\<open>strings.Contains\<close>.\<close>

fun Contains :: "'a list \<Rightarrow> 'a list \<Rightarrow> bool" where
  "Contains [] p = HasPrefix [] p"
| "Contains (c # s) p = (HasPrefix (c # s) p \<or> Contains s p)"

fun validate_indexes :: "string \<Rightarrow> string list \<Rightarrow> string list \<Rightarrow> schema_error option" where
  "validate_indexes pk seen [] = None"
| "validate_indexes pk seen (idx # rest) =
     (if idx = [] then Some (ErrInvalidSchema EmptyIndex)
      else if idx = pk then Some (ErrInvalidSchema IndexIsPrimaryKey)
      else if Contains idx ''.*'' \<and> \<not> HasSuffix idx ''.*'' then Some (ErrInvalidSchema WildcardNotAtEnd)
      else if idx \<in> set seen then Some (ErrInvalidSchema DuplicateIndex)
      else validate_indexes pk (idx # seen) rest)"

definition Schema_Validate :: "schema \<Rightarrow> schema_error option" where
  "Schema_Validate s =
     (if s_Type s = [] then Some (ErrInvalidSchema TypeRequired)
      else if s_PrimaryKey s = [] then Some (ErrInvalidSchema PrimaryKeyRequired)
      else if HasSuffix (s_PrimaryKey s) ''.*'' then Some (ErrInvalidSchema PrimaryKeyWildcard)
      else validate_indexes (s_PrimaryKey s) [] (s_SecondaryIndexes s))"

fun has_index :: "string list \<Rightarrow> string \<Rightarrow> bool" where
  "has_index [] indexPath = False"
| "has_index (idx # rest) indexPath = (if idx = indexPath then True else has_index rest indexPath)"

definition HasIndex :: "schema \<Rightarrow> string \<Rightarrow> bool" where
  "HasIndex s indexPath = has_index (s_SecondaryIndexes s) indexPath"

section \<open>WAL entries\<close>

record SchemaWALEntry =
  en_operation :: int
  en_schema :: "SchemaDefinition option"
  en_type :: string
  en_index_path :: string

definition OPERATION_REGISTER :: int where
  "OPERATION_REGISTER = 1"

definition OPERATION_ADD_INDEX :: int where
  "OPERATION_ADD_INDEX = 2"

definition OPERATION_REMOVE_INDEX :: int where
  "OPERATION_REMOVE_INDEX = 3"

definition register_entry :: "schema \<Rightarrow> SchemaWALEntry" where
  "register_entry s =
     \<lparr>en_operation = OPERATION_REGISTER, en_schema = ToProto (Some s), en_type = [], en_index_path = []\<rparr>"

definition add_index_entry :: "string \<Rightarrow> string \<Rightarrow> SchemaWALEntry" where
  "add_index_entry typeName indexPath =
     \<lparr>en_operation = OPERATION_ADD_INDEX, en_schema = None, en_type = typeName, en_index_path = indexPath\<rparr>"

definition remove_index_entry :: "string \<Rightarrow> string \<Rightarrow> SchemaWALEntry" where
  "remove_index_entry typeName indexPath =
     \<lparr>en_operation = OPERATION_REMOVE_INDEX, en_schema = None, en_type = typeName, en_index_path = indexPath\<rparr>"

definition marshalRegister :: "(SchemaWALEntry \<Rightarrow> bytes option) \<Rightarrow> schema \<Rightarrow> bytes option" where
  "marshalRegister marshal s = marshal (register_entry s)"

definition marshalAddIndex :: "(SchemaWALEntry \<Rightarrow> bytes option) \<Rightarrow> string \<Rightarrow> string \<Rightarrow> bytes option" where
  "marshalAddIndex marshal typeName indexPath = marshal (add_index_entry typeName indexPath)"

definition marshalRemoveIndex :: "(SchemaWALEntry \<Rightarrow> bytes option) \<Rightarrow> string \<Rightarrow> string \<Rightarrow> bytes option" where
  "marshalRemoveIndex marshal typeName indexPath = marshal (remove_index_entry typeName indexPath)"

definition unmarshalEntry :: "(bytes \<Rightarrow> SchemaWALEntry option) \<Rightarrow> bytes \<Rightarrow> SchemaWALEntry option" where
  "unmarshalEntry unmarshal data = unmarshal data"

definition entry_codec :: "(SchemaWALEntry \<Rightarrow> bytes option) \<Rightarrow> (bytes \<Rightarrow> SchemaWALEntry option) \<Rightarrow> bool" where
  \<comment> \<open>unmarshalling inverts marshalling\<close>
  "entry_codec marshal unmarshal \<longleftrightarrow> (\<forall>e b. marshal e = Some b \<longrightarrow> unmarshal b = Some e)"

section \<open>Conversions and validation\<close>

lemma FromProto_ToProto [simp]: "FromProto (ToProto s) = s"
  by (cases s) (simp_all add: FromProto_def ToProto_def)

lemma HasIndex_set [simp]: "HasIndex s i \<longleftrightarrow> i \<in> set (s_SecondaryIndexes s)"
proof -
  have "has_index is i \<longleftrightarrow> i \<in> set is" for "is" by (induction "is") auto
  then show ?thesis by (simp add: HasIndex_def)
qed

lemma Contains_iff: "Contains s p \<longleftrightarrow> (\<exists>u v. s = u @ p @ v)"
proof (induction s)
  case Nil
  show ?case by (auto simp: HasPrefix_def)
next
  case (Cons c s)
  have pre: "HasPrefix (c # s) p \<longleftrightarrow> (\<exists>v. c # s = p @ v)"
    unfolding HasPrefix_def by (metis append_eq_conv_conj append_take_drop_id)
  show ?case
  proof
    assume "Contains (c # s) p"
    then have "(\<exists>v. c # s = p @ v) \<or> (\<exists>u v. s = u @ p @ v)" using pre Cons.IH by auto
    then show "\<exists>u v. c # s = u @ p @ v" by (metis append_Cons append_Nil)
  next
    assume "\<exists>u v. c # s = u @ p @ v"
    then obtain u v where "c # s = u @ p @ v" by blast
    then have "(\<exists>v. c # s = p @ v) \<or> (\<exists>u v. s = u @ p @ v)" by (cases u) auto
    then show "Contains (c # s) p" using pre Cons.IH by auto
  qed
qed

text \<open>The rules in the comment of \<^verbatim>\<open>Validate\<close>.\<close>

definition index_ok :: "string \<Rightarrow> string \<Rightarrow> bool" where
  "index_ok pk idx \<longleftrightarrow> idx \<noteq> [] \<and> idx \<noteq> pk"

definition wildcard_ok :: "string \<Rightarrow> bool" where
  "wildcard_ok idx \<longleftrightarrow> (Contains idx ''.*'' \<longrightarrow> HasSuffix idx ''.*'')"

definition schema_ok :: "schema \<Rightarrow> bool" where
  "schema_ok s \<longleftrightarrow> s_Type s \<noteq> [] \<and> s_PrimaryKey s \<noteq> [] \<and> \<not> HasSuffix (s_PrimaryKey s) ''.*'' \<and>
     (\<forall>idx\<in>set (s_SecondaryIndexes s). index_ok (s_PrimaryKey s) idx) \<and> distinct (s_SecondaryIndexes s)"

lemma validate_indexes_None:
  "validate_indexes pk seen is = None \<longleftrightarrow>
     (\<forall>idx\<in>set is. index_ok pk idx \<and> wildcard_ok idx) \<and> distinct is \<and> set is \<inter> set seen = {}"
  by (induction pk seen "is" rule: validate_indexes.induct) (auto simp: index_ok_def wildcard_ok_def)

lemma validate_indexes_wildcard:
  "\<forall>idx\<in>set is. index_ok pk idx \<Longrightarrow> distinct is \<Longrightarrow> set is \<inter> set seen = {} \<Longrightarrow>
    validate_indexes pk seen is \<in> {None, Some (ErrInvalidSchema WildcardNotAtEnd)}"
  by (induction pk seen "is" rule: validate_indexes.induct) (auto simp: index_ok_def)

lemma schema_ok_Validate: "schema_ok s \<Longrightarrow> Schema_Validate s \<in> {None, Some (ErrInvalidSchema WildcardNotAtEnd)}"
  using validate_indexes_wildcard [of "s_SecondaryIndexes s" "s_PrimaryKey s" "[]"] by (simp add: schema_ok_def Schema_Validate_def)

lemma Validate_None:
  "Schema_Validate s = None \<longleftrightarrow> schema_ok s \<and> (\<forall>idx\<in>set (s_SecondaryIndexes s). wildcard_ok idx)"
  by (auto simp: Schema_Validate_def schema_ok_def validate_indexes_None)

end
