(* ===== verification/Registry.thy ===== *)
theory Registry
  imports Schema Wal_Recovery
begin

text \<open>
  \<^verbatim>\<open>pkg/schema/registry.go\<close>: the registry of schemas, every change of which is appended to
  a WAL and synced before the map in memory changes. The operations call the WAL through the
  functions of \<open>wal_api\<close>; the locale \<open>wal_log\<close> states what the registry needs of them, and
  is interpreted on the WAL model. The map of types is an association list, and
  \<^verbatim>\<open>ListTypes\<close> gives its keys in that order (Go leaves the order open).
\<close>

section \<open>The interface of the log\<close>

record 's wal_api =
  api_Append :: "'s \<Rightarrow> bytes \<Rightarrow> 's \<times> (wal_error + nat)"
  api_Sync :: "'s \<Rightarrow> 's \<times> wal_error option"
  api_ReadAll :: "'s \<Rightarrow> 's \<times> (wal_error + bytes list)"
  api_Close :: "'s \<Rightarrow> 's \<times> wal_error option"

section \<open>State and operations\<close>

record 's walRegistry =
  r_types :: "(string \<times> schema) list"
  r_w :: 's
  r_closed :: bool

definition applyRegister :: "(string \<times> schema) list \<Rightarrow> schema \<Rightarrow> (string \<times> schema) list" where
  "applyRegister types s =
     alist_put (s_Type s)
       \<lparr>s_Type = s_Type s, s_PrimaryKey = s_PrimaryKey s, s_SecondaryIndexes = s_SecondaryIndexes s\<rparr> types"

definition applyAddIndex :: "(string \<times> schema) list \<Rightarrow> string \<Rightarrow> string \<Rightarrow> (string \<times> schema) list" where
  "applyAddIndex types typeName indexPath =
     (case map_of types typeName of
        None \<Rightarrow> types
      | Some s \<Rightarrow>
          if \<not> HasIndex s indexPath
          then alist_put typeName (s\<lparr>s_SecondaryIndexes := s_SecondaryIndexes s @ [indexPath]\<rparr>) types
          else types)"

definition applyRemoveIndex :: "(string \<times> schema) list \<Rightarrow> string \<Rightarrow> string \<Rightarrow> (string \<times> schema) list" where
  "applyRemoveIndex types typeName indexPath =
     (case map_of types typeName of
        None \<Rightarrow> types
      | Some s \<Rightarrow>
          alist_put typeName
            (s\<lparr>s_SecondaryIndexes := filter (\<lambda>idx. idx \<noteq> indexPath) (s_SecondaryIndexes s)\<rparr>) types)"

text \<open>The append-then-sync sequence shared by the three mutations.\<close>

definition reg_persist :: "'s wal_api \<Rightarrow> 's walRegistry \<Rightarrow> bytes \<Rightarrow> 's walRegistry \<times> schema_error option" where
  "reg_persist api r data =
     (case api_Append api (r_w r) data of
        (w1, Inl e) \<Rightarrow> (r\<lparr>r_w := w1\<rparr>, Some (ErrSchemaWal e))
      | (w1, Inr _) \<Rightarrow>
          (case api_Sync api w1 of
             (w2, Some e) \<Rightarrow> (r\<lparr>r_w := w2\<rparr>, Some (ErrSchemaWal e))
           | (w2, None) \<Rightarrow> (r\<lparr>r_w := w2\<rparr>, None)))"

definition Registry_Register ::
  "'s wal_api \<Rightarrow> (SchemaWALEntry \<Rightarrow> bytes option) \<Rightarrow> 's walRegistry \<Rightarrow> schema
   \<Rightarrow> 's walRegistry \<times> schema_error option" where
  "Registry_Register api em r s =
     (case Schema_Validate s of
        Some e \<Rightarrow> (r, Some e)
      | None \<Rightarrow>
          if r_closed r then (r, Some ErrRegistryClosed)
          else if map_of (r_types r) (s_Type s) \<noteq> None then (r, Some ErrTypeExists)
          else case marshalRegister em s of
                 None \<Rightarrow> (r, Some ErrEntryMarshal)
               | Some data \<Rightarrow>
                   (case reg_persist api r data of
                      (r1, Some e) \<Rightarrow> (r1, Some e)
                    | (r1, None) \<Rightarrow> (r1\<lparr>r_types := applyRegister (r_types r1) s\<rparr>, None)))"

definition Registry_AddIndex ::
  "'s wal_api \<Rightarrow> (SchemaWALEntry \<Rightarrow> bytes option) \<Rightarrow> 's walRegistry \<Rightarrow> string \<Rightarrow> string
   \<Rightarrow> 's walRegistry \<times> schema_error option" where
  "Registry_AddIndex api em r typeName indexPath =
     (if indexPath = [] then (r, Some (ErrInvalidSchema EmptyIndex))
      else if r_closed r then (r, Some ErrRegistryClosed)
      else case map_of (r_types r) typeName of
             None \<Rightarrow> (r, Some ErrTypeNotFound)
           | Some s \<Rightarrow>
               if HasIndex s indexPath then (r, Some ErrIndexExists)
               else if indexPath = s_PrimaryKey s then (r, Some (ErrInvalidSchema IndexIsPrimaryKey))
               else case marshalAddIndex em typeName indexPath of
                      None \<Rightarrow> (r, Some ErrEntryMarshal)
                    | Some data \<Rightarrow>
                        (case reg_persist api r data of
                           (r1, Some e) \<Rightarrow> (r1, Some e)
                         | (r1, None) \<Rightarrow>
                             (r1\<lparr>r_types := applyAddIndex (r_types r1) typeName indexPath\<rparr>, None)))"

definition Registry_RemoveIndex ::
  "'s wal_api \<Rightarrow> (SchemaWALEntry \<Rightarrow> bytes option) \<Rightarrow> 's walRegistry \<Rightarrow> string \<Rightarrow> string
   \<Rightarrow> 's walRegistry \<times> schema_error option" where
  "Registry_RemoveIndex api em r typeName indexPath =
     (if r_closed r then (r, Some ErrRegistryClosed)
      else case map_of (r_types r) typeName of
             None \<Rightarrow> (r, Some ErrTypeNotFound)
           | Some s \<Rightarrow>
               if \<not> HasIndex s indexPath then (r, Some ErrIndexNotFound)
               else case marshalRemoveIndex em typeName indexPath of
                      None \<Rightarrow> (r, Some ErrEntryMarshal)
                    | Some data \<Rightarrow>
                        (case reg_persist api r data of
                           (r1, Some e) \<Rightarrow> (r1, Some e)
                         | (r1, None) \<Rightarrow>
                             (r1\<lparr>r_types := applyRemoveIndex (r_types r1) typeName indexPath\<rparr>, None)))"

definition Registry_Get :: "'s walRegistry \<Rightarrow> string \<Rightarrow> schema_error + schema" where
  "Registry_Get r typeName =
     (if r_closed r then Inl ErrRegistryClosed
      else case map_of (r_types r) typeName of None \<Rightarrow> Inl ErrTypeNotFound | Some s \<Rightarrow> Inr s)"

definition Registry_ListTypes :: "'s walRegistry \<Rightarrow> string list" where
  "Registry_ListTypes r = map fst (r_types r)"

definition Registry_Close :: "'s wal_api \<Rightarrow> 's walRegistry \<Rightarrow> 's walRegistry \<times> wal_error option" where
  "Registry_Close api r =
     (if r_closed r then (r, None)
      else let (w', err) = api_Close api (r_w r) in (r\<lparr>r_closed := True, r_w := w'\<rparr>, err))"

fun recover_loop ::
  "(bytes \<Rightarrow> SchemaWALEntry option) \<Rightarrow> nat \<Rightarrow> (string \<times> schema) list \<Rightarrow> bytes list
   \<Rightarrow> schema_error + (string \<times> schema) list" where
  "recover_loop eu i types [] = Inr types"
| "recover_loop eu i types (data # rest) =
     (case unmarshalEntry eu data of
        None \<Rightarrow> Inl (ErrEntryUnmarshal i)
      | Some entry \<Rightarrow>
          if en_operation entry = OPERATION_REGISTER
          then case FromProto (en_schema entry) of
                 None \<Rightarrow> Inl (ErrNilSchema i)
               | Some s \<Rightarrow> recover_loop eu (Suc i) (applyRegister types s) rest
          else if en_operation entry = OPERATION_ADD_INDEX
          then recover_loop eu (Suc i) (applyAddIndex types (en_type entry) (en_index_path entry)) rest
          else if en_operation entry = OPERATION_REMOVE_INDEX
          then recover_loop eu (Suc i) (applyRemoveIndex types (en_type entry) (en_index_path entry)) rest
          else Inl (ErrUnknownOperation (en_operation entry) i))"

definition Registry_recover ::
  "'s wal_api \<Rightarrow> (bytes \<Rightarrow> SchemaWALEntry option) \<Rightarrow> 's walRegistry \<Rightarrow> 's walRegistry \<times> schema_error option" where
  "Registry_recover api eu r =
     (case api_ReadAll api (r_w r) of
        (w1, Inl e) \<Rightarrow> (r\<lparr>r_w := w1\<rparr>, Some (ErrSchemaWal e))
      | (w1, Inr entries) \<Rightarrow>
          (case recover_loop eu 0 (r_types r) entries of
             Inl e \<Rightarrow> (r\<lparr>r_w := w1\<rparr>, Some e)
           | Inr types \<Rightarrow> (r\<lparr>r_w := w1, r_types := types\<rparr>, None)))"

text \<open>The methods of the WAL as the registry calls them; the state is the WAL and its directory.\<close>

definition wal_methods ::
  "(walrec \<Rightarrow> bytes option) \<Rightarrow> (bytes \<Rightarrow> walrec option) \<Rightarrow> (wal \<times> os) wal_api" where
  "wal_methods m u =
     \<lparr>api_Append = (\<lambda>(w, s) data. case WAL_Append m w s data of (w', s', res) \<Rightarrow> ((w', s'), res)),
      api_Sync = (\<lambda>(w, s). case WAL_Sync w s of (w', s', err) \<Rightarrow> ((w', s'), err)),
      api_ReadAll = (\<lambda>(w, s). case WAL_ReadAll u w s of (w', s', res) \<Rightarrow> ((w', s'), res)),
      api_Close = (\<lambda>(w, s). case WAL_Close w s of (w', s', err) \<Rightarrow> ((w', s'), err))\<rparr>"

definition Registry_Open ::
  "(walrec \<Rightarrow> bytes option) \<Rightarrow> (bytes \<Rightarrow> walrec option) \<Rightarrow> (bytes \<Rightarrow> SchemaWALEntry option) \<Rightarrow> os
   \<Rightarrow> os \<times> (schema_error + (wal \<times> os) walRegistry)" where
  "Registry_Open m u eu s =
     (case WAL_Open m u s SchemaOptions of
        (s1, Inl e) \<Rightarrow> (s1, Inl (ErrSchemaWal e))
      | (s1, Inr w) \<Rightarrow>
          (case Registry_recover (wal_methods m u) eu \<lparr>r_types = [], r_w = (w, s1), r_closed = False\<rparr> of
             (r, Some e) \<Rightarrow>
               let ((_, s2), _) = api_Close (wal_methods m u) (r_w r) in (s2, Inl e)
           | (r, None) \<Rightarrow> (snd (r_w r), Inr r)))"

section \<open>What the registry relies on\<close>

text \<open>
  \<open>rep s L n\<close>: the log in state \<open>s\<close> holds the payloads \<open>L\<close>, the first \<open>n\<close> of them synced;
  \<open>fits\<close>: a payload the log can hold; \<open>room\<close>: the log can take one more.
\<close>

locale wal_log =
  fixes api :: "'s wal_api"
    and rep :: "'s \<Rightarrow> bytes list \<Rightarrow> nat \<Rightarrow> bool"
    and fits :: "bytes \<Rightarrow> bool"
    and room :: "'s \<Rightarrow> bool"
  assumes append_log: "rep s L n \<Longrightarrow> fits b \<Longrightarrow> room s \<Longrightarrow> api_Append api s b = (s', Inr off) \<Longrightarrow> rep s' (L @ [b]) n"
    and sync_log: "rep s L n \<Longrightarrow> api_Sync api s = (s', None) \<Longrightarrow> rep s' L (length L)"
    and read_log: "rep s L n \<Longrightarrow> api_ReadAll api s = (s', Inr ds) \<Longrightarrow> ds = L \<and> rep s' L n"

section \<open>The state in memory is the replay of the log\<close>

text \<open>Replaying one more entry.\<close>

lemma recover_loop_append:
  "recover_loop eu i types (ds @ es) =
     (case recover_loop eu i types ds of
        Inl e \<Rightarrow> Inl e
      | Inr types' \<Rightarrow> recover_loop eu (i + length ds) types' es)"
  by (induction ds arbitrary: i types) (simp_all split: option.split sum.split)

lemmas operations = OPERATION_REGISTER_def OPERATION_ADD_INDEX_def OPERATION_REMOVE_INDEX_def

lemma recover_loop_entries:
  assumes "entry_codec em eu"
  shows "marshalRegister em s = Some b \<Longrightarrow> recover_loop eu i types [b] = Inr (applyRegister types s)"
    and "marshalAddIndex em ty idx = Some b \<Longrightarrow> recover_loop eu i types [b] = Inr (applyAddIndex types ty idx)"
    and "marshalRemoveIndex em ty idx = Some b \<Longrightarrow> recover_loop eu i types [b] = Inr (applyRemoveIndex types ty idx)"
  using assms FromProto_ToProto [of "Some s"]
  by (auto simp: entry_codec_def marshalRegister_def marshalAddIndex_def marshalRemoveIndex_def
      unmarshalEntry_def register_entry_def add_index_entry_def remove_index_entry_def operations)

definition reg_inv :: "(string \<times> schema) list \<Rightarrow> bool" where
  "reg_inv types \<longleftrightarrow> distinct (map fst types) \<and> (\<forall>(t, s)\<in>set types. s_Type s = t \<and> schema_ok s)"

definition reg_rep ::
  "('s \<Rightarrow> bytes list \<Rightarrow> nat \<Rightarrow> bool) \<Rightarrow> (bytes \<Rightarrow> SchemaWALEntry option) \<Rightarrow> 's walRegistry \<Rightarrow> bytes list \<Rightarrow> bool" where
  "reg_rep rep eu r L \<longleftrightarrow> \<not> r_closed r \<and> rep (r_w r) L (length L) \<and> recover_loop eu 0 [] L = Inr (r_types r)"

context wal_log
begin

lemma persist_rep:
  assumes "reg_rep rep eu r L" and "fits b" and "room (r_w r)" and "reg_persist api r b = (r', None)"
    and "\<And>i. recover_loop eu i (r_types r) [b] = Inr types"
  shows "reg_rep rep eu (r'\<lparr>r_types := types\<rparr>) (L @ [b])" and "r_types r' = r_types r"
proof -
  obtain w1 res where ap: "api_Append api (r_w r) b = (w1, res)" by fastforce
  obtain off where res: "res = Inr off"
    using assms(4) by (cases res) (auto simp: reg_persist_def ap)
  obtain w2 where sy: "api_Sync api w1 = (w2, None)" and r': "r' = r\<lparr>r_w := w2\<rparr>"
    using assms(4) by (auto simp: reg_persist_def ap res split: prod.splits option.splits)
  have "rep w1 (L @ [b]) (length L)"
    using append_log ap res assms(1-3) unfolding reg_rep_def by blast
  from sync_log [OF this sy] assms(1,5) show "reg_rep rep eu (r'\<lparr>r_types := types\<rparr>) (L @ [b])"
    by (simp add: reg_rep_def r' recover_loop_append)
  show "r_types r' = r_types r" by (simp add: r')
qed

lemma Register_rep:
  assumes codec: "entry_codec em eu" and rep: "reg_rep rep eu r L" and rm: "room (r_w r)"
    and fit: "\<And>b. marshalRegister em s = Some b \<Longrightarrow> fits b"
    and op: "Registry_Register api em r s = (r', None)"
  shows "\<exists>b. reg_rep rep eu r' (L @ [b]) \<and> r_types r' = applyRegister (r_types r) s"
proof -
  obtain b r1 where b: "marshalRegister em s = Some b" and p: "reg_persist api r b = (r1, None)"
    and r': "r' = r1\<lparr>r_types := applyRegister (r_types r1) s\<rparr>"
    using op by (auto simp: Registry_Register_def split: option.splits if_splits prod.splits)
  from persist_rep [OF rep fit [OF b] rm p recover_loop_entries(1) [OF codec b]] show ?thesis
    by (auto simp: r')
qed

lemma AddIndex_rep:
  assumes codec: "entry_codec em eu" and rep: "reg_rep rep eu r L" and rm: "room (r_w r)"
    and fit: "\<And>b. marshalAddIndex em ty idx = Some b \<Longrightarrow> fits b"
    and op: "Registry_AddIndex api em r ty idx = (r', None)"
  shows "\<exists>b. reg_rep rep eu r' (L @ [b]) \<and> r_types r' = applyAddIndex (r_types r) ty idx"
proof -
  obtain b r1 where b: "marshalAddIndex em ty idx = Some b" and p: "reg_persist api r b = (r1, None)"
    and r': "r' = r1\<lparr>r_types := applyAddIndex (r_types r1) ty idx\<rparr>"
    using op by (auto simp: Registry_AddIndex_def split: option.splits if_splits prod.splits)
  from persist_rep [OF rep fit [OF b] rm p recover_loop_entries(2) [OF codec b]] show ?thesis
    by (auto simp: r')
qed

lemma RemoveIndex_rep:
  assumes codec: "entry_codec em eu" and rep: "reg_rep rep eu r L" and rm: "room (r_w r)"
    and fit: "\<And>b. marshalRemoveIndex em ty idx = Some b \<Longrightarrow> fits b"
    and op: "Registry_RemoveIndex api em r ty idx = (r', None)"
  shows "\<exists>b. reg_rep rep eu r' (L @ [b]) \<and> r_types r' = applyRemoveIndex (r_types r) ty idx"
proof -
  obtain b r1 where b: "marshalRemoveIndex em ty idx = Some b" and p: "reg_persist api r b = (r1, None)"
    and r': "r' = r1\<lparr>r_types := applyRemoveIndex (r_types r1) ty idx\<rparr>"
    using op by (auto simp: Registry_RemoveIndex_def split: option.splits if_splits prod.splits)
  from persist_rep [OF rep fit [OF b] rm p recover_loop_entries(3) [OF codec b]] show ?thesis
    by (auto simp: r')
qed

lemma recover_rep:
  assumes "rep w L n" and "recover_loop eu 0 [] L = Inr types"
    and "Registry_recover api eu \<lparr>r_types = [], r_w = w, r_closed = False\<rparr> = (r, err)"
  shows "err = None \<Longrightarrow> r_types r = types" and "err \<noteq> None \<Longrightarrow> \<exists>e. err = Some (ErrSchemaWal e)"
  using assms(2,3) read_log [OF assms(1)]
  by (auto simp: Registry_recover_def split: prod.splits sum.splits)

end

section \<open>The invariant of the map\<close>

lemma alist_put_set: "x \<in> set (alist_put k v xs) \<Longrightarrow> x = (k, v) \<or> x \<in> set xs"
  by (induction k v xs rule: alist_put.induct) (auto split: if_splits)

lemma reg_inv_put:
  assumes "reg_inv types" and "s_Type s = k" and "schema_ok s"
  shows "reg_inv (alist_put k s types)"
  using assms distinct_alist_put [of types k s]
  by (fastforce simp: reg_inv_def dest: alist_put_set)

lemma reg_inv_lookup: "reg_inv types \<Longrightarrow> map_of types t = Some s \<Longrightarrow> s_Type s = t \<and> schema_ok s"
  by (auto simp: reg_inv_def dest: map_of_SomeD)

lemma applyRegister_inv: "reg_inv types \<Longrightarrow> schema_ok s \<Longrightarrow> reg_inv (applyRegister types s)"
  by (simp add: applyRegister_def reg_inv_put schema_ok_def)

lemma applyAddIndex_inv:
  assumes "reg_inv types" and "map_of types t = Some s" and "index_ok (s_PrimaryKey s) idx"
  shows "reg_inv (applyAddIndex types t idx)"
  using assms reg_inv_lookup [OF assms(1,2)]
  by (auto simp: applyAddIndex_def schema_ok_def intro!: reg_inv_put)

lemma applyRemoveIndex_inv: "reg_inv types \<Longrightarrow> reg_inv (applyRemoveIndex types t idx)"
  using reg_inv_lookup [of types t]
  by (auto simp: applyRemoveIndex_def schema_ok_def split: option.split intro!: reg_inv_put)

section \<open>The WAL provides the interface\<close>

definition wal_rep ::
  "(walrec \<Rightarrow> bytes option) \<Rightarrow> (bytes \<Rightarrow> walrec option) \<Rightarrow> wal \<times> os \<Rightarrow> bytes list \<Rightarrow> nat \<Rightarrow> bool" where
  "wal_rep m u = (\<lambda>(w, s) L n.
     proto_codec m u \<and> storable m CrcType [] \<and>
     (\<exists>olds cur. wal_repr m w s olds cur \<and> log_of olds cur = L \<and> durable m w s olds cur n))"

interpretation rw: wal_log "wal_methods m u" "wal_rep m u" "storable m DataType" "\<lambda>(w, s). w_seq w + 1 < 2 ^ 64"
  for m u
proof unfold_locales
  fix ws L n b ws' off
  assume a: "wal_rep m u ws L n" "storable m DataType b" "case ws of (w, s) \<Rightarrow> w_seq w + 1 < 2 ^ 64"
    "api_Append (wal_methods m u) ws b = (ws', Inr off)"
  obtain w s where ws: "ws = (w, s)" by fastforce
  from a(1) obtain olds cur where r: "storable m CrcType []" "wal_repr m w s olds cur"
    "log_of olds cur = L" "durable m w s olds cur n" by (auto simp: wal_rep_def ws)
  from a(4) obtain w' s' where ap: "WAL_Append m w s b = (w', s', Inr off)" and ws': "ws' = (w', s')"
    by (auto simp: wal_methods_def ws split: prod.splits)
  from a(3) have "w_seq w + 1 < 2 ^ 64" by (simp add: ws)
  from Append_step [OF r(2) ap r(1) a(2) this] r a(1) show "wal_rep m u ws' (L @ [b]) n"
    by (auto simp: wal_rep_def ws ws')
next
  fix ws L n ws'
  assume a: "wal_rep m u ws L n" "api_Sync (wal_methods m u) ws = (ws', None)"
  obtain w s where ws: "ws = (w, s)" by fastforce
  from a(1) obtain olds cur where r: "wal_repr m w s olds cur"
    "log_of olds cur = L" "durable m w s olds cur n" by (auto simp: wal_rep_def ws)
  from a(2) obtain w' s' where sy: "WAL_Sync w s = (w', s', None)" and ws': "ws' = (w', s')"
    by (auto simp: wal_methods_def ws split: prod.splits)
  from Sync_step [OF r(1) sy] r a(1) show "wal_rep m u ws' L (length L)"
    by (auto simp: wal_rep_def ws ws')
next
  fix ws L n ws' ds
  assume a: "wal_rep m u ws L n" "api_ReadAll (wal_methods m u) ws = (ws', Inr ds)"
  obtain w s where ws: "ws = (w, s)" by fastforce
  from a obtain olds cur where r: "proto_codec m u" "wal_repr m w s olds cur" "log_of olds cur = L"
    "durable m w s olds cur n" by (auto simp: wal_rep_def ws)
  from a obtain w' s' where ra: "WAL_ReadAll u w s = (w', s', Inr ds)" and ws': "ws' = (w', s')"
    by (auto simp: wal_methods_def ws split: prod.splits)
  from ReadAll_step [OF r(1,2) ra] r a show "ds = L \<and> wal_rep m u ws' L n"
    by (auto simp: wal_rep_def ws ws')
qed

section \<open>Opening the registry\<close>

lemma Registry_Open_replay:
  assumes codec: "proto_codec m u" and wo: "WAL_Open m u s SchemaOptions = (s1, Inr w)"
    and rep: "wal_repr m w s1 olds cur" and rl: "recover_loop eu 0 [] (log_of olds cur) = Inr types"
    and op: "Registry_Open m u eu s = (s2, res)"
  shows "res = Inr r \<Longrightarrow> r_types r = types \<and> \<not> r_closed r \<and>
      WAL_ReadAll u w s1 = (fst (r_w r), snd (r_w r), Inr (log_of olds cur))"
    and "res = Inl e \<Longrightarrow> \<exists>x. e = ErrSchemaWal x"
    and "faults s1 = [] \<Longrightarrow> \<exists>r. res = Inr r"
proof -
  obtain w3 s3 ra where ra: "WAL_ReadAll u w s1 = (w3, s3, ra)" by (metis prod_cases3)
  note k = ReadAll_step [OF codec rep ra]
  have rc: "Registry_recover (wal_methods m u) eu \<lparr>r_types = [], r_w = (w, s1), r_closed = False\<rparr> =
      (case ra of
         Inl e \<Rightarrow> (\<lparr>r_types = [], r_w = (w3, s3), r_closed = False\<rparr>, Some (ErrSchemaWal e))
       | Inr _ \<Rightarrow> (\<lparr>r_types = types, r_w = (w3, s3), r_closed = False\<rparr>, None))"
    using k rl by (auto simp: Registry_recover_def wal_methods_def ra split: sum.splits)
  show "res = Inr r \<Longrightarrow> r_types r = types \<and> \<not> r_closed r \<and>
      WAL_ReadAll u w s1 = (fst (r_w r), snd (r_w r), Inr (log_of olds cur))"
    using op k by (cases ra) (auto simp: Registry_Open_def wo rc ra split: prod.splits)
  show "res = Inl e \<Longrightarrow> \<exists>x. e = ErrSchemaWal x"
    using op by (cases ra) (auto simp: Registry_Open_def wo rc split: prod.splits)
  show "faults s1 = [] \<Longrightarrow> \<exists>r. res = Inr r"
    using op k by (auto simp: Registry_Open_def wo rc split: prod.splits)
qed

lemma Registry_Open_rep:
  assumes codec: "proto_codec m u" and ctl: "storable m CrcType []"
    and wo: "WAL_Open m u s SchemaOptions = (s1, Inr w)"
    and rep: "wal_repr m w s1 olds cur" and dur: "durable m w s1 olds cur (length (log_of olds cur))"
    and rl: "recover_loop eu 0 [] (log_of olds cur) = Inr types"
    and op: "Registry_Open m u eu s = (s2, Inr r)"
  shows "reg_rep (wal_rep m u) eu r (log_of olds cur)" and "r_types r = types"
proof -
  note k = Registry_Open_replay(1) [OF codec wo rep rl op refl]
  then have ra: "WAL_ReadAll u w s1 = (fst (r_w r), snd (r_w r), Inr (log_of olds cur))" by simp
  show "r_types r = types" using k by simp
  show "reg_rep (wal_rep m u) eu r (log_of olds cur)"
    using ReadAll_step [OF codec rep ra, of "log_of olds cur" "length (log_of olds cur)"] k codec ctl dur rl
    by (cases "r_w r") (auto simp: reg_rep_def wal_rep_def)
qed

section \<open>Runs of the registry\<close>

inductive reg_run ::
  "(walrec \<Rightarrow> bytes option) \<Rightarrow> (bytes \<Rightarrow> walrec option) \<Rightarrow> (SchemaWALEntry \<Rightarrow> bytes option)
   \<Rightarrow> (bytes \<Rightarrow> SchemaWALEntry option) \<Rightarrow> (wal \<times> os) walRegistry \<Rightarrow> bool"
  for m u em eu where
  rr_open: "reg_run m u em eu r"
    if "files s = []" and "Registry_Open m u eu s = (s', Inr r)"
| rr_register: "reg_run m u em eu r'"
    if "reg_run m u em eu r" and "Registry_Register (wal_methods m u) em r s = (r', None)"
      and "w_seq (fst (r_w r)) + 1 < 2 ^ 64" and "\<And>b. marshalRegister em s = Some b \<Longrightarrow> storable m DataType b"
| rr_add: "reg_run m u em eu r'"
    if "reg_run m u em eu r" and "Registry_AddIndex (wal_methods m u) em r ty idx = (r', None)"
      and "w_seq (fst (r_w r)) + 1 < 2 ^ 64" and "\<And>b. marshalAddIndex em ty idx = Some b \<Longrightarrow> storable m DataType b"
| rr_remove: "reg_run m u em eu r'"
    if "reg_run m u em eu r" and "Registry_RemoveIndex (wal_methods m u) em r ty idx = (r', None)"
      and "w_seq (fst (r_w r)) + 1 < 2 ^ 64" and "\<And>b. marshalRemoveIndex em ty idx = Some b \<Longrightarrow> storable m DataType b"
| rr_reopen: "reg_run m u em eu r2"
    if "reg_run m u em eu r" and "Registry_Close (wal_methods m u) r = (r1, None)"
      and "Registry_Open m u eu (snd (r_w r1)) = (s2, Inr r2)"

lemma empty_dir: "files s = [] \<Longrightarrow> dir_segments s = [] \<and> \<not> fisdir (file_of s n)"
  by (simp add: dir_segments_def file_of_def map_filter_def)

lemma Registry_Open_wal:
  assumes "Registry_Open m u eu s = (s2, Inr r)"
  obtains s1 w where "WAL_Open m u s SchemaOptions = (s1, Inr w)"
proof -
  obtain s1 x where "WAL_Open m u s SchemaOptions = (s1, x)" by fastforce
  with assms that show thesis by (cases x) (auto simp: Registry_Open_def)
qed

lemma reg_open_empty:
  assumes codec: "proto_codec m u" and ctl: "storable m CrcType []" and e: "files s = []"
    and op: "Registry_Open m u eu s = (s', Inr r)"
  shows "reg_rep (wal_rep m u) eu r [] \<and> r_types r = []"
proof -
  obtain s1 w where wo: "WAL_Open m u s SchemaOptions = (s1, Inr w)"
    using Registry_Open_wal [OF op] by blast
  have nd: "dir_segments s = []" "\<not> fisdir (file_of s (seg_path 0))" using empty_dir [OF e] by auto
  note o = Open_empty [OF wo nd ctl]
  have "PreallocSize SchemaOptions \<le> 0" by (simp add: SchemaOptions_def)
  moreover have lg: "log_of [] [crc_record 0] = []"
    by (simp add: log_of_def crc_record_def CrcType_def DataType_def)
  ultimately show ?thesis
    using Registry_Open_rep [OF codec ctl wo o(1), of eu "[]" s' r] o(3) op by simp
qed

lemma reg_reopen:
  assumes codec: "proto_codec m u" and rep: "reg_rep (wal_rep m u) eu r L"
    and cl: "Registry_Close (wal_methods m u) r = (r1, None)"
    and op: "Registry_Open m u eu (snd (r_w r1)) = (s2, Inr r2)"
  shows "reg_rep (wal_rep m u) eu r2 L \<and> r_types r2 = r_types r"
proof -
  obtain w s where ws: "r_w r = (w, s)" by fastforce
  obtain olds cur where r: "wal_repr m w s olds cur" "log_of olds cur = L" "durable m w s olds cur (length L)"
    and ctl: "storable m CrcType []" and rl: "recover_loop eu 0 [] L = Inr (r_types r)" and nc: "\<not> r_closed r"
    using rep by (auto simp: reg_rep_def wal_rep_def ws)
  obtain w1 s1 where wc: "WAL_Close w s = (w1, s1, None)" and s1: "snd (r_w r1) = s1"
    using cl nc by (auto simp: Registry_Close_def wal_methods_def ws split: prod.splits)
  obtain s3 w3 where wo: "WAL_Open m u s1 SchemaOptions = (s3, Inr w3)"
    using Registry_Open_wal [OF op] s1 by auto
  have "PreallocSize SchemaOptions \<le> 0" by (simp add: SchemaOptions_def)
  with reopen_step [OF codec r(1) wc wo] r(2,3)
  have "wal_repr m w3 s3 olds cur" "durable m w3 s3 olds cur (length (log_of olds cur))" by auto
  from Registry_Open_rep [OF codec ctl wo this, of eu "r_types r" s2 r2] op rl r(2) s1 show ?thesis by simp
qed

lemma reg_run_inv:
  assumes "reg_run m u em eu r" and codec: "proto_codec m u" and ec: "entry_codec em eu"
    and ctl: "storable m CrcType []"
  shows "\<exists>L. reg_rep (wal_rep m u) eu r L \<and> reg_inv (r_types r)"
  using assms(1)
proof induction
  case (rr_open s s' r)
  then show ?case using reg_open_empty [OF codec ctl] by (fastforce simp: reg_inv_def)
next
  case (rr_register r s r')
  then obtain L where L: "reg_rep (wal_rep m u) eu r L" "reg_inv (r_types r)" by blast
  have rm: "case r_w r of (w, s) \<Rightarrow> w_seq w + 1 < 2 ^ 64" using rr_register(3) by (cases "r_w r") simp
  have "schema_ok s"
    using rr_register(2) by (auto simp: Registry_Register_def Validate_None split: option.splits)
  with rw.Register_rep [OF ec L(1) rm rr_register(4) rr_register(2)] applyRegister_inv [OF L(2)]
  show ?case by auto
next
  case (rr_add r ty idx r')
  then obtain L where L: "reg_rep (wal_rep m u) eu r L" "reg_inv (r_types r)" by blast
  have rm: "case r_w r of (w, s) \<Rightarrow> w_seq w + 1 < 2 ^ 64" using rr_add(3) by (cases "r_w r") simp
  obtain s where s: "map_of (r_types r) ty = Some s" "index_ok (s_PrimaryKey s) idx"
    using rr_add(2) by (auto simp: Registry_AddIndex_def index_ok_def split: option.splits if_splits)
  from rw.AddIndex_rep [OF ec L(1) rm rr_add(4) rr_add(2)] applyAddIndex_inv [OF L(2) s]
  show ?case by auto
next
  case (rr_remove r ty idx r')
  then obtain L where L: "reg_rep (wal_rep m u) eu r L" "reg_inv (r_types r)" by blast
  have rm: "case r_w r of (w, s) \<Rightarrow> w_seq w + 1 < 2 ^ 64" using rr_remove(3) by (cases "r_w r") simp
  from rw.RemoveIndex_rep [OF ec L(1) rm rr_remove(4) rr_remove(2)] applyRemoveIndex_inv [OF L(2)]
  show ?case by auto
next
  case (rr_reopen r r1 s2 r2)
  then show ?case using reg_reopen [OF codec] by metis
qed

text \<open>Since every change is synced before it is applied, a crash loses none.\<close>

lemma reg_crash_open:
  assumes codec: "proto_codec m u" and rep: "reg_rep (wal_rep m u) eu r L"
    and cr: "crash (snd (r_w r)) s1" and op: "Registry_Open m u eu s1 = (s2, res)"
  shows "res = Inr r2 \<Longrightarrow> r_types r2 = r_types r"
    and "res = Inl e \<Longrightarrow> \<exists>x. e = ErrSchemaWal x"
    and "faults s1 = [] \<Longrightarrow> \<exists>r2. res = Inr r2"
proof -
  obtain w s where ws: "r_w r = (w, s)" by fastforce
  obtain olds cur where r: "wal_repr m w s olds cur" "log_of olds cur = L" "durable m w s olds cur (length L)"
    and rl: "recover_loop eu 0 [] L = Inr (r_types r)"
    using rep by (auto simp: reg_rep_def wal_rep_def ws)
  have cr: "crash s s1" using cr by (simp add: ws)
  have re: "\<exists>rs. wal_repr m w3 s3 olds rs \<and> log_of olds rs = L"
    if "WAL_Open m u s1 SchemaOptions = (s3, Inr w3)" for s3 w3
    using crash_open [OF codec r(1,3) cr that] r(2) by (metis length_take min_def take_all)
  show "r_types r2 = r_types r" if "res = Inr r2"
  proof -
    have "Registry_Open m u eu s1 = (s2, Inr r2)" using op that by simp
    then obtain s3 w3 where wo: "WAL_Open m u s1 SchemaOptions = (s3, Inr w3)" by (rule Registry_Open_wal)
    from re [OF this] obtain rs where "wal_repr m w3 s3 olds rs" "log_of olds rs = L" by blast
    with Registry_Open_replay(1) [OF codec wo _ _ op that] rl show ?thesis by auto
  qed
  show "\<exists>x. e = ErrSchemaWal x" if "res = Inl e"
  proof (cases "snd (WAL_Open m u s1 SchemaOptions)")
    case (Inl x)
    then show ?thesis using op that by (cases "WAL_Open m u s1 SchemaOptions") (auto simp: Registry_Open_def)
  next
    case (Inr w3)
    then obtain s3 where wo: "WAL_Open m u s1 SchemaOptions = (s3, Inr w3)" by (metis prod.collapse)
    from re [OF this] obtain rs where "wal_repr m w3 s3 olds rs" "log_of olds rs = L" by blast
    with Registry_Open_replay(2) [OF codec wo _ _ op that] rl show ?thesis by auto
  qed
  show "\<exists>r2. res = Inr r2" if lv: "faults s1 = []"
  proof -
    from crash_open_live [OF codec r(1,3) cr lv] obtain s3 w3
      where wo: "WAL_Open m u s1 SchemaOptions = (s3, Inr w3)" and f3: "faults s3 = []" by blast
    from re [OF wo] obtain rs where "wal_repr m w3 s3 olds rs" "log_of olds rs = L" by blast
    with Registry_Open_replay(3) [OF codec wo _ _ op f3] rl show ?thesis by auto
  qed
qed

end
