(* ===== verification/Codec_Instance.thy ===== *)
theory Codec_Instance
  imports SyncGroup Registry
begin

text \<open>
  Runs of the log and the registry over the small message format of \<^verbatim>\<open>Decoder\<close>, in an
  empty directory in which no call fails. The properties are applied to these runs.
\<close>

section \<open>The log over the small format\<close>

definition empty_os :: os where
  "empty_os = \<lparr>files = [], faults = []\<rparr>"

lemma empty_os_simps [simp]:
  "files empty_os = []" "faults empty_os = []" "dir_segments empty_os = []" "\<not> fisdir (file_of empty_os n)"
  by (simp_all add: empty_os_def dir_segments_def file_of_def map_filter_def)

abbreviation no_snapshot :: "snapshot \<Rightarrow> bytes option" where
  "no_snapshot \<equiv> \<lambda>_. Some []"

text \<open>A log with one payload appended and synced.\<close>

lemma tiny_open:
  obtains w s where "WAL_Open tiny_marshal tiny_unmarshal empty_os opts = (s, Inr w)" "faults s = []"
    "wal_repr tiny_marshal w s [] [crc_record 0]" "w_opts w = opts" "w_seq w = 0"
    "\<not> fisdir (file_of s (seg_path 1))"
    "PreallocSize opts \<le> 0 \<Longrightarrow> durable tiny_marshal w s [] [crc_record 0] 0"
proof -
  obtain s w where op: "WAL_Open tiny_marshal tiny_unmarshal empty_os opts = (s, Inr w)"
    and f: "faults s = []"
    using Open_empty_live [OF empty_os_simps(2-4) tiny_storable_small(1)] by blast
  note o = Open_empty [OF op empty_os_simps(3) empty_os_simps(4) tiny_storable_small(1)]
  have "seg_path 1 \<noteq> seg_path 0" using segmentPath_inj [of 1 0] by fastforce
  then have "\<not> fisdir (file_of s (seg_path 1))" using o(5) by simp
  with op f o show thesis by (intro that) auto
qed

lemma crc_one: "crc32_Update 0 [1] \<noteq> 0"
  by (simp add: crc_eval)

lemma tiny_append:
  assumes "wal_repr tiny_marshal w s [] [crc_record 0]" and "faults s = []" and "w_seq w = 0"
    and "\<not> fisdir (file_of s (seg_path 1))"
  obtains w' s' off where "WAL_Append tiny_marshal w s [1] = (w', s', Inr off)" "faults s' = []"
proof -
  obtain w' s' res where ap: "WAL_Append tiny_marshal w s [1] = (w', s', res)" by (metis prod_cases3)
  have "faults s' = [] \<and> (\<exists>off. res = Inr off)"
    using Append_live [OF assms(1,2) _ _ _ _ ap] assms(3,4) crc_one
    by (auto simp: crc_record_def)
  with ap that show thesis by auto
qed

text \<open>A log with one payload appended and synced.\<close>

lemma tiny_run:
  obtains w s where "wal_run tiny_marshal tiny_unmarshal no_snapshot DefaultOptions w s [[1]] 1"
    and "faults s = []" and "w_seq w \<le> 1"
proof -
  obtain s1 w1 where op: "WAL_Open tiny_marshal tiny_unmarshal empty_os DefaultOptions = (s1, Inr w1)"
    and r1: "faults s1 = []" "wal_repr tiny_marshal w1 s1 [] [crc_record 0]" "w_seq w1 = 0"
      "\<not> fisdir (file_of s1 (seg_path 1))"
    by (rule tiny_open)
  have run1: "wal_run tiny_marshal tiny_unmarshal no_snapshot DefaultOptions w1 s1 [] 0"
    using run_open [OF _ op] by simp
  from tiny_append [OF r1(2,1,3,4)] obtain w2 s2 off
    where ap: "WAL_Append tiny_marshal w1 s1 [1] = (w2, s2, Inr off)" and f2: "faults s2 = []" .
  have run2: "wal_run tiny_marshal tiny_unmarshal no_snapshot DefaultOptions w2 s2 [[1]] 0"
    using run_append [OF run1 ap] r1(3) by simp
  from wal_run_repr [OF run2 tiny_codec] obtain olds cur
    where r2: "wal_repr tiny_marshal w2 s2 olds cur" by auto
  from Sync_live [OF r2 f2] obtain w3 s3 where sy: "WAL_Sync w2 s2 = (w3, s3, None)"
    and f3: "faults s3 = []" by blast
  have "w_seq w3 \<le> 1" using Append_seq [OF ap] Sync_seq [OF sy] r1(3) by simp
  with run_sync [OF run2 sy] f3 show thesis by (intro that) simp_all
qed

text \<open>Nothing is lost in a crash in which every file is as written.\<close>

lemma crash_refl: "crash s s"
  unfolding crash_def
proof (intro conjI allI refl)
  fix n
  show "\<exists>k \<ge> length (fsynced (file_of s n)). fdata (file_of s n) = take k (fdata (file_of s n))"
    by (rule exI [of _ "max (length (fsynced (file_of s n))) (length (fdata (file_of s n)))"]) simp
qed

section \<open>A registry with one schema\<close>

lemma read_segments_same:
  "read_segments u s segs = (s', res) \<Longrightarrow> file_of s' = file_of s \<and> (faults s = [] \<longrightarrow> faults s' = [])"
proof (induction segs arbitrary: s s' res)
  case (Cons seg segs)
  obtain s1 r1 where r1: "WAL_readSegment u s (snd seg) = (s1, r1)" by fastforce
  obtain s0 err where c: "os_call s = (s0, err)" by fastforce
  have k: "file_of s1 = file_of s" "faults s = [] \<longrightarrow> faults s1 = []"
    using r1 c os_call_same(1) [OF c] os_call_live [of s]
    by (auto simp: WAL_readSegment_def split: option.splits prod.splits if_splits)
  obtain s2 r2 where r2: "read_segments u s1 segs = (s2, r2)" by fastforce
  from Cons.IH [OF r2] k Cons.prems r1 r2 show ?case by (auto split: sum.splits)
qed simp

lemma ReadAll_same:
  assumes "WAL_ReadAll u w s = (w', s', res)"
  shows "w_seq w' = w_seq w" and "fisdir (file_of s' n) = fisdir (file_of s n)"
    and "faults s = [] \<Longrightarrow> fd_open (w_file w) \<Longrightarrow> faults s' = []"
proof -
  obtain e1 s1 f1 err where fl: "Encoder_Flush file_Write (w_enc w) (s, w_file w) = (e1, (s1, f1), err)"
    by (metis prod_cases3 surj_pair)
  have d1: "fisdir (file_of s1 n) = fisdir (file_of s n)"
    using ff.Encoder_Flush_frame [OF fl] by (cases "n = fd_name (w_file w)") (auto simp: file_frame_def same_dir_def)
  obtain s2 r2 where ls: "WAL_listSegments s1 = (s2, r2)" by fastforce
  note l = listSegments_cases [OF ls]
  have live: "faults s1 = []" if "faults s = []" "fd_open (w_file w)"
    using fl.Encoder_Flush_live [OF _ fl] that by auto
  obtain s3 r3 where rs: "read_segments u s2 (case r2 of Inr segs \<Rightarrow> segs | Inl _ \<Rightarrow> []) = (s3, r3)" by fastforce
  note r = read_segments_same [OF rs]
  show "w_seq w' = w_seq w"
    using assms by (auto simp: WAL_ReadAll_def fl Let_def split: if_splits option.splits sum.splits prod.splits)
  have "s' = s \<or> s' = s1 \<or> s' = s2 \<or> s' = s3"
    using assms rs by (auto simp: WAL_ReadAll_def fl ls Let_def split: if_splits option.splits sum.splits prod.splits)
  then show "fisdir (file_of s' n) = fisdir (file_of s n)"
    "faults s = [] \<Longrightarrow> fd_open (w_file w) \<Longrightarrow> faults s' = []"
    using d1 l r live by auto
qed

definition pod_schema :: schema where
  "pod_schema = \<lparr>s_Type = ''pods'', s_PrimaryKey = ''name'', s_SecondaryIndexes = [''node'']\<rparr>"

definition tiny_entry :: "SchemaWALEntry \<Rightarrow> bytes option" where
  "tiny_entry e = (if e = register_entry pod_schema then Some [1] else None)"

definition tiny_parse :: "bytes \<Rightarrow> SchemaWALEntry option" where
  "tiny_parse b = (if b = [1] then Some (register_entry pod_schema) else None)"

lemma tiny_entry_codec: "entry_codec tiny_entry tiny_parse"
  by (simp add: entry_codec_def tiny_entry_def tiny_parse_def)

lemma pod_valid: "Schema_Validate pod_schema = None"
  by (simp add: Schema_Validate_def pod_schema_def HasSuffix_def HasPrefix_def)

lemma tiny_registry:
  obtains r where "reg_run tiny_marshal tiny_unmarshal tiny_entry tiny_parse r"
    "r_types r = [(''pods'', pod_schema)]" "faults (snd (r_w r)) = []"
proof -
  obtain w s where op: "WAL_Open tiny_marshal tiny_unmarshal empty_os SchemaOptions = (s, Inr w)"
    and f: "faults s = []" and rp: "wal_repr tiny_marshal w s [] [crc_record 0]" and q: "w_seq w = 0"
    and nd: "\<not> fisdir (file_of s (seg_path 1))" by (rule tiny_open)
  have lg: "log_of [] [crc_record 0] = []" by (simp add: log_of_def crc_record_def CrcType_def DataType_def)
  obtain w1 s1 res where ra: "WAL_ReadAll tiny_unmarshal w s = (w1, s1, res)" by (metis prod_cases3)
  note k = ReadAll_step [OF tiny_codec rp ra] and same = ReadAll_same [OF ra]
  have res: "res = Inr []" using k f lg by simp
  have rp1: "wal_repr tiny_marshal w1 s1 [] [crc_record 0]" using k res by blast
  have f1: "faults s1 = []" using same(3) f rp by (simp add: wal_repr_def cur_ok_def)
  have nd1: "\<not> fisdir (file_of s1 (seg_path 1))" and q1: "w_seq w1 = 0" using same nd q by auto
  define r1 :: "(wal \<times> os) walRegistry" where "r1 = \<lparr>r_types = [], r_w = (w1, s1), r_closed = False\<rparr>"
  have ro: "Registry_Open tiny_marshal tiny_unmarshal tiny_parse empty_os = (s1, Inr r1)"
    by (simp add: Registry_Open_def op Registry_recover_def wal_methods_def ra res r1_def)
  have run1: "reg_run tiny_marshal tiny_unmarshal tiny_entry tiny_parse r1" by (rule rr_open [OF _ ro]) simp
  from tiny_append [OF rp1 f1 q1 nd1] obtain w2 s2 off
    where ap: "WAL_Append tiny_marshal w1 s1 [1] = (w2, s2, Inr off)" and f2: "faults s2 = []" .
  from Append_step [OF rp1 ap] q1 obtain olds cur where rp2: "wal_repr tiny_marshal w2 s2 olds cur" by auto
  from Sync_live [OF rp2 f2] obtain w3 s3 where sy: "WAL_Sync w2 s2 = (w3, s3, None)" and f3: "faults s3 = []"
    by blast
  define r2 where "r2 = \<lparr>r_types = [(''pods'', pod_schema)], r_w = (w3, s3), r_closed = False\<rparr>"
  have reg: "Registry_Register (wal_methods tiny_marshal tiny_unmarshal) tiny_entry r1 pod_schema = (r2, None)"
    by (simp add: Registry_Register_def pod_valid r1_def marshalRegister_def tiny_entry_def reg_persist_def
        wal_methods_def ap sy applyRegister_def r2_def) (simp add: pod_schema_def)
  have "reg_run tiny_marshal tiny_unmarshal tiny_entry tiny_parse r2"
    by (rule rr_register [OF run1 reg])
      (simp_all add: r1_def q1 marshalRegister_def tiny_entry_def split: if_splits)
  then show thesis by (rule that) (simp_all add: r2_def f3)
qed

end
