(* ===== verification/Keys.thy ===== *)
theory Keys
  imports Prelude
begin

unbundle bit_operations_syntax

text \<open>
  \<^verbatim>\<open>pkg/lsm/memtable/internalkey.go\<close> and the byte comparisons of
  \<^verbatim>\<open>pkg/lsm/sstable/block.go\<close> and \<^verbatim>\<open>pkg/lsm/version.go\<close>: user keys with their
  sequence number and kind in an inverted big-endian trailer. The lemmas show the round trip and
  the order of the encoded keys, and where that order is not the order of the user keys.
\<close>

section \<open>Comparison\<close>

fun compareKeys :: "bytes \<Rightarrow> bytes \<Rightarrow> int" where
  "compareKeys (a # as) (b # bs) = (if a < b then -1 else if b < a then 1 else compareKeys as bs)"
| "compareKeys as bs = (if length as < length bs then -1 else if length bs < length as then 1 else 0)"

fun compareBytes :: "bytes \<Rightarrow> bytes \<Rightarrow> int" where
  "compareBytes (a # as) (b # bs) = (if a < b then -1 else if b < a then 1 else compareBytes as bs)"
| "compareBytes as bs = (if length as < length bs then -1 else if length bs < length as then 1 else 0)"

lemma compareBytes_eq: "compareBytes = compareKeys"
proof (intro ext)
  show "compareBytes a b = compareKeys a b" for a b by (induction a b rule: compareKeys.induct) auto
qed

lemma Nil_less_bytes: "[] < (bs :: bytes) \<longleftrightarrow> bs \<noteq> []"
  by (cases bs) auto

lemma compareKeys_less: "compareKeys a b < 0 \<longleftrightarrow> a < b"
  by (induction a b rule: compareKeys.induct) (auto simp: Nil_less_bytes)

lemma compareKeys_zero: "compareKeys a b = 0 \<longleftrightarrow> a = b"
  by (induction a b rule: compareKeys.induct) auto

lemma compareKeys_greater: "0 < compareKeys a b \<longleftrightarrow> b < a"
  by (metis compareKeys_less compareKeys_zero linorder_neqE not_less_iff_gr_or_eq)

lemmas compareKeys_iff = compareKeys_less compareKeys_zero compareKeys_greater

section \<open>Internal keys\<close>

type_synonym Kind = byte

definition KindSet :: Kind where
  "KindSet = 1"

definition KindDelete :: Kind where
  "KindDelete = 0"

definition trailerSize :: nat where
  "trailerSize = 8"

definition MakeInternalKey :: "bytes \<Rightarrow> u64 \<Rightarrow> Kind \<Rightarrow> bytes" where
  "MakeInternalKey userKey seqNum kind =
     userKey @ PutUint64BE (NOT (push_bit 8 seqNum OR ucast kind))"

definition ParseInternalKey :: "bytes \<Rightarrow> bytes \<times> u64 \<times> Kind" where
  "ParseInternalKey ikey =
     (if length ikey < trailerSize then (ikey, 0, 0)
      else
        let userKey = take (length ikey - trailerSize) ikey;
            trailer = Uint64BE (drop (length ikey - trailerSize) ikey);
            val = NOT trailer
        in (userKey, drop_bit 8 val, ucast (val AND 0xFF)))"

definition UserKey :: "bytes \<Rightarrow> bytes" where
  "UserKey ikey =
     (if length ikey < trailerSize then ikey else take (length ikey - trailerSize) ikey)"

section \<open>Big-endian order\<close>

definition be_nat :: "bytes \<Rightarrow> nat" where
  "be_nat bs = foldl (\<lambda>acc b. acc * 256 + unat b) 0 bs"

lemma be_nat_snoc: "be_nat (bs @ [b]) = be_nat bs * 256 + unat b"
  by (simp add: be_nat_def)

lemma be_nat_Cons: "be_nat (b # bs) = unat b * 256 ^ length bs + be_nat bs"
proof (induction bs rule: rev_induct)
  case Nil
  show ?case by (simp add: be_nat_def)
next
  case (snoc x xs)
  have "be_nat (b # xs @ [x]) = be_nat (b # xs) * 256 + unat x"
    using be_nat_snoc [of "b # xs" x] by simp
  then show ?case by (simp add: snoc be_nat_snoc algebra_simps)
qed

lemma be_nat_bound: "be_nat bs < 256 ^ length bs"
proof (induction bs rule: rev_induct)
  case (snoc x xs)
  have "unat x < 256" using unsigned_less [of x, where ?'a = nat] by simp
  with snoc have "be_nat xs * 256 + unat x < (be_nat xs + 1) * 256" by simp
  also have "\<dots> \<le> 256 ^ length xs * 256" using snoc by (intro mult_right_mono) auto
  finally show ?case by (simp add: be_nat_snoc mult.commute)
qed (simp add: be_nat_def)

lemma be_nat_less: "length xs = length ys \<Longrightarrow> xs < ys \<longleftrightarrow> be_nat xs < be_nat ys"
proof (induction xs ys rule: list_induct2)
  case (Cons x xs y ys)
  have b: "be_nat xs < 256 ^ length xs" "be_nat ys < 256 ^ length xs"
    using be_nat_bound [of xs] be_nat_bound [of ys] Cons.hyps by auto
  have step: "unat a * 256 ^ length xs + m < unat b * 256 ^ length xs + n"
    if "unat a < unat b" "m < 256 ^ length xs" for a b :: byte and m n
  proof -
    have "unat a * 256 ^ length xs + m < (unat a + 1) * 256 ^ length xs" using that(2) by simp
    also have "\<dots> \<le> unat b * 256 ^ length xs" using that(1) by (intro mult_right_mono) auto
    finally show ?thesis by simp
  qed
  consider "x < y" | "x = y" | "y < x" by (rule linorder_cases)
  then show ?case
  proof cases
    case 1
    then show ?thesis using step [of x y "be_nat xs" "be_nat ys"] b Cons.hyps
      by (simp add: be_nat_Cons word_less_nat_alt)
  next
    case 2
    then show ?thesis using Cons by (simp add: be_nat_Cons)
  next
    case 3
    then show ?thesis using step [of y x "be_nat ys" "be_nat xs"] b Cons.hyps
      by (auto simp: be_nat_Cons word_less_nat_alt)
  qed
qed simp

lemma be_nat_be_bytes: "be_nat (be_bytes n w) = unat (w :: u64) mod 256 ^ n"
proof (induction n arbitrary: w)
  case 0
  show ?case by (simp add: be_bytes_def be_nat_def)
next
  case (Suc n)
  have u: "unat (drop_bit 8 w) = unat w div 256" unfolding unat_drop_bit_eq by (simp add: drop_bit_eq_div)
  have l: "unat (ucast w :: byte) = unat w mod 256" by (simp add: unsigned_ucast_eq take_bit_eq_mod)
  have "be_bytes (Suc n) w = be_bytes n (drop_bit 8 w) @ [ucast w]" by (simp add: be_bytes_def)
  then have "be_nat (be_bytes (Suc n) w) = (unat w div 256 mod 256 ^ n) * 256 + unat w mod 256"
    by (simp add: be_nat_snoc Suc u l)
  also have "\<dots> = unat w mod 256 ^ Suc n"
    using mod_mult2_eq [of "unat w" 256 "256 ^ n"] by simp
  finally show ?case .
qed

lemma PutUint64BE_less: "PutUint64BE a < PutUint64BE b \<longleftrightarrow> a < b"
proof -
  have "unat w mod 256 ^ 8 = unat w" for w :: u64
    using unsigned_less [of w, where ?'a = nat] by simp
  then show ?thesis
    by (simp add: PutUint64BE_def be_nat_less be_nat_be_bytes word_less_nat_alt)
qed

section \<open>The trailer\<close>

definition trailer_val :: "u64 \<Rightarrow> Kind \<Rightarrow> u64" where
  "trailer_val seqNum kind = push_bit 8 seqNum OR ucast kind"

lemma small_bits: "unat (s :: u64) < 2 ^ 56 \<Longrightarrow> bit s i \<Longrightarrow> i < 56"
proof -
  assume s: "unat s < 2 ^ 56" and b: "bit s i"
  have "take_bit 56 s = s"
    by (rule unsigned_word_eqI [where ?'a = nat])
      (use s in \<open>simp add: unsigned_take_bit_eq take_bit_nat_eq_self\<close>)
  with b show "i < 56" by (metis bit_take_bit_iff)
qed

lemma unsigned_ucast_byte: "unat (ucast (b :: byte) :: u64) = unat b"
  using unsigned_less [of b, where ?'a = nat] by (simp add: unsigned_ucast_eq take_bit_nat_eq_self)

lemma trailer_parts:
  assumes "unat seqNum < 2 ^ 56"
  shows "drop_bit 8 (trailer_val seqNum kind) = seqNum" and "ucast (trailer_val seqNum kind AND 0xFF) = kind"
    and "unat (trailer_val seqNum kind) = unat seqNum * 256 + unat kind"
proof -
  have no: "\<not> bit kind (n + 8)" for n using word_not_bit_beyond [of "n + 8" kind] by simp
  show d: "drop_bit 8 (trailer_val seqNum kind) = seqNum"
    by (rule bit_word_eqI) (use small_bits [OF assms] no in \<open>fastforce simp: trailer_val_def bit_simps add.commute\<close>)
  have m: "(0xFF :: u64) = mask 8" by (simp add: mask_eq_exp_minus_1)
  have tk: "take_bit 8 (trailer_val seqNum kind) = ucast kind"
    by (rule bit_word_eqI) (auto simp: trailer_val_def bit_simps dest: bit_imp_le_length)
  then have "trailer_val seqNum kind AND 0xFF = ucast kind" by (simp add: m take_bit_eq_mask)
  moreover have "ucast (ucast kind :: u64) = kind"
    by (rule bit_word_eqI) (auto simp: bit_simps)
  ultimately show "ucast (trailer_val seqNum kind AND 0xFF) = kind" by simp
  have "unat (trailer_val seqNum kind) div 256 = unat seqNum"
    using arg_cong [OF d, of unat] unfolding unat_drop_bit_eq by (simp add: drop_bit_eq_div)
  moreover have "unat (trailer_val seqNum kind) mod 256 = unat kind"
  proof -
    have "unat (trailer_val seqNum kind) mod 256 = unat (take_bit 8 (trailer_val seqNum kind))"
      unfolding unsigned_take_bit_eq by (simp add: take_bit_eq_mod)
    also have "\<dots> = unat kind" unfolding tk by (rule unsigned_ucast_byte)
    finally show ?thesis .
  qed
  ultimately show "unat (trailer_val seqNum kind) = unat seqNum * 256 + unat kind"
    by (metis div_mult_mod_eq)
qed

lemma not_less_word: "NOT (a :: u64) < NOT b \<longleftrightarrow> b < a"
proof -
  have "uint (NOT w) = 2 ^ 64 - 1 - uint w" for w :: u64
  proof -
    have nm: "- 1 < uint w" using unsigned_greater_eq [of w, where ?'a = int] by linarith
    have "uint (NOT w) = (- uint w - 1) mod 2 ^ 64"
      by (simp add: unsigned_not_eq take_bit_eq_mod not_int_def)
    also have "\<dots> = (- uint w - 1 + 1 * 2 ^ 64) mod 2 ^ 64" by (rule mod_mult_self1 [symmetric])
    also have "\<dots> = 2 ^ 64 - 1 - uint w"
      using unsigned_less [of w, where ?'a = int] nm
      by (intro mod_pos_pos_trivial [THEN trans]) simp_all
    finally show ?thesis .
  qed
  then show ?thesis by (simp add: word_less_alt)
qed

lemma MakeInternalKey_trailer: "MakeInternalKey u s k = u @ PutUint64BE (NOT (trailer_val s k))"
  by (simp add: MakeInternalKey_def trailer_val_def)

lemma append_less_same: "(u @ xs < u @ ys) = (xs < (ys :: bytes))"
  by (induction u) auto

section \<open>The order of internal keys\<close>

lemma trailer_val_less:
  assumes "unat s < 2 ^ 56" and "unat s' < 2 ^ 56"
  shows "trailer_val s' k' < trailer_val s k \<longleftrightarrow> s' < s \<or> s' = s \<and> k' < k"
proof -
  have b: "unat k < 256" "unat k' < 256"
    using unsigned_less [of k, where ?'a = nat] unsigned_less [of k', where ?'a = nat] by auto
  have "unat s' * 256 + unat k' < unat s * 256 + unat k \<longleftrightarrow>
      unat s' < unat s \<or> unat s' = unat s \<and> unat k' < unat k"
    using b by linarith
  moreover have "s' = s \<longleftrightarrow> unat s' = unat s" by (metis unsigned_word_eqI)
  ultimately show ?thesis
    using trailer_parts(3) [OF assms(1), of k] trailer_parts(3) [OF assms(2), of k']
    by (simp add: word_less_nat_alt)
qed

lemma ikey_less_same:
  "unat s < 2 ^ 56 \<Longrightarrow> unat s' < 2 ^ 56 \<Longrightarrow> MakeInternalKey u s k < MakeInternalKey u s' k' \<longleftrightarrow> s' < s \<or> s' = s \<and> k' < k"
  by (simp add: MakeInternalKey_trailer append_less_same PutUint64BE_less not_less_word trailer_val_less)

text \<open>Keys without the byte \<open>0xff\<close>, with which every trailer of a sequence number below \<open>2 ^ 48\<close>
  begins: between two versions of such a key there is no version of another one.\<close>

definition plain_key :: "bytes \<Rightarrow> bool" where
  "plain_key k \<longleftrightarrow> 0xFF \<notin> set k"

lemma trailer_first:
  assumes "unat s < 2 ^ 48"
  shows "\<exists>r. PutUint64BE (NOT (trailer_val s k)) = 0xFF # r"
proof -
  let ?w = "NOT (trailer_val s k)"
  have "be_bytes 8 ?w = ucast (drop_bit 56 ?w) # rev (le_bytes 7 ?w)"
    by (simp add: be_bytes_def eval_nat_numeral drop_bit_drop_bit)
  moreover have "(ucast (drop_bit 56 ?w) :: byte) = 0xFF"
  proof (rule bit_word_eqI)
    fix i assume i: "i < LENGTH(8)"
    have s48: "bit s j \<Longrightarrow> j < 48" for j
    proof -
      have "take_bit 48 s = s"
        by (rule unsigned_word_eqI [where ?'a = nat]) (use assms in \<open>simp add: unsigned_take_bit_eq take_bit_nat_eq_self\<close>)
      then show "bit s j \<Longrightarrow> j < 48" by (metis bit_take_bit_iff)
    qed
    have "\<not> bit (trailer_val s k) (56 + i)"
      using s48 [of "48 + i"] word_not_bit_beyond [of "56 + i" k] by (auto simp: trailer_val_def bit_simps add.commute)
    moreover have "bit (0xFF :: byte) i" using i by (simp add: bit_numeral_rec less_Suc_eq numeral_eq_Suc) auto
    ultimately show "bit (ucast (drop_bit 56 ?w) :: byte) i = bit (0xFF :: byte) i"
      using i by (simp add: bit_simps)
  qed
  ultimately show ?thesis by (auto simp: PutUint64BE_def)
qed

lemma byte_le_ff: "(c :: byte) \<le> 0xFF"
  using unsigned_less [of c, where ?'a = nat] by (simp add: word_le_nat_alt)

lemma plain_sandwich:
  "0xFF \<notin> set u \<Longrightarrow> 0xFF \<notin> set w \<Longrightarrow> u @ 0xFF # r1 \<le> w @ 0xFF # r \<Longrightarrow> w @ 0xFF # r \<le> u @ 0xFF # r2 \<Longrightarrow> w = (u :: bytes)"
proof (induction u arbitrary: w)
  case Nil
  show ?case
  proof (cases w)
    case (Cons d w')
    then show ?thesis using Nil.prems(2,3) byte_le_ff [of d] by (auto dest: leD)
  qed simp
next
  case (Cons c u)
  show ?case
  proof (cases w)
    case Nil
    then show ?thesis using Cons.prems(1,4) byte_le_ff [of c] by (auto dest: leD)
  next
    case w: (Cons d w')
    then have "c = d" using Cons.prems(3,4) by (auto dest: less_asym)
    then show ?thesis using Cons.IH [of w'] Cons.prems w by simp
  qed
qed

lemma plain_between:
  assumes "plain_key u" "plain_key w" "unat s1 < 2 ^ 48" "unat s < 2 ^ 48" "unat s2 < 2 ^ 48"
    and "MakeInternalKey u s1 k1 \<le> MakeInternalKey w s k" "MakeInternalKey w s k \<le> MakeInternalKey u s2 k2"
  shows "w = u"
proof -
  obtain r1 r r2 where "PutUint64BE (NOT (trailer_val s1 k1)) = 0xFF # r1" "PutUint64BE (NOT (trailer_val s k)) = 0xFF # r"
      "PutUint64BE (NOT (trailer_val s2 k2)) = 0xFF # r2"
    using trailer_first assms(3-5) by metis
  then show ?thesis using plain_sandwich [of u w r1 r r2] assms by (simp add: MakeInternalKey_trailer plain_key_def)
qed

section \<open>Properties\<close>

text \<open>An internal key splits into the user key, sequence number and kind it was made from, for
  every user key and every sequence number below \<open>2 ^ 56\<close>.\<close>

theorem internal_key_roundtrip:
  assumes "unat s < 2 ^ 56"
  shows "ParseInternalKey (MakeInternalKey u s k) = (u, s, k) \<and> UserKey (MakeInternalKey u s k) = u"
proof -
  have l: "length (PutUint64BE w) = 8" for w by (simp add: PutUint64BE_def)
  have g: "Uint64BE (PutUint64BE w) = w" for w
    by (simp add: Uint64BE_def PutUint64BE_def codec_simps)
  show ?thesis
    using trailer_parts(1,2) [OF assms, of k]
    by (simp add: MakeInternalKey_trailer ParseInternalKey_def UserKey_def trailerSize_def l g Let_def)
qed

theorem internal_key_roundtrip_witness:
  "ParseInternalKey (MakeInternalKey [0x61, 0x62] 7 KindSet) = ([0x61, 0x62], 7, KindSet)"
  using internal_key_roundtrip [of 7 "[0x61, 0x62]" KindSet] by simp

text \<open>C37: The order of internal keys. Of two versions of one user key the one with the higher sequence
  number comes first, and at the same sequence number a set comes before a delete; the versions of
  different user keys of which neither is a prefix of the other come in the order of the user
  keys.\<close>

theorem internal_key_order:
  assumes "unat s < 2 ^ 56" and "unat s' < 2 ^ 56"
  shows "(compareKeys (MakeInternalKey u s k) (MakeInternalKey u s' k') < 0 \<longleftrightarrow> s' < s \<or> s' = s \<and> k' < k) \<and>
    (\<forall>p a b x y. a \<noteq> b \<longrightarrow> (compareKeys (MakeInternalKey (p @ a # x) s k) (MakeInternalKey (p @ b # y) s' k') < 0 \<longleftrightarrow>
       compareKeys (p @ a # x) (p @ b # y) < 0))"
proof (intro conjI allI impI)
  show "compareKeys (MakeInternalKey u s k) (MakeInternalKey u s' k') < 0 \<longleftrightarrow> s' < s \<or> s' = s \<and> k' < k"
    unfolding compareKeys_less by (rule ikey_less_same [OF assms])
next
  fix p a b x y assume "(a :: byte) \<noteq> b"
  then show "compareKeys (MakeInternalKey (p @ a # x) s k) (MakeInternalKey (p @ b # y) s' k') < 0 \<longleftrightarrow>
      compareKeys (p @ a # x) (p @ b # y) < 0"
    by (simp add: compareKeys_less MakeInternalKey_trailer append_less_same)
qed

theorem internal_key_order_witness:
  "compareKeys (MakeInternalKey [0x61] 9 KindSet) (MakeInternalKey [0x61] 4 KindSet) < 0"
  using internal_key_order [of 9 4 "[0x61]" KindSet KindSet] by (simp add: word_less_nat_alt)

text \<open>The order of internal keys is not the order of the user keys when one is a prefix of the other:
  the key \<open>a\<close> is below \<open>ab\<close>, but its internal key, whose inverted trailer starts with \<open>0xff\<close>
  for sequence numbers below \<open>2 ^ 48\<close>, is above that of \<open>ab\<close>.\<close>

theorem prefix_keys_out_of_order:
  "compareKeys [0x61] [0x61, 0x62] < 0 \<and>
   compareKeys (MakeInternalKey [0x61, 0x62] 2 KindSet) (MakeInternalKey [0x61] 1 KindSet) < 0"
  by code_simp

end
