(* ===== verification/Varint.thy ===== *)
theory Varint
  imports Prelude
begin

unbundle bit_operations_syntax

text \<open>
  The variable-length integers of Go's \<^verbatim>\<open>encoding/binary\<close>, which the block format and the
  manifest are built from. The lemmas show the round trip and the length bound.
\<close>

lemma unat_drop7: "unat (drop_bit 7 x) = unat (x :: u64) div 128"
  unfolding unat_drop_bit_eq by (simp add: drop_bit_eq_div)

function PutUvarint :: "u64 \<Rightarrow> bytes" where
  "PutUvarint x = (if 0x80 \<le> x then (ucast x OR 0x80) # PutUvarint (drop_bit 7 x) else [ucast x])"
  by pat_completeness auto
termination
proof (relation "measure unat")
  fix x :: u64
  assume "0x80 \<le> x"
  then have "0x80 \<le> unat x" by (simp add: word_le_nat_alt)
  then show "(drop_bit 7 x, x) \<in> measure unat" unfolding in_measure unat_drop7 by simp
qed simp

declare PutUvarint.simps [simp del]

definition MaxVarintLen64 :: nat where
  "MaxVarintLen64 = 10"

fun uvarint_loop :: "nat \<Rightarrow> u64 \<Rightarrow> bytes \<Rightarrow> u64 \<times> int" where
  "uvarint_loop i x [] = (0, 0)"
| "uvarint_loop i x (b # bs) =
     (if i = MaxVarintLen64 then (0, - (int i + 1))
      else if b < 0x80
      then if i = MaxVarintLen64 - 1 \<and> 1 < b then (0, - (int i + 1))
           else (x OR push_bit (7 * i) (ucast b), int i + 1)
      else uvarint_loop (i + 1) (x OR push_bit (7 * i) (ucast (b AND 0x7f))) bs)"

definition Uvarint :: "bytes \<Rightarrow> u64 \<times> int" where
  "Uvarint buf = uvarint_loop 0 0 buf"

section \<open>Round trip\<close>

lemma bit_masks: "bit (0x7f :: byte) i \<longleftrightarrow> i < 7" "bit (0x80 :: byte) i \<longleftrightarrow> i = 7"
proof -
  have "(0x7f :: byte) = mask 7" "(0x80 :: byte) = 2 ^ 7" by (simp_all add: mask_eq_exp_minus_1)
  then show "bit (0x7f :: byte) i \<longleftrightarrow> i < 7" "bit (0x80 :: byte) i \<longleftrightarrow> i = 7"
    by (simp_all only: bit_mask_iff bit_exp_iff) auto
qed

lemma low_byte: "(ucast x OR 0x80 :: byte) AND 0x7f = ucast (take_bit 7 (x :: u64))"
  by (rule bit_word_eqI) (unfold bit_and_iff bit_or_iff bit_masks, auto simp: bit_simps)

lemma byte_high_bit: "b < 0x80 \<longleftrightarrow> \<not> bit (b :: byte) 7"
proof -
  have "b < 0x80 \<longleftrightarrow> take_bit 7 b = b"
  proof -
    have "b < 0x80 \<longleftrightarrow> unat b < 2 ^ 7" by (simp add: word_less_nat_alt)
    also have "\<dots> \<longleftrightarrow> take_bit 7 (unat b) = unat b" by (simp only: take_bit_nat_eq_self_iff)
    also have "\<dots> \<longleftrightarrow> take_bit 7 b = b" by (metis unsigned_take_bit_eq unsigned_word_eqI)
    finally show ?thesis .
  qed
  also have "\<dots> \<longleftrightarrow> \<not> bit b 7"
  proof
    assume "take_bit 7 b = b"
    then show "\<not> bit b 7" by (metis bit_take_bit_iff less_irrefl)
  next
    assume n: "\<not> bit b 7"
    show "take_bit 7 b = b"
    proof (rule bit_word_eqI)
      fix i assume "i < LENGTH(8)"
      then have "i < 7 \<or> i = 7" by auto
      with n show "bit (take_bit 7 b) i = bit b i" by (auto simp: bit_simps)
    qed
  qed
  finally show ?thesis .
qed

lemma high_byte: "\<not> (ucast (x :: u64) OR 0x80 :: byte) < 0x80"
  by (simp add: byte_high_bit bit_masks bit_simps)

lemma low_last:
  assumes "\<not> 0x80 \<le> (x :: u64)"
  shows "(ucast x :: byte) < 0x80" and "ucast (ucast x :: byte) = x" and "1 < (ucast x :: byte) \<Longrightarrow> 2 \<le> x"
proof -
  have x: "unat x < 128" using assms by (simp add: word_le_nat_alt)
  then have u: "unat (ucast x :: byte) = unat x" by (simp add: unsigned_ucast_eq take_bit_nat_eq_self)
  show "(ucast x :: byte) < 0x80" using x u by (simp add: word_less_nat_alt)
  show "ucast (ucast x :: byte) = x"
    by (rule unsigned_word_eqI [where ?'a = nat]) (use u x in \<open>simp add: unsigned_ucast_eq unsigned_take_bit_eq take_bit_nat_eq_self\<close>)
  show "2 \<le> x" if "1 < (ucast x :: byte)"
    using that u by (simp add: word_less_nat_alt word_le_nat_alt)
qed

lemma split_word: "push_bit n (take_bit 7 x) OR push_bit (n + 7) (drop_bit 7 x) = push_bit n (x :: u64)"
proof (rule bit_word_eqI)
  fix i :: nat
  assume "i < LENGTH(64)"
  then show "bit (push_bit n (take_bit 7 x) OR push_bit (n + 7) (drop_bit 7 x)) i = bit (push_bit n x) i"
    by (cases "i < n + 7") (auto simp: bit_simps)
qed

lemma uvarint_loop_put:
  assumes "i < MaxVarintLen64" and "unat x < 2 ^ (64 - 7 * i)"
  shows "uvarint_loop i acc (PutUvarint x @ rest) =
      (acc OR push_bit (7 * i) x, int i + int (length (PutUvarint x)))
    \<and> i + length (PutUvarint x) \<le> MaxVarintLen64"
  using assms
proof (induction x arbitrary: i acc rule: PutUvarint.induct)
  case (1 x)
  show ?case
  proof (cases "0x80 \<le> x")
    case True
    then have big: "128 \<le> unat x" by (simp add: word_le_nat_alt)
    have i: "i < 9"
    proof (rule ccontr)
      assume "\<not> i < 9"
      with 1(2) have "i = 9" by (simp add: MaxVarintLen64_def)
      with 1(3) big show False by simp
    qed
    note unat_drop7 [of x]
    moreover have "unat x div 128 < 2 ^ (64 - 7 * Suc i)"
    proof -
      have "64 - 7 * i = (64 - 7 * Suc i) + 7" using i by simp
      then have "(2::nat) ^ (64 - 7 * i) = 2 ^ (64 - 7 * Suc i) * 128" by (simp only: power_add) simp
      with 1(3) show ?thesis by (simp add: less_mult_imp_div_less)
    qed
    ultimately have "unat (drop_bit 7 x) < 2 ^ (64 - 7 * Suc i)" by simp
    from "1.IH" [OF True _ this] i
    have ih: "uvarint_loop (Suc i) a (PutUvarint (drop_bit 7 x) @ rest) =
        (a OR push_bit (7 * Suc i) (drop_bit 7 x), int (Suc i) + int (length (PutUvarint (drop_bit 7 x))))"
      "Suc i + length (PutUvarint (drop_bit 7 x)) \<le> MaxVarintLen64" for a
      by (auto simp: MaxVarintLen64_def)
    have "uvarint_loop i acc (PutUvarint x @ rest) =
        uvarint_loop (Suc i) (acc OR push_bit (7 * i) (ucast ((ucast x OR 0x80 :: byte) AND 0x7f)))
          (PutUvarint (drop_bit 7 x) @ rest)"
      using True i by (subst PutUvarint.simps) (simp add: high_byte MaxVarintLen64_def)
    also have "ucast ((ucast x OR 0x80 :: byte) AND 0x7f) = take_bit 7 x"
      by (simp add: low_byte) (rule bit_word_eqI, auto simp: bit_simps)
    finally show ?thesis
      using ih(1) [of "acc OR push_bit (7 * i) (take_bit 7 x)"] ih(2) True split_word [of "7 * i" x]
      by (subst (2 3) PutUvarint.simps) (simp add: or.assoc add.commute [of 7])
  next
    case False
    have "\<not> 1 < (ucast x :: byte)" if "i = 9"
    proof
      assume "1 < (ucast x :: byte)"
      from low_last(3) [OF False this] 1(3) that show False by (simp add: word_le_nat_alt)
    qed
    then show ?thesis
      using False 1(2) low_last(1,2) [OF False]
      by (simp add: PutUvarint.simps [of x] MaxVarintLen64_def)
  qed
qed

lemma Uvarint_Put: "Uvarint (PutUvarint x @ rest) = (x, int (length (PutUvarint x)))"
  using uvarint_loop_put [of 0 x 0 rest] unsigned_less [of x, where ?'a = nat] by (simp add: Uvarint_def MaxVarintLen64_def)

lemma length_PutUvarint: "0 < length (PutUvarint x) \<and> length (PutUvarint x) \<le> 10"
  using uvarint_loop_put [of 0 x 0 "[]"] unsigned_less [of x, where ?'a = nat]
  by (subst PutUvarint.simps) (auto simp: MaxVarintLen64_def PutUvarint.simps [of x])

text \<open>A byte below \<open>0x80\<close> is its own encoding.\<close>

lemma Uvarint_size: "Uvarint buf = (v, n) \<Longrightarrow> n \<le> int (length buf)"
proof -
  have "uvarint_loop i x buf = (v, n) \<Longrightarrow> n \<le> int i + int (length buf)" for i x
    by (induction i x buf rule: uvarint_loop.induct) (auto split: if_splits)
  then show "Uvarint buf = (v, n) \<Longrightarrow> n \<le> int (length buf)" by (force simp: Uvarint_def)
qed

end
