(* ===== verification/Block.thy ===== *)
theory Block
  imports Keys Varint Crc
begin

unbundle bit_operations_syntax

text \<open>
  The block format of \<^verbatim>\<open>pkg/lsm/sstable/block.go\<close> with prefix compression and restart
  points, and the block handles and checksums of \<^verbatim>\<open>format.go\<close>. A Go slice expression whose
  bounds are out of range panics: the operations that slice return \<open>None\<close> then. (For a key shorter
  than the shared length of a malformed entry Go may also re-read stale bytes within the capacity of
  the key; the model stops.)
\<close>

section \<open>Slices\<close>

definition go_from :: "bytes \<Rightarrow> int \<Rightarrow> bytes option" where
  "go_from data off = (if 0 \<le> off \<and> off \<le> int (length data) then Some (drop (nat off) data) else None)"

definition go_slice :: "bytes \<Rightarrow> int \<Rightarrow> int \<Rightarrow> bytes option" where
  "go_slice data lo hi =
     (if 0 \<le> lo \<and> lo \<le> hi \<and> hi \<le> int (length data) then Some (take (nat (hi - lo)) (drop (nat lo) data)) else None)"

lemma go_from_append [simp]: "go_from (pre @ post) (int (length pre)) = Some post"
  by (simp add: go_from_def)

lemma go_slice_append: "n = int (length mid) \<Longrightarrow> go_slice (pre @ mid @ post) (int (length pre)) (int (length pre) + n) = Some mid"
  by (simp add: go_slice_def)

section \<open>Writer\<close>

record blockWriter =
  bw_buf :: bytes
  bw_restarts :: "u32 list"
  bw_nEntries :: nat
  bw_restartInterval :: nat
  bw_prevKey :: bytes

definition blockWriter_reset :: "blockWriter \<Rightarrow> blockWriter" where
  "blockWriter_reset w = w\<lparr>bw_buf := [], bw_restarts := [], bw_nEntries := 0, bw_prevKey := []\<rparr>"

definition newBlockWriter :: "nat \<Rightarrow> blockWriter" where
  "newBlockWriter restartInterval =
     blockWriter_reset \<lparr>bw_buf = [], bw_restarts = [], bw_nEntries = 0, bw_restartInterval = restartInterval, bw_prevKey = []\<rparr>"

function shared_chunks :: "bytes \<Rightarrow> bytes \<Rightarrow> nat \<Rightarrow> nat \<Rightarrow> nat" where
  "shared_chunks a b n i =
     (if i + 8 \<le> n
      then if a ! i \<noteq> b ! i \<or> a ! (i+1) \<noteq> b ! (i+1) \<or> a ! (i+2) \<noteq> b ! (i+2) \<or> a ! (i+3) \<noteq> b ! (i+3) \<or>
              a ! (i+4) \<noteq> b ! (i+4) \<or> a ! (i+5) \<noteq> b ! (i+5) \<or> a ! (i+6) \<noteq> b ! (i+6) \<or> a ! (i+7) \<noteq> b ! (i+7)
           then i else shared_chunks a b n (i + 8)
      else i)"
  by pat_completeness auto
termination by (relation "measure (\<lambda>(a, b, n, i). n - i)") auto

function shared_bytes :: "bytes \<Rightarrow> bytes \<Rightarrow> nat \<Rightarrow> nat \<Rightarrow> nat" where
  "shared_bytes a b n i = (if i < n \<and> a ! i = b ! i then shared_bytes a b n (i + 1) else i)"
  by pat_completeness auto
termination by (relation "measure (\<lambda>(a, b, n, i). n - i)") auto

declare shared_chunks.simps [simp del] shared_bytes.simps [simp del]

definition sharedPrefix :: "bytes \<Rightarrow> bytes \<Rightarrow> nat" where
  "sharedPrefix a b =
     (let n = (if length b < length a then length b else length a)
      in shared_bytes a b n (shared_chunks a b n 0))"

definition block_entry :: "nat \<Rightarrow> bytes \<Rightarrow> bytes \<Rightarrow> bytes" where
  "block_entry shared key value =
     PutUvarint (of_nat shared) @ PutUvarint (of_nat (length key - shared)) @ PutUvarint (of_nat (length value)) @
     drop shared key @ value"

definition blockWriter_add :: "blockWriter \<Rightarrow> bytes \<Rightarrow> bytes \<Rightarrow> blockWriter" where
  "blockWriter_add w key value =
     (let (restarts, shared) =
            (if bw_nEntries w mod bw_restartInterval w = 0
             then (bw_restarts w @ [of_nat (length (bw_buf w))], 0)
             else (bw_restarts w, sharedPrefix (bw_prevKey w) key))
      in w\<lparr>bw_buf := bw_buf w @ block_entry shared key value, bw_restarts := restarts,
           bw_prevKey := key, bw_nEntries := bw_nEntries w + 1\<rparr>)"

definition blockWriter_finish :: "blockWriter \<Rightarrow> blockWriter \<times> bytes" where
  "blockWriter_finish w =
     (let buf = bw_buf w @ concat (map PutUint32LE (bw_restarts w)) @ PutUint32LE (of_nat (length (bw_restarts w)))
      in (w\<lparr>bw_buf := buf\<rparr>, buf))"

definition blockWriter_estimatedSize :: "blockWriter \<Rightarrow> nat" where
  "blockWriter_estimatedSize w = length (bw_buf w) + length (bw_restarts w) * 4 + 4"

section \<open>Iterator\<close>

record blockIterator =
  bi_data :: bytes
  bi_restarts :: int
  bi_numRestarts :: nat
  bi_offset :: int
  bi_key :: bytes
  bi_val :: bytes
  bi_valid :: bool

definition newBlockIterator :: "bytes \<Rightarrow> blockIterator" where
  "newBlockIterator data =
     (if length data < 4
      then \<lparr>bi_data = [], bi_restarts = 0, bi_numRestarts = 0, bi_offset = 0, bi_key = [], bi_val = [], bi_valid = False\<rparr>
      else let numRestarts = unat (Uint32LE (drop (length data - 4) data));
               restartsOffset = int (length data) - 4 - int numRestarts * 4
           in \<lparr>bi_data = data, bi_restarts = restartsOffset, bi_numRestarts = numRestarts,
               bi_offset = restartsOffset, bi_key = [], bi_val = [], bi_valid = False\<rparr>)"

text \<open>\<^verbatim>\<open>binary.Uvarint(it.data[it.offset:])\<close>, with the panic of the slice.\<close>

definition uvarint_at :: "bytes \<Rightarrow> int \<Rightarrow> (u64 \<times> int) option" where
  "uvarint_at data off = map_option Uvarint (go_from data off)"

definition bi_invalid :: "blockIterator \<Rightarrow> blockIterator \<times> bool" where
  "bi_invalid it = (it\<lparr>bi_valid := False\<rparr>, False)"

definition bi_next :: "blockIterator \<Rightarrow> (blockIterator \<times> bool) option" where
  "bi_next it =
     (if bi_restarts it \<le> bi_offset it then Some (bi_invalid it)
      else case uvarint_at (bi_data it) (bi_offset it) of None \<Rightarrow> None | Some (shared, n) \<Rightarrow>
        if n \<le> 0 then Some (bi_invalid it)
        else let it = it\<lparr>bi_offset := bi_offset it + n\<rparr> in
      case uvarint_at (bi_data it) (bi_offset it) of None \<Rightarrow> None | Some (unshared, n) \<Rightarrow>
        if n \<le> 0 then Some (bi_invalid it)
        else let it = it\<lparr>bi_offset := bi_offset it + n\<rparr> in
      case uvarint_at (bi_data it) (bi_offset it) of None \<Rightarrow> None | Some (valueLen, n) \<Rightarrow>
        if n \<le> 0 then Some (bi_invalid it)
        else let it = it\<lparr>bi_offset := bi_offset it + n\<rparr> in
      case (go_slice (bi_key it) 0 (uint shared), go_slice (bi_data it) (bi_offset it) (bi_offset it + uint unshared)) of
        (Some pre, Some suf) \<Rightarrow>
          (let it = it\<lparr>bi_key := pre @ suf, bi_offset := bi_offset it + uint unshared\<rparr> in
           case go_slice (bi_data it) (bi_offset it) (bi_offset it + uint valueLen) of
             None \<Rightarrow> None
           | Some v \<Rightarrow> Some (it\<lparr>bi_val := v, bi_offset := bi_offset it + uint valueLen, bi_valid := True\<rparr>, True))
      | _ \<Rightarrow> None)"

definition bi_getRestart :: "blockIterator \<Rightarrow> int \<Rightarrow> int option" where
  "bi_getRestart it i =
     (case go_from (bi_data it) (bi_restarts it + i * 4) of
        None \<Rightarrow> None
      | Some d \<Rightarrow> if length d < 4 then None else Some (uint (Uint32LE d)))"

definition bi_decodeKeyAt :: "blockIterator \<Rightarrow> int \<Rightarrow> bytes option" where
  "bi_decodeKeyAt it off =
     (case uvarint_at (bi_data it) off of None \<Rightarrow> None | Some (_, n) \<Rightarrow> let off = off + n in
      case uvarint_at (bi_data it) off of None \<Rightarrow> None | Some (unshared, n) \<Rightarrow> let off = off + n in
      case uvarint_at (bi_data it) off of None \<Rightarrow> None | Some (_, n) \<Rightarrow> let off = off + n in
      go_slice (bi_data it) off (off + uint unshared))"

definition bi_First :: "blockIterator \<Rightarrow> (blockIterator \<times> bool) option" where
  "bi_First it = bi_next (it\<lparr>bi_offset := 0, bi_key := []\<rparr>)"

definition bi_Next :: "blockIterator \<Rightarrow> (blockIterator \<times> bool) option" where
  "bi_Next it = bi_next it"

definition bi_Valid :: "blockIterator \<Rightarrow> bool" where
  "bi_Valid it = bi_valid it"

definition bi_Key :: "blockIterator \<Rightarrow> bytes" where
  "bi_Key it = bi_key it"

definition bi_Value :: "blockIterator \<Rightarrow> bytes" where
  "bi_Value it = bi_val it"

function bi_search :: "blockIterator \<Rightarrow> bytes \<Rightarrow> nat \<Rightarrow> nat \<Rightarrow> nat option" where
  "bi_search it target lo hi =
     (if lo < hi
      then let mid = lo + (hi - lo) div 2
           in case bi_getRestart it (int mid) of None \<Rightarrow> None | Some off \<Rightarrow>
              case bi_decodeKeyAt it off of None \<Rightarrow> None | Some key \<Rightarrow>
                if compareBytes key target < 0 then bi_search it target (mid + 1) hi
                else bi_search it target lo mid
      else Some lo)"
  by pat_completeness auto
termination
  by (relation "measure (\<lambda>(it, t, lo, hi). hi - lo)") auto

declare bi_search.simps [simp del]

lemma uvarint_at_bound: "uvarint_at data off = Some (v, n) \<Longrightarrow> 0 \<le> off \<and> off + n \<le> int (length data)"
  by (auto simp: uvarint_at_def go_from_def split: if_splits dest: Uvarint_size)

lemma bi_next_progress:
  assumes "bi_next it = Some (it', True)"
  shows "bi_offset it < bi_offset it' \<and> bi_offset it < bi_restarts it \<and> bi_restarts it' = bi_restarts it \<and> bi_data it' = bi_data it"
proof -
  have pos: "0 < a + (b + (c + (uint (v :: u64) + uint (w :: u64))))" if "0 < a" "0 < b" "0 < c" for a b c v w
    using that by (intro add_pos_nonneg) simp_all
  show ?thesis
    using assms by (auto simp: bi_next_def bi_invalid_def Let_def split: if_splits option.splits intro!: pos)
qed

text \<open>The scan of \<^verbatim>\<open>SeekGE\<close>, \<^verbatim>\<open>for it.next()\<close> up to the first key not below the target.\<close>

function (sequential) bi_scan :: "blockIterator \<Rightarrow> bytes \<Rightarrow> (blockIterator \<times> bool) option" where
  "bi_scan it target =
     (case bi_next it of
        None \<Rightarrow> None
      | Some (it', False) \<Rightarrow> Some (bi_invalid it')
      | Some (it', True) \<Rightarrow> if 0 \<le> compareBytes (bi_key it') target then Some (it', True) else bi_scan it' target)"
  by pat_completeness auto
termination
  by (relation "measure (\<lambda>(it, t). nat (bi_restarts it - bi_offset it))") (auto dest: bi_next_progress)

declare bi_scan.simps [simp del]

definition bi_SeekGE :: "blockIterator \<Rightarrow> bytes \<Rightarrow> (blockIterator \<times> bool) option" where
  "bi_SeekGE it target =
     (case bi_search it target 0 (bi_numRestarts it) of None \<Rightarrow> None | Some lo \<Rightarrow>
      let startRestart = int lo - 1;
          startRestart = (if startRestart < 0 then 0 else startRestart)
      in case bi_getRestart it startRestart of None \<Rightarrow> None | Some off \<Rightarrow>
           bi_scan (it\<lparr>bi_offset := off, bi_key := []\<rparr>) target)"

section \<open>Handles and checksums\<close>

record BlockHandle =
  bh_Offset :: u64
  bh_Length :: u64

function varintLen :: "u64 \<Rightarrow> nat" where
  "varintLen x = (if 0x80 \<le> x then varintLen (drop_bit 7 x) + 1 else 1)"
  by pat_completeness auto
termination
proof (relation "measure unat")
  fix x :: u64
  assume "0x80 \<le> x"
  then have "0x80 \<le> unat x" by (simp add: word_le_nat_alt)
  then show "(drop_bit 7 x, x) \<in> measure unat" unfolding in_measure unat_drop7 by simp
qed simp

declare varintLen.simps [simp del]

definition handle_encodedLen :: "BlockHandle \<Rightarrow> nat" where
  "handle_encodedLen h = varintLen (bh_Offset h) + varintLen (bh_Length h)"

definition handle_encode :: "BlockHandle \<Rightarrow> bytes" where
  "handle_encode h = PutUvarint (bh_Offset h) @ PutUvarint (bh_Length h)"

definition decodeBlockHandle :: "bytes \<Rightarrow> (BlockHandle \<times> int) option" where
  "decodeBlockHandle src =
     (let (offset, n1) = Uvarint src in
      case go_from src n1 of
        None \<Rightarrow> None
      | Some rest \<Rightarrow> let (len, n2) = Uvarint rest in Some (\<lparr>bh_Offset = offset, bh_Length = len\<rparr>, n1 + n2))"

definition blockTrailerSize :: nat where
  "blockTrailerSize = 5"

definition compressionNone :: byte where
  "compressionNone = 0"

definition blockChecksum :: "bytes \<Rightarrow> byte \<Rightarrow> u32" where
  "blockChecksum data blockType =
     crc32_Update (crc32_Update 0 data) [blockType]"

section \<open>The shared prefix\<close>

fun lcp :: "bytes \<Rightarrow> bytes \<Rightarrow> nat" where
  "lcp (x # xs) (y # ys) = (if x = y then Suc (lcp xs ys) else 0)"
| "lcp xs ys = 0"

lemma lcp_le: "lcp a b \<le> length a \<and> lcp a b \<le> length b"
  by (induction a b rule: lcp.induct) auto

lemma lcp_take: "take (lcp a b) a = take (lcp a b) b"
  by (induction a b rule: lcp.induct) auto

lemma lcp_step:
  assumes "i < length a" and "i < length b"
  shows "lcp (drop i a) (drop i b) = (if a ! i = b ! i then Suc (lcp (drop (Suc i) a) (drop (Suc i) b)) else 0)"
  using Cons_nth_drop_Suc [OF assms(1), symmetric] Cons_nth_drop_Suc [OF assms(2), symmetric] by simp

lemma shared_bytes_lcp:
  "i \<le> n \<Longrightarrow> n = min (length a) (length b) \<Longrightarrow> shared_bytes a b n i = i + lcp (drop i a) (drop i b)"
proof (induction a b n i rule: shared_bytes.induct)
  case (1 a b n i)
  show ?case
  proof (cases "i < n")
    case True
    with 1 lcp_step [of i a b] show ?thesis by (subst shared_bytes.simps) auto
  next
    case False
    with 1(2,3) have "drop i a = [] \<or> drop i b = []" by (simp add: min_def split: if_splits)
    with False show ?thesis by (subst shared_bytes.simps) auto
  qed
qed

lemma lcp_shift:
  "(\<forall>m<k. a ! (i + m) = b ! (i + m)) \<Longrightarrow> i + k \<le> length a \<Longrightarrow> i + k \<le> length b \<Longrightarrow>
    lcp (drop i a) (drop i b) = k + lcp (drop (i + k) a) (drop (i + k) b)"
proof (induction k arbitrary: i)
  case (Suc k)
  have "\<forall>m<k. a ! (Suc i + m) = b ! (Suc i + m)" using Suc.prems(1) by auto
  from Suc.IH [OF this] Suc.prems lcp_step [of i a b] show ?case by (auto dest: spec [of _ 0])
qed simp

lemma less_8_iff: "(\<forall>m<8. P m) \<longleftrightarrow> P 0 \<and> P 1 \<and> P 2 \<and> P 3 \<and> P 4 \<and> P 5 \<and> P 6 \<and> P (7 :: nat)"
  by (simp add: All_less_Suc eval_nat_numeral conj_ac)

lemma shared_chunks_lcp:
  "i \<le> n \<Longrightarrow> n = min (length a) (length b) \<Longrightarrow>
    shared_chunks a b n i \<le> n \<and>
    shared_chunks a b n i + lcp (drop (shared_chunks a b n i) a) (drop (shared_chunks a b n i) b) =
      i + lcp (drop i a) (drop i b)"
proof (induction a b n i rule: shared_chunks.induct)
  case (1 a b n i)
  let ?eq = "\<forall>m<8. a ! (i + m) = b ! (i + m)"
  have eq: "shared_chunks a b n i = (if i + 8 \<le> n \<and> ?eq then shared_chunks a b n (i + 8) else i)"
    unfolding less_8_iff by (subst shared_chunks.simps) auto
  show ?case
  proof (cases "i + 8 \<le> n \<and> ?eq")
    case True
    then have "shared_chunks a b n (i + 8) \<le> n \<and>
        shared_chunks a b n (i + 8) + lcp (drop (shared_chunks a b n (i + 8)) a) (drop (shared_chunks a b n (i + 8)) b) =
          i + 8 + lcp (drop (i + 8) a) (drop (i + 8) b)"
      using 1 by (intro "1.IH") (simp_all add: less_8_iff)
    with True lcp_shift [of 8 a i b] 1(3) eq show ?thesis by simp
  next
    case False
    with eq 1(2) show ?thesis by simp
  qed
qed

lemma sharedPrefix_eq: "sharedPrefix a b = lcp a b"
proof -
  have n: "(if length b < length a then length b else length a) = min (length a) (length b)" by simp
  from shared_chunks_lcp [of 0 _ a b, OF _ refl]
  show ?thesis unfolding sharedPrefix_def n Let_def by (simp add: shared_bytes_lcp)
qed

section \<open>Handles\<close>

lemma varintLen_length: "varintLen x = length (PutUvarint x)"
  by (induction x rule: varintLen.induct) (subst varintLen.simps, subst PutUvarint.simps, auto)

section \<open>Properties\<close>

text \<open>The prefix comparison in 8-byte chunks with a bytewise tail computes the length of the longest
  common prefix of the two keys.\<close>

theorem sharedPrefix_longest:
  "sharedPrefix a b = lcp a b \<and> take (sharedPrefix a b) a = take (sharedPrefix a b) b \<and>
   sharedPrefix a b \<le> length a \<and> sharedPrefix a b \<le> length b \<and>
   (\<forall>n. n \<le> length a \<and> n \<le> length b \<and> take n a = take n b \<longrightarrow> n \<le> sharedPrefix a b)"
proof -
  have "n \<le> lcp a b" if "n \<le> length a" "n \<le> length b" "take n a = take n b" for n
    using that
  proof (induction a b arbitrary: n rule: lcp.induct)
    case (1 x xs y ys)
    then show ?case by (cases n) auto
  qed auto
  then show ?thesis unfolding sharedPrefix_eq using lcp_take [of a b] lcp_le [of a b] by blast
qed

theorem sharedPrefix_longest_witness:
  "sharedPrefix [1, 2, 3, 4, 5, 6, 7, 8, 9, 1] [1, 2, 3, 4, 5, 6, 7, 8, 9, 2] = 9 \<and> 3 \<le> sharedPrefix [1, 2, 3, 4] [1, 2, 3]"
  using sharedPrefix_longest [of "[1, 2, 3, 4, 5, 6, 7, 8, 9, 1]" "[1, 2, 3, 4, 5, 6, 7, 8, 9, 2]"]
    sharedPrefix_longest [of "[1, 2, 3, 4]" "[1, 2, 3]"] by simp

lemma decodeBlockHandle_encode [simp]: "decodeBlockHandle (handle_encode h @ rest) = Some (h, int (length (handle_encode h)))"
proof -
  have "go_from (PutUvarint (bh_Offset h) @ PutUvarint (bh_Length h) @ rest) (int (length (PutUvarint (bh_Offset h)))) =
      Some (PutUvarint (bh_Length h) @ rest)" by (rule go_from_append)
  then show ?thesis by (simp add: decodeBlockHandle_def handle_encode_def Uvarint_Put)
qed

lemma length_handle_encode: "length (handle_encode h) \<le> 20"
  using length_PutUvarint [of "bh_Offset h"] length_PutUvarint [of "bh_Length h"] by (simp add: handle_encode_def)

text \<open>A block handle decodes to itself from the bytes it encodes to, whatever follows, the decoder
  reports the bytes consumed, and the length announced is the length encoded.\<close>

theorem block_handle_roundtrip:
  "decodeBlockHandle (handle_encode h @ rest) = Some (h, int (length (handle_encode h))) \<and>
   handle_encodedLen h = length (handle_encode h) \<and> length (handle_encode h) \<le> 20"
  by (simp add: length_handle_encode) (simp add: handle_encodedLen_def handle_encode_def varintLen_length)

end
