(* ===== verification/Block_Scan.thy ===== *)
theory Block_Scan
  imports Block
begin

text \<open>
  The block iterator reads what the block writer wrote: the entries come back in order by
  \<^verbatim>\<open>First\<close> and \<^verbatim>\<open>Next\<close>, and \<^verbatim>\<open>SeekGE\<close> finds the first entry not below its target.
\<close>

section \<open>What the writer leaves\<close>

type_synonym kv = "bytes \<times> bytes"

definition add_all :: "blockWriter \<Rightarrow> kv list \<Rightarrow> blockWriter" where
  "add_all w es = fold (\<lambda>e w. blockWriter_add w (fst e) (snd e)) es w"

definition block_of :: "nat \<Rightarrow> kv list \<Rightarrow> bytes" where
  "block_of r es = snd (blockWriter_finish (add_all (newBlockWriter r) es))"

definition shared_at :: "nat \<Rightarrow> nat \<Rightarrow> bytes \<Rightarrow> bytes \<Rightarrow> nat" where
  "shared_at r i prev k = (if i mod r = 0 then 0 else sharedPrefix prev k)"

fun enc_entries :: "nat \<Rightarrow> nat \<Rightarrow> bytes \<Rightarrow> kv list \<Rightarrow> bytes" where
  "enc_entries r i prev [] = []"
| "enc_entries r i prev (e # es) = block_entry (shared_at r i prev (fst e)) (fst e) (snd e) @ enc_entries r (Suc i) (fst e) es"

definition offset_of :: "nat \<Rightarrow> kv list \<Rightarrow> nat \<Rightarrow> nat" where
  "offset_of r es i = length (enc_entries r 0 [] (take i es))"

definition restart_indices :: "nat \<Rightarrow> nat \<Rightarrow> nat list" where
  "restart_indices r n = filter (\<lambda>i. i mod r = 0) [0..<n]"

lemma enc_entries_append:
  "enc_entries r i prev (xs @ ys) = enc_entries r i prev xs @ enc_entries r (i + length xs) (last (prev # map fst xs)) ys"
  by (induction xs arbitrary: i prev) auto

lemma add_all_snoc: "add_all w (es @ [e]) = blockWriter_add (add_all w es) (fst e) (snd e)"
  by (simp add: add_all_def)

lemma add_all_state:
  "bw_buf (add_all (newBlockWriter r) es) = enc_entries r 0 [] es \<and>
   bw_nEntries (add_all (newBlockWriter r) es) = length es \<and>
   bw_prevKey (add_all (newBlockWriter r) es) = last ([] # map fst es) \<and>
   bw_restartInterval (add_all (newBlockWriter r) es) = r \<and>
   bw_restarts (add_all (newBlockWriter r) es) = map (\<lambda>i. of_nat (offset_of r es i)) (restart_indices r (length es))"
proof (induction es rule: rev_induct)
  case Nil
  show ?case by (simp add: add_all_def newBlockWriter_def blockWriter_reset_def restart_indices_def)
next
  case (snoc e es)
  have o: "offset_of r (es @ [e]) i = offset_of r es i" if "i \<le> length es" for i
    using that by (simp add: offset_of_def)
  have m: "map (\<lambda>i. of_nat (offset_of r (es @ [e]) i)) (restart_indices r (length es)) =
      (map (\<lambda>i. of_nat (offset_of r es i)) (restart_indices r (length es)) :: u32 list)"
    using o by (auto simp: restart_indices_def)
  have l: "offset_of r es (length es) = length (enc_entries r 0 [] es)" by (simp add: offset_of_def)
  show ?case
    using snoc m l o [of "length es"]
    by (auto simp: add_all_snoc blockWriter_add_def enc_entries_append shared_at_def restart_indices_def Let_def)
qed

lemma block_of_eq:
  "block_of r es = enc_entries r 0 [] es @ concat (map (\<lambda>i. PutUint32LE (of_nat (offset_of r es i))) (restart_indices r (length es))) @
    PutUint32LE (of_nat (length (restart_indices r (length es))))"
  using add_all_state [of r es] by (simp add: block_of_def blockWriter_finish_def Let_def comp_def)

lemma restart_indices_eq: "0 < r \<Longrightarrow> restart_indices r n = map (\<lambda>j. j * r) [0..<(n + r - 1) div r]"
proof (induction n)
  case (Suc n)
  show ?case
  proof (cases "n mod r = 0")
    case True
    then obtain q where q: "n = q * r" by (metis mod_0_imp_dvd dvd_div_mult_self)
    have "(n + r - 1) div r = q"
    proof -
      have "n + r - 1 = q * r + (r - 1)" using q Suc.prems by simp
      moreover have "(q * r + (r - 1)) div r = q + (r - 1) div r" using Suc.prems by (intro div_mult_self3) simp
      moreover have "(r - 1) div r = 0" using Suc.prems by simp
      ultimately show ?thesis by presburger
    qed
    moreover have "(Suc n + r - 1) div r = Suc q" using Suc.prems q by simp
    ultimately show ?thesis using Suc True q by (simp add: restart_indices_def)
  next
    case False
    have "(n + r) div r = (n + r - 1) div r"
    proof -
      have "Suc (n + r - 1) mod r \<noteq> 0" using False Suc.prems by simp
      then have "Suc (n + r - 1) div r = (n + r - 1) div r" by (simp add: div_Suc)
      with Suc.prems show ?thesis by simp
    qed
    with False Suc show ?thesis by (simp add: restart_indices_def)
  qed
qed (simp add: restart_indices_def)

lemma length_concat_restarts: "length (concat (map (\<lambda>i. PutUint32LE (f i)) is)) = 4 * length is"
  by (induction "is") auto

lemma drop_concat_restarts:
  "j < length is \<Longrightarrow> \<exists>rest. drop (4 * j) (concat (map (\<lambda>i. PutUint32LE (f i)) is) @ x) = PutUint32LE (f (is ! j)) @ rest"
proof (induction "is" arbitrary: j)
  case (Cons i "is")
  then show ?case by (cases j) auto
qed simp

section \<open>The iterator's position\<close>

definition bi_of :: "nat \<Rightarrow> kv list \<Rightarrow> blockIterator \<Rightarrow> bool" where
  "bi_of r es it \<longleftrightarrow> bi_data it = block_of r es \<and> bi_restarts it = int (offset_of r es (length es)) \<and>
     bi_numRestarts it = length (restart_indices r (length es))"

text \<open>The iterator is about to decode entry \<open>i\<close>.\<close>

definition bi_at :: "nat \<Rightarrow> kv list \<Rightarrow> nat \<Rightarrow> blockIterator \<Rightarrow> bool" where
  "bi_at r es i it \<longleftrightarrow> bi_of r es it \<and> i \<le> length es \<and> bi_offset it = int (offset_of r es i) \<and>
     (i mod r = 0 \<or> bi_key it = fst (es ! (i - 1)))"

lemma length_block_of:
  "length (block_of r es) = offset_of r es (length es) + 4 * length (restart_indices r (length es)) + 4"
  by (simp add: block_of_eq length_concat_restarts offset_of_def)

lemma newBlockIterator_of:
  assumes "length (block_of r es) < 2 ^ 32"
  shows "bi_of r es (newBlockIterator (block_of r es))"
proof -
  let ?n = "length (restart_indices r (length es))"
  have "?n < 2 ^ 32" using assms length_block_of [of r es] by simp
  then have u: "unat (of_nat ?n :: u32) = ?n" by (simp add: unsigned_of_nat take_bit_nat_eq_self)
  have "drop (length (block_of r es) - 4) (block_of r es) = PutUint32LE (of_nat ?n)"
    by (simp add: block_of_eq)
  with u show ?thesis by (simp add: bi_of_def newBlockIterator_def length_block_of Let_def)
qed

lemma block_split:
  assumes "i < length es"
  shows "\<exists>rest. block_of r es =
    enc_entries r 0 [] (take i es) @
      block_entry (shared_at r i (last ([] # map fst (take i es))) (fst (es ! i))) (fst (es ! i)) (snd (es ! i)) @ rest \<and>
    offset_of r es (Suc i) = offset_of r es i +
      length (block_entry (shared_at r i (last ([] # map fst (take i es))) (fst (es ! i))) (fst (es ! i)) (snd (es ! i)))"
proof -
  have "enc_entries r 0 [] es = enc_entries r 0 [] (take i es @ es ! i # drop (Suc i) es)"
    using assms by (simp add: id_take_nth_drop [symmetric])
  moreover have "enc_entries r 0 [] (take (Suc i) es) = enc_entries r 0 [] (take i es @ [es ! i])"
    using assms by (simp add: take_Suc_conv_app_nth)
  ultimately show ?thesis
    using assms by (simp add: block_of_eq enc_entries_append offset_of_def)
qed

lemma offset_mono: "i < length es \<Longrightarrow> offset_of r es i < offset_of r es (Suc i)"
  using block_split [of i es r] length_PutUvarint by (auto simp: block_entry_def)

lemma offset_end: "i \<le> length es \<Longrightarrow> offset_of r es i \<le> offset_of r es (length es)"
proof -
  assume "i \<le> length es"
  have "enc_entries r 0 [] es = enc_entries r 0 [] (take i es @ drop i es)" by simp
  then show ?thesis unfolding enc_entries_append by (simp add: offset_of_def)
qed

lemma offset_less: "i < length es \<Longrightarrow> offset_of r es i < offset_of r es (length es)"
  using offset_mono [of i es r] offset_end [of "Suc i" es r] by simp

lemma uvarint_at_pre: "uvarint_at (pre @ PutUvarint x @ rest) (int (length pre)) = Some (x, int (length (PutUvarint x)))"
  by (simp add: uvarint_at_def Uvarint_Put)

lemma uvarint_at_pre': "bs = pre @ PutUvarint x @ rest \<Longrightarrow> off = int (length pre) \<Longrightarrow> uvarint_at bs off = Some (x, int (length (PutUvarint x)))"
  by (simp add: uvarint_at_pre)

lemma uint_of_nat_small: "n < 2 ^ 64 \<Longrightarrow> uint (of_nat n :: u64) = int n"
  by (simp add: unsigned_of_nat take_bit_nat_eq_self)

lemma bi_next_entry:
  assumes d: "bi_data it = pre @ block_entry s k v @ rest" and off: "bi_offset it = int (length pre)"
    and lt: "bi_offset it < bi_restarts it" and s: "s \<le> length k" "s \<le> length (bi_key it)" "take s (bi_key it) = take s k"
    and small: "length (bi_data it) < 2 ^ 32" "length k < 2 ^ 32"
  shows "bi_next it = Some (it\<lparr>bi_key := k, bi_val := v, bi_offset := int (length pre + length (block_entry s k v)), bi_valid := True\<rparr>, True)"
proof -
  obtain w1 w2 w3 :: u64 where w: "w1 = of_nat s" "w2 = of_nat (length k - s)" "w3 = of_nat (length v)" by simp
  obtain n1 n2 n3 where n: "n1 = int (length (PutUvarint w1))" "n2 = int (length (PutUvarint w2))" "n3 = int (length (PutUvarint w3))"
    by simp
  have D: "bi_data it = pre @ PutUvarint w1 @ PutUvarint w2 @ PutUvarint w3 @ drop s k @ v @ rest"
    by (simp add: d block_entry_def w)
  have "length v < 2 ^ 64" "length k - s < 2 ^ 64" "s < 2 ^ 64"
    using small s(1) by (simp_all add: D)
  then have u: "uint w1 = int s" "uint w2 = int (length k - s)" "uint w3 = int (length v)"
    by (simp_all add: w uint_of_nat_small del: of_nat_diff)
  have pos: "0 < n1" "0 < n2" "0 < n3" using length_PutUvarint by (auto simp: n)
  have u1: "uvarint_at (bi_data it) (int (length pre)) = Some (w1, n1)"
    unfolding n by (rule uvarint_at_pre' [where pre = pre]) (simp_all add: D)
  have u2: "uvarint_at (bi_data it) (int (length pre) + n1) = Some (w2, n2)"
    unfolding n by (rule uvarint_at_pre' [where pre = "pre @ PutUvarint w1"]) (simp_all add: D)
  have u3: "uvarint_at (bi_data it) (int (length pre) + n1 + n2) = Some (w3, n3)"
    unfolding n by (rule uvarint_at_pre' [where pre = "pre @ PutUvarint w1 @ PutUvarint w2"]) (simp_all add: D)
  have s1: "go_slice (bi_key it) 0 (int s) = Some (take s k)" using s by (simp add: go_slice_def)
  have s2: "go_slice (bi_data it) (int (length pre) + n1 + n2 + n3) (int (length pre) + n1 + n2 + n3 + int (length k - s)) = Some (drop s k)"
    using go_slice_append [of "int (length k - s)" "drop s k" "pre @ PutUvarint w1 @ PutUvarint w2 @ PutUvarint w3" "v @ rest"]
    by (simp add: D n add.assoc del: of_nat_diff)
  have s3: "go_slice (bi_data it) (int (length pre) + n1 + n2 + n3 + int (length k - s))
      (int (length pre) + n1 + n2 + n3 + int (length k - s) + int (length v)) = Some v"
    using go_slice_append [of "int (length v)" v "pre @ PutUvarint w1 @ PutUvarint w2 @ PutUvarint w3 @ drop s k" rest]
    by (simp add: D n add.assoc del: of_nat_diff)
  have len: "int (length pre) + n1 + n2 + n3 + int (length k - s) + int (length v) = int (length pre + length (block_entry s k v))"
    by (simp add: n block_entry_def w)
  have nle: "\<not> bi_restarts it \<le> int (length pre)" using lt off by simp
  show ?thesis
    using pos unfolding bi_next_def len [symmetric]
    by (simp add: u1 u2 u3 s1 s2 s3 Let_def u off nle del: of_nat_diff)
qed


lemma last_key: "0 < i \<Longrightarrow> i \<le> length es \<Longrightarrow> last ([] # map fst (take i es)) = fst (es ! (i - 1))"
  by (cases "es = []") (simp_all add: last_map last_conv_nth)

lemma entry_at:
  assumes i: "i < length es"
  shows "\<exists>s rest. block_of r es = enc_entries r 0 [] (take i es) @ block_entry s (fst (es ! i)) (snd (es ! i)) @ rest \<and>
    offset_of r es (Suc i) = offset_of r es i + length (block_entry s (fst (es ! i)) (snd (es ! i))) \<and>
    s \<le> length (fst (es ! i)) \<and> (i mod r = 0 \<longrightarrow> s = 0) \<and>
    (i mod r \<noteq> 0 \<longrightarrow> s \<le> length (fst (es ! (i - 1))) \<and> take s (fst (es ! (i - 1))) = take s (fst (es ! i)))"
proof -
  let ?prev = "last ([] # map fst (take i es))"
  have p: "?prev = fst (es ! (i - 1))" if "i mod r \<noteq> 0"
    using that i by (intro last_key) (auto intro: gr0I)
  have "shared_at r i ?prev (fst (es ! i)) \<le> length (fst (es ! i)) \<and> (i mod r = 0 \<longrightarrow> shared_at r i ?prev (fst (es ! i)) = 0) \<and>
    (i mod r \<noteq> 0 \<longrightarrow> shared_at r i ?prev (fst (es ! i)) \<le> length ?prev \<and>
       take (shared_at r i ?prev (fst (es ! i))) ?prev = take (shared_at r i ?prev (fst (es ! i))) (fst (es ! i)))"
    using lcp_le [of ?prev "fst (es ! i)"] lcp_take [of ?prev "fst (es ! i)"] by (simp only: shared_at_def sharedPrefix_eq) simp
  with p block_split [OF i, of r] show ?thesis by metis
qed

lemma length_block_entry: "length k - s \<le> length (block_entry s k v)"
  by (simp add: block_entry_def)

lemma length_key: "i < length es \<Longrightarrow> length (fst (es ! i)) \<le> offset_of r es (Suc i)"
proof (induction i)
  case 0
  then show ?case using entry_at [of 0 es r] length_block_entry [of "fst (es ! 0)" 0 "snd (es ! 0)"] by auto
next
  case (Suc i)
  obtain s rest where s: "offset_of r es (Suc (Suc i)) = offset_of r es (Suc i) + length (block_entry s (fst (es ! Suc i)) (snd (es ! Suc i)))"
      "s \<le> length (fst (es ! i)) \<or> s = 0"
    using entry_at [OF Suc.prems, of r] by auto
  have "s \<le> offset_of r es (Suc i)" using s(2) Suc by auto
  with s(1) length_block_entry [of "fst (es ! Suc i)" s "snd (es ! Suc i)"] show ?case by linarith
qed

lemma bi_at_next:
  assumes at: "bi_at r es i it" and i: "i < length es" and small: "length (block_of r es) < 2 ^ 32"
  shows "\<exists>it'. bi_next it = Some (it', True) \<and> bi_at r es (Suc i) it' \<and> bi_key it' = fst (es ! i) \<and>
    bi_val it' = snd (es ! i) \<and> bi_valid it'"
proof -
  obtain s rest where b: "block_of r es = enc_entries r 0 [] (take i es) @ block_entry s (fst (es ! i)) (snd (es ! i)) @ rest"
    and o: "offset_of r es (Suc i) = offset_of r es i + length (block_entry s (fst (es ! i)) (snd (es ! i)))"
    and s: "s \<le> length (fst (es ! i))" "i mod r = 0 \<longrightarrow> s = 0"
      "i mod r \<noteq> 0 \<longrightarrow> s \<le> length (fst (es ! (i - 1))) \<and> take s (fst (es ! (i - 1))) = take s (fst (es ! i))"
    using entry_at [OF i, of r] by (elim exE conjE) (rule that)
  have of: "bi_of r es it" "bi_offset it = int (offset_of r es i)" and key: "i mod r = 0 \<or> bi_key it = fst (es ! (i - 1))"
    using at by (auto simp: bi_at_def)
  have d: "bi_data it = enc_entries r 0 [] (take i es) @ block_entry s (fst (es ! i)) (snd (es ! i)) @ rest"
    using of b by (simp add: bi_of_def)
  have lt: "bi_offset it < bi_restarts it" using offset_less [OF i, of r] of by (simp add: bi_of_def)
  have pre: "s \<le> length (bi_key it)" "take s (bi_key it) = take s (fst (es ! i))" using s key by (cases "i mod r = 0"; simp)+
  have "length (bi_data it) < 2 ^ 32" using small of by (simp add: bi_of_def)
  moreover have "length (fst (es ! i)) < 2 ^ 32"
    using length_key [OF i, of r] offset_end [of "Suc i" es r] i small length_block_of [of r es] by simp
  moreover have "bi_offset it = int (length (enc_entries r 0 [] (take i es)))" using of by (simp add: offset_of_def)
  ultimately have "bi_next it = Some (it\<lparr>bi_key := fst (es ! i), bi_val := snd (es ! i),
      bi_offset := int (length (enc_entries r 0 [] (take i es)) + length (block_entry s (fst (es ! i)) (snd (es ! i)))), bi_valid := True\<rparr>, True)"
    using bi_next_entry [OF d _ lt s(1) pre] by blast
  then show ?thesis using of i o by (simp add: bi_at_def bi_of_def offset_of_def)
qed

lemma bi_at_end: "bi_at r es (length es) it \<Longrightarrow> bi_next it = Some (it\<lparr>bi_valid := False\<rparr>, False)"
  by (simp add: bi_at_def bi_of_def bi_next_def bi_invalid_def)

lemma bi_at_0: "bi_of r es it \<Longrightarrow> bi_at r es 0 (it\<lparr>bi_offset := 0, bi_key := []\<rparr>)"
  by (simp add: bi_at_def bi_of_def offset_of_def)

section \<open>Reading everything\<close>

text \<open>The loop \<^verbatim>\<open>for it.First(); it.Valid(); it.Next()\<close> of the readers.\<close>

function (sequential) bi_drain :: "blockIterator \<Rightarrow> kv list option" where
  "bi_drain it =
     (case bi_Next it of
        None \<Rightarrow> None
      | Some (it', False) \<Rightarrow> Some []
      | Some (it', True) \<Rightarrow> map_option ((#) (bi_Key it', bi_Value it')) (bi_drain it'))"
  by pat_completeness auto
termination
  by (relation "measure (\<lambda>it. nat (bi_restarts it - bi_offset it))") (auto simp: bi_Next_def dest: bi_next_progress)

declare bi_drain.simps [simp del]

definition block_scan :: "bytes \<Rightarrow> kv list option" where
  "block_scan data =
     (case bi_First (newBlockIterator data) of
        None \<Rightarrow> None
      | Some (it, ok) \<Rightarrow> if ok then map_option ((#) (bi_Key it, bi_Value it)) (bi_drain it) else Some [])"

lemma bi_drain_at:
  assumes "bi_at r es i it" and "length (block_of r es) < 2 ^ 32"
  shows "bi_drain it = Some (drop i es)"
  using assms(1)
proof (induction "length es - i" arbitrary: i it)
  case 0
  then have "i = length es" by (simp add: bi_at_def)
  with bi_at_end [of r es it] 0 show ?case by (simp add: bi_drain.simps [of it] bi_Next_def)
next
  case (Suc n)
  then have i: "i < length es" by linarith
  from bi_at_next [OF Suc.prems i assms(2)] obtain it' where "bi_next it = Some (it', True)" and at: "bi_at r es (Suc i) it'"
    and kv: "bi_key it' = fst (es ! i)" "bi_val it' = snd (es ! i)" by blast
  moreover have "bi_drain it' = Some (drop (Suc i) es)" using Suc at by (intro Suc.hyps(1)) simp_all
  ultimately show ?case
    using i by (simp add: bi_drain.simps [of it] bi_Next_def bi_Key_def bi_Value_def Cons_nth_drop_Suc)
qed

lemma bi_First_at:
  assumes "bi_of r es it" and "length (block_of r es) < 2 ^ 32"
  shows "case es of [] \<Rightarrow> \<exists>it'. bi_First it = Some (it', False) \<and> \<not> bi_valid it' \<and> bi_of r es it'
    | e # _ \<Rightarrow> \<exists>it'. bi_First it = Some (it', True) \<and> bi_at r es 1 it' \<and> bi_key it' = fst e \<and> bi_val it' = snd e \<and> bi_valid it'"
proof (cases es)
  case Nil
  with bi_at_end [of r es "it\<lparr>bi_offset := 0, bi_key := []\<rparr>"] bi_at_0 [OF assms(1)] assms(1)
  show ?thesis by (simp add: bi_First_def bi_of_def)
next
  case (Cons e es')
  with bi_at_next [OF bi_at_0 [OF assms(1)] _ assms(2)] show ?thesis by (simp add: bi_First_def)
qed

section \<open>Seeking\<close>

lemma getRestart_of:
  assumes "bi_of r es it" and "j < length (restart_indices r (length es))" and small: "length (block_of r es) < 2 ^ 32"
  shows "bi_getRestart it (int j) = Some (int (offset_of r es (restart_indices r (length es) ! j)))"
proof -
  let ?is = "restart_indices r (length es)" and ?o = "offset_of r es (length es)"
  obtain rest where rest: "drop (4 * j) (concat (map (\<lambda>i. PutUint32LE (of_nat (offset_of r es i))) ?is) @ PutUint32LE (of_nat (length ?is))) =
      PutUint32LE (of_nat (offset_of r es (?is ! j))) @ rest"
    using drop_concat_restarts [OF assms(2), of "\<lambda>i. of_nat (offset_of r es i)" "PutUint32LE (of_nat (length ?is))"]
    by (elim exE) (rule that)
  have "length (enc_entries r 0 [] es) = ?o" by (simp add: offset_of_def)
  then have "drop (?o + 4 * j) (block_of r es) = PutUint32LE (of_nat (offset_of r es (?is ! j))) @ rest"
    using rest by (simp add: block_of_eq)
  moreover have "nat (int ?o + int j * 4) = ?o + 4 * j" by simp
  moreover have "?o + 4 * j \<le> length (block_of r es)" using assms(2) by (simp add: length_block_of)
  ultimately have "go_from (bi_data it) (bi_restarts it + int j * 4) = Some (PutUint32LE (of_nat (offset_of r es (?is ! j))) @ rest)"
    using assms(1) by (simp add: go_from_def bi_of_def)
  moreover have "uint (of_nat (offset_of r es (?is ! j)) :: u32) = int (offset_of r es (?is ! j))"
  proof -
    have "?is ! j \<in> set ?is" using assms(2) by (rule nth_mem)
    then have "?is ! j < length es" by (simp add: restart_indices_def)
    then have "offset_of r es (?is ! j) < 2 ^ 32" using offset_end [of "?is ! j" es r] small by (simp add: length_block_of)
    then show ?thesis by (simp add: unsigned_of_nat take_bit_nat_eq_self)
  qed
  ultimately show ?thesis by (simp add: bi_getRestart_def)
qed

lemma decodeKeyAt_of:
  assumes "bi_of r es it" and i: "i < length es" "i mod r = 0" and small: "length (block_of r es) < 2 ^ 32"
  shows "bi_decodeKeyAt it (int (offset_of r es i)) = Some (fst (es ! i))"
proof -
  let ?k = "fst (es ! i)" and ?v = "snd (es ! i)" and ?pre = "enc_entries r 0 [] (take i es)"
  obtain rest where b: "block_of r es = ?pre @ block_entry 0 ?k ?v @ rest" using entry_at [OF i(1), of r] i(2) by auto
  obtain w1 w2 w3 :: u64 where w: "w1 = 0" "w2 = of_nat (length ?k)" "w3 = of_nat (length ?v)" by simp
  have D: "bi_data it = ?pre @ PutUvarint w1 @ PutUvarint w2 @ PutUvarint w3 @ ?k @ ?v @ rest"
    using assms(1) b by (simp add: block_entry_def w bi_of_def)
  obtain n1 n2 n3 where n: "n1 = int (length (PutUvarint w1))" "n2 = int (length (PutUvarint w2))" "n3 = int (length (PutUvarint w3))"
    by simp
  have "length ?k < 2 ^ 64" using small b by (simp add: block_entry_def)
  then have u: "uint w2 = int (length ?k)" by (simp add: w uint_of_nat_small)
  have off: "int (offset_of r es i) = int (length ?pre)" by (simp add: offset_of_def)
  have u1: "uvarint_at (bi_data it) (int (length ?pre)) = Some (w1, n1)"
    unfolding n by (rule uvarint_at_pre' [where pre = ?pre]) (simp_all add: D)
  have u2: "uvarint_at (bi_data it) (int (length ?pre) + n1) = Some (w2, n2)"
    unfolding n by (rule uvarint_at_pre' [where pre = "?pre @ PutUvarint w1"]) (simp_all add: D)
  have u3: "uvarint_at (bi_data it) (int (length ?pre) + n1 + n2) = Some (w3, n3)"
    unfolding n by (rule uvarint_at_pre' [where pre = "?pre @ PutUvarint w1 @ PutUvarint w2"]) (simp_all add: D)
  have "go_slice (bi_data it) (int (length ?pre) + n1 + n2 + n3) (int (length ?pre) + n1 + n2 + n3 + int (length ?k)) = Some ?k"
    using go_slice_append [of "int (length ?k)" ?k "?pre @ PutUvarint w1 @ PutUvarint w2 @ PutUvarint w3" "?v @ rest"]
    by (simp add: D n add.assoc)
  then show ?thesis unfolding bi_decodeKeyAt_def off by (simp add: u1 u2 u3 u Let_def)
qed

abbreviation sorted_keys :: "kv list \<Rightarrow> bool" where
  "sorted_keys es \<equiv> sorted_wrt (<) (map fst es)"

lemma sorted_keysD: "sorted_keys es \<Longrightarrow> i < j \<Longrightarrow> j < length es \<Longrightarrow> fst (es ! i) < fst (es ! j)"
  by (auto dest: sorted_wrt_nth_less)

lemma bi_search_of:
  assumes of: "bi_of r es it" and r: "0 < r" and small: "length (block_of r es) < 2 ^ 32" and srt: "sorted_keys es"
  shows "lo \<le> hi \<Longrightarrow> hi \<le> length (restart_indices r (length es)) \<Longrightarrow>
    \<forall>j<lo. fst (es ! (restart_indices r (length es) ! j)) < target \<Longrightarrow>
    \<exists>l. bi_search it target lo hi = Some l \<and> lo \<le> l \<and> l \<le> hi \<and> (\<forall>j<l. fst (es ! (restart_indices r (length es) ! j)) < target)"
proof (induction "hi - lo" arbitrary: lo hi rule: less_induct)
  case less
  let ?is = "restart_indices r (length es)"
  show ?case
  proof (cases "lo < hi")
    case False
    then have "bi_search it target lo hi = Some lo" by (subst bi_search.simps) simp
    with less.prems show ?thesis by simp
  next
    case True
    let ?mid = "lo + (hi - lo) div 2"
    have mid: "lo \<le> ?mid" "?mid < hi" using True by auto
    have inb: "?mid < length ?is" using mid less.prems by simp
    have "?is ! ?mid \<in> set ?is" using inb by (rule nth_mem)
    then have e: "?is ! ?mid < length es" "(?is ! ?mid) mod r = 0" by (simp_all add: restart_indices_def)
    note step = getRestart_of [OF of inb small] decodeKeyAt_of [OF of e small]
    have lower: "fst (es ! (?is ! j)) < target" if "fst (es ! (?is ! ?mid)) < target" "j < Suc ?mid" for j
    proof (cases "j = ?mid")
      case False
      have "?is ! j < ?is ! ?mid" using False that(2) inb r by (simp add: restart_indices_eq)
      from sorted_keysD [OF srt this e(1)] that(1) show ?thesis by simp
    qed (use that in simp)
    show ?thesis
    proof (cases "fst (es ! (?is ! ?mid)) < target")
      case True
      then have "bi_search it target lo hi = bi_search it target (Suc ?mid) hi"
        using \<open>lo < hi\<close> step by (subst bi_search.simps) (simp add: Let_def compareBytes_eq compareKeys_less)
      moreover have "\<exists>l. bi_search it target (Suc ?mid) hi = Some l \<and> Suc ?mid \<le> l \<and> l \<le> hi \<and> (\<forall>j<l. fst (es ! (?is ! j)) < target)"
        using mid less.prems lower [OF True] by (intro less.hyps) auto
      ultimately show ?thesis using mid by (elim exE conjE) (intro exI conjI, simp_all)
    next
      case False
      then have "bi_search it target lo hi = bi_search it target lo ?mid"
        using \<open>lo < hi\<close> step by (subst bi_search.simps) (simp add: Let_def compareBytes_eq compareKeys_less)
      moreover have "\<exists>l. bi_search it target lo ?mid = Some l \<and> lo \<le> l \<and> l \<le> ?mid \<and> (\<forall>j<l. fst (es ! (?is ! j)) < target)"
        using mid less.prems by (intro less.hyps) auto
      ultimately show ?thesis using mid by (elim exE conjE) (intro exI conjI, simp_all)
    qed
  qed
qed

lemma bi_scan_at:
  assumes "bi_at r es i it" and "length (block_of r es) < 2 ^ 32"
  shows "case dropWhile (\<lambda>e. fst e < target) (drop i es) of
      [] \<Rightarrow> \<exists>it'. bi_scan it target = Some (it', False) \<and> \<not> bi_valid it'
    | e # rest \<Rightarrow> \<exists>it' j. bi_scan it target = Some (it', True) \<and> bi_key it' = fst e \<and> bi_val it' = snd e \<and> bi_valid it' \<and>
        bi_at r es j it' \<and> drop j es = rest"
  using assms(1)
proof (induction "length es - i" arbitrary: i it)
  case 0
  then have "i = length es" by (simp add: bi_at_def)
  with bi_at_end [of r es it] 0 show ?case by (simp add: bi_scan.simps [of it] bi_invalid_def)
next
  case (Suc n)
  then have i: "i < length es" by linarith
  from bi_at_next [OF Suc.prems i assms(2)] obtain it' where nx: "bi_next it = Some (it', True)" and at: "bi_at r es (Suc i) it'"
    and kv: "bi_key it' = fst (es ! i)" "bi_val it' = snd (es ! i)" "bi_valid it'" by blast
  have d: "drop i es = es ! i # drop (Suc i) es" using i by (simp add: Cons_nth_drop_Suc)
  have n: "n = length es - Suc i" using Suc by simp
  show ?case
  proof (cases "fst (es ! i) < target")
    case True
    then have "bi_scan it target = bi_scan it' target"
      using nx kv compareKeys_less [of "fst (es ! i)" target] by (simp add: bi_scan.simps [of it] compareBytes_eq)
    with Suc.hyps(1) [OF n at] d True show ?thesis by (simp cong: list.case_cong)
  next
    case False
    then have "bi_scan it target = Some (it', True)"
      using nx kv compareKeys_less [of "fst (es ! i)" target] by (simp add: bi_scan.simps [of it] compareBytes_eq)
    with False d kv at show ?thesis by auto
  qed
qed

lemma bi_SeekGE_of:
  assumes of: "bi_of r es it" and r: "0 < r" and small: "length (block_of r es) < 2 ^ 32" and srt: "sorted_keys es"
  shows "case dropWhile (\<lambda>e. fst e < target) es of
      [] \<Rightarrow> \<exists>it'. bi_SeekGE it target = Some (it', False) \<and> \<not> bi_valid it'
    | e # rest \<Rightarrow> \<exists>it' j. bi_SeekGE it target = Some (it', True) \<and> bi_key it' = fst e \<and> bi_val it' = snd e \<and> bi_valid it' \<and>
        bi_at r es j it' \<and> drop j es = rest"
proof -
  let ?is = "restart_indices r (length es)"
  obtain l where l: "bi_search it target 0 (length ?is) = Some l" "l \<le> length ?is" "\<forall>j<l. fst (es ! (?is ! j)) < target"
    using bi_search_of [OF of r small srt, of 0 "length ?is" target] by auto
  let ?start = "l - 1"
  have num: "bi_numRestarts it = length ?is" using of by (simp add: bi_of_def)
  have st: "(if int l - 1 < 0 then 0 else int l - 1) = int ?start" by (cases l) simp_all
  obtain i where i: "bi_getRestart it (int ?start) = Some (int (offset_of r es i))" "i mod r = 0" "i \<le> length es"
      "\<forall>j<i. fst (es ! j) < target"
  proof (cases "es = []")
    case True
    have "bi_getRestart it 0 = Some 0"
      using of True by (simp add: bi_getRestart_def go_from_def bi_of_def block_of_eq offset_of_def restart_indices_def)
    with True l that [of 0] show ?thesis by (simp add: offset_of_def restart_indices_def)
  next
    case False
    then have "0 \<in> set ?is" by (simp add: restart_indices_def)
    then have ne: "0 < length ?is" by (rule length_pos_if_in_set)
    then have b: "?start < length ?is" using l(2) by (cases l) auto
    then have "?is ! ?start \<in> set ?is" by (rule nth_mem)
    then have e: "?is ! ?start < length es" "?is ! ?start mod r = 0" by (simp_all add: restart_indices_def)
    have "fst (es ! j) < target" if "j < ?is ! ?start" for j
    proof (cases l)
      case 0
      then have "?is ! ?start = 0" using r ne by (simp add: restart_indices_eq)
      with that show ?thesis by simp
    next
      case (Suc m)
      with l(3) have "fst (es ! (?is ! ?start)) < target" by simp
      with sorted_keysD [OF srt that e(1)] show ?thesis by simp
    qed
    with that [OF getRestart_of [OF of b small] e(2)] e(1) show ?thesis by simp
  qed
  have sk: "bi_SeekGE it target = bi_scan (it\<lparr>bi_offset := int (offset_of r es i), bi_key := []\<rparr>) target"
    unfolding bi_SeekGE_def num l(1) by (simp only: option.case Let_def st i(1))
  have at: "bi_at r es i (it\<lparr>bi_offset := int (offset_of r es i), bi_key := []\<rparr>)"
    using of i by (simp add: bi_at_def bi_of_def)
  have dw: "dropWhile (\<lambda>e. fst e < target) es = dropWhile (\<lambda>e. fst e < target) (drop i es)"
  proof -
    have "\<forall>e\<in>set (take i es). fst e < target"
    proof
      fix e assume "e \<in> set (take i es)"
      then obtain j where "j < i" "e = es ! j" using i(3) by (auto simp: in_set_conv_nth)
      with i(4) show "fst e < target" by simp
    qed
    then have "dropWhile (\<lambda>e. fst e < target) (take i es @ drop i es) = dropWhile (\<lambda>e. fst e < target) (drop i es)"
      by (intro dropWhile_append2) blast
    then show ?thesis by simp
  qed
  show ?thesis unfolding sk dw by (rule bi_scan_at [OF at small])
qed

section \<open>The size of a block\<close>

lemma length_enc_entries: "length (enc_entries r i prev es) \<le> sum_list (map (\<lambda>e. 30 + length (fst e) + length (snd e)) es)"
proof (induction es arbitrary: i prev)
  case (Cons e es)
  let ?s = "shared_at r i prev (fst e)"
  have "length (block_entry ?s (fst e) (snd e)) \<le> 30 + length (fst e) + length (snd e)"
    using length_PutUvarint [of "of_nat ?s"] length_PutUvarint [of "of_nat (length (fst e) - ?s)"]
      length_PutUvarint [of "of_nat (length (snd e))"] by (simp add: block_entry_def) linarith
  with Cons.IH [of "Suc i" "fst e"] show ?case by simp
qed simp

lemma length_block_bound:
  "length (block_of r es) \<le> sum_list (map (\<lambda>e. 34 + length (fst e) + length (snd e)) es) + 4"
proof -
  have "length (restart_indices r (length es)) \<le> length es"
    using length_filter_le [of _ "[0..<length es]"] by (simp add: restart_indices_def)
  moreover have "sum_list (map (\<lambda>e. 34 + length (fst e) + length (snd e)) es) =
      sum_list (map (\<lambda>e. 30 + length (fst e) + length (snd e)) es) + 4 * length es"
    by (induction es) auto
  ultimately show ?thesis using length_enc_entries [of r 0 "[]" es] by (simp add: length_block_of offset_of_def)
qed

section \<open>Properties\<close>

text \<open>A block read from its first entry to its end yields exactly the entries added, in order, with
  the full keys restored from their prefix compression, at every restart interval and for keys in
  any order; no slice goes out of range.\<close>

theorem block_scan_roundtrip:
  assumes "length (block_of r es) < 2 ^ 32"
  shows "block_scan (block_of r es) = Some es"
proof -
  note of = newBlockIterator_of [OF assms]
  show ?thesis
    using bi_First_at [OF of assms] bi_drain_at [OF _ assms, of 1]
    by (cases es) (auto simp: block_scan_def bi_Key_def bi_Value_def)
qed

theorem block_scan_roundtrip_witness:
  "block_scan (block_of 2 [([1, 2], [9]), ([1, 2, 3], []), ([1, 2, 4], [7, 7])]) = Some [([1, 2], [9]), ([1, 2, 3], []), ([1, 2, 4], [7, 7])]"
proof (rule block_scan_roundtrip)
  show "length (block_of 2 [([1, 2], [9]), ([1, 2, 3], []), ([1, 2, 4], [7, 7])]) < 2 ^ 32"
    by (rule le_less_trans [OF length_block_bound]) simp
qed

text \<open>Seeking in a block of sorted keys, by binary search over the restart points and a scan from
  there, finds the first entry whose key is not below the target, reports none exactly when every
  key is below it, and from there the following entries come in order.\<close>

theorem block_seek:
  assumes "0 < r" and "length (block_of r es) < 2 ^ 32" and "sorted_keys es"
  shows "case dropWhile (\<lambda>e. fst e < target) es of
      [] \<Rightarrow> \<exists>it'. bi_SeekGE (newBlockIterator (block_of r es)) target = Some (it', False) \<and> \<not> bi_Valid it'
    | e # rest \<Rightarrow> \<exists>it'. bi_SeekGE (newBlockIterator (block_of r es)) target = Some (it', True) \<and> bi_Valid it' \<and>
        (bi_Key it', bi_Value it') = e \<and> bi_drain it' = Some rest"
proof (cases "dropWhile (\<lambda>e. fst e < target) es")
  case Nil
  with bi_SeekGE_of [OF newBlockIterator_of [OF assms(2)] assms, of target] show ?thesis
    unfolding Nil list.case bi_Valid_def by simp
next
  case (Cons e rest)
  with bi_SeekGE_of [OF newBlockIterator_of [OF assms(2)] assms, of target] bi_drain_at [OF _ assms(2)]
  show ?thesis unfolding Cons list.case bi_Valid_def bi_Key_def bi_Value_def by fastforce
qed

theorem block_seek_witness:
  "\<exists>it'. bi_SeekGE (newBlockIterator (block_of 2 [([1, 2], [9]), ([1, 2, 3], []), ([1, 2, 4], [7, 7])])) [1, 2, 3] = Some (it', True) \<and>
     bi_Key it' = [1, 2, 3]"
proof -
  have "length (block_of 2 [([1, 2], [9]), ([1, 2, 3], []), ([1, 2, 4], [7, 7])]) < 2 ^ 32"
    by (rule le_less_trans [OF length_block_bound]) simp
  from block_seek [OF _ this, of "[1, 2, 3]"] show ?thesis by auto
qed

end
