(* ===== verification/Source.thy ===== *)
theory Source
  imports Block_Scan
begin

text \<open>
  The interface \<^verbatim>\<open>Iterator\<close> of \<^verbatim>\<open>pkg/lsm/merge_iterator.go\<close>: what the merge iterator relies on in
  every source. The operations thread a state \<open>g\<close> that several sources share (the block cache);
  \<open>None\<close> is a panic. \<open>src i es\<close> says that \<open>i\<close> iterates over \<open>es\<close>, and \<open>at_rest i es rest\<close> that it is
  positioned so that \<open>rest\<close> is left, the current entry first.
\<close>

text \<open>A strictly sorted list of entries is determined by its map.\<close>

lemma from_keys: "distinct (map fst es) \<Longrightarrow> map (\<lambda>k. (k, the (map_of es k))) (map fst es) = es"
  by (simp add: comp_def) (rule map_idI, force simp: map_of_is_SomeI)

lemma sorted_keys_unique:
  assumes "sorted_keys es" and "sorted_keys es'" and "map_of es = map_of es'"
  shows "es = es'"
proof -
  have d: "distinct (map fst es)" "distinct (map fst es')" using assms(1,2) strict_sorted_iff by blast+
  have "set (map fst es) = set (map fst es')"
    using arg_cong [OF assms(3), of dom] by (simp add: dom_map_of_conv_image_fst)
  then have "map fst es = map fst es'" using strict_sorted_equal assms(1,2) by blast
  then show ?thesis using from_keys [OF d(1)] from_keys [OF d(2)] assms(3) by metis
qed

locale sorted_source =
  fixes seek_op :: "'i \<Rightarrow> 'g \<Rightarrow> bytes \<Rightarrow> ('i \<times> 'g \<times> bool) option"
    and first_op next_op :: "'i \<Rightarrow> 'g \<Rightarrow> ('i \<times> 'g \<times> bool) option"
    and valid_op :: "'i \<Rightarrow> bool"
    and key_op val_op :: "'i \<Rightarrow> bytes option"
    and good :: "'g \<Rightarrow> bool"
    and src :: "'i \<Rightarrow> kv list \<Rightarrow> bool"
    and at_rest :: "'i \<Rightarrow> kv list \<Rightarrow> kv list \<Rightarrow> bool"
  assumes src_sorted: "src i es \<Longrightarrow> sorted_keys es"
    and seek_src: "src i es \<Longrightarrow> good g \<Longrightarrow> dropWhile (\<lambda>e. fst e < t) es = rest \<Longrightarrow>
      \<exists>i' g'. seek_op i g t = Some (i', g', rest \<noteq> []) \<and> good g' \<and> src i' es \<and> (rest \<noteq> [] \<longrightarrow> at_rest i' es rest)"
    and first_src: "src i es \<Longrightarrow> good g \<Longrightarrow>
      \<exists>i' g'. first_op i g = Some (i', g', es \<noteq> []) \<and> good g' \<and> src i' es \<and> (es \<noteq> [] \<longrightarrow> at_rest i' es es)"
    and next_at: "at_rest i es (e # rest) \<Longrightarrow> good g \<Longrightarrow>
      \<exists>i' g'. next_op i g = Some (i', g', rest \<noteq> []) \<and> good g' \<and> src i' es \<and> (rest \<noteq> [] \<longrightarrow> at_rest i' es rest)"
    and at_entry: "at_rest i es (e # rest) \<Longrightarrow> key_op i = Some (fst e) \<and> val_op i = Some (snd e) \<and> valid_op i"
    and at_suffix: "at_rest i es rest \<Longrightarrow> src i es \<and> (\<exists>before. es = before @ rest)"

text \<open>The loop \<^verbatim>\<open>for ok := ...; ok; ok = it.Next()\<close> that reads the rest of a source.\<close>

fun read_rest ::
  "('i \<Rightarrow> 'g \<Rightarrow> ('i \<times> 'g \<times> bool) option) \<Rightarrow> ('i \<Rightarrow> bytes option) \<Rightarrow> ('i \<Rightarrow> bytes option) \<Rightarrow> nat \<Rightarrow> ('i \<times> 'g \<times> bool) option \<Rightarrow> (kv list \<times> 'g) option" where
  "read_rest next_op key_op val_op n None = None"
| "read_rest next_op key_op val_op n (Some (i, g, False)) = Some ([], g)"
| "read_rest next_op key_op val_op 0 (Some (i, g, True)) = None"
| "read_rest next_op key_op val_op (Suc n) (Some (i, g, True)) =
     (case (key_op i, val_op i) of
        (Some k, Some v) \<Rightarrow> map_option (\<lambda>(es, g). ((k, v) # es, g)) (read_rest next_op key_op val_op n (next_op i g))
      | _ \<Rightarrow> None)"

context sorted_source
begin

lemma read_at:
  "at_rest i es rest \<Longrightarrow> rest \<noteq> [] \<Longrightarrow> good g \<Longrightarrow> length rest \<le> n \<Longrightarrow>
    \<exists>g'. read_rest next_op key_op val_op n (Some (i, g, True)) = Some (rest, g') \<and> good g'"
proof (induction rest arbitrary: i g n)
  case (Cons e rest)
  obtain m where n: "n = Suc m" "length rest \<le> m" using Cons.prems(4) by (cases n) auto
  note k = at_entry [OF Cons.prems(1)]
  obtain i' g' where nx: "next_op i g = Some (i', g', rest \<noteq> [])" "good g'" "rest \<noteq> [] \<longrightarrow> at_rest i' es rest"
    using next_at [OF Cons.prems(1,3)] by (elim exE conjE) (rule that)
  show ?case
  proof (cases "rest = []")
    case True
    then show ?thesis using n k nx by simp
  next
    case False
    with Cons.IH [of i' g' m] nx n k show ?thesis by auto
  qed
qed simp

text \<open>Enough fuel is the number of entries.\<close>

lemma read_first:
  assumes "src i es" and "good g" and "length es \<le> n"
  shows "\<exists>g'. read_rest next_op key_op val_op n (first_op i g) = Some (es, g') \<and> good g'"
proof -
  obtain i' g' where f: "first_op i g = Some (i', g', es \<noteq> [])" "good g'" "es \<noteq> [] \<longrightarrow> at_rest i' es es"
    using first_src [OF assms(1,2)] by (elim exE conjE) (rule that)
  show ?thesis
  proof (cases "es = []")
    case False
    with f read_at [of i' es es g' n] assms(3) show ?thesis by simp
  qed (use f in simp)
qed

lemma read_seek:
  assumes "src i es" and "good g" and "length es \<le> n"
  shows "\<exists>g'. read_rest next_op key_op val_op n (seek_op i g t) = Some (dropWhile (\<lambda>e. fst e < t) es, g') \<and> good g'"
proof -
  let ?rest = "dropWhile (\<lambda>e. fst e < t) es"
  obtain i' g' where f: "seek_op i g t = Some (i', g', ?rest \<noteq> [])" "good g'" "?rest \<noteq> [] \<longrightarrow> at_rest i' es ?rest"
    using seek_src [OF assms(1,2) refl, of t] by (elim exE conjE) (rule that)
  have l: "length ?rest \<le> n" using length_dropWhile_le [of _ es] assms(3) order_trans by blast
  show ?thesis
  proof (cases "?rest = []")
    case True
    with f show ?thesis by (simp only: True) simp
  next
    case False
    with f read_at [of i' es ?rest g' n] l show ?thesis by (simp only: False) simp
  qed
qed

end

end
