(* ===== verification/Heap.thy ===== *)
theory Heap
  imports Prelude "HOL-Library.Multiset"
begin

text \<open>
  The binary heap of Go's \<^verbatim>\<open>container/heap\<close>, as far as \<^verbatim>\<open>pkg/lsm/merge_iterator.go\<close> uses it, over
  a slice whose \<^verbatim>\<open>Less\<close> may panic (\<open>None\<close>). The lemmas show, for a \<^verbatim>\<open>Less\<close> that compares ranks in
  a linear order, that no operation panics, that each keeps the heap property and moves the elements
  it should, and that the first element has the least rank.
\<close>

section \<open>Operations\<close>

definition heap_swap :: "nat \<Rightarrow> nat \<Rightarrow> 'a list \<Rightarrow> 'a list" where
  "heap_swap i j h = h[i := h ! j, j := h ! i]"

abbreviation parent :: "nat \<Rightarrow> nat" where
  "parent j \<equiv> (j - 1) div 2"

function heap_up :: "('a \<Rightarrow> 'a \<Rightarrow> bool option) \<Rightarrow> 'a list \<Rightarrow> nat \<Rightarrow> 'a list option" where
  "heap_up lt h j =
     (let i = parent j in
      if i = j then Some h
      else case lt (h ! j) (h ! i) of
        None \<Rightarrow> None
      | Some b \<Rightarrow> if b then heap_up lt (heap_swap i j h) i else Some h)"
  by pat_completeness auto
termination
  by (relation "measure (\<lambda>(lt, h, j). j)") auto

text \<open>The child that \<^verbatim>\<open>down\<close> compares with, when there is one.\<close>

definition heap_child :: "('a \<Rightarrow> 'a \<Rightarrow> bool option) \<Rightarrow> 'a list \<Rightarrow> nat \<Rightarrow> nat \<Rightarrow> nat option" where
  "heap_child lt h i n =
     (let j1 = 2 * i + 1; j2 = j1 + 1
      in if j2 < n then map_option (\<lambda>right. if right then j2 else j1) (lt (h ! j2) (h ! j1)) else Some j1)"

lemma heap_childD: "heap_child lt h i n = Some j \<Longrightarrow> 2 * i + 1 < n \<Longrightarrow> i < j \<and> j < n \<and> (j = 2 * i + 1 \<or> j = 2 * i + 2)"
  by (auto simp: heap_child_def Let_def split: if_splits)

text \<open>The result carries the position at which the element came to rest; \<^verbatim>\<open>down\<close> returns whether
  it is above the first one.\<close>

function heap_down :: "('a \<Rightarrow> 'a \<Rightarrow> bool option) \<Rightarrow> 'a list \<Rightarrow> nat \<Rightarrow> nat \<Rightarrow> ('a list \<times> nat) option" where
  "heap_down lt h i n =
     (if n \<le> 2 * i + 1 then Some (h, i)
      else case heap_child lt h i n of
        None \<Rightarrow> None
      | Some j \<Rightarrow>
          (case lt (h ! j) (h ! i) of
             None \<Rightarrow> None
           | Some b \<Rightarrow> if b then heap_down lt (heap_swap i j h) j n else Some (h, i)))"
  by pat_completeness auto
termination
  by (relation "measure (\<lambda>(lt, h, i, n). n - i)") (auto dest!: heap_childD)

declare heap_up.simps [simp del] heap_down.simps [simp del]

definition heap_Push :: "('a \<Rightarrow> 'a \<Rightarrow> bool option) \<Rightarrow> 'a list \<Rightarrow> 'a \<Rightarrow> 'a list option" where
  "heap_Push lt h x = heap_up lt (h @ [x]) (length h)"

definition heap_Pop :: "('a \<Rightarrow> 'a \<Rightarrow> bool option) \<Rightarrow> 'a list \<Rightarrow> ('a list \<times> 'a) option" where
  "heap_Pop lt h =
     (if h = [] then None
      else let n = length h - 1 in
        case heap_down lt (heap_swap 0 n h) 0 n of
          None \<Rightarrow> None
        | Some (h, _) \<Rightarrow> Some (take n h, h ! n))"

definition heap_Fix :: "('a \<Rightarrow> 'a \<Rightarrow> bool option) \<Rightarrow> 'a list \<Rightarrow> nat \<Rightarrow> 'a list option" where
  "heap_Fix lt h i =
     (case heap_down lt h i (length h) of
        None \<Rightarrow> None
      | Some (h, i') \<Rightarrow> if i < i' then Some h else heap_up lt h i)"

section \<open>The heap property\<close>

definition ranked :: "('a \<Rightarrow> 'a \<Rightarrow> bool option) \<Rightarrow> ('a \<Rightarrow> 'r::linorder) \<Rightarrow> 'a list \<Rightarrow> bool" where
  "ranked lt rank h \<longleftrightarrow> (\<forall>x\<in>set h. \<forall>y\<in>set h. lt x y = Some (rank x < rank y))"

definition link :: "('a \<Rightarrow> 'r::linorder) \<Rightarrow> 'a list \<Rightarrow> nat \<Rightarrow> bool" where
  "link rank h k \<longleftrightarrow> rank (h ! parent k) \<le> rank (h ! k)"

definition is_heap :: "('a \<Rightarrow> 'r::linorder) \<Rightarrow> 'a list \<Rightarrow> bool" where
  "is_heap rank h \<longleftrightarrow> (\<forall>k. 0 < k \<and> k < length h \<longrightarrow> link rank h k)"

lemma parent_less: "0 < k \<Longrightarrow> parent k < k"
  by auto

lemma is_heap_least:
  assumes "is_heap rank h" and "k < length h"
  shows "rank (h ! 0) \<le> rank (h ! k)"
  using assms(2)
proof (induction k rule: less_induct)
  case (less k)
  show ?case
  proof (cases "k = 0")
    case False
    then have "rank (h ! 0) \<le> rank (h ! parent k)" using less.IH [of "parent k"] less.prems parent_less [of k] by auto
    also have "\<dots> \<le> rank (h ! k)" using assms(1) less.prems False by (auto simp: is_heap_def link_def)
    finally show ?thesis .
  qed simp
qed

lemma length_heap_swap [simp]: "length (heap_swap i j h) = length h"
  by (simp add: heap_swap_def)

lemma mset_heap_swap [simp]: "i < length h \<Longrightarrow> j < length h \<Longrightarrow> mset (heap_swap i j h) = mset h"
  using mset_swap [of j h i] by (simp add: heap_swap_def)

lemma nth_heap_swap:
  "i < length h \<Longrightarrow> j < length h \<Longrightarrow> heap_swap i j h ! k = (if k = j then h ! i else if k = i then h ! j else h ! k)"
  by (simp add: heap_swap_def nth_list_update)

lemma ranked_mset: "mset h' = mset h \<Longrightarrow> ranked lt rank h' = ranked lt rank h"
  using mset_eq_setD [of h' h] by (simp add: ranked_def)

lemma ranked_nth: "ranked lt rank h \<Longrightarrow> a < length h \<Longrightarrow> b < length h \<Longrightarrow> lt (h ! a) (h ! b) = Some (rank (h ! a) < rank (h ! b))"
  by (simp add: ranked_def)

section \<open>Moving up\<close>

text \<open>A heap but for the element at \<open>j\<close>, which may be lt than its parent.\<close>

definition heap_up_at :: "('a \<Rightarrow> 'r::linorder) \<Rightarrow> 'a list \<Rightarrow> nat \<Rightarrow> bool" where
  "heap_up_at rank h j \<longleftrightarrow> j < length h \<and> (\<forall>k. 0 < k \<and> k < length h \<and> k \<noteq> j \<longrightarrow> link rank h k) \<and>
     (\<forall>k. 0 < j \<and> 0 < k \<and> k < length h \<and> parent k = j \<longrightarrow> rank (h ! parent j) \<le> rank (h ! k))"

lemma heap_up_at_swap:
  assumes at: "heap_up_at rank h j" and j: "0 < j" and i: "parent j = i" and ls: "rank (h ! j) < rank (h ! i)"
  shows "heap_up_at rank (heap_swap i j h) i"
proof -
  have l: "j < length h" "i < length h" "i < j" using at j parent_less [OF j] i by (auto simp: heap_up_at_def)
  note nth = nth_heap_swap [OF l(2,1)]
  have lk: "rank (h ! parent k) \<le> rank (h ! k)" if "0 < k" "k < length h" "k \<noteq> j" for k
    using at that by (simp add: heap_up_at_def link_def)
  have up: "rank (h ! i) \<le> rank (h ! k)" if "0 < k" "k < length h" "parent k = j" for k
    using at that j i by (simp add: heap_up_at_def)
  have "link rank (heap_swap i j h) k" if k: "0 < k" "k < length h" "k \<noteq> i" for k
  proof (cases "k = j")
    case True
    then show ?thesis using l ls i by (simp add: link_def nth)
  next
    case False
    note k1 = lk [OF k(1,2) False]
    consider "parent k = j" | "parent k = i" | "parent k \<noteq> j" "parent k \<noteq> i" by blast
    then show ?thesis
    proof cases
      case 1
      then show ?thesis using up [OF k(1,2) 1] k(3) False by (simp add: link_def nth)
    next
      case 2
      then show ?thesis using k1 ls k(3) False l(3) by (simp add: link_def nth)
    next
      case 3
      then show ?thesis using k1 k(3) False by (simp add: link_def nth)
    qed
  qed
  moreover have "rank (heap_swap i j h ! parent i) \<le> rank (heap_swap i j h ! k)"
    if k: "0 < i" "0 < k" "k < length h" "parent k = i" for k
  proof -
    have p: "parent i < i" by (rule parent_less [OF k(1)])
    have pi: "rank (h ! parent i) \<le> rank (h ! i)" using lk [OF k(1) l(2)] l(3) by simp
    show ?thesis
    proof (cases "k = j")
      case True
      then show ?thesis using pi p l(3) k(4) by (simp add: nth)
    next
      case False
      have "k \<noteq> i" using k(4) parent_less [OF k(2)] by simp
      then show ?thesis using order_trans [OF pi] lk [OF k(2,3) False] k(4) False p l(3) by (simp add: nth)
    qed
  qed
  ultimately show ?thesis unfolding heap_up_at_def using l(2) by simp
qed

lemma heap_up_ok:
  "heap_up_at rank h j \<Longrightarrow> ranked lt rank h \<Longrightarrow>
    \<exists>h'. heap_up lt h j = Some h' \<and> is_heap rank h' \<and> mset h' = mset h"
proof (induction lt h j rule: heap_up.induct)
  case (1 lt h j)
  show ?case
  proof (cases "j = 0")
    case True
    then have "heap_up lt h j = Some h" by (simp add: heap_up.simps [of lt h 0])
    then show ?thesis using True "1.prems"(1) by (simp add: heap_up_at_def is_heap_def)
  next
    case False
    then have l: "parent j < j" "j < length h" "parent j < length h" using "1.prems"(1) by (auto simp: heap_up_at_def)
    note ls = ranked_nth [OF "1.prems"(2) l(2,3)]
    show ?thesis
    proof (cases "rank (h ! j) < rank (h ! parent j)")
      case True
      have "ranked lt rank (heap_swap (parent j) j h)"
        using "1.prems"(2) by (simp only: ranked_mset [OF mset_heap_swap [OF l(3,2)]])
      then obtain h' where "heap_up lt (heap_swap (parent j) j h) (parent j) = Some h'" "is_heap rank h'" "mset h' = mset h"
        using "1.IH" [OF refl _ ls True heap_up_at_swap [OF "1.prems"(1) _ refl True]] l by auto
      then show ?thesis using ls True l(1) by (simp add: heap_up.simps [of lt h j])
    next
      case no: False
      have "is_heap rank h" unfolding is_heap_def
      proof (intro allI impI)
        fix k assume k: "0 < k \<and> k < length h"
        show "link rank h k" using k no "1.prems"(1) by (cases "k = j") (auto simp: heap_up_at_def link_def)
      qed
      then show ?thesis using ls no l(1) by (simp add: heap_up.simps [of lt h j])
    qed
  qed
qed

section \<open>Moving down\<close>

text \<open>A heap but for the element at \<open>i\<close>, which may be above its children.\<close>

definition heap_down_at :: "('a \<Rightarrow> 'r::linorder) \<Rightarrow> 'a list \<Rightarrow> nat \<Rightarrow> bool" where
  "heap_down_at rank h i \<longleftrightarrow> (\<forall>k. 0 < k \<and> k < length h \<and> parent k \<noteq> i \<longrightarrow> link rank h k) \<and>
     (\<forall>k. 0 < i \<and> 0 < k \<and> k < length h \<and> parent k = i \<longrightarrow> rank (h ! parent i) \<le> rank (h ! k))"

lemma children: "0 < k \<Longrightarrow> parent k = i \<longleftrightarrow> k = 2 * i + 1 \<or> k = 2 * i + 2"
  by auto

lemma heap_down_at_swap:
  assumes at: "heap_down_at rank h i" and j: "parent j = i" "0 < j" "j < length h" and ls: "rank (h ! j) < rank (h ! i)"
    and least: "\<And>k. 0 < k \<Longrightarrow> k < length h \<Longrightarrow> parent k = i \<Longrightarrow> rank (h ! j) \<le> rank (h ! k)"
  shows "heap_down_at rank (heap_swap i j h) j"
proof -
  have l: "i < length h" "i < j" using j parent_less [OF j(2)] by auto
  note nth = nth_heap_swap [OF l(1) j(3)]
  have lk: "rank (h ! parent k) \<le> rank (h ! k)" if "0 < k" "k < length h" "parent k \<noteq> i" for k
    using at that by (simp add: heap_down_at_def link_def)
  have "link rank (heap_swap i j h) k" if k: "0 < k" "k < length h" "parent k \<noteq> j" for k
  proof (cases "parent k = i")
    case True
    then have "k \<noteq> i" using parent_less [OF k(1)] by auto
    then show ?thesis using True least [OF k(1,2) True] ls l(2) by (auto simp: link_def nth)
  next
    case False
    have "k \<noteq> j" using False j(1) by auto
    moreover have "k = i \<Longrightarrow> rank (h ! parent i) \<le> rank (h ! j)" 
      using at k(1) j by (simp add: heap_down_at_def)
    ultimately show ?thesis using lk [OF k(1,2) False] False k(3) by (cases "k = i") (simp_all add: link_def nth)
  qed
  moreover have "rank (heap_swap i j h ! parent j) \<le> rank (heap_swap i j h ! k)"
    if k: "0 < k" "k < length h" "parent k = j" for k
  proof -
    have "j < k" using parent_less [OF k(1)] k(3) by simp
    then show ?thesis using lk [OF k(1,2)] k(3) l(2) j(1) by (simp add: nth)
  qed
  ultimately show ?thesis by (simp add: heap_down_at_def)
qed

lemma heap_down_at_stop:
  assumes "heap_down_at rank h i" and "\<And>k. 0 < k \<Longrightarrow> k < length h \<Longrightarrow> parent k = i \<Longrightarrow> rank (h ! i) \<le> rank (h ! k)"
  shows "is_heap rank h"
  unfolding is_heap_def
proof (intro allI impI)
  fix k assume "0 < k \<and> k < length h"
  then show "link rank h k" using assms by (cases "parent k = i") (auto simp: heap_down_at_def link_def)
qed

lemma heap_down_ok:
  "heap_down_at rank h i \<Longrightarrow> ranked lt rank h \<Longrightarrow>
    \<exists>h' i'. heap_down lt h i (length h) = Some (h', i') \<and> is_heap rank h' \<and> mset h' = mset h \<and> i \<le> i' \<and> (i' = i \<longrightarrow> h' = h)"
proof (induction lt h i "length h" rule: heap_down.induct)
  case (1 lt h i)
  show ?case
  proof (cases "length h \<le> 2 * i + 1")
    case True
    have "is_heap rank h" by (rule heap_down_at_stop [OF "1.prems"(1)]) (use True in auto)
    then show ?thesis using True by (simp add: heap_down.simps [of lt h i])
  next
    case False
    let ?r = "2 * i + 2 < length h \<and> rank (h ! (2 * i + 2)) < rank (h ! (2 * i + 1))"
    define j where "j = (if ?r then 2 * i + 2 else 2 * i + 1)"
    have c: "heap_child lt h i (length h) = Some j"
      using ranked_nth [OF "1.prems"(2), of "2 * i + 2" "2 * i + 1"] False by (simp add: heap_child_def j_def)
    have l: "i < length h" "j < length h" "i < j" "0 < j" "parent j = i"
      using False heap_childD [OF c] by auto
    note ls = ranked_nth [OF "1.prems"(2) l(2,1)]
    have least: "rank (h ! j) \<le> rank (h ! k)" if "0 < k" "k < length h" "parent k = i" for k
      using that children [of k i] by (auto simp: j_def)
    have unf: "heap_down lt h i (length h) =
        (if rank (h ! j) < rank (h ! i) then heap_down lt (heap_swap i j h) j (length h) else Some (h, i))"
      using False by (simp add: heap_down.simps [of lt h i] c ls)
    show ?thesis
    proof (cases "rank (h ! j) < rank (h ! i)")
      case True
      have rk: "ranked lt rank (heap_swap i j h)"
        using "1.prems"(2) by (simp only: ranked_mset [OF mset_heap_swap [OF l(1,2)]])
      have at: "heap_down_at rank (heap_swap i j h) j"
        by (rule heap_down_at_swap [OF "1.prems"(1) l(5,4,2) True least])
      obtain h' i' where "heap_down lt (heap_swap i j h) j (length h) = Some (h', i')" "is_heap rank h'" "mset h' = mset h" "j \<le> i'"
        using "1.hyps" [OF False c ls True _ at rk] mset_heap_swap [OF l(1,2)] by auto
      then show ?thesis using unf True l(3) by (intro exI [of _ h'] exI [of _ i']) simp
    next
      case no: False
      have "rank (h ! i) \<le> rank (h ! k)" if "0 < k" "k < length h" "parent k = i" for k
        using least [OF that] no by simp
      then have "is_heap rank h" by (rule heap_down_at_stop [OF "1.prems"(1)])
      then show ?thesis using unf no by simp
    qed
  qed
qed

text \<open>Elements beyond the bound stay where they are.\<close>

lemma heap_swap_append:
  "i < length xs \<Longrightarrow> j < length xs \<Longrightarrow> heap_swap i j (xs @ ys) = heap_swap i j xs @ ys"
  by (simp add: heap_swap_def nth_append list_update_append)

lemma heap_child_append: "2 * i + 1 < length xs \<Longrightarrow> heap_child lt (xs @ ys) i (length xs) = heap_child lt xs i (length xs)"
  by (simp add: heap_child_def Let_def nth_append)

lemma heap_down_append:
  "heap_down lt (xs @ ys) i (length xs) = map_option (\<lambda>(h, k). (h @ ys, k)) (heap_down lt xs i (length xs))"
proof (induction lt xs i "length xs" rule: heap_down.induct)
  case (1 lt xs i)
  show ?case
  proof (cases "length xs \<le> 2 * i + 1")
    case False
    show ?thesis
    proof (cases "heap_child lt xs i (length xs)")
      case None
      then show ?thesis using False by (simp add: heap_down.simps [of lt _ i] heap_child_append)
    next
      case (Some j)
      have l: "i < length xs" "j < length xs" using heap_childD [OF Some] False by auto
      have nth: "(xs @ ys) ! i = xs ! i" "(xs @ ys) ! j = xs ! j" using l by (simp_all add: nth_append)
      have IH: "heap_down lt (heap_swap i j xs @ ys) j (length xs) =
          map_option (\<lambda>(h, k). (h @ ys, k)) (heap_down lt (heap_swap i j xs) j (length xs))"
        if "lt (xs ! j) (xs ! i) = Some True"
        using "1.hyps" [OF False Some that] by simp
      show ?thesis
      proof (cases "lt (xs ! j) (xs ! i)")
        case None
        then show ?thesis using False Some by (simp add: heap_down.simps [of lt _ i] heap_child_append nth)
      next
        case (Some b)
        then show ?thesis using False \<open>heap_child lt xs i (length xs) = Some j\<close> IH l
          by (cases b) (simp_all add: heap_down.simps [of lt _ i] heap_child_append nth heap_swap_append)
      qed
    qed
  qed (simp add: heap_down.simps [of _ _ i])
qed

section \<open>The operations\<close>

lemma heap_Push_ok:
  assumes "is_heap rank h" and "ranked lt rank (h @ [x])"
  shows "\<exists>h'. heap_Push lt h x = Some h' \<and> is_heap rank h' \<and> mset h' = add_mset x (mset h)"
proof -
  have "heap_up_at rank (h @ [x]) (length h)" unfolding heap_up_at_def
  proof (intro conjI allI impI)
    fix k assume k: "0 < k \<and> k < length (h @ [x]) \<and> k \<noteq> length h"
    then have "k < length h" "parent k < length h" using parent_less [of k] by auto
    then show "link rank (h @ [x]) k" using k assms(1) by (simp add: is_heap_def link_def nth_append)
  next
    fix k assume "0 < length h \<and> 0 < k \<and> k < length (h @ [x]) \<and> parent k = length h"
    then show "rank ((h @ [x]) ! parent (length h)) \<le> rank ((h @ [x]) ! k)" using parent_less [of k] by auto
  qed simp
  from heap_up_ok [OF this assms(2)] show ?thesis by (simp add: heap_Push_def)
qed

lemma heap_Fix_ok:
  assumes "heap_down_at rank h 0" and "ranked lt rank h"
  shows "\<exists>h'. heap_Fix lt h 0 = Some h' \<and> is_heap rank h' \<and> mset h' = mset h"
proof -
  obtain h' i' where d: "heap_down lt h 0 (length h) = Some (h', i')" "is_heap rank h'" "mset h' = mset h"
    using heap_down_ok [OF assms] by (elim exE conjE) (rule that)
  then show ?thesis by (simp add: heap_Fix_def heap_up.simps [of lt h' 0])
qed

lemma is_heap_down_at:
  assumes "is_heap rank h" and "\<And>k. 0 < k \<Longrightarrow> k < length h \<Longrightarrow> rank' (h ! k) = rank (h ! k)"
  shows "heap_down_at rank' h 0"
  unfolding heap_down_at_def
proof (intro conjI allI impI)
  fix k assume k: "0 < k \<and> k < length h \<and> parent k \<noteq> 0"
  then have "0 < parent k" "parent k < length h" using parent_less [of k] by linarith+
  then show "link rank' h k" using assms(1) assms(2) [of k] assms(2) [of "parent k"] k by (simp add: is_heap_def link_def)
qed simp

lemma is_heap_cong: "(\<And>x. x \<in> set h \<Longrightarrow> rank' x = rank x) \<Longrightarrow> is_heap rank' h \<longleftrightarrow> is_heap rank h"
  by (auto simp: is_heap_def link_def)

text \<open>The popped element itself is not compared with any other.\<close>

lemma heap_Pop_ok:
  assumes "heap_down_at rank (x # h) 0" and "ranked lt rank h"
  shows "\<exists>h'. heap_Pop lt (x # h) = Some (h', x) \<and> is_heap rank h' \<and> mset h' = mset h"
proof -
  obtain h1 where sw: "heap_swap 0 (length h) (x # h) = h1 @ [x]" and h1: "length h1 = length h" "mset h1 = mset h"
    and at: "heap_down_at rank h1 0"
  proof (cases h rule: rev_cases)
    case Nil
    then show ?thesis using that [of "[]"] by (simp add: heap_swap_def heap_down_at_def)
  next
    case (snoc ys y)
    have s: "heap_swap 0 (length h) (x # h) = (y # ys) @ [x]" using snoc by (simp add: heap_swap_def nth_append list_update_append)
    have "heap_down_at rank (y # ys) 0" unfolding heap_down_at_def
    proof (intro conjI allI impI)
      fix k assume k: "0 < k \<and> k < length (y # ys) \<and> parent k \<noteq> 0"
      then have p: "0 < parent k" "parent k < length (y # ys)" using parent_less [of k] by linarith+
      have "link rank (x # h) k" using assms(1) k snoc by (simp add: heap_down_at_def)
      moreover have "(y # ys) ! m = (x # h) ! m" if "0 < m" "m < length (y # ys)" for m
        using that snoc by (cases m) (simp_all add: nth_append)
      ultimately show "link rank (y # ys) k" using k p by (simp add: link_def)
    qed simp
    then show ?thesis using that [OF s] snoc by simp
  qed
  have rk: "ranked lt rank h1" using assms(2) ranked_mset [OF h1(2)] by blast
  obtain h' i' where d: "heap_down lt h1 0 (length h1) = Some (h', i')" "is_heap rank h'" "mset h' = mset h1"
    using heap_down_ok [OF at rk] by (elim exE conjE) (rule that)
  have l: "length h' = length h1" using d(3) mset_eq_length by blast
  have "heap_down lt (heap_swap 0 (length h) (x # h)) 0 (length h) = Some (h' @ [x], i')"
    using heap_down_append [of lt h1 "[x]" 0] d(1) sw h1(1) by simp
  then show ?thesis using d(2,3) h1 l by (simp add: heap_Pop_def nth_append)
qed

end
