(* ===== verification/Merge.thy ===== *)
theory Merge
  imports Source Heap "HOL-Library.Product_Lexorder"
begin

text \<open>
  The merge iterator of \<^verbatim>\<open>pkg/lsm/merge_iterator.go\<close>, over the interface of its sources. A heap item
  is the index of a source, its iterator the one the merge iterator holds at that index. \<open>None\<close> is a
  panic, or a \<^verbatim>\<open>Next\<close> that does not return. The lemmas show that a merge of sources is itself a source:
  it runs through the keys of all of them in order, each once, with the value of the first source that
  has the key.
\<close>

section \<open>Operations\<close>

record 'i MergeIterator =
  mi_iters :: "'i list"
  mi_h :: "nat list"
  mi_dir :: int

definition NewMergeIterator :: "'i list \<Rightarrow> 'i MergeIterator" where
  "NewMergeIterator iters = \<lparr>mi_iters = iters, mi_h = [], mi_dir = 0\<rparr>"

definition iterHeap_Less :: "('i \<Rightarrow> bytes option) \<Rightarrow> 'i list \<Rightarrow> nat \<Rightarrow> nat \<Rightarrow> bool option" where
  "iterHeap_Less key_op iters a b =
     (case (key_op (iters ! a), key_op (iters ! b)) of
        (Some ka, Some kb) \<Rightarrow> let cmp = compareKeys ka kb in Some (if cmp \<noteq> 0 then cmp < 0 else a < b)
      | _ \<Rightarrow> None)"

text \<open>\<^verbatim>\<open>for i, it := range m.iters { if op(it) { heap.Push(...) } }\<close>\<close>

fun mi_fill ::
  "('i \<Rightarrow> 'g \<Rightarrow> ('i \<times> 'g \<times> bool) option) \<Rightarrow> ('i \<Rightarrow> bytes option) \<Rightarrow> nat list \<Rightarrow> 'i MergeIterator \<Rightarrow> 'g \<Rightarrow>
   ('i MergeIterator \<times> 'g) option" where
  "mi_fill op key_op [] m g = Some (m, g)"
| "mi_fill op key_op (i # is) m g =
     (case op (mi_iters m ! i) g of
        None \<Rightarrow> None
      | Some (it, g, ok) \<Rightarrow>
          let m = m\<lparr>mi_iters := (mi_iters m)[i := it]\<rparr> in
          if ok then
            (case heap_Push (iterHeap_Less key_op (mi_iters m)) (mi_h m) i of
               None \<Rightarrow> None
             | Some h \<Rightarrow> mi_fill op key_op is (m\<lparr>mi_h := h\<rparr>) g)
          else mi_fill op key_op is m g)"

definition mi_position ::
  "('i \<Rightarrow> 'g \<Rightarrow> ('i \<times> 'g \<times> bool) option) \<Rightarrow> ('i \<Rightarrow> bytes option) \<Rightarrow> 'i MergeIterator \<Rightarrow> 'g \<Rightarrow> ('i MergeIterator \<times> 'g \<times> bool) option" where
  "mi_position op key_op m g =
     map_option (\<lambda>(m, g). (m\<lparr>mi_dir := 1\<rparr>, g, mi_h m \<noteq> []))
       (mi_fill op key_op [0..<length (mi_iters m)] (m\<lparr>mi_h := []\<rparr>) g)"

definition mi_SeekGE where
  "mi_SeekGE seek_op key_op m g key = mi_position (\<lambda>it g. seek_op it g key) key_op m g"

definition mi_First where
  "mi_First first_op key_op m g = mi_position first_op key_op m g"

text \<open>The loop of \<^verbatim>\<open>Next\<close> that advances every source at the current key.\<close>

partial_function (option) mi_advance ::
  "('i \<Rightarrow> 'g \<Rightarrow> ('i \<times> 'g \<times> bool) option) \<Rightarrow> ('i \<Rightarrow> bytes option) \<Rightarrow> bytes \<Rightarrow> 'i MergeIterator \<Rightarrow> 'g \<Rightarrow>
   ('i MergeIterator \<times> 'g) option" where
  "mi_advance next_op key_op prevKey m g =
     (case mi_h m of
        [] \<Rightarrow> Some (m, g)
      | t # _ \<Rightarrow>
          (case key_op (mi_iters m ! t) of
             None \<Rightarrow> None
           | Some k \<Rightarrow>
               if compareKeys k prevKey \<noteq> 0 then Some (m, g)
               else (case next_op (mi_iters m ! t) g of
                       None \<Rightarrow> None
                     | Some (it, g, ok) \<Rightarrow>
                         let iters = (mi_iters m)[t := it]; less = iterHeap_Less key_op iters in
                         (case (if ok then heap_Fix less (mi_h m) 0 else map_option fst (heap_Pop less (mi_h m))) of
                            None \<Rightarrow> None
                          | Some h \<Rightarrow> mi_advance next_op key_op prevKey (m\<lparr>mi_iters := iters, mi_h := h\<rparr>) g))))"

definition mi_Next ::
  "('i \<Rightarrow> 'g \<Rightarrow> ('i \<times> 'g \<times> bool) option) \<Rightarrow> ('i \<Rightarrow> bytes option) \<Rightarrow> 'i MergeIterator \<Rightarrow> 'g \<Rightarrow> ('i MergeIterator \<times> 'g \<times> bool) option" where
  "mi_Next next_op key_op m g =
     (case mi_h m of
        [] \<Rightarrow> Some (m, g, False)
      | t # _ \<Rightarrow>
          (case key_op (mi_iters m ! t) of
             None \<Rightarrow> None
           | Some prevKey \<Rightarrow> map_option (\<lambda>(m, g). (m, g, mi_h m \<noteq> [])) (mi_advance next_op key_op prevKey m g)))"

definition mi_Valid :: "'i MergeIterator \<Rightarrow> bool" where
  "mi_Valid m \<longleftrightarrow> mi_h m \<noteq> []"

definition mi_Key :: "('i \<Rightarrow> bytes option) \<Rightarrow> 'i MergeIterator \<Rightarrow> bytes option" where
  "mi_Key key_op m = (case mi_h m of [] \<Rightarrow> None | t # _ \<Rightarrow> key_op (mi_iters m ! t))"

definition mi_Value :: "('i \<Rightarrow> bytes option) \<Rightarrow> 'i MergeIterator \<Rightarrow> bytes option" where
  "mi_Value val_op m = (case mi_h m of [] \<Rightarrow> None | t # _ \<Rightarrow> val_op (mi_iters m ! t))"

section \<open>The merge of sorted lists\<close>

text \<open>The value of the first source that has the key, and the merge as the list of all keys in order
  with these values.\<close>

fun newest :: "kv list list \<Rightarrow> bytes \<Rightarrow> bytes option" where
  "newest [] k = None"
| "newest (es # ess) k = (case map_of es k of None \<Rightarrow> newest ess k | Some v \<Rightarrow> Some v)"

definition merged :: "kv list list \<Rightarrow> kv list" where
  "merged ess = map (\<lambda>k. (k, the (newest ess k))) (sorted_list_of_set (\<Union>es\<in>set ess. fst ` set es))"

lemma newest_None: "newest ess k = None \<longleftrightarrow> k \<notin> (\<Union>es\<in>set ess. fst ` set es)"
  by (induction ess) (auto split: option.splits simp: map_of_eq_None_iff dest!: map_of_SomeD intro: rev_image_eqI)

lemma keys_merged: "map fst (merged ess) = sorted_list_of_set (\<Union>es\<in>set ess. fst ` set es)"
  by (simp add: merged_def comp_def)

lemma sorted_merged: "sorted_keys (merged ess)"
  unfolding keys_merged by (rule strict_sorted_list_of_set)

lemma set_keys_merged: "fst ` set (merged ess) = (\<Union>es\<in>set ess. fst ` set es)"
  using arg_cong [OF keys_merged [of ess], of set] by simp

lemma map_of_merged: "map_of (merged ess) = newest ess"
proof
  fix k
  show "map_of (merged ess) k = newest ess k"
  proof (cases "newest ess k")
    case None
    then have "k \<notin> fst ` set (merged ess)" by (simp only: set_keys_merged newest_None not_False_eq_True)
    then show ?thesis using None by (simp add: map_of_eq_None_iff)
  next
    case (Some v)
    then have "k \<in> (\<Union>es\<in>set ess. fst ` set es)" using newest_None [of ess k] by (metis option.distinct(1))
    then have "(k, v) \<in> set (merged ess)" using Some by (force simp: merged_def)
    moreover have "distinct (map fst (merged ess))" using sorted_merged strict_sorted_iff by blast
    ultimately show ?thesis using Some by simp
  qed
qed

lemma merged_unique: "sorted_keys es \<Longrightarrow> map_of es = newest ess \<Longrightarrow> merged ess = es"
  by (rule sorted_keys_unique) (simp_all add: sorted_merged map_of_merged)

text \<open>Dropping the keys below a bound commutes with merging.\<close>

definition down_closed :: "(bytes \<Rightarrow> bool) \<Rightarrow> bool" where
  "down_closed P \<longleftrightarrow> (\<forall>a b. a \<le> b \<longrightarrow> P b \<longrightarrow> P a)"

abbreviation above :: "(bytes \<Rightarrow> bool) \<Rightarrow> kv list \<Rightarrow> kv list" where
  "above P es \<equiv> dropWhile (\<lambda>e. P (fst e)) es"

lemma above_filter: "down_closed P \<Longrightarrow> sorted_keys es \<Longrightarrow> above P es = filter (\<lambda>e. \<not> P (fst e)) es"
proof (induction es)
  case (Cons e es)
  have "filter (\<lambda>e. \<not> P (fst e)) es = es" if "\<not> P (fst e)"
    using Cons.prems that unfolding filter_id_conv by (auto simp: down_closed_def dest: less_imp_le)
  with Cons show ?case by auto
qed simp

lemma map_of_filter_key: "map_of (filter (\<lambda>e. Q (fst e)) es) k = (if Q k then map_of es k else None)"
  by (induction es) auto

lemma newest_filter: "newest (map (filter (\<lambda>e. Q (fst e))) ess) k = (if Q k then newest ess k else None)"
  by (induction ess) (auto simp: map_of_filter_key split: option.splits)

lemma sorted_filter_keys: "sorted_keys es \<Longrightarrow> sorted_keys (filter P es)"
  by (induction es) auto

lemma merged_above:
  assumes "down_closed P" and "\<forall>es\<in>set ess. sorted_keys es"
  shows "merged (map (above P) ess) = above P (merged ess)"
proof -
  have "map (above P) ess = map (filter (\<lambda>e. \<not> P (fst e))) ess" using above_filter [OF assms(1)] assms(2) by simp
  moreover have "newest (map (filter (\<lambda>e. \<not> P (fst e))) ess) = map_of (filter (\<lambda>e. \<not> P (fst e)) (merged ess))"
    by (rule ext) (simp only: newest_filter [of "\<lambda>k. \<not> P k"] map_of_filter_key [of "\<lambda>k. \<not> P k"] map_of_merged)
  ultimately show ?thesis
    using merged_unique [OF sorted_filter_keys [OF sorted_merged]] above_filter [OF assms(1) sorted_merged] by metis
qed

text \<open>The first entry of a merge: the least key, with the value of the first source that has it.\<close>

definition front :: "kv list list \<Rightarrow> nat \<Rightarrow> bool" where
  "front ess i \<longleftrightarrow> i < length ess \<and> ess ! i \<noteq> [] \<and>
     (\<forall>j<length ess. ess ! j \<noteq> [] \<longrightarrow> (fst (hd (ess ! i)), i) \<le> (fst (hd (ess ! j)), j))"

lemma hd_least: "sorted_keys es \<Longrightarrow> e \<in> set es \<Longrightarrow> fst (hd es) \<le> fst e"
  by (cases es) (auto dest: less_imp_le)

lemma newest_nth:
  "i < length ess \<Longrightarrow> map_of (ess ! i) k = Some v \<Longrightarrow> \<forall>j<i. map_of (ess ! j) k = None \<Longrightarrow> newest ess k = Some v"
proof (induction ess arbitrary: i)
  case (Cons es ess)
  show ?case
  proof (cases i)
    case (Suc n)
    then have "map_of es k = None" using Cons.prems(3) by (metis nth_Cons_0 zero_less_Suc)
    then show ?thesis using Cons.IH [of n] Cons.prems Suc by fastforce
  qed (use Cons.prems in simp)
qed simp

lemma merged_front:
  assumes "front ess i" and "\<forall>es\<in>set ess. sorted_keys es"
  shows "\<exists>rest. merged ess = hd (ess ! i) # rest"
proof -
  obtain k v tl' where e: "ess ! i = (k, v) # tl'" using assms(1) by (cases "ess ! i") (auto simp: front_def)
  have i: "i < length ess" using assms(1) by (simp add: front_def)
  have ge: "k \<le> k'" if "k' \<in> (\<Union>es\<in>set ess. fst ` set es)" for k'
  proof -
    from that obtain es x where "es \<in> set ess" and x: "x \<in> set es" "fst x = k'" by auto
    then obtain j where j: "j < length ess" "x \<in> set (ess ! j)" "fst x = k'" by (metis in_set_conv_nth)
    then have "(k, i) \<le> (fst (hd (ess ! j)), j)" using assms(1) e by (auto simp: front_def)
    moreover have "fst (hd (ess ! j)) \<le> k'" using hd_least j assms(2) nth_mem by blast
    ultimately show ?thesis by (auto simp: less_eq_prod_def)
  qed
  have "map_of (ess ! j) k = None" if "j < i" for j
  proof -
    have "k \<notin> fst ` set (ess ! j)"
    proof
      assume "k \<in> fst ` set (ess ! j)"
      then have ne: "ess ! j \<noteq> []" and le: "fst (hd (ess ! j)) \<le> k" using hd_least [of "ess ! j"] assms(2) that i by auto
      have "(k, i) \<le> (fst (hd (ess ! j)), j)"
        using assms(1) [unfolded front_def, THEN conjunct2, THEN conjunct2, rule_format, OF less_trans [OF that i] ne] e by simp
      then show False using that le by (auto simp: less_eq_prod_def)
    qed
    then show ?thesis by (simp add: map_of_eq_None_iff)
  qed
  then have nw: "newest ess k = Some v" using newest_nth [OF i, of k v] e by simp
  have "k \<in> fst ` set (merged ess)" unfolding set_keys_merged by (rule UN_I [OF nth_mem [OF i]]) (simp add: e)
  then obtain e' rest where m: "merged ess = e' # rest" by (cases "merged ess") auto
  have "fst e' = k"
  proof (rule antisym)
    show "fst e' \<le> k" using hd_least [OF sorted_merged [of ess]] \<open>k \<in> fst ` set (merged ess)\<close> m by auto
    show "k \<le> fst e'" using ge [of "fst e'"] m unfolding set_keys_merged [symmetric] by simp
  qed
  then have "newest ess k = Some (snd e')" using m by (simp add: map_of_merged [symmetric])
  then show ?thesis using m e nw \<open>fst e' = k\<close> by (cases e') simp
qed

lemma merged_empty: "\<forall>es\<in>set ess. es = [] \<Longrightarrow> merged ess = []"
  by (simp add: merged_def)

lemma merged_Nil: "merged ess = [] \<longleftrightarrow> (\<forall>es\<in>set ess. es = [])"
  using set_keys_merged [of ess] merged_empty [of ess] by fastforce

section \<open>The merge of sources\<close>

context sorted_source
begin

text \<open>The sources \<open>ess\<close> of a merge iterator, and its position when the rests \<open>rs\<close> of the sources are
  left: the heap holds the sources that are not exhausted.\<close>

definition mi_src :: "'i MergeIterator \<Rightarrow> kv list list \<Rightarrow> bool" where
  "mi_src m ess \<longleftrightarrow> length (mi_iters m) = length ess \<and> (\<forall>i<length ess. src (mi_iters m ! i) (ess ! i))"

definition rank_of :: "kv list list \<Rightarrow> nat \<Rightarrow> bytes \<times> nat" where
  "rank_of rs i = (fst (hd (rs ! i)), i)"

definition mi_at :: "'i MergeIterator \<Rightarrow> kv list list \<Rightarrow> kv list list \<Rightarrow> bool" where
  "mi_at m ess rs \<longleftrightarrow> mi_src m ess \<and> length rs = length ess \<and>
     (\<forall>i<length ess. rs ! i \<noteq> [] \<longrightarrow> at_rest (mi_iters m ! i) (ess ! i) (rs ! i)) \<and>
     set (mi_h m) = {i. i < length ess \<and> rs ! i \<noteq> []} \<and> distinct (mi_h m) \<and> is_heap (rank_of rs) (mi_h m)"

lemma heap_less_at:
  assumes "at_rest (iters ! a) es ra" "ra \<noteq> []" and "at_rest (iters ! b) es' rb" "rb \<noteq> []"
  shows "iterHeap_Less key_op iters a b = Some ((fst (hd ra), a) < (fst (hd rb), b))"
proof -
  have "key_op (iters ! a) = Some (fst (hd ra))" "key_op (iters ! b) = Some (fst (hd rb))"
    using assms at_entry [of "iters ! a" es "hd ra" "tl ra"] at_entry [of "iters ! b" es' "hd rb" "tl rb"] by auto
  then show ?thesis by (auto simp: iterHeap_Less_def Let_def compareKeys_iff less_prod_def dest: less_imp_le)
qed

lemma ranked_at:
  assumes "\<forall>i\<in>set h. i < length ess \<and> rs ! i \<noteq> [] \<and> at_rest (iters ! i) (ess ! i) (rs ! i)"
  shows "ranked (iterHeap_Less key_op iters) (rank_of rs) h"
  unfolding ranked_def
proof (intro ballI)
  fix a b assume "a \<in> set h" "b \<in> set h"
  with assms heap_less_at [of iters a "ess ! a" "rs ! a" b "ess ! b" "rs ! b"]
  show "iterHeap_Less key_op iters a b = Some (rank_of rs a < rank_of rs b)" by (simp add: rank_of_def)
qed

lemma mi_at_heap: "mi_at m ess rs \<Longrightarrow> set (mi_h m) = {i. i < length ess \<and> rs ! i \<noteq> []}"
  by (simp add: mi_at_def)

lemma mi_at_front:
  assumes "mi_at m ess rs" and "mi_h m = t # h"
  shows "front rs t"
  unfolding front_def
proof (intro conjI allI impI)
  note s = mi_at_heap [OF assms(1)]
  have l: "length rs = length ess" using assms(1) by (simp add: mi_at_def)
  show "t < length rs" "rs ! t \<noteq> []" using s assms(2) l by auto
  fix j assume j: "j < length rs" "rs ! j \<noteq> []"
  then have "j \<in> set (mi_h m)" using s l by simp
  then obtain k where "k < length (mi_h m)" "mi_h m ! k = j" by (auto simp: in_set_conv_nth)
  then show "(fst (hd (rs ! t)), t) \<le> (fst (hd (rs ! j)), j)"
    using is_heap_least [of "rank_of rs" "mi_h m" k] assms by (simp add: mi_at_def rank_of_def)
qed

lemma mi_at_Nil: "mi_at m ess rs \<Longrightarrow> mi_h m = [] \<longleftrightarrow> (\<forall>r\<in>set rs. r = [])"
proof -
  assume a: "mi_at m ess rs"
  have "mi_h m = [] \<longleftrightarrow> {i. i < length ess \<and> rs ! i \<noteq> []} = {}" using mi_at_heap [OF a] by (metis set_empty)
  then have "mi_h m = [] \<longleftrightarrow> (\<forall>i<length rs. rs ! i = [])" using a by (auto simp: mi_at_def)
  then show ?thesis by (simp add: all_set_conv_all_nth)
qed

text \<open>One source moves to a new position.\<close>

lemma mi_src_update: "mi_src m ess \<Longrightarrow> src it (ess ! k) \<Longrightarrow> mi_src (m\<lparr>mi_iters := (mi_iters m)[k := it]\<rparr>) ess"
  by (auto simp: mi_src_def) (metis nth_list_update_eq nth_list_update_neq)

lemma mi_at_update:
  assumes at: "mi_at m ess rs" and k: "k < length ess" and it: "src it (ess ! k)" "r \<noteq> [] \<longrightarrow> at_rest it (ess ! k) r"
    and h: "set h = {i. i < length ess \<and> rs[k := r] ! i \<noteq> []}" "distinct h" "is_heap (rank_of (rs[k := r])) h"
  shows "mi_at (m\<lparr>mi_iters := (mi_iters m)[k := it], mi_h := h\<rparr>) ess (rs[k := r])"
  using at mi_src_update [OF _ it(1), of m] it(2) h k by (auto simp: mi_at_def mi_src_def nth_list_update)

lemma mi_at_push:
  assumes at: "mi_at m ess rs" and k: "k < length ess" "rs ! k = []" and it: "src it (ess ! k)" "at_rest it (ess ! k) r" "r \<noteq> []"
  shows "\<exists>h. heap_Push (iterHeap_Less key_op ((mi_iters m)[k := it])) (mi_h m) k = Some h \<and>
    mi_at (m\<lparr>mi_iters := (mi_iters m)[k := it], mi_h := h\<rparr>) ess (rs[k := r])"
proof -
  have l: "length rs = length ess" "length (mi_iters m) = length ess" using at by (auto simp: mi_at_def mi_src_def)
  have nk: "k \<notin> set (mi_h m)" using mi_at_heap [OF at] k by simp
  have hp: "is_heap (rank_of (rs[k := r])) (mi_h m)"
  proof (subst is_heap_cong)
    fix i assume "i \<in> set (mi_h m)"
    then have "i \<noteq> k" using nk by blast
    then show "rank_of (rs[k := r]) i = rank_of rs i" by (simp add: rank_of_def)
  qed (use at in \<open>simp add: mi_at_def\<close>)
  have rk: "ranked (iterHeap_Less key_op ((mi_iters m)[k := it])) (rank_of (rs[k := r])) (mi_h m @ [k])"
    by (rule ranked_at [of _ ess]) (use at k it l in \<open>auto simp: mi_at_def nth_list_update\<close>)
  obtain h where h: "heap_Push (iterHeap_Less key_op ((mi_iters m)[k := it])) (mi_h m) k = Some h"
    "is_heap (rank_of (rs[k := r])) h" "mset h = mset (k # mi_h m)"
    using heap_Push_ok [OF hp rk] by auto
  have "set h = {i. i < length ess \<and> rs[k := r] ! i \<noteq> []}" "distinct h"
    using mset_eq_setD [OF h(3)] mset_eq_imp_distinct_iff [OF h(3)] mi_at_heap [OF at] nk k it(3) l at
    by (auto simp: nth_list_update mi_at_def)
  then show ?thesis using h mi_at_update [OF at k(1) it(1) _ _ _ h(2)] it(2) by simp
qed

lemma mi_fill_ok:
  assumes op: "\<And>i it g. i < length ess \<Longrightarrow> src it (ess ! i) \<Longrightarrow> good g \<Longrightarrow>
      \<exists>it' g'. op it g = Some (it', g', rs ! i \<noteq> []) \<and> good g' \<and> src it' (ess ! i) \<and> (rs ! i \<noteq> [] \<longrightarrow> at_rest it' (ess ! i) (rs ! i))"
    and l: "length rs = length ess"
  shows "mi_at m ess (take k rs @ replicate (length ess - k) []) \<Longrightarrow> k \<le> length ess \<Longrightarrow> good g \<Longrightarrow>
    \<exists>m' g'. mi_fill op key_op [k..<length ess] m g = Some (m', g') \<and> mi_at m' ess rs \<and> good g'"
proof (induction "length ess - k" arbitrary: k m g)
  case 0
  then show ?case using l by simp
next
  case (Suc n)
  let ?R = "take k rs @ replicate (length ess - k) []"
  have k: "k < length ess" using Suc.hyps(2) by simp
  have nx: "take (Suc k) rs @ replicate (length ess - Suc k) [] = ?R[k := rs ! k]"
    using k l by (intro nth_equalityI) (auto simp: nth_append nth_list_update less_Suc_eq)
  have Rk: "?R ! k = []" using k l by (simp add: nth_append)
  have sk: "src (mi_iters m ! k) (ess ! k)" using Suc.prems(1) k by (simp add: mi_at_def mi_src_def)
  obtain it g1 where o1: "op (mi_iters m ! k) g = Some (it, g1, rs ! k \<noteq> [])" "good g1" "src it (ess ! k)"
      "rs ! k \<noteq> [] \<longrightarrow> at_rest it (ess ! k) (rs ! k)"
    using op [OF k sk Suc.prems(3)] by (elim exE conjE) (rule that)
  have up: "[k..<length ess] = k # [Suc k..<length ess]" using k by (simp add: upt_conv_Cons)
  have m: "n = length ess - Suc k" "Suc k \<le> length ess" using Suc.hyps(2) k by simp_all
  note IH = Suc.hyps(1) [OF m(1), unfolded nx, OF _ m(2) o1(2)]
  show ?case
  proof (cases "rs ! k = []")
    case True
    have "mi_at (m\<lparr>mi_iters := (mi_iters m)[k := it], mi_h := mi_h m\<rparr>) ess (?R[k := rs ! k])"
    proof (rule mi_at_update [OF Suc.prems(1) k o1(3,4)])
      have same: "?R[k := rs ! k] = ?R" using list_update_id [of ?R k] unfolding Rk True .
      show "set (mi_h m) = {i. i < length ess \<and> ?R[k := rs ! k] ! i \<noteq> []}" "distinct (mi_h m)" "is_heap (rank_of (?R[k := rs ! k])) (mi_h m)"
        unfolding same using Suc.prems(1) by (simp_all only: mi_at_def)
    qed
    then obtain m' g' where "mi_fill op key_op [Suc k..<length ess] (m\<lparr>mi_iters := (mi_iters m)[k := it], mi_h := mi_h m\<rparr>) g1 = Some (m', g')"
        "mi_at m' ess rs" "good g'"
      by (elim IH [THEN exE] exE conjE) (rule that)
    then show ?thesis using True o1(1) by (simp add: up)
  next
    case False
    obtain h where h: "heap_Push (iterHeap_Less key_op ((mi_iters m)[k := it])) (mi_h m) k = Some h"
        and at: "mi_at (m\<lparr>mi_iters := (mi_iters m)[k := it], mi_h := h\<rparr>) ess (?R[k := rs ! k])"
      using mi_at_push [OF Suc.prems(1) k Rk o1(3) o1(4) [rule_format, OF False] False] by (elim exE conjE) (rule that)
    obtain m' g' where "mi_fill op key_op [Suc k..<length ess] (m\<lparr>mi_iters := (mi_iters m)[k := it], mi_h := h\<rparr>) g1 = Some (m', g')"
        "mi_at m' ess rs" "good g'"
      using IH [OF at] by (elim exE conjE) (rule that)
    then show ?thesis using False o1(1) h by (simp add: up)
  qed
qed

text \<open>The source of the least key moves to its next entry.\<close>

lemma mi_at_step:
  assumes at: "mi_at m ess rs" and h: "mi_h m = t # h" and it: "src it (ess ! t)" "tl (rs ! t) \<noteq> [] \<longrightarrow> at_rest it (ess ! t) (tl (rs ! t))"
  shows "\<exists>h'. (if tl (rs ! t) \<noteq> [] then heap_Fix (iterHeap_Less key_op ((mi_iters m)[t := it])) (mi_h m) 0
       else map_option fst (heap_Pop (iterHeap_Less key_op ((mi_iters m)[t := it])) (mi_h m))) = Some h' \<and>
    mi_at (m\<lparr>mi_iters := (mi_iters m)[t := it], mi_h := h'\<rparr>) ess (rs[t := tl (rs ! t)])"
proof -
  let ?rs = "rs[t := tl (rs ! t)]" and ?less = "iterHeap_Less key_op ((mi_iters m)[t := it])"
  have l: "length rs = length ess" "length (mi_iters m) = length ess" using at by (auto simp: mi_at_def mi_src_def)
  note s = mi_at_heap [OF at]
  have t: "t < length ess" using s h by auto
  have d: "distinct (t # h)" using at h by (simp add: mi_at_def)
  have sh: "set h = {i. i < length ess \<and> i \<noteq> t \<and> rs ! i \<noteq> []}" using s h d by auto
  have dn: "heap_down_at (rank_of ?rs) (t # h) 0"
  proof (rule is_heap_down_at)
    show "is_heap (rank_of rs) (t # h)" using at h by (simp add: mi_at_def)
    fix k assume "0 < k" "k < length (t # h)"
    then have "(t # h) ! k \<noteq> t" using d nth_eq_iff_index_eq [OF d, of k 0] by auto
    then show "rank_of ?rs ((t # h) ! k) = rank_of rs ((t # h) ! k)" by (simp add: rank_of_def)
  qed
  have old: "i < length ess \<and> ?rs ! i \<noteq> [] \<and> at_rest ((mi_iters m)[t := it] ! i) (ess ! i) (?rs ! i)" if "i \<in> set h" for i
    using that sh at by (auto simp: mi_at_def)
  have new: "{i. i < length ess \<and> ?rs ! i \<noteq> []} = (if tl (rs ! t) = [] then set h else insert t (set h))"
    unfolding sh using t l(1) by (auto simp: nth_list_update)
  note upd = mi_at_update [OF at t it]
  show ?thesis
  proof (cases "tl (rs ! t) = []")
    case True
    have rk: "ranked ?less (rank_of ?rs) h" by (rule ranked_at [of _ ess]) (use old in blast)
    obtain h' where h': "heap_Pop ?less (t # h) = Some (h', t)" "is_heap (rank_of ?rs) h'" "mset h' = mset h"
      using heap_Pop_ok [OF dn rk] by (elim exE conjE) (rule that)
    have "set h' = {i. i < length ess \<and> ?rs ! i \<noteq> []}" unfolding new using mset_eq_setD [OF h'(3)] True by simp
    moreover have "distinct h'" using mset_eq_imp_distinct_iff [OF h'(3)] d by simp
    ultimately show ?thesis using upd [OF _ _ h'(2)] h'(1) True h by simp
  next
    case False
    have rk: "ranked ?less (rank_of ?rs) (t # h)"
      by (rule ranked_at [of _ ess]) (use old it False t l in auto)
    obtain h' where h': "heap_Fix ?less (t # h) 0 = Some h'" "is_heap (rank_of ?rs) h'" "mset h' = mset (t # h)"
      using heap_Fix_ok [OF dn rk] by (elim exE conjE) (rule that)
    have "set h' = {i. i < length ess \<and> ?rs ! i \<noteq> []}" unfolding new using mset_eq_setD [OF h'(3)] False by simp
    moreover have "distinct h'" using mset_eq_imp_distinct_iff [OF h'(3)] d by simp
    ultimately show ?thesis using upd [OF _ _ h'(2)] h'(1) False h by simp
  qed
qed

lemma mi_at_entry:
  assumes "mi_at m ess rs" and "mi_h m = t # h"
  shows "at_rest (mi_iters m ! t) (ess ! t) (hd (rs ! t) # tl (rs ! t))" and "t < length ess"
    and "key_op (mi_iters m ! t) = Some (fst (hd (rs ! t)))" and "val_op (mi_iters m ! t) = Some (snd (hd (rs ! t)))"
proof -
  have t: "t < length ess" "rs ! t \<noteq> []" using mi_at_heap [OF assms(1)] assms(2) by auto
  then show at: "at_rest (mi_iters m ! t) (ess ! t) (hd (rs ! t) # tl (rs ! t))" using assms(1) by (simp add: mi_at_def)
  show "t < length ess" by (rule t(1))
  show "key_op (mi_iters m ! t) = Some (fst (hd (rs ! t)))" "val_op (mi_iters m ! t) = Some (snd (hd (rs ! t)))"
    using at_entry [OF at] by simp_all
qed

lemma above_step: "rs ! t \<noteq> [] \<Longrightarrow> fst (hd (rs ! t)) = k \<Longrightarrow>
    map (above (\<lambda>x. x \<le> k)) (rs[t := tl (rs ! t)]) = map (above (\<lambda>x. x \<le> k)) rs"
proof -
  assume r: "rs ! t \<noteq> []" "fst (hd (rs ! t)) = k"
  then have "above (\<lambda>x. x \<le> k) (tl (rs ! t)) = above (\<lambda>x. x \<le> k) (rs ! t)" by (cases "rs ! t") auto
  then have "above (\<lambda>x. x \<le> k) (rs[t := tl (rs ! t)] ! i) = above (\<lambda>x. x \<le> k) (rs ! i)" if "i < length rs" for i
    using that by (cases "i = t") simp_all
  then show ?thesis by - (rule nth_equalityI, simp_all)
qed

lemma mi_advance_ok:
  assumes "mi_at m ess rs" and "good g" and "\<forall>r\<in>set rs. sorted_keys r" and "\<forall>r\<in>set rs. \<forall>e\<in>set r. k \<le> fst e"
  shows "\<exists>m' g'. mi_advance next_op key_op k m g = Some (m', g') \<and> good g' \<and> mi_at m' ess (map (above (\<lambda>x. x \<le> k)) rs)"
  using assms
proof (induction "sum_list (map length rs)" arbitrary: rs m g rule: less_induct)
  case less
  have stay: "mi_advance next_op key_op k m g = Some (m, g) \<Longrightarrow> \<forall>r\<in>set rs. above (\<lambda>x. x \<le> k) r = r \<Longrightarrow> ?case"
    using less.prems(1,2) by (simp add: map_idI)
  show ?case
  proof (cases "mi_h m")
    case Nil
    show ?thesis
      by (rule stay) (use Nil mi_at_Nil [OF less.prems(1)] in \<open>auto simp: mi_advance.simps [of _ _ _ m]\<close>)
  next
    case (Cons t h)
    note e = mi_at_entry [OF less.prems(1) Cons]
    note fr = mi_at_front [OF less.prems(1) Cons]
    have l: "length rs = length ess" using less.prems(1) by (simp add: mi_at_def)
    have ne: "rs ! t \<noteq> []" using fr by (simp add: front_def)
    show ?thesis
    proof (cases "fst (hd (rs ! t)) = k")
      case False
      have gt: "k < fst (hd (rs ! t))"
        using less.prems(4) nth_mem [of t rs] e(2) l ne hd_in_set [OF ne] False by (metis order.not_eq_order_implies_strict)
      have "above (\<lambda>x. x \<le> k) r = r" if r: "r \<in> set rs" for r
      proof (cases r)
        case (Cons x r')
        obtain j where j: "j < length rs" "rs ! j = r" using r in_set_conv_nth by metis
        have "(fst (hd (rs ! t)), t) \<le> (fst (hd (rs ! j)), j)"
          using fr [unfolded front_def, THEN conjunct2, THEN conjunct2, rule_format, OF j(1)] j(2) Cons by simp
        then have "k < fst x" using gt j(2) Cons by (auto simp: less_eq_prod_def)
        then show ?thesis using Cons by simp
      qed simp
      then show ?thesis by (intro stay) (simp_all add: mi_advance.simps [of _ _ _ m] Cons e(3) compareKeys_zero False)
    next
      case True
      let ?rs = "rs[t := tl (rs ! t)]"
      obtain it g1 where n: "next_op (mi_iters m ! t) g = Some (it, g1, tl (rs ! t) \<noteq> [])" "good g1" "src it (ess ! t)"
          "tl (rs ! t) \<noteq> [] \<longrightarrow> at_rest it (ess ! t) (tl (rs ! t))"
        using next_at [OF e(1) less.prems(2)] by (elim exE conjE) (rule that)
      obtain h' where h': "(if tl (rs ! t) \<noteq> [] then heap_Fix (iterHeap_Less key_op ((mi_iters m)[t := it])) (mi_h m) 0
          else map_option fst (heap_Pop (iterHeap_Less key_op ((mi_iters m)[t := it])) (mi_h m))) = Some h'"
        and at: "mi_at (m\<lparr>mi_iters := (mi_iters m)[t := it], mi_h := h'\<rparr>) ess ?rs"
        using mi_at_step [OF less.prems(1) Cons n(3,4)] by (elim exE conjE) (rule that)
      have sub: "r \<in> set rs \<or> r = tl (rs ! t)" if "r \<in> set ?rs" for r
        using that set_update_subset_insert by fastforce
      have t: "rs ! t \<in> set rs" using e(2) l by simp
      have "sorted_keys (tl (rs ! t))" using less.prems(3) t by (cases "rs ! t") auto
      then have srt: "\<forall>r\<in>set ?rs. sorted_keys r" using sub less.prems(3) by blast
      have ge: "\<forall>r\<in>set ?rs. \<forall>e\<in>set r. k \<le> fst e"
        using sub less.prems(4) t ne by (metis list.set_sel(2))
      have "length (rs ! t) \<le> sum_list (map length rs)" by (rule member_le_sum_list) (use t in simp_all)
      then have "sum_list (map length ?rs) < sum_list (map length rs)"
        using ne e(2) l by (cases "rs ! t") (auto simp: map_update sum_list_update)
      from less.hyps [OF this at n(2) srt ge]
      obtain m' g' where "mi_advance next_op key_op k (m\<lparr>mi_iters := (mi_iters m)[t := it], mi_h := h'\<rparr>) g1 = Some (m', g')"
          "good g'" "mi_at m' ess (map (above (\<lambda>x. x \<le> k)) rs)"
        unfolding above_step [OF ne True] by (elim exE conjE) (rule that)
      moreover have "mi_advance next_op key_op k m g =
          mi_advance next_op key_op k (m\<lparr>mi_iters := (mi_iters m)[t := it], mi_h := h'\<rparr>) g1"
        using h' n(1) e(3) True Cons by (subst mi_advance.simps) (simp add: compareKeys_zero Let_def)
      ultimately show ?thesis by auto
    qed
  qed
qed

definition mi_source :: "'i MergeIterator \<Rightarrow> kv list \<Rightarrow> bool" where
  "mi_source m es \<longleftrightarrow> (\<exists>ess. mi_src m ess \<and> es = merged ess)"

definition mi_at_rest :: "'i MergeIterator \<Rightarrow> kv list \<Rightarrow> kv list \<Rightarrow> bool" where
  "mi_at_rest m es rest \<longleftrightarrow>
     (\<exists>ess P. mi_at m ess (map (above P) ess) \<and> down_closed P \<and> es = merged ess \<and> rest = above P (merged ess))"

lemma mi_src_sorted: "mi_src m ess \<Longrightarrow> \<forall>es\<in>set ess. sorted_keys es"
  by (auto simp: mi_src_def all_set_conv_all_nth intro: src_sorted)

lemma mi_at_Valid:
  assumes "mi_at m ess (map (above P) ess)" and "down_closed P"
  shows "mi_h m \<noteq> [] \<longleftrightarrow> above P (merged ess) \<noteq> []"
proof -
  have "mi_src m ess" using assms(1) by (simp add: mi_at_def)
  from merged_above [OF assms(2) mi_src_sorted [OF this]] show ?thesis
    using mi_at_Nil [OF assms(1)] merged_Nil [of "map (above P) ess"] by metis
qed

lemma mi_position_ok:
  assumes src: "mi_src m ess" and g: "good g" and P: "down_closed P"
    and op: "\<And>es it g. src it es \<Longrightarrow> good g \<Longrightarrow>
      \<exists>it' g'. op it g = Some (it', g', above P es \<noteq> []) \<and> good g' \<and> src it' es \<and> (above P es \<noteq> [] \<longrightarrow> at_rest it' es (above P es))"
  shows "\<exists>m' g'. mi_position op key_op m g = Some (m', g', above P (merged ess) \<noteq> []) \<and> good g' \<and> mi_at m' ess (map (above P) ess)"
proof -
  have l: "length (mi_iters m) = length ess" using src by (simp add: mi_src_def)
  have "mi_at (m\<lparr>mi_h := []\<rparr>) ess (take 0 (map (above P) ess) @ replicate (length ess - 0) [])"
    using src by (auto simp: mi_at_def mi_src_def is_heap_def)
  then obtain m' g' where "mi_fill op key_op [0..<length ess] (m\<lparr>mi_h := []\<rparr>) g = Some (m', g')"
      and at: "mi_at m' ess (map (above P) ess)" and g': "good g'"
    using mi_fill_ok [of ess op "map (above P) ess" "m\<lparr>mi_h := []\<rparr>" 0 g] op g by auto
  then have "mi_position op key_op m g = Some (m'\<lparr>mi_dir := 1\<rparr>, g', above P (merged ess) \<noteq> [])"
    using mi_at_Valid [OF at P] by (simp add: mi_position_def l)
  moreover have "mi_at (m'\<lparr>mi_dir := 1\<rparr>) ess (map (above P) ess)" using at by (simp add: mi_at_def mi_src_def)
  ultimately show ?thesis using g' by blast
qed

lemma mi_at_sources: "mi_at m ess rs \<Longrightarrow> mi_source m (merged ess)"
  by (auto simp: mi_source_def mi_at_def)

lemma mi_Next_ok:
  assumes at: "mi_at m ess (map (above P) ess)" and P: "down_closed P" and g: "good g" and e: "above P (merged ess) = e # rest"
  shows "\<exists>m' g'. mi_Next next_op key_op m g = Some (m', g', rest \<noteq> []) \<and> good g' \<and>
    mi_at m' ess (map (above (\<lambda>x. x \<le> fst e)) ess) \<and> above (\<lambda>x. x \<le> fst e) (merged ess) = rest"
proof -
  let ?rs = "map (above P) ess" and ?k = "fst e"
  have src: "mi_src m ess" using at by (simp add: mi_at_def)
  note srt = mi_src_sorted [OF src]
  have srs: "\<forall>r\<in>set ?rs. sorted_keys r" using srt above_filter [OF P] sorted_filter_keys by auto
  have m: "merged ?rs = e # rest" using merged_above [OF P srt] e by simp
  obtain t h where h: "mi_h m = t # h" using mi_at_Valid [OF at P] e by (cases "mi_h m") auto
  have hd: "hd (?rs ! t) = e" using merged_front [OF mi_at_front [OF at h] srs] m by simp
  have ge: "\<forall>r\<in>set ?rs. \<forall>x\<in>set r. ?k \<le> fst x"
  proof (intro ballI)
    fix r x assume "r \<in> set ?rs" "x \<in> set r"
    then have "fst x \<in> fst ` set (merged ?rs)" unfolding set_keys_merged by blast
    then show "?k \<le> fst x" using sorted_merged [of ?rs] m by (auto dest: less_imp_le)
  qed
  have up: "above (\<lambda>x. x \<le> ?k) (above P es) = above (\<lambda>x. x \<le> ?k) es" if "sorted_keys es" for es
  proof -
    have "P ?k = False" using hd_dropWhile [of "\<lambda>e. P (fst e)" "merged ess"] e by auto
    then have P_le: "P x \<Longrightarrow> x \<le> ?k" for x using P linorder_linear unfolding down_closed_def by blast
    show ?thesis by (induction es) (auto dest: P_le)
  qed
  obtain m' g' where adv: "mi_advance next_op key_op ?k m g = Some (m', g')" "good g'" "mi_at m' ess (map (above (\<lambda>x. x \<le> ?k)) ?rs)"
    using mi_advance_ok [OF at g srs ge] by (elim exE conjE) (rule that)
  have at': "mi_at m' ess (map (above (\<lambda>x. x \<le> ?k)) ess)" using adv(3) up srt by (simp add: comp_def cong: map_cong)
  have rest: "above (\<lambda>x. x \<le> ?k) (merged ess) = rest"
    using up [OF sorted_merged [of ess]] e sorted_merged [of ?rs] m by (cases rest) (auto split: if_splits)
  have dc: "down_closed (\<lambda>x. x \<le> ?k)" by (auto simp: down_closed_def)
  have "mi_Next next_op key_op m g = Some (m', g', rest \<noteq> [])"
    using adv(1) h mi_at_entry(3) [OF at h] hd mi_at_Valid [OF at' dc] rest by (simp add: mi_Next_def)
  then show ?thesis using adv(2) at' rest by blast
qed

text \<open>A merge of sources is a source.\<close>

lemma merge_is_source:
  "sorted_source (mi_SeekGE seek_op key_op) (mi_First first_op key_op) (mi_Next next_op key_op) mi_Valid (mi_Key key_op) (mi_Value val_op)
     good mi_source mi_at_rest"
proof (unfold_locales, goal_cases)
  case (1 m es)
  then show ?case by (auto simp: mi_source_def sorted_merged)
next
  case (2 m es g t rest)
  then obtain ess where ess: "mi_src m ess" "es = merged ess" by (auto simp: mi_source_def)
  have P: "down_closed (\<lambda>x. x < t)" by (auto simp: down_closed_def)
  obtain m' g' where p: "mi_SeekGE seek_op key_op m g t = Some (m', g', rest \<noteq> [])" "good g'" "mi_at m' ess (map (above (\<lambda>x. x < t)) ess)"
    using mi_position_ok [OF ess(1) 2(2) P, of "\<lambda>it g. seek_op it g t"] seek_src 2(3) ess(2) unfolding mi_SeekGE_def by blast
  then show ?case using mi_at_sources [OF p(3)] ess(2) 2(3) P by (auto simp: mi_at_rest_def)
next
  case (3 m es g)
  then obtain ess where ess: "mi_src m ess" "es = merged ess" by (auto simp: mi_source_def)
  have P: "down_closed (\<lambda>x. False)" by (auto simp: down_closed_def)
  obtain m' g' where p: "mi_First first_op key_op m g = Some (m', g', es \<noteq> [])" "good g'" "mi_at m' ess (map (above (\<lambda>x. False)) ess)"
    using mi_position_ok [OF ess(1) 3(2) P, of first_op] first_src ess(2) unfolding mi_First_def by auto
  have "mi_at_rest m' es es" unfolding mi_at_rest_def
    by (rule exI [of _ ess], rule exI [of _ "\<lambda>x. False"], intro conjI p(3) P) (simp_all add: ess(2))
  then show ?case using p mi_at_sources [OF p(3)] ess(2) by blast
next
  case (4 m es e rest g)
  then obtain ess P where at: "mi_at m ess (map (above P) ess)" "down_closed P" "es = merged ess" "above P (merged ess) = e # rest"
    unfolding mi_at_rest_def by metis
  obtain m' g' where n: "mi_Next next_op key_op m g = Some (m', g', rest \<noteq> [])" "good g'"
      "mi_at m' ess (map (above (\<lambda>x. x \<le> fst e)) ess)" "above (\<lambda>x. x \<le> fst e) (merged ess) = rest"
    using mi_Next_ok [OF at(1,2) 4(2) at(4)] by (elim exE conjE) (rule that)
  have "down_closed (\<lambda>x. x \<le> fst e)" by (auto simp: down_closed_def)
  then have "mi_at_rest m' es rest" unfolding mi_at_rest_def using n at(3) by (intro exI [of _ ess] exI [of _ "\<lambda>x. x \<le> fst e"]) simp
  then show ?case using n mi_at_sources [OF n(3)] at(3) by blast
next
  case (5 m es e rest)
  then obtain ess P where at: "mi_at m ess (map (above P) ess)" "down_closed P" "above P (merged ess) = e # rest"
    unfolding mi_at_rest_def by metis
  have srt: "\<forall>es\<in>set ess. sorted_keys es" using at(1) mi_src_sorted by (auto simp: mi_at_def)
  then have srs: "\<forall>r\<in>set (map (above P) ess). sorted_keys r" using above_filter [OF at(2)] sorted_filter_keys by auto
  obtain t h where h: "mi_h m = t # h" using mi_at_Valid [OF at(1,2)] at(3) by (cases "mi_h m") auto
  have "hd (map (above P) ess ! t) = e"
    using merged_front [OF mi_at_front [OF at(1) h] srs] merged_above [OF at(2) srt] at(3) by auto
  then show ?case using mi_at_entry(3,4) [OF at(1) h] h by (simp add: mi_Key_def mi_Value_def mi_Valid_def)
next
  case (6 m es rest)
  then obtain ess P where at: "mi_at m ess (map (above P) ess)" "es = merged ess" "rest = above P (merged ess)"
    by (auto simp: mi_at_rest_def)
  then show ?case using mi_at_sources [OF at(1)] takeWhile_dropWhile_id by metis
qed

end

end
