(* ===== verification/Bloom.thy ===== *)
theory Bloom
  imports Prelude
begin

unbundle bit_operations_syntax

text \<open>
  The partitioned Bloom filter of \<^verbatim>\<open>pkg/lsm/sstable/bloom.go\<close>: hashing, building, encoding,
  decoding and probing. The number of probes is the code's
  \<^verbatim>\<open>int(float64(bitsPerKey) * math.Ln2)\<close>, clamped to 1..30: the float product is written as
  the quotient by the 16 digits of \<^verbatim>\<open>Ln2\<close>, which has the same integer part for every value that
  the clamp leaves unchanged. The lemmas show that a filter has no false negatives.
\<close>

section \<open>Hashing\<close>

definition bloom_seed :: u32 where
  "bloom_seed = 0xbc9f1d34"

definition bloom_m :: u32 where
  "bloom_m = 0xc6a4a793"

fun bloom_words :: "u32 \<Rightarrow> bytes \<Rightarrow> u32 \<times> bytes" where
  "bloom_words h (a # b # c # d # key) =
     (let h = h + Uint32LE [a, b, c, d]; h = h * bloom_m; h = h XOR drop_bit 16 h in bloom_words h key)"
| "bloom_words h key = (h, key)"

definition int8_u32 :: "byte \<Rightarrow> u32" where
  "int8_u32 b = scast b"

definition bloom_last :: "u32 \<Rightarrow> u32" where
  "bloom_last h = (let h = h * bloom_m in h XOR drop_bit 24 h)"

definition bloomHash :: "bytes \<Rightarrow> u32" where
  "bloomHash key =
     (let h = bloom_seed XOR ucast ((of_nat (length key) :: u64) * ucast bloom_m) in
      case bloom_words h key of
        (h, [x, y, z]) \<Rightarrow> bloom_last (h + push_bit 16 (int8_u32 z) + push_bit 8 (int8_u32 y) + int8_u32 x)
      | (h, [x, y]) \<Rightarrow> bloom_last (h + push_bit 8 (int8_u32 y) + int8_u32 x)
      | (h, [x]) \<Rightarrow> bloom_last (h + int8_u32 x)
      | (h, _) \<Rightarrow> h)"

section \<open>Sizes\<close>

definition cacheLineSize :: nat where
  "cacheLineSize = 64"

definition cacheLineBits :: nat where
  "cacheLineBits = 512"

definition calcNumProbes :: "nat \<Rightarrow> nat" where
  "calcNumProbes bitsPerKey =
     (let n = bitsPerKey * 6931471805599453 div 10000000000000000;
          n = (if n < 1 then 1 else n)
      in if 30 < n then 30 else n)"

definition calcNLines :: "nat \<Rightarrow> nat \<Rightarrow> nat" where
  "calcNLines numKeys bitsPerKey =
     (let nBits = numKeys * bitsPerKey;
          nLines = (nBits + cacheLineBits - 1) div cacheLineBits;
          nLines = (if nLines < 1 then 1 else nLines)
      in if nLines mod 2 = 0 then nLines + 1 else nLines)"

section \<open>Writer\<close>

record bloomFilterWriter =
  bw_hashes :: "u32 list"
  bw_bitsPerKey :: nat

definition newBloomFilterWriter :: "nat \<Rightarrow> bloomFilterWriter" where
  "newBloomFilterWriter bitsPerKey = \<lparr>bw_hashes = [], bw_bitsPerKey = bitsPerKey\<rparr>"

definition bloom_addKey :: "bloomFilterWriter \<Rightarrow> bytes \<Rightarrow> bloomFilterWriter" where
  "bloom_addKey w key = w\<lparr>bw_hashes := bw_hashes w @ [bloomHash key]\<rparr>"

definition bloom_delta :: "u32 \<Rightarrow> u32" where
  "bloom_delta h = drop_bit 17 h OR push_bit 15 h"

definition bloom_index :: "nat \<Rightarrow> u32 \<Rightarrow> nat" where
  "bloom_index lineOff h = lineOff + unat ((h div 8) mod of_nat cacheLineSize)"

definition bloom_mask :: "u32 \<Rightarrow> byte" where
  "bloom_mask h = push_bit (unat (h mod 8)) 1"

fun bloom_set :: "nat \<Rightarrow> nat \<Rightarrow> u32 \<Rightarrow> u32 \<Rightarrow> bytes \<Rightarrow> bytes" where
  "bloom_set 0 lineOff delta h buf = buf"
| "bloom_set (Suc j) lineOff delta h buf =
     bloom_set j lineOff delta (h + delta)
       (buf[bloom_index lineOff h := buf ! bloom_index lineOff h OR bloom_mask h])"

definition bloom_lineOff :: "nat \<Rightarrow> u32 \<Rightarrow> nat" where
  "bloom_lineOff nLines h = unat (h mod of_nat nLines) * cacheLineSize"

definition bloom_fill :: "nat \<Rightarrow> nat \<Rightarrow> u32 list \<Rightarrow> bytes \<Rightarrow> bytes" where
  "bloom_fill numProbes nLines = fold (\<lambda>h. bloom_set numProbes (bloom_lineOff nLines h) (bloom_delta h) h)"

definition bloom_finish :: "bloomFilterWriter \<Rightarrow> bytes" where
  "bloom_finish w =
     (if bw_hashes w = [] then []
      else let numProbes = calcNumProbes (bw_bitsPerKey w);
               nLines = calcNLines (length (bw_hashes w)) (bw_bitsPerKey w);
               filterSize = nLines * cacheLineSize;
               buf = bloom_fill numProbes nLines (bw_hashes w) (replicate (filterSize + 5) 0)
           in take filterSize buf @ [of_nat numProbes] @ PutUint32LE (of_nat nLines))"

definition bloom_reset :: "bloomFilterWriter \<Rightarrow> bloomFilterWriter" where
  "bloom_reset w = w\<lparr>bw_hashes := []\<rparr>"

section \<open>Filter\<close>

record bloomFilter =
  bf_data :: bytes
  bf_numProbes :: nat
  bf_nLines :: nat

definition decodeBloomFilter :: "bytes \<Rightarrow> bloomFilter option" where
  "decodeBloomFilter data =
     (if length data < 5 then None
      else let numProbes = unat (data ! (length data - 5));
               nLines = unat (Uint32LE (drop (length data - 4) data));
               filterData = take (length data - 5) data
           in if length filterData \<noteq> nLines * cacheLineSize then None
              else Some \<lparr>bf_data = filterData, bf_numProbes = numProbes, bf_nLines = nLines\<rparr>)"

fun bloom_probe :: "nat \<Rightarrow> nat \<Rightarrow> u32 \<Rightarrow> u32 \<Rightarrow> bytes \<Rightarrow> bool" where
  "bloom_probe 0 lineOff delta h buf = True"
| "bloom_probe (Suc j) lineOff delta h buf =
     (if buf ! bloom_index lineOff h AND bloom_mask h = 0 then False
      else bloom_probe j lineOff delta (h + delta) buf)"

definition mayContain :: "bloomFilter option \<Rightarrow> bytes \<Rightarrow> bool" where
  "mayContain f key =
     (case f of
        None \<Rightarrow> True
      | Some f \<Rightarrow>
          if bf_nLines f = 0 then True
          else let h = bloomHash key
               in bloom_probe (bf_numProbes f) (bloom_lineOff (bf_nLines f) h) (bloom_delta h) h (bf_data f))"

section \<open>Bits only get set\<close>

definition le_bits :: "bytes \<Rightarrow> bytes \<Rightarrow> bool" where
  "le_bits b c \<longleftrightarrow> length b = length c \<and> (\<forall>i<length b. \<forall>n. bit (b ! i) n \<longrightarrow> bit (c ! i) n)"

lemma le_bits_refl [simp]: "le_bits b b"
  by (simp add: le_bits_def)

lemma le_bits_trans: "le_bits a b \<Longrightarrow> le_bits b c \<Longrightarrow> le_bits a c"
  by (simp add: le_bits_def)

lemma le_bits_update: "i < length b \<Longrightarrow> le_bits b (b[i := b ! i OR m])"
  by (auto simp: le_bits_def nth_list_update bit_simps)

lemma bloom_index_less: "bloom_index lineOff h < lineOff + cacheLineSize"
proof -
  have "unat ((h div 8) mod of_nat cacheLineSize) < cacheLineSize"
    by (simp add: cacheLineSize_def unat_mod_distrib)
  then show ?thesis by (simp add: bloom_index_def)
qed

lemma bloom_set_grows: "lineOff + cacheLineSize \<le> length buf \<Longrightarrow> le_bits buf (bloom_set j lineOff delta h buf)"
proof (induction j arbitrary: h buf)
  case (Suc j)
  have "bloom_index lineOff h < length buf" using bloom_index_less [of lineOff h] Suc.prems by linarith
  from le_bits_trans [OF le_bits_update [OF this] Suc.IH] Suc.prems show ?case by simp
qed simp

lemma bloom_probe_mono:
  "le_bits b c \<Longrightarrow> lineOff + cacheLineSize \<le> length b \<Longrightarrow> bloom_probe j lineOff delta h b \<Longrightarrow> bloom_probe j lineOff delta h c"
proof (induction j arbitrary: h)
  case (Suc j)
  let ?i = "bloom_index lineOff h"
  have i: "?i < length b" using bloom_index_less [of lineOff h] Suc.prems by linarith
  from Suc.prems obtain n where "bit (b ! ?i AND bloom_mask h) n"
    by (auto simp: bit_eq_iff split: if_splits)
  with Suc.prems(1) i have "bit (c ! ?i AND bloom_mask h) n" by (auto simp: le_bits_def bit_simps)
  then have "c ! ?i AND bloom_mask h \<noteq> 0" by auto
  with Suc show ?case by (simp split: if_splits)
qed simp

lemma bloom_mask_nonzero: "(b OR bloom_mask h) AND bloom_mask h \<noteq> 0"
proof -
  have "unat (h mod 8) < 8" by (simp add: unat_mod_distrib)
  then have "bit ((b OR bloom_mask h) AND bloom_mask h) (unat (h mod 8))"
    by (simp add: bloom_mask_def bit_simps)
  then show ?thesis by auto
qed

lemma bloom_set_probe:
  "lineOff + cacheLineSize \<le> length buf \<Longrightarrow> bloom_probe j lineOff delta h (bloom_set j lineOff delta h buf)"
proof (induction j arbitrary: h buf)
  case (Suc j)
  let ?i = "bloom_index lineOff h"
  let ?b = "buf[?i := buf ! ?i OR bloom_mask h]"
  have i: "?i < length buf" using bloom_index_less [of lineOff h] Suc.prems by linarith
  have g: "le_bits ?b (bloom_set j lineOff delta (h + delta) ?b)" using Suc.prems by (intro bloom_set_grows) simp
  have "bloom_probe 1 lineOff delta h ?b" using i bloom_mask_nonzero by simp
  from bloom_probe_mono [OF g _ this] Suc.prems
  have "bloom_set j lineOff delta (h + delta) ?b ! ?i AND bloom_mask h \<noteq> 0" by (auto split: if_splits)
  with Suc.IH [of ?b "h + delta"] Suc.prems show ?case by simp
qed simp

lemma bloom_lineOff_fits:
  assumes "0 < nLines" and "nLines < 2 ^ 32"
  shows "bloom_lineOff nLines h + cacheLineSize \<le> nLines * cacheLineSize"
proof -
  have "unat (of_nat nLines :: u32) = nLines" using assms(2) by (simp add: unsigned_of_nat take_bit_nat_eq_self)
  then have "unat (h mod of_nat nLines) < nLines" using assms(1) by (simp add: unat_mod_distrib)
  then have "(unat (h mod of_nat nLines) + 1) * cacheLineSize \<le> nLines * cacheLineSize"
    by (intro mult_right_mono) simp_all
  then show ?thesis by (simp add: bloom_lineOff_def)
qed

lemma bloom_fill_grows:
  assumes "0 < nLines" and "nLines < 2 ^ 32" and "nLines * cacheLineSize \<le> length buf"
  shows "le_bits buf (bloom_fill p nLines hs buf)"
  using assms(3)
proof (induction hs arbitrary: buf)
  case (Cons h hs)
  have "le_bits buf (bloom_set p (bloom_lineOff nLines h) (bloom_delta h) h buf)"
    using bloom_lineOff_fits [OF assms(1,2), of h] Cons.prems by (intro bloom_set_grows) linarith
  moreover from this have "length (bloom_set p (bloom_lineOff nLines h) (bloom_delta h) h buf) = length buf"
    by (simp add: le_bits_def)
  ultimately show ?case using Cons by (auto simp: bloom_fill_def intro: le_bits_trans)
qed (simp add: bloom_fill_def)

lemma bloom_fill_probe:
  assumes "0 < nLines" and "nLines < 2 ^ 32" and "nLines * cacheLineSize \<le> length buf" and "h \<in> set hs"
  shows "bloom_probe p (bloom_lineOff nLines h) (bloom_delta h) h (bloom_fill p nLines hs buf)"
proof -
  obtain xs ys where hs: "hs = xs @ h # ys" using assms(4) by (meson split_list)
  let ?b = "bloom_fill p nLines xs buf"
  let ?c = "bloom_set p (bloom_lineOff nLines h) (bloom_delta h) h ?b"
  have lb: "length ?b = length buf" using bloom_fill_grows [OF assms(1-3), of p xs] by (simp add: le_bits_def)
  have fits: "bloom_lineOff nLines h + cacheLineSize \<le> length ?b"
    using bloom_lineOff_fits [OF assms(1,2), of h] assms(3) lb by linarith
  have lc: "length ?c = length ?b" using bloom_set_grows [OF fits] by (simp add: le_bits_def)
  have "le_bits ?c (bloom_fill p nLines ys ?c)" using assms(3) lb lc by (intro bloom_fill_grows [OF assms(1,2)]) simp
  moreover have "bloom_fill p nLines hs buf = bloom_fill p nLines ys ?c" by (simp add: bloom_fill_def hs)
  ultimately show ?thesis using bloom_probe_mono bloom_set_probe [OF fits] fits lc by metis
qed

lemma bloom_probe_take:
  "lineOff + cacheLineSize \<le> n \<Longrightarrow> n \<le> length buf \<Longrightarrow> bloom_probe j lineOff delta h (take n buf) = bloom_probe j lineOff delta h buf"
proof (induction j arbitrary: h)
  case (Suc j)
  have "bloom_index lineOff h < n" using bloom_index_less [of lineOff h] Suc.prems by linarith
  with Suc show ?case by simp
qed simp

section \<open>Properties\<close>

lemma calcNumProbes_bounds: "1 \<le> calcNumProbes b \<and> calcNumProbes b \<le> 30"
  by (simp add: calcNumProbes_def Let_def)

lemma calcNLines_odd: "odd (calcNLines n b) \<and> n * b \<le> calcNLines n b * cacheLineBits"
proof -
  have "n * b \<le> (n * b + 511) div 512 * 512" by linarith
  then show ?thesis by (auto simp: calcNLines_def cacheLineBits_def Let_def odd_iff_mod_2_eq_one)
qed

lemma bloom_addKeys: "bw_hashes (fold (\<lambda>k w. bloom_addKey w k) ks w) = bw_hashes w @ map bloomHash ks \<and>
    bw_bitsPerKey (fold (\<lambda>k w. bloom_addKey w k) ks w) = bw_bitsPerKey w"
  by (induction ks arbitrary: w) (auto simp: bloom_addKey_def)

lemma bloom_decode_finish:
  assumes "bw_hashes w \<noteq> []" and "calcNLines (length (bw_hashes w)) (bw_bitsPerKey w) < 2 ^ 32"
  shows "decodeBloomFilter (bloom_finish w) =
    (let p = calcNumProbes (bw_bitsPerKey w); n = calcNLines (length (bw_hashes w)) (bw_bitsPerKey w) in
     Some \<lparr>bf_data = take (n * cacheLineSize) (bloom_fill p n (bw_hashes w) (replicate (n * cacheLineSize + 5) 0)),
       bf_numProbes = p, bf_nLines = n\<rparr>)"
proof -
  let ?n = "calcNLines (length (bw_hashes w)) (bw_bitsPerKey w)" and ?p = "calcNumProbes (bw_bitsPerKey w)"
  let ?b = "bloom_fill ?p ?n (bw_hashes w) (replicate (?n * cacheLineSize + 5) 0)"
  have n0: "0 < ?n" using calcNLines_odd by (metis odd_pos)
  have "length ?b = ?n * cacheLineSize + 5"
    using bloom_fill_grows [OF n0 assms(2), of "replicate (?n * cacheLineSize + 5) 0" ?p] by (simp add: le_bits_def)
  then have lt: "length (take (?n * cacheLineSize) ?b) = ?n * cacheLineSize" by simp
  have fin: "bloom_finish w = take (?n * cacheLineSize) ?b @ [of_nat ?p] @ PutUint32LE (of_nat ?n)"
    using assms(1) by (simp add: bloom_finish_def Let_def)
  have len: "length (bloom_finish w) = ?n * cacheLineSize + 5" unfolding fin using lt by simp
  have up: "unat (of_nat ?p :: byte) = ?p"
    using calcNumProbes_bounds [of "bw_bitsPerKey w"] by (simp add: unsigned_of_nat take_bit_nat_eq_self)
  have un: "unat (of_nat ?n :: u32) = ?n" using assms(2) by (simp add: unsigned_of_nat take_bit_nat_eq_self)
  have a: "bloom_finish w ! (?n * cacheLineSize) = of_nat ?p" unfolding fin using lt by (simp add: nth_append)
  have b: "drop (?n * cacheLineSize + 1) (bloom_finish w) = PutUint32LE (of_nat ?n)" unfolding fin using lt by simp
  have c: "take (?n * cacheLineSize) (bloom_finish w) = take (?n * cacheLineSize) ?b" unfolding fin using lt by simp
  show ?thesis using a b c lt by (simp add: decodeBloomFilter_def len Let_def up un)
qed

lemma length_bloom_set [simp]: "length (bloom_set j lineOff delta h buf) = length buf"
  by (induction j arbitrary: h buf) simp_all

lemma length_bloom_fill [simp]: "length (bloom_fill p n hs buf) = length buf"
  by (induction hs arbitrary: buf) (simp_all add: bloom_fill_def)

lemma length_bloom_finish:
  "length (bloom_finish w) =
     (if bw_hashes w = [] then 0 else calcNLines (length (bw_hashes w)) (bw_bitsPerKey w) * cacheLineSize + 5)"
  by (simp add: bloom_finish_def Let_def)

lemma bloom_contains:
  assumes k: "k \<in> set ks" and n: "calcNLines (length ks) bits < 2 ^ 32"
  shows "\<exists>f. decodeBloomFilter (bloom_finish \<lparr>bw_hashes = map bloomHash ks, bw_bitsPerKey = bits\<rparr>) = Some f \<and> mayContain (Some f) k"
proof -
  let ?w = "\<lparr>bw_hashes = map bloomHash ks, bw_bitsPerKey = bits\<rparr>"
  have ne: "bw_hashes ?w \<noteq> []" using k by auto
  have n0: "0 < calcNLines (length ks) bits" using calcNLines_odd by (metis odd_pos)
  have "bloomHash k \<in> set (map bloomHash ks)" using k by simp
  note probe = bloom_fill_probe [OF n0 n _ this, of "replicate (calcNLines (length ks) bits * cacheLineSize + 5) 0" "calcNumProbes bits"]
  let ?b = "bloom_fill (calcNumProbes bits) (calcNLines (length ks) bits) (map bloomHash ks)
      (replicate (calcNLines (length ks) bits * cacheLineSize + 5) 0)"
  have lb: "length ?b = calcNLines (length ks) bits * cacheLineSize + 5"
    using bloom_fill_grows [OF n0 n, of "replicate (calcNLines (length ks) bits * cacheLineSize + 5) 0"
        "calcNumProbes bits" "map bloomHash ks"] by (simp add: le_bits_def)
  show ?thesis
    using bloom_decode_finish [OF ne] probe n n0 lb bloom_probe_take [OF bloom_lineOff_fits [OF n0 n]]
    by (simp add: Let_def mayContain_def)
qed

text \<open>C35: The Bloom filter has no false negatives: whatever keys were added, and in whatever order, the
  filter that is encoded and decoded back may contain every one of them; and the decoder accepts
  what the writer produced.\<close>

theorem bloom_no_false_negative:
  assumes w: "w = fold (\<lambda>k w. bloom_addKey w k) ks (newBloomFilterWriter bits)" and k: "k \<in> set ks"
    and n: "calcNLines (length ks) bits < 2 ^ 32"
  shows "\<exists>f. decodeBloomFilter (bloom_finish w) = Some f \<and> mayContain (Some f) k"
proof -
  have "w = \<lparr>bw_hashes = map bloomHash ks, bw_bitsPerKey = bits\<rparr>"
    using bloom_addKeys [of ks "newBloomFilterWriter bits"] by (cases w) (simp add: w newBloomFilterWriter_def)
  with bloom_contains [OF k n] show ?thesis by simp
qed

theorem bloom_no_false_negative_witness:
  "\<exists>f. decodeBloomFilter (bloom_finish (bloom_addKey (bloom_addKey (newBloomFilterWriter 10) [1, 2]) [3])) = Some f \<and>
     mayContain (Some f) [1, 2]"
  using bloom_no_false_negative [OF refl, of "[1, 2]" "[[1, 2], [3]]" 10]
  by (simp add: calcNLines_def cacheLineBits_def)

end
