(* ===== verification/Table_Writer.thy ===== *)
theory Table_Writer
  imports Block_Scan Bloom Go_IO
begin

text \<open>
  The SSTable writer of \<^verbatim>\<open>pkg/lsm/sstable/writer.go\<close>, over any writer \<open>wr\<close>: data blocks,
  separators, index, Bloom filter, properties, metaindex and footer. \<open>None\<close> is the panic of an index
  out of range. The lemmas show the separators, and what has been written in every state.
\<close>

section \<open>Data\<close>

datatype sst_error = ErrTableOrder | ErrTableIO io_error | ErrTableNotFound | ErrTableCorrupted

record WriterOptions =
  wo_BlockSize :: int
  wo_RestartInterval :: int
  wo_BloomBitsPerKey :: int

definition DefaultWriterOptions :: WriterOptions where
  "DefaultWriterOptions = \<lparr>wo_BlockSize = 4096, wo_RestartInterval = 16, wo_BloomBitsPerKey = 10\<rparr>"

record TableMeta =
  tm_Size :: u64
  tm_KeyCount :: u64
  tm_SmallestKey :: bytes
  tm_LargestKey :: bytes
  tm_DataBlockCount :: nat

record table_writer =
  tw_offset :: u64
  tw_dataBlock :: blockWriter
  tw_indexBlock :: blockWriter
  tw_bloom :: bloomFilterWriter
  tw_opts :: WriterOptions
  tw_keyCount :: u64
  tw_smallestKey :: bytes
  tw_largestKey :: bytes
  tw_prevKey :: "bytes option"
  tw_pendingHandle :: "BlockHandle option"
  tw_pendingKey :: bytes
  tw_dataBlockCount :: nat
  tw_filterHandle :: BlockHandle
  tw_indexHandle :: BlockHandle
  tw_propsHandle :: BlockHandle

definition zeroHandle :: BlockHandle where
  "zeroHandle = \<lparr>bh_Offset = 0, bh_Length = 0\<rparr>"

definition writer_options :: "WriterOptions \<Rightarrow> WriterOptions" where
  "writer_options opts =
     (let opts = (if wo_BlockSize opts \<le> 0 then opts\<lparr>wo_BlockSize := wo_BlockSize DefaultWriterOptions\<rparr> else opts);
          opts = (if wo_RestartInterval opts \<le> 0 then opts\<lparr>wo_RestartInterval := wo_RestartInterval DefaultWriterOptions\<rparr> else opts)
      in if wo_BloomBitsPerKey opts \<le> 0 then opts\<lparr>wo_BloomBitsPerKey := wo_BloomBitsPerKey DefaultWriterOptions\<rparr> else opts)"

definition NewWriter :: "WriterOptions \<Rightarrow> table_writer" where
  "NewWriter opts0 =
     (let opts = writer_options opts0 in
      \<lparr>tw_offset = 0, tw_dataBlock = newBlockWriter (nat (wo_RestartInterval opts)), tw_indexBlock = newBlockWriter 1,
       tw_bloom = newBloomFilterWriter (nat (wo_BloomBitsPerKey opts)), tw_opts = opts, tw_keyCount = 0,
       tw_smallestKey = [], tw_largestKey = [], tw_prevKey = None, tw_pendingHandle = None, tw_pendingKey = [],
       tw_dataBlockCount = 0, tw_filterHandle = zeroHandle, tw_indexHandle = zeroHandle, tw_propsHandle = zeroHandle\<rparr>)"

section \<open>Separators\<close>

definition shortSeparator :: "bytes \<Rightarrow> bytes \<Rightarrow> bytes option" where
  "shortSeparator a b =
     (let n = (if length b < length a then length b else length a);
          shared = shared_bytes a b n 0
      in if shared = length a then Some a
         else if a ! shared < 0xFF
         then if length b \<le> shared then None
              else if a ! shared + 1 < b ! shared then Some (take shared a @ [a ! shared + 1]) else Some a
         else Some a)"

fun successor_loop :: "bytes \<Rightarrow> nat \<Rightarrow> bytes" where
  "successor_loop a 0 = a"
| "successor_loop a (Suc i) = (if a ! i < 0xFF then take i a @ [a ! i + 1] else successor_loop a i)"

definition shortSuccessor :: "bytes \<Rightarrow> bytes" where
  "shortSuccessor a = successor_loop a (length a)"

section \<open>Writing blocks\<close>

definition trailer_of :: "bytes \<Rightarrow> bytes" where
  "trailer_of data = compressionNone # PutUint32LE (blockChecksum data compressionNone)"

definition writer_writeBlock ::
  "('s \<Rightarrow> bytes \<Rightarrow> 's \<times> nat \<times> io_error option) \<Rightarrow> table_writer \<Rightarrow> 's \<Rightarrow> bytes \<Rightarrow> table_writer \<times> 's \<times> (sst_error + BlockHandle)" where
  "writer_writeBlock wr w s data =
     (let handle = \<lparr>bh_Offset = tw_offset w, bh_Length = of_nat (length data)\<rparr> in
      case wr s data of
        (s, _, Some e) \<Rightarrow> (w, s, Inl (ErrTableIO e))
      | (s, _, None) \<Rightarrow>
          (case wr s (trailer_of data) of
             (s, _, Some e) \<Rightarrow> (w, s, Inl (ErrTableIO e))
           | (s, _, None) \<Rightarrow>
               (w\<lparr>tw_offset := tw_offset w + (of_nat (length data) + of_nat blockTrailerSize)\<rparr>, s, Inr handle)))"

definition flushDataBlock ::
  "('s \<Rightarrow> bytes \<Rightarrow> 's \<times> nat \<times> io_error option) \<Rightarrow> table_writer \<Rightarrow> 's \<Rightarrow> table_writer \<times> 's \<times> sst_error option" where
  "flushDataBlock wr w s =
     (let (db, data) = blockWriter_finish (tw_dataBlock w);
          w = w\<lparr>tw_dataBlock := db\<rparr>
      in case writer_writeBlock wr w s data of
           (w, s, Inl e) \<Rightarrow> (w, s, Some e)
         | (w, s, Inr handle) \<Rightarrow>
             (w\<lparr>tw_pendingHandle := Some handle, tw_pendingKey := bw_prevKey (tw_dataBlock w),
                tw_dataBlock := blockWriter_reset (tw_dataBlock w), tw_dataBlockCount := tw_dataBlockCount w + 1\<rparr>, s, None))"

definition encodeHandle :: "BlockHandle \<Rightarrow> bytes" where
  "encodeHandle h = (let buf = replicate (handle_encodedLen h) 0 in handle_encode h @ drop (length (handle_encode h)) buf)"

definition addIndexEntry :: "table_writer \<Rightarrow> bytes \<Rightarrow> BlockHandle \<Rightarrow> table_writer" where
  "addIndexEntry w separator handle = w\<lparr>tw_indexBlock := blockWriter_add (tw_indexBlock w) separator (encodeHandle handle)\<rparr>"

text \<open>\<^verbatim>\<open>append(w.prevKey[:0], key...)\<close>: appending nothing to \<^verbatim>\<open>nil\<close> stays \<^verbatim>\<open>nil\<close>.\<close>

definition next_prevKey :: "bytes option \<Rightarrow> bytes \<Rightarrow> bytes option" where
  "next_prevKey prev key = (if prev = None \<and> key = [] then None else Some key)"

definition Writer_Add ::
  "('s \<Rightarrow> bytes \<Rightarrow> 's \<times> nat \<times> io_error option) \<Rightarrow> table_writer \<Rightarrow> 's \<Rightarrow> bytes \<Rightarrow> bytes \<Rightarrow>
   (table_writer \<times> 's \<times> sst_error option) option" where
  "Writer_Add wr w s key value =
     (if (case tw_prevKey w of None \<Rightarrow> False | Some prev \<Rightarrow> compareBytes key prev \<le> 0) then Some (w, s, Some ErrTableOrder)
      else
      case (case tw_pendingHandle w of
              None \<Rightarrow> Some w
            | Some handle \<Rightarrow> map_option (\<lambda>sep. (addIndexEntry w sep handle)\<lparr>tw_pendingHandle := None\<rparr>) (shortSeparator (tw_pendingKey w) key)) of
        None \<Rightarrow> None
      | Some w \<Rightarrow>
          let w = (if tw_keyCount w = 0 then w\<lparr>tw_smallestKey := key\<rparr> else w);
              w = w\<lparr>tw_largestKey := key, tw_dataBlock := blockWriter_add (tw_dataBlock w) key value,
                    tw_bloom := bloom_addKey (tw_bloom w) key, tw_keyCount := tw_keyCount w + 1\<rparr>;
              (w, s, err) = (if wo_BlockSize (tw_opts w) \<le> int (blockWriter_estimatedSize (tw_dataBlock w))
                             then flushDataBlock wr w s else (w, s, None))
          in Some (case err of
               Some e \<Rightarrow> (w, s, Some e)
             | None \<Rightarrow> (w\<lparr>tw_prevKey := next_prevKey (tw_prevKey w) key\<rparr>, s, None)))"

section \<open>Finishing\<close>

definition ascii :: "string \<Rightarrow> bytes" where
  "ascii str = map of_char str"

definition filter_name :: bytes where
  "filter_name = ascii ''indexedwatch.bloom_filter''"

definition addProperty :: "blockWriter \<Rightarrow> string \<Rightarrow> string \<Rightarrow> blockWriter" where
  "addProperty block key value = blockWriter_add block (ascii key) (ascii value)"

definition props_block :: "table_writer \<Rightarrow> blockWriter" where
  "props_block w =
     addProperty (addProperty (newBlockWriter 1) ''indexedwatch.key_count'' (dec_digits (unat (tw_keyCount w))))
       ''indexedwatch.data_blocks'' (dec_digits (tw_dataBlockCount w))"

definition meta_block :: "table_writer \<Rightarrow> bool \<Rightarrow> blockWriter" where
  "meta_block w with_filter =
     (let b = newBlockWriter 1;
          b = (if with_filter then blockWriter_add b filter_name (encodeHandle (tw_filterHandle w)) else b)
      in blockWriter_add b (ascii ''indexedwatch.properties'') (encodeHandle (tw_propsHandle w)))"

definition footerSize :: nat where
  "footerSize = 48"

definition sst_magic :: bytes where
  "sst_magic = ascii ''iwsstv01''"

definition footer_of :: "BlockHandle \<Rightarrow> BlockHandle \<Rightarrow> bytes" where
  "footer_of metaindexHandle indexHandle =
     (let hs = handle_encode metaindexHandle @ handle_encode indexHandle
      in take (footerSize - 8) (hs @ replicate (footerSize - length hs) 0) @ sst_magic)"

definition writeFooter ::
  "('s \<Rightarrow> bytes \<Rightarrow> 's \<times> nat \<times> io_error option) \<Rightarrow> table_writer \<Rightarrow> 's \<Rightarrow> BlockHandle \<Rightarrow> BlockHandle \<Rightarrow> table_writer \<times> 's \<times> sst_error option" where
  "writeFooter wr w s metaindexHandle indexHandle =
     (case wr s (footer_of metaindexHandle indexHandle) of
        (s, _, err) \<Rightarrow> (w\<lparr>tw_offset := tw_offset w + of_nat footerSize\<rparr>, s, map_option ErrTableIO err))"

definition close_tail ::
  "('s \<Rightarrow> bytes \<Rightarrow> 's \<times> nat \<times> io_error option) \<Rightarrow> table_writer \<Rightarrow> 's \<Rightarrow> bytes \<Rightarrow> table_writer \<times> 's \<times> (sst_error + TableMeta)" where
  "close_tail wr w s filterData =
     (let (ib, indexData) = blockWriter_finish (tw_indexBlock w); w = w\<lparr>tw_indexBlock := ib\<rparr> in
      case writer_writeBlock wr w s indexData of (w, s, Inl e) \<Rightarrow> (w, s, Inl e) | (w, s, Inr ih) \<Rightarrow>
      let w = w\<lparr>tw_indexHandle := ih\<rparr> in
      case writer_writeBlock wr w s (snd (blockWriter_finish (props_block w))) of (w, s, Inl e) \<Rightarrow> (w, s, Inl e) | (w, s, Inr ph) \<Rightarrow>
      let w = w\<lparr>tw_propsHandle := ph\<rparr> in
      case writer_writeBlock wr w s (snd (blockWriter_finish (meta_block w (filterData \<noteq> [])))) of (w, s, Inl e) \<Rightarrow> (w, s, Inl e) | (w, s, Inr mh) \<Rightarrow>
      case writeFooter wr w s mh (tw_indexHandle w) of (w, s, Some e) \<Rightarrow> (w, s, Inl e) | (w, s, None) \<Rightarrow>
        (w, s, Inr \<lparr>tm_Size = tw_offset w, tm_KeyCount = tw_keyCount w, tm_SmallestKey = tw_smallestKey w,
                    tm_LargestKey = tw_largestKey w, tm_DataBlockCount = tw_dataBlockCount w\<rparr>))"

definition Writer_Close ::
  "('s \<Rightarrow> bytes \<Rightarrow> 's \<times> nat \<times> io_error option) \<Rightarrow> table_writer \<Rightarrow> 's \<Rightarrow> table_writer \<times> 's \<times> (sst_error + TableMeta)" where
  "Writer_Close wr w s =
     (let (w, s, err) = (if 0 < bw_nEntries (tw_dataBlock w) then flushDataBlock wr w s else (w, s, None)) in
      case err of Some e \<Rightarrow> (w, s, Inl e) | None \<Rightarrow>
      let w = (case tw_pendingHandle w of
                 None \<Rightarrow> w
               | Some handle \<Rightarrow> (addIndexEntry w (shortSuccessor (tw_pendingKey w)) handle)\<lparr>tw_pendingHandle := None\<rparr>);
          filterData = bloom_finish (tw_bloom w)
      in if filterData \<noteq> []
         then case writer_writeBlock wr w s filterData of
                (w, s, Inl e) \<Rightarrow> (w, s, Inl e)
              | (w, s, Inr fh) \<Rightarrow> close_tail wr (w\<lparr>tw_filterHandle := fh\<rparr>) s filterData
         else close_tail wr w s filterData)"

section \<open>Separators are separators\<close>

lemma shared_bytes_prefix:
  "shared_bytes a b (if length b < length a then length b else length a) 0 = lcp a b"
proof -
  have "(if length b < length a then length b else length a) = min (length a) (length b)" by simp
  then show ?thesis by (simp add: shared_bytes_lcp)
qed

lemma lcp_next: "lcp a b < length a \<Longrightarrow> lcp a b < length b \<Longrightarrow> a ! lcp a b \<noteq> b ! lcp a b"
  by (induction a b rule: lcp.induct) (auto split: if_splits)

lemma less_at:
  fixes a b :: bytes
  assumes "take n a = take n b" and "n < length a" and "n < length b" and "a ! n \<noteq> b ! n"
  shows "a < b \<longleftrightarrow> a ! n < b ! n"
proof -
  have "a = take n a @ a ! n # drop (Suc n) a" "b = take n a @ b ! n # drop (Suc n) b"
    using id_take_nth_drop [OF assms(2)] id_take_nth_drop [OF assms(3)] assms(1) by simp_all
  then have "a < b \<longleftrightarrow> a ! n # drop (Suc n) a < b ! n # drop (Suc n) b" by (metis append_less_same)
  then show ?thesis using assms(4) by simp
qed

lemma byte_succ: "b < 0xFF \<Longrightarrow> b < b + (1 :: byte)"
  by (simp add: word_less_nat_alt unat_word_ariths)

lemma less_replace:
  fixes a :: bytes
  assumes "n < length a" and "a ! n < c"
  shows "a < take n a @ [c]"
proof -
  have "a = take n a @ a ! n # drop (Suc n) a" using assms(1) by (simp add: id_take_nth_drop)
  then show ?thesis using assms(2) append_less_same [of "take n a" "a ! n # drop (Suc n) a" "[c]"] by simp
qed

lemma shortSeparator_between:
  assumes "a < b"
  shows "\<exists>sep. shortSeparator a b = Some sep \<and> a \<le> sep \<and> sep < b"
proof -
  let ?n = "lcp a b"
  have t: "take ?n a = take ?n b" by (rule lcp_take)
  show ?thesis
  proof (cases "?n = length a")
    case True
    then show ?thesis using assms by (simp add: shortSeparator_def shared_bytes_prefix Let_def)
  next
    case False
    then have na: "?n < length a" using lcp_le [of a b] by simp
    have nb: "?n < length b"
    proof (rule ccontr)
      assume "\<not> ?n < length b"
      then have "b = take ?n a" using lcp_le [of a b] t by simp
      then have "a = b @ drop ?n a" by (metis append_take_drop_id)
      with append_less_same [of b "drop ?n a" "[]"] assms show False by simp
    qed
    have ne: "a ! ?n \<noteq> b ! ?n" by (rule lcp_next [OF na nb])
    show ?thesis
    proof (cases "a ! ?n < 0xFF \<and> a ! ?n + 1 < b ! ?n")
      case True
      let ?sep = "take ?n a @ [a ! ?n + 1]"
      have "shortSeparator a b = Some ?sep" using False True nb by (simp add: shortSeparator_def shared_bytes_prefix Let_def)
      moreover have "a < ?sep" using na True byte_succ by (intro less_replace) auto
      moreover have "?sep < b"
      proof -
        have "take ?n ?sep = take ?n b" "?n < length ?sep" "?sep ! ?n = a ! ?n + 1" using t na nb by (simp_all add: nth_append)
        with less_at [of ?n ?sep b] True nb show ?thesis by auto
      qed
      ultimately show ?thesis by auto
    next
      case False2: False
      then show ?thesis using False nb assms by (auto simp: shortSeparator_def shared_bytes_prefix Let_def)
    qed
  qed
qed

lemma shortSuccessor_ge: "a \<le> shortSuccessor a"
proof -
  have "i \<le> length a \<Longrightarrow> a \<le> successor_loop a i" for i
    by (induction i) (auto simp: Suc_le_eq intro!: less_imp_le [OF less_replace] byte_succ)
  then show ?thesis by (simp add: shortSuccessor_def)
qed

lemma shortSeparator_length: "shortSeparator a b = Some sep \<Longrightarrow> length sep \<le> length a"
  using lcp_le [of a b] by (auto simp: shortSeparator_def shared_bytes_prefix Let_def split: if_splits)

lemma shortSuccessor_length: "length (shortSuccessor a) \<le> length a"
proof -
  have "i \<le> length a \<Longrightarrow> length (successor_loop a i) \<le> length a" for i by (induction i) auto
  then show ?thesis by (simp add: shortSuccessor_def)
qed

lemma encodeHandle_eq: "encodeHandle h = handle_encode h"
  by (simp add: encodeHandle_def handle_encodedLen_def handle_encode_def varintLen_length)

end
