(* ===== verification/Cache.thy ===== *)
theory Cache
  imports Prelude
begin

text \<open>
  The block cache of \<^verbatim>\<open>pkg/lsm/sstable/cache.go\<close>: a map from keys to entries and a doubly linked
  list of the entries, most recently used first. Entries live in a store, from addresses to entries, and
  the pointers of the code are addresses, \<open>None\<close> for \<^verbatim>\<open>nil\<close>. The mutex makes each operation
  atomic. The lemmas show that the pointer structure implements an abstract list of keys and blocks.
\<close>

section \<open>State\<close>

type_synonym cacheKey = "u64 \<times> u64"

record lruEntry =
  le_key :: cacheKey
  le_data :: bytes
  le_prev :: "nat option"
  le_next :: "nat option"

record BlockCache =
  bc_capacity :: int
  bc_size :: int
  bc_items :: "(cacheKey \<times> nat) list"
  bc_head :: "nat option"
  bc_tail :: "nat option"
  bc_store :: "nat \<Rightarrow> lruEntry"
  bc_fresh :: nat

definition nil_entry :: lruEntry where
  "nil_entry = \<lparr>le_key = (0, 0), le_data = [], le_prev = None, le_next = None\<rparr>"

definition NewBlockCache :: "int \<Rightarrow> BlockCache" where
  "NewBlockCache capacity = \<lparr>bc_capacity = capacity, bc_size = 0, bc_items = [], bc_head = None, bc_tail = None,
     bc_store = (\<lambda>_. nil_entry), bc_fresh = 0\<rparr>"

definition set_prev :: "nat \<Rightarrow> nat option \<Rightarrow> BlockCache \<Rightarrow> BlockCache" where
  "set_prev a p c = c\<lparr>bc_store := (bc_store c)(a := (bc_store c a)\<lparr>le_prev := p\<rparr>)\<rparr>"

definition set_next :: "nat \<Rightarrow> nat option \<Rightarrow> BlockCache \<Rightarrow> BlockCache" where
  "set_next a p c = c\<lparr>bc_store := (bc_store c)(a := (bc_store c a)\<lparr>le_next := p\<rparr>)\<rparr>"

section \<open>The list\<close>

definition cache_pushFront :: "BlockCache \<Rightarrow> nat \<Rightarrow> BlockCache" where
  "cache_pushFront c entry =
     (let c = set_prev entry None c;
          c = set_next entry (bc_head c) c;
          c = (case bc_head c of Some h \<Rightarrow> set_prev h (Some entry) c | None \<Rightarrow> c);
          c = c\<lparr>bc_head := Some entry\<rparr>
      in if bc_tail c = None then c\<lparr>bc_tail := Some entry\<rparr> else c)"

definition cache_remove :: "BlockCache \<Rightarrow> nat \<Rightarrow> BlockCache" where
  "cache_remove c entry =
     (let c = (case le_prev (bc_store c entry) of
                 Some p \<Rightarrow> set_next p (le_next (bc_store c entry)) c
               | None \<Rightarrow> c\<lparr>bc_head := le_next (bc_store c entry)\<rparr>);
          c = (case le_next (bc_store c entry) of
                 Some n \<Rightarrow> set_prev n (le_prev (bc_store c entry)) c
               | None \<Rightarrow> c\<lparr>bc_tail := le_prev (bc_store c entry)\<rparr>)
      in set_next entry None (set_prev entry None c))"

definition cache_moveToFront :: "BlockCache \<Rightarrow> nat \<Rightarrow> BlockCache" where
  "cache_moveToFront c entry = (if Some entry = bc_head c then c else cache_pushFront (cache_remove c entry) entry)"

definition cache_delete :: "cacheKey \<Rightarrow> BlockCache \<Rightarrow> BlockCache" where
  "cache_delete key c = c\<lparr>bc_items := filter (\<lambda>(k, _). k \<noteq> key) (bc_items c)\<rparr>"

definition cache_evictTail :: "BlockCache \<Rightarrow> BlockCache" where
  "cache_evictTail c =
     (case bc_tail c of
        None \<Rightarrow> c
      | Some entry \<Rightarrow>
          let c = cache_remove c entry;
              c = cache_delete (le_key (bc_store c entry)) c
          in c\<lparr>bc_size := bc_size c - int (length (le_data (bc_store c entry)))\<rparr>)"

section \<open>Operations\<close>

definition cache_Get :: "BlockCache \<Rightarrow> u64 \<Rightarrow> u64 \<Rightarrow> BlockCache \<times> bytes option" where
  "cache_Get c fileID blockOffset =
     (case map_of (bc_items c) (fileID, blockOffset) of
        None \<Rightarrow> (c, None)
      | Some entry \<Rightarrow> (let c = cache_moveToFront c entry in (c, Some (le_data (bc_store c entry)))))"

text \<open>The loop that evicts until the size is within the capacity ends because every step shortens the
  map; its length bounds the number of steps.\<close>

fun cache_shrink :: "nat \<Rightarrow> BlockCache \<Rightarrow> BlockCache" where
  "cache_shrink 0 c = c"
| "cache_shrink (Suc n) c =
     (if bc_capacity c < bc_size c \<and> bc_tail c \<noteq> None then cache_shrink n (cache_evictTail c) else c)"

definition cache_Set :: "BlockCache \<Rightarrow> u64 \<Rightarrow> u64 \<Rightarrow> bytes \<Rightarrow> BlockCache" where
  "cache_Set c fileID blockOffset data =
     (let key = (fileID, blockOffset) in
      case map_of (bc_items c) key of
        Some entry \<Rightarrow> cache_moveToFront c entry
      | None \<Rightarrow>
          let entry = bc_fresh c;
              c = c\<lparr>bc_store := (bc_store c)(entry := \<lparr>le_key = key, le_data = data, le_prev = None, le_next = None\<rparr>),
                    bc_fresh := entry + 1\<rparr>;
              c = c\<lparr>bc_items := (key, entry) # bc_items c\<rparr>;
              c = cache_pushFront c entry;
              c = c\<lparr>bc_size := bc_size c + int (length data)\<rparr>
          in cache_shrink (length (bc_items c)) c)"

definition cache_evict_one :: "cacheKey \<Rightarrow> BlockCache \<Rightarrow> BlockCache" where
  "cache_evict_one key c =
     (case map_of (bc_items c) key of
        None \<Rightarrow> c
      | Some entry \<Rightarrow>
          let c = cache_delete key (cache_remove c entry)
          in c\<lparr>bc_size := bc_size c - int (length (le_data (bc_store c entry)))\<rparr>)"

definition cache_Evict :: "BlockCache \<Rightarrow> u64 \<Rightarrow> BlockCache" where
  "cache_Evict c fileID =
     (let toDelete = filter (\<lambda>key. fst key = fileID) (map fst (bc_items c))
      in fold cache_evict_one toDelete c)"

section \<open>Linked segments\<close>

fun first :: "nat list \<Rightarrow> nat option \<Rightarrow> nat option" where
  "first [] n = n"
| "first (a # as) n = Some a"

definition final :: "nat option \<Rightarrow> nat list \<Rightarrow> nat option" where
  "final p as = (if as = [] then p else Some (last as))"

fun seg :: "(nat \<Rightarrow> lruEntry) \<Rightarrow> nat option \<Rightarrow> nat list \<Rightarrow> nat option \<Rightarrow> bool" where
  "seg h p [] n = True"
| "seg h p (a # as) n = (le_prev (h a) = p \<and> le_next (h a) = first as n \<and> seg h (Some a) as n)"

lemma first_append [simp]: "first (xs @ ys) n = first xs (first ys n)"
  by (cases xs) auto

lemma final_simps [simp]: "final p [] = p" "final p (xs @ [a]) = Some a" "final p (a # as) = final (Some a) as"
  by (auto simp: final_def)

lemma seg_append: "seg h p (xs @ ys) n \<longleftrightarrow> seg h p xs (first ys n) \<and> seg h (final p xs) ys n"
  by (induction xs arbitrary: p) auto

lemma seg_cong: "(\<And>a. a \<in> set as \<Longrightarrow> le_prev (h' a) = le_prev (h a) \<and> le_next (h' a) = le_next (h a)) \<Longrightarrow> seg h' p as n = seg h p as n"
  by (induction as arbitrary: p) auto

lemma seg_other [simp]: "a \<notin> set as \<Longrightarrow> seg (h(a := e)) p as n = seg h p as n"
  by (rule seg_cong) auto

text \<open>The links of a cache, with the entries \<open>as\<close> from head to tail.\<close>

definition links :: "BlockCache \<Rightarrow> nat list \<Rightarrow> bool" where
  "links c as \<longleftrightarrow> distinct as \<and> seg (bc_store c) None as None \<and> bc_head c = first as None \<and> bc_tail c = final None as"

text \<open>What an operation on the links does not touch.\<close>

definition same_data :: "BlockCache \<Rightarrow> BlockCache \<Rightarrow> bool" where
  "same_data c' c \<longleftrightarrow> bc_capacity c' = bc_capacity c \<and> bc_size c' = bc_size c \<and> bc_items c' = bc_items c \<and> bc_fresh c' = bc_fresh c \<and>
     (\<forall>a. le_key (bc_store c' a) = le_key (bc_store c a) \<and> le_data (bc_store c' a) = le_data (bc_store c a))"

lemma same_data_simps [simp]:
  "same_data c c" "same_data (set_prev a p c) c" "same_data (set_next a p c) c" "same_data (c\<lparr>bc_head := x\<rparr>) c" "same_data (c\<lparr>bc_tail := x\<rparr>) c"
  by (simp_all add: same_data_def set_prev_def set_next_def)

lemma same_data_trans: "same_data c2 c1 \<Longrightarrow> same_data c1 c \<Longrightarrow> same_data c2 c"
  by (simp add: same_data_def)

lemma pushFront_same: "same_data (cache_pushFront c a) c"
  by (auto simp: cache_pushFront_def same_data_def set_prev_def set_next_def Let_def split: option.splits)

lemma remove_same: "same_data (cache_remove c a) c"
  by (auto simp: cache_remove_def same_data_def set_prev_def set_next_def Let_def split: option.splits)

lemma pushFront_links: "links c as \<Longrightarrow> a \<notin> set as \<Longrightarrow> links (cache_pushFront c a) (a # as)"
  by (cases as) (auto simp: links_def cache_pushFront_def set_prev_def set_next_def Let_def final_def)

lemma remove_links:
  assumes "links c (xs @ a # ys)"
  shows "links (cache_remove c a) (xs @ ys)"
proof -
  have sg: "seg (bc_store c) None xs (Some a)" "le_prev (bc_store c a) = final None xs" "le_next (bc_store c a) = first ys None"
      "seg (bc_store c) (Some a) ys None" "a \<notin> set xs" "a \<notin> set ys" "distinct xs" "distinct ys" "set xs \<inter> set ys = {}"
    using assms by (auto simp: links_def seg_append)
  show ?thesis
    using assms sg by (cases xs rule: rev_cases; cases ys)
      (auto simp: links_def cache_remove_def set_prev_def set_next_def Let_def seg_append final_def)
qed

lemma moveToFront_links:
  assumes "links c (xs @ a # ys)"
  shows "links (cache_moveToFront c a) (a # xs @ ys)"
proof (cases xs)
  case Nil
  with assms show ?thesis by (simp add: cache_moveToFront_def links_def)
next
  case (Cons x xs')
  then have "Some a \<noteq> bc_head c" using assms by (auto simp: links_def)
  moreover have "a \<notin> set (xs @ ys)" using assms by (simp add: links_def)
  ultimately show ?thesis using pushFront_links [OF remove_links [OF assms]] by (simp add: cache_moveToFront_def)
qed

lemma moveToFront_same: "same_data (cache_moveToFront c a) c"
  using same_data_trans [OF pushFront_same remove_same] by (simp add: cache_moveToFront_def)

section \<open>The abstract cache\<close>

type_synonym lru = "(cacheKey \<times> bytes) list"

definition lru_total :: "lru \<Rightarrow> int" where
  "lru_total L = sum_list (map (\<lambda>x. int (length (snd x))) L)"

definition lru_front :: "cacheKey \<Rightarrow> lru \<Rightarrow> lru" where
  "lru_front k L = filter (\<lambda>x. fst x = k) L @ filter (\<lambda>x. fst x \<noteq> k) L"

function lru_trim :: "int \<Rightarrow> lru \<Rightarrow> lru" where
  "lru_trim cap L = (if cap < lru_total L \<and> L \<noteq> [] then lru_trim cap (butlast L) else L)"
  by pat_completeness auto
termination by (relation "measure (\<lambda>(cap, L). length L)") auto

declare lru_trim.simps [simp del]

datatype cache_op = OpGet u64 u64 | OpSet u64 u64 bytes | OpEvict u64

fun lru_do :: "int \<Rightarrow> cache_op \<Rightarrow> lru \<Rightarrow> lru \<times> bytes option" where
  "lru_do cap (OpGet f b) L = (lru_front (f, b) L, map_of L (f, b))"
| "lru_do cap (OpSet f b d) L =
     (if (f, b) \<in> fst ` set L then lru_front (f, b) L else lru_trim cap (((f, b), d) # L), None)"
| "lru_do cap (OpEvict f) L = (filter (\<lambda>x. fst (fst x) \<noteq> f) L, None)"

fun cache_do :: "cache_op \<Rightarrow> BlockCache \<Rightarrow> BlockCache \<times> bytes option" where
  "cache_do (OpGet f b) c = cache_Get c f b"
| "cache_do (OpSet f b d) c = (cache_Set c f b d, None)"
| "cache_do (OpEvict f) c = (cache_Evict c f, None)"

definition entry_of :: "BlockCache \<Rightarrow> nat \<Rightarrow> cacheKey \<times> bytes" where
  "entry_of c a = (le_key (bc_store c a), le_data (bc_store c a))"

definition cache_at :: "BlockCache \<Rightarrow> nat list \<Rightarrow> bool" where
  "cache_at c as \<longleftrightarrow> links c as \<and> distinct (map (\<lambda>a. le_key (bc_store c a)) as) \<and>
     distinct (map fst (bc_items c)) \<and> set (bc_items c) = (\<lambda>a. (le_key (bc_store c a), a)) ` set as \<and>
     (\<forall>a\<in>set as. a < bc_fresh c) \<and> bc_size c = lru_total (map (entry_of c) as)"

definition cache_rep :: "BlockCache \<Rightarrow> lru \<Rightarrow> bool" where
  "cache_rep c L \<longleftrightarrow> (\<exists>as. cache_at c as \<and> L = map (entry_of c) as)"

lemma fst_entry_of [simp]: "fst (entry_of c a) = le_key (bc_store c a)" "snd (entry_of c a) = le_data (bc_store c a)"
  by (simp_all add: entry_of_def)

lemma entry_of_same: "same_data c' c \<Longrightarrow> entry_of c' = entry_of c"
  by (auto simp: same_data_def entry_of_def)

lemma filter_front: "distinct (map fst (xs @ x # ys)) \<Longrightarrow> lru_front (fst x) (xs @ x # ys) = x # xs @ ys"
proof -
  assume d: "distinct (map fst (xs @ x # ys))"
  then have "filter (\<lambda>y. fst y = fst x) xs = []" "filter (\<lambda>y. fst y = fst x) ys = []"
      "filter (\<lambda>y. fst y \<noteq> fst x) xs = xs" "filter (\<lambda>y. fst y \<noteq> fst x) ys = ys"
    by (auto simp: filter_empty_conv filter_id_conv image_iff)
  then show ?thesis by (simp add: lru_front_def)
qed

lemma lru_front_absent: "k \<notin> fst ` set L \<Longrightarrow> lru_front k L = L"
proof -
  assume k: "k \<notin> fst ` set L"
  then have "filter (\<lambda>x. fst x = k) L = []" by (auto simp: filter_empty_conv)
  moreover have "filter (\<lambda>x. fst x \<noteq> k) L = L" using k by (auto simp: filter_id_conv)
  ultimately show ?thesis by (simp add: lru_front_def)
qed

lemma filter_away: "distinct (map fst (xs @ x # ys)) \<Longrightarrow> filter (\<lambda>y. fst y \<noteq> fst x) (xs @ x # ys) = xs @ ys"
proof -
  assume d: "distinct (map fst (xs @ x # ys))"
  then have "filter (\<lambda>y. fst y \<noteq> fst x) xs = xs" "filter (\<lambda>y. fst y \<noteq> fst x) ys = ys"
    by (auto simp: filter_id_conv image_iff)
  then show ?thesis by simp
qed

lemma map_of_mid: "distinct (map fst (xs @ x # ys)) \<Longrightarrow> map_of (xs @ x # ys) (fst x) = Some (snd x)"
  by (induction xs) (auto simp: image_iff)

lemma distinct_entries: "cache_at c as \<Longrightarrow> distinct (map fst (map (entry_of c) as))"
  by (simp add: cache_at_def comp_def)

lemma at_lookup_None:
  assumes "cache_at c as" and "map_of (bc_items c) k = None"
  shows "k \<notin> fst ` set (map (entry_of c) as)" and "map_of (map (entry_of c) as) k = None"
proof -
  have "k \<notin> fst ` set (bc_items c)" using assms(2) by (simp add: map_of_eq_None_iff)
  then show "k \<notin> fst ` set (map (entry_of c) as)" using assms(1) by (auto simp: cache_at_def image_image)
  then show "map_of (map (entry_of c) as) k = None" by (simp add: map_of_eq_None_iff)
qed

lemma at_lookup_Some:
  assumes "cache_at c as" and "map_of (bc_items c) k = Some a"
  shows "le_key (bc_store c a) = k" and "a \<in> set as" and "\<exists>xs ys. as = xs @ a # ys"
proof -
  have "(k, a) \<in> set (bc_items c)" using assms(2) by (rule map_of_SomeD)
  then show "le_key (bc_store c a) = k" and a: "a \<in> set as" using assms(1) by (auto simp: cache_at_def)
  show "\<exists>xs ys. as = xs @ a # ys" by (rule split_list [OF a])
qed

section \<open>Moving and removing\<close>

lemma lru_total_simps [simp]:
  "lru_total [] = 0" "lru_total (x # L) = int (length (snd x)) + lru_total L" "lru_total (L @ M) = lru_total L + lru_total M"
  by (simp_all add: lru_total_def)

lemma at_front:
  assumes at: "cache_at c (xs @ a # ys)"
  shows "cache_at (cache_moveToFront c a) (a # xs @ ys)"
    and "map (entry_of (cache_moveToFront c a)) (a # xs @ ys) = lru_front (le_key (bc_store c a)) (map (entry_of c) (xs @ a # ys))"
    and "map_of (map (entry_of c) (xs @ a # ys)) (le_key (bc_store c a)) = Some (le_data (bc_store (cache_moveToFront c a) a))"
proof -
  note sm = moveToFront_same [of c a]
  note d = distinct_entries [OF at]
  show "cache_at (cache_moveToFront c a) (a # xs @ ys)"
    using at moveToFront_links [of c xs a ys] sm
    by (auto simp: cache_at_def entry_of_same [OF sm] same_data_def)
  show "map (entry_of (cache_moveToFront c a)) (a # xs @ ys) = lru_front (le_key (bc_store c a)) (map (entry_of c) (xs @ a # ys))"
    using filter_front [of "map (entry_of c) xs" "entry_of c a" "map (entry_of c) ys"] d by (simp add: entry_of_same [OF sm])
  show "map_of (map (entry_of c) (xs @ a # ys)) (le_key (bc_store c a)) = Some (le_data (bc_store (cache_moveToFront c a) a))"
    using map_of_mid [of "map (entry_of c) xs" "entry_of c a" "map (entry_of c) ys"] d sm by (simp add: same_data_def)
qed

text \<open>Removing an entry from the list and the map, and its bytes from the size.\<close>

definition cache_drop :: "BlockCache \<Rightarrow> nat \<Rightarrow> BlockCache" where
  "cache_drop c a =
     (let c' = cache_delete (le_key (bc_store c a)) (cache_remove c a)
      in c'\<lparr>bc_size := bc_size c' - int (length (le_data (bc_store c' a)))\<rparr>)"

lemma at_drop:
  assumes at: "cache_at c (xs @ a # ys)"
  shows "cache_at (cache_drop c a) (xs @ ys)" and "entry_of (cache_drop c a) = entry_of c"
    and "bc_capacity (cache_drop c a) = bc_capacity c"
proof -
  note sm = remove_same [of c a]
  have st: "bc_store (cache_drop c a) = bc_store (cache_remove c a)" by (simp add: cache_drop_def cache_delete_def Let_def)
  show e: "entry_of (cache_drop c a) = entry_of c" using sm by (auto simp: entry_of_def st same_data_def)
  show "bc_capacity (cache_drop c a) = bc_capacity c"
    using sm by (simp add: cache_drop_def cache_delete_def Let_def same_data_def)
  have lk: "links (cache_drop c a) (xs @ ys)"
    using remove_links [of c xs a ys] at by (simp add: links_def st cache_at_def) (simp add: cache_drop_def cache_delete_def Let_def)
  have keys: "le_key (bc_store (cache_drop c a) b) = le_key (bc_store c b)" for b using sm by (simp add: st same_data_def)
  have items: "bc_items (cache_drop c a) = filter (\<lambda>x. fst x \<noteq> le_key (bc_store c a)) (bc_items c)"
    using sm by (simp add: cache_drop_def cache_delete_def Let_def same_data_def split_def)
  have ne: "\<forall>b\<in>set (xs @ ys). le_key (bc_store c b) \<noteq> le_key (bc_store c a)"
  proof -
    have "distinct (map (\<lambda>a. le_key (bc_store c a)) (xs @ a # ys))" using at unfolding cache_at_def by (elim conjE)
    then have "le_key (bc_store c a) \<notin> (\<lambda>a. le_key (bc_store c a)) ` set (xs @ ys)" by auto
    then show ?thesis by (metis imageI)
  qed
  have "set (bc_items c) = insert (le_key (bc_store c a), a) ((\<lambda>a. (le_key (bc_store c a), a)) ` set (xs @ ys))"
    using at by (simp add: cache_at_def)
  then have "set (bc_items (cache_drop c a)) = (\<lambda>a. (le_key (bc_store c a), a)) ` set (xs @ ys)"
    using ne by (auto simp: items)
  moreover have "distinct (map fst (bc_items (cache_drop c a)))"
    using at by (simp add: items cache_at_def distinct_map_filter)
  moreover have "bc_size (cache_drop c a) = bc_size c - int (length (le_data (bc_store c a)))"
    using sm by (simp add: cache_drop_def cache_delete_def Let_def same_data_def)
  moreover have "bc_fresh (cache_drop c a) = bc_fresh c" using sm by (simp add: cache_drop_def cache_delete_def Let_def same_data_def)
  ultimately show "cache_at (cache_drop c a) (xs @ ys)"
    using at lk by (auto simp: cache_at_def keys e)
qed

lemma evictTail_drop: "bc_tail c = Some a \<Longrightarrow> cache_evictTail c = cache_drop c a"
  using remove_same [of c a] by (simp add: cache_evictTail_def cache_drop_def Let_def same_data_def)

lemma evict_one_drop:
  "cache_at c as \<Longrightarrow> cache_evict_one k c = (case map_of (bc_items c) k of None \<Rightarrow> c | Some a \<Rightarrow> cache_drop c a)"
  using at_lookup_Some(1) [of c as k] by (auto simp: cache_evict_one_def cache_drop_def Let_def split: option.splits)

section \<open>Refinement\<close>

lemma at_shrink:
  "cache_at c as \<Longrightarrow> length as \<le> n \<Longrightarrow>
    \<exists>as'. cache_at (cache_shrink n c) as' \<and> bc_capacity (cache_shrink n c) = bc_capacity c \<and>
      map (entry_of (cache_shrink n c)) as' = lru_trim (bc_capacity c) (map (entry_of c) as)"
proof (induction n arbitrary: c as)
  case 0
  then show ?case by (auto simp: lru_trim.simps [of _ "[]"])
next
  case (Suc n)
  have sz: "bc_size c = lru_total (map (entry_of c) as)" and tl: "bc_tail c = final None as"
    using Suc.prems by (simp_all add: cache_at_def links_def)
  show ?case
  proof (cases "bc_capacity c < bc_size c \<and> as \<noteq> []")
    case True
    then obtain xs a where as: "as = xs @ [a]" by (metis rev_exhaust)
    then have t: "bc_tail c = Some a" using tl by simp
    note dr = at_drop [of c xs a "[]", OF Suc.prems(1) [unfolded as]]
    have "cache_shrink (Suc n) c = cache_shrink n (cache_drop c a)" using True t by (simp add: evictTail_drop [OF t])
    moreover have "lru_trim (bc_capacity c) (map (entry_of c) as) = lru_trim (bc_capacity c) (map (entry_of c) xs)"
      using True sz by (subst lru_trim.simps) (simp add: as)
    ultimately show ?thesis using Suc.IH [of "cache_drop c a" xs] dr Suc.prems(2) as by simp
  next
    case False
    then have "cache_shrink (Suc n) c = c" using tl by (auto simp: final_def)
    moreover have "lru_trim (bc_capacity c) (map (entry_of c) as) = map (entry_of c) as"
      using False sz by (subst lru_trim.simps) auto
    ultimately show ?thesis using Suc.prems by auto
  qed
qed

lemma at_evict:
  "cache_at c as \<Longrightarrow> \<exists>as'. cache_at (fold cache_evict_one ks c) as' \<and> bc_capacity (fold cache_evict_one ks c) = bc_capacity c \<and>
      map (entry_of (fold cache_evict_one ks c)) as' = filter (\<lambda>x. fst x \<notin> set ks) (map (entry_of c) as)"
proof (induction ks arbitrary: c as)
  case (Cons k ks)
  show ?case
  proof (cases "map_of (bc_items c) k")
    case None
    have "\<forall>x\<in>set (map (entry_of c) as). fst x \<noteq> k" using at_lookup_None(1) [OF Cons.prems None] by (metis imageI)
    then have "filter (\<lambda>x. fst x \<notin> set (k # ks)) (map (entry_of c) as) = filter (\<lambda>x. fst x \<notin> set ks) (map (entry_of c) as)"
      by (intro filter_cong) auto
    with Cons.IH [OF Cons.prems] None show ?thesis by (simp add: evict_one_drop [OF Cons.prems])
  next
    case (Some a)
    obtain xs ys where as: "as = xs @ a # ys" using at_lookup_Some(3) [OF Cons.prems Some] by blast
    note dr = at_drop [OF Cons.prems [unfolded as]]
    have k: "fst (entry_of c a) = k" using at_lookup_Some(1) [OF Cons.prems Some] by simp
    have "filter (\<lambda>x. fst x \<notin> set (k # ks)) (map (entry_of c) as) =
        filter (\<lambda>x. fst x \<notin> set ks) (filter (\<lambda>x. fst x \<noteq> k) (map (entry_of c) as))"
      by (simp add: conj_commute)
    also have "filter (\<lambda>x. fst x \<noteq> k) (map (entry_of c) as) = map (entry_of c) (xs @ ys)"
      using filter_away [of "map (entry_of c) xs" "entry_of c a" "map (entry_of c) ys"] distinct_entries [OF Cons.prems] k
      by (simp add: as)
    finally show ?thesis using Cons.IH [OF dr(1)] dr(2,3) Some by (simp add: evict_one_drop [OF Cons.prems])
  qed
qed auto

lemma at_insert:
  fixes data :: bytes
  assumes at: "cache_at c as" and k: "map_of (bc_items c) k = None"
  defines "c1 \<equiv> c\<lparr>bc_store := (bc_store c)(bc_fresh c := \<lparr>le_key = k, le_data = data, le_prev = None, le_next = None\<rparr>),
      bc_fresh := bc_fresh c + 1, bc_items := (k, bc_fresh c) # bc_items c\<rparr>"
  defines "c2 \<equiv> (cache_pushFront c1 (bc_fresh c))\<lparr>bc_size := bc_size c + int (length data)\<rparr>"
  shows "cache_at c2 (bc_fresh c # as)" and "map (entry_of c2) (bc_fresh c # as) = (k, data) # map (entry_of c) as"
    and "bc_capacity c2 = bc_capacity c" and "length (bc_items c2) = Suc (length as)" and "bc_size (cache_pushFront c1 (bc_fresh c)) = bc_size c"
proof -
  have new: "bc_fresh c \<notin> set as" using at by (auto simp: cache_at_def)
  have l1: "links c1 as" using at new by (simp add: cache_at_def links_def c1_def)
  note l2 = pushFront_links [OF l1 new] and sm = pushFront_same [of c1 "bc_fresh c"]
  have e1: "entry_of c1 b = (if b = bc_fresh c then (k, data) else entry_of c b)" for b by (simp add: entry_of_def c1_def)
  have e2: "entry_of c2 = entry_of c1" using sm by (auto simp: entry_of_def c2_def same_data_def)
  show m: "map (entry_of c2) (bc_fresh c # as) = (k, data) # map (entry_of c) as" using new by (auto simp: e1 e2)
  show "bc_capacity c2 = bc_capacity c" using sm by (simp add: c2_def c1_def same_data_def)
  show "bc_size (cache_pushFront c1 (bc_fresh c)) = bc_size c" using sm by (simp add: c1_def same_data_def)
  have it: "bc_items c2 = (k, bc_fresh c) # bc_items c" using sm by (simp add: c2_def c1_def same_data_def)
  have keys: "le_key (bc_store c2 b) = (if b = bc_fresh c then k else le_key (bc_store c b))" for b
    using e2 e1 [of b] by (metis fst_conv fst_entry_of(1))
  have kn: "k \<notin> (\<lambda>a. le_key (bc_store c a)) ` set as" using at_lookup_None(1) [OF at k] by (simp add: image_image)
  have sets: "set (bc_items c) = (\<lambda>a. (le_key (bc_store c a), a)) ` set as" using at by (simp add: cache_at_def)
  have "length (bc_items c) = card (set (bc_items c))"
    using at by (simp add: cache_at_def distinct_card [symmetric] distinct_map del: set_map)
  also have "\<dots> = card (set as)" unfolding sets by (rule card_image) (auto simp: inj_on_def)
  also have "\<dots> = length as" using at by (simp add: cache_at_def links_def distinct_card)
  finally show "length (bc_items c2) = Suc (length as)" by (simp add: it)
  have "links c2 (bc_fresh c # as)" using l2 by (simp add: links_def c2_def)
  moreover have "distinct (map (\<lambda>a. le_key (bc_store c2 a)) (bc_fresh c # as))"
  proof -
    have e: "map (\<lambda>a. le_key (bc_store c2 a)) (bc_fresh c # as) = k # map (\<lambda>a. le_key (bc_store c a)) as"
      using new by (auto simp: keys)
    show ?thesis unfolding e using kn at by (simp add: cache_at_def)
  qed
  moreover have "distinct (map fst (bc_items c2))" using at k by (simp add: it cache_at_def map_of_eq_None_iff)
  moreover have "set (bc_items c2) = (\<lambda>a. (le_key (bc_store c2 a), a)) ` set (bc_fresh c # as)"
  proof -
    have "(\<lambda>a. (le_key (bc_store c2 a), a)) ` set as = (\<lambda>a. (le_key (bc_store c a), a)) ` set as"
      using new by (intro image_cong) (auto simp: keys)
    then show ?thesis by (simp add: it keys sets)
  qed
  moreover have "\<forall>a\<in>set (bc_fresh c # as). a < bc_fresh c2"
    using at sm by (auto simp: cache_at_def c2_def c1_def same_data_def)
  moreover have "bc_size c2 = lru_total (map (entry_of c2) (bc_fresh c # as))"
    using at unfolding m by (simp add: c2_def cache_at_def)
  ultimately show "cache_at c2 (bc_fresh c # as)" by (simp add: cache_at_def)
qed

lemma cache_do_refines:
  assumes at: "cache_at c as"
  shows "\<exists>as'. cache_at (fst (cache_do op c)) as' \<and> bc_capacity (fst (cache_do op c)) = bc_capacity c \<and>
    lru_do (bc_capacity c) op (map (entry_of c) as) = (map (entry_of (fst (cache_do op c))) as', snd (cache_do op c))"
proof (cases op)
  case (OpGet f b)
  show ?thesis
  proof (cases "map_of (bc_items c) (f, b)")
    case None
    have "lru_front (f, b) (map (entry_of c) as) = map (entry_of c) as"
      using at_lookup_None(1) [OF at None] by (rule lru_front_absent)
    with at_lookup_None(2) [OF at None] at None OpGet show ?thesis by (auto simp: cache_Get_def)
  next
    case (Some a)
    obtain xs ys where as: "as = xs @ a # ys" using at_lookup_Some(3) [OF at Some] by blast
    note fr = at_front [OF at [unfolded as]]
    have k: "le_key (bc_store c a) = (f, b)" by (rule at_lookup_Some(1) [OF at Some])
    have cap: "bc_capacity (cache_moveToFront c a) = bc_capacity c" using moveToFront_same [of c a] by (simp add: same_data_def)
    have do: "fst (cache_do op c) = cache_moveToFront c a" "snd (cache_do op c) = Some (le_data (bc_store (cache_moveToFront c a) a))"
      using OpGet Some by (simp_all add: cache_Get_def Let_def)
    have l: "lru_do (bc_capacity c) op (map (entry_of c) as) = (lru_front (f, b) (map (entry_of c) as), map_of (map (entry_of c) as) (f, b))"
      using OpGet by simp
    show ?thesis unfolding do l using fr(1,2,3) cap unfolding as k by (intro exI [of _ "a # xs @ ys"]) simp
  qed
next
  case (OpSet f b d)
  show ?thesis
  proof (cases "map_of (bc_items c) (f, b)")
    case None
    note ins = at_insert [OF at None, of d]
    let ?c2 = "(cache_pushFront (c\<lparr>bc_store := (bc_store c)(bc_fresh c := \<lparr>le_key = (f, b), le_data = d, le_prev = None, le_next = None\<rparr>),
      bc_fresh := bc_fresh c + 1, bc_items := ((f, b), bc_fresh c) # bc_items c\<rparr>) (bc_fresh c))\<lparr>bc_size := bc_size c + int (length d)\<rparr>"
    obtain c2 where c2: "c2 = ?c2" by simp
    note ins = ins [folded c2]
    have "cache_Set c f b d = cache_shrink (length (bc_items c2)) c2"
      using None ins(5) c2 by (simp add: cache_Set_def Let_def)
    then have do: "fst (cache_do op c) = cache_shrink (length (bc_items c2)) c2" "snd (cache_do op c) = None"
      using OpSet by simp_all
    have len: "length (bc_fresh c # as) \<le> length (bc_items c2)" using ins(4) by simp
    obtain as' where s: "cache_at (cache_shrink (length (bc_items c2)) c2) as'"
        "bc_capacity (cache_shrink (length (bc_items c2)) c2) = bc_capacity c"
        "map (entry_of (cache_shrink (length (bc_items c2)) c2)) as' = lru_trim (bc_capacity c) (((f, b), d) # map (entry_of c) as)"
      using at_shrink [OF ins(1) len] unfolding ins(2,3) by (elim exE conjE) (rule that)
    have "lru_do (bc_capacity c) op (map (entry_of c) as) = (lru_trim (bc_capacity c) (((f, b), d) # map (entry_of c) as), None)"
      using at_lookup_None(1) [OF at None] OpSet by simp
    then show ?thesis unfolding do s(3) [symmetric] using s(1,2) by blast
  next
    case (Some a)
    obtain xs ys where as: "as = xs @ a # ys" using at_lookup_Some(3) [OF at Some] by blast
    note fr = at_front [OF at [unfolded as]]
    have k: "le_key (bc_store c a) = (f, b)" by (rule at_lookup_Some(1) [OF at Some])
    have mem: "(f, b) \<in> fst ` set (map (entry_of c) as)" using k by (auto simp: as image_iff)
    have cap: "bc_capacity (cache_moveToFront c a) = bc_capacity c" using moveToFront_same [of c a] by (simp add: same_data_def)
    have do: "fst (cache_do op c) = cache_moveToFront c a" "snd (cache_do op c) = None" using OpSet Some by (simp_all add: cache_Set_def)
    have l: "lru_do (bc_capacity c) op (map (entry_of c) as) = (lru_front (f, b) (map (entry_of c) as), None)"
      using OpSet mem by simp
    show ?thesis unfolding do l using fr(1,2) cap unfolding as k by (intro exI [of _ "a # xs @ ys"]) simp
  qed
next
  case (OpEvict f)
  let ?ks = "filter (\<lambda>key. fst key = f) (map fst (bc_items c))"
  have keys: "fst ` set (bc_items c) = fst ` set (map (entry_of c) as)" using at by (auto simp: cache_at_def image_image)
  have "filter (\<lambda>x. fst x \<notin> set ?ks) (map (entry_of c) as) = filter (\<lambda>x. fst (fst x) \<noteq> f) (map (entry_of c) as)"
  proof (rule filter_cong)
    fix x assume "x \<in> set (map (entry_of c) as)"
    then have "fst x \<in> fst ` set (bc_items c)" unfolding keys by (rule imageI)
    then show "(fst x \<notin> set ?ks) = (fst (fst x) \<noteq> f)" by auto
  qed simp
  with at_evict [OF at, of ?ks] OpEvict show ?thesis
    by (simp add: cache_Evict_def Let_def) (elim exE conjE, intro exI conjI, assumption, assumption, rule sym)
qed

lemma cache_do_rep:
  assumes "cache_rep c L"
  shows "\<exists>L'. cache_rep (fst (cache_do op c)) L' \<and> lru_do (bc_capacity c) op L = (L', snd (cache_do op c))"
  using assms cache_do_refines [of c _ op] by (fastforce simp: cache_rep_def)

lemma set_lru_front [simp]: "set (lru_front k L) = set L"
  by (auto simp: lru_front_def)

lemma set_lru_trim: "set (lru_trim cap L) \<subseteq> set L"
proof (induction cap L rule: lru_trim.induct)
  case (1 cap L)
  then show ?case by (subst lru_trim.simps) (auto dest: in_set_butlastD)
qed

text \<open>What the cache answers was put in, and nothing else is added.\<close>

lemma cache_Get_rep:
  assumes "cache_rep c L" and "cache_Get c f b = (c', d)"
  shows "\<exists>L'. cache_rep c' L' \<and> set L' = set L" and "d = map_of L (f, b)"
  using cache_do_rep [OF assms(1), of "OpGet f b"] assms(2) by auto

lemma cache_Set_rep:
  assumes "cache_rep c L"
  shows "\<exists>L'. cache_rep (cache_Set c f b d) L' \<and> set L' \<subseteq> insert ((f, b), d) (set L)"
  using cache_do_rep [OF assms, of "OpSet f b d"] set_lru_trim [of "bc_capacity c" "((f, b), d) # L"]
  by (fastforce split: if_splits)

fun cache_run :: "cache_op list \<Rightarrow> BlockCache \<Rightarrow> BlockCache \<times> bytes option list" where
  "cache_run [] c = (c, [])"
| "cache_run (op # ops) c = (case cache_do op c of (c, r) \<Rightarrow> case cache_run ops c of (c, rs) \<Rightarrow> (c, r # rs))"

fun lru_run :: "int \<Rightarrow> cache_op list \<Rightarrow> lru \<Rightarrow> lru \<times> bytes option list" where
  "lru_run cap [] L = (L, [])"
| "lru_run cap (op # ops) L = (case lru_do cap op L of (L, r) \<Rightarrow> case lru_run cap ops L of (L, rs) \<Rightarrow> (L, r # rs))"

lemma cache_run_refines:
  assumes "cache_at c as"
  shows "\<exists>as'. cache_at (fst (cache_run ops c)) as' \<and> bc_capacity (fst (cache_run ops c)) = bc_capacity c \<and>
    lru_run (bc_capacity c) ops (map (entry_of c) as) = (map (entry_of (fst (cache_run ops c))) as', snd (cache_run ops c))"
  using assms
proof (induction ops arbitrary: c as)
  case (Cons op ops)
  obtain c1 r where d: "cache_do op c = (c1, r)" by fastforce
  from cache_do_refines [OF Cons.prems, of op] obtain as1 where s: "cache_at c1 as1" "bc_capacity c1 = bc_capacity c"
      "lru_do (bc_capacity c) op (map (entry_of c) as) = (map (entry_of c1) as1, r)"
    by (auto simp: d)
  obtain c2 rs where e: "cache_run ops c1 = (c2, rs)" by fastforce
  from Cons.IH [OF s(1)] s(2,3) show ?case by (auto simp: d e)
qed auto

lemma lru_trim_total: "0 \<le> cap \<Longrightarrow> lru_total (lru_trim cap L) \<le> cap"
proof (induction cap L rule: lru_trim.induct)
  case (1 cap L)
  then show ?case by (subst lru_trim.simps) auto
qed

lemma lru_total_filter: "lru_total (filter P L) \<le> lru_total L"
  by (induction L) auto

lemma lru_total_front: "lru_total (lru_front k L) = lru_total L"
proof -
  have "lru_total (filter P L) + lru_total (filter (\<lambda>x. \<not> P x) L) = lru_total L" for P by (induction L) auto
  from this [of "\<lambda>x. fst x = k"] show ?thesis by (simp add: lru_front_def)
qed

lemma lru_run_total: "0 \<le> cap \<Longrightarrow> lru_total L \<le> cap \<Longrightarrow> lru_total (fst (lru_run cap ops L)) \<le> cap"
proof (induction ops arbitrary: L)
  case (Cons op ops)
  have "lru_total (fst (lru_do cap op L)) \<le> cap"
    using Cons.prems lru_trim_total order_trans [OF lru_total_filter Cons.prems(2)] by (cases op) (auto simp: lru_total_front)
  moreover obtain L1 r where d: "lru_do cap op L = (L1, r)" by fastforce
  moreover obtain L2 rs where e: "lru_run cap ops L1 = (L2, rs)" by fastforce
  ultimately show ?case using Cons.IH [of L1] Cons.prems(1) by simp
qed simp

section \<open>Properties\<close>

text \<open>C34: The cache with its map and doubly linked list behaves as a list of keys and blocks in the order of
  their last use: for every sequence of lookups, insertions and evictions of a file, the lookups return
  what the list returns, the same entries remain in the same order, and the recorded size is the sum of
  their lengths, which never exceeds a capacity that is not negative.\<close>

theorem cache_is_lru:
  assumes "cache_run ops (NewBlockCache cap) = (c, rs)"
  shows "\<exists>L. lru_run cap ops [] = (L, rs) \<and> cache_rep c L \<and> bc_size c = lru_total L \<and> (0 \<le> cap \<longrightarrow> bc_size c \<le> cap)"
proof -
  have new: "cache_at (NewBlockCache cap) []" by (simp add: cache_at_def links_def NewBlockCache_def)
  from cache_run_refines [OF new, of ops] obtain as where as: "cache_at c as" "lru_run cap ops [] = (map (entry_of c) as, rs)"
    by (auto simp: assms) (simp add: NewBlockCache_def)
  moreover have "0 \<le> cap \<Longrightarrow> lru_total (map (entry_of c) as) \<le> cap"
    using lru_run_total [of cap "[]" ops] as(2) by simp
  ultimately show ?thesis by (auto simp: cache_rep_def cache_at_def)
qed

theorem cache_is_lru_witness:
  "\<exists>c rs L. cache_run [OpSet 1 0 [1, 2], OpSet 1 8 [3, 4], OpGet 1 0, OpSet 2 0 [5], OpGet 1 8] (NewBlockCache 4) = (c, rs) \<and>
     rs = [None, None, Some [1, 2], None, None] \<and> bc_size c \<le> 4"
proof -
  let ?ops = "[OpSet 1 0 [1, 2], OpSet 1 8 [3, 4], OpGet 1 0, OpSet 2 0 [5], OpGet 1 8]"
  obtain c rs where r: "cache_run ?ops (NewBlockCache 4) = (c, rs)" by fastforce
  from cache_is_lru [OF r] have "snd (lru_run 4 ?ops []) = rs" "bc_size c \<le> 4" by auto
  moreover have "snd (lru_run 4 ?ops []) = [None, None, Some [1, 2], None, None]"
    by code_simp
  ultimately show ?thesis using r by auto
qed

end
