(* ===== verification/Table_Reader.thy ===== *)
theory Table_Reader
  imports Table_Writer Cache
begin

text \<open>
  The SSTable reader of \<^verbatim>\<open>pkg/lsm/sstable/reader.go\<close>: opening, point lookup and the two-level
  iterator. \<open>rd\<close> is the \<^verbatim>\<open>io.ReaderAt\<close> below, and the shared block cache is threaded through the
  operations that use it (\<open>None\<close> when there is none). \<open>None\<close> as a result is a panic: a slice or index
  out of range, or the use of a nil iterator.
\<close>

section \<open>Reading at an offset\<close>

type_synonym reader_at = "int \<Rightarrow> nat \<Rightarrow> io_error + bytes"

definition bytes_ReadAt :: "bytes \<Rightarrow> reader_at" where
  "bytes_ReadAt file off n =
     (if off < 0 then Inl ErrIO
      else if nat off + n \<le> length file then Inr (take n (drop (nat off) file)) else Inl EOF)"

section \<open>Opening\<close>

record table_reader =
  tr_size :: int
  tr_fileID :: u64
  tr_indexBlock :: bytes
  tr_filter :: "bloomFilter option"
  tr_metaindexHandle :: BlockHandle
  tr_indexHandle :: BlockHandle

definition maxAlloc :: nat where
  "maxAlloc = 2 ^ 48"

text \<open>A block is allocated before it is read: \<^verbatim>\<open>make\<close> panics above the address space of the runtime.\<close>

definition readRawBlock :: "reader_at \<Rightarrow> BlockHandle \<Rightarrow> (sst_error + bytes) option" where
  "readRawBlock rd handle =
     (let n = unat (bh_Length handle + of_nat blockTrailerSize) in
      if maxAlloc < n then None else
      case rd (sint (bh_Offset handle)) n of
        Inl e \<Rightarrow> Some (Inl (ErrTableIO e))
      | Inr buf \<Rightarrow>
          if length buf < unat (bh_Length handle) + blockTrailerSize then None
          else let data = take (unat (bh_Length handle)) buf;
                   blockType = buf ! unat (bh_Length handle);
                   storedChecksum = Uint32LE (drop (unat (bh_Length handle) + 1) buf)
               in Some (if blockChecksum data blockType \<noteq> storedChecksum then Inl ErrTableCorrupted else Inr data))"

definition readFooter :: "reader_at \<Rightarrow> table_reader \<Rightarrow> (sst_error + table_reader) option" where
  "readFooter rd r =
     (case rd (tr_size r - int footerSize) footerSize of
        Inl e \<Rightarrow> Some (Inl ErrTableCorrupted)
      | Inr footer \<Rightarrow>
          if drop (footerSize - 8) footer \<noteq> sst_magic then Some (Inl ErrTableCorrupted)
          else case decodeBlockHandle footer of None \<Rightarrow> None | Some (mh, n) \<Rightarrow>
               case go_from footer n of None \<Rightarrow> None | Some rest \<Rightarrow>
               case decodeBlockHandle rest of None \<Rightarrow> None | Some (ih, _) \<Rightarrow>
                 Some (Inr (r\<lparr>tr_metaindexHandle := mh, tr_indexHandle := ih\<rparr>)))"

definition readIndex :: "reader_at \<Rightarrow> table_reader \<Rightarrow> (sst_error + table_reader) option" where
  "readIndex rd r =
     (case readRawBlock rd (tr_indexHandle r) of
        None \<Rightarrow> None
      | Some (Inl e) \<Rightarrow> Some (Inl e)
      | Some (Inr data) \<Rightarrow> Some (Inr (r\<lparr>tr_indexBlock := data\<rparr>)))"

text \<open>The scan of the metaindex, from the first entry or from the one after the current entry.\<close>

function (sequential) filter_scan :: "reader_at \<Rightarrow> table_reader \<Rightarrow> blockIterator \<times> bool \<Rightarrow> (sst_error + table_reader) option" where
  "filter_scan rd r (it, False) = Some (Inr r)"
| "filter_scan rd r (it, True) =
     (if bi_Key it = filter_name
      then case decodeBlockHandle (bi_Value it) of None \<Rightarrow> None | Some (filterHandle, _) \<Rightarrow>
           case readRawBlock rd filterHandle of
             None \<Rightarrow> None
           | Some (Inl e) \<Rightarrow> Some (Inl e)
           | Some (Inr filterData) \<Rightarrow> Some (Inr (r\<lparr>tr_filter := decodeBloomFilter filterData\<rparr>))
      else case bi_Next it of None \<Rightarrow> None | Some (it', ok) \<Rightarrow> filter_scan rd r (it', ok))"
  by pat_completeness auto
termination
proof (relation "measure (\<lambda>(rd, r, it, ok). if ok then Suc (nat (bi_restarts it - bi_offset it)) else 0)", goal_cases)
  case (2 rd r it x it' ok)
  then show ?case by (cases ok) (auto simp: bi_Next_def dest!: bi_next_progress)
qed simp

definition readFilter :: "reader_at \<Rightarrow> table_reader \<Rightarrow> (sst_error + table_reader) option" where
  "readFilter rd r =
     (case readRawBlock rd (tr_metaindexHandle r) of
        None \<Rightarrow> None
      | Some (Inl e) \<Rightarrow> Some (Inl e)
      | Some (Inr metaData) \<Rightarrow>
          (case bi_First (newBlockIterator metaData) of None \<Rightarrow> None | Some (it, ok) \<Rightarrow> filter_scan rd r (it, ok)))"

definition NewReader :: "reader_at \<Rightarrow> int \<Rightarrow> u64 \<Rightarrow> (sst_error + table_reader) option" where
  "NewReader rd size0 fileID =
     (if size0 < int footerSize then Some (Inl ErrTableCorrupted)
      else case readFooter rd \<lparr>tr_size = size0, tr_fileID = fileID, tr_indexBlock = [], tr_filter = None,
                  tr_metaindexHandle = zeroHandle, tr_indexHandle = zeroHandle\<rparr> of
             None \<Rightarrow> None | Some (Inl e) \<Rightarrow> Some (Inl e) | Some (Inr r) \<Rightarrow>
           case readIndex rd r of
             None \<Rightarrow> None | Some (Inl e) \<Rightarrow> Some (Inl e) | Some (Inr r) \<Rightarrow>
           readFilter rd r)"

section \<open>Point lookup\<close>

definition readDataBlock ::
  "reader_at \<Rightarrow> table_reader \<Rightarrow> BlockCache option \<Rightarrow> BlockHandle \<Rightarrow> (BlockCache option \<times> (sst_error + bytes)) option" where
  "readDataBlock rd r cache handle =
     (case (case cache of None \<Rightarrow> (None, None) | Some c \<Rightarrow> (case cache_Get c (tr_fileID r) (bh_Offset handle) of (c, d) \<Rightarrow> (Some c, d))) of
        (cache, Some data) \<Rightarrow> Some (cache, Inr data)
      | (cache, None) \<Rightarrow>
          (case readRawBlock rd handle of
             None \<Rightarrow> None
           | Some (Inl e) \<Rightarrow> Some (cache, Inl e)
           | Some (Inr data) \<Rightarrow>
               Some (map_option (\<lambda>c. cache_Set c (tr_fileID r) (bh_Offset handle) data) cache, Inr data)))"

text \<open>\<^verbatim>\<open>for it.Next() {}\<close>\<close>

function (sequential) bi_exhaust :: "blockIterator \<Rightarrow> blockIterator option" where
  "bi_exhaust it =
     (case bi_Next it of None \<Rightarrow> None | Some (it', True) \<Rightarrow> bi_exhaust it' | Some (it', False) \<Rightarrow> Some it')"
  by pat_completeness auto
termination
  by (relation "measure (\<lambda>it. nat (bi_restarts it - bi_offset it))") (auto simp: bi_Next_def dest: bi_next_progress)

declare bi_exhaust.simps [simp del]

definition findDataBlock :: "table_reader \<Rightarrow> bytes \<Rightarrow> (sst_error + BlockHandle) option" where
  "findDataBlock r key =
     (case bi_SeekGE (newBlockIterator (tr_indexBlock r)) key of
        None \<Rightarrow> None
      | Some (it, True) \<Rightarrow> map_option (\<lambda>(h, _). Inr h) (decodeBlockHandle (bi_Value it))
      | Some (it, False) \<Rightarrow>
          (case bi_First it of
             None \<Rightarrow> None
           | Some (it, False) \<Rightarrow> Some (Inl ErrTableNotFound)
           | Some (it, True) \<Rightarrow>
               (case bi_exhaust it of
                  None \<Rightarrow> None
                | Some it \<Rightarrow> if \<not> bi_Valid it then Some (Inl ErrTableNotFound)
                             else map_option (\<lambda>(h, _). Inr h) (decodeBlockHandle (bi_Value it)))))"

definition Reader_Get ::
  "reader_at \<Rightarrow> table_reader \<Rightarrow> BlockCache option \<Rightarrow> bytes \<Rightarrow> (BlockCache option \<times> (sst_error + bytes)) option" where
  "Reader_Get rd r cache key =
     (if tr_filter r \<noteq> None \<and> \<not> mayContain (tr_filter r) key then Some (cache, Inl ErrTableNotFound)
      else case findDataBlock r key of
        None \<Rightarrow> None
      | Some (Inl e) \<Rightarrow> Some (cache, Inl e)
      | Some (Inr handle) \<Rightarrow>
          (case readDataBlock rd r cache handle of
             None \<Rightarrow> None
           | Some (cache, Inl e) \<Rightarrow> Some (cache, Inl e)
           | Some (cache, Inr blockData) \<Rightarrow>
               (case bi_SeekGE (newBlockIterator blockData) key of
                  None \<Rightarrow> None
                | Some (it, ok) \<Rightarrow>
                    Some (cache, if ok \<and> compareBytes (bi_Key it) key = 0 then Inr (bi_Value it) else Inl ErrTableNotFound))))"

section \<open>The two-level iterator\<close>

record TableIterator =
  ti_indexIter :: "blockIterator option"
  ti_dataIter :: "blockIterator option"
  ti_err :: "sst_error option"

type_synonym 'a cached = "(TableIterator \<times> BlockCache option \<times> 'a) option"

definition Reader_NewIterator :: TableIterator where
  "Reader_NewIterator = \<lparr>ti_indexIter = None, ti_dataIter = None, ti_err = None\<rparr>"

definition ti_loadDataBlock :: "reader_at \<Rightarrow> table_reader \<Rightarrow> BlockCache option \<Rightarrow> TableIterator \<Rightarrow> sst_error option cached" where
  "ti_loadDataBlock rd r cache it =
     (case ti_indexIter it of
        None \<Rightarrow> None
      | Some ii \<Rightarrow>
          (case decodeBlockHandle (bi_Value ii) of
             None \<Rightarrow> None
           | Some (handle, _) \<Rightarrow>
               (case readDataBlock rd r cache handle of
                  None \<Rightarrow> None
                | Some (cache, Inl e) \<Rightarrow> Some (it, cache, Some e)
                | Some (cache, Inr data) \<Rightarrow> Some (it\<lparr>ti_dataIter := Some (newBlockIterator data)\<rparr>, cache, None))))"

definition ti_dataFirst :: "BlockCache option \<Rightarrow> TableIterator \<Rightarrow> bool cached" where
  "ti_dataFirst cache it =
     (case ti_dataIter it of
        None \<Rightarrow> None
      | Some di \<Rightarrow> map_option (\<lambda>(di, ok). (it\<lparr>ti_dataIter := Some di\<rparr>, cache, ok)) (bi_First di))"

text \<open>Load the block of the current index entry, and continue in it if there is no error.\<close>

definition ti_load_then ::
  "reader_at \<Rightarrow> table_reader \<Rightarrow> BlockCache option \<Rightarrow> TableIterator \<Rightarrow> (BlockCache option \<Rightarrow> TableIterator \<Rightarrow> bool cached) \<Rightarrow> bool cached" where
  "ti_load_then rd r cache it f =
     (case ti_loadDataBlock rd r cache it of
        None \<Rightarrow> None
      | Some (it, cache, Some e) \<Rightarrow> Some (it\<lparr>ti_err := Some e\<rparr>, cache, False)
      | Some (it, cache, None) \<Rightarrow> f cache it)"

definition ti_nextBlock :: "reader_at \<Rightarrow> table_reader \<Rightarrow> BlockCache option \<Rightarrow> TableIterator \<Rightarrow> bool cached" where
  "ti_nextBlock rd r cache it =
     (case ti_indexIter it of
        None \<Rightarrow> None
      | Some ii \<Rightarrow>
          (case bi_Next ii of
             None \<Rightarrow> None
           | Some (ii, False) \<Rightarrow> Some (it\<lparr>ti_indexIter := Some ii, ti_dataIter := None\<rparr>, cache, False)
           | Some (ii, True) \<Rightarrow> ti_load_then rd r cache (it\<lparr>ti_indexIter := Some ii\<rparr>) ti_dataFirst))"

definition ti_SeekGE :: "reader_at \<Rightarrow> table_reader \<Rightarrow> BlockCache option \<Rightarrow> TableIterator \<Rightarrow> bytes \<Rightarrow> bool cached" where
  "ti_SeekGE rd r cache it target =
     (case bi_SeekGE (newBlockIterator (tr_indexBlock r)) target of
        None \<Rightarrow> None
      | Some (ii, False) \<Rightarrow> Some (it\<lparr>ti_err := None, ti_indexIter := Some ii\<rparr>, cache, False)
      | Some (ii, True) \<Rightarrow>
          ti_load_then rd r cache (it\<lparr>ti_err := None, ti_indexIter := Some ii\<rparr>) (\<lambda>cache it.
            case ti_dataIter it of
              None \<Rightarrow> None
            | Some di \<Rightarrow>
                (case bi_SeekGE di target of
                   None \<Rightarrow> None
                 | Some (di, True) \<Rightarrow> Some (it\<lparr>ti_dataIter := Some di\<rparr>, cache, True)
                 | Some (di, False) \<Rightarrow> ti_nextBlock rd r cache (it\<lparr>ti_dataIter := Some di\<rparr>))))"

definition ti_First :: "reader_at \<Rightarrow> table_reader \<Rightarrow> BlockCache option \<Rightarrow> TableIterator \<Rightarrow> bool cached" where
  "ti_First rd r cache it =
     (case bi_First (newBlockIterator (tr_indexBlock r)) of
        None \<Rightarrow> None
      | Some (ii, False) \<Rightarrow> Some (it\<lparr>ti_err := None, ti_indexIter := Some ii\<rparr>, cache, False)
      | Some (ii, True) \<Rightarrow> ti_load_then rd r cache (it\<lparr>ti_err := None, ti_indexIter := Some ii\<rparr>) ti_dataFirst)"

definition ti_Next :: "reader_at \<Rightarrow> table_reader \<Rightarrow> BlockCache option \<Rightarrow> TableIterator \<Rightarrow> bool cached" where
  "ti_Next rd r cache it =
     (case ti_dataIter it of
        None \<Rightarrow> Some (it, cache, False)
      | Some di \<Rightarrow>
          (case bi_Next di of
             None \<Rightarrow> None
           | Some (di, True) \<Rightarrow> Some (it\<lparr>ti_dataIter := Some di\<rparr>, cache, True)
           | Some (di, False) \<Rightarrow> ti_nextBlock rd r cache (it\<lparr>ti_dataIter := Some di\<rparr>)))"

definition ti_Valid :: "TableIterator \<Rightarrow> bool" where
  "ti_Valid it \<longleftrightarrow> (case ti_dataIter it of None \<Rightarrow> False | Some di \<Rightarrow> bi_Valid di) \<and> ti_err it = None"

definition ti_Key :: "TableIterator \<Rightarrow> bytes option" where
  "ti_Key it = map_option bi_Key (ti_dataIter it)"

definition ti_Value :: "TableIterator \<Rightarrow> bytes option" where
  "ti_Value it = map_option bi_Value (ti_dataIter it)"

end
