(* ===== verification/Table_Correct.thy ===== *)
theory Table_Correct
  imports Table_Reader
begin

text \<open>
  The writer of \<^verbatim>\<open>Table_Writer\<close> and the reader of \<^verbatim>\<open>Table_Reader\<close> together: what has been written
  in every state of the writer, and that a table written from sorted entries and closed opens, finds
  exactly its keys, and iterates over exactly its entries, with or without the shared block cache.
\<close>

section \<open>The contents of a table file\<close>

definition raw_block :: "bytes \<Rightarrow> bytes" where
  "raw_block d = d @ trailer_of d"

definition blocks_bytes :: "nat \<Rightarrow> kv list list \<Rightarrow> bytes" where
  "blocks_bytes r blks = concat (map (\<lambda>b. raw_block (block_of r b)) blks)"

definition handle_of :: "nat \<Rightarrow> kv list list \<Rightarrow> nat \<Rightarrow> BlockHandle" where
  "handle_of r blks i =
     \<lparr>bh_Offset = of_nat (length (blocks_bytes r (take i blks))), bh_Length = of_nat (length (block_of r (blks ! i)))\<rparr>"

definition index_of :: "nat \<Rightarrow> kv list list \<Rightarrow> bytes list \<Rightarrow> kv list" where
  "index_of r blks seps = map (\<lambda>i. (seps ! i, encodeHandle (handle_of r blks i))) [0..<length seps]"

text \<open>Separator \<open>i\<close> is not below the keys of block \<open>i\<close> and below those of the later blocks.\<close>

definition separates :: "kv list list \<Rightarrow> bytes list \<Rightarrow> bool" where
  "separates L seps \<longleftrightarrow> (\<forall>i<length seps. (\<forall>e\<in>set (L ! i). fst e \<le> seps ! i) \<and>
     (\<forall>j<length L. i < j \<longrightarrow> (\<forall>e\<in>set (L ! j). seps ! i < fst e)))"

text \<open>A separator is not longer than the last key of its block.\<close>

definition short_seps :: "kv list list \<Rightarrow> bytes list \<Rightarrow> bool" where
  "short_seps L seps \<longleftrightarrow> (\<forall>i<length seps. length (seps ! i) \<le> length (fst (last (L ! i))))"

lemma short_seps_simps [simp]:
  "short_seps L []" "length seps \<le> length L \<Longrightarrow> short_seps (L @ [b]) seps = short_seps L seps"
  "length seps = length L \<Longrightarrow> short_seps (L @ [b]) (seps @ [x]) \<longleftrightarrow> short_seps L seps \<and> length x \<le> length (fst (last b))"
  by (auto simp: short_seps_def nth_append less_Suc_eq)

lemma length_trailer [simp]: "length (trailer_of d) = 5"
  by (simp add: trailer_of_def)

lemma length_raw_block [simp]: "length (raw_block d) = length d + 5"
  by (simp add: raw_block_def)

lemma blocks_bytes_snoc [simp]: "blocks_bytes r (blks @ [b]) = blocks_bytes r blks @ raw_block (block_of r b)"
  by (simp add: blocks_bytes_def)

lemma handle_of_snoc: "i < length blks \<Longrightarrow> handle_of r (blks @ [b]) i = handle_of r blks i"
  by (simp add: handle_of_def nth_append)

lemma index_of_snoc: "length seps \<le> length blks \<Longrightarrow> index_of r (blks @ [b]) seps = index_of r blks seps"
  by (auto simp: index_of_def handle_of_snoc)

lemma index_of_sep:
  "index_of r blks (seps @ [sep]) = index_of r blks seps @ [(sep, encodeHandle (handle_of r blks (length seps)))]"
  by (auto simp: index_of_def nth_append)

lemma index_of_Nil [simp]: "index_of r blks [] = []"
  by (simp add: index_of_def)

lemma separates_Nil [simp]: "separates L []"
  by (simp add: separates_def)

section \<open>The writer's invariant\<close>

definition writer_core :: "table_writer \<Rightarrow> bytes \<Rightarrow> kv list list \<Rightarrow> bytes list \<Rightarrow> kv list \<Rightarrow> bool" where
  "writer_core w out blks seps cur \<longleftrightarrow>
     (let r = nat (wo_RestartInterval (tw_opts w)); es = concat blks @ cur in
      0 < r \<and> out = blocks_bytes r blks \<and> tw_offset w = of_nat (length out) \<and>
      tw_dataBlock w = add_all (newBlockWriter r) cur \<and>
      tw_indexBlock w = add_all (newBlockWriter 1) (index_of r blks seps) \<and>
      [] \<notin> set blks \<and> sorted_keys es \<and> length seps \<le> length blks \<and> separates (blks @ [cur]) seps \<and> short_seps blks seps \<and>
      bw_hashes (tw_bloom w) = map (\<lambda>e. bloomHash (fst e)) es \<and>
      tw_keyCount w = of_nat (length es) \<and> tw_dataBlockCount w = length blks \<and>
      (es \<noteq> [] \<longrightarrow> tw_largestKey w = fst (last es) \<and> (length es < 2 ^ 64 \<longrightarrow> tw_smallestKey w = fst (hd es))))"

definition pending_ok :: "table_writer \<Rightarrow> kv list list \<Rightarrow> bytes list \<Rightarrow> kv list \<Rightarrow> bool" where
  "pending_ok w blks seps cur \<longleftrightarrow>
     (case tw_pendingHandle w of
        None \<Rightarrow> length seps = length blks \<and> (cur = [] \<longrightarrow> blks = [])
      | Some h \<Rightarrow> Suc (length seps) = length blks \<and> h = handle_of (nat (wo_RestartInterval (tw_opts w))) blks (length seps) \<and>
          tw_pendingKey w = fst (last (last blks)) \<and> cur = [])"

definition prev_ok :: "table_writer \<Rightarrow> kv list \<Rightarrow> bool" where
  "prev_ok w es \<longleftrightarrow> (case tw_prevKey w of None \<Rightarrow> es = [] \<or> fst (last es) = [] | Some p \<Rightarrow> es \<noteq> [] \<and> p = fst (last es))"

definition writer_inv :: "table_writer \<Rightarrow> bytes \<Rightarrow> kv list list \<Rightarrow> bytes list \<Rightarrow> kv list \<Rightarrow> bool" where
  "writer_inv w out blks seps cur \<longleftrightarrow> writer_core w out blks seps cur \<and> pending_ok w blks seps cur \<and> prev_ok w (concat blks @ cur)"

lemma options_positive: "0 < wo_RestartInterval (writer_options opts)" "0 < wo_BloomBitsPerKey (writer_options opts)"
  by (auto simp: writer_options_def DefaultWriterOptions_def Let_def)

lemma add_all_Nil [simp]: "add_all w [] = w"
  by (simp add: add_all_def)

lemma writer_inv_new: "writer_inv (NewWriter opts) [] [] [] []"
  using options_positive [of opts]
  by (simp add: writer_inv_def writer_core_def pending_ok_def prev_ok_def NewWriter_def Let_def blocks_bytes_def newBloomFilterWriter_def)

lemma sorted_keys_append:
  "sorted_keys (xs @ ys) \<longleftrightarrow> sorted_keys xs \<and> sorted_keys ys \<and> (\<forall>x\<in>set xs. \<forall>y\<in>set ys. fst x < fst y)"
  by (simp add: sorted_wrt_append)

lemma last_key_max: "sorted_keys es \<Longrightarrow> e \<in> set es \<Longrightarrow> fst e \<le> fst (last es)"
  by (cases es rule: rev_cases) (auto simp: sorted_wrt_append)

lemma writer_coreD:
  assumes "writer_core w out blks seps cur"
  shows "separates (blks @ [cur]) seps" "sorted_keys (concat blks @ cur)" "[] \<notin> set blks" "length seps \<le> length blks"
    "0 < nat (wo_RestartInterval (tw_opts w))" "short_seps blks seps"
  using assms by (simp_all add: writer_core_def Let_def)

lemma writer_core_keys:
  assumes "writer_core w out blks seps cur" and "E = concat blks @ cur"
  shows "tw_keyCount w = of_nat (length E)" "E \<noteq> [] \<Longrightarrow> tw_largestKey w = fst (last E)"
    "E \<noteq> [] \<Longrightarrow> length E < 2 ^ 64 \<Longrightarrow> tw_smallestKey w = fst (hd E)"
  using assms unfolding writer_core_def Let_def by simp_all

lemma separatesD:
  "separates L seps \<Longrightarrow> i < length seps \<Longrightarrow> e \<in> set (L ! i) \<Longrightarrow> fst e \<le> seps ! i"
  "separates L seps \<Longrightarrow> i < length seps \<Longrightarrow> j < length L \<Longrightarrow> i < j \<Longrightarrow> e \<in> set (L ! j) \<Longrightarrow> seps ! i < fst e"
  by (auto simp: separates_def)

lemma separates_butlast:
  assumes "separates (L @ [x]) seps" and "length seps \<le> length L"
  shows "separates L seps"
proof -
  have "seps ! i < fst e" if "i < length seps" "j < length L" "i < j" "e \<in> set (L ! j)" for i j e
    using separatesD(2) [OF assms(1) that(1), of j e] that by (simp add: nth_append)
  moreover have "fst e \<le> seps ! i" if "i < length seps" "e \<in> set (L ! i)" for i e
    using separatesD(1) [OF assms(1) that(1), of e] that assms(2) by (simp add: nth_append)
  ultimately show ?thesis by (simp add: separates_def)
qed

text \<open>Before an entry is added, the index gets the entry of the block flushed last.\<close>

lemma pending_step:
  assumes core: "writer_core w out blks seps cur" and pend: "pending_ok w blks seps cur"
    and key: "\<forall>e\<in>set (concat blks @ cur). fst e < key"
  shows "\<exists>w1 seps1. (case tw_pendingHandle w of None \<Rightarrow> Some w
      | Some handle \<Rightarrow> map_option (\<lambda>sep. (addIndexEntry w sep handle)\<lparr>tw_pendingHandle := None\<rparr>) (shortSeparator (tw_pendingKey w) key)) = Some w1 \<and>
    writer_core w1 out blks seps1 cur \<and> length seps1 = length blks \<and> (\<forall>sep\<in>set seps1. sep < key) \<and>
    tw_pendingHandle w1 = None \<and> tw_prevKey w1 = tw_prevKey w \<and> tw_opts w1 = tw_opts w \<and> tw_bloom w1 = tw_bloom w"
proof (cases "tw_pendingHandle w")
  case None
  with pend have l: "length seps = length blks" "cur = [] \<longrightarrow> blks = []" by (simp_all add: pending_ok_def)
  have "sep < key" if "sep \<in> set seps" for sep
  proof -
    from that obtain i where i: "i < length seps" "sep = seps ! i" by (auto simp: in_set_conv_nth)
    with l have ne: "cur \<noteq> []" by auto
    have "hd cur \<in> set ((blks @ [cur]) ! length blks)" using ne by simp
    then have "sep < fst (hd cur)"
      using separatesD(2) [OF writer_coreD(1) [OF core] i(1), of "length blks" "hd cur"] i l(1) by simp
    also have "fst (hd cur) < key" using key ne by simp
    finally show ?thesis .
  qed
  with None core l show ?thesis by auto
next
  case (Some h)
  let ?r = "nat (wo_RestartInterval (tw_opts w))"
  from pend Some have p: "Suc (length seps) = length blks" "h = handle_of ?r blks (length seps)"
      "tw_pendingKey w = fst (last (last blks))" "cur = []"
    by (simp_all add: pending_ok_def)
  have ne0: "blks \<noteq> []" using p(1) by auto
  then obtain bs b where blks: "blks = bs @ [b]" by (cases blks rule: rev_cases) auto
  have ls: "length seps = length bs" using p(1) blks by simp
  have bne: "b \<noteq> []" using writer_coreD(3) [OF core] blks by auto
  have pk: "tw_pendingKey w = fst (last b)" using p(3) blks by simp
  have k: "tw_pendingKey w < key" using key pk blks last_in_set [OF bne] by auto
  obtain sep where sep: "shortSeparator (tw_pendingKey w) key = Some sep" "tw_pendingKey w \<le> sep" "sep < key"
    using shortSeparator_between [OF k] by auto
  let ?w1 = "(addIndexEntry w sep h)\<lparr>tw_pendingHandle := None\<rparr>"
  have srt: "sorted_keys b" using writer_coreD(2) [OF core] blks by (simp add: sorted_wrt_append)
  have before: "seps ! i < key" if "i < length seps" for i
  proof -
    have "seps ! i < fst (last b)"
      using separatesD(2) [OF writer_coreD(1) [OF core] that, of "length bs" "last b"] that ls blks bne by (simp add: nth_append)
    with k pk show ?thesis by simp
  qed
  have "separates (blks @ [cur]) (seps @ [sep])"
  proof -
    have "fst e \<le> sep" if "e \<in> set b" for e
      using last_key_max [OF srt that] sep(2) pk by simp
    with writer_coreD(1) [OF core] p(4) ls blks show ?thesis by (auto simp: separates_def nth_append less_Suc_eq)
  qed
  moreover have "short_seps blks (seps @ [sep])"
    using writer_coreD(6) [OF core] shortSeparator_length [OF sep(1)] pk ls blks by simp
  ultimately have "writer_core ?w1 out blks (seps @ [sep]) cur"
    using core p by (simp add: writer_core_def Let_def addIndexEntry_def index_of_sep add_all_snoc)
  moreover have "\<forall>x\<in>set (seps @ [sep]). x < key" using before sep(3) by (auto simp: in_set_conv_nth)
  ultimately show ?thesis using Some sep(1) p(1)
    by (intro exI [of _ ?w1] exI [of _ "seps @ [sep]"]) (simp add: addIndexEntry_def)
qed

text \<open>The entry goes to the current block and to the Bloom filter.\<close>

definition writer_put :: "table_writer \<Rightarrow> bytes \<Rightarrow> bytes \<Rightarrow> table_writer" where
  "writer_put w key value =
     (let w = (if tw_keyCount w = 0 then w\<lparr>tw_smallestKey := key\<rparr> else w)
      in w\<lparr>tw_largestKey := key, tw_dataBlock := blockWriter_add (tw_dataBlock w) key value,
           tw_bloom := bloom_addKey (tw_bloom w) key, tw_keyCount := tw_keyCount w + 1\<rparr>)"

lemma put_step:
  assumes core: "writer_core w out blks seps cur" and l: "length seps = length blks"
    and key: "\<forall>e\<in>set (concat blks @ cur). fst e < key" "\<forall>sep\<in>set seps. sep < key"
  shows "writer_core (writer_put w key value) out blks seps (cur @ [(key, value)])"
proof -
  have "separates (blks @ [cur @ [(key, value)]]) seps"
    using writer_coreD(1) [OF core] key(2) l by (auto simp: separates_def nth_append less_Suc_eq)
  moreover have "sorted_keys (concat blks @ cur @ [(key, value)])"
    using writer_coreD(2) [OF core] key(1) by (auto simp: sorted_wrt_append)
  moreover have "tw_smallestKey (writer_put w key value) = fst (hd (E @ [(key, value)]))"
    if E: "E = concat blks @ cur" and small: "length (E @ [(key, value)]) < 2 ^ 64" for E
  proof -
    have n: "unat (tw_keyCount w) = length E"
      using writer_core_keys(1) [OF core E] small by (simp add: unsigned_of_nat take_bit_nat_eq_self)
    show ?thesis
    proof (cases "E = []")
      case True
      with n have "tw_keyCount w = 0" by (simp add: unat_eq_zero)
      with True show ?thesis by (simp add: writer_put_def)
    next
      case False
      with n have "tw_keyCount w \<noteq> 0" by auto
      moreover have "tw_smallestKey w = fst (hd E)" using writer_core_keys(3) [OF core E False] small by simp
      ultimately show ?thesis using False by (simp add: writer_put_def)
    qed
  qed
  moreover have "tw_offset (writer_put w key value) = tw_offset w" "tw_indexBlock (writer_put w key value) = tw_indexBlock w"
    "tw_dataBlock (writer_put w key value) = blockWriter_add (tw_dataBlock w) key value"
    "tw_opts (writer_put w key value) = tw_opts w" "tw_largestKey (writer_put w key value) = key"
    "bw_hashes (tw_bloom (writer_put w key value)) = bw_hashes (tw_bloom w) @ [bloomHash key]"
    "tw_keyCount (writer_put w key value) = tw_keyCount w + 1" "tw_dataBlockCount (writer_put w key value) = tw_dataBlockCount w"
    by (simp_all add: writer_put_def Let_def bloom_addKey_def)
  ultimately show ?thesis
    using core by (simp add: writer_core_def Let_def add_all_snoc)
qed

definition put_flush ::
  "('s \<Rightarrow> bytes \<Rightarrow> 's \<times> nat \<times> io_error option) \<Rightarrow> table_writer \<Rightarrow> 's \<Rightarrow> table_writer \<times> 's \<times> sst_error option" where
  "put_flush wr w s =
     (if wo_BlockSize (tw_opts w) \<le> int (blockWriter_estimatedSize (tw_dataBlock w)) then flushDataBlock wr w s else (w, s, None))"

lemma Writer_Add_eq:
  assumes "(case tw_pendingHandle w of None \<Rightarrow> Some w
      | Some handle \<Rightarrow> map_option (\<lambda>sep. (addIndexEntry w sep handle)\<lparr>tw_pendingHandle := None\<rparr>) (shortSeparator (tw_pendingKey w) key)) = Some w1"
    and "\<not> (case tw_prevKey w of None \<Rightarrow> False | Some p \<Rightarrow> compareBytes key p \<le> 0)"
    and "put_flush wr (writer_put w1 key value) s = (w3, s3, err)"
  shows "Writer_Add wr w s key value = Some (case err of Some e \<Rightarrow> (w3, s3, Some e)
      | None \<Rightarrow> (w3\<lparr>tw_prevKey := next_prevKey (tw_prevKey w3) key\<rparr>, s3, None))"
  using assms unfolding Writer_Add_def put_flush_def writer_put_def Let_def by (simp only: if_False option.case prod.case)

lemma put_fields [simp]:
  "tw_pendingHandle (writer_put w key value) = tw_pendingHandle w" "tw_prevKey (writer_put w key value) = tw_prevKey w"
  "tw_opts (writer_put w key value) = tw_opts w" "bw_bitsPerKey (tw_bloom (writer_put w key value)) = bw_bitsPerKey (tw_bloom w)"
  by (simp_all add: writer_put_def Let_def bloom_addKey_def)

lemma prevKey_irrelevant:
  "writer_core (w\<lparr>tw_prevKey := p\<rparr>) out blks seps cur = writer_core w out blks seps cur"
  "pending_ok (w\<lparr>tw_prevKey := p\<rparr>) blks seps cur = pending_ok w blks seps cur"
  by (simp_all add: writer_core_def pending_ok_def split: option.split)

context io_writer
begin

lemma writeBlock_out:
  assumes "writer_writeBlock wr w s data = (w', s', Inr h)"
  shows "out s' = out s @ raw_block data \<and> h = \<lparr>bh_Offset = tw_offset w, bh_Length = of_nat (length data)\<rparr> \<and>
    w' = w\<lparr>tw_offset := tw_offset w + of_nat (length (raw_block data))\<rparr>"
proof -
  obtain s1 n1 n2 where c: "wr s data = (s1, n1, None)" "wr s1 (trailer_of data) = (s', n2, None)"
    and r: "w' = w\<lparr>tw_offset := tw_offset w + (of_nat (length data) + of_nat blockTrailerSize)\<rparr>"
      "h = \<lparr>bh_Offset = tw_offset w, bh_Length = of_nat (length data)\<rparr>"
    using assms by (auto simp: writer_writeBlock_def Let_def split: prod.splits option.splits)
  with wr_out [OF c(1)] wr_out [OF c(2)] wr_full [OF c(1)] wr_full [OF c(2)] show ?thesis
    by (simp add: raw_block_def blockTrailerSize_def)
qed

lemma writeBlock_error: "writer_writeBlock wr w s data = (w', s', Inl e) \<Longrightarrow> \<exists>io. e = ErrTableIO io"
  by (auto simp: writer_writeBlock_def Let_def split: prod.splits option.splits)

lemma flush_error: "flushDataBlock wr w s = (w', s', Some e) \<Longrightarrow> \<exists>io. e = ErrTableIO io"
  by (auto simp: flushDataBlock_def Let_def split: prod.splits sum.splits dest: writeBlock_error)

lemma flushBlock_step:
  assumes core: "writer_core w (out s) blks seps cur" and l: "length seps = length blks" and ne: "cur \<noteq> []"
    and fl: "flushDataBlock wr w s = (w', s', None)"
  shows "writer_core w' (out s') (blks @ [cur]) seps [] \<and> pending_ok w' (blks @ [cur]) seps [] \<and>
    tw_prevKey w' = tw_prevKey w \<and> tw_opts w' = tw_opts w \<and> tw_bloom w' = tw_bloom w"
proof -
  let ?r = "nat (wo_RestartInterval (tw_opts w))"
  have db: "tw_dataBlock w = add_all (newBlockWriter ?r) cur" using core by (simp add: writer_core_def Let_def)
  obtain b data where f: "blockWriter_finish (tw_dataBlock w) = (b, data)" by fastforce
  have data: "data = block_of ?r cur" using f db by (simp add: block_of_def)
  have b: "bw_prevKey b = fst (last cur)" "blockWriter_reset b = newBlockWriter ?r"
    using f db add_all_state [of ?r cur] ne by (auto simp: blockWriter_finish_def Let_def blockWriter_reset_def newBlockWriter_def last_map)
  obtain w1 h where wb: "writer_writeBlock wr (w\<lparr>tw_dataBlock := b\<rparr>) s data = (w1, s', Inr h)"
    and w': "w' = w1\<lparr>tw_pendingHandle := Some h, tw_pendingKey := bw_prevKey (tw_dataBlock w1),
                tw_dataBlock := blockWriter_reset (tw_dataBlock w1), tw_dataBlockCount := tw_dataBlockCount w1 + 1\<rparr>"
    using fl f by (auto simp: flushDataBlock_def split: prod.splits sum.splits)
  note o = writeBlock_out [OF wb]
  have off: "tw_offset w = of_nat (length (out s))" "out s = blocks_bytes ?r blks" using core by (simp_all add: writer_core_def Let_def)
  have h: "h = handle_of ?r (blks @ [cur]) (length seps)"
    using o data l off by (simp add: handle_of_def)
  have "separates (blks @ [cur] @ [[]]) seps"
    using writer_coreD(1) [OF core] l by (auto simp: separates_def nth_append less_Suc_eq)
  then have "writer_core w' (out s') (blks @ [cur]) seps []"
    using core o b w' data ne l by (simp add: writer_core_def Let_def index_of_snoc)
  moreover have "pending_ok w' (blks @ [cur]) seps []"
    using h l w' o b by (simp add: pending_ok_def)
  ultimately show ?thesis using w' o by simp
qed

lemma add_step:
  assumes inv: "writer_inv w (out s) blks seps cur" and srt: "sorted_keys (concat blks @ cur @ [(key, value)])"
  shows "\<exists>w' s' err. Writer_Add wr w s key value = Some (w', s', err) \<and>
    (case err of
       Some e \<Rightarrow> \<exists>io. e = ErrTableIO io
     | None \<Rightarrow> \<exists>blks' seps' cur'. writer_inv w' (out s') blks' seps' cur' \<and> concat blks' @ cur' = concat blks @ cur @ [(key, value)] \<and>
         tw_opts w' = tw_opts w \<and> bw_bitsPerKey (tw_bloom w') = bw_bitsPerKey (tw_bloom w))"
proof -
  have core: "writer_core w (out s) blks seps cur" and pend: "pending_ok w blks seps cur" and prev: "prev_ok w (concat blks @ cur)"
    using inv by (simp_all add: writer_inv_def)
  have key: "\<forall>e\<in>set (concat blks @ cur). fst e < key" using srt by (auto simp: sorted_wrt_append)
  have order: "\<not> (case tw_prevKey w of None \<Rightarrow> False | Some p \<Rightarrow> compareBytes key p \<le> 0)"
  proof (cases "tw_prevKey w")
    case (Some p)
    with prev have "p < key" using key by (auto simp: prev_ok_def simp del: set_append)
    with Some show ?thesis by (simp add: compareBytes_eq compareKeys_greater not_le)
  qed simp
  obtain w1 seps1 where w1: "(case tw_pendingHandle w of None \<Rightarrow> Some w
      | Some handle \<Rightarrow> map_option (\<lambda>sep. (addIndexEntry w sep handle)\<lparr>tw_pendingHandle := None\<rparr>) (shortSeparator (tw_pendingKey w) key)) = Some w1"
    and core1: "writer_core w1 (out s) blks seps1 cur" and l1: "length seps1 = length blks" and sep1: "\<forall>sep\<in>set seps1. sep < key"
    and f1: "tw_pendingHandle w1 = None" "tw_prevKey w1 = tw_prevKey w" "tw_opts w1 = tw_opts w" "tw_bloom w1 = tw_bloom w"
    using pending_step [OF core pend key] by (elim exE conjE) (rule that)
  let ?w2 = "writer_put w1 key value" and ?cur = "cur @ [(key, value)]"
  note core2 = put_step [OF core1 l1 key sep1, of "value"]
  have prev': "prev_ok (v\<lparr>tw_prevKey := next_prevKey (tw_prevKey v) key\<rparr>) (concat blks @ ?cur)" if "tw_prevKey v = tw_prevKey w" for v :: table_writer
    by (simp add: prev_ok_def next_prevKey_def)
  obtain w3 s3 err where F: "put_flush wr ?w2 s = (w3, s3, err)" by (cases "put_flush wr ?w2 s") auto
  note add = Writer_Add_eq [OF w1 order F]
  show ?thesis
  proof (cases err)
    case (Some e)
    then have "\<exists>io. e = ErrTableIO io" using F by (auto simp: put_flush_def split: if_splits dest: flush_error)
    with Some add show ?thesis by simp
  next
    case None
    have "\<exists>blks' cur'. writer_core w3 (out s3) blks' seps1 cur' \<and> pending_ok w3 blks' seps1 cur' \<and> concat blks' @ cur' = concat blks @ ?cur \<and>
        tw_prevKey w3 = tw_prevKey w \<and> tw_opts w3 = tw_opts w \<and> bw_bitsPerKey (tw_bloom w3) = bw_bitsPerKey (tw_bloom w)"
    proof (cases "wo_BlockSize (tw_opts ?w2) \<le> int (blockWriter_estimatedSize (tw_dataBlock ?w2))")
      case True
      then have fl: "flushDataBlock wr ?w2 s = (w3, s3, None)" using F None by (simp add: put_flush_def)
      from flushBlock_step [OF core2 l1 _ fl] f1 show ?thesis
        by (intro exI [of _ "blks @ [?cur]"] exI [of _ "[]"]) simp
    next
      case False
      then have "w3 = ?w2" "s3 = s" using F None by (simp_all add: put_flush_def)
      with core2 f1 l1 show ?thesis by (intro exI [of _ blks] exI [of _ ?cur]) (simp add: pending_ok_def)
    qed
    then obtain blks' cur' where c3: "writer_core w3 (out s3) blks' seps1 cur'" "pending_ok w3 blks' seps1 cur'"
        "concat blks' @ cur' = concat blks @ ?cur" "tw_prevKey w3 = tw_prevKey w" "tw_opts w3 = tw_opts w"
        "bw_bitsPerKey (tw_bloom w3) = bw_bitsPerKey (tw_bloom w)"
      by (elim exE conjE) (rule that)
    let ?w4 = "w3\<lparr>tw_prevKey := next_prevKey (tw_prevKey w3) key\<rparr>"
    have "writer_inv ?w4 (out s3) blks' seps1 cur'"
      using c3(1,2) prev' [OF c3(4)] unfolding c3(3) [symmetric] by (simp add: writer_inv_def prevKey_irrelevant)
    with c3 add None show ?thesis
      by (intro exI [of _ ?w4] exI [of _ s3] exI [of _ None]) (auto intro!: exI [of _ blks'] exI [of _ seps1] exI [of _ cur'])
  qed
qed

end

section \<open>A closed table\<close>

definition span :: "nat \<Rightarrow> bytes \<Rightarrow> BlockHandle" where
  "span off d = \<lparr>bh_Offset = of_nat off, bh_Length = of_nat (length d)\<rparr>"

definition props_name :: bytes where
  "props_name = ascii ''indexedwatch.properties''"

definition meta_entries :: "bytes \<Rightarrow> nat \<Rightarrow> bytes \<Rightarrow> nat \<Rightarrow> kv list" where
  "meta_entries bf off pd poff =
     (if bf = [] then [] else [(filter_name, encodeHandle (span off bf))]) @ [(props_name, encodeHandle (span poff pd))]"

definition filter_bytes :: "bytes \<Rightarrow> bytes" where
  "filter_bytes bf = (if bf = [] then [] else raw_block bf)"

text \<open>The layout of \<^verbatim>\<open>format.go\<close>: data blocks, filter block, index block, properties, metaindex, footer.\<close>

definition table_file :: "bytes \<Rightarrow> bytes \<Rightarrow> bytes \<Rightarrow> bytes \<Rightarrow> bytes" where
  "table_file data bf ib pd =
     (let o2 = length (data @ filter_bytes bf); o3 = o2 + length (raw_block ib); o4 = o3 + length (raw_block pd);
          mb = block_of 1 (meta_entries bf (length data) pd o3)
      in data @ filter_bytes bf @ raw_block ib @ raw_block pd @ raw_block mb @ footer_of (span o4 mb) (span o2 ib))"

definition table_of :: "bytes \<Rightarrow> kv list \<Rightarrow> bytes \<Rightarrow> nat \<Rightarrow> kv list list \<Rightarrow> bytes list \<Rightarrow> bool" where
  "table_of file es bf r blks seps \<longleftrightarrow>
     0 < r \<and> [] \<notin> set blks \<and> concat blks = es \<and> sorted_keys es \<and> length seps = length blks \<and> separates blks seps \<and> short_seps blks seps \<and>
     (\<exists>pd. length pd \<le> 200 + length es \<and> file = table_file (blocks_bytes r blks) bf (block_of 1 (index_of r blks seps)) pd)"

lemma finish_add_all: "snd (blockWriter_finish (add_all (newBlockWriter r) es)) = block_of r es"
  by (simp add: block_of_def)

lemma meta_block_entries:
  "snd (blockWriter_finish (meta_block w b)) =
     block_of 1 ((if b then [(filter_name, encodeHandle (tw_filterHandle w))] else []) @ [(props_name, encodeHandle (tw_propsHandle w))])"
  by (simp add: block_of_def meta_block_def Let_def add_all_def props_name_def)

lemma length_dec_digits: "n < 10 ^ Suc k \<Longrightarrow> length (dec_digits n) \<le> Suc k"
proof (induction k arbitrary: n)
  case (Suc k)
  have "n div 10 < 10 ^ Suc k" using Suc.prems by (simp add: div_less_iff_less_mult)
  with Suc.IH [of "n div 10"] show ?case by (subst dec_digits.simps) simp
qed (simp add: dec_digits.simps)

lemma length_dec_digits_le: "length (dec_digits n) \<le> Suc n"
proof (rule length_dec_digits)
  show "n < 10 ^ Suc n" by (induction n) simp_all
qed

lemma length_props_block:
  "length (snd (blockWriter_finish (props_block w))) \<le> 200 + tw_dataBlockCount w"
proof -
  let ?es = "[(ascii ''indexedwatch.key_count'', ascii (dec_digits (unat (tw_keyCount w)))),
      (ascii ''indexedwatch.data_blocks'', ascii (dec_digits (tw_dataBlockCount w)))]"
  have "snd (blockWriter_finish (props_block w)) = block_of 1 ?es"
    by (simp add: block_of_def props_block_def addProperty_def add_all_def)
  moreover have "length (dec_digits (unat (tw_keyCount w))) \<le> 20"
    using length_dec_digits [of "unat (tw_keyCount w)" 19] unsigned_less [of "tw_keyCount w", where ?'a = nat] by simp
  ultimately show ?thesis
    using length_block_bound [of 1 ?es] length_dec_digits_le [of "tw_dataBlockCount w"] by (simp add: ascii_def)
qed

lemma length_footer: "length (footer_of a b) = 48"
  by (simp add: footer_of_def footerSize_def sst_magic_def ascii_def Let_def)

lemma last_index_step:
  assumes core: "writer_core w out blks seps []" and pend: "pending_ok w blks seps []"
    and w1: "w1 = (case tw_pendingHandle w of None \<Rightarrow> w
                | Some handle \<Rightarrow> (addIndexEntry w (shortSuccessor (tw_pendingKey w)) handle)\<lparr>tw_pendingHandle := None\<rparr>)"
  shows "\<exists>seps1. writer_core w1 out blks seps1 [] \<and> length seps1 = length blks"
proof (cases "tw_pendingHandle w")
  case None
  with assms show ?thesis by (auto simp: pending_ok_def)
next
  case (Some h)
  let ?sep = "shortSuccessor (tw_pendingKey w)"
  from pend Some have p: "Suc (length seps) = length blks" "h = handle_of (nat (wo_RestartInterval (tw_opts w))) blks (length seps)"
      "tw_pendingKey w = fst (last (last blks))"
    by (simp_all add: pending_ok_def)
  then obtain bs b where blks: "blks = bs @ [b]" by (cases blks rule: rev_cases) auto
  have srt: "sorted_keys b" using writer_coreD(2) [OF core] blks by (simp add: sorted_wrt_append)
  have "fst e \<le> ?sep" if "e \<in> set b" for e
    using last_key_max [OF srt that] shortSuccessor_ge [of "tw_pendingKey w"] p(3) blks by simp
  then have "separates (blks @ [[]]) (seps @ [?sep])"
    using writer_coreD(1) [OF core] p blks by (auto simp: separates_def nth_append less_Suc_eq)
  moreover have "short_seps blks (seps @ [?sep])"
    using writer_coreD(6) [OF core] shortSuccessor_length [of "tw_pendingKey w"] p blks by simp
  ultimately have "writer_core w1 out blks (seps @ [?sep]) []"
    using core p Some w1 by (simp add: writer_core_def Let_def addIndexEntry_def index_of_sep add_all_snoc)
  with p show ?thesis by (intro exI [of _ "seps @ [?sep]"]) simp
qed

definition table_meta_of :: "TableMeta \<Rightarrow> bytes \<Rightarrow> kv list \<Rightarrow> nat \<Rightarrow> bool" where
  "table_meta_of meta file es n \<longleftrightarrow> tm_Size meta = of_nat (length file) \<and> tm_KeyCount meta = of_nat (length es) \<and>
     tm_DataBlockCount meta = n \<and>
     (es \<noteq> [] \<longrightarrow> tm_LargestKey meta = fst (last es) \<and> (length es < 2 ^ 64 \<longrightarrow> tm_SmallestKey meta = fst (hd es)))"

context io_writer
begin

lemma close_tail_out:
  assumes ct: "close_tail wr w s bf = (w', s', Inr meta)"
    and ib: "tw_indexBlock w = add_all (newBlockWriter 1) idx" and off: "tw_offset w = of_nat (length (out s))"
    and data: "out s = data @ filter_bytes bf" and fh: "bf \<noteq> [] \<longrightarrow> tw_filterHandle w = span (length data) bf"
  shows "(\<exists>pd. length pd \<le> 200 + tw_dataBlockCount w \<and> out s' = table_file data bf (block_of 1 idx) pd) \<and> tm_Size meta = of_nat (length (out s')) \<and>
    tm_KeyCount meta = tw_keyCount w \<and> tm_SmallestKey meta = tw_smallestKey w \<and> tm_LargestKey meta = tw_largestKey w \<and>
    tm_DataBlockCount meta = tw_dataBlockCount w"
proof -
  obtain b1 d1 where f: "blockWriter_finish (tw_indexBlock w) = (b1, d1)" by fastforce
  have d1: "d1 = block_of 1 idx" using f ib finish_add_all [of 1 idx] by simp
  obtain w1 s1 ih where b1: "writer_writeBlock wr (w\<lparr>tw_indexBlock := b1\<rparr>) s d1 = (w1, s1, Inr ih)"
    using ct f by (auto simp: close_tail_def Let_def split: prod.splits sum.splits)
  define pd where "pd = snd (blockWriter_finish (props_block (w1\<lparr>tw_indexHandle := ih\<rparr>)))"
  obtain w2 s2 ph where b2: "writer_writeBlock wr (w1\<lparr>tw_indexHandle := ih\<rparr>) s1 pd = (w2, s2, Inr ph)"
    using ct f b1 by (auto simp: close_tail_def Let_def pd_def split: prod.splits sum.splits)
  define mb where "mb = snd (blockWriter_finish (meta_block (w2\<lparr>tw_propsHandle := ph\<rparr>) (bf \<noteq> [])))"
  obtain w3 s3 mh where b3: "writer_writeBlock wr (w2\<lparr>tw_propsHandle := ph\<rparr>) s2 mb = (w3, s3, Inr mh)"
    using ct f b1 b2 by (auto simp: close_tail_def Let_def pd_def mb_def split: prod.splits sum.splits)
  obtain w4 s4 where b4: "writeFooter wr w3 s3 mh (tw_indexHandle w3) = (w4, s4, None)"
    and fin: "s' = s4" "meta = \<lparr>tm_Size = tw_offset w4, tm_KeyCount = tw_keyCount w4, tm_SmallestKey = tw_smallestKey w4,
                    tm_LargestKey = tw_largestKey w4, tm_DataBlockCount = tw_dataBlockCount w4\<rparr>"
    using ct f b1 b2 b3 by (auto simp: close_tail_def Let_def pd_def mb_def split: prod.splits sum.splits option.splits)
  obtain n where wf: "wr s3 (footer_of mh (tw_indexHandle w3)) = (s4, n, None)" and w4: "w4 = w3\<lparr>tw_offset := tw_offset w3 + 48\<rparr>"
    using b4 by (auto simp: writeFooter_def footerSize_def split: prod.splits)
  note o1 = writeBlock_out [OF b1] and o2 = writeBlock_out [OF b2] and o3 = writeBlock_out [OF b3]
  have o4: "out s4 = out s3 @ footer_of mh (tw_indexHandle w3)" using wr_out [OF wf] wr_full [OF wf] by simp
  have ih: "ih = span (length (out s)) d1" "tw_offset w1 = of_nat (length (out s1))" using o1 off by (simp_all add: span_def)
  have ph: "ph = span (length (out s1)) pd" "tw_offset w2 = of_nat (length (out s2))" using o2 ih by (simp_all add: span_def)
  have mh: "mh = span (length (out s2)) mb" "tw_offset w3 = of_nat (length (out s3))" using o3 ph by (simp_all add: span_def)
  have outs: "out s1 = out s @ raw_block d1" "out s2 = out s1 @ raw_block pd" "out s3 = out s2 @ raw_block mb" using o1 o2 o3 by simp_all
  have lens: "length (out s) + length (raw_block d1) = length (out s1)" "length (out s1) + length (raw_block pd) = length (out s2)"
    using outs by simp_all
  have mb: "mb = block_of 1 (meta_entries bf (length data) pd (length (out s1)))"
    using o1 o2 fh ph by (simp add: mb_def meta_block_entries meta_entries_def)
  have ix: "tw_indexHandle w3 = ih" using o2 o3 by simp
  have T: "table_file data bf d1 pd = data @ filter_bytes bf @ raw_block d1 @ raw_block pd @ raw_block mb @
      footer_of (span (length (out s2)) mb) (span (length (out s)) d1)"
    unfolding table_file_def Let_def data [symmetric] lens mb [symmetric] by (rule refl)
  have "out s4 = table_file data bf d1 pd"
    unfolding o4 ix mh(1) ih(1) T by (simp only: outs data append_assoc)
  moreover have "tw_offset w4 = of_nat (length (out s4))" using w4 mh(2) o4 by (simp add: length_footer)
  moreover have "tw_keyCount w4 = tw_keyCount w" "tw_smallestKey w4 = tw_smallestKey w" "tw_largestKey w4 = tw_largestKey w"
    "tw_dataBlockCount w4 = tw_dataBlockCount w" using w4 o1 o2 o3 by simp_all
  moreover have "length pd \<le> 200 + tw_dataBlockCount w"
    using length_props_block [of "w1\<lparr>tw_indexHandle := ih\<rparr>"] o1 by (simp add: pd_def)
  ultimately show ?thesis unfolding fin d1 [symmetric] by (intro conjI exI [of _ pd]) simp_all
qed

lemma close_tail_error: "close_tail wr w s bf = (w', s', Inl e) \<Longrightarrow> \<exists>io. e = ErrTableIO io"
  by (auto simp: close_tail_def writeFooter_def Let_def split: prod.splits sum.splits option.splits dest: writeBlock_error)

lemma close_step:
  assumes inv: "writer_inv w (out s) blks seps cur" and es: "concat blks @ cur = es"
    and cl: "Writer_Close wr w s = (w', s', res)"
  shows "case res of
      Inl e \<Rightarrow> \<exists>io. e = ErrTableIO io
    | Inr meta \<Rightarrow> \<exists>blks' seps'. table_of (out s') es (bloom_finish (tw_bloom w)) (nat (wo_RestartInterval (tw_opts w))) blks' seps' \<and>
        table_meta_of meta (out s') es (length blks')"
proof -
  let ?r = "nat (wo_RestartInterval (tw_opts w))"
  have core: "writer_core w (out s) blks seps cur" and pend: "pending_ok w blks seps cur" using inv by (simp_all add: writer_inv_def)
  have n: "bw_nEntries (tw_dataBlock w) = length cur" using core add_all_state [of ?r cur] by (simp add: writer_core_def Let_def)
  define F where "F = (if 0 < bw_nEntries (tw_dataBlock w) then flushDataBlock wr w s else (w, s, None))"
  obtain w1 s1 err where F: "F = (w1, s1, err)" by (cases F) auto
  show ?thesis
  proof (cases err)
    case (Some e)
    then have "\<exists>io. e = ErrTableIO io" using F by (auto simp: F_def split: if_splits dest: flush_error)
    moreover have "res = Inl e" using cl F Some by (simp add: Writer_Close_def F_def Let_def)
    ultimately show ?thesis by simp
  next
    case None
    have "\<exists>blks1. writer_core w1 (out s1) blks1 seps [] \<and> pending_ok w1 blks1 seps [] \<and> concat blks1 = es \<and>
        tw_opts w1 = tw_opts w \<and> tw_bloom w1 = tw_bloom w"
    proof (cases "cur = []")
      case True
      with F n core pend es show ?thesis by (auto simp: F_def)
    next
      case False
      with pend have l: "length seps = length blks" by (simp add: pending_ok_def split: option.splits)
      have fl: "flushDataBlock wr w s = (w1, s1, None)" using F None False n by (simp add: F_def)
      from flushBlock_step [OF core l False fl] es show ?thesis by (intro exI [of _ "blks @ [cur]"]) simp
    qed
    then obtain blks1 where c1: "writer_core w1 (out s1) blks1 seps []" "pending_ok w1 blks1 seps []" "concat blks1 = es"
        "tw_opts w1 = tw_opts w" "tw_bloom w1 = tw_bloom w"
      by (elim exE conjE) (rule that)
    define w2 where "w2 = (case tw_pendingHandle w1 of None \<Rightarrow> w1
                | Some handle \<Rightarrow> (addIndexEntry w1 (shortSuccessor (tw_pendingKey w1)) handle)\<lparr>tw_pendingHandle := None\<rparr>)"
    from last_index_step [OF c1(1,2) w2_def] obtain seps2 where c2: "writer_core w2 (out s1) blks1 seps2 []" "length seps2 = length blks1"
      by (elim exE conjE) (rule that)
    have f2: "tw_opts w2 = tw_opts w" "tw_bloom w2 = tw_bloom w"
      using c1(4,5) by (simp_all add: w2_def addIndexEntry_def split: option.split)
    define bf where "bf = bloom_finish (tw_bloom w)"
    have cl2: "Writer_Close wr w s =
        (if bf \<noteq> [] then case writer_writeBlock wr w2 s1 bf of (w, s, Inl e) \<Rightarrow> (w, s, Inl e)
              | (w, s, Inr fh) \<Rightarrow> close_tail wr (w\<lparr>tw_filterHandle := fh\<rparr>) s bf
         else close_tail wr w2 s1 bf)"
      using F None f2 unfolding F_def Writer_Close_def Let_def bf_def by (simp add: w2_def [symmetric])
    have ib: "tw_indexBlock w2 = add_all (newBlockWriter 1) (index_of ?r blks1 seps2)" "out s1 = blocks_bytes ?r blks1"
        "tw_offset w2 = of_nat (length (out s1))" "tw_dataBlockCount w2 = length blks1"
      using c2(1) f2 by (simp_all add: writer_core_def Let_def)
    have keys: "tw_keyCount w2 = of_nat (length es)" "es \<noteq> [] \<longrightarrow> tw_largestKey w2 = fst (last es)"
        "es \<noteq> [] \<longrightarrow> length es < 2 ^ 64 \<longrightarrow> tw_smallestKey w2 = fst (hd es)"
      using writer_core_keys [OF c2(1), of es] c1(3) by simp_all
    have tail: "case res of Inl e \<Rightarrow> \<exists>io. e = ErrTableIO io
      | Inr meta \<Rightarrow> (\<exists>pd. length pd \<le> 200 + length es \<and> out s' = table_file (blocks_bytes ?r blks1) bf (block_of 1 (index_of ?r blks1 seps2)) pd) \<and>
          table_meta_of meta (out s') es (length blks1)"
      if ct: "close_tail wr w3 s3 bf = (w', s', res)" and w3: "tw_indexBlock w3 = tw_indexBlock w2" "tw_offset w3 = of_nat (length (out s3))"
        "tw_keyCount w3 = tw_keyCount w2" "tw_largestKey w3 = tw_largestKey w2" "tw_smallestKey w3 = tw_smallestKey w2"
        "tw_dataBlockCount w3 = tw_dataBlockCount w2"
        "out s3 = blocks_bytes ?r blks1 @ filter_bytes bf" "bf \<noteq> [] \<longrightarrow> tw_filterHandle w3 = span (length (blocks_bytes ?r blks1)) bf"
      for w3 s3
    proof (cases res)
      case (Inl e)
      with ct close_tail_error show ?thesis by fastforce
    next
      case (Inr meta)
      have nb: "length blks1 \<le> length es"
      proof -
        have "\<forall>b\<in>set blks1. 1 \<le> length b" using writer_coreD(3) [OF c2(1)] by (auto simp: Suc_le_eq)
        then have "length blks1 \<le> sum_list (map length blks1)" by (induction blks1) auto
        then show ?thesis using c1(3) by (simp flip: length_concat)
      qed
      note co = close_tail_out [OF ct [unfolded Inr], of "index_of ?r blks1 seps2" "blocks_bytes ?r blks1"]
      from co w3 ib obtain pd where pd: "length pd \<le> 200 + length blks1"
          "out s' = table_file (blocks_bytes ?r blks1) bf (block_of 1 (index_of ?r blks1 seps2)) pd"
        by auto
      have "table_meta_of meta (out s') es (length blks1)"
        using co w3 ib keys unfolding table_meta_of_def by simp
      moreover have "\<exists>pd. length pd \<le> 200 + length es \<and> out s' = table_file (blocks_bytes ?r blks1) bf (block_of 1 (index_of ?r blks1 seps2)) pd"
        using pd nb by (intro exI [of _ pd]) simp
      ultimately show ?thesis using Inr by simp
    qed
    have "case res of Inl e \<Rightarrow> \<exists>io. e = ErrTableIO io
      | Inr meta \<Rightarrow> (\<exists>pd. length pd \<le> 200 + length es \<and> out s' = table_file (blocks_bytes ?r blks1) bf (block_of 1 (index_of ?r blks1 seps2)) pd) \<and>
          table_meta_of meta (out s') es (length blks1)"
    proof (cases "bf = []")
      case True
      then have "close_tail wr w2 s1 bf = (w', s', res)" using cl cl2 by simp
      from tail [OF this] True ib show ?thesis by (simp add: filter_bytes_def)
    next
      case False
      obtain w3 s3 fr where wb: "writer_writeBlock wr w2 s1 bf = (w3, s3, fr)" by (cases "writer_writeBlock wr w2 s1 bf") auto
      show ?thesis
      proof (cases fr)
        case (Inl e)
        with cl cl2 wb False have "res = Inl e" by simp
        with writeBlock_error [OF wb [unfolded Inl]] show ?thesis by simp
      next
        case (Inr fh)
        with cl cl2 wb False have ct: "close_tail wr (w3\<lparr>tw_filterHandle := fh\<rparr>) s3 bf = (w', s', res)" by simp
        from tail [OF ct] writeBlock_out [OF wb [unfolded Inr]] ib False show ?thesis by (simp add: filter_bytes_def span_def)
      qed
    qed
    moreover have "separates blks1 seps2"
      by (rule separates_butlast [OF writer_coreD(1) [OF c2(1)]]) (simp add: c2(2))
    moreover have "table_of f es bf ?r blks1 seps2"
      if "\<exists>pd. length pd \<le> 200 + length es \<and> f = table_file (blocks_bytes ?r blks1) bf (block_of 1 (index_of ?r blks1 seps2)) pd" for f
      using writer_coreD(2,3,5,6) [OF c2(1)] f2 c1(3) c2(2) calculation(2) that by (simp add: table_of_def)
    ultimately show ?thesis by (auto simp: bf_def split: sum.splits intro!: exI [of _ blks1])
  qed
qed

end

section \<open>Writing a table\<close>

text \<open>The use that flush and compaction make of a writer: add the entries in order, then close.\<close>

fun table_adds ::
  "('s \<Rightarrow> bytes \<Rightarrow> 's \<times> nat \<times> io_error option) \<Rightarrow> table_writer \<Rightarrow> 's \<Rightarrow> kv list \<Rightarrow> (table_writer \<times> 's \<times> sst_error option) option" where
  "table_adds wr w s [] = Some (w, s, None)"
| "table_adds wr w s ((key, value) # es) =
     (case Writer_Add wr w s key value of
        None \<Rightarrow> None
      | Some (w, s, Some e) \<Rightarrow> Some (w, s, Some e)
      | Some (w, s, None) \<Rightarrow> table_adds wr w s es)"

definition write_table ::
  "('s \<Rightarrow> bytes \<Rightarrow> 's \<times> nat \<times> io_error option) \<Rightarrow> WriterOptions \<Rightarrow> 's \<Rightarrow> kv list \<Rightarrow> ('s \<times> (sst_error + TableMeta)) option" where
  "write_table wr opts s es =
     (case table_adds wr (NewWriter opts) s es of
        None \<Rightarrow> None
      | Some (w, s, Some e) \<Rightarrow> Some (s, Inl e)
      | Some (w, s, None) \<Rightarrow> (case Writer_Close wr w s of (w, s, res) \<Rightarrow> Some (s, res)))"

definition interval_of :: "WriterOptions \<Rightarrow> nat" where
  "interval_of opts = nat (wo_RestartInterval (writer_options opts))"

definition bloom_of :: "WriterOptions \<Rightarrow> kv list \<Rightarrow> bytes" where
  "bloom_of opts es = bloom_finish \<lparr>bw_hashes = map (\<lambda>e. bloomHash (fst e)) es, bw_bitsPerKey = nat (wo_BloomBitsPerKey (writer_options opts))\<rparr>"

context io_writer
begin

lemma adds_step:
  assumes "writer_inv w (out s) blks seps cur" and "sorted_keys (concat blks @ cur @ es)"
  shows "\<exists>w' s' err. table_adds wr w s es = Some (w', s', err) \<and>
    (case err of
       Some e \<Rightarrow> \<exists>io. e = ErrTableIO io
     | None \<Rightarrow> \<exists>blks' seps' cur'. writer_inv w' (out s') blks' seps' cur' \<and> concat blks' @ cur' = concat blks @ cur @ es \<and>
         tw_opts w' = tw_opts w \<and> bw_bitsPerKey (tw_bloom w') = bw_bitsPerKey (tw_bloom w))"
  using assms
proof (induction es arbitrary: w s blks seps cur)
  case Nil
  then show ?case by (auto intro!: exI [of _ blks])
next
  case (Cons e es)
  obtain k v where e: "e = (k, v)" by fastforce
  have srt: "sorted_keys (concat blks @ cur @ [(k, v)])" using Cons.prems(2) e by (auto simp: sorted_wrt_append)
  from add_step [OF Cons.prems(1) srt] obtain w1 s1 err where a: "Writer_Add wr w s k v = Some (w1, s1, err)"
    and b: "case err of
       Some e \<Rightarrow> \<exists>io. e = ErrTableIO io
     | None \<Rightarrow> \<exists>blks' seps' cur'. writer_inv w1 (out s1) blks' seps' cur' \<and> concat blks' @ cur' = concat blks @ cur @ [(k, v)] \<and>
         tw_opts w1 = tw_opts w \<and> bw_bitsPerKey (tw_bloom w1) = bw_bitsPerKey (tw_bloom w)"
    by (elim exE conjE) (rule that)
  show ?case
  proof (cases err)
    case (Some x)
    with a b e show ?thesis by simp
  next
    case None
    with b obtain blks1 seps1 cur1 where c: "writer_inv w1 (out s1) blks1 seps1 cur1" "concat blks1 @ cur1 = concat blks @ cur @ [(k, v)]"
        "tw_opts w1 = tw_opts w" "bw_bitsPerKey (tw_bloom w1) = bw_bitsPerKey (tw_bloom w)"
      by (simp only: option.case) (elim exE conjE, rule that)
    have eq: "concat blks1 @ cur1 @ es = concat blks @ cur @ e # es"
      using c(2) e by (metis append.assoc append_Cons append_Nil)
    have "sorted_keys (concat blks1 @ cur1 @ es)" using Cons.prems(2) unfolding eq .
    from Cons.IH [OF c(1) this] show ?thesis unfolding eq c(3,4) using a None e by simp
  qed
qed

lemma write_table_layout:
  assumes new: "out s = []" and srt: "sorted_keys es"
  shows "\<exists>s' res. write_table wr opts s es = Some (s', res) \<and>
    (case res of
       Inl e \<Rightarrow> \<exists>io. e = ErrTableIO io
     | Inr meta \<Rightarrow> \<exists>blks seps. table_of (out s') es (bloom_of opts es) (interval_of opts) blks seps \<and> table_meta_of meta (out s') es (length blks))"
proof -
  have inv: "writer_inv (NewWriter opts) (out s) [] [] []" using writer_inv_new new by simp
  have srt': "sorted_keys (concat [] @ [] @ es)" using srt by simp
  from adds_step [OF inv srt'] obtain w1 s1 err where a: "table_adds wr (NewWriter opts) s es = Some (w1, s1, err)"
    and b: "case err of
       Some e \<Rightarrow> \<exists>io. e = ErrTableIO io
     | None \<Rightarrow> \<exists>blks' seps' cur'. writer_inv w1 (out s1) blks' seps' cur' \<and> concat blks' @ cur' = concat [] @ [] @ es \<and>
         tw_opts w1 = tw_opts (NewWriter opts) \<and> bw_bitsPerKey (tw_bloom w1) = bw_bitsPerKey (tw_bloom (NewWriter opts))"
    by (elim exE conjE) (rule that)
  show ?thesis
  proof (cases err)
    case (Some e)
    with a b show ?thesis by (simp add: write_table_def)
  next
    case None
    with b obtain blks seps cur where c: "writer_inv w1 (out s1) blks seps cur" "concat blks @ cur = es"
        "tw_opts w1 = writer_options opts" "bw_bitsPerKey (tw_bloom w1) = nat (wo_BloomBitsPerKey (writer_options opts))"
      by (auto simp: NewWriter_def Let_def newBloomFilterWriter_def)
    have "bw_hashes (tw_bloom w1) = map (\<lambda>e. bloomHash (fst e)) es"
      using c(1) unfolding writer_inv_def writer_core_def Let_def c(2) by simp
    with c(4) have bf: "bloom_finish (tw_bloom w1) = bloom_of opts es" by (cases "tw_bloom w1") (simp add: bloom_of_def)
    obtain w2 s2 res where cl: "Writer_Close wr w1 s1 = (w2, s2, res)" by (cases "Writer_Close wr w1 s1") auto
    from close_step [OF c(1,2) cl, unfolded bf c(3), folded interval_of_def] a None cl show ?thesis by (simp add: write_table_def)
  qed
qed

end

end
