(* ===== verification/Table_Lookup.thy ===== *)
theory Table_Lookup
  imports Table_Correct Source
begin

text \<open>
  Reading a table back: the reader of \<^verbatim>\<open>reader.go\<close> opened on a file that the writer of
  \<^verbatim>\<open>writer.go\<close> has closed finds the blocks, the index and the Bloom filter, looks up exactly the
  entries that were added, and iterates over them in order. The block cache may hold any blocks, of
  this table or of others, as long as those of this table are its blocks.
\<close>

section \<open>Blocks of a file\<close>

lemma of_nat_u64: "n < 2 ^ 32 \<Longrightarrow> unat (of_nat n :: u64) = n"
  by (simp add: unsigned_of_nat take_bit_nat_eq_self)

lemma sint_u64: "n < 2 ^ 32 \<Longrightarrow> sint (of_nat n :: u64) = int n"
  by (simp add: signed_of_nat signed_take_bit_int_eq_self)

lemma readRawBlock_at:
  assumes fl: "file = pre @ raw_block d @ post" and small: "length file < 2 ^ 32"
  shows "readRawBlock (bytes_ReadAt file) (span (length pre) d) = Some (Inr d)"
proof -
  have l: "length pre + length d + 5 \<le> length file" using fl by simp
  have n: "unat (of_nat (length d) + of_nat blockTrailerSize :: u64) = length d + 5"
    using of_nat_u64 [of "length d + 5"] l small by (simp add: blockTrailerSize_def)
  have rd: "bytes_ReadAt file (sint (of_nat (length pre) :: u64)) (length d + 5) = Inr (raw_block d)"
    using sint_u64 [of "length pre"] l small by (simp add: bytes_ReadAt_def fl)
  have u: "unat (of_nat (length d) :: u64) = length d" using of_nat_u64 [of "length d"] l small by simp
  have t: "raw_block d ! length d = compressionNone" "drop (Suc (length d)) (raw_block d) = PutUint32LE (blockChecksum d compressionNone)"
      "take (length d) (raw_block d) = d"
    by (simp_all add: raw_block_def trailer_of_def)
  have "length d + 5 \<le> maxAlloc" using l small by (simp add: maxAlloc_def)
  with n rd u t show ?thesis by (simp add: readRawBlock_def span_def blockTrailerSize_def)
qed

lemma footer_handles:
  "drop (footerSize - 8) (footer_of mh ih) = sst_magic"
  "\<exists>rest. footer_of mh ih = handle_encode mh @ handle_encode ih @ rest"
proof -
  let ?hs = "handle_encode mh @ handle_encode ih"
  have l: "length ?hs \<le> 40" using length_handle_encode [of mh] length_handle_encode [of ih] by simp
  show "drop (footerSize - 8) (footer_of mh ih) = sst_magic" by (simp add: footer_of_def footerSize_def Let_def)
  have "take 40 (?hs @ replicate (48 - length ?hs) 0) = ?hs @ take (40 - length ?hs) (replicate (48 - length ?hs) 0)"
    using l by simp
  then show "\<exists>rest. footer_of mh ih = handle_encode mh @ handle_encode ih @ rest"
    by (simp add: footer_of_def footerSize_def Let_def)
qed

lemma readFooter_at:
  assumes "file = pre @ footer_of mh ih" and "tr_size r = int (length file)"
  shows "readFooter (bytes_ReadAt file) r = Some (Inr (r\<lparr>tr_metaindexHandle := mh, tr_indexHandle := ih\<rparr>))"
proof -
  have rd: "bytes_ReadAt file (tr_size r - int footerSize) footerSize = Inr (footer_of mh ih)"
    using assms by (simp add: bytes_ReadAt_def footerSize_def length_footer)
  obtain rest where f: "footer_of mh ih = handle_encode mh @ handle_encode ih @ rest" using footer_handles(2) by blast
  have "decodeBlockHandle (footer_of mh ih) = Some (mh, int (length (handle_encode mh)))"
    "go_from (footer_of mh ih) (int (length (handle_encode mh))) = Some (handle_encode ih @ rest)"
    by (simp_all add: f)
  with rd footer_handles(1) show ?thesis by (simp add: readFooter_def)
qed

lemma filter_scan_meta:
  assumes small: "length (block_of 1 (meta_entries bf off pd poff)) < 2 ^ 32"
    and bf: "bf \<noteq> [] \<Longrightarrow> readRawBlock rd (span off bf) = Some (Inr bf)"
  shows "\<exists>it ok. bi_First (newBlockIterator (block_of 1 (meta_entries bf off pd poff))) = Some (it, ok) \<and>
    filter_scan rd r (it, ok) = Some (Inr (if bf = [] then r else r\<lparr>tr_filter := decodeBloomFilter bf\<rparr>))"
proof (cases "bf = []")
  case True
  let ?es = "[(props_name, encodeHandle (span poff pd))]"
  have es: "meta_entries bf off pd poff = ?es" using True by (simp add: meta_entries_def)
  note small' = small [unfolded es]
  obtain it where it: "bi_First (newBlockIterator (block_of 1 ?es)) = Some (it, True)" "bi_at 1 ?es 1 it" "bi_key it = props_name"
    using bi_First_at [OF newBlockIterator_of [OF small'] small'] by auto
  have "bi_next it = Some (it\<lparr>bi_valid := False\<rparr>, False)" using bi_at_end [of 1 ?es it] it(2) by simp
  moreover have "props_name \<noteq> filter_name" by (simp add: props_name_def filter_name_def ascii_def)
  ultimately show ?thesis using it True es by (intro exI [of _ it] exI [of _ True]) (simp add: bi_Key_def bi_Next_def)
next
  case False
  let ?h = "encodeHandle (span off bf)"
  let ?es = "[(filter_name, ?h), (props_name, encodeHandle (span poff pd))]"
  have es: "meta_entries bf off pd poff = ?es" using False by (simp add: meta_entries_def)
  note small' = small [unfolded es]
  obtain it where it: "bi_First (newBlockIterator (block_of 1 ?es)) = Some (it, True)" "bi_key it = filter_name" "bi_val it = ?h"
    using bi_First_at [OF newBlockIterator_of [OF small'] small'] by auto
  have "decodeBlockHandle ?h = Some (span off bf, int (length ?h))"
    using decodeBlockHandle_encode [of "span off bf" "[]"] by (simp add: encodeHandle_eq)
  with it bf [OF False] False es show ?thesis by (intro exI [of _ it] exI [of _ True]) (simp add: bi_Key_def bi_Value_def)
qed

definition reader_of :: "bytes \<Rightarrow> u64 \<Rightarrow> bytes \<Rightarrow> nat \<Rightarrow> kv list list \<Rightarrow> bytes list \<Rightarrow> table_reader \<Rightarrow> bool" where
  "reader_of file fid bf r blks seps rd \<longleftrightarrow> tr_fileID rd = fid \<and> tr_indexBlock rd = block_of 1 (index_of r blks seps) \<and>
     tr_filter rd = (if bf = [] then None else decodeBloomFilter bf)"

lemma NewReader_of:
  assumes t: "table_of file es bf r blks seps" and small: "length file < 2 ^ 32"
  shows "\<exists>rd. NewReader (bytes_ReadAt file) (int (length file)) fid = Some (Inr rd) \<and> reader_of file fid bf r blks seps rd"
proof -
  let ?data = "blocks_bytes r blks" and ?ib = "block_of 1 (index_of r blks seps)"
  obtain pd where fl: "file = table_file ?data bf ?ib pd" using t by (auto simp: table_of_def)
  define o2 where "o2 = ?data @ filter_bytes bf"
  define o3 where "o3 = o2 @ raw_block ?ib"
  define o4 where "o4 = o3 @ raw_block pd"
  define mb where "mb = block_of 1 (meta_entries bf (length ?data) pd (length o3))"
  have lens: "length o3 = length o2 + length (raw_block ?ib)" "length o4 = length o3 + length (raw_block pd)"
    by (simp_all add: o3_def o4_def)
  have f: "file = o4 @ raw_block mb @ footer_of (span (length o4) mb) (span (length o2) ?ib)"
    unfolding fl table_file_def Let_def mb_def o2_def [symmetric] lens by (simp add: o2_def o3_def o4_def)
  let ?r0 = "\<lparr>tr_size = int (length file), tr_fileID = fid, tr_indexBlock = [], tr_filter = None,
                  tr_metaindexHandle = zeroHandle, tr_indexHandle = zeroHandle\<rparr>"
  let ?r1 = "?r0\<lparr>tr_metaindexHandle := span (length o4) mb, tr_indexHandle := span (length o2) ?ib\<rparr>"
  let ?r2 = "?r1\<lparr>tr_indexBlock := ?ib\<rparr>"
  have ft: "readFooter (bytes_ReadAt file) ?r0 = Some (Inr ?r1)"
    by (rule readFooter_at [of _ "o4 @ raw_block mb"]) (simp_all add: f)
  have "readRawBlock (bytes_ReadAt file) (span (length o2) ?ib) = Some (Inr ?ib)"
    by (rule readRawBlock_at [OF _ small, of o2 ?ib "raw_block pd @ raw_block mb @ footer_of (span (length o4) mb) (span (length o2) ?ib)"])
      (simp add: f o3_def o4_def)
  then have ix: "readIndex (bytes_ReadAt file) ?r1 = Some (Inr ?r2)" by (simp add: readIndex_def)
  have mr: "readRawBlock (bytes_ReadAt file) (span (length o4) mb) = Some (Inr mb)"
    by (rule readRawBlock_at [OF f small])
  have fr: "readRawBlock (bytes_ReadAt file) (span (length ?data) bf) = Some (Inr bf)" if "bf \<noteq> []"
    by (rule readRawBlock_at [OF _ small, of ?data bf "raw_block ?ib @ raw_block pd @ raw_block mb @ footer_of (span (length o4) mb) (span (length o2) ?ib)"])
      (use that in \<open>simp add: f o2_def o3_def o4_def filter_bytes_def\<close>)
  have "length mb < 2 ^ 32" using small f by simp
  then have "\<exists>it ok. bi_First (newBlockIterator mb) = Some (it, ok) \<and>
      filter_scan (bytes_ReadAt file) ?r2 (it, ok) = Some (Inr (if bf = [] then ?r2 else ?r2\<lparr>tr_filter := decodeBloomFilter bf\<rparr>))"
    unfolding mb_def by (rule filter_scan_meta) (rule fr)
  then obtain it ok where fs: "bi_First (newBlockIterator mb) = Some (it, ok)"
      "filter_scan (bytes_ReadAt file) ?r2 (it, ok) = Some (Inr (if bf = [] then ?r2 else ?r2\<lparr>tr_filter := decodeBloomFilter bf\<rparr>))"
    by (elim exE conjE) (rule that)
  have "readFilter (bytes_ReadAt file) ?r2 = Some (Inr (if bf = [] then ?r2 else ?r2\<lparr>tr_filter := decodeBloomFilter bf\<rparr>))"
    using mr fs by (simp add: readFilter_def)
  moreover have "\<not> int (length file) < int footerSize" by (simp add: f length_footer footerSize_def)
  ultimately have "NewReader (bytes_ReadAt file) (int (length file)) fid =
      Some (Inr (if bf = [] then ?r2 else ?r2\<lparr>tr_filter := decodeBloomFilter bf\<rparr>))"
    using ft ix by (simp add: NewReader_def)
  then show ?thesis by (intro exI conjI) (assumption, simp add: reader_of_def)
qed

section \<open>Data blocks through the cache\<close>

text \<open>\<open>T\<close> tells the restart interval and the blocks of every table; a cached block of a table is
  the block at its offset.\<close>

type_synonym tables = "u64 \<Rightarrow> (nat \<times> kv list list) option"

definition coherent :: "tables \<Rightarrow> lru \<Rightarrow> bool" where
  "coherent T L \<longleftrightarrow> (\<forall>x\<in>set L. \<forall>r blks i. T (fst (fst x)) = Some (r, blks) \<longrightarrow> i < length blks \<longrightarrow>
     bh_Offset (handle_of r blks i) = snd (fst x) \<longrightarrow> snd x = block_of r (blks ! i))"

lemma coherent_subset:
  assumes "coherent T L" and "set M \<subseteq> insert x (set L)"
    and "\<And>r blks i. T (fst (fst x)) = Some (r, blks) \<Longrightarrow> i < length blks \<Longrightarrow>
      bh_Offset (handle_of r blks i) = snd (fst x) \<Longrightarrow> snd x = block_of r (blks ! i)"
  shows "coherent T M"
  using assms unfolding coherent_def by blast

definition cache_good :: "tables \<Rightarrow> BlockCache option \<Rightarrow> bool" where
  "cache_good T cache \<longleftrightarrow> (\<forall>c. cache = Some c \<longrightarrow> (\<exists>L. cache_rep c L \<and> coherent T L))"

lemma cache_good_None [simp]: "cache_good T None"
  by (simp add: cache_good_def)

lemma blocks_split:
  assumes "i < length blks"
  shows "blocks_bytes r blks = blocks_bytes r (take i blks) @ raw_block (block_of r (blks ! i)) @ blocks_bytes r (drop (Suc i) blks)"
proof -
  have "blks = take i blks @ blks ! i # drop (Suc i) blks" using assms by (simp add: id_take_nth_drop)
  then have "map (\<lambda>b. raw_block (block_of r b)) blks =
      map (\<lambda>b. raw_block (block_of r b)) (take i blks) @ raw_block (block_of r (blks ! i)) # map (\<lambda>b. raw_block (block_of r b)) (drop (Suc i) blks)"
    by (metis (no_types) list.simps(9) map_append)
  then show ?thesis by (simp add: blocks_bytes_def)
qed

lemma block_offset_less:
  assumes "i < j" and "j < length blks"
  shows "length (blocks_bytes r (take i blks)) < length (blocks_bytes r (take j blks))"
proof -
  have "take i (take j blks) = take i blks" "take j blks ! i = blks ! i" using assms by (simp_all add: min_def)
  with blocks_split [of i "take j blks" r] assms show ?thesis by simp
qed

lemma handle_offset_inj:
  assumes "i < length blks" and "j < length blks" and "length (blocks_bytes r blks) < 2 ^ 32"
    and "bh_Offset (handle_of r blks i) = bh_Offset (handle_of r blks j)"
  shows "i = j"
proof -
  have l: "length (blocks_bytes r (take k blks)) < 2 ^ 32" if "k < length blks" for k
    using blocks_split [OF that, of r] assms(3) by simp
  have eq: "length (blocks_bytes r (take i blks)) = length (blocks_bytes r (take j blks))"
  proof -
    have "(of_nat (length (blocks_bytes r (take i blks))) :: u64) = of_nat (length (blocks_bytes r (take j blks)))"
      using assms(4) by (simp add: handle_of_def)
    then have "unat (of_nat (length (blocks_bytes r (take i blks))) :: u64) = unat (of_nat (length (blocks_bytes r (take j blks))) :: u64)"
      by (rule arg_cong)
    then show ?thesis unfolding of_nat_u64 [OF l [OF assms(1)]] of_nat_u64 [OF l [OF assms(2)]] .
  qed
  show ?thesis
  proof (cases i j rule: linorder_cases)
    case less
    from block_offset_less [OF this assms(2), of r] eq show ?thesis by simp
  next
    case greater
    from block_offset_less [OF this assms(1), of r] eq show ?thesis by simp
  qed
qed

text \<open>What the proofs below know of a table and its reader.\<close>

definition open_table :: "tables \<Rightarrow> reader_at \<Rightarrow> table_reader \<Rightarrow> nat \<Rightarrow> kv list list \<Rightarrow> bytes list \<Rightarrow> bool" where
  "open_table T rd tr r blks seps \<longleftrightarrow> (\<exists>file es bf. rd = bytes_ReadAt file \<and> length file < 2 ^ 32 \<and> table_of file es bf r blks seps \<and>
     tr_indexBlock tr = block_of 1 (index_of r blks seps)) \<and> T (tr_fileID tr) = Some (r, blks)"

lemma open_tableD:
  assumes "open_table T rd tr r blks seps"
  shows "0 < r" "[] \<notin> set blks" "sorted_keys (concat blks)" "length seps = length blks" "separates blks seps"
    "tr_indexBlock tr = block_of 1 (index_of r blks seps)" "T (tr_fileID tr) = Some (r, blks)"
    "length (blocks_bytes r blks) < 2 ^ 32" "length (block_of 1 (index_of r blks seps)) < 2 ^ 32"
    "i < length blks \<Longrightarrow> length (block_of r (blks ! i)) < 2 ^ 32"
    "i < length blks \<Longrightarrow> readRawBlock rd (handle_of r blks i) = Some (Inr (block_of r (blks ! i)))"
proof -
  obtain tf bf pd where o: "rd = bytes_ReadAt tf" "length tf < 2 ^ 32" "table_of tf (concat blks) bf r blks seps"
      "tr_indexBlock tr = block_of 1 (index_of r blks seps)" "T (tr_fileID tr) = Some (r, blks)"
    and fl: "tf = table_file (blocks_bytes r blks) bf (block_of 1 (index_of r blks seps)) pd"
    using assms by (auto simp: open_table_def table_of_def)
  show "0 < r" "[] \<notin> set blks" "sorted_keys (concat blks)" "length seps = length blks" "separates blks seps"
    "tr_indexBlock tr = block_of 1 (index_of r blks seps)" "T (tr_fileID tr) = Some (r, blks)"
    using o by (simp_all add: table_of_def)
  obtain rest where rest: "tf = blocks_bytes r blks @ filter_bytes bf @ raw_block (block_of 1 (index_of r blks seps)) @ rest"
    using fl by (simp add: table_file_def Let_def)
  show "length (blocks_bytes r blks) < 2 ^ 32" "length (block_of 1 (index_of r blks seps)) < 2 ^ 32"
    using o(2) rest by simp_all
  assume i: "i < length blks"
  have h: "handle_of r blks i = span (length (blocks_bytes r (take i blks))) (block_of r (blks ! i))"
    by (simp add: handle_of_def span_def)
  have f: "tf = blocks_bytes r (take i blks) @ raw_block (block_of r (blks ! i)) @
      blocks_bytes r (drop (Suc i) blks) @ filter_bytes bf @ raw_block (block_of 1 (index_of r blks seps)) @ rest"
    using rest blocks_split [OF i, of r] by simp
  show "length (block_of r (blks ! i)) < 2 ^ 32" using o(2) by (subst (asm) f) simp
  show "readRawBlock rd (handle_of r blks i) = Some (Inr (block_of r (blks ! i)))"
    unfolding h o(1) by (rule readRawBlock_at [OF f o(2)])
qed

lemma readDataBlock_at:
  assumes tab: "open_table T rd tr r blks seps" and i: "i < length blks" and good: "cache_good T cache"
  shows "\<exists>cache'. readDataBlock rd tr cache (handle_of r blks i) = Some (cache', Inr (block_of r (blks ! i))) \<and> cache_good T cache'"
proof (cases cache)
  case None
  then show ?thesis using open_tableD(11) [OF tab i] by (simp add: readDataBlock_def)
next
  case (Some c)
  let ?off = "bh_Offset (handle_of r blks i)"
  obtain L where L: "cache_rep c L" "coherent T L" using good Some by (auto simp: cache_good_def)
  obtain c' d where g: "cache_Get c (tr_fileID tr) ?off = (c', d)" by fastforce
  obtain L' where L': "cache_rep c' L'" "set L' = set L" and d: "d = map_of L (tr_fileID tr, ?off)"
    using cache_Get_rep [OF L(1) g] by blast
  have coh': "coherent T L'" using L(2) L'(2) by (simp add: coherent_def)
  show ?thesis
  proof (cases d)
    case (Some x)
    then have "((tr_fileID tr, ?off), x) \<in> set L" using d by (simp add: map_of_SomeD)
    with L(2) open_tableD(7) [OF tab] i have "x = block_of r (blks ! i)" unfolding coherent_def by fastforce
    moreover have "readDataBlock rd tr cache (handle_of r blks i) = Some (Some c', Inr x)"
      using \<open>cache = Some c\<close> g Some by (simp add: readDataBlock_def)
    moreover have "cache_good T (Some c')" using L'(1) coh' by (auto simp: cache_good_def)
    ultimately show ?thesis by blast
  next
    case None
    let ?c = "cache_Set c' (tr_fileID tr) ?off (block_of r (blks ! i))"
    obtain M where M: "cache_rep ?c M" "set M \<subseteq> insert ((tr_fileID tr, ?off), block_of r (blks ! i)) (set L')"
      using cache_Set_rep [OF L'(1)] by blast
    have "block_of r (blks ! i) = block_of r (blks ! j)" if "j < length blks" "bh_Offset (handle_of r blks j) = ?off" for j
      using handle_offset_inj [OF that(1) i open_tableD(8) [OF tab] that(2)] by simp
    with open_tableD(7) [OF tab] have "coherent T M" by (intro coherent_subset [OF coh' M(2)]) simp
    then have "cache_good T (Some ?c)" using M(1) by (auto simp: cache_good_def)
    moreover have "readDataBlock rd tr cache (handle_of r blks i) = Some (Some ?c, Inr (block_of r (blks ! i)))"
      using \<open>cache = Some c\<close> g None open_tableD(11) [OF tab i] by (simp add: readDataBlock_def)
    ultimately show ?thesis by blast
  qed
qed

section \<open>The index\<close>

lemma length_index_of [simp]: "length (index_of r blks seps) = length seps"
  by (simp add: index_of_def)

lemma index_nth: "i < length seps \<Longrightarrow> index_of r blks seps ! i = (seps ! i, encodeHandle (handle_of r blks i))"
  by (simp add: index_of_def)

lemma fst_index_of [simp]: "map fst (index_of r blks seps) = seps"
  by (simp add: index_of_def comp_def map_nth)

lemma separators_sorted:
  assumes "separates blks seps" and "length seps = length blks" and "[] \<notin> set blks"
  shows "sorted_wrt (<) seps"
  unfolding sorted_wrt_iff_nth_less
proof (intro allI impI)
  fix i j
  assume ij: "i < j" "j < length seps"
  with assms obtain e where e: "e \<in> set (blks ! j)" by (metis last_in_set nth_mem)
  have "seps ! i < fst e" using separatesD(2) [OF assms(1), of i j e] ij assms(2) e by simp
  also have "fst e \<le> seps ! j" using separatesD(1) [OF assms(1) ij(2) e] .
  finally show "seps ! i < seps ! j" .
qed

text \<open>The block that a key is looked up in: the entries of the earlier blocks are below the key.\<close>

lemma seek_split:
  assumes sep: "separates blks seps" and l: "length seps = length blks"
    and n: "n = length (takeWhile (\<lambda>s. s < t) seps)"
  shows "dropWhile (\<lambda>e. fst e < t) (concat blks) =
    (if n < length blks then dropWhile (\<lambda>e. fst e < t) (blks ! n @ concat (drop (Suc n) blks)) else [])"
proof -
  have below: "fst e < t" if "i < n" "e \<in> set (blks ! i)" for i e
  proof -
    have "i < length seps" using that(1) length_takeWhile_le [of "\<lambda>s. s < t" seps] n by simp
    moreover have "seps ! i < t" using that(1) n by (metis nth_mem set_takeWhileD takeWhile_nth)
    ultimately show ?thesis using separatesD(1) [OF sep _ that(2)] by fastforce
  qed
  have "fst e < t" if e: "e \<in> set (concat (take n blks))" for e
  proof -
    obtain b where "b \<in> set (take n blks)" "e \<in> set b" using e by auto
    from this(1) obtain i where "i < n" "b = blks ! i" unfolding in_set_conv_nth by auto
    with \<open>e \<in> set b\<close> below show ?thesis by blast
  qed
  then have "dropWhile (\<lambda>e. fst e < t) (concat (take n blks) @ concat (drop n blks)) = dropWhile (\<lambda>e. fst e < t) (concat (drop n blks))"
    by (intro dropWhile_append2) simp
  moreover have "concat (take n blks) @ concat (drop n blks) = concat blks" by (metis append_take_drop_id concat_append)
  ultimately show ?thesis by (simp add: Cons_nth_drop_Suc [symmetric])
qed

lemma bi_next_keeps:
  "bi_next it = Some (it', ok) \<Longrightarrow> bi_data it' = bi_data it \<and> bi_restarts it' = bi_restarts it \<and> bi_numRestarts it' = bi_numRestarts it"
  by (auto simp: bi_next_def bi_invalid_def Let_def split: if_splits option.splits)

lemma bi_scan_keeps:
  "bi_scan it t = Some (it', ok) \<Longrightarrow> bi_data it' = bi_data it \<and> bi_restarts it' = bi_restarts it \<and> bi_numRestarts it' = bi_numRestarts it"
proof (induction it t rule: bi_scan.induct)
  case (1 it t)
  obtain it1 ok1 where nx: "bi_next it = Some (it1, ok1)" using 1(2) by (subst (asm) bi_scan.simps) (auto split: option.splits)
  note k = bi_next_keeps [OF nx]
  show ?case
  proof (cases "ok1 \<and> \<not> 0 \<le> compareBytes (bi_key it1) t")
    case True
    with nx 1(2) have "bi_scan it1 t = Some (it', ok)" by (simp add: bi_scan.simps [of it])
    with 1(1) [OF nx refl] True k show ?thesis by simp
  next
    case False
    with nx 1(2) k show ?thesis by (cases ok1) (auto simp: bi_scan.simps [of it] bi_invalid_def)
  qed
qed

lemma bi_SeekGE_keeps: "bi_of r es it \<Longrightarrow> bi_SeekGE it t = Some (it', ok) \<Longrightarrow> bi_of r es it'"
  by (auto simp: bi_SeekGE_def bi_of_def Let_def split: option.splits dest!: bi_scan_keeps)

lemma bi_exhaust_at:
  assumes "bi_at r es i it" and "length (block_of r es) < 2 ^ 32"
  shows "\<exists>it'. bi_exhaust it = Some it' \<and> \<not> bi_valid it'"
  using assms(1)
proof (induction "length es - i" arbitrary: i it)
  case 0
  then have "i = length es" by (simp add: bi_at_def)
  with bi_at_end [of r es it] 0 show ?case by (simp add: bi_exhaust.simps [of it] bi_Next_def)
next
  case (Suc n)
  then have i: "i < length es" by linarith
  from bi_at_next [OF Suc.prems i assms(2)] obtain it' where "bi_next it = Some (it', True)" and at: "bi_at r es (Suc i) it'" by blast
  moreover have "\<exists>it''. bi_exhaust it' = Some it'' \<and> \<not> bi_valid it''" using Suc at by (intro Suc.hyps(1)) simp_all
  ultimately show ?case by (simp add: bi_exhaust.simps [of it] bi_Next_def)
qed

lemma handle_decode: "\<exists>n. decodeBlockHandle (encodeHandle h) = Some (h, n)"
  using decodeBlockHandle_encode [of h "[]"] by (simp add: encodeHandle_eq)

lemma index_seek:
  assumes tab: "open_table T rd tr r blks seps" and n: "n = length (takeWhile (\<lambda>s. s < t) seps)"
  shows "if n < length blks
    then \<exists>ii. bi_SeekGE (newBlockIterator (tr_indexBlock tr)) t = Some (ii, True) \<and> bi_val ii = encodeHandle (handle_of r blks n) \<and>
      bi_at 1 (index_of r blks seps) (Suc n) ii
    else \<exists>ii. bi_SeekGE (newBlockIterator (tr_indexBlock tr)) t = Some (ii, False) \<and> \<not> bi_valid ii \<and> bi_of 1 (index_of r blks seps) ii"
proof -
  let ?idx = "index_of r blks seps"
  note d = open_tableD [OF tab]
  have of: "bi_of 1 ?idx (newBlockIterator (tr_indexBlock tr))" unfolding d(6) by (rule newBlockIterator_of [OF d(9)])
  have srt: "sorted_keys ?idx" using separators_sorted [OF d(5,4,2)] by simp
  have dw: "dropWhile (\<lambda>e. fst e < t) ?idx = drop n ?idx"
  proof -
    have "n = length (takeWhile (\<lambda>e. fst e < t) ?idx)"
      using n takeWhile_map [of "\<lambda>s. s < t" fst ?idx] by (simp add: comp_def)
    then show ?thesis by (simp add: dropWhile_eq_drop)
  qed
  note sk = bi_SeekGE_of [OF of _ d(9) srt, of t, unfolded dw]
  show ?thesis
  proof (cases "n < length blks")
    case True
    then have i: "n < length ?idx" using d(4) by simp
    have dr: "drop n ?idx = ?idx ! n # drop (Suc n) ?idx" using i by (rule Cons_nth_drop_Suc [symmetric])
    obtain ii j where ii: "bi_SeekGE (newBlockIterator (tr_indexBlock tr)) t = Some (ii, True)" "bi_val ii = snd (?idx ! n)"
        "bi_at 1 ?idx j ii" "drop j ?idx = drop (Suc n) ?idx"
      using sk unfolding dr by auto
    have "j \<le> length ?idx" using ii(3) by (simp add: bi_at_def)
    moreover have "length (drop j ?idx) = length (drop (Suc n) ?idx)" using ii(4) by simp
    ultimately have "j = Suc n" using i by simp
    with ii True i show ?thesis by (simp add: index_nth)
  next
    case False
    then have dr: "drop n ?idx = []" using d(4) by simp
    obtain ii where "bi_SeekGE (newBlockIterator (tr_indexBlock tr)) t = Some (ii, False)" "\<not> bi_valid ii"
      using sk unfolding dr by auto
    with False bi_SeekGE_keeps [OF of] show ?thesis by auto
  qed
qed

section \<open>Point lookup\<close>

lemma findDataBlock_at:
  assumes tab: "open_table T rd tr r blks seps" and n: "n = length (takeWhile (\<lambda>s. s < key) seps)"
  shows "findDataBlock tr key = Some (if n < length blks then Inr (handle_of r blks n) else Inl ErrTableNotFound)"
proof (cases "n < length blks")
  case True
  then obtain ii where "bi_SeekGE (newBlockIterator (tr_indexBlock tr)) key = Some (ii, True)" "bi_val ii = encodeHandle (handle_of r blks n)"
    using index_seek [OF tab n] by auto
  with True handle_decode [of "handle_of r blks n"] show ?thesis by (auto simp: findDataBlock_def bi_Value_def)
next
  case False
  let ?idx = "index_of r blks seps"
  obtain ii where ii: "bi_SeekGE (newBlockIterator (tr_indexBlock tr)) key = Some (ii, False)" "bi_of 1 ?idx ii"
    using index_seek [OF tab n] False by auto
  note small = open_tableD(9) [OF tab]
  show ?thesis
  proof (cases ?idx)
    case Nil
    with bi_First_at [OF ii(2) small] ii(1) False show ?thesis by (auto simp: findDataBlock_def)
  next
    case (Cons e es)
    with bi_First_at [OF ii(2) small] obtain it where it: "bi_First ii = Some (it, True)" "bi_at 1 ?idx 1 it" by auto
    from bi_exhaust_at [OF it(2) small] obtain it' where "bi_exhaust it = Some it'" "\<not> bi_valid it'" by auto
    with it ii(1) False show ?thesis by (simp add: findDataBlock_def bi_Valid_def)
  qed
qed

lemma sorted_map_of_dropWhile:
  assumes "sorted_keys es"
  shows "map_of es k = (case dropWhile (\<lambda>e. fst e < k) es of [] \<Rightarrow> None | e # _ \<Rightarrow> if fst e = k then Some (snd e) else None)"
  using assms
proof (induction es)
  case (Cons e es)
  have "map_of es k = None" if "\<not> fst e < k" "fst e \<noteq> k"
    using Cons.prems that by (auto simp: map_of_eq_None_iff)
  with Cons show ?case by (cases e) auto
qed simp

lemma sorted_block:
  "sorted_keys (concat blks) \<Longrightarrow> i < length blks \<Longrightarrow> sorted_keys (blks ! i)"
proof (induction blks arbitrary: i)
  case (Cons b blks)
  then show ?case by (cases i) (auto simp: sorted_wrt_append)
qed simp

lemma Get_at:
  assumes tab: "open_table T rd tr r blks seps" and good: "cache_good T cache"
    and filt: "\<And>k. k \<in> fst ` set (concat blks) \<Longrightarrow> tr_filter tr \<noteq> None \<Longrightarrow> mayContain (tr_filter tr) k"
  shows "\<exists>cache'. Reader_Get rd tr cache key =
      Some (cache', case map_of (concat blks) key of None \<Rightarrow> Inl ErrTableNotFound | Some v \<Rightarrow> Inr v) \<and> cache_good T cache'"
proof (cases "tr_filter tr \<noteq> None \<and> \<not> mayContain (tr_filter tr) key")
  case True
  then have "map_of (concat blks) key = None" using filt by (auto simp: map_of_eq_None_iff simp del: set_concat)
  with True good show ?thesis by (simp add: Reader_Get_def)
next
  case False
  let ?n = "length (takeWhile (\<lambda>s. s < key) seps)"
  note d = open_tableD [OF tab]
  note sp = seek_split [OF d(5,4) refl, of key]
  show ?thesis
  proof (cases "?n < length blks")
    case beyond: False
    then have "dropWhile (\<lambda>e. fst e < key) (concat blks) = []" using sp by simp
    then have "map_of (concat blks) key = None" using sorted_map_of_dropWhile [OF d(3), of key] by (simp only: list.case)
    with False beyond good findDataBlock_at [OF tab refl, of key] show ?thesis by (auto simp: Reader_Get_def)
  next
    case True
    let ?b = "blks ! ?n"
    have ne: "?b \<noteq> []" using d(2) True by (metis nth_mem)
    have srt: "sorted_keys ?b" by (rule sorted_block [OF d(3) True])
    obtain cache' where c: "readDataBlock rd tr cache (handle_of r blks ?n) = Some (cache', Inr (block_of r ?b))" "cache_good T cache'"
      using readDataBlock_at [OF tab True good] by blast
    note sk = bi_SeekGE_of [OF newBlockIterator_of [OF d(10) [OF True]] d(1) d(10) [OF True] srt, of key]
    have get: "Reader_Get rd tr cache key = (case bi_SeekGE (newBlockIterator (block_of r ?b)) key of
                  None \<Rightarrow> None
                | Some (it, ok) \<Rightarrow>
                    Some (cache', if ok \<and> compareBytes (bi_Key it) key = 0 then Inr (bi_Value it) else Inl ErrTableNotFound))"
      using False findDataBlock_at [OF tab refl, of key] True c(1) by (auto simp: Reader_Get_def)
    have "map_of (concat blks) key = map_of ?b key"
    proof -
      have "e \<in> set ?b" if e: "e \<in> set (concat blks)" "fst e = key" for e
      proof -
        obtain b where b: "b \<in> set blks" "e \<in> set b" using e(1) by auto
        then obtain m where m: "m < length blks" "e \<in> set (blks ! m)" unfolding in_set_conv_nth [of b blks] by auto
        have ln: "?n < length seps" using True d(4) by simp
        have "\<not> seps ! ?n < key" using nth_length_takeWhile [OF ln] .
        then have "\<not> ?n < m" using separatesD(2) [OF d(5) ln m(1) _ m(2)] e(2) by auto
        moreover have "\<not> m < ?n"
        proof
          assume lt: "m < ?n"
          then have "seps ! m < key" by (metis nth_mem set_takeWhileD takeWhile_nth)
          moreover have "fst e \<le> seps ! m" using separatesD(1) [OF d(5) _ m(2)] m(1) d(4) by simp
          ultimately show False using e(2) by simp
        qed
        ultimately show ?thesis using m(2) by (metis linorder_neqE_nat)
      qed
      moreover have "set ?b \<subseteq> set (concat blks)" using nth_mem [OF True] by auto
      moreover have "distinct (map fst (concat blks))" "distinct (map fst ?b)" using d(3) srt by (simp_all only: strict_sorted_iff)
      ultimately have "map_of (concat blks) key = Some v \<longleftrightarrow> map_of ?b key = Some v" for v
        by (metis (no_types, lifting) fst_conv map_of_eq_Some_iff subsetD)
      then show ?thesis by (metis not_None_eq)
    qed
    note mo = this sorted_map_of_dropWhile [OF srt, of key]
    show ?thesis
    proof (cases "dropWhile (\<lambda>e. fst e < key) ?b")
      case Nil
      then have "map_of (concat blks) key = None" using mo unfolding Nil list.case by simp
      moreover obtain it where "bi_SeekGE (newBlockIterator (block_of r ?b)) key = Some (it, False)"
        using sk unfolding Nil list.case by blast
      ultimately show ?thesis using get c(2) by simp
    next
      case (Cons e es)
      then have "map_of (concat blks) key = (if fst e = key then Some (snd e) else None)" using mo unfolding Cons list.case by simp
      moreover obtain it where "bi_SeekGE (newBlockIterator (block_of r ?b)) key = Some (it, True)" "bi_key it = fst e" "bi_val it = snd e"
        using sk unfolding Cons list.case by blast
      ultimately show ?thesis using get c(2) by (simp add: compareBytes_eq compareKeys_zero bi_Key_def bi_Value_def)
    qed
  qed
qed

section \<open>The two-level iterator\<close>

text \<open>A table iterator with what it reads from, and its operations on the shared cache.\<close>

type_synonym table_iter = "reader_at \<times> table_reader \<times> TableIterator"

definition on_table ::
  "(reader_at \<Rightarrow> table_reader \<Rightarrow> BlockCache option \<Rightarrow> TableIterator \<Rightarrow> bool cached) \<Rightarrow> table_iter \<Rightarrow> BlockCache option \<Rightarrow> (table_iter \<times> BlockCache option \<times> bool) option" where
  "on_table f i cache = (case i of (rd, tr, it) \<Rightarrow> map_option (\<lambda>(it, cache, ok). ((rd, tr, it), cache, ok)) (f rd tr cache it))"

definition table_src :: "tables \<Rightarrow> table_iter \<Rightarrow> kv list \<Rightarrow> bool" where
  "table_src T i es \<longleftrightarrow> (case i of (rd, tr, it) \<Rightarrow> \<exists>r blks seps. open_table T rd tr r blks seps \<and> es = concat blks)"

text \<open>The data iterator stands on entry \<open>j\<close> of block \<open>b\<close>, the index iterator on entry \<open>b\<close>.\<close>

definition ti_on :: "nat \<Rightarrow> kv list list \<Rightarrow> bytes list \<Rightarrow> nat \<Rightarrow> nat \<Rightarrow> TableIterator \<Rightarrow> bool" where
  "ti_on r blks seps b j it \<longleftrightarrow> ti_err it = None \<and>
     (\<exists>ii di. ti_indexIter it = Some ii \<and> ti_dataIter it = Some di \<and> b < length blks \<and> j < length (blks ! b) \<and>
       bi_at 1 (index_of r blks seps) (Suc b) ii \<and> bi_at r (blks ! b) (Suc j) di \<and> bi_valid di \<and>
       bi_key di = fst (blks ! b ! j) \<and> bi_val di = snd (blks ! b ! j))"

definition table_at :: "tables \<Rightarrow> table_iter \<Rightarrow> kv list \<Rightarrow> kv list \<Rightarrow> bool" where
  "table_at T i es rest \<longleftrightarrow> (case i of (rd, tr, it) \<Rightarrow>
     \<exists>r blks seps b j. open_table T rd tr r blks seps \<and> es = concat blks \<and> ti_on r blks seps b j it \<and>
       rest = drop j (blks ! b) @ concat (drop (Suc b) blks))"

lemma load_at:
  assumes tab: "open_table T rd tr r blks seps" and b: "b < length blks" and good: "cache_good T cache"
    and ii: "ti_indexIter it = Some ii" "bi_val ii = encodeHandle (handle_of r blks b)"
  shows "\<exists>cache'. ti_load_then rd tr cache it f = f cache' (it\<lparr>ti_dataIter := Some (newBlockIterator (block_of r (blks ! b)))\<rparr>) \<and> cache_good T cache'"
proof -
  obtain cache' where c: "readDataBlock rd tr cache (handle_of r blks b) = Some (cache', Inr (block_of r (blks ! b)))" "cache_good T cache'"
    using readDataBlock_at [OF tab b good] by blast
  obtain n where "decodeBlockHandle (encodeHandle (handle_of r blks b)) = Some (handle_of r blks b, n)" using handle_decode by blast
  with c ii have "ti_loadDataBlock rd tr cache it = Some (it\<lparr>ti_dataIter := Some (newBlockIterator (block_of r (blks ! b)))\<rparr>, cache', None)"
    by (simp add: ti_loadDataBlock_def bi_Value_def)
  with c(2) show ?thesis by (intro exI [of _ cache']) (simp add: ti_load_then_def)
qed

text \<open>The first entry of a block that has just been loaded.\<close>

lemma dataFirst_at:
  assumes tab: "open_table T rd tr r blks seps" and b: "b < length blks"
    and ii: "ti_indexIter it = Some ii" "bi_at 1 (index_of r blks seps) (Suc b) ii" and err: "ti_err it = None"
  shows "\<exists>it'. ti_dataFirst cache (it\<lparr>ti_dataIter := Some (newBlockIterator (block_of r (blks ! b)))\<rparr>) = Some (it', cache, True) \<and>
    ti_on r blks seps b 0 it'"
proof -
  note d = open_tableD [OF tab]
  have ne: "blks ! b \<noteq> []" using d(2) b by (metis nth_mem)
  then obtain e es where e: "blks ! b = e # es" by (cases "blks ! b") auto
  obtain di where di: "bi_First (newBlockIterator (block_of r (blks ! b))) = Some (di, True)" "bi_at r (blks ! b) 1 di"
      "bi_key di = fst e" "bi_val di = snd e" "bi_valid di"
    using bi_First_at [OF newBlockIterator_of [OF d(10) [OF b]] d(10) [OF b]] unfolding e by auto
  have "ti_on r blks seps b 0 (it\<lparr>ti_dataIter := Some di\<rparr>)" using di ii err b e by (simp add: ti_on_def)
  with di(1) show ?thesis by (intro exI [of _ "it\<lparr>ti_dataIter := Some di\<rparr>"]) (simp add: ti_dataFirst_def)
qed

lemma nextBlock_at:
  assumes tab: "open_table T rd tr r blks seps" and b: "b < length blks" and good: "cache_good T cache"
    and ii: "ti_indexIter it = Some ii" "bi_at 1 (index_of r blks seps) (Suc b) ii" and err: "ti_err it = None"
  shows "\<exists>it' cache'. ti_nextBlock rd tr cache it = Some (it', cache', Suc b < length blks) \<and> cache_good T cache' \<and>
    (Suc b < length blks \<longrightarrow> ti_on r blks seps (Suc b) 0 it')"
proof -
  let ?idx = "index_of r blks seps"
  note d = open_tableD [OF tab]
  show ?thesis
  proof (cases "Suc b < length blks")
    case True
    then have i: "Suc b < length ?idx" using d(4) by simp
    obtain ii' where nx: "bi_next ii = Some (ii', True)" "bi_at 1 ?idx (Suc (Suc b)) ii'" "bi_val ii' = snd (?idx ! Suc b)"
      using bi_at_next [OF ii(2) i d(9)] by blast
    let ?it = "it\<lparr>ti_indexIter := Some ii'\<rparr>"
    have v: "bi_val ii' = encodeHandle (handle_of r blks (Suc b))" using nx(3) i by (simp add: index_nth)
    obtain cache' where l: "ti_load_then rd tr cache ?it ti_dataFirst =
        ti_dataFirst cache' (?it\<lparr>ti_dataIter := Some (newBlockIterator (block_of r (blks ! Suc b)))\<rparr>)" "cache_good T cache'"
      using load_at [OF tab True good _ v, of ?it ti_dataFirst] by auto
    obtain it' where "ti_dataFirst cache' (?it\<lparr>ti_dataIter := Some (newBlockIterator (block_of r (blks ! Suc b)))\<rparr>) = Some (it', cache', True)"
        "ti_on r blks seps (Suc b) 0 it'"
      using dataFirst_at [OF tab True _ nx(2), of ?it cache'] err by auto
    with l nx(1) ii(1) True show ?thesis by (intro exI [of _ it'] exI [of _ cache']) (simp add: ti_nextBlock_def bi_Next_def)
  next
    case False
    then have "Suc b = length ?idx" using d(4) b by simp
    with bi_at_end [of 1 ?idx ii] ii(2) have "bi_next ii = Some (ii\<lparr>bi_valid := False\<rparr>, False)" by simp
    with ii(1) False good show ?thesis by (simp add: ti_nextBlock_def bi_Next_def)
  qed
qed

lemma table_atI:
  "open_table T rd tr r blks seps \<Longrightarrow> es = concat blks \<Longrightarrow> ti_on r blks seps b j it \<Longrightarrow>
   rest = drop j (blks ! b) @ concat (drop (Suc b) blks) \<Longrightarrow> table_at T (rd, tr, it) es rest"
  unfolding table_at_def prod.case by blast

lemma Next_at:
  assumes at: "table_at T (rd, tr, it) es (e # rest)" and good: "cache_good T cache"
  shows "\<exists>it' cache'. ti_Next rd tr cache it = Some (it', cache', rest \<noteq> []) \<and> cache_good T cache' \<and>
    (rest \<noteq> [] \<longrightarrow> table_at T (rd, tr, it') es rest)"
proof -
  obtain r blks seps b j where tab: "open_table T rd tr r blks seps" and es: "es = concat blks"
    and on: "ti_on r blks seps b j it" and rest: "e # rest = drop j (blks ! b) @ concat (drop (Suc b) blks)"
    using at by (auto simp: table_at_def)
  note d = open_tableD [OF tab]
  obtain ii di where o: "ti_err it = None" "ti_indexIter it = Some ii" "ti_dataIter it = Some di" "b < length blks" "j < length (blks ! b)"
      "bi_at 1 (index_of r blks seps) (Suc b) ii" "bi_at r (blks ! b) (Suc j) di"
    using on by (auto simp: ti_on_def)
  have rest': "rest = drop (Suc j) (blks ! b) @ concat (drop (Suc b) blks)"
    using rest o(5) by (simp add: Cons_nth_drop_Suc [symmetric])
  show ?thesis
  proof (cases "Suc j < length (blks ! b)")
    case True
    obtain di' where nx: "bi_next di = Some (di', True)" "bi_at r (blks ! b) (Suc (Suc j)) di'" "bi_key di' = fst (blks ! b ! Suc j)"
        "bi_val di' = snd (blks ! b ! Suc j)" "bi_valid di'"
      using bi_at_next [OF o(7) True d(10) [OF o(4)]] by blast
    let ?it = "it\<lparr>ti_dataIter := Some di'\<rparr>"
    have "ti_on r blks seps b (Suc j) ?it" using nx o True by (simp add: ti_on_def)
    then have "table_at T (rd, tr, ?it) es rest" by (rule table_atI [OF tab es _ rest'])
    moreover have "rest \<noteq> []" using rest' True by simp
    ultimately show ?thesis using nx(1) o(3) good by (intro exI [of _ ?it] exI [of _ cache]) (simp add: ti_Next_def bi_Next_def)
  next
    case False
    then have j: "Suc j = length (blks ! b)" using o(5) by simp
    have fin: "bi_next di = Some (di\<lparr>bi_valid := False\<rparr>, False)" using bi_at_end [of r "blks ! b" di] o(7) j by simp
    let ?it = "it\<lparr>ti_dataIter := Some (di\<lparr>bi_valid := False\<rparr>)\<rparr>"
    obtain it' cache' where nb: "ti_nextBlock rd tr cache ?it = Some (it', cache', Suc b < length blks)" "cache_good T cache'"
        "Suc b < length blks \<longrightarrow> ti_on r blks seps (Suc b) 0 it'"
      using nextBlock_at [OF tab o(4) good, of ?it ii] o by auto
    have r2: "rest = concat (drop (Suc b) blks)" using rest' j by simp
    have ne: "rest \<noteq> [] \<longleftrightarrow> Suc b < length blks"
    proof (cases "Suc b < length blks")
      case True
      have "blks ! Suc b \<noteq> []" using d(2) True by (metis nth_mem)
      then show ?thesis using r2 True by (simp add: Cons_nth_drop_Suc [symmetric])
    qed (simp add: r2)
    have "table_at T (rd, tr, it') es rest" if lt: "Suc b < length blks"
      using nb(3) lt r2 by (intro table_atI [OF tab es, of "Suc b" 0]) (simp_all add: Cons_nth_drop_Suc [symmetric])
    with nb(1,2) fin o(3) ne show ?thesis
      by (intro exI [of _ it'] exI [of _ cache']) (simp add: ti_Next_def bi_Next_def)
  qed
qed

lemma First_at:
  assumes tab: "open_table T rd tr r blks seps" and good: "cache_good T cache"
  shows "\<exists>it' cache'. ti_First rd tr cache it = Some (it', cache', concat blks \<noteq> []) \<and> cache_good T cache' \<and>
    (concat blks \<noteq> [] \<longrightarrow> table_at T (rd, tr, it') (concat blks) (concat blks))"
proof -
  let ?idx = "index_of r blks seps"
  note d = open_tableD [OF tab]
  have of: "bi_of 1 ?idx (newBlockIterator (tr_indexBlock tr))" unfolding d(6) by (rule newBlockIterator_of [OF d(9)])
  note fst = bi_First_at [OF of d(9)]
  show ?thesis
  proof (cases "blks = []")
    case True
    then have "?idx = []" using d(4) by (simp add: index_of_def)
    with fst obtain ii where "bi_First (newBlockIterator (tr_indexBlock tr)) = Some (ii, False)" by auto
    with True good show ?thesis by (simp add: ti_First_def)
  next
    case False
    then have i: "0 < length blks" "0 < length ?idx" using d(4) by simp_all
    then obtain x xs where idx: "?idx = x # xs" by (cases ?idx) auto
    obtain ii where ii: "bi_First (newBlockIterator (tr_indexBlock tr)) = Some (ii, True)" "bi_at 1 ?idx (Suc 0) ii" "bi_val ii = snd (?idx ! 0)"
      using fst unfolding idx by auto
    have v: "bi_val ii = encodeHandle (handle_of r blks 0)" using ii(3) i d(4) by (simp add: index_nth)
    let ?it = "it\<lparr>ti_err := None, ti_indexIter := Some ii\<rparr>"
    obtain cache' where l: "ti_load_then rd tr cache ?it ti_dataFirst =
        ti_dataFirst cache' (?it\<lparr>ti_dataIter := Some (newBlockIterator (block_of r (blks ! 0)))\<rparr>)" "cache_good T cache'"
      using load_at [OF tab i(1) good _ v, of ?it ti_dataFirst] by auto
    obtain it' where f: "ti_dataFirst cache' (?it\<lparr>ti_dataIter := Some (newBlockIterator (block_of r (blks ! 0)))\<rparr>) = Some (it', cache', True)"
        "ti_on r blks seps 0 0 it'"
      using dataFirst_at [OF tab i(1) _ ii(2), of ?it cache'] by auto
    have whole: "blks ! 0 @ concat (drop (Suc 0) blks) = concat blks" using False by (cases blks) simp_all
    have "blks ! 0 \<noteq> []" using d(2) i(1) by (metis nth_mem)
    then have ne: "concat blks \<noteq> []" using whole by (metis append_is_Nil_conv)
    have "table_at T (rd, tr, it') (concat blks) (concat blks)"
      using whole by (intro table_atI [OF tab refl f(2)]) simp
    with l f(1) ii(1) ne show ?thesis by (intro exI [of _ it'] exI [of _ cache']) (simp only: ti_First_def option.case prod.case bool.case, simp)
  qed
qed

lemma SeekGE_at:
  assumes tab: "open_table T rd tr r blks seps" and good: "cache_good T cache"
    and rest: "dropWhile (\<lambda>e. fst e < t) (concat blks) = rest"
  shows "\<exists>it' cache'. ti_SeekGE rd tr cache it t = Some (it', cache', rest \<noteq> []) \<and> cache_good T cache' \<and>
    (rest \<noteq> [] \<longrightarrow> table_at T (rd, tr, it') (concat blks) rest)"
proof -
  let ?idx = "index_of r blks seps" and ?n = "length (takeWhile (\<lambda>s. s < t) seps)"
  note d = open_tableD [OF tab]
  note sp = seek_split [OF d(5,4) refl, of t]
  show ?thesis
  proof (cases "?n < length blks")
    case False
    then obtain ii where "bi_SeekGE (newBlockIterator (tr_indexBlock tr)) t = Some (ii, False)"
      using index_seek [OF tab refl, of t] by auto
    moreover have "rest = []" using sp False rest by simp
    ultimately show ?thesis using good by (simp add: ti_SeekGE_def)
  next
    case True
    let ?b = "blks ! ?n"
    obtain ii where ii: "bi_SeekGE (newBlockIterator (tr_indexBlock tr)) t = Some (ii, True)" "bi_val ii = encodeHandle (handle_of r blks ?n)"
        "bi_at 1 ?idx (Suc ?n) ii"
      using index_seek [OF tab refl, of t] True by auto
    let ?it = "it\<lparr>ti_err := None, ti_indexIter := Some ii\<rparr>" and ?di = "newBlockIterator (block_of r ?b)"
    define f where "f = (\<lambda>cache it. case ti_dataIter it of
              None \<Rightarrow> None
            | Some di \<Rightarrow>
                (case bi_SeekGE di t of
                   None \<Rightarrow> None
                 | Some (di, True) \<Rightarrow> Some (it\<lparr>ti_dataIter := Some di\<rparr>, cache, True)
                 | Some (di, False) \<Rightarrow> ti_nextBlock rd tr cache (it\<lparr>ti_dataIter := Some di\<rparr>)))"
    have sk: "ti_SeekGE rd tr cache it t = ti_load_then rd tr cache ?it f"
      using ii(1) by (simp add: ti_SeekGE_def f_def)
    obtain cache' where l: "ti_load_then rd tr cache ?it f = f cache' (?it\<lparr>ti_dataIter := Some ?di\<rparr>)" "cache_good T cache'"
      using load_at [OF tab True good _ ii(2), of ?it f] by auto
    have srt: "sorted_keys ?b" by (rule sorted_block [OF d(3) True])
    note bs = bi_SeekGE_of [OF newBlockIterator_of [OF d(10) [OF True]] d(1) d(10) [OF True] srt, of t]
    have sep: "\<not> seps ! ?n < t" using nth_length_takeWhile [of "\<lambda>s. s < t" seps] True d(4) by simp
    have later: "\<not> fst e < t" if e: "e \<in> set (concat (drop (Suc ?n) blks))" for e
    proof -
      obtain b where b: "b \<in> set (drop (Suc ?n) blks)" "e \<in> set b" using e unfolding set_concat by blast
      then obtain i where i: "i < length (drop (Suc ?n) blks)" "b = drop (Suc ?n) blks ! i" unfolding in_set_conv_nth by auto
      then have "seps ! ?n < fst e" using separatesD(2) [OF d(5), of ?n "Suc ?n + i" e] b(2) True d(4) by simp
      with sep show ?thesis by simp
    qed
    have rest': "rest = dropWhile (\<lambda>e. fst e < t) ?b @ concat (drop (Suc ?n) blks)"
    proof (cases "\<exists>x\<in>set ?b. \<not> fst x < t")
      case True
      then show ?thesis using rest sp \<open>?n < length blks\<close> by (auto simp: dropWhile_append1)
    next
      case False
      then have "dropWhile (\<lambda>e. fst e < t) ?b = []" by (simp add: dropWhile_eq_Nil_conv)
      moreover have "dropWhile (\<lambda>e. fst e < t) (concat (drop (Suc ?n) blks)) = concat (drop (Suc ?n) blks)"
        using later by (simp only: dropWhile_eq_self_iff) (metis hd_in_set)
      ultimately show ?thesis using rest sp \<open>?n < length blks\<close> False by (simp add: dropWhile_append2)
    qed
    show ?thesis
    proof (cases "dropWhile (\<lambda>e. fst e < t) ?b")
      case (Cons e es')
      obtain di j where di: "bi_SeekGE ?di t = Some (di, True)" "bi_key di = fst e" "bi_val di = snd e" "bi_valid di" "bi_at r ?b j di" "drop j ?b = es'"
        using bs unfolding Cons list.case by blast
      let ?k = "length (takeWhile (\<lambda>e. fst e < t) ?b)"
      have k: "drop ?k ?b = e # es'" using Cons by (simp add: dropWhile_eq_drop)
      then have kl: "?k < length ?b" by (metis drop_eq_Nil not_less list.distinct(1))
      then have e: "e = ?b ! ?k" "es' = drop (Suc ?k) ?b" using k by (simp_all add: Cons_nth_drop_Suc [symmetric])
      have "j \<le> length ?b" using di(5) by (simp add: bi_at_def)
      moreover have "length (drop j ?b) = length (drop (Suc ?k) ?b)" using di(6) e(2) by simp
      ultimately have j: "j = Suc ?k" using kl by simp
      let ?it' = "?it\<lparr>ti_dataIter := Some di\<rparr>"
      have on: "ti_on r blks seps ?n ?k ?it'" using di ii(3) True kl e(1) j by (simp add: ti_on_def)
      have "rest = drop ?k ?b @ concat (drop (Suc ?n) blks)" unfolding rest' k Cons ..
      then have "table_at T (rd, tr, ?it') (concat blks) rest" by (rule table_atI [OF tab refl on])
      moreover have "f cache' (?it\<lparr>ti_dataIter := Some ?di\<rparr>) = Some (?it', cache', True)" using di(1) by (simp add: f_def)
      moreover have "rest \<noteq> []" using rest' Cons by simp
      ultimately show ?thesis using sk l by (intro exI [of _ ?it'] exI [of _ cache']) simp
    next
      case Nil
      obtain di where di: "bi_SeekGE ?di t = Some (di, False)" using bs unfolding Nil list.case by blast
      let ?it2 = "?it\<lparr>ti_dataIter := Some di\<rparr>"
      obtain it' cache2 where nb: "ti_nextBlock rd tr cache' ?it2 = Some (it', cache2, Suc ?n < length blks)" "cache_good T cache2"
          "Suc ?n < length blks \<longrightarrow> ti_on r blks seps (Suc ?n) 0 it'"
        using nextBlock_at [OF tab True l(2), of ?it2 ii] ii(3) by auto
      have r2: "rest = concat (drop (Suc ?n) blks)" using rest' Nil by simp
      have ne: "rest \<noteq> [] \<longleftrightarrow> Suc ?n < length blks"
      proof (cases "Suc ?n < length blks")
        case True
        have "blks ! Suc ?n \<noteq> []" using d(2) True by (metis nth_mem)
        then show ?thesis using r2 True by (simp add: Cons_nth_drop_Suc [symmetric])
      qed (simp add: r2)
      have "table_at T (rd, tr, it') (concat blks) rest" if lt: "Suc ?n < length blks"
        using nb(3) lt r2 by (intro table_atI [OF tab refl, of "Suc ?n" 0]) (simp_all add: Cons_nth_drop_Suc [symmetric])
      moreover have "f cache' (?it\<lparr>ti_dataIter := Some ?di\<rparr>) = ti_nextBlock rd tr cache' ?it2" using di by (simp add: f_def)
      ultimately show ?thesis using sk l(1) nb(1,2) ne by (intro exI [of _ it'] exI [of _ cache2]) simp
    qed
  qed
qed

definition table_First :: "table_iter \<Rightarrow> BlockCache option \<Rightarrow> (table_iter \<times> BlockCache option \<times> bool) option" where
  "table_First = on_table ti_First"

definition table_Next :: "table_iter \<Rightarrow> BlockCache option \<Rightarrow> (table_iter \<times> BlockCache option \<times> bool) option" where
  "table_Next = on_table ti_Next"

definition table_SeekGE :: "table_iter \<Rightarrow> BlockCache option \<Rightarrow> bytes \<Rightarrow> (table_iter \<times> BlockCache option \<times> bool) option" where
  "table_SeekGE i cache target = on_table (\<lambda>rd tr cache it. ti_SeekGE rd tr cache it target) i cache"

interpretation tab: sorted_source table_SeekGE table_First table_Next "\<lambda>i. ti_Valid (snd (snd i))" "\<lambda>i. ti_Key (snd (snd i))"
    "\<lambda>i. ti_Value (snd (snd i))" "cache_good T" "table_src T" "table_at T"
  for T
proof unfold_locales
  fix i es assume "table_src T i es"
  then show "sorted_keys es" by (auto simp: table_src_def dest: open_tableD(3))
next
  fix i es g t rest
  assume s: "table_src T i es" "cache_good T g" "dropWhile (\<lambda>e. fst e < t) es = rest"
  obtain rd tr it where i: "i = (rd, tr, it)" by (cases i) auto
  obtain r blks seps where tab: "open_table T rd tr r blks seps" "es = concat blks" using s(1) i by (auto simp: table_src_def)
  obtain it' g' where "ti_SeekGE rd tr g it t = Some (it', g', rest \<noteq> [])" "cache_good T g'"
      "rest \<noteq> [] \<longrightarrow> table_at T (rd, tr, it') (concat blks) rest"
    using SeekGE_at [OF tab(1) s(2), of t rest it] s(3) tab(2) by auto
  with tab i show "\<exists>i' g'. table_SeekGE i g t = Some (i', g', rest \<noteq> []) \<and> cache_good T g' \<and> table_src T i' es \<and> (rest \<noteq> [] \<longrightarrow> table_at T i' es rest)"
    by (intro exI [of _ "(rd, tr, it')"] exI [of _ g']) (auto simp: table_SeekGE_def on_table_def table_src_def)
next
  fix i es g
  assume s: "table_src T i es" "cache_good T g"
  obtain rd tr it where i: "i = (rd, tr, it)" by (cases i) auto
  obtain r blks seps where tab: "open_table T rd tr r blks seps" "es = concat blks" using s(1) i by (auto simp: table_src_def)
  obtain it' g' where "ti_First rd tr g it = Some (it', g', concat blks \<noteq> [])" "cache_good T g'"
      "concat blks \<noteq> [] \<longrightarrow> table_at T (rd, tr, it') (concat blks) (concat blks)"
    using First_at [OF tab(1) s(2), of it] by auto
  with tab i show "\<exists>i' g'. table_First i g = Some (i', g', es \<noteq> []) \<and> cache_good T g' \<and> table_src T i' es \<and> (es \<noteq> [] \<longrightarrow> table_at T i' es es)"
    by (intro exI [of _ "(rd, tr, it')"] exI [of _ g']) (auto simp: table_First_def on_table_def table_src_def)
next
  fix i es e rest g
  assume a: "table_at T i es (e # rest)" and g: "cache_good T g"
  obtain rd tr it where i: "i = (rd, tr, it)" by (cases i) auto
  obtain it' g' where "ti_Next rd tr g it = Some (it', g', rest \<noteq> [])" "cache_good T g'" "rest \<noteq> [] \<longrightarrow> table_at T (rd, tr, it') es rest"
    using Next_at [OF a [unfolded i] g] by auto
  moreover have "table_src T (rd, tr, it') es" using a i by (auto simp: table_at_def table_src_def)
  ultimately show "\<exists>i' g'. table_Next i g = Some (i', g', rest \<noteq> []) \<and> cache_good T g' \<and> table_src T i' es \<and> (rest \<noteq> [] \<longrightarrow> table_at T i' es rest)"
    using i by (intro exI [of _ "(rd, tr, it')"] exI [of _ g']) (auto simp: table_Next_def on_table_def)
next
  fix i es e rest
  assume a: "table_at T i es (e # rest)"
  obtain rd tr it where i: "i = (rd, tr, it)" by (cases i) auto
  obtain r blks seps b j where on: "ti_on r blks seps b j it" and rest: "e # rest = drop j (blks ! b) @ concat (drop (Suc b) blks)"
    using a i by (auto simp: table_at_def)
  have "j < length (blks ! b)" using on by (auto simp: ti_on_def)
  then have "e = blks ! b ! j" using rest by (simp add: Cons_nth_drop_Suc [symmetric])
  then show "ti_Key (snd (snd i)) = Some (fst e) \<and> ti_Value (snd (snd i)) = Some (snd e) \<and> ti_Valid (snd (snd i))"
    using on i by (auto simp: ti_on_def ti_Key_def ti_Value_def ti_Valid_def bi_Key_def bi_Value_def bi_Valid_def)
next
  fix i es rest
  assume a: "table_at T i es rest"
  obtain rd tr it where i: "i = (rd, tr, it)" by (cases i) auto
  obtain r blks seps b j where tab: "open_table T rd tr r blks seps" "es = concat blks" and on: "ti_on r blks seps b j it"
      and rest: "rest = drop j (blks ! b) @ concat (drop (Suc b) blks)"
    using a i by (auto simp: table_at_def)
  have b: "b < length blks" using on by (auto simp: ti_on_def)
  have "es = concat (take b blks @ blks ! b # drop (Suc b) blks)" using tab(2) id_take_nth_drop [OF b] by simp
  also have "\<dots> = concat (take b blks) @ (take j (blks ! b) @ drop j (blks ! b)) @ concat (drop (Suc b) blks)" by simp
  finally have "es = (concat (take b blks) @ take j (blks ! b)) @ rest" unfolding rest append_assoc .
  moreover have "table_src T i es" using tab i by (auto simp: table_src_def)
  ultimately show "table_src T i es \<and> (\<exists>before. es = before @ rest)" by blast
qed

end
