(* ===== verification/Table_File.thy ===== *)
theory Table_File
  imports Table_Lookup File_Frame
begin

text \<open>
  Tables in files: what writing a table leaves alone, that it succeeds when no write fails, and the
  properties of a table written to a file and read back.
\<close>

section \<open>Nothing else changes, and nothing fails by itself\<close>

context io_writer_frame
begin

lemma writeBlock_frame: "writer_writeBlock wr w s d = (w', s', res) \<Longrightarrow> R s s'"
  by (auto simp: writer_writeBlock_def Let_def split: prod.splits option.splits dest!: R_wr) (meson R_trans)+

lemma flush_frame: "flushDataBlock wr w s = (w', s', err) \<Longrightarrow> R s s'"
  by (auto simp: flushDataBlock_def Let_def split: prod.splits sum.splits dest: writeBlock_frame)

lemma Add_frame: "Writer_Add wr w s k v = Some (w', s', err) \<Longrightarrow> R s s'"
  by (auto simp: Writer_Add_def Let_def R_refl split: if_splits option.splits prod.splits dest: flush_frame)

lemma adds_frame: "table_adds wr w s es = Some (w', s', err) \<Longrightarrow> R s s'"
proof (induction es arbitrary: w s)
  case (Cons e es)
  obtain k v where e: "e = (k, v)" by fastforce
  obtain w1 s1 err1 where a: "Writer_Add wr w s k v = Some (w1, s1, err1)"
    using Cons.prems e by (auto split: option.splits)
  note r = Add_frame [OF a]
  show ?case
  proof (cases err1)
    case None
    with Cons.prems a e have "table_adds wr w1 s1 es = Some (w', s', err)" by simp
    from R_trans [OF r Cons.IH [OF this]] show ?thesis .
  qed (use Cons.prems a e r in simp)
qed (simp add: R_refl)

lemma close_tail_frame: "close_tail wr w s bf = (w', s', res) \<Longrightarrow> R s s'"
  by (auto simp: close_tail_def writeFooter_def Let_def split: prod.splits sum.splits option.splits
      dest!: writeBlock_frame R_wr) (meson R_trans)+

lemma Close_frame: "Writer_Close wr w s = (w', s', res) \<Longrightarrow> R s s'"
  by (auto simp: Writer_Close_def Let_def R_refl split: if_splits prod.splits sum.splits option.splits
      dest!: writeBlock_frame flush_frame close_tail_frame) (meson R_trans)+

lemma write_table_frame: "write_table wr opts s es = Some (s', res) \<Longrightarrow> R s s'"
  by (auto simp: write_table_def split: option.splits prod.splits dest!: adds_frame Close_frame) (meson R_trans)+

end

lemma Writer_Add_put:
  "Writer_Add wr w s key value =
     (if (case tw_prevKey w of None \<Rightarrow> False | Some prev \<Rightarrow> compareBytes key prev \<le> 0) then Some (w, s, Some ErrTableOrder)
      else
      case (case tw_pendingHandle w of
              None \<Rightarrow> Some w
            | Some handle \<Rightarrow> map_option (\<lambda>sep. (addIndexEntry w sep handle)\<lparr>tw_pendingHandle := None\<rparr>) (shortSeparator (tw_pendingKey w) key)) of
        None \<Rightarrow> None
      | Some w \<Rightarrow> Some (case put_flush wr (writer_put w key value) s of
           (w, s, Some e) \<Rightarrow> (w, s, Some e)
         | (w, s, None) \<Rightarrow> (w\<lparr>tw_prevKey := next_prevKey (tw_prevKey w) key\<rparr>, s, None)))"
  by (simp add: Writer_Add_def put_flush_def writer_put_def Let_def split: option.split prod.split)

context io_writer_live
begin

lemma writeBlock_live: "live s \<Longrightarrow> \<exists>w' s' h. writer_writeBlock wr w s d = (w', s', Inr h) \<and> live s'"
  by (auto simp: writer_writeBlock_def Let_def split: prod.splits option.splits dest: wr_live)

lemma flush_live:
  assumes "live s"
  shows "\<exists>w' s'. flushDataBlock wr w s = (w', s', None) \<and> live s'"
proof -
  obtain b d where f: "blockWriter_finish (tw_dataBlock w) = (b, d)" by fastforce
  obtain w1 s1 h where "writer_writeBlock wr (w\<lparr>tw_dataBlock := b\<rparr>) s d = (w1, s1, Inr h)" "live s1"
    using writeBlock_live [OF assms] by blast
  with f show ?thesis by (simp add: flushDataBlock_def)
qed

lemma put_flush_live: "live s \<Longrightarrow> \<exists>w' s'. put_flush wr w s = (w', s', None) \<and> live s'"
  using flush_live [of s w] by (simp add: put_flush_def)

lemma Add_live:
  assumes "live s" and "Writer_Add wr w s k v = Some (w', s', err)"
  shows "live s' \<and> (err = None \<or> err = Some ErrTableOrder)"
proof -
  have "live s2 \<and> e2 = None" if "put_flush wr w2 s = (w3, s2, e2)" for w2 w3 s2 e2
    using put_flush_live [OF assms(1), of w2] that by auto
  with assms show ?thesis unfolding Writer_Add_put by (auto split: if_splits option.splits prod.splits)
qed

lemma adds_live: "live s \<Longrightarrow> table_adds wr w s es = Some (w', s', err) \<Longrightarrow> live s' \<and> (err = None \<or> err = Some ErrTableOrder)"
proof (induction es arbitrary: w s)
  case (Cons e es)
  obtain k v where e: "e = (k, v)" by fastforce
  obtain w1 s1 err1 where a: "Writer_Add wr w s k v = Some (w1, s1, err1)"
    using Cons.prems e by (auto split: option.splits)
  note r = Add_live [OF Cons.prems(1) a]
  show ?case
  proof (cases err1)
    case None
    with Cons.prems a e have "table_adds wr w1 s1 es = Some (w', s', err)" by simp
    from Cons.IH [OF _ this] r show ?thesis by simp
  qed (use Cons.prems a e r in simp)
qed simp

lemma close_tail_live:
  assumes "live s"
  shows "\<exists>w' s' m. close_tail wr w s bf = (w', s', Inr m) \<and> live s'"
proof -
  obtain b1 d1 where f: "blockWriter_finish (tw_indexBlock w) = (b1, d1)" by fastforce
  obtain w1 s1 ih where b1: "writer_writeBlock wr (w\<lparr>tw_indexBlock := b1\<rparr>) s d1 = (w1, s1, Inr ih)" "live s1"
    using writeBlock_live [OF assms] by blast
  define pd where "pd = snd (blockWriter_finish (props_block (w1\<lparr>tw_indexHandle := ih\<rparr>)))"
  obtain w2 s2 ph where b2: "writer_writeBlock wr (w1\<lparr>tw_indexHandle := ih\<rparr>) s1 pd = (w2, s2, Inr ph)" "live s2"
    using writeBlock_live [OF b1(2)] by blast
  define mb where "mb = snd (blockWriter_finish (meta_block (w2\<lparr>tw_propsHandle := ph\<rparr>) (bf \<noteq> [])))"
  obtain w3 s3 mh where b3: "writer_writeBlock wr (w2\<lparr>tw_propsHandle := ph\<rparr>) s2 mb = (w3, s3, Inr mh)" "live s3"
    using writeBlock_live [OF b2(2)] by blast
  obtain s4 n e where "wr s3 (footer_of mh (tw_indexHandle w3)) = (s4, n, e)" by (metis prod_cases3)
  moreover from wr_live [OF b3(2) this] have "live s4" "e = None" by simp_all
  ultimately show ?thesis
    using f b1 b2 b3 by (simp add: close_tail_def writeFooter_def Let_def flip: pd_def mb_def)
qed

lemma Close_live:
  assumes "live s"
  shows "\<exists>w' s' m. Writer_Close wr w s = (w', s', Inr m) \<and> live s'"
proof -
  obtain w1 s1 where f: "(if 0 < bw_nEntries (tw_dataBlock w) then flushDataBlock wr w s else (w, s, None)) = (w1, s1, None)" "live s1"
    using flush_live [OF assms, of w] assms by (cases "0 < bw_nEntries (tw_dataBlock w)") auto
  define w2 where "w2 = (case tw_pendingHandle w1 of None \<Rightarrow> w1
                | Some handle \<Rightarrow> (addIndexEntry w1 (shortSuccessor (tw_pendingKey w1)) handle)\<lparr>tw_pendingHandle := None\<rparr>)"
  define bf where "bf = bloom_finish (tw_bloom w2)"
  have cl: "Writer_Close wr w s =
        (if bf \<noteq> [] then case writer_writeBlock wr w2 s1 bf of (w, s, Inl e) \<Rightarrow> (w, s, Inl e)
              | (w, s, Inr fh) \<Rightarrow> close_tail wr (w\<lparr>tw_filterHandle := fh\<rparr>) s bf
         else close_tail wr w2 s1 bf)"
    using f(1) unfolding Writer_Close_def Let_def bf_def by (simp add: w2_def [symmetric])
  obtain w3 s3 h where "writer_writeBlock wr w2 s1 bf = (w3, s3, Inr h)" "live s3" using writeBlock_live [OF f(2)] by blast
  with close_tail_live [of s3 "w3\<lparr>tw_filterHandle := h\<rparr>" bf] close_tail_live [OF f(2), of w2 bf] show ?thesis
    unfolding cl by (cases "bf = []") auto
qed

text \<open>Sorted entries are written without an error when no write fails.\<close>

lemma write_table_live:
  assumes "live s" and "out s = []" and "sorted_keys es"
  shows "\<exists>s' meta. write_table wr opts s es = Some (s', Inr meta) \<and> live s'"
proof -
  obtain s' res where w: "write_table wr opts s es = Some (s', res)" and io: "case res of Inl e \<Rightarrow> \<exists>io. e = ErrTableIO io | Inr m \<Rightarrow> True"
    using write_table_layout [OF assms(2,3), of opts] by (elim exE conjE) (rule that, auto split: sum.splits)
  obtain w1 s1 err where a: "table_adds wr (NewWriter opts) s es = Some (w1, s1, err)"
    using w by (auto simp: write_table_def split: option.splits)
  note l = adds_live [OF assms(1) a]
  show ?thesis
  proof (cases err)
    case None
    with Close_live [of s1 w1] l a show ?thesis by (auto simp: write_table_def)
  next
    case (Some e)
    with l a w io show ?thesis by (auto simp: write_table_def)
  qed
qed

end

section \<open>The size of a table\<close>

text \<open>A bound on the size of the file in terms of the entries: offsets in a table are 32 bits wide in
  the restart points of a block, so the properties ask for tables below 4 GB.\<close>

definition table_bound :: "WriterOptions \<Rightarrow> kv list \<Rightarrow> nat" where
  "table_bound opts es =
     600 + sum_list (map (\<lambda>e. 120 + 2 * length (fst e) + length (snd e)) es) +
     64 * calcNLines (length es) (nat (wo_BloomBitsPerKey (writer_options opts)))"

lemma length_encodeHandle: "length (encodeHandle h) \<le> 20"
  by (simp add: encodeHandle_eq length_handle_encode)

lemma length_blocks_bytes:
  "[] \<notin> set blks \<Longrightarrow> length (blocks_bytes r blks) \<le> sum_list (map (\<lambda>e. 43 + length (fst e) + length (snd e)) (concat blks))"
proof (induction blks)
  case (Cons b blks)
  have "sum_list (map (\<lambda>e. 43 + length (fst e) + length (snd e)) b) =
      sum_list (map (\<lambda>e. 34 + length (fst e) + length (snd e)) b) + 9 * length b"
    by (induction b) simp_all
  moreover have "9 \<le> 9 * length b" using Cons.prems by (cases b) auto
  ultimately show ?case using length_block_bound [of r b] Cons by (simp add: blocks_bytes_def del: mult_Suc_right)
qed (simp add: blocks_bytes_def)

lemma sum_list_map_concat: "sum_list (map f (concat bs)) = sum_list (map (\<lambda>b. sum_list (map f b)) bs)" for f :: "'a \<Rightarrow> nat"
  by (induction bs) simp_all

lemma length_index:
  assumes "length seps = length blks" and "short_seps blks seps" and "[] \<notin> set blks"
  shows "sum_list (map (\<lambda>e. 34 + length (fst e) + length (snd e)) (index_of r blks seps)) \<le>
    sum_list (map (\<lambda>e. 54 + length (fst e)) (concat blks))"
proof -
  let ?f = "\<lambda>i. 34 + length (seps ! i) + length (encodeHandle (handle_of r blks i))"
    and ?g = "\<lambda>i. sum_list (map (\<lambda>e. 54 + length (fst e)) (blks ! i))"
  have "?f i \<le> ?g i" if i: "i < length blks" for i
  proof -
    have ne: "blks ! i \<noteq> []" using assms(3) i by (metis nth_mem)
    have "54 + length (fst (last (blks ! i))) \<le> ?g i"
      by (rule member_le_sum_list) (use ne in \<open>auto intro!: imageI\<close>)
    moreover have "length (seps ! i) \<le> length (fst (last (blks ! i)))" using assms(1,2) i by (simp add: short_seps_def)
    ultimately show ?thesis using length_encodeHandle [of "handle_of r blks i"] by linarith
  qed
  then have "sum_list (map ?f [0..<length blks]) \<le> sum_list (map ?g [0..<length blks])"
    by (intro sum_list_mono) simp
  moreover have "sum_list (map ?g [0..<length blks]) = sum_list (map (\<lambda>e. 54 + length (fst e)) (concat blks))"
  proof -
    have "map ?g [0..<length blks] = map (\<lambda>b. sum_list (map (\<lambda>e. 54 + length (fst e)) b)) blks"
      by (rule nth_equalityI) simp_all
    then show ?thesis unfolding sum_list_map_concat by (rule arg_cong)
  qed
  ultimately show ?thesis by (simp add: index_of_def assms(1) comp_def)
qed

lemma length_table:
  assumes "table_of file es (bloom_of opts es) r blks seps"
  shows "length file \<le> table_bound opts es"
proof -
  let ?bf = "bloom_of opts es" and ?ib = "block_of 1 (index_of r blks seps)"
  obtain pd where pd: "length pd \<le> 200 + length es" and f: "file = table_file (blocks_bytes r blks) ?bf ?ib pd"
    and t: "[] \<notin> set blks" "concat blks = es" "length seps = length blks" "short_seps blks seps"
    using assms by (auto simp: table_of_def)
  have mb: "length (block_of 1 (meta_entries ?bf a pd b)) \<le> 200" for a b
    using length_block_bound [of 1 "meta_entries ?bf a pd b"] length_encodeHandle [of "span a ?bf"] length_encodeHandle [of "span b pd"]
    by (auto simp: meta_entries_def filter_name_def props_name_def ascii_def)
  have fb: "length (filter_bytes ?bf) \<le> 64 * calcNLines (length es) (nat (wo_BloomBitsPerKey (writer_options opts))) + 10"
    by (auto simp: filter_bytes_def bloom_of_def length_bloom_finish cacheLineSize_def)
  have d: "length (blocks_bytes r blks) \<le> sum_list (map (\<lambda>e. 43 + length (fst e) + length (snd e)) es)"
    using length_blocks_bytes [OF t(1), of r] t(2) by simp
  have i: "length ?ib \<le> sum_list (map (\<lambda>e. 54 + length (fst e)) es) + 4"
    using length_block_bound [of 1 "index_of r blks seps"] length_index [OF t(3,4,1), of r] t(2) by simp
  have "sum_list (map (\<lambda>e. 120 + 2 * length (fst e) + length (snd e)) es) =
      sum_list (map (\<lambda>e. 43 + length (fst e) + length (snd e)) es) + sum_list (map (\<lambda>e. 54 + length (fst e)) es) + 23 * length es"
    by (induction es) simp_all
  moreover define mb where "mb = block_of 1 (meta_entries ?bf (length (blocks_bytes r blks)) pd
      (length (blocks_bytes r blks @ filter_bytes ?bf) + length (raw_block ?ib)))"
  moreover have "length file = length (blocks_bytes r blks) + length (filter_bytes ?bf) + length ?ib + length pd + length mb + 63"
    unfolding f table_file_def Let_def mb_def by (simp add: length_footer)
  moreover have "length mb \<le> 200" unfolding mb_def by (rule mb)
  ultimately show ?thesis unfolding table_bound_def using pd fb d i by linarith
qed

section \<open>Tables in files\<close>

definition fresh_file :: "os \<times> fd \<Rightarrow> bool" where
  "fresh_file = (\<lambda>(s, h). fd_open h \<and> fd_pos h = 0 \<and> fdata (file_of s (fd_name h)) = [])"

definition file_bytes :: "os \<times> fd \<Rightarrow> bytes" where
  "file_bytes = (\<lambda>(s, h). fdata (file_of s (fd_name h)))"

lemma write_table_file:
  assumes new: "fresh_file sh" and srt: "sorted_keys es" and wt: "write_table file_Write opts sh es = Some (sh', res)"
  shows "file_frame sh sh'" "faults (fst sh) = [] \<Longrightarrow> \<exists>meta. res = Inr meta" "res = Inl e \<Longrightarrow> \<exists>io. e = ErrTableIO io"
    "res = Inr meta \<Longrightarrow> \<exists>blks seps. table_of (file_bytes sh') es (bloom_of opts es) (interval_of opts) blks seps \<and>
       table_meta_of meta (file_bytes sh') es (length blks)"
proof -
  have out: "file_out sh = []" using new by (cases sh) (simp add: fresh_file_def file_out_def)
  show fr: "file_frame sh sh'" by (rule ff.write_table_frame [OF wt])
  have "no_tail sh" using new by (auto simp: fresh_file_def no_tail_def)
  then have nt: "no_tail sh'" using fr by (cases sh, cases sh') (simp add: file_frame_def)
  then have fb: "file_bytes sh' = file_out sh'" by (cases sh') (simp add: file_bytes_def no_tail_out)
  show "\<exists>meta. res = Inr meta" if "faults (fst sh) = []"
    using fl.write_table_live [of sh es opts] that new out srt wt by (auto simp: fresh_file_def)
  show "\<exists>io. e = ErrTableIO io" if "res = Inl e"
    using fw.write_table_layout [OF out srt, of opts] wt that by auto
  show "\<exists>blks seps. table_of (file_bytes sh') es (bloom_of opts es) (interval_of opts) blks seps \<and>
       table_meta_of meta (file_bytes sh') es (length blks)" if "res = Inr meta"
    using fw.write_table_layout [OF out srt, of opts] wt that unfolding fb by simp
qed

text \<open>The reader that opens a written table, and what it knows.\<close>

lemma open_written:
  assumes new: "fresh_file sh" and srt: "sorted_keys es" and wt: "write_table file_Write opts sh es = Some (sh', Inr meta)"
    and small: "table_bound opts es < 2 ^ 32" and fb: "fb = file_bytes sh'"
  obtains tr r blks seps where "NewReader (bytes_ReadAt fb) (int (length fb)) fid = Some (Inr tr)"
    and "open_table [fid \<mapsto> (r, blks)] (bytes_ReadAt fb) tr r blks seps" and "concat blks = es"
    and "\<And>k. k \<in> fst ` set es \<Longrightarrow> tr_filter tr \<noteq> None \<Longrightarrow> mayContain (tr_filter tr) k"
proof -
  obtain blks seps where t: "table_of fb es (bloom_of opts es) (interval_of opts) blks seps"
    using write_table_file(4) [OF new srt wt refl] fb by blast
  have l: "length fb < 2 ^ 32" using length_table [OF t] small by simp
  obtain tr where nr: "NewReader (bytes_ReadAt fb) (int (length fb)) fid = Some (Inr tr)"
      "reader_of fb fid (bloom_of opts es) (interval_of opts) blks seps tr"
    using NewReader_of [OF t l] by blast
  have "open_table [fid \<mapsto> (interval_of opts, blks)] (bytes_ReadAt fb) tr (interval_of opts) blks seps"
    using t l nr(2) by (auto simp: open_table_def reader_of_def)
  moreover have "mayContain (tr_filter tr) k" if k: "k \<in> fst ` set es" "tr_filter tr \<noteq> None" for k
  proof -
    let ?bits = "nat (wo_BloomBitsPerKey (writer_options opts))"
    have n: "calcNLines (length (map fst es)) ?bits < 2 ^ 32" using small by (simp add: table_bound_def)
    have "map (\<lambda>e. bloomHash (fst e)) es = map bloomHash (map fst es)" by simp
    then have "bloom_of opts es = bloom_finish \<lparr>bw_hashes = map bloomHash (map fst es), bw_bitsPerKey = ?bits\<rparr>" by (simp only: bloom_of_def)
    with bloom_contains [OF _ n, of k] k nr(2) show ?thesis by (auto simp: reader_of_def split: if_splits)
  qed
  moreover have "concat blks = es" using t by (simp add: table_of_def)
  ultimately show ?thesis using that nr(1) by blast
qed

text \<open>Several lookups one after the other through one cache.\<close>

fun table_gets :: "reader_at \<Rightarrow> table_reader \<Rightarrow> BlockCache option \<Rightarrow> bytes list \<Rightarrow> (BlockCache option \<times> (sst_error + bytes) list) option" where
  "table_gets rd tr cache [] = Some (cache, [])"
| "table_gets rd tr cache (k # ks) =
     (case Reader_Get rd tr cache k of
        None \<Rightarrow> None
      | Some (cache, x) \<Rightarrow> map_option (\<lambda>(cache, xs). (cache, x # xs)) (table_gets rd tr cache ks))"

lemma table_gets_at:
  assumes tab: "open_table T rd tr r blks seps"
    and filt: "\<And>k. k \<in> fst ` set (concat blks) \<Longrightarrow> tr_filter tr \<noteq> None \<Longrightarrow> mayContain (tr_filter tr) k"
  shows "cache_good T cache \<Longrightarrow> \<exists>cache'. table_gets rd tr cache ks =
    Some (cache', map (\<lambda>k. case map_of (concat blks) k of None \<Rightarrow> Inl ErrTableNotFound | Some v \<Rightarrow> Inr v) ks)"
proof (induction ks arbitrary: cache)
  case (Cons k ks)
  obtain c where g: "Reader_Get rd tr cache k = Some (c, case map_of (concat blks) k of None \<Rightarrow> Inl ErrTableNotFound | Some v \<Rightarrow> Inr v)"
      "cache_good T c"
    using Get_at [OF tab Cons.prems filt, of k] by blast
  with Cons.IH [OF g(2)] show ?case by auto
qed simp

lemma new_cache_good: "cache_good T (Some (NewBlockCache cap))"
proof -
  have "cache_rep (NewBlockCache cap) []" by (auto simp: cache_rep_def cache_at_def links_def NewBlockCache_def)
  then show ?thesis by (auto simp: cache_good_def coherent_def)
qed

section \<open>Properties\<close>

text \<open>C27: Writing sorted entries to a new file never panics and never reports an order error. It touches
  no other file. It succeeds when no system call fails, and its only error is that of a failed write.
  The metadata returned give the size of the file, the number of entries, and the smallest and
  largest key.\<close>

theorem table_write:
  assumes "fresh_file (s, h)" and "sorted_keys es" and "length es < 2 ^ 64"
  shows "\<exists>s' h' res. write_table file_Write opts (s, h) es = Some ((s', h'), res) \<and>
    (\<forall>n. n \<noteq> fd_name h \<longrightarrow> file_of s' n = file_of s n) \<and>
    (faults s = [] \<longrightarrow> (\<exists>meta. res = Inr meta)) \<and>
    (case res of
       Inl e \<Rightarrow> \<exists>io. e = ErrTableIO io
     | Inr meta \<Rightarrow> tm_Size meta = of_nat (length (file_bytes (s', h'))) \<and> tm_KeyCount meta = of_nat (length es) \<and>
         (es \<noteq> [] \<longrightarrow> tm_SmallestKey meta = fst (hd es) \<and> tm_LargestKey meta = fst (last es)))"
proof -
  have out: "file_out (s, h) = []" using assms(1) by (simp add: fresh_file_def file_out_def)
  obtain s' h' res where w: "write_table file_Write opts (s, h) es = Some ((s', h'), res)"
    using fw.write_table_layout [OF out assms(2), of opts] by auto
  note f = write_table_file [OF assms(1,2) w]
  have "\<forall>n. n \<noteq> fd_name h \<longrightarrow> file_of s' n = file_of s n" using f(1) by (simp add: file_frame_def same_dir_def)
  moreover have "case res of
       Inl e \<Rightarrow> \<exists>io. e = ErrTableIO io
     | Inr meta \<Rightarrow> tm_Size meta = of_nat (length (file_bytes (s', h'))) \<and> tm_KeyCount meta = of_nat (length es) \<and>
         (es \<noteq> [] \<longrightarrow> tm_SmallestKey meta = fst (hd es) \<and> tm_LargestKey meta = fst (last es))"
    using f(3,4) assms(3) by (cases res) (auto simp: table_meta_of_def)
  ultimately show ?thesis using w f(2) by auto
qed

definition demo_file :: "os \<times> fd" where
  "demo_file = (\<lparr>files = [(''1'', \<lparr>fdata = [], fsynced = [], fisdir = False\<rparr>)], faults = []\<rparr>, \<lparr>fd_name = ''1'', fd_pos = 0, fd_open = True\<rparr>)"

definition demo_entries :: "kv list" where
  "demo_entries = [([1], [10]), ([1, 2], [20]), ([3], [])]"

lemma demo_ok: "fresh_file demo_file" "sorted_keys demo_entries" "table_bound DefaultWriterOptions demo_entries < 2 ^ 32"
  by (simp_all add: demo_file_def demo_entries_def fresh_file_def file_of_def table_bound_def calcNLines_def cacheLineBits_def
      writer_options_def DefaultWriterOptions_def)

lemma demo_written: "\<exists>sh' meta. write_table file_Write DefaultWriterOptions demo_file demo_entries = Some (sh', Inr meta)"
proof -
  have "file_out demo_file = []" "case demo_file of (s, h) \<Rightarrow> faults s = [] \<and> fd_open h"
    by (simp_all add: demo_file_def file_out_def)
  with fl.write_table_live [of demo_file demo_entries DefaultWriterOptions] demo_ok(2) show ?thesis by blast
qed

theorem table_write_witness:
  "\<exists>s' h' meta. write_table file_Write DefaultWriterOptions demo_file demo_entries = Some ((s', h'), Inr meta) \<and> tm_KeyCount meta = 3 \<and>
     tm_SmallestKey meta = [1] \<and> tm_LargestKey meta = [3]"
proof -
  obtain s h where d: "demo_file = (s, h)" by fastforce
  have f: "faults s = []" using d by (auto simp: demo_file_def)
  have l: "length demo_entries < 2 ^ 64" by (simp add: demo_entries_def)
  from table_write [OF demo_ok(1) [unfolded d] demo_ok(2) l, of DefaultWriterOptions] obtain s' h' res where
      w: "write_table file_Write DefaultWriterOptions (s, h) demo_entries = Some ((s', h'), res)" "faults s = [] \<longrightarrow> (\<exists>meta. res = Inr meta)"
    and c: "case res of Inl e \<Rightarrow> \<exists>io. e = ErrTableIO io
     | Inr meta \<Rightarrow> tm_Size meta = of_nat (length (file_bytes (s', h'))) \<and> tm_KeyCount meta = of_nat (length demo_entries) \<and>
         (demo_entries \<noteq> [] \<longrightarrow> tm_SmallestKey meta = fst (hd demo_entries) \<and> tm_LargestKey meta = fst (last demo_entries))"
    by (elim exE conjE) (rule that)
  obtain meta where m: "res = Inr meta" using w(2) f by blast
  with w(1) c show ?thesis unfolding d
    by (intro exI [of _ s'] exI [of _ h'] exI [of _ meta]) (simp add: demo_entries_def)
qed

text \<open>C25: Writing a table and reading it back. A table written from sorted entries opens, and every lookup
  in it finds exactly the value of its key or reports that there is none, whatever lookups came
  before it through a block cache of any capacity: neither the index separators nor the Bloom filter
  nor the cache lose or invent an entry.\<close>

theorem table_get:
  assumes "fresh_file sh" and "sorted_keys es" and "write_table file_Write opts sh es = Some (sh', Inr meta)"
    and "table_bound opts es < 2 ^ 32"
  shows "\<exists>tr. NewReader (bytes_ReadAt (file_bytes sh')) (int (length (file_bytes sh'))) fid = Some (Inr tr) \<and>
    (\<exists>c. table_gets (bytes_ReadAt (file_bytes sh')) tr (Some (NewBlockCache cap)) ks =
       Some (c, map (\<lambda>k. case map_of es k of None \<Rightarrow> Inl ErrTableNotFound | Some v \<Rightarrow> Inr v) ks))"
proof -
  obtain tr r blks seps where o: "NewReader (bytes_ReadAt (file_bytes sh')) (int (length (file_bytes sh'))) fid = Some (Inr tr)"
    "open_table [fid \<mapsto> (r, blks)] (bytes_ReadAt (file_bytes sh')) tr r blks seps" "concat blks = es"
    "\<And>k. k \<in> fst ` set es \<Longrightarrow> tr_filter tr \<noteq> None \<Longrightarrow> mayContain (tr_filter tr) k"
    using open_written [OF assms refl] by blast
  from table_gets_at [OF o(2) _ new_cache_good, of cap ks] o show ?thesis by auto
qed

theorem table_get_witness:
  "\<exists>sh' meta tr c. write_table file_Write DefaultWriterOptions demo_file demo_entries = Some (sh', Inr meta) \<and>
     NewReader (bytes_ReadAt (file_bytes sh')) (int (length (file_bytes sh'))) 7 = Some (Inr tr) \<and>
     table_gets (bytes_ReadAt (file_bytes sh')) tr (Some (NewBlockCache 100)) [[1, 2], [2], [1]] =
       Some (c, [Inr [20], Inl ErrTableNotFound, Inr [10]])"
proof -
  obtain sh' meta where w: "write_table file_Write DefaultWriterOptions demo_file demo_entries = Some (sh', Inr meta)"
    using demo_written by blast
  from table_get [OF demo_ok(1,2) w demo_ok(3), of 7 100 "[[1, 2], [2], [1]]"] w show ?thesis
    by (auto simp: demo_entries_def)
qed

text \<open>C26: Iterating over a table. From the first entry on, the two-level iterator yields exactly the entries
  of the table in order, across block boundaries; after a seek it yields exactly those whose key is
  not below the target. Both hold through a block cache of any capacity, and the iteration ends after
  as many steps as there are entries.\<close>

theorem table_iterate:
  assumes "fresh_file sh" and "sorted_keys es" and "write_table file_Write opts sh es = Some (sh', Inr meta)"
    and "table_bound opts es < 2 ^ 32" and "fb = file_bytes sh'"
  shows "\<exists>tr. NewReader (bytes_ReadAt fb) (int (length fb)) fid = Some (Inr tr) \<and>
    (\<exists>c. read_rest table_Next (\<lambda>i. ti_Key (snd (snd i))) (\<lambda>i. ti_Value (snd (snd i))) (length es)
       (table_First (bytes_ReadAt fb, tr, it) (Some (NewBlockCache cap))) = Some (es, c)) \<and>
    (\<exists>c. read_rest table_Next (\<lambda>i. ti_Key (snd (snd i))) (\<lambda>i. ti_Value (snd (snd i))) (length es)
       (table_SeekGE (bytes_ReadAt fb, tr, it) (Some (NewBlockCache cap)) target) = Some (dropWhile (\<lambda>e. fst e < target) es, c))"
proof -
  obtain tr r blks seps where o: "NewReader (bytes_ReadAt fb) (int (length fb)) fid = Some (Inr tr)"
    "open_table [fid \<mapsto> (r, blks)] (bytes_ReadAt fb) tr r blks seps" "concat blks = es"
    using open_written [OF assms, of fid thesis] by blast
  have src: "table_src [fid \<mapsto> (r, blks)] (bytes_ReadAt fb, tr, it) es" using o(2,3) by (auto simp: table_src_def)
  obtain c where f: "read_rest table_Next (\<lambda>i. ti_Key (snd (snd i))) (\<lambda>i. ti_Value (snd (snd i))) (length es)
       (table_First (bytes_ReadAt fb, tr, it) (Some (NewBlockCache cap))) = Some (es, c)"
    using tab.read_first [OF src new_cache_good order_refl, of cap] by (elim exE conjE) (rule that)
  obtain c' where s: "read_rest table_Next (\<lambda>i. ti_Key (snd (snd i))) (\<lambda>i. ti_Value (snd (snd i))) (length es)
       (table_SeekGE (bytes_ReadAt fb, tr, it) (Some (NewBlockCache cap)) target) = Some (dropWhile (\<lambda>e. fst e < target) es, c')"
    using tab.read_seek [OF src new_cache_good order_refl, of cap target] by (elim exE conjE) (rule that)
  from f s show ?thesis by (intro exI [of _ tr] conjI o(1) exI [of _ c] exI [of _ c'])
qed

theorem table_iterate_witness:
  "\<exists>sh' meta tr c. write_table file_Write DefaultWriterOptions demo_file demo_entries = Some (sh', Inr meta) \<and>
     NewReader (bytes_ReadAt (file_bytes sh')) (int (length (file_bytes sh'))) 7 = Some (Inr tr) \<and>
     read_rest table_Next (\<lambda>i. ti_Key (snd (snd i))) (\<lambda>i. ti_Value (snd (snd i))) (length demo_entries)
       (table_SeekGE (bytes_ReadAt (file_bytes sh'), tr, Reader_NewIterator) (Some (NewBlockCache 100)) [1, 1]) =
       Some ([([1, 2], [20]), ([3], [])], c)"
proof -
  obtain sh' meta where w: "write_table file_Write DefaultWriterOptions demo_file demo_entries = Some (sh', Inr meta)"
    using demo_written by blast
  have "dropWhile (\<lambda>e. fst e < [1, 1]) demo_entries = [([1, 2], [20]), ([3], [])]" by (simp add: demo_entries_def)
  with table_iterate [OF demo_ok(1,2) w demo_ok(3) refl, of 7 Reader_NewIterator 100 "[1, 1]"] w show ?thesis by auto
qed

end
