(* ===== verification/Arena.thy ===== *)
theory Arena
  imports Prelude
begin

unbundle bit_operations_syntax

text \<open>
  The bump allocator of \<^verbatim>\<open>pkg/lsm/arena/arena.go\<close>. The only shared word is the atomic counter
  \<^verbatim>\<open>n\<close>, and \<^verbatim>\<open>Alloc\<close> touches it in one atomic add, so concurrent allocations are
  the sequences of \<open>arena_Alloc\<close> in the order of their adds. Slices out of range panic in Go:
  \<open>None\<close>. The lemmas show that the regions handed out are aligned, inside the buffer and disjoint.
\<close>

section \<open>Operations\<close>

datatype arena_error = ErrFull

record arena =
  arena_n :: u64
  arena_buf :: bytes

definition NodeAlignment :: u32 where
  "NodeAlignment = 4"

definition arena_maxSize :: nat where
  "arena_maxSize = 2 ^ 32 - 1"

definition arena_New :: "bytes \<Rightarrow> arena" where
  "arena_New b = \<lparr>arena_n = 1, arena_buf = (if arena_maxSize < length b then take arena_maxSize b else b)\<rparr>"

definition arena_Alloc :: "arena \<Rightarrow> u32 \<Rightarrow> u32 \<Rightarrow> arena \<times> (arena_error + u32)" where
  "arena_Alloc a sz alignment =
     (let padded = (ucast sz :: u64) + ucast alignment - 1;
          newSize = arena_n a + padded;
          a = a\<lparr>arena_n := newSize\<rparr>
      in if length (arena_buf a) < unat newSize then (a, Inl ErrFull)
         else (a, Inr ((ucast newSize - sz) AND NOT (alignment - 1))))"

definition arena_GetBytes :: "arena \<Rightarrow> u32 \<Rightarrow> u32 \<Rightarrow> bytes option" where
  "arena_GetBytes a offset sz =
     (if offset = 0 then Some []
      else if unat offset \<le> unat (offset + sz) \<and> unat (offset + sz) \<le> length (arena_buf a)
      then Some (take (unat (offset + sz) - unat offset) (drop (unat offset) (arena_buf a)))
      else None)"

definition arena_PutBytes :: "arena \<Rightarrow> u32 \<Rightarrow> bytes \<Rightarrow> arena option" where
  "arena_PutBytes a offset src =
     (let hi = unat (offset + of_nat (length src))
      in if unat offset \<le> hi \<and> hi \<le> length (arena_buf a)
         then Some (a\<lparr>arena_buf := take (unat offset) (arena_buf a) @ take (hi - unat offset) src @
                drop (unat offset + min (hi - unat offset) (length src)) (arena_buf a)\<rparr>)
         else None)"

definition arena_Size :: "arena \<Rightarrow> u32" where
  "arena_Size a = (if length (arena_buf a) < unat (arena_n a) then of_nat (length (arena_buf a)) else ucast (arena_n a))"

definition arena_Capacity :: "arena \<Rightarrow> u32" where
  "arena_Capacity a = of_nat (length (arena_buf a))"

definition arena_Reset :: "arena \<Rightarrow> arena" where
  "arena_Reset a = a\<lparr>arena_n := 1\<rparr>"

text \<open>A sequence of allocations, in the order of their atomic adds, with the offset, size and
  alignment of those that succeed.\<close>

fun arena_allocs :: "arena \<Rightarrow> (u32 \<times> u32) list \<Rightarrow> arena \<times> (u32 \<times> u32 \<times> u32) list" where
  "arena_allocs a [] = (a, [])"
| "arena_allocs a ((sz, al) # reqs) =
     (case arena_Alloc a sz al of
        (a, Inl e) \<Rightarrow> arena_allocs a reqs
      | (a, Inr off) \<Rightarrow> (case arena_allocs a reqs of (a, rs) \<Rightarrow> (a, (off, sz, al) # rs)))"

section \<open>Alignment\<close>

lemma and_not_mask: "x AND NOT (mask k) = x - take_bit k (x :: u32)"
proof -
  have "x = (x AND NOT (mask k)) OR take_bit k x"
    by (rule bit_word_eqI) (auto simp: bit_simps)
  also have "\<dots> = (x AND NOT (mask k)) + take_bit k x"
    by (rule disjunctive_add [symmetric]) (auto simp: bit_simps)
  finally show ?thesis by (metis add_diff_cancel_right')
qed

lemma unat_align:
  "unat (x AND NOT (2 ^ k - 1) :: u32) = unat x - unat x mod 2 ^ k"
proof -
  have "unat (take_bit k x) = unat x mod 2 ^ k" 
    unfolding unsigned_take_bit_eq by (simp add: take_bit_eq_mod)
  moreover from this have "take_bit k x \<le> x" by (simp add: word_le_nat_alt)
  ultimately show ?thesis
    by (simp add: mask_eq_exp_minus_1 [symmetric] and_not_mask unat_sub)
qed

lemma align_up_bounds:
  fixes n al :: nat
  assumes "0 < al"
  shows "n \<le> (n + al - 1) - (n + al - 1) mod al" and "((n + al - 1) - (n + al - 1) mod al) mod al = 0"
proof -
  show "n \<le> (n + al - 1) - (n + al - 1) mod al" using mod_less_divisor [OF assms, of "n + al - 1"] assms by linarith
  show "((n + al - 1) - (n + al - 1) mod al) mod al = 0" by (simp add: minus_mod_eq_mult_div)
qed

section \<open>Allocation\<close>

definition arena_inv :: "arena \<Rightarrow> bool" where
  "arena_inv a \<longleftrightarrow> 1 \<le> unat (arena_n a) \<and> length (arena_buf a) \<le> arena_maxSize"

lemma arena_inv_New: "arena_inv (arena_New b)"
  by (auto simp: arena_inv_def arena_New_def)

lemma unat_pow2_u32: "k < 32 \<Longrightarrow> unat ((2 :: u32) ^ k) = 2 ^ k"
  using unsigned_less [of "(2::u32) ^ k", where ?'a = nat]
  by (simp add: unsigned_of_nat [of "2 ^ k", simplified] take_bit_nat_eq_self_iff)

lemma arena_n_Alloc:
  assumes "arena_Alloc a sz al = (a', res)" and "unat (arena_n a) + unat sz + unat al < 2 ^ 64" and "0 < al"
  shows "unat (arena_n a') = unat (arena_n a) + unat sz + unat al - 1 \<and> arena_buf a' = arena_buf a"
proof -
  have uc: "unat (ucast w :: u64) = unat w" for w :: u32
    using unsigned_less [of w, where ?'a = nat] by (simp add: unsigned_ucast_eq take_bit_nat_eq_self)
  have al: "1 \<le> unat al" using assms(3) by (simp add: word_less_nat_alt)
  have "arena_n a + ((ucast sz :: u64) + ucast al - 1) = of_nat (unat (arena_n a) + unat sz + unat al - 1)"
    using al by (simp add: of_nat_diff uc [symmetric] del: unsigned_ucast_eq)
  moreover have "unat (of_nat (unat (arena_n a) + unat sz + unat al - 1) :: u64) = unat (arena_n a) + unat sz + unat al - 1"
    using assms(2) by (simp add: unsigned_of_nat take_bit_nat_eq_self)
  ultimately show ?thesis
    using assms(1) by (auto simp del: of_nat_add of_nat_diff simp: arena_Alloc_def Let_def split: if_splits)
qed

lemma arena_Alloc_region:
  assumes inv: "arena_inv a" and al: "al = 2 ^ k" "k < 32"
    and alloc: "arena_Alloc a sz al = (a', Inr off)" and nw: "unat (arena_n a) + unat sz + unat al < 2 ^ 64"
  shows "unat (arena_n a) \<le> unat off" and "unat off + unat sz \<le> unat (arena_n a')"
    and "unat (arena_n a') \<le> length (arena_buf a)" and "unat off mod unat al = 0"
proof -
  have ual: "unat al = 2 ^ k" using al by (simp add: unat_pow2_u32)
  then have pos: "0 < al" by (simp add: word_less_nat_alt)
  from arena_n_Alloc [OF alloc nw pos]
  have n': "unat (arena_n a') = unat (arena_n a) + unat sz + 2 ^ k - 1" using ual by simp
  have fits: "unat (arena_n a') \<le> length (arena_buf a)" and off: "off = (ucast (arena_n a') - sz) AND NOT (al - 1)"
    using alloc by (auto simp: arena_Alloc_def Let_def split: if_splits)
  show "unat (arena_n a') \<le> length (arena_buf a)" by (rule fits)
  have "unat (arena_n a') < 2 ^ 32" using fits inv by (simp add: arena_inv_def arena_maxSize_def)
  then have u: "unat (ucast (arena_n a') :: u32) = unat (arena_n a')"
    by (simp add: unsigned_ucast_eq take_bit_nat_eq_self)
  have "sz \<le> ucast (arena_n a')" using u n' le_add_diff [of 1 "2 ^ k" "unat (arena_n a) + unat sz"]
    by (simp add: word_le_nat_alt)
  then have d: "unat ((ucast (arena_n a') :: u32) - sz) = unat (arena_n a) + 2 ^ k - 1"
    using u n' by (simp add: unat_sub)
  have o: "unat off = (unat (arena_n a) + 2 ^ k - 1) - (unat (arena_n a) + 2 ^ k - 1) mod 2 ^ k"
    using off unat_align [of "ucast (arena_n a') - sz" k] by (simp only: al(1) d)
  show "unat (arena_n a) \<le> unat off" "unat off mod unat al = 0"
    using align_up_bounds [of "2 ^ k" "unat (arena_n a)"] by (simp_all add: o ual)
  show "unat off + unat sz \<le> unat (arena_n a')" 
  proof -
    have "unat off \<le> unat (arena_n a) + 2 ^ k - 1" by (simp only: o diff_le_self)
    moreover have "(1 :: nat) \<le> 2 ^ k" by simp
    ultimately show ?thesis using n' by linarith
  qed
qed

text \<open>The requests of a sequence: every alignment is a power of two.\<close>

definition pow2_aligned :: "(u32 \<times> u32) list \<Rightarrow> bool" where
  "pow2_aligned reqs \<longleftrightarrow> (\<forall>q\<in>set reqs. \<exists>k<32. snd q = 2 ^ k)"

definition region_ok :: "nat \<Rightarrow> bytes \<Rightarrow> u32 \<times> u32 \<times> u32 \<Rightarrow> bool" where
  "region_ok lo b r \<longleftrightarrow> lo \<le> unat (fst r) \<and> unat (fst r) + unat (fst (snd r)) \<le> length b \<and>
     unat (fst r) mod unat (snd (snd r)) = 0"

definition before :: "u32 \<times> u32 \<times> u32 \<Rightarrow> u32 \<times> u32 \<times> u32 \<Rightarrow> bool" where
  "before r r' \<longleftrightarrow> unat (fst r) + unat (fst (snd r)) \<le> unat (fst r')"

lemma arena_allocs_regions:
  assumes "arena_inv a" and "pow2_aligned reqs" and "unat (arena_n a) + length reqs * 2 ^ 33 < 2 ^ 64"
    and "arena_allocs a reqs = (a', rs)"
  shows "arena_buf a' = arena_buf a \<and> (\<forall>r\<in>set rs. region_ok (unat (arena_n a)) (arena_buf a) r) \<and> sorted_wrt before rs"
  using assms
proof (induction reqs arbitrary: a rs)
  case (Cons q reqs)
  obtain sz al where q: "q = (sz, al)" by (cases q)
  from Cons.prems(2) q obtain k where al: "al = 2 ^ k" "k < 32" and rest: "pow2_aligned reqs"
    by (auto simp: pow2_aligned_def)
  have small: "unat sz < 2 ^ 32" "unat al < 2 ^ 32" "0 < al"
    using unsigned_less [of sz, where ?'a = nat] unsigned_less [of al, where ?'a = nat] al
    by (auto simp: word_less_nat_alt unat_pow2_u32)
  with Cons.prems(3) have nw: "unat (arena_n a) + unat sz + unat al < 2 ^ 64" by simp
  obtain a1 res where a1: "arena_Alloc a sz al = (a1, res)" by fastforce
  note n1 = arena_n_Alloc [OF a1 nw small(3)]
  have inv1: "arena_inv a1" 
  proof -
    have "1 \<le> unat (arena_n a)" "1 \<le> unat al" using Cons.prems(1) small(3) by (simp_all add: arena_inv_def word_less_nat_alt)
    then show ?thesis using Cons.prems(1) n1 by (simp add: arena_inv_def)
  qed
  have bud: "unat (arena_n a1) + length reqs * 2 ^ 33 < 2 ^ 64" using Cons.prems(3) n1 small by simp
  have mono: "unat (arena_n a) \<le> unat (arena_n a1)" using n1 small(3) by (simp add: word_less_nat_alt)
  show ?case
  proof (cases res)
    case (Inl e)
    then have "arena_allocs a1 reqs = (a', rs)" using Cons.prems(4) by (simp add: q a1)
    from Cons.IH [OF inv1 rest bud this] mono n1 show ?thesis by (auto simp: region_ok_def)
  next
    case (Inr off)
    then obtain rs1 where rec: "arena_allocs a1 reqs = (a', rs1)" and rs: "rs = (off, sz, al) # rs1"
      using Cons.prems(4) by (auto simp: q a1 split: prod.splits)
    note reg = arena_Alloc_region [OF Cons.prems(1) al a1 [unfolded Inr] nw]
    from Cons.IH [OF inv1 rest bud rec] mono n1 reg rs show ?thesis
      by (fastforce simp: region_ok_def before_def)
  qed
qed simp

section \<open>Access\<close>

lemma region_end:
  assumes "unat off + n \<le> length b" and "length b \<le> arena_maxSize"
  shows "unat (off + of_nat n :: u32) = unat off + n"
proof -
  have "unat off + n < 2 ^ 32" using assms by (simp add: arena_maxSize_def)
  moreover have "off + of_nat n = of_nat (unat off + n)" by simp
  ultimately show ?thesis by (simp only: unsigned_of_nat) (simp add: take_bit_nat_eq_self)
qed

lemma arena_PutBytes_region:
  assumes "unat off + length src \<le> length (arena_buf a)" and "length (arena_buf a) \<le> arena_maxSize"
  shows "arena_PutBytes a off src =
    Some (a\<lparr>arena_buf := take (unat off) (arena_buf a) @ src @ drop (unat off + length src) (arena_buf a)\<rparr>)"
  using assms by (simp add: arena_PutBytes_def region_end [OF assms] Let_def)

lemma arena_GetBytes_region:
  assumes "unat off + unat sz \<le> length (arena_buf a)" and "length (arena_buf a) \<le> arena_maxSize" and "0 < unat off"
  shows "arena_GetBytes a off sz = Some (take (unat sz) (drop (unat off) (arena_buf a)))"
proof -
  have "off \<noteq> 0" using assms(3) by auto
  then show ?thesis using assms region_end [OF assms(1,2)] by (simp add: arena_GetBytes_def)
qed

lemma slice_outside:
  assumes "o' + s' \<le> off \<or> off + length src \<le> o'" and "off + length src \<le> length b" and "o' + s' \<le> length b"
  shows "take s' (drop o' (take off b @ src @ drop (off + length src) b)) = take s' (drop o' b)"
  using assms(1)
proof
  assume "o' + s' \<le> off"
  then show ?thesis using assms by (intro nth_equalityI) (auto simp: nth_append)
next
  assume l: "off + length src \<le> o'"
  then have "drop o' (take off b @ src @ drop (off + length src) b) = drop (o' - (off + length src)) (drop (off + length src) b)"
    using assms(2) by simp
  also have "\<dots> = drop o' b" using l by simp
  finally show ?thesis by simp
qed

section \<open>Properties\<close>

text \<open>C36: The regions an arena hands out are aligned as requested, lie inside the buffer after the
  reserved byte 0, and do not overlap: each starts at or after the end of every earlier one, in
  whatever order the atomic adds happen and however many requests fail in between.\<close>

theorem arena_regions_disjoint:
  assumes "arena_allocs (arena_New b) reqs = (a, rs)" and "pow2_aligned reqs" and "length reqs < 2 ^ 30"
  shows "(\<forall>r\<in>set rs. region_ok 1 (arena_buf a) r) \<and> sorted_wrt before rs"
proof -
  have "unat (arena_n (arena_New b)) = 1" by (simp add: arena_New_def)
  with arena_allocs_regions [OF arena_inv_New assms(2) _ assms(1)] assms(3) show ?thesis by simp
qed

theorem arena_regions_disjoint_witness:
  "\<exists>a rs. arena_allocs (arena_New (replicate 64 0)) [(3, 4), (60, 4), (5, 1)] = (a, rs) \<and> sorted_wrt before rs"
proof -
  obtain a rs where "arena_allocs (arena_New (replicate 64 0)) [(3, 4), (60, 4), (5, 1)] = (a, rs)" by fastforce
  moreover have "pow2_aligned [(3, 4), (60, 4), (5, 1)]"
    by (auto simp: pow2_aligned_def intro: exI [of _ 2] exI [of _ 0])
  ultimately show ?thesis using arena_regions_disjoint by fastforce
qed

text \<open>Writing one allocated region and reading it back gives the bytes written, and leaves every
  other allocated region as it was; neither access panics.\<close>

theorem arena_put_get:
  assumes "arena_allocs (arena_New b) reqs = (a, rs)" and "pow2_aligned reqs" and "length reqs < 2 ^ 30"
    and "i < length rs" and "j < length rs" and "i \<noteq> j" and "rs ! i = (off, sz, al)" and "rs ! j = (off', sz', al')"
    and "length src = unat sz"
  shows "\<exists>a' old. arena_PutBytes a off src = Some a' \<and> arena_GetBytes a' off sz = Some src \<and>
    arena_GetBytes a off' sz' = Some old \<and> arena_GetBytes a' off' sz' = Some old"
proof -
  have "unat (arena_n (arena_New b)) = 1" by (simp add: arena_New_def)
  with arena_allocs_regions [OF arena_inv_New assms(2) _ assms(1)] assms(3)
  have bf: "arena_buf a = arena_buf (arena_New b)" and ok: "\<forall>r\<in>set rs. region_ok 1 (arena_buf (arena_New b)) r"
    and srt: "sorted_wrt before rs" by simp_all
  have len: "length (arena_buf a) \<le> arena_maxSize" using bf arena_inv_New [of b] by (simp add: arena_inv_def)
  have r: "0 < unat off" "unat off + unat sz \<le> length (arena_buf a)"
    and r': "0 < unat off'" "unat off' + unat sz' \<le> length (arena_buf a)"
    using ok nth_mem [OF assms(4)] nth_mem [OF assms(5)] assms(7,8) bf by (fastforce simp: region_ok_def)+
  have apart: "unat off' + unat sz' \<le> unat off \<or> unat off + length src \<le> unat off'"
    using sorted_wrt_nth_less [OF srt, of i j] sorted_wrt_nth_less [OF srt, of j i] assms(4-9)
    by (cases "i < j") (auto simp: before_def)
  note put = arena_PutBytes_region [of off src a, unfolded assms(9), OF r(2) len]
  let ?a' = "a\<lparr>arena_buf := take (unat off) (arena_buf a) @ src @ drop (unat off + unat sz) (arena_buf a)\<rparr>"
  have l': "length (arena_buf ?a') = length (arena_buf a)" using r assms(9) by simp
  have "arena_GetBytes ?a' off sz = Some src"
    using arena_GetBytes_region [of off sz ?a'] r len l' assms(9) by simp
  moreover have "arena_GetBytes ?a' off' sz' = arena_GetBytes a off' sz'"
    using arena_GetBytes_region [of off' sz' ?a'] arena_GetBytes_region [of off' sz' a] r r' len l'
      slice_outside [of "unat off'" "unat sz'" "unat off" src "arena_buf a"] apart assms(9) by simp
  ultimately show ?thesis using put arena_GetBytes_region [OF r'(2) len r'(1)] by auto
qed

theorem arena_put_get_witness:
  "\<exists>a rs a'. arena_allocs (arena_New (replicate 64 0)) [(2, 4), (5, 1)] = (a, rs) \<and>
    arena_PutBytes a 4 [1, 2] = Some a' \<and> arena_GetBytes a' 4 2 = Some [1, 2]"
proof -
  have run: "arena_allocs (arena_New (replicate 64 0)) [(2, 4), (5, 1)] =
      (\<lparr>arena_n = 11, arena_buf = replicate 64 0\<rparr>, [(4, 2, 4), (6, 5, 1)])"
    by (simp add: arena_New_def arena_Alloc_def arena_maxSize_def Let_def)
  moreover have "pow2_aligned [(2, 4), (5, 1)]"
    by (auto simp: pow2_aligned_def intro: exI [of _ 2] exI [of _ 0])
  ultimately show ?thesis
    using arena_put_get [OF run, of 0 1 4 2 4 6 5 1 "[1, 2]"] by auto
qed

end
