(* ===== verification/Skiplist.thy ===== *)
theory Skiplist
  imports Arena Source "HOL-Library.Monad_Syntax"
begin

text \<open>
  The skiplist of \<^verbatim>\<open>pkg/lsm/skiplist\<close>, down to the bytes of its nodes in the arena. A pointer to a
  node is its position in the buffer; the fields are 32-bit words in the little-endian layout of the
  machine, the tower behind the four header fields. The operations are those of one writer (the
  database calls them under its lock), with the retry after a failed compare-and-swap included.
  \<open>None\<close> is a panic or a walk that does not end. The random number of \<^verbatim>\<open>randomHeight\<close> is an argument.
\<close>

section \<open>Nodes\<close>

definition MaxHeight :: nat where
  "MaxHeight = 20"

definition maxNodeSize :: nat where
  "maxNodeSize = 16 + 4 * MaxHeight"

definition load32 :: "arena \<Rightarrow> nat \<Rightarrow> u32 option" where
  "load32 a p = (if p + 4 \<le> length (arena_buf a) then Some (Uint32LE (drop p (arena_buf a))) else None)"

definition store32 :: "arena \<Rightarrow> nat \<Rightarrow> u32 \<Rightarrow> arena option" where
  "store32 a p v =
     (if p + 4 \<le> length (arena_buf a)
      then Some (a\<lparr>arena_buf := take p (arena_buf a) @ PutUint32LE v @ drop (p + 4) (arena_buf a)\<rparr>) else None)"

definition arena_Pointer :: "arena \<Rightarrow> u32 \<Rightarrow> nat option" where
  "arena_Pointer a offset = (if unat offset < length (arena_buf a) then Some (unat offset) else None)"

definition newNode :: "arena \<Rightarrow> bytes \<Rightarrow> bytes \<Rightarrow> (arena \<times> (arena_error + u32)) option" where
  "newNode a key value =
     (let keySize = of_nat (length key) :: u32;
          valueSize = of_nat (length value) :: u32;
          nodeSize = of_nat maxNodeSize :: u32
      in case arena_Alloc a (nodeSize + keySize + valueSize) NodeAlignment of
           (a, Inl e) \<Rightarrow> Some (a, Inl e)
         | (a, Inr offset) \<Rightarrow> do {
             nd \<leftarrow> arena_Pointer a offset;
             a \<leftarrow> store32 a nd (offset + nodeSize);
             a \<leftarrow> store32 a (nd + 4) keySize;
             a \<leftarrow> store32 a (nd + 8) (offset + nodeSize + keySize);
             a \<leftarrow> store32 a (nd + 12) valueSize;
             keyOffset \<leftarrow> load32 a nd;
             a \<leftarrow> arena_PutBytes a keyOffset key;
             valueOffset \<leftarrow> load32 a (nd + 8);
             a \<leftarrow> arena_PutBytes a valueOffset value;
             Some (a, Inr offset)
           })"

text \<open>A nil node, at offset 0, is dereferenced at once by every caller, which panics.\<close>

definition getNode :: "arena \<Rightarrow> u32 \<Rightarrow> nat option" where
  "getNode a offset = (if offset = 0 then None else arena_Pointer a offset)"

definition getKey :: "arena \<Rightarrow> nat \<Rightarrow> bytes option" where
  "getKey a nd = do { keyOffset \<leftarrow> load32 a nd; keySize \<leftarrow> load32 a (nd + 4); arena_GetBytes a keyOffset keySize }"

definition getValue :: "arena \<Rightarrow> nat \<Rightarrow> bytes option" where
  "getValue a nd = do { valueOffset \<leftarrow> load32 a (nd + 8); valueSize \<leftarrow> load32 a (nd + 12); arena_GetBytes a valueOffset valueSize }"

definition getNext :: "arena \<Rightarrow> nat \<Rightarrow> nat \<Rightarrow> u32 option" where
  "getNext a nd level = (if level < MaxHeight then load32 a (nd + 16 + 4 * level) else None)"

definition setNext :: "arena \<Rightarrow> nat \<Rightarrow> nat \<Rightarrow> u32 \<Rightarrow> arena option" where
  "setNext a nd level v = (if level < MaxHeight then store32 a (nd + 16 + 4 * level) v else None)"

definition casNext :: "arena \<Rightarrow> nat \<Rightarrow> nat \<Rightarrow> u32 \<Rightarrow> u32 \<Rightarrow> (arena \<times> bool) option" where
  "casNext a nd level old new = do {
     cur \<leftarrow> getNext a nd level;
     if cur = old then do { a \<leftarrow> setNext a nd level new; Some (a, True) } else Some (a, False)
   }"

section \<open>Operations\<close>

datatype skl_error = ErrRecordExists | ErrArena arena_error

record Skiplist =
  skl_arena :: arena
  skl_head :: u32
  skl_height :: nat

definition probabilities :: "nat \<Rightarrow> u32" where
  "probabilities i = of_nat ((2 ^ 32 - 1) div 4 ^ i)"

function height_loop :: "u32 \<Rightarrow> nat \<Rightarrow> nat" where
  "height_loop rnd h = (if h < MaxHeight \<and> rnd \<le> probabilities h then height_loop rnd (h + 1) else h)"
  by pat_completeness auto
termination
  by (relation "measure (\<lambda>(rnd, h). MaxHeight - h)") auto

declare height_loop.simps [simp del]

definition randomHeight :: "u32 \<Rightarrow> nat" where
  "randomHeight rnd = height_loop rnd 1"

definition skl_New :: "arena \<Rightarrow> Skiplist option" where
  "skl_New a =
     (case newNode a [] [] of
        Some (a, Inr headOffset) \<Rightarrow> Some \<lparr>skl_arena = a, skl_head = headOffset, skl_height = 1\<rparr>
      | _ \<Rightarrow> None)"

text \<open>The walk along one level that \<^verbatim>\<open>findSplice\<close>, \<^verbatim>\<open>findSpliceForLevel\<close> and \<^verbatim>\<open>seekGE\<close> share.\<close>

partial_function (option) skl_walk :: "arena \<Rightarrow> bytes \<Rightarrow> nat \<Rightarrow> u32 \<Rightarrow> u32 \<Rightarrow> (u32 \<times> u32 \<times> bool) option" where
  "skl_walk a key level prevOffset nextOffset =
     (if nextOffset = 0 then Some (prevOffset, nextOffset, False)
      else do {
        nd \<leftarrow> getNode a nextOffset;
        nextKey \<leftarrow> getKey a nd;
        let cmp = compareKeys key nextKey;
        if cmp \<le> 0 then Some (prevOffset, nextOffset, cmp = 0)
        else do { nextOffset' \<leftarrow> getNext a nd level; skl_walk a key level nextOffset nextOffset' }
      })"

definition findSpliceForLevel :: "arena \<Rightarrow> bytes \<Rightarrow> nat \<Rightarrow> u32 \<Rightarrow> (u32 \<times> u32 \<times> bool) option" where
  "findSpliceForLevel a key level start = do {
     nd \<leftarrow> getNode a start;
     nextOffset \<leftarrow> getNext a nd level;
     skl_walk a key level start nextOffset
   }"

type_synonym splice = "u32 \<times> u32"

primrec findSplice_levels :: "arena \<Rightarrow> bytes \<Rightarrow> nat \<Rightarrow> u32 \<Rightarrow> splice list \<Rightarrow> bool \<Rightarrow> (splice list \<times> bool) option" where
  "findSplice_levels a key 0 prevOffset spl found = Some (spl, found)"
| "findSplice_levels a key (Suc level) prevOffset spl found = do {
     (prevOffset, nextOffset, eq) \<leftarrow> findSpliceForLevel a key level prevOffset;
     findSplice_levels a key level prevOffset (spl[level := (prevOffset, nextOffset)]) (found \<or> eq)
   }"

definition findSplice :: "Skiplist \<Rightarrow> bytes \<Rightarrow> (splice list \<times> bool) option" where
  "findSplice s key = findSplice_levels (skl_arena s) key (skl_height s) (skl_head s) (replicate MaxHeight (0, 0)) False"

text \<open>Linking the new node at one level: the result says whether the key turned up meanwhile.\<close>

partial_function (option) link_level :: "arena \<Rightarrow> u32 \<Rightarrow> bytes \<Rightarrow> u32 \<Rightarrow> nat \<Rightarrow> splice \<Rightarrow> (arena \<times> bool) option" where
  "link_level a head key ndOffset i sp =
     (let (prevOffset, nextOffset) = (if fst sp = 0 then (head, 0) else sp)
      in do {
        nd \<leftarrow> getNode a ndOffset;
        a \<leftarrow> setNext a nd i nextOffset;
        prev \<leftarrow> getNode a prevOffset;
        (a, ok) \<leftarrow> casNext a prev i nextOffset ndOffset;
        if ok then Some (a, False)
        else do {
          (prevOffset, nextOffset, found) \<leftarrow> findSpliceForLevel a key i prevOffset;
          if found then (if i \<noteq> 0 then None else Some (a, True))
          else link_level a head key ndOffset i (prevOffset, nextOffset)
        }
      })"

fun link_levels :: "Skiplist \<Rightarrow> bytes \<Rightarrow> u32 \<Rightarrow> splice list \<Rightarrow> nat list \<Rightarrow> (Skiplist \<times> skl_error option) option" where
  "link_levels s key ndOffset spl [] = Some (s, None)"
| "link_levels s key ndOffset spl (i # is) = do {
     (a, dup) \<leftarrow> link_level (skl_arena s) (skl_head s) key ndOffset i (spl ! i);
     if dup then Some (s\<lparr>skl_arena := a\<rparr>, Some ErrRecordExists)
     else link_levels (s\<lparr>skl_arena := a\<rparr>) key ndOffset spl is
   }"

definition skl_Add :: "Skiplist \<Rightarrow> bytes \<Rightarrow> bytes \<Rightarrow> u32 \<Rightarrow> (Skiplist \<times> skl_error option) option" where
  "skl_Add s key value rnd = do {
     (spl, found) \<leftarrow> findSplice s key;
     if found then Some (s, Some ErrRecordExists)
     else do {
       (a, res) \<leftarrow> newNode (skl_arena s) key value;
       case res of
         Inl e \<Rightarrow> Some (s\<lparr>skl_arena := a\<rparr>, Some (ErrArena e))
       | Inr ndOffset \<Rightarrow>
           let height = randomHeight rnd
           in link_levels (s\<lparr>skl_arena := a, skl_height := max (skl_height s) height\<rparr>) key ndOffset spl [0..<height]
     }
   }"

primrec seek_levels :: "arena \<Rightarrow> bytes \<Rightarrow> nat \<Rightarrow> u32 \<Rightarrow> u32 \<Rightarrow> (u32 \<times> u32) option" where
  "seek_levels a target 0 prevOffset nextOffset = Some (prevOffset, nextOffset)"
| "seek_levels a target (Suc level) prevOffset nextOffset = do {
     (prevOffset, nextOffset, _) \<leftarrow> findSpliceForLevel a target level prevOffset;
     seek_levels a target level prevOffset nextOffset
   }"

definition skl_seekGE :: "Skiplist \<Rightarrow> bytes \<Rightarrow> (u32 \<times> u32 \<times> bool) option" where
  "skl_seekGE s target = do {
     (prevOffset, nextOffset) \<leftarrow> seek_levels (skl_arena s) target (skl_height s) (skl_head s) 0;
     if nextOffset = 0 then Some (prevOffset, 0, False)
     else do {
       nd \<leftarrow> getNode (skl_arena s) nextOffset;
       k \<leftarrow> getKey (skl_arena s) nd;
       Some (prevOffset, nextOffset, compareKeys target k = 0)
     }
   }"

definition skl_Get :: "Skiplist \<Rightarrow> bytes \<Rightarrow> bytes option option" where
  "skl_Get s key = do {
     (_, nd, match) \<leftarrow> skl_seekGE s key;
     if nd = 0 \<or> \<not> match then Some None
     else do { n \<leftarrow> getNode (skl_arena s) nd; v \<leftarrow> getValue (skl_arena s) n; Some (Some v) }
   }"

section \<open>The iterator\<close>

record skl_Iterator =
  si_list :: Skiplist
  si_nd :: u32

definition skl_NewIterator :: "Skiplist \<Rightarrow> skl_Iterator" where
  "skl_NewIterator s = \<lparr>si_list = s, si_nd = 0\<rparr>"

definition si_Valid :: "skl_Iterator \<Rightarrow> bool" where
  "si_Valid it \<longleftrightarrow> si_nd it \<noteq> 0"

definition si_SeekGE :: "skl_Iterator \<Rightarrow> bytes \<Rightarrow> (skl_Iterator \<times> bool) option" where
  "si_SeekGE it target = do { (_, nd, _) \<leftarrow> skl_seekGE (si_list it) target; Some (it\<lparr>si_nd := nd\<rparr>, nd \<noteq> 0) }"

definition si_First :: "skl_Iterator \<Rightarrow> (skl_Iterator \<times> bool) option" where
  "si_First it = do {
     hd \<leftarrow> getNode (skl_arena (si_list it)) (skl_head (si_list it));
     nd \<leftarrow> getNext (skl_arena (si_list it)) hd 0;
     Some (it\<lparr>si_nd := nd\<rparr>, nd \<noteq> 0)
   }"

definition si_Next :: "skl_Iterator \<Rightarrow> (skl_Iterator \<times> bool) option" where
  "si_Next it =
     (if si_nd it = 0 then Some (it, False)
      else do {
        n \<leftarrow> getNode (skl_arena (si_list it)) (si_nd it);
        nd \<leftarrow> getNext (skl_arena (si_list it)) n 0;
        Some (it\<lparr>si_nd := nd\<rparr>, nd \<noteq> 0)
      })"

definition si_Key :: "skl_Iterator \<Rightarrow> bytes option" where
  "si_Key it = do { nd \<leftarrow> getNode (skl_arena (si_list it)) (si_nd it); getKey (skl_arena (si_list it)) nd }"

definition si_Value :: "skl_Iterator \<Rightarrow> bytes option" where
  "si_Value it = do { nd \<leftarrow> getNode (skl_arena (si_list it)) (si_nd it); getValue (skl_arena (si_list it)) nd }"

end
