(* ===== verification/Skiplist_Correct.thy ===== *)
theory Skiplist_Correct
  imports Skiplist
begin

text \<open>
  What the skiplist holds: \<open>skl_rep s N\<close> relates the bytes of the arena to the nodes \<open>N\<close> in the order of
  their keys, each with its offset, height and entry. The lemmas show that the walk over the levels
  finds the place of a key, that adding a node keeps every level linked, and that the iterator is a
  source of the entries.
\<close>

section \<open>Memory\<close>

definition same_outside :: "arena \<Rightarrow> arena \<Rightarrow> nat \<Rightarrow> nat \<Rightarrow> bool" where
  "same_outside a a' lo hi \<longleftrightarrow> length (arena_buf a') = length (arena_buf a) \<and> arena_n a' = arena_n a \<and>
     (\<forall>q<length (arena_buf a). q < lo \<or> hi \<le> q \<longrightarrow> arena_buf a' ! q = arena_buf a ! q)"

lemma same_outside_trans:
  "same_outside a a' lo hi \<Longrightarrow> same_outside a' a'' lo' hi' \<Longrightarrow> lo \<le> lo' \<Longrightarrow> hi' \<le> hi \<Longrightarrow> same_outside a a'' lo hi"
  by (auto simp: same_outside_def)

lemma same_outside_wider: "same_outside a a' lo hi \<Longrightarrow> lo' \<le> lo \<Longrightarrow> hi \<le> hi' \<Longrightarrow> same_outside a a' lo' hi'"
  by (auto simp: same_outside_def)

lemma same_outside_slice:
  assumes "same_outside a a' lo hi" and "p + n \<le> lo \<or> hi \<le> p" and "p + n \<le> length (arena_buf a)"
  shows "take n (drop p (arena_buf a')) = take n (drop p (arena_buf a))"
  using assms by (intro nth_equalityI) (auto simp: same_outside_def)

lemma Uint32LE_take: "Uint32LE (take n bs) = Uint32LE bs" if "4 \<le> n"
  using that by (simp add: Uint32LE_def min_def)

lemma load32_same:
  assumes "same_outside a a' lo hi" and "p + 4 \<le> lo \<or> hi \<le> p"
  shows "load32 a' p = load32 a p"
proof (cases "p + 4 \<le> length (arena_buf a)")
  case True
  have "Uint32LE (drop p (arena_buf a')) = Uint32LE (drop p (arena_buf a))"
    using same_outside_slice [OF assms True] by (simp add: Uint32LE_def)
  then show ?thesis using assms(1) by (simp add: load32_def same_outside_def)
qed (use assms(1) in \<open>simp add: load32_def same_outside_def\<close>)

lemma store32_ok:
  assumes "p + 4 \<le> length (arena_buf a)"
  shows "\<exists>a'. store32 a p v = Some a' \<and> load32 a' p = Some v \<and> same_outside a a' p (p + 4)"
proof -
  let ?b = "take p (arena_buf a) @ PutUint32LE v @ drop (p + 4) (arena_buf a)"
  have "drop p ?b = PutUint32LE v @ drop (p + 4) (arena_buf a)" using assms by simp
  moreover have "?b ! q = arena_buf a ! q" if "q < length (arena_buf a)" "q < p \<or> p + 4 \<le> q" for q
    using that assms by (auto simp: nth_append)
  ultimately show ?thesis using assms by (simp add: store32_def load32_def same_outside_def)
qed

lemma PutBytes_ok:
  assumes "unat off + length src \<le> length (arena_buf a)" and "length (arena_buf a) \<le> arena_maxSize"
  shows "\<exists>a'. arena_PutBytes a off src = Some a' \<and> take (length src) (drop (unat off) (arena_buf a')) = src \<and>
    same_outside a a' (unat off) (unat off + length src)"
proof -
  let ?b = "take (unat off) (arena_buf a) @ src @ drop (unat off + length src) (arena_buf a)"
  have "?b ! q = arena_buf a ! q" if "q < length (arena_buf a)" "q < unat off \<or> unat off + length src \<le> q" for q
    using that assms by (auto simp: nth_append)
  then show ?thesis using assms by (simp add: arena_PutBytes_region [OF assms] same_outside_def)
qed

section \<open>Nodes\<close>

text \<open>A node at offset \<open>o1\<close> with its header and its key and value behind the tower.\<close>

definition node_ok :: "arena \<Rightarrow> u32 \<Rightarrow> bytes \<Rightarrow> bytes \<Rightarrow> bool" where
  "node_ok a o1 k v \<longleftrightarrow> 0 < unat o1 \<and> unat o1 + maxNodeSize + length k + length v \<le> length (arena_buf a) \<and>
     load32 a (unat o1) = Some (o1 + of_nat maxNodeSize) \<and> load32 a (unat o1 + 4) = Some (of_nat (length k)) \<and>
     load32 a (unat o1 + 8) = Some (o1 + of_nat maxNodeSize + of_nat (length k)) \<and> load32 a (unat o1 + 12) = Some (of_nat (length v)) \<and>
     take (length k) (drop (unat o1 + maxNodeSize) (arena_buf a)) = k \<and>
     take (length v) (drop (unat o1 + maxNodeSize + length k) (arena_buf a)) = v"

lemma maxNodeSize: "maxNodeSize = 96"
  by (simp add: maxNodeSize_def MaxHeight_def)

lemma node_offsets:
  assumes "unat o1 + maxNodeSize + lk + lv \<le> length (arena_buf a)" and "length (arena_buf a) \<le> arena_maxSize"
  shows "unat (o1 + of_nat maxNodeSize :: u32) = unat o1 + maxNodeSize"
    and "unat (o1 + of_nat maxNodeSize + of_nat lk :: u32) = unat o1 + maxNodeSize + lk"
    and "unat (of_nat lk :: u32) = lk" and "unat (of_nat lv :: u32) = lv"
proof -
  show e: "unat (o1 + of_nat maxNodeSize :: u32) = unat o1 + maxNodeSize"
    by (rule region_end [of _ _ "arena_buf a"]) (use assms in simp_all)
  show "unat (o1 + of_nat maxNodeSize + of_nat lk :: u32) = unat o1 + maxNodeSize + lk"
    using region_end [of "o1 + of_nat maxNodeSize" lk "arena_buf a"] e assms by simp
  show "unat (of_nat lk :: u32) = lk" "unat (of_nat lv :: u32) = lv"
    using assms by (simp_all add: arena_maxSize_def unsigned_of_nat take_bit_nat_eq_self)
qed

lemma node_okD:
  assumes "node_ok a o1 k v" and "length (arena_buf a) \<le> arena_maxSize"
  shows "getNode a o1 = Some (unat o1)" and "getKey a (unat o1) = Some k" and "getValue a (unat o1) = Some v"
proof -
  have sz: "unat o1 + maxNodeSize + length k + length v \<le> length (arena_buf a)" using assms(1) by (simp add: node_ok_def)
  note u = node_offsets [OF sz assms(2)]
  show "getNode a o1 = Some (unat o1)" using assms(1) by (auto simp: getNode_def arena_Pointer_def node_ok_def maxNodeSize)
  show "getKey a (unat o1) = Some k"
    using arena_GetBytes_region [of "o1 + of_nat maxNodeSize" "of_nat (length k)" a] assms u sz
    by (simp add: getKey_def node_ok_def maxNodeSize)
  show "getValue a (unat o1) = Some v"
    using arena_GetBytes_region [of "o1 + of_nat maxNodeSize + of_nat (length k)" "of_nat (length v)" a] assms u sz
    by (simp add: getValue_def node_ok_def maxNodeSize)
qed

text \<open>A write outside the header and the entry of a node leaves the node as it was.\<close>

lemma node_ok_same:
  assumes "node_ok a o1 k v" and s: "same_outside a a' lo hi"
    and "hi \<le> unat o1 \<or> unat o1 + 16 \<le> lo \<and> hi \<le> unat o1 + maxNodeSize \<or> unat o1 + maxNodeSize + length k + length v \<le> lo"
  shows "node_ok a' o1 k v"
proof -
  have l: "load32 a' (unat o1 + d) = load32 a (unat o1 + d)" if "d \<le> 12" for d
    by (rule load32_same [OF s]) (use assms(3) that in \<open>auto simp: maxNodeSize\<close>)
  have "take (length k) (drop (unat o1 + maxNodeSize) (arena_buf a')) = take (length k) (drop (unat o1 + maxNodeSize) (arena_buf a))"
    by (rule same_outside_slice [OF s]) (use assms(1,3) in \<open>auto simp: node_ok_def maxNodeSize\<close>)
  moreover have "take (length v) (drop (unat o1 + maxNodeSize + length k) (arena_buf a')) = take (length v) (drop (unat o1 + maxNodeSize + length k) (arena_buf a))"
    by (rule same_outside_slice [OF s]) (use assms(1,3) in \<open>auto simp: node_ok_def maxNodeSize\<close>)
  ultimately show ?thesis using assms(1) s l [of 0] l [of 4] l [of 8] l [of 12] by (simp add: node_ok_def same_outside_def)
qed

lemma getNext_same:
  assumes "same_outside a a' lo hi" and "hi \<le> nd + 16 + 4 * i \<or> nd + 16 + 4 * i + 4 \<le> lo"
  shows "getNext a' nd i = getNext a nd i"
  using load32_same [OF assms(1), of "nd + 16 + 4 * i"] assms(2) by (auto simp: getNext_def)

lemma setNext_ok:
  assumes "i < MaxHeight" and "nd + maxNodeSize \<le> length (arena_buf a)"
  shows "\<exists>a'. setNext a nd i v = Some a' \<and> getNext a' nd i = Some v \<and> same_outside a a' (nd + 16 + 4 * i) (nd + 16 + 4 * i + 4)"
  using store32_ok [of "nd + 16 + 4 * i" a v] assms by (simp add: setNext_def getNext_def maxNodeSize_def)

text \<open>Writing a node into a region the arena handed out.\<close>

definition write_node :: "arena \<Rightarrow> u32 \<Rightarrow> bytes \<Rightarrow> bytes \<Rightarrow> arena option" where
  "write_node a offset key value = do {
     nd \<leftarrow> arena_Pointer a offset;
     a \<leftarrow> store32 a nd (offset + of_nat maxNodeSize);
     a \<leftarrow> store32 a (nd + 4) (of_nat (length key));
     a \<leftarrow> store32 a (nd + 8) (offset + of_nat maxNodeSize + of_nat (length key));
     a \<leftarrow> store32 a (nd + 12) (of_nat (length value));
     keyOffset \<leftarrow> load32 a nd;
     a \<leftarrow> arena_PutBytes a keyOffset key;
     valueOffset \<leftarrow> load32 a (nd + 8);
     arena_PutBytes a valueOffset value
   }"

lemma newNode_write:
  "newNode a key value =
     (case arena_Alloc a (of_nat maxNodeSize + of_nat (length key) + of_nat (length value)) NodeAlignment of
        (a, Inl e) \<Rightarrow> Some (a, Inl e)
      | (a, Inr offset) \<Rightarrow> map_option (\<lambda>a. (a, Inr offset)) (write_node a offset key value))"
  by (simp add: newNode_def write_node_def Let_def map_option_bind map_option_bind comp_def map_conv_bind_option split: prod.splits sum.splits)

lemma write_node_ok:
  assumes sz: "unat off + maxNodeSize + length k + length v \<le> length (arena_buf a)" and mx: "length (arena_buf a) \<le> arena_maxSize"
    and pos: "0 < unat off"
  shows "\<exists>a'. write_node a off k v = Some a' \<and> node_ok a' off k v \<and>
    same_outside a a' (unat off) (unat off + maxNodeSize + length k + length v) \<and>
    (\<forall>i<MaxHeight. getNext a' (unat off) i = getNext a (unat off) i)"
proof -
  let ?o = "unat off" and ?n = "length (arena_buf a)"
  note u = node_offsets [OF sz mx]
  obtain a1 where a1: "store32 a ?o (off + of_nat maxNodeSize) = Some a1" "load32 a1 ?o = Some (off + of_nat maxNodeSize)"
      "same_outside a a1 ?o (?o + 4)"
    using store32_ok [of ?o a "off + of_nat maxNodeSize"] sz by (auto simp: maxNodeSize)
  obtain a2 where a2: "store32 a1 (?o + 4) (of_nat (length k)) = Some a2" "load32 a2 (?o + 4) = Some (of_nat (length k))"
      "same_outside a1 a2 (?o + 4) (?o + 4 + 4)"
    using store32_ok [of "?o + 4" a1 "of_nat (length k)"] sz a1(3) by (auto simp: maxNodeSize same_outside_def)
  obtain a3 where a3: "store32 a2 (?o + 8) (off + of_nat maxNodeSize + of_nat (length k)) = Some a3"
      "load32 a3 (?o + 8) = Some (off + of_nat maxNodeSize + of_nat (length k))" "same_outside a2 a3 (?o + 8) (?o + 8 + 4)"
    using store32_ok [of "?o + 8" a2 "off + of_nat maxNodeSize + of_nat (length k)"] sz a1(3) a2(3) by (auto simp: maxNodeSize same_outside_def)
  obtain a4 where a4: "store32 a3 (?o + 12) (of_nat (length v)) = Some a4" "load32 a4 (?o + 12) = Some (of_nat (length v))"
      "same_outside a3 a4 (?o + 12) (?o + 12 + 4)"
    using store32_ok [of "?o + 12" a3 "of_nat (length v)"] sz a1(3) a2(3) a3(3) by (auto simp: maxNodeSize same_outside_def)
  have s4: "same_outside a a4 ?o (?o + 16)"
    using a1(3) a2(3) a3(3) a4(3) by (auto simp: same_outside_def)
  have l4: "load32 a4 ?o = Some (off + of_nat maxNodeSize)" "load32 a4 (?o + 4) = Some (of_nat (length k))"
      "load32 a4 (?o + 8) = Some (off + of_nat maxNodeSize + of_nat (length k))"
    using a1(2) a2(2) a3(2) load32_same [OF a2(3), of ?o] load32_same [OF a3(3), of ?o] load32_same [OF a4(3), of ?o]
      load32_same [OF a3(3), of "?o + 4"] load32_same [OF a4(3), of "?o + 4"] load32_same [OF a4(3), of "?o + 8"] by simp_all
  have n4: "length (arena_buf a4) = ?n" using s4 by (simp add: same_outside_def)
  obtain a5 where a5: "arena_PutBytes a4 (off + of_nat maxNodeSize) k = Some a5"
      "take (length k) (drop (?o + maxNodeSize) (arena_buf a5)) = k" "same_outside a4 a5 (?o + maxNodeSize) (?o + maxNodeSize + length k)"
    using PutBytes_ok [of "off + of_nat maxNodeSize" k a4] u(1) n4 sz mx by auto
  have n5: "length (arena_buf a5) = ?n" using a5(3) n4 by (simp add: same_outside_def)
  have l5: "load32 a5 (?o + 8) = Some (off + of_nat maxNodeSize + of_nat (length k))"
    using l4(3) load32_same [OF a5(3), of "?o + 8"] by (simp add: maxNodeSize)
  obtain a6 where a6: "arena_PutBytes a5 (off + of_nat maxNodeSize + of_nat (length k)) v = Some a6"
      "take (length v) (drop (?o + maxNodeSize + length k) (arena_buf a6)) = v"
      "same_outside a5 a6 (?o + maxNodeSize + length k) (?o + maxNodeSize + length k + length v)"
    using PutBytes_ok [of "off + of_nat maxNodeSize + of_nat (length k)" v a5] u(2) n5 sz mx by auto
  have w: "write_node a off k v = Some a6"
    using a1(1) a2(1) a3(1) a4(1) a5(1) a6(1) l4(1) l5 sz by (simp add: write_node_def arena_Pointer_def maxNodeSize)
  have s6: "same_outside a4 a6 (?o + maxNodeSize) (?o + maxNodeSize + length k + length v)"
    using a5(3) a6(3) by (auto simp: same_outside_def)
  have l6: "load32 a6 (?o + d) = load32 a4 (?o + d)" if "d \<le> 12" for d
    by (rule load32_same [OF s6]) (use that in \<open>simp add: maxNodeSize\<close>)
  have "take (length k) (drop (?o + maxNodeSize) (arena_buf a6)) = k"
    using same_outside_slice [OF a6(3), of "?o + maxNodeSize" "length k"] a5(2) n5 sz by simp
  then have "node_ok a6 off k v"
    unfolding node_ok_def using pos sz s6 n4 l4 a4(2) a6(2) l6 [of 0] l6 [of 4] l6 [of 8] l6 [of 12] by (simp add: same_outside_def)
  moreover have "same_outside a a6 ?o (?o + maxNodeSize + length k + length v)"
    using s4 s6 by (auto simp: same_outside_def maxNodeSize)
  moreover have "getNext a6 ?o i = getNext a ?o i" if "i < MaxHeight" for i
    using getNext_same [OF s4, of ?o i] getNext_same [OF s6, of ?o i] that by (simp add: maxNodeSize_def)
  ultimately show ?thesis using w by blast
qed

lemma newNode_ok:
  assumes inv: "arena_inv a" and small: "maxNodeSize + length k + length v < 2 ^ 32" and nw: "unat (arena_n a) < 2 ^ 63"
  shows "\<exists>n res a'. newNode a k v = Some (a', res) \<and> unat n = unat (arena_n a) + maxNodeSize + length k + length v + 3 \<and>
    (if length (arena_buf a) < unat n then res = Inl ErrFull \<and> a' = a\<lparr>arena_n := n\<rparr>
     else \<exists>off. res = Inr off \<and> node_ok a' off k v \<and> unat (arena_n a) \<le> unat off \<and>
       unat off + maxNodeSize + length k + length v \<le> unat n \<and>
       same_outside (a\<lparr>arena_n := n\<rparr>) a' (unat off) (unat off + maxNodeSize + length k + length v) \<and>
       (\<forall>i<MaxHeight. getNext a' (unat off) i = getNext a (unat off) i))"
proof -
  let ?sz = "of_nat maxNodeSize + of_nat (length k) + of_nat (length v) :: u32"
  have usz: "unat ?sz = maxNodeSize + length k + length v"
    using small unsigned_of_nat [of "maxNodeSize + length k + length v", where ?'a = nat and ?'b = 32]
    by (simp add: take_bit_nat_eq_self)
  obtain a1 res where al: "arena_Alloc a ?sz NodeAlignment = (a1, res)" by fastforce
  have bound: "unat (arena_n a) + unat ?sz + unat NodeAlignment < 2 ^ 64" using nw small by (simp add: usz NodeAlignment_def)
  have n1: "unat (arena_n a1) = unat (arena_n a) + maxNodeSize + length k + length v + 3" "arena_buf a1 = arena_buf a"
    using arena_n_Alloc [OF al bound] usz by (simp_all add: NodeAlignment_def)
  have a1: "a1 = a\<lparr>arena_n := arena_n a1\<rparr>" using n1(2) by (cases a1) (cases a, simp)
  have res: "(\<exists>off. res = Inr off) \<longleftrightarrow> unat (arena_n a1) \<le> length (arena_buf a)"
    using al by (auto simp: arena_Alloc_def Let_def split: if_splits)
  show ?thesis
  proof (cases res)
    case (Inl e)
    then have "newNode a k v = Some (a1, Inl ErrFull)" by (cases e) (simp add: newNode_write al)
    moreover have "length (arena_buf a) < unat (arena_n a1)" using res Inl by auto
    ultimately show ?thesis using n1(1) a1 by (intro exI [of _ "arena_n a1"] exI [of _ "Inl ErrFull"] exI [of _ a1]) simp
  next
    case (Inr off)
    have al4: "NodeAlignment = 2 ^ 2" "(2::nat) < 32" by (simp_all add: NodeAlignment_def)
    note reg = arena_Alloc_region [OF inv al4 al [unfolded Inr] bound]
    have mx: "length (arena_buf a1) \<le> arena_maxSize" using inv n1(2) by (simp add: arena_inv_def)
    have pos: "0 < unat off" using reg(1) inv by (simp add: arena_inv_def)
    obtain a' where w: "write_node a1 off k v = Some a'" "node_ok a' off k v"
        "same_outside a1 a' (unat off) (unat off + maxNodeSize + length k + length v)"
        "\<forall>i<MaxHeight. getNext a' (unat off) i = getNext a1 (unat off) i"
      using write_node_ok [of off k v a1, OF _ mx pos] reg usz n1 by auto
    have gn: "getNext a1 (unat off) i = getNext a (unat off) i" for i using n1(2) by (simp add: getNext_def load32_def)
    have "newNode a k v = Some (a', Inr off)" using w(1) Inr by (simp add: newNode_write al)
    moreover have "\<not> length (arena_buf a) < unat (arena_n a1)" using reg(3) by simp
    ultimately show ?thesis using n1(1) a1 w(2-4) gn reg usz
      by (intro exI [of _ "arena_n a1"] exI [of _ "Inr off"] exI [of _ a']) simp
  qed
qed

section \<open>Linked levels\<close>

text \<open>Following \<open>nx\<close> from \<open>p\<close> runs through \<open>xs\<close> and ends at 0.\<close>

primrec linked :: "(u32 \<Rightarrow> u32 option) \<Rightarrow> u32 \<Rightarrow> u32 list \<Rightarrow> bool" where
  "linked nx p [] \<longleftrightarrow> nx p = Some 0"
| "linked nx p (x # xs) \<longleftrightarrow> nx p = Some x \<and> linked nx x xs"

abbreviation hd0 :: "u32 list \<Rightarrow> u32" where
  "hd0 xs \<equiv> (case xs of [] \<Rightarrow> 0 | x # _ \<Rightarrow> x)"

lemma linked_next: "linked nx p xs \<Longrightarrow> nx p = Some (hd0 xs)"
  by (cases xs) auto

lemma linked_suffix: "linked nx p (xs @ ys) \<Longrightarrow> linked nx (last (p # xs)) ys"
  by (induction xs arbitrary: p) auto

lemma linked_cong: "(\<And>x. x \<in> set (p # xs) \<Longrightarrow> nx' x = nx x) \<Longrightarrow> linked nx' p xs = linked nx p xs"
  by (induction xs arbitrary: p) auto

lemma linked_insert:
  assumes "linked nx p (xs @ ys)" and "distinct (p # xs @ ys)" and "nd \<notin> set (p # xs @ ys)"
    and "nx' nd = Some (hd0 ys)" and "nx' (last (p # xs)) = Some nd"
    and "\<And>x. x \<in> set (p # xs @ ys) \<Longrightarrow> x \<noteq> last (p # xs) \<Longrightarrow> nx' x = nx x"
  shows "linked nx' p (xs @ nd # ys)"
  using assms
proof (induction xs arbitrary: p)
  case Nil
  have "linked nx' y zs = linked nx y zs" if "ys = y # zs" for y zs
    by (rule linked_cong) (use Nil.prems(2,6) that in auto)
  then show ?case using Nil.prems by (cases ys) auto
next
  case (Cons x xs)
  have "last (x # xs) \<in> set (x # xs)" by (rule last_in_set) simp
  then have "p \<noteq> last (x # xs)" using Cons.prems(2) by auto
  then have "nx' p = nx p" using Cons.prems(6) [of p] by simp
  moreover have "linked nx' x (xs @ nd # ys)"
    by (rule Cons.IH) (use Cons.prems in auto)
  ultimately show ?case using Cons.prems(1) by simp
qed

section \<open>The representation\<close>

record skl_node =
  sn_off :: u32
  sn_height :: nat
  sn_key :: bytes
  sn_val :: bytes

definition span_end :: "skl_node \<Rightarrow> nat" where
  "span_end x = unat (sn_off x) + maxNodeSize + length (sn_key x) + length (sn_val x)"

definition node_in :: "arena \<Rightarrow> skl_node \<Rightarrow> bool" where
  "node_in a x \<longleftrightarrow> node_ok a (sn_off x) (sn_key x) (sn_val x) \<and> span_end x \<le> unat (arena_n a)"

definition apart :: "skl_node \<Rightarrow> skl_node \<Rightarrow> bool" where
  "apart x y \<longleftrightarrow> span_end x \<le> unat (sn_off y) \<or> span_end y \<le> unat (sn_off x)"

definition head_node :: "Skiplist \<Rightarrow> skl_node" where
  "head_node s = \<lparr>sn_off = skl_head s, sn_height = 0, sn_key = [], sn_val = []\<rparr>"

definition level_nodes :: "nat \<Rightarrow> skl_node list \<Rightarrow> skl_node list" where
  "level_nodes i N = filter (\<lambda>x. i < sn_height x) N"

definition node_entry :: "skl_node \<Rightarrow> kv" where
  "node_entry x = (sn_key x, sn_val x)"

abbreviation next_at_level :: "arena \<Rightarrow> nat \<Rightarrow> u32 \<Rightarrow> u32 option" where
  "next_at_level a i \<equiv> \<lambda>p. getNext a (unat p) i"

definition nodes_ok :: "arena \<Rightarrow> skl_node list \<Rightarrow> bool" where
  "nodes_ok a N \<longleftrightarrow> arena_inv a \<and> (\<forall>x\<in>set N. node_in a x) \<and> (\<forall>x\<in>set N. \<forall>y\<in>set N. x \<noteq> y \<longrightarrow> apart x y)"

definition skl_rep :: "Skiplist \<Rightarrow> skl_node list \<Rightarrow> bool" where
  "skl_rep s N \<longleftrightarrow> nodes_ok (skl_arena s) (head_node s # N) \<and>
     (\<forall>x\<in>set N. 1 \<le> sn_height x \<and> sn_height x \<le> skl_height s) \<and> 1 \<le> skl_height s \<and> skl_height s \<le> MaxHeight \<and>
     sorted_wrt (\<lambda>x y. sn_key x < sn_key y) N \<and>
     (\<forall>i<MaxHeight. linked (next_at_level (skl_arena s) i) (skl_head s) (map sn_off (level_nodes i N)))"

lemma level0: "skl_rep s N \<Longrightarrow> level_nodes 0 N = N"
  by (auto simp: level_nodes_def skl_rep_def intro!: filter_True)

lemma nodes_okD:
  assumes "nodes_ok a N" and "x \<in> set N"
  shows "sn_off x \<noteq> 0" and "getNode a (sn_off x) = Some (unat (sn_off x))" and "getKey a (unat (sn_off x)) = Some (sn_key x)"
    and "getValue a (unat (sn_off x)) = Some (sn_val x)" and "unat (sn_off x) + maxNodeSize \<le> length (arena_buf a)"
proof -
  have n: "node_ok a (sn_off x) (sn_key x) (sn_val x)" "length (arena_buf a) \<le> arena_maxSize"
    using assms by (auto simp: nodes_ok_def node_in_def arena_inv_def)
  then show "sn_off x \<noteq> 0" "unat (sn_off x) + maxNodeSize \<le> length (arena_buf a)" by (auto simp: node_ok_def)
  from node_okD [OF n] show "getNode a (sn_off x) = Some (unat (sn_off x))" "getKey a (unat (sn_off x)) = Some (sn_key x)"
    "getValue a (unat (sn_off x)) = Some (sn_val x)" by simp_all
qed

lemma nodes_ok_off: "nodes_ok a N \<Longrightarrow> x \<in> set N \<Longrightarrow> y \<in> set N \<Longrightarrow> sn_off x = sn_off y \<Longrightarrow> x = y"
  by (rule ccontr) (fastforce simp: nodes_ok_def apart_def span_end_def maxNodeSize)

section \<open>Finding a place\<close>

definition below :: "bytes \<Rightarrow> skl_node list \<Rightarrow> skl_node list" where
  "below key xs = takeWhile (\<lambda>x. sn_key x < key) xs"

definition not_below :: "bytes \<Rightarrow> skl_node list \<Rightarrow> skl_node list" where
  "not_below key xs = dropWhile (\<lambda>x. sn_key x < key) xs"

lemma below_split: "below key xs @ not_below key xs = xs"
  by (simp add: below_def not_below_def)

text \<open>The offsets before and at the place of a key behind \<open>p\<close>, and whether the key is there.\<close>

definition place :: "u32 \<Rightarrow> bytes \<Rightarrow> skl_node list \<Rightarrow> u32 \<times> u32 \<times> bool" where
  "place p key xs = (last (p # map sn_off (below key xs)), hd0 (map sn_off (not_below key xs)),
     not_below key xs \<noteq> [] \<and> sn_key (hd (not_below key xs)) = key)"

lemma skl_walk_ok:
  assumes "linked (next_at_level a i) p (map sn_off xs)" and "nodes_ok a N" and "set xs \<subseteq> set N"
  shows "skl_walk a key i p (hd0 (map sn_off xs)) = Some (place p key xs)"
  using assms(1,3)
proof (induction xs arbitrary: p)
  case Nil
  then show ?case by (simp add: skl_walk.simps [of _ _ _ p] below_def not_below_def place_def)
next
  case (Cons x xs)
  note x = nodes_okD [OF assms(2), of x]
  have xN: "x \<in> set N" using Cons.prems(2) by simp
  have nx: "getNext a (unat (sn_off x)) i = Some (hd0 (map sn_off xs))"
    using linked_next [of "next_at_level a i" "sn_off x" "map sn_off xs"] Cons.prems(1) by simp
  have IH: "skl_walk a key i (sn_off x) (hd0 (map sn_off xs)) = Some (place (sn_off x) key xs)"
    by (rule Cons.IH) (use Cons.prems in auto)
  have c: "compareKeys key (sn_key x) \<le> 0 \<longleftrightarrow> \<not> sn_key x < key" "compareKeys key (sn_key x) = 0 \<longleftrightarrow> sn_key x = key"
    using compareKeys_greater [of key "sn_key x"] compareKeys_zero [of key "sn_key x"] by auto
  show ?case
    using x [OF xN] nx IH by (subst skl_walk.simps) (simp add: Let_def c below_def not_below_def place_def)
qed

text \<open>The levels below: a walk that starts behind the last smaller node of a level ends at the place in
  the level below it.\<close>

lemma takeWhile_filter_sorted:
  assumes "sorted_wrt (\<lambda>x y. sn_key x < sn_key y) N"
  shows "below key (filter P N) = filter P (below key N)" and "not_below key (filter P N) = filter P (not_below key N)"
proof -
  have "below key (filter P N) = filter P (below key N) \<and> not_below key (filter P N) = filter P (not_below key N)"
    using assms
  proof (induction N)
    case (Cons x N)
    show ?case
    proof (cases "sn_key x < key")
      case False
      then have "\<forall>y\<in>set N. \<not> sn_key y < key" using Cons.prems by (auto dest: less_trans)
      then have "takeWhile (\<lambda>x. sn_key x < key) (filter P N) = []" "dropWhile (\<lambda>x. sn_key x < key) (filter P N) = filter P N"
        by (auto simp: takeWhile_eq_Nil_iff dropWhile_eq_self_iff dest: hd_in_set)
      then show ?thesis using False by (simp add: below_def not_below_def)
    qed (use Cons in \<open>simp add: below_def not_below_def\<close>)
  qed (simp add: below_def not_below_def)
  then show "below key (filter P N) = filter P (below key N)" "not_below key (filter P N) = filter P (not_below key N)" by simp_all
qed

lemma takeWhile_dropWhile_none: "takeWhile P (dropWhile P xs) = []"
  by (induction xs) auto

lemma findSpliceForLevel_ok:
  assumes rep: "skl_rep s N" and i: "i < MaxHeight"
    and start: "start = last (skl_head s # map sn_off (filter (\<lambda>x. i < sn_height x \<and> Q x) (below key N)))"
  shows "findSpliceForLevel (skl_arena s) key i start = Some (place (skl_head s) key (level_nodes i N))"
proof -
  let ?a = "skl_arena s" and ?L = "level_nodes i N" and ?B = "filter (\<lambda>x. i < sn_height x) (below key N)"
  have ok: "nodes_ok ?a (head_node s # N)" and srt: "sorted_wrt (\<lambda>x y. sn_key x < sn_key y) N"
    and lk: "linked (next_at_level ?a i) (skl_head s) (map sn_off ?L)" using rep i by (auto simp: skl_rep_def)
  have L: "?L = ?B @ not_below key ?L"
    using below_split [of key ?L] takeWhile_filter_sorted(1) [OF srt, of key "\<lambda>x. i < sn_height x"] by (simp add: level_nodes_def)
  have bl: "below key ?L = ?B" using takeWhile_filter_sorted(1) [OF srt] by (simp add: level_nodes_def)
  obtain xs ys where B: "?B = xs @ ys" and st: "start = last (skl_head s # map sn_off xs)"
    and stN: "start \<in> sn_off ` set (head_node s # N)"
  proof (cases "filter Q ?B" rule: rev_cases)
    case Nil
    then have "start = skl_head s" using start by (simp add: conj_commute)
    then show ?thesis using that [of "[]" ?B] by (simp add: head_node_def)
  next
    case (snoc zs z)
    then have s: "start = sn_off z" using start by (simp add: conj_commute)
    have "z \<in> set (filter Q ?B)" using snoc by simp
    then have z: "z \<in> set ?B" by simp
    then obtain xs ys where "?B = xs @ z # ys" by (auto simp: in_set_conv_decomp)
    moreover have "z \<in> set N" using z by (auto simp: below_def dest: set_takeWhileD)
    ultimately show ?thesis using that [of "xs @ [z]" ys] s by simp
  qed
  have sub: "set ?L \<subseteq> set (head_node s # N)" by (auto simp: level_nodes_def)
  let ?R = "ys @ not_below key ?L"
  have L': "?L = xs @ ?R" using L B by simp
  have lk': "linked (next_at_level ?a i) start (map sn_off ?R)"
    unfolding st by (rule linked_suffix) (use lk L' in \<open>metis map_append\<close>)
  have R: "set ?R \<subseteq> set (head_node s # N)" using sub L' by (metis Un_subset_iff set_append)
  have "\<forall>y\<in>set ys. sn_key y < key"
  proof
    fix y assume "y \<in> set ys"
    then have "y \<in> set ?B" using B by simp
    then show "sn_key y < key" by (auto simp: below_def dest: set_takeWhileD)
  qed
  moreover have nb: "below key (not_below key ?L) = []" "not_below key (not_below key ?L) = not_below key ?L"
    by (simp_all add: below_def not_below_def takeWhile_dropWhile_none dropWhile_idem)
  ultimately have bR: "below key ?R = ys" "not_below key ?R = not_below key ?L"
    by (simp_all add: below_def not_below_def takeWhile_append2 dropWhile_append2)
  have "place start key ?R = place (skl_head s) key ?L"
    unfolding place_def bR bl B st by simp
  moreover obtain x where "x \<in> set (head_node s # N)" "start = sn_off x" using stN by auto
  ultimately show ?thesis
    using skl_walk_ok [OF lk' ok R, of key] linked_next [OF lk'] nodes_okD(2) [OF ok]
    by (auto simp: findSpliceForLevel_def)
qed

lemma last_conj: "filter (\<lambda>x. i < sn_height x \<and> Suc i < sn_height x) xs = filter (\<lambda>x. Suc i < sn_height x) xs"
  by (rule filter_cong) auto

lemma level_place:
  assumes "skl_rep s N"
  shows "fst (place (skl_head s) key (level_nodes i N)) = last (skl_head s # map sn_off (filter (\<lambda>x. i < sn_height x) (below key N)))"
  using assms takeWhile_filter_sorted(1) [of N key "\<lambda>x. i < sn_height x"] by (simp add: place_def level_nodes_def skl_rep_def)

lemma findSpliceForLevel_next:
  assumes rep: "skl_rep s N" and "i < MaxHeight"
    and "start = (if Suc i = skl_height s then skl_head s else fst (place (skl_head s) key (level_nodes (Suc i) N)))"
  shows "findSpliceForLevel (skl_arena s) key i start = Some (place (skl_head s) key (level_nodes i N))"
proof (rule findSpliceForLevel_ok [OF rep assms(2), of _ "\<lambda>x. Suc i < sn_height x"])
  have "filter (\<lambda>x. Suc i < sn_height x) (below key N) = []" if "Suc i = skl_height s"
  proof -
    have "\<not> Suc i < sn_height x" if "x \<in> set (below key N)" for x
      using that rep \<open>Suc i = skl_height s\<close> by (auto simp: skl_rep_def below_def not_less dest!: set_takeWhileD)
    then show ?thesis by simp
  qed
  then show "start = last (skl_head s # map sn_off (filter (\<lambda>x. i < sn_height x \<and> Suc i < sn_height x) (below key N)))"
    unfolding last_conj assms(3) level_place [OF rep] by auto
qed

lemma findSplice_levels_ok:
  assumes rep: "skl_rep s N"
  shows "n \<le> skl_height s \<Longrightarrow> prev = (if n = skl_height s then skl_head s else fst (place (skl_head s) key (level_nodes n N))) \<Longrightarrow>
    length spl = MaxHeight \<Longrightarrow>
    findSplice_levels (skl_arena s) key n prev spl found =
      Some (map (\<lambda>i. (case place (skl_head s) key (level_nodes i N) of (p, q, _) \<Rightarrow> (p, q))) [0..<n] @ drop n spl,
            found \<or> (\<exists>i<n. snd (snd (place (skl_head s) key (level_nodes i N)))))"
proof (induction n arbitrary: prev spl found)
  case (Suc n)
  have n: "n < MaxHeight" using Suc.prems(1) rep by (simp add: skl_rep_def)
  note f = findSpliceForLevel_next [OF rep n, of prev key]
  obtain p q eq where pl: "place (skl_head s) key (level_nodes n N) = (p, q, eq)" by (cases "place (skl_head s) key (level_nodes n N)")
  have "findSplice_levels (skl_arena s) key (Suc n) prev spl found =
      findSplice_levels (skl_arena s) key n p (spl[n := (p, q)]) (found \<or> eq)"
    using f Suc.prems(2) pl by simp
  also have "\<dots> = Some (map (\<lambda>i. (case place (skl_head s) key (level_nodes i N) of (p, q, _) \<Rightarrow> (p, q))) [0..<n] @ drop n (spl[n := (p, q)]),
      (found \<or> eq) \<or> (\<exists>i<n. snd (snd (place (skl_head s) key (level_nodes i N)))))"
    by (rule Suc.IH) (use Suc.prems pl in auto)
  also have "drop n (spl[n := (p, q)]) = (p, q) # drop (Suc n) spl"
    using n Suc.prems(3) by (simp add: Cons_nth_drop_Suc [symmetric])
  finally show ?case using pl by (auto simp: less_Suc_eq)
qed simp

lemma place_found:
  assumes "sorted_wrt (\<lambda>x y. sn_key x < sn_key y) xs"
  shows "snd (snd (place p key xs)) \<longleftrightarrow> key \<in> sn_key ` set xs"
proof -
  have "not_below key xs \<noteq> [] \<and> sn_key (hd (not_below key xs)) = key \<longleftrightarrow> key \<in> sn_key ` set xs"
    using assms
  proof (induction xs)
    case (Cons x xs)
    have "sn_key x \<noteq> key \<Longrightarrow> \<not> sn_key x < key \<Longrightarrow> key \<notin> sn_key ` set xs" using Cons.prems by (auto dest: less_trans)
    then show ?case using Cons by (auto simp: not_below_def)
  qed (simp add: not_below_def)
  then show ?thesis by (simp add: place_def)
qed

text \<open>The splice of every level, and whether the key is in the list.\<close>

lemma findSplice_ok:
  assumes rep: "skl_rep s N"
  shows "\<exists>spl. findSplice s key = Some (spl, key \<in> sn_key ` set N) \<and>
    (\<forall>i<MaxHeight. spl ! i = (if i < skl_height s then (case place (skl_head s) key (level_nodes i N) of (p, q, _) \<Rightarrow> (p, q)) else (0, 0)))"
proof -
  have h: "1 \<le> skl_height s" "skl_height s \<le> MaxHeight" and srt: "sorted_wrt (\<lambda>x y. sn_key x < sn_key y) N"
    using rep by (auto simp: skl_rep_def)
  have lv: "sorted_wrt (\<lambda>x y. sn_key x < sn_key y) (level_nodes i N)" for i unfolding level_nodes_def by (rule sorted_wrt_filter [OF srt])
  have l0: "level_nodes 0 N = N" by (rule level0 [OF rep])
  have "(\<exists>i < skl_height s. snd (snd (place (skl_head s) key (level_nodes i N)))) \<longleftrightarrow> key \<in> sn_key ` set N"
    unfolding place_found [OF lv]
  proof
    assume "\<exists>i < skl_height s. key \<in> sn_key ` set (level_nodes i N)"
    then show "key \<in> sn_key ` set N" by (auto simp: level_nodes_def)
  next
    assume "key \<in> sn_key ` set N"
    then show "\<exists>i < skl_height s. key \<in> sn_key ` set (level_nodes i N)" using h(1) l0 by (intro exI [of _ 0]) simp
  qed
  then show ?thesis
    using findSplice_levels_ok [OF rep order_refl, of "skl_head s" key "replicate MaxHeight (0, 0)" False] h(2)
    by (auto simp: findSplice_def nth_append)
qed

lemma seek_levels_ok:
  assumes rep: "skl_rep s N"
  shows "n \<le> skl_height s \<Longrightarrow> (n < skl_height s \<Longrightarrow> place (skl_head s) key (level_nodes n N) = (prev, nxt, eq)) \<Longrightarrow>
    (n = skl_height s \<Longrightarrow> prev = skl_head s) \<Longrightarrow> 0 < n \<or> n < skl_height s \<Longrightarrow>
    seek_levels (skl_arena s) key n prev nxt = Some (case place (skl_head s) key (level_nodes 0 N) of (p, q, _) \<Rightarrow> (p, q))"
proof (induction n arbitrary: prev nxt eq)
  case (Suc n)
  have n: "n < MaxHeight" using Suc.prems(1) rep by (simp add: skl_rep_def)
  obtain p q eq' where pl: "place (skl_head s) key (level_nodes n N) = (p, q, eq')" by (cases "place (skl_head s) key (level_nodes n N)")
  have "findSpliceForLevel (skl_arena s) key n prev = Some (place (skl_head s) key (level_nodes n N))"
    by (rule findSpliceForLevel_next [OF rep n]) (use Suc.prems in auto)
  then show ?case using Suc.IH [of p q eq'] Suc.prems(1) pl by simp
qed simp

lemma skl_seekGE_ok:
  assumes rep: "skl_rep s N"
  shows "skl_seekGE s key = Some (place (skl_head s) key N)"
proof -
  have h: "1 \<le> skl_height s" and ok: "nodes_ok (skl_arena s) (head_node s # N)" using rep by (auto simp: skl_rep_def)
  have l0: "level_nodes 0 N = N" by (rule level0 [OF rep])
  obtain p q eq where pl: "place (skl_head s) key N = (p, q, eq)" by (cases "place (skl_head s) key N")
  have sk: "seek_levels (skl_arena s) key (skl_height s) (skl_head s) 0 = Some (p, q)"
    using seek_levels_ok [OF rep order_refl, of key "skl_head s" 0] h l0 pl by simp
  show ?thesis
  proof (cases "not_below key N")
    case Nil
    then have "q = 0" "\<not> eq" using pl by (auto simp: place_def)
    then show ?thesis using sk pl by (simp add: skl_seekGE_def)
  next
    case (Cons x xs)
    then have q: "q = sn_off x" "eq \<longleftrightarrow> sn_key x = key" using pl by (auto simp: place_def)
    have "x \<in> set N" using below_split [of key N] Cons by (metis in_set_conv_decomp)
    with nodes_okD [OF ok, of x] sk q pl show ?thesis by (auto simp: skl_seekGE_def compareKeys_zero)
  qed
qed

section \<open>Adding a node\<close>

definition same_size :: "arena \<Rightarrow> arena \<Rightarrow> bool" where
  "same_size a a' \<longleftrightarrow> arena_n a' = arena_n a \<and> length (arena_buf a') = length (arena_buf a)"

lemma setNext_frame:
  assumes ok: "nodes_ok a M" and y: "y \<in> set M" and j: "j < MaxHeight"
  shows "\<exists>a'. setNext a (unat (sn_off y)) j v = Some a' \<and> nodes_ok a' M \<and> same_size a a' \<and>
    (\<forall>z\<in>set M. \<forall>i<MaxHeight. getNext a' (unat (sn_off z)) i = (if z = y \<and> i = j then Some v else getNext a (unat (sn_off z)) i))"
proof -
  let ?lo = "unat (sn_off y) + 16 + 4 * j"
  obtain a' where a': "setNext a (unat (sn_off y)) j v = Some a'" "getNext a' (unat (sn_off y)) j = Some v" "same_outside a a' ?lo (?lo + 4)"
    using setNext_ok [OF j nodes_okD(5) [OF ok y], of v] by blast
  have ins: "?lo + 4 \<le> unat (sn_off y) + maxNodeSize" using j by (simp add: maxNodeSize_def)
  have far: "?lo + 4 \<le> unat (sn_off z) \<or> span_end z \<le> ?lo" if "z \<in> set M" "z \<noteq> y" for z
  proof -
    have "apart y z" using ok y that by (simp add: nodes_ok_def)
    then show ?thesis using ins by (auto simp: apart_def span_end_def)
  qed
  have "node_in a' z" if z: "z \<in> set M" for z
  proof -
    have n: "node_ok a (sn_off z) (sn_key z) (sn_val z)" "span_end z \<le> unat (arena_n a)" using ok z by (auto simp: nodes_ok_def node_in_def)
    have "node_ok a' (sn_off z) (sn_key z) (sn_val z)"
    proof (rule node_ok_same [OF n(1) a'(3)], cases "z = y")
      case False
      with far [OF z] show "?lo + 4 \<le> unat (sn_off z) \<or> unat (sn_off z) + 16 \<le> ?lo \<and> ?lo + 4 \<le> unat (sn_off z) + maxNodeSize \<or>
          unat (sn_off z) + maxNodeSize + length (sn_key z) + length (sn_val z) \<le> ?lo" by (auto simp: span_end_def)
    qed (use ins in simp)
    then show ?thesis using n(2) a'(3) by (simp add: node_in_def same_outside_def)
  qed
  then have ok': "nodes_ok a' M" using ok a'(3) by (simp add: nodes_ok_def arena_inv_def same_outside_def)
  have "getNext a' (unat (sn_off z)) i = (if z = y \<and> i = j then Some v else getNext a (unat (sn_off z)) i)"
    if z: "z \<in> set M" and i: "i < MaxHeight" for z i
  proof (cases "z = y \<and> i = j")
    case False
    have zi: "unat (sn_off z) + 16 + 4 * i + 4 \<le> span_end z" using i by (simp add: span_end_def maxNodeSize_def)
    have "getNext a' (unat (sn_off z)) i = getNext a (unat (sn_off z)) i"
    proof (rule getNext_same [OF a'(3)], cases "z = y")
      case True
      then show "?lo + 4 \<le> unat (sn_off z) + 16 + 4 * i \<or> unat (sn_off z) + 16 + 4 * i + 4 \<le> ?lo" using False by auto
    next
      case ne: False
      show "?lo + 4 \<le> unat (sn_off z) + 16 + 4 * i \<or> unat (sn_off z) + 16 + 4 * i + 4 \<le> ?lo" using far [OF z ne] zi by auto
    qed
    then show ?thesis using False by auto
  qed (use a'(2) in simp)
  moreover have "same_size a a'" using a'(3) by (simp add: same_size_def same_outside_def)
  ultimately show ?thesis using a'(1) ok' by blast
qed

lemma last_off: "last (sn_off hn # map sn_off B) = sn_off (last (hn # B))"
  by (induction B arbitrary: hn) auto

lemma link_level_ok:
  assumes ok: "nodes_ok a (hn # N')" and N': "N' = below key N @ x # not_below key N" and x: "x \<notin> set (hn # N)" and d: "distinct (hn # N)"
    and srt: "sorted_wrt (\<lambda>x y. sn_key x < sn_key y) N" and j: "j < MaxHeight" "j < sn_height x"
    and lk: "linked (next_at_level a j) (sn_off hn) (map sn_off (level_nodes j N))"
    and sp: "sp = (case place (sn_off hn) key (level_nodes j N) of (p, q, _) \<Rightarrow> (p, q)) \<or> sp = (0, 0) \<and> level_nodes j N = []"
  shows "\<exists>a'. link_level a (sn_off hn) key (sn_off x) j sp = Some (a', False) \<and> nodes_ok a' (hn # N') \<and> same_size a a' \<and>
    linked (next_at_level a' j) (sn_off hn) (map sn_off (level_nodes j N')) \<and>
    (\<forall>z\<in>set (hn # N'). \<forall>i<MaxHeight. i \<noteq> j \<longrightarrow> getNext a' (unat (sn_off z)) i = getNext a (unat (sn_off z)) i)"
proof -
  let ?L = "level_nodes j N" and ?M = "hn # N'"
  define B R where "B = below key ?L" and "R = not_below key ?L"
  have L: "?L = B @ R" by (simp add: B_def R_def below_split)
  define p where "p = last (hn # B)"
  have LN: "set ?L \<subseteq> set N" by (auto simp: level_nodes_def)
  have "set N = set (below key N) \<union> set (not_below key N)" using below_split [of key N] set_append by metis
  then have NM: "set (hn # N) \<subseteq> set ?M" using N' by auto
  have pM: "p \<in> set ?M" and px: "p \<noteq> x" and xM: "x \<in> set ?M"
  proof -
    have "p \<in> set (hn # B)" unfolding p_def by (rule last_in_set) simp
    then have "p \<in> set (hn # N)" using L LN by auto
    then show "p \<in> set ?M" "p \<noteq> x" using NM x by auto
    show "x \<in> set ?M" using N' by simp
  qed
  have eff: "(if fst sp = 0 then (sn_off hn, 0) else sp) = (sn_off p, hd0 (map sn_off R))"
  proof -
    have "fst (place (sn_off hn) key ?L) = sn_off p" using last_off [of hn B] by (simp add: place_def B_def p_def)
    moreover have "sn_off p \<noteq> 0" by (rule nodes_okD(1) [OF ok pM])
    moreover have "sp = (0, 0) \<and> ?L = [] \<Longrightarrow> B = [] \<and> R = []" using L by simp
    ultimately show ?thesis using sp by (auto simp: place_def p_def B_def R_def split: prod.splits)
  qed
  obtain a1 where a1: "setNext a (unat (sn_off x)) j (hd0 (map sn_off R)) = Some a1" and ok1: "nodes_ok a1 ?M" and z1: "same_size a a1"
    and g1: "\<forall>z\<in>set ?M. \<forall>i<MaxHeight. getNext a1 (unat (sn_off z)) i = (if z = x \<and> i = j then Some (hd0 (map sn_off R)) else getNext a (unat (sn_off z)) i)"
    using setNext_frame [OF ok xM j(1)] by blast
  have nx: "getNext a (unat (sn_off p)) j = Some (hd0 (map sn_off R))"
    using linked_next [OF linked_suffix [of "next_at_level a j" "sn_off hn" "map sn_off B" "map sn_off R"]] lk L last_off [of hn B]
    by (simp add: p_def)
  have cur: "getNext a1 (unat (sn_off p)) j = Some (hd0 (map sn_off R))" using g1 [rule_format, OF pM j(1)] px nx by simp
  obtain a2 where a2: "setNext a1 (unat (sn_off p)) j (sn_off x) = Some a2" and ok2: "nodes_ok a2 ?M" and z2: "same_size a1 a2"
    and g2: "\<forall>z\<in>set ?M. \<forall>i<MaxHeight. getNext a2 (unat (sn_off z)) i = (if z = p \<and> i = j then Some (sn_off x) else getNext a1 (unat (sn_off z)) i)"
    using setNext_frame [OF ok1 pM j(1)] by blast
  have run: "link_level a (sn_off hn) key (sn_off x) j sp = Some (a2, False)"
    using a1 a2 cur nodes_okD(2) [OF ok xM] nodes_okD(2) [OF ok1 pM] by (subst link_level.simps) (simp add: eff casNext_def)
  have lv: "level_nodes j N' = B @ x # R"
    using j(2) takeWhile_filter_sorted [OF srt, of key "\<lambda>x. j < sn_height x"] by (simp add: N' B_def R_def level_nodes_def)
  have "linked (next_at_level a2 j) (sn_off hn) (map sn_off B @ sn_off x # map sn_off R)"
  proof (rule linked_insert)
    show "linked (next_at_level a j) (sn_off hn) (map sn_off B @ map sn_off R)" using lk L by simp
    have sub: "set (hn # B @ R) \<subseteq> set (hn # N)" using LN L by auto
    have inj: "inj_on sn_off (set ?M)" by (rule inj_onI) (rule nodes_ok_off [OF ok])
    have "distinct (hn # B @ R)" using d L distinct_filter [of N "\<lambda>x. j < sn_height x"] LN by (auto simp: level_nodes_def [symmetric])
    then show "distinct (sn_off hn # map sn_off B @ map sn_off R)"
      using distinct_map [of sn_off "hn # B @ R"] inj_on_subset [OF inj] sub NM by (metis (no_types, lifting) list.simps(9) map_append order_trans)
    show "sn_off x \<notin> set (sn_off hn # map sn_off B @ map sn_off R)"
    proof
      assume "sn_off x \<in> set (sn_off hn # map sn_off B @ map sn_off R)"
      then have "sn_off x \<in> sn_off ` set (hn # B @ R)" by (simp add: image_Un)
      then obtain z where "z \<in> set (hn # B @ R)" "sn_off z = sn_off x" by (elim imageE) metis
      moreover from this have "z = x" using inj sub NM xM by (metis inj_onD subsetD)
      ultimately show False using x sub by blast
    qed
    show "getNext a2 (unat (sn_off x)) j = Some (hd0 (map sn_off R))" 
      using g2 [rule_format, OF xM j(1)] g1 [rule_format, OF xM j(1)] px by simp
    show "getNext a2 (unat (last (sn_off hn # map sn_off B))) j = Some (sn_off x)"
      unfolding last_off p_def [symmetric] using g2 [rule_format, OF pM j(1)] by simp
    fix q assume q: "q \<in> set (sn_off hn # map sn_off B @ map sn_off R)" "q \<noteq> last (sn_off hn # map sn_off B)"
    then obtain z where z: "z \<in> set (hn # B @ R)" "q = sn_off z" by auto
    then have "z \<noteq> p" "z \<in> set ?M" "z \<noteq> x" using q(2) sub NM x unfolding last_off p_def [symmetric] by auto
    then show "getNext a2 (unat q) j = getNext a (unat q) j"
      using g1 [rule_format, of z j] g2 [rule_format, of z j] z(2) j(1) by simp
  qed
  then show ?thesis using run ok2 lv g1 g2 z1 z2 by (intro exI [of _ a2]) (simp add: same_size_def)
qed

lemma level_offs: "q \<in> set (sn_off hn # map sn_off (level_nodes i X)) \<Longrightarrow> set X \<subseteq> set M \<Longrightarrow> \<exists>z\<in>set (hn # M). q = sn_off z"
  by (auto simp: level_nodes_def)

lemma link_levels_ok:
  assumes N': "N' = below key N @ x # not_below key N" and x: "x \<notin> set (head_node s # N)" and d: "distinct (head_node s # N)"
    and srt: "sorted_wrt (\<lambda>x y. sn_key x < sn_key y) N" and h: "sn_height x \<le> MaxHeight"
    and sp: "\<And>i. i < sn_height x \<Longrightarrow> spl ! i = (case place (skl_head s) key (level_nodes i N) of (p, q, _) \<Rightarrow> (p, q)) \<or>
      spl ! i = (0, 0) \<and> level_nodes i N = []"
  shows "j \<le> sn_height x \<Longrightarrow> nodes_ok a (head_node s # N') \<Longrightarrow>
    (\<forall>i<MaxHeight. linked (next_at_level a i) (skl_head s) (map sn_off (level_nodes i (if i < j then N' else N)))) \<Longrightarrow>
    \<exists>a'. link_levels (s\<lparr>skl_arena := a\<rparr>) key (sn_off x) spl [j..<sn_height x] = Some (s\<lparr>skl_arena := a'\<rparr>, None) \<and>
      nodes_ok a' (head_node s # N') \<and> same_size a a' \<and>
      (\<forall>i<MaxHeight. linked (next_at_level a' i) (skl_head s) (map sn_off (level_nodes i (if i < sn_height x then N' else N))))"
proof (induction "sn_height x - j" arbitrary: j a)
  case 0
  then have "j = sn_height x" by simp
  with 0 show ?case by (intro exI [of _ a]) (simp add: same_size_def)
next
  case (Suc n)
  let ?hn = "head_node s"
  have hd: "sn_off ?hn = skl_head s" by (simp add: head_node_def)
  have j: "j < sn_height x" "j < MaxHeight" using Suc.hyps(2) h by simp_all
  have lk: "linked (next_at_level a j) (sn_off ?hn) (map sn_off (level_nodes j N))"
    using Suc.prems(3) [rule_format, OF j(2)] hd by simp
  obtain a1 where a1: "link_level a (skl_head s) key (sn_off x) j (spl ! j) = Some (a1, False)" "nodes_ok a1 (?hn # N')" "same_size a a1"
      "linked (next_at_level a1 j) (skl_head s) (map sn_off (level_nodes j N'))"
      "\<forall>z\<in>set (?hn # N'). \<forall>i<MaxHeight. i \<noteq> j \<longrightarrow> getNext a1 (unat (sn_off z)) i = getNext a (unat (sn_off z)) i"
    using link_level_ok [OF Suc.prems(2) N' x d srt j(2,1) lk, of "spl ! j"] sp [OF j(1)] unfolding hd by blast
  have lk1: "\<forall>i<MaxHeight. linked (next_at_level a1 i) (skl_head s) (map sn_off (level_nodes i (if i < Suc j then N' else N)))"
  proof (intro allI impI)
    fix i assume i: "i < MaxHeight"
    let ?X = "if i < Suc j then N' else N"
    show "linked (next_at_level a1 i) (skl_head s) (map sn_off (level_nodes i ?X))"
    proof (cases "i = j")
      case False
      have same: "getNext a1 (unat q) i = getNext a (unat q) i" if q: "q \<in> set (skl_head s # map sn_off (level_nodes i ?X))" for q
      proof -
        have "set N = set (below key N) \<union> set (not_below key N)" using below_split [of key N] set_append by metis
        then have "set ?X \<subseteq> set N'" using N' by auto
        then obtain z where "z \<in> set (?hn # N')" "q = sn_off z" using level_offs q unfolding hd [symmetric] by metis
        then show ?thesis using a1(5) i False by blast
      qed
      have "i < Suc j \<longleftrightarrow> i < j" using False by auto
      then show ?thesis using Suc.prems(3) i linked_cong [of "skl_head s" "map sn_off (level_nodes i ?X)", OF same] by simp
    qed (use a1(4) in simp)
  qed
  have "\<exists>a'. link_levels (s\<lparr>skl_arena := a1\<rparr>) key (sn_off x) spl [Suc j..<sn_height x] = Some (s\<lparr>skl_arena := a'\<rparr>, None) \<and>
      nodes_ok a' (?hn # N') \<and> same_size a1 a' \<and>
      (\<forall>i<MaxHeight. linked (next_at_level a' i) (skl_head s) (map sn_off (level_nodes i (if i < sn_height x then N' else N))))"
    by (rule Suc.hyps(1) [OF _ _ a1(2) lk1]) (use Suc.hyps(2) j in auto)
  then show ?case using a1(1,3) j(1) by (auto simp: upt_conv_Cons same_size_def)
qed

lemma randomHeight_bounds: "1 \<le> randomHeight rnd \<and> randomHeight rnd \<le> MaxHeight"
proof -
  have "h \<le> height_loop rnd h \<and> (h \<le> MaxHeight \<longrightarrow> height_loop rnd h \<le> MaxHeight)" for h
    by (induction rnd h rule: height_loop.induct) (subst (1 2) height_loop.simps, auto)
  from this [of 1] show ?thesis by (simp add: randomHeight_def MaxHeight_def)
qed

text \<open>The capacity a node needs, with the padding of its alignment.\<close>

definition fits :: "arena \<Rightarrow> bytes \<Rightarrow> bytes \<Rightarrow> bool" where
  "fits a k v \<longleftrightarrow> unat (arena_n a) + maxNodeSize + length k + length v + 3 \<le> length (arena_buf a)"

definition insert_node :: "skl_node \<Rightarrow> skl_node list \<Rightarrow> skl_node list" where
  "insert_node x N = below (sn_key x) N @ x # not_below (sn_key x) N"

lemma sorted_insert_node:
  assumes "sorted_wrt (\<lambda>x y. sn_key x < sn_key y) N" and "sn_key x \<notin> sn_key ` set N"
  shows "sorted_wrt (\<lambda>x y. sn_key x < sn_key y) (insert_node x N)"
  using assms
proof (induction N)
  case (Cons y N)
  show ?case
  proof (cases "sn_key y < sn_key x")
    case True
    moreover have "set (insert_node x N) = insert x (set N)"
      using below_split [of "sn_key x" N] by (metis Un_insert_right insert_node_def list.simps(15) set_append)
    ultimately show ?thesis using Cons by (simp add: insert_node_def below_def not_below_def)
  next
    case False
    then have "sn_key x < sn_key y" using Cons.prems(2) by auto
    then show ?thesis using Cons.prems(1) False by (auto simp: insert_node_def below_def not_below_def dest: less_trans)
  qed
qed (simp add: insert_node_def below_def not_below_def)

lemma skl_rep_distinct: "skl_rep s N \<Longrightarrow> distinct (head_node s # N)"
proof -
  assume rep: "skl_rep s N"
  have "sorted_wrt (<) (map sn_key N)" using rep by (simp add: skl_rep_def sorted_wrt_map)
  then have "distinct N" using strict_sorted_iff distinct_map by blast
  moreover have "head_node s \<notin> set N" using rep by (auto simp: skl_rep_def head_node_def)
  ultimately show ?thesis by simp
qed

lemma nodes_ok_extend:
  assumes ok: "nodes_ok a M" and s: "same_outside (a\<lparr>arena_n := n\<rparr>) a' (unat (sn_off x)) (span_end x)" and x: "node_ok a' (sn_off x) (sn_key x) (sn_val x)"
    and new: "unat (arena_n a) \<le> unat (sn_off x)" and e: "span_end x \<le> unat n"
  shows "nodes_ok a' (x # M)" and "z \<in> set M \<Longrightarrow> getNext a' (unat (sn_off z)) i = getNext a (unat (sn_off z)) i"
proof -
  have n': "arena_n a' = n" and l: "length (arena_buf a') = length (arena_buf a)" using s by (simp_all add: same_outside_def)
  have ld: "load32 (a\<lparr>arena_n := n\<rparr>) p = load32 a p" for p by (simp add: load32_def)
  have old: "node_in a' y \<and> span_end y \<le> unat (sn_off x)" if y: "y \<in> set M" for y
  proof -
    have y1: "node_ok a (sn_off y) (sn_key y) (sn_val y)" "span_end y \<le> unat (arena_n a)" using ok y by (auto simp: nodes_ok_def node_in_def)
    then have "node_ok (a\<lparr>arena_n := n\<rparr>) (sn_off y) (sn_key y) (sn_val y)" by (simp add: node_ok_def ld)
    then have "node_ok a' (sn_off y) (sn_key y) (sn_val y)"
      by (rule node_ok_same [OF _ s]) (use y1(2) new in \<open>auto simp: span_end_def\<close>)
    then show ?thesis using y1(2) new e n' by (auto simp: node_in_def span_end_def)
  qed
  have "1 \<le> unat (arena_n a')" using e n' by (simp add: span_end_def maxNodeSize)
  then have "arena_inv a'" using ok l by (simp add: nodes_ok_def arena_inv_def)
  then show "nodes_ok a' (x # M)"
    using ok old x e n' by (auto simp: nodes_ok_def node_in_def apart_def)
  assume "z \<in> set M"
  then have "span_end z \<le> unat (sn_off x)" using old by simp
  then have "getNext a' (unat (sn_off z)) i = getNext (a\<lparr>arena_n := n\<rparr>) (unat (sn_off z)) i"
    by (cases "i < MaxHeight") (auto simp: getNext_def span_end_def maxNodeSize_def intro: load32_same [OF s])
  then show "getNext a' (unat (sn_off z)) i = getNext a (unat (sn_off z)) i" by (simp add: getNext_def ld)
qed

lemma nodes_ok_set: "nodes_ok a M \<Longrightarrow> set M' = set M \<Longrightarrow> nodes_ok a M'"
  by (simp add: nodes_ok_def)

lemma set_insert_node: "set (insert_node x N) = insert x (set N)"
  using below_split [of "sn_key x" N] by (metis Un_insert_right insert_node_def list.simps(15) set_append)

lemma skl_Add_exists:
  assumes "skl_rep s N" and "key \<in> sn_key ` set N"
  shows "skl_Add s key value rnd = Some (s, Some ErrRecordExists)"
  using findSplice_ok [OF assms(1), of key] assms(2) by (auto simp: skl_Add_def)

lemma skl_Add_full:
  assumes rep: "skl_rep s N" and "key \<notin> sn_key ` set N" and small: "maxNodeSize + length key + length value < 2 ^ 32"
    and nw: "unat (arena_n (skl_arena s)) < 2 ^ 63" and full: "\<not> fits (skl_arena s) key value"
  shows "\<exists>s' n. skl_Add s key value rnd = Some (s', Some (ErrArena ErrFull)) \<and> s' = s\<lparr>skl_arena := (skl_arena s)\<lparr>arena_n := n\<rparr>\<rparr> \<and>
    unat n = unat (arena_n (skl_arena s)) + maxNodeSize + length key + length value + 3 \<and> skl_rep s' N"
proof -
  let ?a = "skl_arena s"
  have inv: "arena_inv ?a" using rep by (simp add: skl_rep_def nodes_ok_def)
  obtain n res a' where nn: "newNode ?a key value = Some (a', res)" "unat n = unat (arena_n ?a) + maxNodeSize + length key + length value + 3"
    "length (arena_buf ?a) < unat n \<Longrightarrow> res = Inl ErrFull \<and> a' = ?a\<lparr>arena_n := n\<rparr>"
    using newNode_ok [OF inv small nw] by (auto split: if_splits)
  have f: "res = Inl ErrFull" "a' = ?a\<lparr>arena_n := n\<rparr>" using nn(2,3) full by (auto simp: fits_def)
  obtain spl where "findSplice s key = Some (spl, False)" using findSplice_ok [OF rep, of key] assms(2) by auto
  then have run: "skl_Add s key value rnd = Some (s\<lparr>skl_arena := ?a\<lparr>arena_n := n\<rparr>\<rparr>, Some (ErrArena ErrFull))"
    using nn(1) f by (simp add: skl_Add_def)
  have same: "getNext (?a\<lparr>arena_n := n\<rparr>) p i = getNext ?a p i" "load32 (?a\<lparr>arena_n := n\<rparr>) p = load32 ?a p" for p i
    by (simp_all add: getNext_def load32_def)
  have "nodes_ok (?a\<lparr>arena_n := n\<rparr>) (head_node s # N)"
    using rep nn(2) by (fastforce simp: skl_rep_def nodes_ok_def node_in_def node_ok_def arena_inv_def same)
  then have "skl_rep (s\<lparr>skl_arena := ?a\<lparr>arena_n := n\<rparr>\<rparr>) N" using rep by (simp add: skl_rep_def same head_node_def)
  then show ?thesis using run nn(2) by blast
qed

lemma skl_Add_new:
  assumes rep: "skl_rep s N" and fresh: "key \<notin> sn_key ` set N" and small: "maxNodeSize + length key + length value < 2 ^ 32"
    and fit: "fits (skl_arena s) key value" and nw: "unat (arena_n (skl_arena s)) < 2 ^ 63"
  shows "\<exists>s' x. skl_Add s key value rnd = Some (s', None) \<and> skl_rep s' (insert_node x N) \<and> node_entry x = (key, value) \<and>
    skl_head s' = skl_head s \<and> unat (arena_n (skl_arena s')) = unat (arena_n (skl_arena s)) + maxNodeSize + length key + length value + 3 \<and>
    length (arena_buf (skl_arena s')) = length (arena_buf (skl_arena s))"
proof -
  let ?a = "skl_arena s" and ?hn = "head_node s" and ?h = "randomHeight rnd"
  note hb = randomHeight_bounds [of rnd]
  have ok: "nodes_ok ?a (?hn # N)" and srt: "sorted_wrt (\<lambda>x y. sn_key x < sn_key y) N" and hs: "1 \<le> skl_height s" "skl_height s \<le> MaxHeight"
    and lk: "\<forall>i<MaxHeight. linked (next_at_level ?a i) (skl_head s) (map sn_off (level_nodes i N))"
    and hts: "\<forall>x\<in>set N. 1 \<le> sn_height x \<and> sn_height x \<le> skl_height s" using rep by (auto simp: skl_rep_def)
  have inv: "arena_inv ?a" using ok by (simp add: nodes_ok_def)
  obtain n off a' where nn: "newNode ?a key value = Some (a', Inr off)" "unat n = unat (arena_n ?a) + maxNodeSize + length key + length value + 3"
    "node_ok a' off key value" "unat (arena_n ?a) \<le> unat off" "unat off + maxNodeSize + length key + length value \<le> unat n"
    "same_outside (?a\<lparr>arena_n := n\<rparr>) a' (unat off) (unat off + maxNodeSize + length key + length value)"
    using newNode_ok [OF inv small nw] fit by (auto simp: fits_def split: if_splits)
  define x where "x = \<lparr>sn_off = off, sn_height = ?h, sn_key = key, sn_val = value\<rparr>"
  have sx: "span_end x = unat off + maxNodeSize + length key + length value" by (simp add: span_end_def x_def)
  have ext: "nodes_ok a' (x # ?hn # N)" "z \<in> set (?hn # N) \<Longrightarrow> getNext a' (unat (sn_off z)) i = getNext ?a (unat (sn_off z)) i" for z i
    using nodes_ok_extend [OF ok, of n a' x] nn(3-6) sx by (simp_all add: x_def)
  have xN: "x \<notin> set (?hn # N)"
  proof
    assume "x \<in> set (?hn # N)"
    then have "span_end x \<le> unat (arena_n ?a)" using ok by (auto simp: nodes_ok_def node_in_def)
    then show False using nn(4) sx by (simp add: maxNodeSize)
  qed
  have ok1: "nodes_ok a' (?hn # insert_node x N)" by (rule nodes_ok_set [OF ext(1)]) (auto simp: set_insert_node)
  have lk1: "\<forall>i<MaxHeight. linked (next_at_level a' i) (skl_head s) (map sn_off (level_nodes i (if i < 0 then insert_node x N else N)))"
  proof (intro allI impI)
    fix i assume i: "i < MaxHeight"
    have same: "getNext a' (unat q) i = getNext ?a (unat q) i" if q: "q \<in> set (skl_head s # map sn_off (level_nodes i N))" for q
    proof -
      have "q \<in> set (sn_off ?hn # map sn_off (level_nodes i N))" using q by (simp add: head_node_def)
      from level_offs [OF this order_refl] obtain z where "z \<in> set (?hn # N)" "q = sn_off z" by blast
      then show ?thesis using ext(2) by simp
    qed
    from linked_cong [of "skl_head s" "map sn_off (level_nodes i N)" "next_at_level a' i" "next_at_level ?a i", OF same] lk i
    show "linked (next_at_level a' i) (skl_head s) (map sn_off (level_nodes i (if i < 0 then insert_node x N else N)))" by simp
  qed
  obtain spl where spl: "findSplice s key = Some (spl, False)"
      "\<forall>i<MaxHeight. spl ! i = (if i < skl_height s then (case place (skl_head s) key (level_nodes i N) of (p, q, _) \<Rightarrow> (p, q)) else (0, 0))"
    using findSplice_ok [OF rep, of key] fresh by auto
  have high: "level_nodes i N = []" if "skl_height s \<le> i" for i using hts that by (auto simp: level_nodes_def filter_empty_conv)
  define s1 where "s1 = s\<lparr>skl_arena := a', skl_height := max (skl_height s) ?h\<rparr>"
  have s1: "skl_head s1 = skl_head s" "head_node s1 = ?hn" by (simp_all add: s1_def head_node_def)
  have ins: "insert_node x N = below key N @ x # not_below key N" by (simp add: insert_node_def x_def)
  obtain a2 where a2: "link_levels (s1\<lparr>skl_arena := a'\<rparr>) key (sn_off x) spl [0..<sn_height x] = Some (s1\<lparr>skl_arena := a2\<rparr>, None)"
      "nodes_ok a2 (?hn # insert_node x N)" "same_size a' a2"
      "\<forall>i<MaxHeight. linked (next_at_level a2 i) (skl_head s) (map sn_off (level_nodes i (if i < sn_height x then insert_node x N else N)))"
  proof -
    have "spl ! i = (case place (skl_head s1) key (level_nodes i N) of (p, q, _) \<Rightarrow> (p, q)) \<or> spl ! i = (0, 0) \<and> level_nodes i N = []"
      if "i < sn_height x" for i
      using spl(2) [rule_format, of i] high [of i] that hb by (auto simp: x_def s1)
    moreover have "sn_height x \<le> MaxHeight" using hb by (simp add: x_def)
    ultimately show ?thesis
      using link_levels_ok [OF ins, of s1 spl 0 a'] xN skl_rep_distinct [OF rep] srt ok1 lk1 that unfolding s1 by blast
  qed
  have lvl: "level_nodes i (if i < sn_height x then insert_node x N else N) = level_nodes i (insert_node x N)" for i
    using arg_cong [OF below_split [of key N], of "filter (\<lambda>x. i < sn_height x)"] by (simp add: level_nodes_def ins)
  define s' where "s' = s1\<lparr>skl_arena := a2\<rparr>"
  have run: "skl_Add s key value rnd = Some (s', None)"
  proof -
    have "s1\<lparr>skl_arena := a'\<rparr> = s\<lparr>skl_arena := a', skl_height := max (skl_height s) ?h\<rparr>" by (simp add: s1_def)
    then show ?thesis using spl(1) nn(1) a2(1) by (simp add: skl_Add_def Let_def s'_def x_def)
  qed
  have "sn_key x \<notin> sn_key ` set N" using fresh by (simp add: x_def)
  from sorted_insert_node [OF srt this] have "skl_rep s' (insert_node x N)"
    using a2(2,4) hts hb hs unfolding lvl by (auto simp: skl_rep_def s'_def s1_def set_insert_node x_def head_node_def)
  moreover have "unat (arena_n a2) = unat (arena_n ?a) + maxNodeSize + length key + length value + 3" "length (arena_buf a2) = length (arena_buf ?a)"
    using a2(3) nn(2,6) by (simp_all add: same_size_def same_outside_def)
  ultimately show ?thesis using run by (intro exI [of _ s'] exI [of _ x]) (simp add: s'_def s1_def node_entry_def x_def)
qed

section \<open>Creation, lookup and iteration\<close>

lemma skl_New_ok:
  assumes n: "maxNodeSize + 4 \<le> n" "n \<le> arena_maxSize"
  shows "\<exists>s. skl_New (arena_New (replicate n 0)) = Some s \<and> skl_rep s [] \<and> unat (arena_n (skl_arena s)) = maxNodeSize + 4 \<and>
    length (arena_buf (skl_arena s)) = n"
proof -
  let ?a = "arena_New (replicate n 0)"
  have b: "arena_buf ?a = replicate n 0" "unat (arena_n ?a) = 1" using n(2) by (simp_all add: arena_New_def)
  have sm: "maxNodeSize + length ([] :: bytes) + length ([] :: bytes) < 2 ^ 32" "unat (arena_n ?a) < 2 ^ 63" using b by (simp_all add: maxNodeSize)
  obtain m off a' where nn: "newNode ?a [] [] = Some (a', Inr off)" "unat m = 4 + maxNodeSize" "node_ok a' off [] []" "1 \<le> unat off"
      "unat off + maxNodeSize \<le> unat m" "same_outside (?a\<lparr>arena_n := m\<rparr>) a' (unat off) (unat off + maxNodeSize)"
      "\<forall>i<MaxHeight. getNext a' (unat off) i = getNext ?a (unat off) i"
    using newNode_ok [OF arena_inv_New sm] n(1) unfolding b by (auto split: if_splits)
  define s where "s = \<lparr>skl_arena = a', skl_head = off, skl_height = 1\<rparr>"
  have "getNext ?a (unat off) i = Some 0" if "i < MaxHeight" for i
  proof -
    have "unat off + 16 + 4 * i + 4 \<le> n" using that nn(2,5) n(1) by (simp add: maxNodeSize_def)
    then show ?thesis using that b by (simp add: getNext_def load32_def Uint32LE_def)
  qed
  then have z: "\<forall>i<MaxHeight. getNext a' (unat off) i = Some 0" using nn(7) by simp
  have "arena_n a' = m" "length (arena_buf a') = n" using nn(6) b(1) by (simp_all add: same_outside_def)
  then have "nodes_ok a' [head_node s]"
    using nn n(2) by (simp add: nodes_ok_def node_in_def head_node_def s_def span_end_def arena_inv_def)
  then have "skl_rep s []" using z by (simp add: skl_rep_def s_def level_nodes_def MaxHeight_def)
  then show ?thesis using nn(1,2) \<open>arena_n a' = m\<close> \<open>length (arena_buf a') = n\<close> by (simp add: skl_New_def s_def)
qed

definition skl_src :: "skl_Iterator \<Rightarrow> kv list \<Rightarrow> bool" where
  "skl_src it es \<longleftrightarrow> (\<exists>N. skl_rep (si_list it) N \<and> es = map node_entry N)"

definition skl_at :: "skl_Iterator \<Rightarrow> kv list \<Rightarrow> kv list \<Rightarrow> bool" where
  "skl_at it es rest \<longleftrightarrow> (\<exists>xs ys. skl_rep (si_list it) (xs @ ys) \<and> es = map node_entry (xs @ ys) \<and> rest = map node_entry ys \<and>
     si_nd it = hd0 (map sn_off ys))"

lemma sorted_entries: "skl_rep s N \<Longrightarrow> sorted_keys (map node_entry N)"
  by (simp add: skl_rep_def sorted_wrt_map node_entry_def comp_def)

lemma skl_rep_linked:
  assumes "skl_rep s (xs @ ys)"
  shows "getNext (skl_arena s) (unat (last (skl_head s # map sn_off xs))) 0 = Some (hd0 (map sn_off ys))"
proof -
  note l0 = level0 [OF assms]
  have "linked (next_at_level (skl_arena s) 0) (skl_head s) (map sn_off (level_nodes 0 (xs @ ys)))"
    using assms by (simp add: skl_rep_def MaxHeight_def)
  then have "linked (next_at_level (skl_arena s) 0) (skl_head s) (map sn_off xs @ map sn_off ys)" unfolding l0 by simp
  from linked_next [OF linked_suffix [OF this]] show ?thesis .
qed

lemma skl_rep_node:
  assumes "skl_rep s N" and "x \<in> set N"
  shows "sn_off x \<noteq> 0" and "getNode (skl_arena s) (sn_off x) = Some (unat (sn_off x))"
    and "getKey (skl_arena s) (unat (sn_off x)) = Some (sn_key x)" and "getValue (skl_arena s) (unat (sn_off x)) = Some (sn_val x)"
proof -
  have ok: "nodes_ok (skl_arena s) (head_node s # N)" and x: "x \<in> set (head_node s # N)" using assms by (simp_all add: skl_rep_def)
  from nodes_okD [OF ok x] show "sn_off x \<noteq> 0" "getNode (skl_arena s) (sn_off x) = Some (unat (sn_off x))"
    "getKey (skl_arena s) (unat (sn_off x)) = Some (sn_key x)" "getValue (skl_arena s) (unat (sn_off x)) = Some (sn_val x)" by simp_all
qed

lemma skl_rep_head: "skl_rep s N \<Longrightarrow> getNode (skl_arena s) (skl_head s) = Some (unat (skl_head s))"
  using nodes_okD(2) [of "skl_arena s" "head_node s # N" "head_node s"] by (simp add: skl_rep_def head_node_def)

lemma hd0_zero: "skl_rep s N \<Longrightarrow> set ys \<subseteq> set N \<Longrightarrow> hd0 (map sn_off ys) \<noteq> 0 \<longleftrightarrow> ys \<noteq> []"
  using skl_rep_node(1) by (cases ys) auto

lemma si_First_ok:
  assumes rep: "skl_rep (si_list it) N"
  shows "si_First it = Some (it\<lparr>si_nd := hd0 (map sn_off N)\<rparr>, N \<noteq> [])"
  using skl_rep_linked [of "si_list it" "[]" N] skl_rep_head [OF rep] hd0_zero [OF rep order_refl] rep by (simp add: si_First_def)

lemma si_SeekGE_ok:
  assumes rep: "skl_rep (si_list it) N"
  shows "si_SeekGE it target = Some (it\<lparr>si_nd := hd0 (map sn_off (not_below target N))\<rparr>, not_below target N \<noteq> [])"
  using skl_seekGE_ok [OF rep] hd0_zero [OF rep, of "not_below target N"] set_dropWhileD
  by (fastforce simp: si_SeekGE_def place_def not_below_def)

lemma si_Next_ok:
  assumes rep: "skl_rep (si_list it) (xs @ x # ys)" and nd: "si_nd it = sn_off x"
  shows "si_Next it = Some (it\<lparr>si_nd := hd0 (map sn_off ys)\<rparr>, ys \<noteq> [])"
  using skl_rep_linked [of "si_list it" "xs @ [x]" ys] skl_rep_node [OF rep, of x] hd0_zero [OF rep, of ys] rep nd
  by (auto simp: si_Next_def)

lemma si_entry_ok:
  assumes rep: "skl_rep (si_list it) N" and "x \<in> set N" and nd: "si_nd it = sn_off x"
  shows "si_Key it = Some (sn_key x)" and "si_Value it = Some (sn_val x)" and "si_Valid it"
  using skl_rep_node [OF assms(1,2)] nd by (simp_all add: si_Key_def si_Value_def si_Valid_def)

text \<open>The state the sources of a merge share passes through.\<close>

definition lift_state :: "('i \<times> bool) option \<Rightarrow> 'g \<Rightarrow> ('i \<times> 'g \<times> bool) option" where
  "lift_state r g = map_option (\<lambda>(it, ok). (it, g, ok)) r"

lemma map_node_not_below: "dropWhile (\<lambda>e. fst e < t) (map node_entry N) = map node_entry (not_below t N)"
  by (simp add: not_below_def dropWhile_map comp_def node_entry_def)

interpretation skl: sorted_source "\<lambda>it g t. lift_state (si_SeekGE it t) g" "\<lambda>it. lift_state (si_First it)"
  "\<lambda>it. lift_state (si_Next it)" si_Valid si_Key si_Value "\<lambda>_. True" skl_src skl_at
proof (unfold_locales, goal_cases)
  case (1 it es)
  then show ?case unfolding skl_src_def using sorted_entries by blast
next
  case (2 it es g t rest)
  then obtain N where N: "skl_rep (si_list it) N" "es = map node_entry N" by (auto simp: skl_src_def)
  let ?it = "it\<lparr>si_nd := hd0 (map sn_off (not_below t N))\<rparr>"
  have r: "rest = map node_entry (not_below t N)" using 2(3) N(2) map_node_not_below by simp
  have "skl_at ?it es rest" unfolding skl_at_def
    using N r below_split [of t N] by (intro exI [of _ "below t N"] exI [of _ "not_below t N"]) simp
  then show ?case using si_SeekGE_ok [OF N(1), of t] N r by (auto simp: lift_state_def skl_src_def)
next
  case (3 it es g)
  then obtain N where N: "skl_rep (si_list it) N" "es = map node_entry N" by (auto simp: skl_src_def)
  have "skl_at (it\<lparr>si_nd := hd0 (map sn_off N)\<rparr>) es es" unfolding skl_at_def
    using N by (intro exI [of _ "[]"] exI [of _ N]) simp
  then show ?case using si_First_ok [OF N(1)] N by (auto simp: lift_state_def skl_src_def)
next
  case (4 it es e rest g)
  then obtain xs ys where a: "skl_rep (si_list it) (xs @ ys)" "es = map node_entry (xs @ ys)" "e # rest = map node_entry ys"
      "si_nd it = hd0 (map sn_off ys)" by (auto simp: skl_at_def)
  obtain x zs where ys: "ys = x # zs" "rest = map node_entry zs" using a(3) by (cases ys) auto
  have "skl_at (it\<lparr>si_nd := hd0 (map sn_off zs)\<rparr>) es rest" unfolding skl_at_def
    using a ys by (intro exI [of _ "xs @ [x]"] exI [of _ zs]) simp
  then show ?case using si_Next_ok [of it xs x zs] a ys by (auto simp: lift_state_def skl_src_def)
next
  case (5 it es e rest)
  then obtain xs ys where a: "skl_rep (si_list it) (xs @ ys)" "e # rest = map node_entry ys" "si_nd it = hd0 (map sn_off ys)"
    by (auto simp: skl_at_def)
  obtain x zs where "ys = x # zs" "e = node_entry x" using a(2) by (cases ys) auto
  then show ?case using si_entry_ok [OF a(1), of x] a(3) by (simp add: node_entry_def)
next
  case (6 it es rest)
  then show ?case by (auto simp: skl_at_def skl_src_def)
qed

end
