(* ===== verification/Memtable.thy ===== *)
theory Memtable
  imports Skiplist_Correct
begin

text \<open>
  The memtable of \<^verbatim>\<open>pkg/lsm/memtable/memtable.go\<close>: versions of user keys in a skiplist over an arena,
  with the range of their sequence numbers and a reference count. The random number of the skiplist is an
  argument of every insertion. The lemmas relate a memtable to the history of the operations it took,
  and show what a lookup at a sequence number finds.
\<close>

section \<open>Operations\<close>

record Memtable =
  mt_skl :: Skiplist
  mt_minSeqNum :: u64
  mt_maxSeqNum :: u64
  mt_refs :: int

definition mt_New :: "nat \<Rightarrow> Memtable option" where
  "mt_New arenaSize =
     map_option (\<lambda>s. \<lparr>mt_skl = s, mt_minSeqNum = 0, mt_maxSeqNum = 0, mt_refs = 1\<rparr>) (skl_New (arena_New (replicate arenaSize 0)))"

definition mt_updateSeqRange :: "Memtable \<Rightarrow> u64 \<Rightarrow> Memtable" where
  "mt_updateSeqRange m seqNum =
     (let m = (if mt_minSeqNum m \<noteq> 0 \<and> mt_minSeqNum m \<le> seqNum then m else m\<lparr>mt_minSeqNum := seqNum\<rparr>)
      in if seqNum \<le> mt_maxSeqNum m then m else m\<lparr>mt_maxSeqNum := seqNum\<rparr>)"

definition mt_Set :: "Memtable \<Rightarrow> bytes \<Rightarrow> bytes \<Rightarrow> u64 \<Rightarrow> u32 \<Rightarrow> (Memtable \<times> skl_error option) option" where
  "mt_Set m key value seqNum rnd =
     (let ikey = MakeInternalKey key seqNum KindSet;
          m = mt_updateSeqRange m seqNum
      in map_option (\<lambda>(s, err). (m\<lparr>mt_skl := s\<rparr>, err)) (skl_Add (mt_skl m) ikey value rnd))"

definition mt_Delete :: "Memtable \<Rightarrow> bytes \<Rightarrow> u64 \<Rightarrow> u32 \<Rightarrow> (Memtable \<times> skl_error option) option" where
  "mt_Delete m key seqNum rnd =
     (let ikey = MakeInternalKey key seqNum KindDelete;
          m = mt_updateSeqRange m seqNum
      in map_option (\<lambda>(s, err). (m\<lparr>mt_skl := s\<rparr>, err)) (skl_Add (mt_skl m) ikey [] rnd))"

definition mt_bytesEqual :: "bytes \<Rightarrow> bytes \<Rightarrow> bool" where
  "mt_bytesEqual a b \<longleftrightarrow> length a = length b \<and> (\<forall>i<length a. a ! i = b ! i)"

definition mt_Get :: "Memtable \<Rightarrow> bytes \<Rightarrow> u64 \<Rightarrow> bytes option option" where
  "mt_Get m key seqNum =
     (let seekKey = MakeInternalKey key seqNum KindSet
      in do {
        (it, ok) \<leftarrow> si_SeekGE (skl_NewIterator (mt_skl m)) seekKey;
        if \<not> ok then Some None
        else do {
          k \<leftarrow> si_Key it;
          let (foundUserKey, _, kind) = ParseInternalKey k;
          if \<not> mt_bytesEqual foundUserKey key then Some None
          else if kind = KindDelete then Some None
          else map_option Some (si_Value it)
        }
      })"

definition mt_ApproxSize :: "Memtable \<Rightarrow> u32" where
  "mt_ApproxSize m = arena_Size (skl_arena (mt_skl m))"

definition mt_IsFull :: "Memtable \<Rightarrow> bool" where
  "mt_IsFull m \<longleftrightarrow> arena_Capacity (skl_arena (mt_skl m)) * 95 div 100 < arena_Size (skl_arena (mt_skl m))"

definition mt_MinSeqNum :: "Memtable \<Rightarrow> u64" where
  "mt_MinSeqNum m = mt_minSeqNum m"

definition mt_MaxSeqNum :: "Memtable \<Rightarrow> u64" where
  "mt_MaxSeqNum m = mt_maxSeqNum m"

definition mt_Ref :: "Memtable \<Rightarrow> Memtable" where
  "mt_Ref m = m\<lparr>mt_refs := mt_refs m + 1\<rparr>"

definition mt_Unref :: "Memtable \<Rightarrow> Memtable \<times> bool" where
  "mt_Unref m = (let n = mt_refs m - 1 in (m\<lparr>mt_refs := n\<rparr>, n = 0))"

text \<open>The iterator is the one of the skiplist, with accessors for the parts of the internal key.\<close>

definition mt_NewIterator :: "Memtable \<Rightarrow> skl_Iterator" where
  "mt_NewIterator m = skl_NewIterator (mt_skl m)"

definition mi_UserKey :: "skl_Iterator \<Rightarrow> bytes option" where
  "mi_UserKey it = map_option UserKey (si_Key it)"

definition mi_SeqNum :: "skl_Iterator \<Rightarrow> u64 option" where
  "mi_SeqNum it = map_option (\<lambda>k. case ParseInternalKey k of (_, seqNum, _) \<Rightarrow> seqNum) (si_Key it)"

definition mi_Kind :: "skl_Iterator \<Rightarrow> Kind option" where
  "mi_Kind it = map_option (\<lambda>k. case ParseInternalKey k of (_, _, kind) \<Rightarrow> kind) (si_Key it)"

section \<open>Histories\<close>

text \<open>An operation on a user key: its sequence number, and the value it sets or \<open>None\<close> for a delete. A
  history lists operations in the order of their sequence numbers.\<close>

type_synonym op = "bytes \<times> u64 \<times> bytes option"

abbreviation op_seq :: "op \<Rightarrow> u64" where
  "op_seq x \<equiv> fst (snd x)"

definition op_entry :: "op \<Rightarrow> kv" where
  "op_entry x = (case x of (k, s, Some v) \<Rightarrow> (MakeInternalKey k s KindSet, v) | (k, s, None) \<Rightarrow> (MakeInternalKey k s KindDelete, []))"

text \<open>The newest operation on a key that is visible at a sequence number.\<close>

definition visible :: "op list \<Rightarrow> bytes \<Rightarrow> u64 \<Rightarrow> op option" where
  "visible H key s =
     (let vs = filter (\<lambda>x. fst x = key \<and> op_seq x \<le> s) H in if vs = [] then None else Some (last vs))"

definition history_seqs :: "op list \<Rightarrow> bool" where
  "history_seqs H \<longleftrightarrow> sorted_wrt (\<lambda>x y. op_seq x < op_seq y) H \<and> (\<forall>x\<in>set H. op_seq x \<noteq> 0 \<and> unat (op_seq x) < 2 ^ 48)"

definition history_ok :: "op list \<Rightarrow> bool" where
  "history_ok H \<longleftrightarrow> history_seqs H \<and> (\<forall>x\<in>set H. plain_key (fst x))"

lemmas history_defs = history_ok_def history_seqs_def

lemma op_entry_key: "fst (op_entry (k, s, ov)) = MakeInternalKey k s (if ov = None then KindDelete else KindSet)"
  by (cases ov) (auto simp: op_entry_def)

lemma op_entry_parse:
  assumes "unat s < 2 ^ 48"
  shows "ParseInternalKey (fst (op_entry (k, s, ov))) = (k, s, if ov = None then KindDelete else KindSet)"
    and "UserKey (fst (op_entry (k, s, ov))) = k"
proof -
  have s: "unat s < 2 ^ 56" using assms by (rule less_trans) simp
  show "ParseInternalKey (fst (op_entry (k, s, ov))) = (k, s, if ov = None then KindDelete else KindSet)"
    "UserKey (fst (op_entry (k, s, ov))) = k"
    using internal_key_roundtrip [OF s, of k "if ov = None then KindDelete else KindSet"] by (simp_all add: op_entry_key)
qed

lemma visible_Some:
  assumes "history_ok H" and "visible H key s = Some x"
  shows "x \<in> set H" and "fst x = key" and "op_seq x \<le> s" and "\<And>y. y \<in> set H \<Longrightarrow> fst y = key \<Longrightarrow> op_seq y \<le> s \<Longrightarrow> op_seq y \<le> op_seq x"
proof -
  let ?vs = "filter (\<lambda>x. fst x = key \<and> op_seq x \<le> s) H"
  have vs: "?vs \<noteq> []" "x = last ?vs" using assms(2) by (auto simp: visible_def Let_def split: if_splits)
  then have "x \<in> set ?vs" using last_in_set [OF vs(1)] by simp
  then show "x \<in> set H" "fst x = key" "op_seq x \<le> s" by auto
  fix y assume y: "y \<in> set H" "fst y = key" "op_seq y \<le> s"
  then have yv: "y \<in> set ?vs" by simp
  have "sorted_wrt (\<lambda>x y. op_seq x < op_seq y) (butlast ?vs @ [last ?vs])"
    unfolding append_butlast_last_id [OF vs(1)] using assms(1) by (simp add: history_defs sorted_wrt_filter)
  then have "\<forall>z\<in>set (butlast ?vs). op_seq z < op_seq x" unfolding sorted_wrt_snoc vs(2) by (rule conjunct2)
  moreover have "y \<in> set (butlast ?vs @ [last ?vs])" unfolding append_butlast_last_id [OF vs(1)] by (rule yv)
  then have "y \<in> set (butlast ?vs) \<or> y = x" unfolding vs(2) by auto
  ultimately show "op_seq y \<le> op_seq x" by (auto dest: less_imp_le)
qed

lemma visible_None: "visible H key s = None \<longleftrightarrow> (\<forall>x\<in>set H. fst x = key \<longrightarrow> \<not> op_seq x \<le> s)"
  by (auto simp: visible_def Let_def filter_empty_conv)

lemma history_seq_inj: "history_ok H \<Longrightarrow> x \<in> set H \<Longrightarrow> y \<in> set H \<Longrightarrow> op_seq x = op_seq y \<Longrightarrow> x = y"
proof -
  assume h: "history_ok H" "x \<in> set H" "y \<in> set H" "op_seq x = op_seq y"
  have "sorted_wrt (<) (map op_seq H)" using h(1) by (simp add: history_defs sorted_wrt_map)
  then have "inj_on op_seq (set H)" using strict_sorted_iff distinct_map by blast
  from inj_onD [OF this h(4,2,3)] show ?thesis .
qed

text \<open>Seeking in the entries of a history: the first entry that is not below the seek key is that of the
  visible operation, when there is one.\<close>

definition seek_rest :: "kv list \<Rightarrow> bytes \<Rightarrow> u64 \<Rightarrow> kv list" where
  "seek_rest es key s = dropWhile (\<lambda>e. fst e < MakeInternalKey key s KindSet) es"

definition op_kind :: "op \<Rightarrow> Kind" where
  "op_kind x = (if snd (snd x) = None then KindDelete else KindSet)"

lemma fst_op_entry: "fst (op_entry x) = MakeInternalKey (fst x) (op_seq x) (op_kind x)"
  by (cases x) (auto simp: op_entry_key op_kind_def)

lemma kind_le_set: "op_kind x \<le> KindSet"
  by (simp add: op_kind_def KindSet_def KindDelete_def word_le_nat_alt)

lemma seek_bound:
  assumes "unat (op_seq x) < 2 ^ 48" and "unat s < 2 ^ 48" and "fst x = key"
  shows "MakeInternalKey key s KindSet \<le> fst (op_entry x) \<longleftrightarrow> op_seq x \<le> s"
proof -
  have b: "unat (op_seq x) < 2 ^ 56" "unat s < 2 ^ 56" using assms(1,2) by simp_all
  have "fst (op_entry x) < MakeInternalKey key s KindSet \<longleftrightarrow> s < op_seq x \<or> s = op_seq x \<and> KindSet < op_kind x"
    unfolding fst_op_entry assms(3) by (rule ikey_less_same [OF b])
  then show ?thesis using kind_le_set [of x] by (auto simp: not_less [symmetric])
qed

lemma seek_rest_visible:
  assumes H: "history_ok H" and es: "set es = op_entry ` set H" "sorted_keys es" and k: "plain_key key" "unat s < 2 ^ 48"
  shows "case visible H key s of
      Some x \<Rightarrow> \<exists>tl'. seek_rest es key s = op_entry x # tl'
    | None \<Rightarrow> seek_rest es key s = [] \<or> UserKey (fst (hd (seek_rest es key s))) \<noteq> key"
proof -
  let ?T = "MakeInternalKey key s KindSet" and ?R = "seek_rest es key s"
  have small: "unat (op_seq x) < 2 ^ 48" "plain_key (fst x)" if "x \<in> set H" for x using H that by (auto simp: history_defs)
  have R: "?R = filter (\<lambda>e. \<not> fst e < ?T) es"
    unfolding seek_rest_def using es(2)
  proof (induction es)
    case (Cons e es)
    have "\<forall>x\<in>set es. fst e < fst x" using Cons.prems by simp
    then have "filter (\<lambda>e. \<not> fst e < ?T) es = es" if "\<not> fst e < ?T"
      using that unfolding filter_id_conv by (meson less_trans)
    with Cons show ?case by auto
  qed simp
  have hd: "\<exists>y\<in>set H. hd ?R = op_entry y \<and> ?T \<le> fst (op_entry y)" if "?R \<noteq> []"
  proof -
    have "hd ?R \<in> set ?R" using that by (rule hd_in_set)
    then show ?thesis unfolding R using es(1) by (auto simp: not_less)
  qed
  show ?thesis
  proof (cases "visible H key s")
    case None
    have "UserKey (fst (hd ?R)) \<noteq> key" if ne: "?R \<noteq> []"
    proof
      assume u: "UserKey (fst (hd ?R)) = key"
      obtain y where y: "y \<in> set H" "hd ?R = op_entry y" "?T \<le> fst (op_entry y)" using hd [OF ne] by blast
      then have "fst y = key" using u op_entry_parse(2) [OF small(1) [OF y(1)], of "fst y" "snd (snd y)"] by simp
      then have "op_seq y \<le> s" using seek_bound [OF small(1) [OF y(1)] k(2)] y(3) by simp
      then show False using None y(1) \<open>fst y = key\<close> by (auto simp: visible_None)
    qed
    then show ?thesis using None by auto
  next
    case (Some x)
    note v = visible_Some [OF H Some]
    have "?T \<le> fst (op_entry x)" using seek_bound [OF small(1) [OF v(1)] k(2) v(2)] v(3) by simp
    then have xR: "op_entry x \<in> set ?R" unfolding R using v(1) es(1) by (auto simp: not_less)
    then have ne: "?R \<noteq> []" by auto
    obtain y where y: "y \<in> set H" "hd ?R = op_entry y" "?T \<le> fst (op_entry y)" using hd [OF ne] by blast
    have "sorted_keys ?R" unfolding R using es(2) by (induction es) auto
    then have le: "fst (op_entry y) \<le> fst (op_entry x)" using xR ne y(2) by (cases ?R) (auto dest: less_imp_le)
    have yk: "fst y = key"
      using plain_between [OF k(1) small(2) [OF y(1)] k(2) small(1) [OF y(1)] small(1) [OF v(1)]] y(3) le v(2)
      unfolding fst_op_entry by blast
    then have ys: "op_seq y \<le> s" using seek_bound [OF small(1) [OF y(1)] k(2)] y(3) by simp
    have "op_seq x \<le> op_seq y"
    proof (rule ccontr)
      assume "\<not> op_seq x \<le> op_seq y"
      moreover have "unat (op_seq x) < 2 ^ 56" "unat (op_seq y) < 2 ^ 56" using small(1) [OF v(1)] small(1) [OF y(1)] by simp_all
      ultimately have "fst (op_entry x) < fst (op_entry y)"
        unfolding fst_op_entry v(2) yk by (subst ikey_less_same) (simp_all add: not_le)
      then show False using le by simp
    qed
    with v(4) [OF y(1) yk ys] have "op_seq y = op_seq x" by (rule antisym)
    then have "y = x" by (rule history_seq_inj [OF H y(1) v(1)])
    then show ?thesis unfolding Some option.case using y(2) ne by (intro exI [of _ "tl ?R"]) (metis list.collapse)
  qed
qed

section \<open>Memtables and their histories\<close>

definition mt_rep :: "Memtable \<Rightarrow> op list \<Rightarrow> bool" where
  "mt_rep m H \<longleftrightarrow> (\<exists>N. skl_rep (mt_skl m) N \<and> set (map node_entry N) = op_entry ` set H) \<and>
     (\<forall>x\<in>set H. mt_minSeqNum m \<noteq> 0 \<and> mt_minSeqNum m \<le> op_seq x \<and> op_seq x \<le> mt_maxSeqNum m)"

text \<open>No insertion has failed yet.\<close>

definition mt_open :: "Memtable \<Rightarrow> bool" where
  "mt_open m \<longleftrightarrow> unat (arena_n (skl_arena (mt_skl m))) \<le> length (arena_buf (skl_arena (mt_skl m)))"

definition mt_apply :: "Memtable \<Rightarrow> op \<Rightarrow> u32 \<Rightarrow> (Memtable \<times> skl_error option) option" where
  "mt_apply m x rnd =
     (case x of (key, seqNum, Some value) \<Rightarrow> mt_Set m key value seqNum rnd | (key, seqNum, None) \<Rightarrow> mt_Delete m key seqNum rnd)"

lemma mt_apply_Add:
  "mt_apply m x rnd = map_option (\<lambda>(s, err). ((mt_updateSeqRange m (op_seq x))\<lparr>mt_skl := s\<rparr>, err))
     (skl_Add (mt_skl m) (fst (op_entry x)) (snd (op_entry x)) rnd)"
  by (cases x) (auto simp: mt_apply_def mt_Set_def mt_Delete_def op_entry_def mt_updateSeqRange_def Let_def split: option.splits)

lemma updateSeqRange_simps [simp]: "mt_skl (mt_updateSeqRange m s) = mt_skl m"
  by (simp add: mt_updateSeqRange_def Let_def)

lemma updateSeqRange_ok:
  assumes "\<forall>x\<in>set H. mt_minSeqNum m \<noteq> 0 \<and> mt_minSeqNum m \<le> op_seq x \<and> op_seq x \<le> mt_maxSeqNum m"
    and "\<forall>x\<in>set H. op_seq x < s" and "s \<noteq> 0"
  shows "mt_minSeqNum (mt_updateSeqRange m s) \<noteq> 0" and "mt_minSeqNum (mt_updateSeqRange m s) \<le> s"
    and "s \<le> mt_maxSeqNum (mt_updateSeqRange m s)"
    and "x \<in> set H \<Longrightarrow> mt_minSeqNum (mt_updateSeqRange m s) \<le> op_seq x \<and> op_seq x \<le> mt_maxSeqNum (mt_updateSeqRange m s)"
proof -
  show "mt_minSeqNum (mt_updateSeqRange m s) \<noteq> 0" "mt_minSeqNum (mt_updateSeqRange m s) \<le> s"
    "s \<le> mt_maxSeqNum (mt_updateSeqRange m s)" using assms(3) by (auto simp: mt_updateSeqRange_def Let_def)
  assume x: "x \<in> set H"
  have "mt_minSeqNum m \<noteq> 0" "mt_minSeqNum m \<le> op_seq x" "op_seq x \<le> mt_maxSeqNum m" "op_seq x < s" using assms x by auto
  then show "mt_minSeqNum (mt_updateSeqRange m s) \<le> op_seq x \<and> op_seq x \<le> mt_maxSeqNum (mt_updateSeqRange m s)"
    by (auto simp: mt_updateSeqRange_def Let_def)
qed

text \<open>The room an operation takes in the arena.\<close>

definition op_size :: "op \<Rightarrow> nat" where
  "op_size x = maxNodeSize + length (fst x) + 8 + length (snd (op_entry x))"

lemma length_ikey [simp]: "length (MakeInternalKey u s k) = length u + 8"
  by (simp add: MakeInternalKey_def)

lemma mt_apply_ok:
  assumes rep: "mt_rep m H" and op: "mt_open m" and H: "history_seqs (H @ [x])" and small: "op_size x < 2 ^ 32"
  shows "\<exists>m' err. mt_apply m x rnd = Some (m', err) \<and>
    (if unat (arena_n (skl_arena (mt_skl m))) + op_size x + 3 \<le> length (arena_buf (skl_arena (mt_skl m)))
     then err = None \<and> mt_rep m' (H @ [x]) \<and> mt_open m' \<and> length (arena_buf (skl_arena (mt_skl m'))) = length (arena_buf (skl_arena (mt_skl m))) \<and>
       unat (arena_n (skl_arena (mt_skl m'))) = unat (arena_n (skl_arena (mt_skl m))) + op_size x + 3
     else err = Some (ErrArena ErrFull) \<and> mt_rep m' H)"
proof -
  let ?k = "fst (op_entry x)" and ?v = "snd (op_entry x)" and ?s = "mt_skl m" and ?m = "mt_updateSeqRange m (op_seq x)"
  have lt: "\<forall>y\<in>set H. op_seq y < op_seq x" using H by (auto simp: history_defs sorted_wrt_snoc)
  obtain N where N: "skl_rep ?s N" "set (map node_entry N) = op_entry ` set H" using rep by (auto simp: mt_rep_def)
  have rng: "\<forall>x\<in>set H. mt_minSeqNum m \<noteq> 0 \<and> mt_minSeqNum m \<le> op_seq x \<and> op_seq x \<le> mt_maxSeqNum m" using rep by (simp add: mt_rep_def)
  have nz: "op_seq x \<noteq> 0" using H by (simp add: history_defs)
  note up = updateSeqRange_ok [OF rng lt nz]
  have sz: "maxNodeSize + length ?k + length ?v = op_size x" by (simp add: fst_op_entry op_size_def)
  have fresh: "?k \<notin> sn_key ` set N"
  proof
    assume "?k \<in> sn_key ` set N"
    then have "?k \<in> fst ` set (map node_entry N)" by (simp add: node_entry_def image_image)
    then obtain y where y: "y \<in> set H" "?k = fst (op_entry y)" unfolding N(2) by auto
    have b: "unat (op_seq x) < 2 ^ 48" "unat (op_seq y) < 2 ^ 48" using H y(1) by (auto simp: history_defs)
    have "op_seq y = op_seq x"
      using y(2) op_entry_parse(1) [OF b(1), of "fst x" "snd (snd x)"] op_entry_parse(1) [OF b(2), of "fst y" "snd (snd y)"] by simp
    then show False using lt y(1) by auto
  qed
  have inv: "arena_inv (skl_arena ?s)" using N(1) by (simp add: skl_rep_def nodes_ok_def)
  have nw: "unat (arena_n (skl_arena ?s)) < 2 ^ 63" using op inv by (simp add: mt_open_def arena_inv_def arena_maxSize_def)
  have fit: "fits (skl_arena ?s) ?k ?v \<longleftrightarrow> unat (arena_n (skl_arena ?s)) + op_size x + 3 \<le> length (arena_buf (skl_arena ?s))"
    unfolding fits_def sz [symmetric] by (simp add: add.assoc)
  show ?thesis
  proof (cases "fits (skl_arena ?s) ?k ?v")
    case True
    obtain s' z where s': "skl_Add ?s ?k ?v rnd = Some (s', None)" "skl_rep s' (insert_node z N)" "node_entry z = (?k, ?v)"
        "unat (arena_n (skl_arena s')) = unat (arena_n (skl_arena ?s)) + maxNodeSize + length ?k + length ?v + 3"
        "length (arena_buf (skl_arena s')) = length (arena_buf (skl_arena ?s))"
      using skl_Add_new [OF N(1) fresh _ True nw, of rnd] small sz by auto
    have "set (map node_entry (insert_node z N)) = op_entry ` set (H @ [x])" using s'(3) N(2) by (simp add: set_insert_node)
    then have "mt_rep (?m\<lparr>mt_skl := s'\<rparr>) (H @ [x])" using s'(2) up by (auto simp: mt_rep_def)
    then show ?thesis using True fit s'(1,4,5) sz by (auto simp: mt_apply_Add mt_open_def)
  next
    case False
    obtain s' where s': "skl_Add ?s ?k ?v rnd = Some (s', Some (ErrArena ErrFull))" "skl_rep s' N"
      using skl_Add_full [OF N(1) fresh _ nw False, of rnd] small sz by auto
    have "mt_rep (?m\<lparr>mt_skl := s'\<rparr>) H" using s'(2) N(2) up by (auto simp: mt_rep_def)
    then show ?thesis using False fit s'(1) by (simp add: mt_apply_Add)
  qed
qed

lemma mt_New_ok:
  assumes "100 \<le> n" and "n < 2 ^ 32"
  shows "\<exists>m. mt_New n = Some m \<and> mt_rep m [] \<and> mt_open m \<and> length (arena_buf (skl_arena (mt_skl m))) = n \<and>
    unat (arena_n (skl_arena (mt_skl m))) = 100"
proof -
  obtain s where "skl_New (arena_New (replicate n 0)) = Some s" "skl_rep s []" "unat (arena_n (skl_arena s)) = 100" "length (arena_buf (skl_arena s)) = n"
    using skl_New_ok [of n] assms by (auto simp: maxNodeSize arena_maxSize_def)
  then show ?thesis using assms(1) by (auto simp: mt_New_def mt_rep_def mt_open_def)
qed

section \<open>Lookup\<close>

lemma bytesEqual_iff: "mt_bytesEqual a b \<longleftrightarrow> a = b"
  by (auto simp: mt_bytesEqual_def list_eq_iff_nth_eq)

text \<open>What a seek in a memtable lands on.\<close>

lemma mt_seek:
  assumes rep: "mt_rep m H" and H: "history_ok H" and k: "plain_key key" "unat s < 2 ^ 48"
  shows "case visible H key s of
      Some x \<Rightarrow> \<exists>it. si_SeekGE (skl_NewIterator (mt_skl m)) (MakeInternalKey key s KindSet) = Some (it, True) \<and>
        si_Key it = Some (fst (op_entry x)) \<and> si_Value it = Some (snd (op_entry x))
    | None \<Rightarrow> \<exists>it ok. si_SeekGE (skl_NewIterator (mt_skl m)) (MakeInternalKey key s KindSet) = Some (it, ok) \<and>
        (ok \<longrightarrow> (\<exists>k'. si_Key it = Some k' \<and> UserKey k' \<noteq> key \<and> fst (ParseInternalKey k') \<noteq> key))"
proof -
  obtain N where N: "skl_rep (mt_skl m) N" "set (map node_entry N) = op_entry ` set H" using rep by (auto simp: mt_rep_def)
  let ?T = "MakeInternalKey key s KindSet" and ?R = "not_below (MakeInternalKey key s KindSet) N"
  define it where "it = (skl_NewIterator (mt_skl m))\<lparr>si_nd := hd0 (map sn_off ?R)\<rparr>"
  have sk: "si_SeekGE (skl_NewIterator (mt_skl m)) ?T = Some (it, ?R \<noteq> [])"
    using si_SeekGE_ok [of "skl_NewIterator (mt_skl m)" N ?T] N(1) by (simp add: it_def skl_NewIterator_def)
  have rest: "seek_rest (map node_entry N) key s = map node_entry ?R" unfolding seek_rest_def by (rule map_node_not_below)
  have at: "si_Key it = Some (sn_key y) \<and> si_Value it = Some (sn_val y)" if R: "?R = y # ys" for y ys
  proof -
    have "y \<in> set N" using R below_split [of ?T N] by (metis in_set_conv_decomp)
    then show ?thesis using si_entry_ok [of it N y] N(1) R by (simp add: it_def skl_NewIterator_def)
  qed
  note v = seek_rest_visible [OF H N(2) sorted_entries [OF N(1)] k, unfolded rest]
  show ?thesis
  proof (cases "visible H key s")
    case None
    have "UserKey (sn_key y) \<noteq> key \<and> fst (ParseInternalKey (sn_key y)) \<noteq> key" if "?R = y # ys" for y ys
      using v that unfolding None option.case by (auto simp: node_entry_def UserKey_def ParseInternalKey_def Let_def)
    then show ?thesis unfolding None option.case using sk at by (cases ?R) auto
  next
    case (Some x)
    then obtain y ys where "?R = y # ys" "node_entry y = op_entry x" using v by auto
    then show ?thesis unfolding Some option.case using sk at by (auto simp: node_entry_def prod_eq_iff)
  qed
qed

lemma mt_Get_ok:
  assumes rep: "mt_rep m H" and H: "history_ok H" and k: "plain_key key" "unat s < 2 ^ 48"
  shows "mt_Get m key s = Some (case visible H key s of None \<Rightarrow> None | Some x \<Rightarrow> snd (snd x))"
proof (cases "visible H key s")
  case None
  then show ?thesis using mt_seek [OF assms]
    by (auto simp: mt_Get_def Let_def bytesEqual_iff split: prod.splits)
next
  case (Some x)
  then obtain it where it: "si_SeekGE (skl_NewIterator (mt_skl m)) (MakeInternalKey key s KindSet) = Some (it, True)"
      "si_Key it = Some (fst (op_entry x))" "si_Value it = Some (snd (op_entry x))" using mt_seek [OF assms] by auto
  note v = visible_Some [OF H Some]
  have "unat (op_seq x) < 2 ^ 48" using H v(1) by (auto simp: history_defs)
  from op_entry_parse(1) [OF this, of "fst x" "snd (snd x)", unfolded prod.collapse] v(2)
  have "ParseInternalKey (fst (op_entry x)) = (key, op_seq x, if snd (snd x) = None then KindDelete else KindSet)" by simp
  moreover have "KindSet \<noteq> KindDelete" by (simp add: KindSet_def KindDelete_def)
  moreover have "snd (snd x) = Some v \<Longrightarrow> snd (op_entry x) = v" for v by (cases x) (simp add: op_entry_def)
  ultimately show ?thesis using it Some by (cases "snd (snd x)") (simp_all add: mt_Get_def Let_def bytesEqual_iff)
qed

section \<open>Properties\<close>

fun skl_adds :: "Skiplist \<Rightarrow> (kv \<times> u32) list \<Rightarrow> (Skiplist \<times> skl_error option list) option" where
  "skl_adds s [] = Some (s, [])"
| "skl_adds s (((k, v), rnd) # xs) = do {
     (s, err) \<leftarrow> skl_Add s k v rnd;
     (s, errs) \<leftarrow> skl_adds s xs;
     Some (s, err # errs)
   }"

text \<open>The room a sequence of entries takes in the arena, and the errors its insertion reports.\<close>

definition entries_size :: "kv list \<Rightarrow> nat" where
  "entries_size es = sum_list (map (\<lambda>e. maxNodeSize + length (fst e) + length (snd e) + 3) es)"

fun add_errors :: "bytes set \<Rightarrow> kv list \<Rightarrow> skl_error option list" where
  "add_errors S [] = []"
| "add_errors S (e # es) = (if fst e \<in> S then Some ErrRecordExists else None) # add_errors (insert (fst e) S) es"

lemma skl_adds_ok:
  assumes "skl_rep s N" and "unat (arena_n (skl_arena s)) + entries_size (map fst xs) \<le> length (arena_buf (skl_arena s))"
  shows "\<exists>s' N'. skl_adds s xs = Some (s', add_errors (sn_key ` set N) (map fst xs)) \<and> skl_rep s' N' \<and>
    map_of (map node_entry N') = map_of (map node_entry N @ map fst xs)"
  using assms
proof (induction xs arbitrary: s N)
  case Nil
  then show ?case by auto
next
  case (Cons x xs)
  obtain k v rnd where x: "x = ((k, v), rnd)" by (cases x) auto
  have room: "unat (arena_n (skl_arena s)) + (maxNodeSize + length k + length v + 3) + entries_size (map fst xs) \<le> length (arena_buf (skl_arena s))"
    using Cons.prems(2) by (simp add: x entries_size_def)
  have inv: "length (arena_buf (skl_arena s)) < 2 ^ 32" using Cons.prems(1) by (simp add: skl_rep_def nodes_ok_def arena_inv_def arena_maxSize_def)
  have keys: "sn_key ` set N = dom (map_of (map node_entry N))" by (simp add: dom_map_of_conv_image_fst image_image node_entry_def)
  show ?case
  proof (cases "k \<in> sn_key ` set N")
    case True
    have ad: "skl_Add s k v rnd = Some (s, Some ErrRecordExists)" by (rule skl_Add_exists [OF Cons.prems(1) True])
    obtain s' N' where r: "skl_adds s xs = Some (s', add_errors (sn_key ` set N) (map fst xs))" "skl_rep s' N'"
        "map_of (map node_entry N') = map_of (map node_entry N @ map fst xs)"
      using Cons.IH [OF Cons.prems(1)] room by auto
    have "map_of (map node_entry N @ map fst xs) = map_of (map node_entry N @ map fst (x # xs))"
      using True unfolding keys by (auto simp: x map_add_def dom_def split: option.splits)
    then show ?thesis using ad r True by (auto simp: x insert_absorb)
  next
    case False
    obtain s1 y where s1: "skl_Add s k v rnd = Some (s1, None)" "skl_rep s1 (insert_node y N)" "node_entry y = (k, v)"
        "unat (arena_n (skl_arena s1)) = unat (arena_n (skl_arena s)) + maxNodeSize + length k + length v + 3"
        "length (arena_buf (skl_arena s1)) = length (arena_buf (skl_arena s))"
      using skl_Add_new [OF Cons.prems(1) False, of v rnd] room inv by (auto simp: fits_def)
    have yk: "sn_key y = k" using s1(3) by (simp add: node_entry_def)
    obtain s' N' where r: "skl_adds s1 xs = Some (s', add_errors (insert k (sn_key ` set N)) (map fst xs))" "skl_rep s' N'"
        "map_of (map node_entry N') = map_of (map node_entry (insert_node y N) @ map fst xs)"
      using Cons.IH [OF s1(2)] room s1(4,5) yk by (auto simp: set_insert_node)
    have "map_of (map node_entry (insert_node y N)) = (map_of (map node_entry N))(k \<mapsto> v)"
    proof -
      have d: "distinct (map fst (map node_entry (insert_node y N)))" using sorted_entries [OF s1(2)] strict_sorted_iff by blast
      have d': "distinct (map fst (map node_entry (y # N)))"
        using sorted_entries [OF Cons.prems(1)] strict_sorted_iff False yk by (auto simp: node_entry_def image_image comp_def)
      have "map_of (map node_entry (insert_node y N)) = map_of (map node_entry (y # N))"
        by (rule map_of_eqI) (use d d' map_of_inject_set [OF d d'] in \<open>auto simp: set_insert_node\<close>)
      then show ?thesis using s1(3) by simp
    qed
    then have "map_of (map node_entry (insert_node y N) @ map fst xs) = map_of (map node_entry N @ map fst (x # xs))"
      using False unfolding keys by (auto simp: x map_add_def dom_def split: option.splits)
    then show ?thesis using s1(1) r False by (auto simp: x)
  qed
qed

text \<open>C29: The skiplist is a sorted map. However tall the nodes come out, after any sequence of insertions
  that the arena has room for, a key that was there already is refused and every other insertion
  succeeds; iterating from the start yields every key once, in order, with the value of its first
  insertion, iterating from a seek yields those not below the target, and a lookup finds exactly
  these values.\<close>

theorem skiplist_sorted_map:
  assumes "skl_New (arena_New (replicate n 0)) = Some s0" and "100 + entries_size (map fst xs) \<le> n" and "n < 2 ^ 32"
  shows "\<exists>s es. skl_adds s0 xs = Some (s, add_errors {} (map fst xs)) \<and> sorted_keys es \<and> map_of es = map_of (map fst xs) \<and>
    read_rest (\<lambda>it. lift_state (si_Next it)) si_Key si_Value (length es) (lift_state (si_First (skl_NewIterator s)) ()) = Some (es, ()) \<and>
    read_rest (\<lambda>it. lift_state (si_Next it)) si_Key si_Value (length es) (lift_state (si_SeekGE (skl_NewIterator s) t) ()) =
      Some (dropWhile (\<lambda>e. fst e < t) es, ()) \<and>
    (\<forall>k. skl_Get s k = Some (map_of es k))"
proof -
  have n: "maxNodeSize + 4 \<le> n" "n \<le> arena_maxSize" using assms(2,3) by (simp_all add: maxNodeSize arena_maxSize_def)
  have s0: "skl_rep s0 []" "unat (arena_n (skl_arena s0)) = 100" "length (arena_buf (skl_arena s0)) = n"
    using skl_New_ok [OF n] assms(1) by (auto simp: maxNodeSize)
  obtain s N where s: "skl_adds s0 xs = Some (s, add_errors {} (map fst xs))" "skl_rep s N" "map_of (map node_entry N) = map_of (map fst xs)"
    using skl_adds_ok [OF s0(1), of xs] s0 assms(2) by auto
  let ?es = "map node_entry N"
  have src: "skl_src (skl_NewIterator s) ?es" using s(2) by (auto simp: skl_src_def skl_NewIterator_def)
  have "skl_Get s k = Some (map_of ?es k)" for k
  proof (cases "not_below k N")
    case Nil
    then have "k \<notin> fst ` set ?es" by (auto simp: not_below_def node_entry_def dropWhile_eq_Nil_conv)
    then have "map_of ?es k = None" by (simp add: map_of_eq_None_iff)
    then show ?thesis using skl_seekGE_ok [OF s(2), of k] Nil by (simp add: skl_Get_def place_def)
  next
    case (Cons x ys)
    have xN: "x \<in> set N" using below_split [of k N] Cons by (metis in_set_conv_decomp)
    have srt: "sorted_wrt (\<lambda>x y. sn_key x < sn_key y) N" using s(2) by (simp add: skl_rep_def)
    have "map_of ?es k = (if sn_key x = k then Some (sn_val x) else None)"
    proof (cases "sn_key x = k")
      case True
      have "distinct (map fst ?es)" using sorted_entries [OF s(2)] strict_sorted_iff by blast
      then show ?thesis using xN True by (auto simp: node_entry_def intro!: map_of_is_SomeI)
    next
      case False
      then have "k \<notin> sn_key ` set N" using place_found [OF srt, of 0 k] Cons by (simp add: place_def)
      then have "map_of ?es k = None" by (simp add: map_of_eq_None_iff image_image node_entry_def)
      then show ?thesis using False by simp
    qed
    then show ?thesis using skl_seekGE_ok [OF s(2), of k] Cons skl_rep_node [OF s(2) xN] by (simp add: skl_Get_def place_def)
  qed
  then show ?thesis
    using s(1,3) sorted_entries [OF s(2)] skl.read_first [OF src TrueI order_refl, where g = "()"]
      skl.read_seek [OF src TrueI order_refl, where g = "()" and t = t]
    by (intro exI [of _ s] exI [of _ ?es]) simp
qed

theorem skiplist_sorted_map_witness:
  "\<exists>s0 s. skl_New (arena_New (replicate 500 0)) = Some s0 \<and>
     skl_adds s0 [(([2], [20]), 5), (([1], [10]), 0xFFFFFFFF), (([2], [30]), 7)] = Some (s, [None, None, Some ErrRecordExists]) \<and>
     skl_Get s [2] = Some (Some [20]) \<and> skl_Get s [3] = Some None"
proof -
  obtain s0 where s0: "skl_New (arena_New (replicate 500 0)) = Some s0"
    using skl_New_ok [of 500] by (auto simp: maxNodeSize arena_maxSize_def)
  let ?xs = "[(([2], [20]), 5), (([1], [10]), 0xFFFFFFFF), (([2], [30]), 7)] :: (kv \<times> u32) list"
  have sz: "100 + entries_size (map fst ?xs) \<le> 500" "(500 :: nat) < 2 ^ 32" by (simp_all add: entries_size_def maxNodeSize)
  obtain s es where s: "skl_adds s0 ?xs = Some (s, add_errors {} (map fst ?xs))" "map_of es = map_of (map fst ?xs)" "\<forall>k. skl_Get s k = Some (map_of es k)"
    using skiplist_sorted_map [OF s0 sz, of "[]"] by (elim exE conjE) (rule that)
  have "add_errors {} (map fst ?xs) = [None, None, Some ErrRecordExists]" by simp
  with s(1) have "skl_adds s0 ?xs = Some (s, [None, None, Some ErrRecordExists])" by (simp only:)
  moreover have "skl_Get s [2] = Some (Some [20])" "skl_Get s [3] = Some None" using s(2,3) by simp_all
  ultimately show ?thesis using s0 by blast
qed

text \<open>Operations applied one after the other up to the first error.\<close>

fun mt_applies :: "Memtable \<Rightarrow> (op \<times> u32) list \<Rightarrow> (Memtable \<times> skl_error option) option" where
  "mt_applies m [] = Some (m, None)"
| "mt_applies m ((x, rnd) # xs) =
     (case mt_apply m x rnd of None \<Rightarrow> None | Some (m, Some e) \<Rightarrow> Some (m, Some e) | Some (m, None) \<Rightarrow> mt_applies m xs)"

lemma history_seqs_append: "history_seqs (H @ H') \<Longrightarrow> history_seqs H"
  by (auto simp: history_defs sorted_wrt_append)

lemma mt_applies_ok:
  assumes "mt_rep m H" and "mt_open m" and "history_seqs (H @ map fst xs)" and "\<forall>x\<in>set xs. op_size (fst x) < 2 ^ 32"
  shows "\<exists>m' err i. mt_applies m xs = Some (m', err) \<and> i \<le> length xs \<and> mt_rep m' (H @ map fst (take i xs)) \<and>
    (if err = None then i = length xs else i < length xs \<and> err = Some (ErrArena ErrFull)) \<and>
    (unat (arena_n (skl_arena (mt_skl m))) + sum_list (map (\<lambda>x. op_size (fst x) + 3) xs) \<le> length (arena_buf (skl_arena (mt_skl m))) \<longrightarrow> err = None)"
  using assms
proof (induction xs arbitrary: m H)
  case Nil
  then show ?case by auto
next
  case (Cons y xs)
  obtain x rnd where y: "y = (x, rnd)" by (cases y)
  let ?n = "unat (arena_n (skl_arena (mt_skl m)))" and ?l = "length (arena_buf (skl_arena (mt_skl m)))"
  have H: "history_seqs (H @ [x])" using history_seqs_append [of "H @ [x]" "map fst xs"] Cons.prems(3) y by simp
  obtain m1 err where m1: "mt_apply m x rnd = Some (m1, err)"
      "?n + op_size x + 3 \<le> ?l \<Longrightarrow> err = None \<and> mt_rep m1 (H @ [x]) \<and> mt_open m1 \<and> length (arena_buf (skl_arena (mt_skl m1))) = ?l \<and>
         unat (arena_n (skl_arena (mt_skl m1))) = ?n + op_size x + 3"
      "\<not> ?n + op_size x + 3 \<le> ?l \<Longrightarrow> err = Some (ErrArena ErrFull) \<and> mt_rep m1 H"
    using mt_apply_ok [OF Cons.prems(1,2) H, of rnd] Cons.prems(4) y by (auto split: if_splits)
  show ?case
  proof (cases "?n + op_size x + 3 \<le> ?l")
    case True
    note m1 = m1(1) m1(2) [OF True]
    obtain m' e i where r: "mt_applies m1 xs = Some (m', e)" "i \<le> length xs" "mt_rep m' ((H @ [x]) @ map fst (take i xs))"
        "if e = None then i = length xs else i < length xs \<and> e = Some (ErrArena ErrFull)"
        "unat (arena_n (skl_arena (mt_skl m1))) + sum_list (map (\<lambda>x. op_size (fst x) + 3) xs) \<le> length (arena_buf (skl_arena (mt_skl m1))) \<longrightarrow> e = None"
      using Cons.IH [of m1 "H @ [x]"] m1 Cons.prems(3,4) y by auto
    then show ?thesis using m1 y by (intro exI [of _ m'] exI [of _ e] exI [of _ "Suc i"]) (auto split: if_splits)
  next
    case False
    then show ?thesis using m1 y by (intro exI [of _ m1] exI [of _ err] exI [of _ 0]) auto
  qed
qed

text \<open>C28: A memtable answers by version. Sets and deletes with rising sequence numbers go in until the arena
  is full, which is reported and loses nothing that went in before; a lookup at any sequence number
  then returns the value of the newest set of its key at or below that number, and nothing when
  there is none or when a delete is newer. The user keys are free of the byte \<open>0xff\<close>, and the
  sequence numbers are below \<open>2 ^ 48\<close>.\<close>

theorem memtable_get:
  assumes "mt_New n = Some m0" and "100 \<le> n" and "n < 2 ^ 32" and "history_ok (map fst xs)" and "\<forall>x\<in>set xs. op_size (fst x) < 2 ^ 32"
    and "plain_key key" and "unat s < 2 ^ 48"
  shows "\<exists>m err i. mt_applies m0 xs = Some (m, err) \<and>
    (if err = None then i = length xs else i < length xs \<and> err = Some (ErrArena ErrFull)) \<and>
    (100 + sum_list (map (\<lambda>x. op_size (fst x) + 3) xs) \<le> n \<longrightarrow> err = None) \<and>
    mt_Get m key s = Some (case visible (map fst (take i xs)) key s of None \<Rightarrow> None | Some (_, _, v) \<Rightarrow> v)"
proof -
  have m0: "mt_rep m0 []" "mt_open m0" "length (arena_buf (skl_arena (mt_skl m0))) = n" "unat (arena_n (skl_arena (mt_skl m0))) = 100"
    using mt_New_ok [OF assms(2,3)] assms(1) by auto
  have hs: "history_seqs ([] @ map fst xs)" using assms(4) by (simp add: history_ok_def)
  obtain m err i where r: "mt_applies m0 xs = Some (m, err)" "mt_rep m (map fst (take i xs))"
      "if err = None then i = length xs else i < length xs \<and> err = Some (ErrArena ErrFull)"
      "100 + sum_list (map (\<lambda>x. op_size (fst x) + 3) xs) \<le> n \<longrightarrow> err = None"
    using mt_applies_ok [OF m0(1,2) hs assms(5)] m0(3,4) by auto
  have hi: "history_ok (map fst (take i xs))"
    using assms(4) sorted_wrt_take [of "\<lambda>x y. op_seq x < op_seq y" "map fst xs" i] set_take_subset [of i xs]
    by (fastforce simp: history_defs take_map)
  have "mt_Get m key s = Some (case visible (map fst (take i xs)) key s of None \<Rightarrow> None | Some x \<Rightarrow> snd (snd x))"
    by (rule mt_Get_ok [OF r(2) hi assms(6,7)])
  then show ?thesis using r(1,3,4) by (intro exI [of _ m] exI [of _ err] exI [of _ i]) (auto split: option.splits prod.splits)
qed

theorem memtable_get_witness:
  "\<exists>m0 m. mt_New 1000 = Some m0 \<and>
     mt_applies m0 [(([1], 3, Some [10]), 5), (([2], 4, Some [20]), 6), (([1], 5, None), 7)] = Some (m, None) \<and>
     mt_Get m [1] 4 = Some (Some [10]) \<and> mt_Get m [1] 9 = Some None"
proof -
  let ?xs = "[(([1], 3, Some [10]), 5), (([2], 4, Some [20]), 6), (([1], 5, None), 7)] :: (op \<times> u32) list"
  obtain m0 where m0: "mt_New 1000 = Some m0" using mt_New_ok [of 1000] by auto
  have H: "history_ok (map fst ?xs)" by (simp add: history_defs plain_key_def word_less_nat_alt)
  have sz: "\<forall>x\<in>set ?xs. op_size (fst x) < 2 ^ 32" by (simp add: op_size_def maxNodeSize op_entry_def)
  have fit: "100 + sum_list (map (\<lambda>x. op_size (fst x) + 3) ?xs) \<le> 1000" by (simp add: op_size_def maxNodeSize op_entry_def)
  have b: "(100 :: nat) \<le> 1000" "(1000 :: nat) < 2 ^ 32" "plain_key [1]" "unat (4 :: u64) < 2 ^ 48" "unat (9 :: u64) < 2 ^ 48"
    by (simp_all add: plain_key_def)
  obtain m where m: "mt_applies m0 ?xs = Some (m, None)" "mt_Get m [1] 4 = Some (Some [10])"
    using memtable_get [OF m0 b(1,2) H sz b(3,4)] fit by (auto simp: visible_def word_le_nat_alt)
  have "mt_Get m [1] 9 = Some None"
    using memtable_get [OF m0 b(1,2) H sz b(3,5)] m(1) fit by (auto simp: visible_def word_le_nat_alt)
  with m0 m show ?thesis by blast
qed

text \<open>With the byte \<open>0xff\<close> in user keys a version can hide behind one of another key: after \<open>a\<close> is set
  at sequence number 3, and at 4 a key that continues \<open>a\<close> with six bytes \<open>0xff\<close> and \<open>0xfb\<close>, a
  lookup of \<open>a\<close> at 5 finds nothing, because the entry of the longer key lies between the seek key
  and the version of \<open>a\<close>.\<close>

theorem memtable_hidden_version:
  "\<exists>m0 m. mt_New 1000 = Some m0 \<and>
     mt_applies m0 [(([0x61], 3, Some [1]), 5), (([0x61, 0xFF, 0xFF, 0xFF, 0xFF, 0xFF, 0xFF, 0xFB], 4, Some [2]), 6)] = Some (m, None) \<and>
     visible [([0x61], 3, Some [1]), ([0x61, 0xFF, 0xFF, 0xFF, 0xFF, 0xFF, 0xFF, 0xFB], 4, Some [2])] [0x61] 5 = Some ([0x61], 3, Some [1]) \<and>
     mt_Get m [0x61] 5 = Some None"
proof -
  let ?k = "[0x61, 0xFF, 0xFF, 0xFF, 0xFF, 0xFF, 0xFF, 0xFB] :: bytes"
  let ?x = "([0x61], 3, Some [1]) :: op" and ?y = "(?k, 4, Some [2]) :: op"
  let ?xs = "[(?x, 5), (?y, 6)] :: (op \<times> u32) list" and ?T = "MakeInternalKey [0x61] 5 KindSet"
  obtain m0 where m0: "mt_New 1000 = Some m0" "mt_rep m0 []" "mt_open m0" "length (arena_buf (skl_arena (mt_skl m0))) = 1000"
      "unat (arena_n (skl_arena (mt_skl m0))) = 100" using mt_New_ok [of 1000] by auto
  have hs: "history_seqs ([] @ map fst ?xs)" by (simp add: history_defs word_less_nat_alt)
  have sz: "\<forall>x\<in>set ?xs. op_size (fst x) < 2 ^ 32" by (simp add: op_size_def maxNodeSize op_entry_def)
  have fit: "100 + sum_list (map (\<lambda>x. op_size (fst x) + 3) ?xs) \<le> 1000" by (simp add: op_size_def maxNodeSize op_entry_def)
  obtain m where m: "mt_applies m0 ?xs = Some (m, None)" "mt_rep m [?x, ?y]"
    using mt_applies_ok [OF m0(2,3) hs sz] m0(4,5) fit by (auto split: if_splits)
  obtain N where N: "skl_rep (mt_skl m) N" "set (map node_entry N) = {op_entry ?x, op_entry ?y}" using m(2) by (auto simp: mt_rep_def)
  have o: "?T < fst (op_entry ?y)" "fst (op_entry ?y) < fst (op_entry ?x)" by code_simp+
  have es: "map node_entry N = [op_entry ?y, op_entry ?x]"
  proof (rule sorted_keys_unique [OF sorted_entries [OF N(1)]])
    have "distinct (map fst (map node_entry N))" using sorted_entries [OF N(1)] strict_sorted_iff by blast
    then show "map_of (map node_entry N) = map_of [op_entry ?y, op_entry ?x]"
      using o(2) N(2) by (subst map_of_inject_set) auto
  qed (use o(2) in simp)
  then obtain a b where ab: "N = [a, b]" "node_entry a = op_entry ?y" by (auto simp: map_eq_Cons_conv)
  have nb: "not_below ?T N = N" using ab o(1) by (simp add: not_below_def node_entry_def prod_eq_iff not_less less_imp_le)
  let ?it = "(skl_NewIterator (mt_skl m))\<lparr>si_nd := sn_off a\<rparr>"
  have sk: "si_SeekGE (skl_NewIterator (mt_skl m)) ?T = Some (?it, True)"
    using si_SeekGE_ok [of "skl_NewIterator (mt_skl m)" N ?T] N(1) nb ab(1) by (simp add: skl_NewIterator_def)
  have "si_Key ?it = Some (fst (op_entry ?y))"
    using si_entry_ok(1) [of ?it N a] N(1) ab by (simp add: skl_NewIterator_def node_entry_def prod_eq_iff)
  moreover have "fst (ParseInternalKey (fst (op_entry ?y))) \<noteq> [0x61]" by code_simp
  ultimately have "mt_Get m [0x61] 5 = Some None"
    using sk by (auto simp: mt_Get_def Let_def bytesEqual_iff split: prod.splits)
  then show ?thesis using m0(1) m(1) by (auto simp: visible_def word_le_nat_alt)
qed

end
