(* ===== verification/Lsm_Iter.thy ===== *)
theory Lsm_Iter
  imports Merge Table_File Memtable
begin

text \<open>
  The implementations of the interface \<^verbatim>\<open>Iterator\<close> of \<^verbatim>\<open>pkg/lsm\<close>: the table iterator, and the
  memtable iterator behind \<^verbatim>\<open>memIterAdapter\<close> of \<^verbatim>\<open>lsm.go\<close>, which passes the shared block cache by.
  Both are sources, so merges of memtables and tables are sources.
\<close>

section \<open>Operations\<close>

datatype lsm_iter = MemIter skl_Iterator | TableIter table_iter

definition lift_mem :: "(skl_Iterator \<times> bool) option \<Rightarrow> BlockCache option \<Rightarrow> (lsm_iter \<times> BlockCache option \<times> bool) option" where
  "lift_mem r cache = map_option (\<lambda>(it, ok). (MemIter it, cache, ok)) r"

definition lift_table :: "(table_iter \<times> BlockCache option \<times> bool) option \<Rightarrow> (lsm_iter \<times> BlockCache option \<times> bool) option" where
  "lift_table r = map_option (\<lambda>(it, cache, ok). (TableIter it, cache, ok)) r"

fun li_SeekGE :: "lsm_iter \<Rightarrow> BlockCache option \<Rightarrow> bytes \<Rightarrow> (lsm_iter \<times> BlockCache option \<times> bool) option" where
  "li_SeekGE (MemIter it) cache key = lift_mem (si_SeekGE it key) cache"
| "li_SeekGE (TableIter it) cache key = lift_table (table_SeekGE it cache key)"

fun li_First :: "lsm_iter \<Rightarrow> BlockCache option \<Rightarrow> (lsm_iter \<times> BlockCache option \<times> bool) option" where
  "li_First (MemIter it) cache = lift_mem (si_First it) cache"
| "li_First (TableIter it) cache = lift_table (table_First it cache)"

fun li_Next :: "lsm_iter \<Rightarrow> BlockCache option \<Rightarrow> (lsm_iter \<times> BlockCache option \<times> bool) option" where
  "li_Next (MemIter it) cache = lift_mem (si_Next it) cache"
| "li_Next (TableIter it) cache = lift_table (table_Next it cache)"

fun li_Valid :: "lsm_iter \<Rightarrow> bool" where
  "li_Valid (MemIter it) = si_Valid it"
| "li_Valid (TableIter it) = ti_Valid (snd (snd it))"

fun li_Key :: "lsm_iter \<Rightarrow> bytes option" where
  "li_Key (MemIter it) = si_Key it"
| "li_Key (TableIter it) = ti_Key (snd (snd it))"

fun li_Value :: "lsm_iter \<Rightarrow> bytes option" where
  "li_Value (MemIter it) = si_Value it"
| "li_Value (TableIter it) = ti_Value (snd (snd it))"

section \<open>Both are sources\<close>

fun lsm_src :: "tables \<Rightarrow> lsm_iter \<Rightarrow> kv list \<Rightarrow> bool" where
  "lsm_src T (MemIter it) es = skl_src it es"
| "lsm_src T (TableIter it) es = table_src T it es"

fun lsm_at :: "tables \<Rightarrow> lsm_iter \<Rightarrow> kv list \<Rightarrow> kv list \<Rightarrow> bool" where
  "lsm_at T (MemIter it) es rest = skl_at it es rest"
| "lsm_at T (TableIter it) es rest = table_at T it es rest"

text \<open>A cache that holds blocks of the tables in \<open>T\<close> only: it stays good when tables are added.\<close>

definition cache_fits :: "tables \<Rightarrow> BlockCache option \<Rightarrow> bool" where
  "cache_fits T cache \<longleftrightarrow> (\<forall>T'. T \<subseteq>\<^sub>m T' \<longrightarrow> cache_good T' cache)"

lemma open_table_mono: "open_table T rd tr r blks seps \<Longrightarrow> T \<subseteq>\<^sub>m T' \<Longrightarrow> open_table T' rd tr r blks seps"
  unfolding open_table_def map_le_def by (metis domI)

lemma table_src_mono: "table_src T i es \<Longrightarrow> T \<subseteq>\<^sub>m T' \<Longrightarrow> table_src T' i es"
  by (cases i) (auto simp: table_src_def dest: open_table_mono)

lemma cache_fits_mono: "cache_fits T c \<Longrightarrow> T \<subseteq>\<^sub>m T' \<Longrightarrow> cache_fits T' c"
  by (auto simp: cache_fits_def dest: map_le_trans)

lemma cache_fits_good: "cache_fits T c \<Longrightarrow> cache_good T c"
  by (simp add: cache_fits_def)

lemma fits_step:
  assumes step: "\<And>T'. T \<subseteq>\<^sub>m T' \<Longrightarrow> \<exists>i' g'. r = Some (i', g', b) \<and> cache_good T' g' \<and> P i'"
  shows "\<exists>i' g'. r = Some (i', g', b) \<and> cache_fits T g' \<and> P i'"
proof -
  obtain i' g' where r: "r = Some (i', g', b)" "P i'" using step [OF map_le_refl] by (elim exE conjE) (rule that)
  have "cache_good T' g'" if "T \<subseteq>\<^sub>m T'" for T' using step [OF that] r(1) by auto
  then show ?thesis using r by (auto simp: cache_fits_def)
qed

lemma table_at_mono: "table_at T i es rest \<Longrightarrow> T \<subseteq>\<^sub>m T' \<Longrightarrow> table_at T' i es rest"
proof -
  assume a: "table_at T i es rest" "T \<subseteq>\<^sub>m T'"
  obtain rd tr it where i: "i = (rd, tr, it)" by (cases i) auto
  obtain r blks seps b j where "open_table T rd tr r blks seps" "es = concat blks" "ti_on r blks seps b j it"
      "rest = drop j (blks ! b) @ concat (drop (Suc b) blks)" using a(1) by (auto simp: table_at_def i)
  then show ?thesis unfolding i table_at_def prod.case using open_table_mono [OF _ a(2)]
    by (intro exI [of _ r] exI [of _ blks] exI [of _ seps] exI [of _ b] exI [of _ j]) simp
qed

interpretation tabf: sorted_source table_SeekGE table_First table_Next "\<lambda>i. ti_Valid (snd (snd i))" "\<lambda>i. ti_Key (snd (snd i))"
    "\<lambda>i. ti_Value (snd (snd i))" "cache_fits T" "table_src T" "table_at T"
  for T
proof (unfold_locales, goal_cases)
  case (1 i es)
  then show ?case by (rule tab.src_sorted)
next
  case (2 i es g t rest)
  have "\<exists>i' g'. table_SeekGE i g t = Some (i', g', rest \<noteq> []) \<and> cache_fits T g' \<and> (table_src T i' es \<and> (rest \<noteq> [] \<longrightarrow> table_at T i' es rest))"
  proof (rule fits_step)
    fix T' assume T': "T \<subseteq>\<^sub>m T'"
    have "cache_good T' g" using 2(2) T' by (simp add: cache_fits_def)
    then show "\<exists>i' g'. table_SeekGE i g t = Some (i', g', rest \<noteq> []) \<and> cache_good T' g' \<and> (table_src T i' es \<and> (rest \<noteq> [] \<longrightarrow> table_at T i' es rest))"
      using tab.seek_src [OF table_src_mono [OF 2(1) T'] _ 2(3)] tab.seek_src [OF 2(1) cache_fits_good [OF 2(2)] 2(3)] by fastforce
  qed
  then show ?case by blast
next
  case (3 i es g)
  have "\<exists>i' g'. table_First i g = Some (i', g', es \<noteq> []) \<and> cache_fits T g' \<and> (table_src T i' es \<and> (es \<noteq> [] \<longrightarrow> table_at T i' es es))"
  proof (rule fits_step)
    fix T' assume T': "T \<subseteq>\<^sub>m T'"
    have "cache_good T' g" using 3(2) T' by (simp add: cache_fits_def)
    then show "\<exists>i' g'. table_First i g = Some (i', g', es \<noteq> []) \<and> cache_good T' g' \<and> (table_src T i' es \<and> (es \<noteq> [] \<longrightarrow> table_at T i' es es))"
      using tab.first_src [OF table_src_mono [OF 3(1) T']] tab.first_src [OF 3(1) cache_fits_good [OF 3(2)]] by fastforce
  qed
  then show ?case by blast
next
  case (4 i es e rest g)
  have "\<exists>i' g'. table_Next i g = Some (i', g', rest \<noteq> []) \<and> cache_fits T g' \<and> (table_src T i' es \<and> (rest \<noteq> [] \<longrightarrow> table_at T i' es rest))"
  proof (rule fits_step)
    fix T' assume T': "T \<subseteq>\<^sub>m T'"
    have "cache_good T' g" using 4(2) T' by (simp add: cache_fits_def)
    then show "\<exists>i' g'. table_Next i g = Some (i', g', rest \<noteq> []) \<and> cache_good T' g' \<and> (table_src T i' es \<and> (rest \<noteq> [] \<longrightarrow> table_at T i' es rest))"
      using tab.next_at [OF table_at_mono [OF 4(1) T']] tab.next_at [OF 4(1) cache_fits_good [OF 4(2)]] by fastforce
  qed
  then show ?case by blast
next
  case (5 i es e rest)
  then show ?case by (rule tab.at_entry)
next
  case (6 i es rest)
  then show ?case by (rule tab.at_suffix)
qed

lemma mem_step:
  assumes "\<exists>i' g'. lift_state r g = Some (i', g', b) \<and> True \<and> skl_src i' es \<and> (b \<longrightarrow> skl_at i' es rest)" and "cache_fits T g"
  shows "\<exists>i' g'. lift_mem r g = Some (i', g', b) \<and> cache_fits T g' \<and> lsm_src T i' es \<and> (b \<longrightarrow> lsm_at T i' es rest)"
  using assms by (auto simp: lift_state_def lift_mem_def)

lemma table_step:
  assumes "\<exists>i' g'. r = Some (i', g', b) \<and> cache_fits T g' \<and> table_src T i' es \<and> (b \<longrightarrow> table_at T i' es rest)"
  shows "\<exists>i' g'. lift_table r = Some (i', g', b) \<and> cache_fits T g' \<and> lsm_src T i' es \<and> (b \<longrightarrow> lsm_at T i' es rest)"
proof -
  obtain i' g' where "r = Some (i', g', b)" "cache_fits T g'" "table_src T i' es" "b \<longrightarrow> table_at T i' es rest"
    using assms by (elim exE conjE) (rule that)
  then show ?thesis by (intro exI [of _ "TableIter i'"] exI [of _ g']) (simp add: lift_table_def)
qed

interpretation li: sorted_source li_SeekGE li_First li_Next li_Valid li_Key li_Value "cache_fits T" "lsm_src T" "lsm_at T"
  for T
proof (unfold_locales, goal_cases)
  case (1 i es)
  then show ?case by (cases i) (auto dest: skl.src_sorted tabf.src_sorted)
next
  case (2 i es g t rest)
  show ?case
  proof (cases i)
    case (MemIter it)
    then have "skl_src it es" using 2(1) by simp
    from mem_step [OF skl.seek_src [OF this TrueI 2(3)] 2(2)] MemIter show ?thesis by simp
  next
    case (TableIter it)
    then have "table_src T it es" using 2(1) by simp
    from table_step [OF tabf.seek_src [OF this 2(2,3)]] TableIter show ?thesis by simp
  qed
next
  case (3 i es g)
  show ?case
  proof (cases i)
    case (MemIter it)
    then have "skl_src it es" using 3(1) by simp
    from mem_step [OF skl.first_src [OF this TrueI] 3(2)] MemIter show ?thesis by simp
  next
    case (TableIter it)
    then have "table_src T it es" using 3(1) by simp
    from table_step [OF tabf.first_src [OF this 3(2)]] TableIter show ?thesis by simp
  qed
next
  case (4 i es e rest g)
  show ?case
  proof (cases i)
    case (MemIter it)
    then have "skl_at it es (e # rest)" using 4(1) by simp
    from mem_step [OF skl.next_at [OF this TrueI] 4(2)] MemIter show ?thesis by simp
  next
    case (TableIter it)
    then have "table_at T it es (e # rest)" using 4(1) by simp
    from table_step [OF tabf.next_at [OF this 4(2)]] TableIter show ?thesis by simp
  qed
next
  case (5 i es e rest)
  then show ?case by (cases i) (auto dest: skl.at_entry tabf.at_entry)
next
  case (6 i es rest)
  then show ?case by (cases i) (auto dest: skl.at_suffix tabf.at_suffix)
qed

interpretation lm: sorted_source "mi_SeekGE li_SeekGE li_Key" "mi_First li_First li_Key" "mi_Next li_Next li_Key" mi_Valid
    "mi_Key li_Key" "mi_Value li_Value" "cache_fits T" "sorted_source.mi_source (lsm_src T)" "sorted_source.mi_at_rest (lsm_src T) (lsm_at T)"
  for T
  by (rule li.merge_is_source)

lemma new_cache_fits: "cache_fits T (Some (NewBlockCache cap))"
  by (simp add: cache_fits_def new_cache_good)

section \<open>Properties\<close>

text \<open>C30: Merging memtables and tables, the newest first. From the start the merge iterator yields every key of
  any source once, in order, with the value of the first source that has the key; after a seek it
  yields those not below the target. It ends after as many steps as there are keys, whatever the
  order of the heap inside and whatever the block cache holds.\<close>

theorem merge_iterate:
  assumes "length its = length ess" and "\<forall>i<length ess. lsm_src T (its ! i) (ess ! i)" and "cache_fits T c"
  shows "\<exists>es c1 c2. sorted_keys es \<and> map_of es = newest ess \<and>
    read_rest (mi_Next li_Next li_Key) (mi_Key li_Key) (mi_Value li_Value) (length es) (mi_First li_First li_Key (NewMergeIterator its) c) = Some (es, c1) \<and>
    read_rest (mi_Next li_Next li_Key) (mi_Key li_Key) (mi_Value li_Value) (length es) (mi_SeekGE li_SeekGE li_Key (NewMergeIterator its) c t) =
      Some (dropWhile (\<lambda>e. fst e < t) es, c2)"
proof -
  have "li.mi_src T (NewMergeIterator its) ess" using assms(1,2) by (simp add: li.mi_src_def NewMergeIterator_def)
  then have src: "li.mi_source T (NewMergeIterator its) (merged ess)" by (auto simp: li.mi_source_def)
  obtain c1 where f: "read_rest (mi_Next li_Next li_Key) (mi_Key li_Key) (mi_Value li_Value) (length (merged ess))
      (mi_First li_First li_Key (NewMergeIterator its) c) = Some (merged ess, c1)"
    using lm.read_first [OF src assms(3) order_refl] by (elim exE conjE) (rule that)
  obtain c2 where s: "read_rest (mi_Next li_Next li_Key) (mi_Key li_Key) (mi_Value li_Value) (length (merged ess))
      (mi_SeekGE li_SeekGE li_Key (NewMergeIterator its) c t) = Some (dropWhile (\<lambda>e. fst e < t) (merged ess), c2)"
    using lm.read_seek [OF src assms(3) order_refl, where t = t] by (elim exE conjE) (rule that)
  from f s show ?thesis
    by (intro exI [of _ "merged ess"] exI [of _ c1] exI [of _ c2] conjI sorted_merged map_of_merged)
qed

text \<open>A memtable with one entry over a table.\<close>

lemma demo_sources:
  "\<exists>T m i. lsm_src T (MemIter m) [([1], [99])] \<and> lsm_src T (TableIter i) demo_entries"
proof -
  obtain s0 where s0: "skl_New (arena_New (replicate 500 0)) = Some s0" "skl_rep s0 []" "unat (arena_n (skl_arena s0)) = 100"
      "length (arena_buf (skl_arena s0)) = 500"
    using skl_New_ok [of 500] by (auto simp: maxNodeSize arena_maxSize_def)
  obtain s x where s: "skl_rep s (insert_node x [])" "node_entry x = ([1], [99])"
    using skl_Add_new [OF s0(2), of "[1]" "[99]" 0] s0(3,4) by (auto simp: maxNodeSize fits_def)
  have m: "skl_src (skl_NewIterator s) [([1], [99])]"
    using s by (auto simp: skl_src_def skl_NewIterator_def insert_node_def below_def not_below_def intro!: exI [of _ "[x]"])
  obtain sh' meta where w: "write_table file_Write DefaultWriterOptions demo_file demo_entries = Some (sh', Inr meta)"
    using demo_written by blast
  obtain tr r blks seps where "open_table [7 \<mapsto> (r, blks)] (bytes_ReadAt (file_bytes sh')) tr r blks seps" "concat blks = demo_entries"
    using open_written [OF demo_ok(1,2) w demo_ok(3) refl, of 7 thesis] by blast
  then have "table_src [7 \<mapsto> (r, blks)] (bytes_ReadAt (file_bytes sh'), tr, Reader_NewIterator) demo_entries"
    unfolding table_src_def prod.case by metis
  with m show ?thesis by (metis lsm_src.simps)
qed

theorem merge_iterate_witness:
  "\<exists>T m i c1. lsm_src T (MemIter m) [([1], [99])] \<and> lsm_src T (TableIter i) demo_entries \<and>
     read_rest (mi_Next li_Next li_Key) (mi_Key li_Key) (mi_Value li_Value) 3
       (mi_First li_First li_Key (NewMergeIterator [MemIter m, TableIter i]) (Some (NewBlockCache 100))) =
       Some ([([1], [99]), ([1, 2], [20]), ([3], [])], c1)"
proof -
  obtain T m i where s: "lsm_src T (MemIter m) [([1], [99])]" "lsm_src T (TableIter i) demo_entries" using demo_sources by blast
  let ?ess = "[[([1], [99])], demo_entries]" and ?es = "[([1], [99]), ([1, 2], [20]), ([3], [])] :: kv list"
  have src: "\<forall>j<length ?ess. lsm_src T ([MemIter m, TableIter i] ! j) (?ess ! j)" using s by (auto simp: less_Suc_eq)
  have l: "length [MemIter m, TableIter i] = length ?ess" by simp
  obtain es c1 where es: "sorted_keys es" "map_of es = newest ?ess"
      "read_rest (mi_Next li_Next li_Key) (mi_Key li_Key) (mi_Value li_Value) (length es)
        (mi_First li_First li_Key (NewMergeIterator [MemIter m, TableIter i]) (Some (NewBlockCache 100))) = Some (es, c1)"
    using merge_iterate [OF l src new_cache_fits, of 100 "[]"] by (elim exE conjE) (rule that)
  have "newest ?ess = map_of ?es" by (auto simp: demo_entries_def fun_eq_iff)
  then have e: "es = ?es" using es(1,2) by (intro sorted_keys_unique) simp_all
  then have "length es = 3" by simp
  from es(3) [unfolded this] s show ?thesis unfolding e
    by (intro exI [of _ T] exI [of _ m] exI [of _ i] exI [of _ c1] conjI)
qed

end
