(* ===== verification/Version.thy ===== *)
theory Version
  imports Keys Varint
begin

text \<open>
  The data of \<^verbatim>\<open>pkg/lsm/version.go\<close>: file metadata, version edits and their encoding, and
  versions with the application of an edit. The reference counts of versions, which nothing reads,
  are left out. Decoding has three outcomes: a value, an error, or the panic of a slice or index out of
  range. The lemmas show the round trip of edits and what an edit does to each level.
\<close>

section \<open>Data\<close>

definition NumLevels :: nat where
  "NumLevels = 7"

record FileMeta =
  fm_FileNum :: u64
  fm_Level :: int
  fm_Size :: u64
  fm_SmallestKey :: bytes
  fm_LargestKey :: bytes

record VersionEdit =
  NewFiles :: "FileMeta list"
  DeletedFiles :: "(int \<times> u64) list"
  LastSeqNum :: u64
  NextFileNum :: u64
  HasLastSeqNum :: bool
  HasNextFileNum :: bool

datatype manifest_field =
  FLastSeqNum | FNextFileNum | FNewFileLevel | FNewFileNum | FNewFileSize | FSmallestKeyLen | FLargestKeyLen |
  FDeletedLevel | FDeletedNum

datatype edit_error = BadField manifest_field | UnknownTag byte

datatype 'a outcome = Panic | Fail edit_error | Done 'a

fun and_then :: "'a outcome \<Rightarrow> ('a \<Rightarrow> 'b outcome) \<Rightarrow> 'b outcome" where
  "and_then Panic f = Panic"
| "and_then (Fail e) f = Fail e"
| "and_then (Done x) f = f x"

section \<open>Encoding\<close>

definition encode_newFile :: "FileMeta \<Rightarrow> bytes" where
  "encode_newFile f =
     3 # PutUvarint (of_int (fm_Level f)) @ PutUvarint (fm_FileNum f) @ PutUvarint (fm_Size f) @
     PutUvarint (of_nat (length (fm_SmallestKey f))) @ fm_SmallestKey f @
     PutUvarint (of_nat (length (fm_LargestKey f))) @ fm_LargestKey f"

definition encode_deletedFile :: "int \<times> u64 \<Rightarrow> bytes" where
  "encode_deletedFile d = 4 # PutUvarint (of_int (fst d)) @ PutUvarint (snd d)"

definition ve_encode :: "VersionEdit \<Rightarrow> bytes" where
  "ve_encode ve =
     (if HasLastSeqNum ve then 1 # PutUvarint (LastSeqNum ve) else []) @
     (if HasNextFileNum ve then 2 # PutUvarint (NextFileNum ve) else []) @
     concat (map encode_newFile (NewFiles ve)) @
     concat (map encode_deletedFile (DeletedFiles ve))"

section \<open>Decoding\<close>

text \<open>\<^verbatim>\<open>v, n := binary.Uvarint(data[i:]); if n <= 0 { return error }; i += n\<close>\<close>

definition field :: "manifest_field \<Rightarrow> bytes \<Rightarrow> (u64 \<times> bytes) outcome" where
  "field fld bs = (case Uvarint bs of (v, n) \<Rightarrow> if n \<le> 0 then Fail (BadField fld) else Done (v, drop (nat n) bs))"

text \<open>\<^verbatim>\<open>copy(key, data[i:i+int(keyLen)]); i += int(keyLen)\<close>\<close>

definition key_bytes :: "u64 \<Rightarrow> bytes \<Rightarrow> (bytes \<times> bytes) outcome" where
  "key_bytes keyLen bs = (if length bs < unat keyLen then Panic else Done (take (unat keyLen) bs, drop (unat keyLen) bs))"

definition decode_newFile :: "bytes \<Rightarrow> (FileMeta \<times> bytes) outcome" where
  "decode_newFile bs =
     and_then (field FNewFileLevel bs) (\<lambda>(level, bs).
     and_then (field FNewFileNum bs) (\<lambda>(num, bs).
     and_then (field FNewFileSize bs) (\<lambda>(sz, bs).
     and_then (field FSmallestKeyLen bs) (\<lambda>(keyLen, bs).
     and_then (key_bytes keyLen bs) (\<lambda>(smallest, bs).
     and_then (field FLargestKeyLen bs) (\<lambda>(keyLen, bs).
     and_then (key_bytes keyLen bs) (\<lambda>(largest, bs).
       Done (\<lparr>fm_FileNum = num, fm_Level = sint level, fm_Size = sz, fm_SmallestKey = smallest, fm_LargestKey = largest\<rparr>, bs))))))))"

definition decode_deletedFile :: "bytes \<Rightarrow> ((int \<times> u64) \<times> bytes) outcome" where
  "decode_deletedFile bs =
     and_then (field FDeletedLevel bs) (\<lambda>(level, bs).
     and_then (field FDeletedNum bs) (\<lambda>(num, bs). Done ((sint level, num), bs)))"

definition decode_tag :: "byte \<Rightarrow> VersionEdit \<Rightarrow> bytes \<Rightarrow> (VersionEdit \<times> bytes) outcome" where
  "decode_tag tag ve bs =
     (if tag = 1 then and_then (field FLastSeqNum bs) (\<lambda>(v, bs). Done (ve\<lparr>LastSeqNum := v, HasLastSeqNum := True\<rparr>, bs))
      else if tag = 2 then and_then (field FNextFileNum bs) (\<lambda>(v, bs). Done (ve\<lparr>NextFileNum := v, HasNextFileNum := True\<rparr>, bs))
      else if tag = 3 then and_then (decode_newFile bs) (\<lambda>(f, bs). Done (ve\<lparr>NewFiles := NewFiles ve @ [f]\<rparr>, bs))
      else if tag = 4 then and_then (decode_deletedFile bs) (\<lambda>(d, bs). Done (ve\<lparr>DeletedFiles := DeletedFiles ve @ [d]\<rparr>, bs))
      else Fail (UnknownTag tag))"

lemma and_then_Done: "and_then x f = Done y \<longleftrightarrow> (\<exists>z. x = Done z \<and> f z = Done y)"
  by (cases x) auto

lemma field_shorter: "field fld bs = Done (v, bs') \<Longrightarrow> length bs' < length bs"
proof -
  assume f: "field fld bs = Done (v, bs')"
  obtain w n where u: "Uvarint bs = (w, n)" by fastforce
  with f have n: "0 < n" "bs' = drop (nat n) bs" by (auto simp: field_def split: if_splits)
  with Uvarint_size [OF u] show ?thesis by simp
qed

lemma key_bytes_shorter: "key_bytes k bs = Done (x, bs') \<Longrightarrow> length bs' \<le> length bs"
  by (auto simp: key_bytes_def split: if_splits)

lemma decode_tag_shorter: "decode_tag tag ve bs = Done (ve', bs') \<Longrightarrow> length bs' < length bs"
  by (auto simp: decode_tag_def decode_newFile_def decode_deletedFile_def and_then_Done split: if_splits
      dest!: field_shorter key_bytes_shorter)

function decode_loop :: "VersionEdit \<Rightarrow> bytes \<Rightarrow> VersionEdit outcome" where
  "decode_loop ve [] = Done ve"
| "decode_loop ve (tag # bs) =
     (case decode_tag tag ve bs of Panic \<Rightarrow> Panic | Fail e \<Rightarrow> Fail e | Done (ve', bs') \<Rightarrow> decode_loop ve' bs')"
  by pat_completeness auto
termination
  by (relation "measure (\<lambda>(ve, bs). length bs)") (auto dest: decode_tag_shorter)

definition emptyEdit :: VersionEdit where
  "emptyEdit = \<lparr>NewFiles = [], DeletedFiles = [], LastSeqNum = 0, NextFileNum = 0, HasLastSeqNum = False, HasNextFileNum = False\<rparr>"

definition decodeVersionEdit :: "bytes \<Rightarrow> VersionEdit outcome" where
  "decodeVersionEdit data = decode_loop emptyEdit data"

section \<open>Versions\<close>

record Version =
  v_Levels :: "FileMeta list list"

definition newVersion :: Version where
  "newVersion = \<lparr>v_Levels = replicate NumLevels []\<rparr>"

definition version_clone :: "Version \<Rightarrow> Version" where
  "version_clone v = \<lparr>v_Levels = map (\<lambda>l. v_Levels v ! l) [0..<NumLevels]\<rparr>"

fun add_files :: "FileMeta list \<Rightarrow> FileMeta list list \<Rightarrow> FileMeta list list option" where
  "add_files [] levels = Some levels"
| "add_files (f # fs) levels =
     (if 0 \<le> fm_Level f \<and> fm_Level f < int NumLevels
      then add_files fs (levels[nat (fm_Level f) := levels ! nat (fm_Level f) @ [f]]) else None)"

text \<open>Go's \<^verbatim>\<open>sort.Slice\<close> leaves the order of files with equal smallest keys open; a level above
  0 has none.\<close>

definition version_apply :: "Version \<Rightarrow> VersionEdit \<Rightarrow> Version option" where
  "version_apply v edit =
     (let nv = version_clone v;
          deleted = map snd (DeletedFiles edit);
          levels = map (filter (\<lambda>f. fm_FileNum f \<notin> set deleted)) (v_Levels nv)
      in case add_files (NewFiles edit) levels of
           None \<Rightarrow> None
         | Some levels \<Rightarrow>
             Some (nv\<lparr>v_Levels := map (\<lambda>l. if l = 0 then levels ! l else sort_key fm_SmallestKey (levels ! l)) [0..<NumLevels]\<rparr>))"

definition version_overlapping :: "Version \<Rightarrow> nat \<Rightarrow> bytes \<Rightarrow> bytes \<Rightarrow> FileMeta list" where
  "version_overlapping v level smallest largest =
     filter (\<lambda>f. \<not> (0 < compareKeys (fm_SmallestKey f) largest \<or> compareKeys (fm_LargestKey f) smallest < 0)) (v_Levels v ! level)"

definition version_levelSize :: "Version \<Rightarrow> nat \<Rightarrow> u64" where
  "version_levelSize v level = fold (\<lambda>f total. total + fm_Size f) (v_Levels v ! level) 0"

section \<open>The round trip\<close>

lemma field_Put [simp]: "field fld (PutUvarint x @ rest) = Done (x, rest)"
  using length_PutUvarint [of x] by (simp add: field_def Uvarint_Put)

lemma key_bytes_Put [simp]: "length k < 2 ^ 64 \<Longrightarrow> key_bytes (of_nat (length k)) (k @ rest) = Done (k, rest)"
  by (simp add: key_bytes_def unsigned_of_nat take_bit_nat_eq_self)

lemma sint_level: "0 \<le> l \<Longrightarrow> l < 2 ^ 63 \<Longrightarrow> sint (of_int l :: u64) = l"
  by (simp add: signed_of_int signed_take_bit_int_eq_self)

definition file_ok :: "FileMeta \<Rightarrow> bool" where
  "file_ok f \<longleftrightarrow> 0 \<le> fm_Level f \<and> fm_Level f < int NumLevels \<and> length (fm_SmallestKey f) < 2 ^ 32 \<and> length (fm_LargestKey f) < 2 ^ 32"

definition edit_ok :: "VersionEdit \<Rightarrow> bool" where
  "edit_ok e \<longleftrightarrow> (\<forall>f\<in>set (NewFiles e). file_ok f) \<and> (\<forall>d\<in>set (DeletedFiles e). 0 \<le> fst d \<and> fst d < int NumLevels) \<and>
     (\<not> HasLastSeqNum e \<longrightarrow> LastSeqNum e = 0) \<and> (\<not> HasNextFileNum e \<longrightarrow> NextFileNum e = 0)"

lemma decode_newFile_Put:
  assumes "file_ok f"
  shows "\<exists>b. encode_newFile f = 3 # b \<and> (\<forall>rest. decode_newFile (b @ rest) = Done (f, rest))"
proof -
  have "sint (of_int (fm_Level f) :: u64) = fm_Level f" using assms by (intro sint_level) (auto simp: file_ok_def NumLevels_def)
  then show ?thesis using assms by (simp add: decode_newFile_def encode_newFile_def file_ok_def)
qed

lemma decode_newFiles:
  "\<forall>f\<in>set fs. file_ok f \<Longrightarrow>
    decode_loop ve (concat (map encode_newFile fs) @ rest) = decode_loop (ve\<lparr>NewFiles := NewFiles ve @ fs\<rparr>) rest"
proof (induction fs arbitrary: ve)
  case (Cons f fs)
  obtain b where "encode_newFile f = 3 # b" "\<forall>rest. decode_newFile (b @ rest) = Done (f, rest)"
    using decode_newFile_Put [of f] Cons.prems by auto
  then show ?case using Cons by (simp add: decode_tag_def)
qed simp

lemma decode_deletedFiles:
  "\<forall>d\<in>set ds. 0 \<le> fst d \<and> fst d < int NumLevels \<Longrightarrow>
    decode_loop ve (concat (map encode_deletedFile ds)) = Done (ve\<lparr>DeletedFiles := DeletedFiles ve @ ds\<rparr>)"
proof (induction ds arbitrary: ve)
  case (Cons d ds)
  have "sint (of_int (fst d) :: u64) = fst d" using Cons.prems by (intro sint_level) (auto simp: NumLevels_def)
  then show ?case using Cons by (simp add: encode_deletedFile_def decode_tag_def decode_deletedFile_def)
qed simp

lemma decode_encode: "edit_ok e \<Longrightarrow> decodeVersionEdit (ve_encode e) = Done e"
proof -
  assume ok: "edit_ok e"
  let ?fs = "concat (map encode_newFile (NewFiles e))" and ?ds = "concat (map encode_deletedFile (DeletedFiles e))"
  have rest: "decode_loop (emptyEdit\<lparr>LastSeqNum := LastSeqNum e, HasLastSeqNum := HasLastSeqNum e, NextFileNum := NextFileNum e,
      HasNextFileNum := HasNextFileNum e\<rparr>) (?fs @ ?ds) = Done e"
    using ok decode_newFiles [of "NewFiles e" _ ?ds] decode_deletedFiles [of "DeletedFiles e"]
    by (simp add: edit_ok_def emptyEdit_def)
  have init: "emptyEdit = emptyEdit\<lparr>LastSeqNum := 0, HasLastSeqNum := False, NextFileNum := 0, HasNextFileNum := False\<rparr>"
    by (simp add: emptyEdit_def)
  have "decode_loop emptyEdit (ve_encode e) = decode_loop (emptyEdit\<lparr>LastSeqNum := LastSeqNum e, HasLastSeqNum := HasLastSeqNum e,
      NextFileNum := NextFileNum e, HasNextFileNum := HasNextFileNum e\<rparr>) (?fs @ ?ds)"
    using ok by (cases "HasLastSeqNum e"; cases "HasNextFileNum e")
      (simp_all add: ve_encode_def decode_tag_def edit_ok_def emptyEdit_def)
  with rest show ?thesis by (simp add: decodeVersionEdit_def)
qed

section \<open>Applying an edit\<close>

definition levels_ok :: "FileMeta list list \<Rightarrow> bool" where
  "levels_ok ls \<longleftrightarrow> length ls = NumLevels \<and> (\<forall>l < NumLevels. \<forall>f\<in>set (ls ! l). fm_Level f = int l)"

definition version_ok :: "Version \<Rightarrow> bool" where
  "version_ok v \<longleftrightarrow> levels_ok (v_Levels v) \<and> (\<forall>l. 0 < l \<and> l < NumLevels \<longrightarrow> sorted (map fm_SmallestKey (v_Levels v ! l)))"

definition live_files :: "Version \<Rightarrow> FileMeta set" where
  "live_files v = (\<Union>l < NumLevels. set (v_Levels v ! l))"

definition edit_files :: "VersionEdit \<Rightarrow> nat \<Rightarrow> FileMeta list" where
  "edit_files e l = filter (\<lambda>f. fm_Level f = int l) (NewFiles e)"

definition edit_deletes :: "VersionEdit \<Rightarrow> FileMeta \<Rightarrow> bool" where
  "edit_deletes e f \<longleftrightarrow> fm_FileNum f \<in> snd ` set (DeletedFiles e)"

lemma clone_id: "length (v_Levels v) = NumLevels \<Longrightarrow> version_clone v = v"
  using map_nth [of "v_Levels v"] by (simp add: version_clone_def)

lemma add_files_Some:
  "length ls = NumLevels \<Longrightarrow> add_files fs ls = Some ls' \<Longrightarrow>
    length ls' = NumLevels \<and> (\<forall>l < NumLevels. ls' ! l = ls ! l @ filter (\<lambda>f. fm_Level f = int l) fs)"
proof (induction fs arbitrary: ls)
  case (Cons f fs)
  have lv: "0 \<le> fm_Level f" "fm_Level f < int NumLevels" using Cons.prems(2) by (simp_all split: if_splits)
  let ?l = "nat (fm_Level f)"
  have "add_files fs (ls[?l := ls ! ?l @ [f]]) = Some ls'" using Cons.prems(2) lv by simp
  from Cons.IH [OF _ this] Cons.prems(1) lv show ?case by (auto simp: nth_list_update)
qed simp

lemma add_files_ok: "\<forall>f\<in>set fs. 0 \<le> fm_Level f \<and> fm_Level f < int NumLevels \<Longrightarrow> \<exists>ls'. add_files fs ls = Some ls'"
  by (induction fs arbitrary: ls) auto

lemma version_apply_Some:
  assumes "length (v_Levels v) = NumLevels" and "version_apply v e = Some v'"
  shows "length (v_Levels v') = NumLevels" and
    "v_Levels v' ! 0 = filter (\<lambda>f. \<not> edit_deletes e f) (v_Levels v ! 0) @ edit_files e 0" and
    "0 < l \<Longrightarrow> l < NumLevels \<Longrightarrow>
       v_Levels v' ! l = sort_key fm_SmallestKey (filter (\<lambda>f. \<not> edit_deletes e f) (v_Levels v ! l) @ edit_files e l)"
proof -
  let ?ls = "map (filter (\<lambda>f. fm_FileNum f \<notin> set (map snd (DeletedFiles e)))) (v_Levels v)"
  obtain ls where ls: "add_files (NewFiles e) ?ls = Some ls"
    and v': "v' = v\<lparr>v_Levels := map (\<lambda>l. if l = 0 then ls ! l else sort_key fm_SmallestKey (ls ! l)) [0..<NumLevels]\<rparr>"
    using assms by (auto simp: version_apply_def clone_id Let_def split: option.splits)
  have p: "(\<lambda>f. fm_FileNum f \<notin> set (map snd (DeletedFiles e))) = (\<lambda>f. \<not> edit_deletes e f)"
    by (auto simp: edit_deletes_def)
  have n: "ls ! l = filter (\<lambda>f. \<not> edit_deletes e f) (v_Levels v ! l) @ edit_files e l" if "l < NumLevels" for l
    using add_files_Some [OF _ ls] assms(1) that unfolding p by (simp add: edit_files_def)
  show "length (v_Levels v') = NumLevels" by (simp add: v')
  show "v_Levels v' ! 0 = filter (\<lambda>f. \<not> edit_deletes e f) (v_Levels v ! 0) @ edit_files e 0"
    using n [of 0] by (simp add: v' NumLevels_def)
  show "0 < l \<Longrightarrow> l < NumLevels \<Longrightarrow>
       v_Levels v' ! l = sort_key fm_SmallestKey (filter (\<lambda>f. \<not> edit_deletes e f) (v_Levels v ! l) @ edit_files e l)"
    using n [of l] by (simp add: v')
qed

lemma set_version_apply:
  assumes "length (v_Levels v) = NumLevels" and "version_apply v e = Some v'" and "l < NumLevels"
  shows "set (v_Levels v' ! l) = {f \<in> set (v_Levels v ! l). \<not> edit_deletes e f} \<union> {f \<in> set (NewFiles e). fm_Level f = int l}"
  using version_apply_Some(2,3) [OF assms(1,2)] assms(3) by (cases "l = 0") (auto simp: edit_files_def)

lemma version_apply_total: "edit_ok e \<Longrightarrow> \<exists>v'. version_apply v e = Some v'"
  using add_files_ok [of "NewFiles e"] by (fastforce simp: version_apply_def edit_ok_def file_ok_def Let_def split: option.splits)

lemma version_ok_new: "version_ok newVersion"
  by (simp add: version_ok_def levels_ok_def newVersion_def)

lemma version_ok_apply:
  assumes "version_ok v" and "version_apply v e = Some v'"
  shows "version_ok v'"
proof -
  have len: "length (v_Levels v) = NumLevels" using assms(1) by (simp add: version_ok_def levels_ok_def)
  note ap = version_apply_Some [OF len assms(2)] and st = set_version_apply [OF len assms(2)]
  have "sorted (map fm_SmallestKey (v_Levels v' ! l))" if "0 < l" "l < NumLevels" for l
    by (simp add: ap(3) [OF that])
  moreover have "levels_ok (v_Levels v')" using assms(1) ap(1) st by (auto simp: version_ok_def levels_ok_def)
  ultimately show ?thesis by (simp add: version_ok_def)
qed

section \<open>Properties\<close>

text \<open>C33: A version edit decodes to itself from its encoding: sequence and file numbers, added files with
  their keys, deleted files, in order.\<close>

theorem version_edit_roundtrip:
  assumes "edit_ok e"
  shows "decodeVersionEdit (ve_encode e) = Done e"
  by (rule decode_encode [OF assms])

theorem version_edit_roundtrip_witness:
  "decodeVersionEdit (ve_encode \<lparr>NewFiles = [\<lparr>fm_FileNum = 300, fm_Level = 1, fm_Size = 9, fm_SmallestKey = [1], fm_LargestKey = [1, 2]\<rparr>],
     DeletedFiles = [(0, 7)], LastSeqNum = 5, NextFileNum = 0, HasLastSeqNum = True, HasNextFileNum = False\<rparr>) =
   Done \<lparr>NewFiles = [\<lparr>fm_FileNum = 300, fm_Level = 1, fm_Size = 9, fm_SmallestKey = [1], fm_LargestKey = [1, 2]\<rparr>],
     DeletedFiles = [(0, 7)], LastSeqNum = 5, NextFileNum = 0, HasLastSeqNum = True, HasNextFileNum = False\<rparr>"
  by (rule version_edit_roundtrip) (simp add: edit_ok_def file_ok_def NumLevels_def)

text \<open>Applying an edit to a well-formed version (every file at its level, levels above 0 sorted by
  smallest key) gives a well-formed version, whose level holds the files that were there and are not
  deleted and the new files of the level; level 0 keeps its order, the new files at its end.\<close>

theorem version_apply_levels:
  assumes "version_ok v" and "edit_ok e"
  shows "\<exists>v'. version_apply v e = Some v' \<and> version_ok v' \<and>
    v_Levels v' ! 0 = filter (\<lambda>f. \<not> edit_deletes e f) (v_Levels v ! 0) @ edit_files e 0 \<and>
    (\<forall>l < NumLevels. set (v_Levels v' ! l) = {f \<in> set (v_Levels v ! l). \<not> edit_deletes e f} \<union> set (edit_files e l))"
proof -
  obtain v' where v': "version_apply v e = Some v'" using version_apply_total [OF assms(2)] by blast
  have len: "length (v_Levels v) = NumLevels" using assms(1) by (simp add: version_ok_def levels_ok_def)
  show ?thesis
    using v' version_ok_apply [OF assms(1) v'] version_apply_Some(2) [OF len v'] set_version_apply [OF len v']
    by (auto simp: edit_files_def)
qed

theorem version_apply_levels_witness:
  "\<exists>v'. version_apply newVersion (emptyEdit\<lparr>NewFiles := [\<lparr>fm_FileNum = 3, fm_Level = 0, fm_Size = 9, fm_SmallestKey = [1], fm_LargestKey = [2]\<rparr>]\<rparr>) = Some v' \<and>
     version_ok v' \<and> length (v_Levels v' ! 0) = 1"
proof -
  let ?e = "emptyEdit\<lparr>NewFiles := [\<lparr>fm_FileNum = 3, fm_Level = 0, fm_Size = 9, fm_SmallestKey = [1], fm_LargestKey = [2]\<rparr>]\<rparr>"
  have "edit_ok ?e" by (simp add: edit_ok_def file_ok_def emptyEdit_def NumLevels_def)
  from version_apply_levels [OF version_ok_new this]
  show ?thesis by (auto simp: newVersion_def edit_files_def emptyEdit_def NumLevels_def edit_deletes_def)
qed

text \<open>The overlap query returns, for a query range and file ranges that are not empty, exactly the
  files of the level that have a key in common with the range, in their order.\<close>

theorem overlapping_exact:
  assumes "smallest \<le> largest" and "\<forall>f\<in>set (v_Levels v ! level). fm_SmallestKey f \<le> fm_LargestKey f"
  shows "version_overlapping v level smallest largest =
    filter (\<lambda>f. \<exists>k. smallest \<le> k \<and> k \<le> largest \<and> fm_SmallestKey f \<le> k \<and> k \<le> fm_LargestKey f) (v_Levels v ! level)"
proof -
  have "(\<not> (0 < compareKeys (fm_SmallestKey f) largest \<or> compareKeys (fm_LargestKey f) smallest < 0)) =
      (\<exists>k. smallest \<le> k \<and> k \<le> largest \<and> fm_SmallestKey f \<le> k \<and> k \<le> fm_LargestKey f)"
    if "fm_SmallestKey f \<le> fm_LargestKey f" for f
  proof
    assume "\<not> (0 < compareKeys (fm_SmallestKey f) largest \<or> compareKeys (fm_LargestKey f) smallest < 0)"
    then have "fm_SmallestKey f \<le> largest" "smallest \<le> fm_LargestKey f" by (auto simp: compareKeys_iff)
    then show "\<exists>k. smallest \<le> k \<and> k \<le> largest \<and> fm_SmallestKey f \<le> k \<and> k \<le> fm_LargestKey f"
      using assms(1) that by (cases "smallest \<le> fm_SmallestKey f") (auto intro: exI [of _ smallest] exI [of _ "fm_SmallestKey f"])
  qed (auto simp: compareKeys_iff)
  with assms(2) show ?thesis by (auto simp: version_overlapping_def intro!: filter_cong)
qed

theorem overlapping_exact_witness:
  "version_overlapping \<lparr>v_Levels = [[\<lparr>fm_FileNum = 3, fm_Level = 0, fm_Size = 9, fm_SmallestKey = [1], fm_LargestKey = [2]\<rparr>]]\<rparr> 0 [2] [3] \<noteq> []"
proof -
  let ?v = "\<lparr>v_Levels = [[\<lparr>fm_FileNum = 3, fm_Level = 0, fm_Size = 9, fm_SmallestKey = [1], fm_LargestKey = [2]\<rparr>]]\<rparr>"
  have "version_overlapping ?v 0 [2] [3] =
      filter (\<lambda>f. \<exists>k. [2] \<le> k \<and> k \<le> [3] \<and> fm_SmallestKey f \<le> k \<and> k \<le> fm_LargestKey f) (v_Levels ?v ! 0)"
    by (rule overlapping_exact) auto
  moreover have "\<exists>k. [2] \<le> k \<and> k \<le> [3 :: byte] \<and> [1] \<le> k \<and> k \<le> [2]" by (rule exI [of _ "[2]"]) simp
  ultimately show ?thesis by simp
qed

end
