(* ===== verification/Manifest.thy ===== *)
theory Manifest
  imports Version Go_IO
begin

text \<open>
  The version set of \<^verbatim>\<open>pkg/lsm/version.go\<close> and its MANIFEST: logging an edit, recovery and the
  allocation of file numbers, over the file system of \<^verbatim>\<open>Go_IO\<close>. \<open>manifest_run\<close> are the states
  reached by successful calls, restarts after a crash included. The lemmas show that recovery gives back
  the version in memory and the counters last logged, and what an incomplete last record does to
  recovery.
\<close>

section \<open>State and operations\<close>

datatype manifest_error =
  ErrManifestOpen io_error | ErrManifestCreate io_error | ErrReadLength io_error | ErrReadRecord io_error |
  ErrEdit edit_error | ErrManifestWrite io_error | ErrManifestSync io_error

record VersionSet =
  vs_current :: Version
  vs_nextFileNum :: u64
  vs_lastSeqNum :: u64
  vs_manifestFile :: "fd option"

definition manifestName :: string where
  "manifestName = ''MANIFEST''"

definition newVersionSet :: VersionSet where
  "newVersionSet = \<lparr>vs_current = newVersion, vs_nextFileNum = 1, vs_lastSeqNum = 0, vs_manifestFile = None\<rparr>"

definition allocFileNum :: "VersionSet \<Rightarrow> VersionSet \<times> u64" where
  "allocFileNum vs = (let n = vs_nextFileNum vs + 1 in (vs\<lparr>vs_nextFileNum := n\<rparr>, n - 1))"

text \<open>A write to a file opened with \<^verbatim>\<open>O_APPEND\<close> goes to the end of the file.\<close>

definition append_Write :: "os \<times> fd \<Rightarrow> bytes \<Rightarrow> (os \<times> fd) \<times> nat \<times> io_error option" where
  "append_Write = (\<lambda>(s, h) p. file_Write (s, h\<lparr>fd_pos := length (fdata (file_of s (fd_name h)))\<rparr>) p)"

definition manifest_record :: "VersionEdit \<Rightarrow> bytes" where
  "manifest_record edit = (let data = ve_encode edit in PutUint32LE (of_nat (length data)) @ data)"

definition logged_edit :: "VersionSet \<Rightarrow> VersionEdit \<Rightarrow> VersionEdit" where
  "logged_edit vs edit =
     edit\<lparr>HasNextFileNum := True, NextFileNum := vs_nextFileNum vs, HasLastSeqNum := True, LastSeqNum := vs_lastSeqNum vs\<rparr>"

text \<open>\<open>None\<close> is the panic of an index out of range in \<^verbatim>\<open>apply\<close>. Writing to a nil file is an error.\<close>

definition logAndApply :: "VersionSet \<Rightarrow> os \<Rightarrow> VersionEdit \<Rightarrow> (VersionSet \<times> os \<times> manifest_error option) option" where
  "logAndApply vs s edit =
     (let edit = logged_edit vs edit
      in case vs_manifestFile vs of
           None \<Rightarrow> Some (vs, s, Some (ErrManifestWrite ErrFileClosed))
         | Some h \<Rightarrow>
           (case append_Write (s, h) (manifest_record edit) of
              ((s, h), _, Some e) \<Rightarrow> Some (vs\<lparr>vs_manifestFile := Some h\<rparr>, s, Some (ErrManifestWrite e))
            | ((s, h), _, None) \<Rightarrow>
              (case file_Sync s h of
                 (s, Some e) \<Rightarrow> Some (vs\<lparr>vs_manifestFile := Some h\<rparr>, s, Some (ErrManifestSync e))
               | (s, None) \<Rightarrow>
                 (case version_apply (vs_current vs) edit of
                    None \<Rightarrow> None
                  | Some v \<Rightarrow> Some (vs\<lparr>vs_manifestFile := Some h, vs_current := v\<rparr>, s, None)))))"

definition createManifest :: "VersionSet \<Rightarrow> os \<Rightarrow> VersionSet \<times> os \<times> manifest_error option" where
  "createManifest vs s =
     (case os_call s of
        (s, Some e) \<Rightarrow> (vs, s, Some (ErrManifestCreate e))
      | (s, None) \<Rightarrow>
          let s = (if has_file s manifestName then s
                   else put_file manifestName \<lparr>fdata = [], fsynced = [], fisdir = False\<rparr> s)
          in (vs\<lparr>vs_manifestFile := Some \<lparr>fd_name = manifestName, fd_pos = 0, fd_open = True\<rparr>\<rparr>, s, None))"

definition update_counters :: "VersionEdit \<Rightarrow> VersionSet \<Rightarrow> VersionSet" where
  "update_counters edit vs =
     (let vs = (if HasNextFileNum edit \<and> vs_nextFileNum vs < NextFileNum edit
                then vs\<lparr>vs_nextFileNum := NextFileNum edit\<rparr> else vs)
      in if HasLastSeqNum edit then vs\<lparr>vs_lastSeqNum := LastSeqNum edit\<rparr> else vs)"

function recover_edits :: "VersionSet \<Rightarrow> Version \<Rightarrow> bytes \<Rightarrow> (VersionSet \<times> (manifest_error + Version)) option" where
  "recover_edits vs v f =
     (case ReadFull 4 f of
        Inl e \<Rightarrow> Some (vs, if e = EOF then Inr v else Inl (ErrReadLength e))
      | Inr (lenBuf, f) \<Rightarrow>
        (case ReadFull (unat (Uint32LE lenBuf)) f of
           Inl e \<Rightarrow> Some (vs, Inl (ErrReadRecord e))
         | Inr (data, f) \<Rightarrow>
           (case decodeVersionEdit data of
              Panic \<Rightarrow> None
            | Fail e \<Rightarrow> Some (vs, Inl (ErrEdit e))
            | Done edit \<Rightarrow>
              (case version_apply v edit of
                 None \<Rightarrow> None
               | Some v \<Rightarrow> recover_edits (update_counters edit vs) v f))))"
  by pat_completeness auto
termination
  by (relation "measure (\<lambda>(vs, v, f). length f)") (auto simp: ReadFull_def split: if_splits)

declare recover_edits.simps [simp del]

definition vs_recover :: "VersionSet \<Rightarrow> os \<Rightarrow> (VersionSet \<times> os \<times> manifest_error option) option" where
  "vs_recover vs s =
     (case os_call s of
        (s, Some e) \<Rightarrow> Some (vs, s, Some (ErrManifestOpen e))
      | (s, None) \<Rightarrow>
        if \<not> has_file s manifestName then Some (createManifest vs s)
        else case recover_edits vs newVersion (fdata (file_of s manifestName)) of
               None \<Rightarrow> None
             | Some (vs, Inl e) \<Rightarrow> Some (vs, s, Some e)
             | Some (vs, Inr v) \<Rightarrow> Some (createManifest (vs\<lparr>vs_current := v\<rparr>) s))"

definition vs_close :: "VersionSet \<Rightarrow> os \<Rightarrow> VersionSet \<times> os \<times> io_error option" where
  "vs_close vs s =
     (case vs_manifestFile vs of
        None \<Rightarrow> (vs, s, None)
      | Some h \<Rightarrow>
          if \<not> fd_open h then (vs, s, Some ErrFileClosed)
          else case os_call s of (s, err) \<Rightarrow> (vs\<lparr>vs_manifestFile := Some (h\<lparr>fd_open := False\<rparr>)\<rparr>, s, err))"

section \<open>Replaying a manifest\<close>

definition records :: "VersionEdit list \<Rightarrow> bytes" where
  "records es = concat (map manifest_record es)"

definition record_ok :: "VersionEdit \<Rightarrow> bool" where
  "record_ok e \<longleftrightarrow> edit_ok e \<and> length (ve_encode e) < 2 ^ 32"

fun replay :: "VersionSet \<Rightarrow> Version \<Rightarrow> VersionEdit list \<Rightarrow> VersionSet \<times> Version" where
  "replay vs v [] = (vs, v)"
| "replay vs v (e # es) = replay (update_counters e vs) (the (version_apply v e)) es"

lemma replay_append: "replay vs v (es @ [e]) =
    (update_counters e (fst (replay vs v es)), the (version_apply (snd (replay vs v es)) e))"
  by (induction es arbitrary: vs v) auto

lemma recover_edits_record:
  assumes "record_ok e"
  shows "recover_edits vs v (manifest_record e @ rest) = recover_edits (update_counters e vs) (the (version_apply v e)) rest"
proof -
  have u: "unat (of_nat (length (ve_encode e)) :: u32) = length (ve_encode e)"
    using assms by (simp add: record_ok_def unsigned_of_nat take_bit_nat_eq_self)
  have ok: "edit_ok e" using assms by (simp add: record_ok_def)
  obtain v' where "version_apply v e = Some v'" using version_apply_total [OF ok] by blast
  then show ?thesis
    by (subst recover_edits.simps) (simp add: manifest_record_def ReadFull_exact u decode_encode [OF ok] Let_def)
qed

lemma recover_edits_records:
  "\<forall>e\<in>set es. record_ok e \<Longrightarrow>
    recover_edits vs v (records es @ rest) = (case replay vs v es of (vs', v') \<Rightarrow> recover_edits vs' v' rest)"
  by (induction es arbitrary: vs v) (auto simp: records_def recover_edits_record)

lemma recover_edits_nil: "recover_edits vs v [] = Some (vs, Inr v)"
  by (subst recover_edits.simps) (simp add: ReadFull_def)

lemma PutUint32LE_not_nil: "PutUint32LE w \<noteq> []"
  by (metis length_PutUint(1) list.size(3) zero_neq_numeral)

lemma recover_edits_partial:
  assumes "record_ok e" and "0 < k" and "k < length (manifest_record e)"
  shows "\<exists>err. recover_edits vs v (take k (manifest_record e)) = Some (vs, Inl err) \<and>
    err \<in> {ErrReadLength ErrUnexpectedEOF, ErrReadRecord EOF, ErrReadRecord ErrUnexpectedEOF}"
proof (cases "k < 4")
  case True
  with assms(2,3) show ?thesis
    by (subst recover_edits.simps) (auto simp: ReadFull_def min_def manifest_record_def Let_def PutUint32LE_not_nil)
next
  case False
  have u: "unat (of_nat (length (ve_encode e)) :: u32) = length (ve_encode e)"
    using assms(1) by (simp add: record_ok_def unsigned_of_nat take_bit_nat_eq_self)
  have t: "take k (manifest_record e) = PutUint32LE (of_nat (length (ve_encode e))) @ take (k - 4) (ve_encode e)"
    using False by (simp add: manifest_record_def Let_def)
  have "k - 4 < length (ve_encode e)" using assms(3) False by (simp add: manifest_record_def Let_def)
  then show ?thesis
    unfolding t by (subst recover_edits.simps) (auto simp: ReadFull_exact ReadFull_def u)
qed

section \<open>Runs\<close>

text \<open>The last argument are the counters (next file number, last sequence number) that the last logged edit
  recorded. A call of \<^verbatim>\<open>logAndApply\<close> may fail, as long as nothing of its record was written.\<close>

inductive manifest_run :: "VersionSet \<Rightarrow> os \<Rightarrow> u64 \<times> u64 \<Rightarrow> bool" where
  mr_new: "manifest_run vs s' (1, 0)" if "\<not> has_file s manifestName" and "vs_recover newVersionSet s = Some (vs, s', None)"
| mr_log: "manifest_run vs' s' (vs_nextFileNum vs, vs_lastSeqNum vs)" if "manifest_run vs s lg" and "record_ok (logged_edit vs e)"
    and "\<forall>f\<in>set (NewFiles e). fm_FileNum f < vs_nextFileNum vs" and "logAndApply vs s e = Some (vs', s', None)"
| mr_refused: "manifest_run vs' s' lg" if "manifest_run vs s lg" and "logAndApply vs s e = Some (vs', s', Some err)"
    and "fdata (file_of s' manifestName) = fdata (file_of s manifestName)"
| mr_alloc: "manifest_run (fst (allocFileNum vs)) s lg" if "manifest_run vs s lg" and "vs_nextFileNum vs + 1 \<noteq> 0"
| mr_seq: "manifest_run (vs\<lparr>vs_lastSeqNum := q\<rparr>) s lg" if "manifest_run vs s lg"
| mr_other: "manifest_run vs s' lg" if "manifest_run vs s lg" and "has_file s' manifestName = has_file s manifestName"
    and "file_of s' manifestName = file_of s manifestName"
| mr_restart: "manifest_run vs' s' lg" if "manifest_run vs s lg" and "restart s s1"
    and "vs_recover newVersionSet s1 = Some (vs', s', None)"

definition manifest_inv :: "VersionEdit list \<Rightarrow> VersionSet \<Rightarrow> os \<Rightarrow> u64 \<times> u64 \<Rightarrow> bool" where
  "manifest_inv es vs s lg \<longleftrightarrow>
     has_file s manifestName \<and> fdata (file_of s manifestName) = records es \<and> fsynced (file_of s manifestName) = records es \<and>
     (\<forall>e\<in>set es. record_ok e) \<and>
     (\<exists>h. vs_manifestFile vs = Some h \<and> fd_name h = manifestName \<and> fd_open h) \<and>
     (case replay newVersionSet newVersion es of (rs, v) \<Rightarrow>
        vs_current vs = v \<and> version_ok v \<and> vs_nextFileNum rs = fst lg \<and> vs_lastSeqNum rs = snd lg \<and> fst lg \<le> vs_nextFileNum vs \<and>
        (\<forall>f\<in>live_files v. fm_FileNum f < fst lg))"

lemma dir_names_os_call: "os_call s = (s', e) \<Longrightarrow> dir_names s' = dir_names s \<and> file_of s' = file_of s"
  by (auto simp: os_call_def dir_names_def file_of_next_fault split: prod.splits)

lemma os_call_faultless: "faults s = [] \<Longrightarrow> os_call s = (s, None)"
  by (simp add: os_call_def next_fault_def)

lemma recover_inv:
  assumes inv: "manifest_inv es vs s lg" and rs: "restart s s1"
  shows "\<exists>vs' s' err. vs_recover newVersionSet s1 = Some (vs', s', err) \<and>
    (err = None \<longrightarrow> vs_current vs' = vs_current vs \<and> vs_nextFileNum vs' = fst lg \<and> vs_lastSeqNum vs' = snd lg \<and> manifest_inv es vs' s' lg) \<and>
    (\<forall>e. err = Some e \<longrightarrow> (\<exists>x. e = ErrManifestOpen x \<or> e = ErrManifestCreate x)) \<and> (faults s1 = [] \<longrightarrow> err = None)"
proof -
  obtain rv v where rp: "replay newVersionSet newVersion es = (rv, v)" by fastforce
  have has: "has_file s1 manifestName" using inv rs by (simp add: manifest_inv_def restart_def crash_def has_file_def)
  obtain k where "length (fsynced (file_of s manifestName)) \<le> k" "fdata (file_of s1 manifestName) = take k (fdata (file_of s manifestName))"
    using rs by (auto simp: restart_def crash_def)
  then have data: "fdata (file_of s1 manifestName) = records es" "fsynced (file_of s1 manifestName) = records es"
    using inv rs by (auto simp: manifest_inv_def restart_def)
  have rec: "recover_edits newVersionSet newVersion (records es) = Some (rv, Inr v)"
    using recover_edits_records [of es newVersionSet newVersion "[]"] inv
    by (simp add: manifest_inv_def rp recover_edits_nil)
  obtain s2 err2 where o1: "os_call s1 = (s2, err2)" by fastforce
  obtain s3 err3 where o2: "os_call s2 = (s3, err3)" by fastforce
  note f = dir_names_os_call [OF o1] dir_names_os_call [OF o2]
  have h: "has_file s2 manifestName" "has_file s3 manifestName" using has f by (simp_all add: has_file_def)
  show ?thesis
  proof (cases err2)
    case (Some e)
    then show ?thesis using o1 os_call_faultless [of s1] by (auto simp: vs_recover_def)
  next
    case None
    have r: "vs_recover newVersionSet s1 = Some (createManifest (rv\<lparr>vs_current := v\<rparr>) s2)"
      using None h data rec f by (simp add: vs_recover_def o1)
    show ?thesis
    proof (cases err3)
      case (Some e)
      have "faults s1 \<noteq> []" using Some o1 o2 None os_call_faultless [of s1] by auto
      with r Some o2 show ?thesis by (auto simp: createManifest_def)
    next
      case None
      then show ?thesis
        using r o2 h inv data f rp by (auto simp: createManifest_def manifest_inv_def)
    qed
  qed
qed

lemma overwrite_end: "overwrite (length bs) p bs = bs @ p"
  by (simp add: overwrite_def zero_extend_def)

lemma append_Write_partial:
  assumes "append_Write (s, h) p = ((s', h'), n, err)" and "fd_open h"
  shows "fdata (file_of s' (fd_name h)) = fdata (file_of s (fd_name h)) @ take n p \<and>
    fsynced (file_of s' (fd_name h)) = fsynced (file_of s (fd_name h)) \<and> has_file s' (fd_name h) \<and>
    fd_name h' = fd_name h \<and> fd_open h' \<and> (err = None \<longrightarrow> n = length p)"
proof -
  let ?h = "h\<lparr>fd_pos := length (fdata (file_of s (fd_name h)))\<rparr>"
  have w: "file_Write (s, ?h) p = ((s', h'), n, err)" using assms(1) by (simp add: append_Write_def)
  have "has_file s' (fd_name h)" using w assms(2) by (auto simp: file_Write_def Let_def split: prod.splits option.splits)
  then show ?thesis using file_Write_cases [OF w] assms(2) by (simp add: overwrite_end)
qed

lemma records_snoc: "records (es @ [e]) = records es @ manifest_record e"
  by (simp add: records_def)

lemma live_files_apply:
  "length (v_Levels v) = NumLevels \<Longrightarrow> version_apply v e = Some v' \<Longrightarrow> live_files v' \<subseteq> live_files v \<union> set (NewFiles e)"
  by (fastforce simp: live_files_def set_version_apply)

lemma log_inv:
  assumes inv: "manifest_inv es vs s lg" and ok: "record_ok (logged_edit vs e)"
    and nums: "\<forall>f\<in>set (NewFiles e). fm_FileNum f < vs_nextFileNum vs" and lg: "logAndApply vs s e = Some (vs', s', None)"
  shows "manifest_inv (es @ [logged_edit vs e]) vs' s' (vs_nextFileNum vs, vs_lastSeqNum vs)"
proof -
  let ?e = "logged_edit vs e"
  obtain h where h: "vs_manifestFile vs = Some h" "fd_name h = manifestName" "fd_open h" using inv by (auto simp: manifest_inv_def)
  obtain rs v where rp: "replay newVersionSet newVersion es = (rs, v)" by fastforce
  have v: "vs_current vs = v" "version_ok v" "vs_nextFileNum rs \<le> vs_nextFileNum vs" "\<forall>f\<in>live_files v. fm_FileNum f < vs_nextFileNum rs"
    using inv by (simp_all add: manifest_inv_def rp)
  obtain s1 h1 n e1 where w: "append_Write (s, h) (manifest_record ?e) = ((s1, h1), n, e1)" by (metis prod_cases3 surj_pair)
  have e1: "e1 = None" using lg h w by (auto simp: logAndApply_def Let_def split: option.splits)
  note aw = append_Write_partial [OF w h(3), unfolded e1 h(2)]
  obtain s2 e2 where sy: "file_Sync s1 h1 = (s2, e2)" by fastforce
  have e2: "e2 = None" using lg h w sy e1 by (auto simp: logAndApply_def Let_def split: option.splits)
  have d2: "fdata (file_of s2 manifestName) = records es @ manifest_record ?e" "fsynced (file_of s2 manifestName) = records es @ manifest_record ?e"
    "has_file s2 manifestName"
    using sy e2 aw inv by (auto simp: file_Sync_def Let_def manifest_inv_def file_of_next_fault has_file_cong [OF dir_names_next_fault]
        split: prod.splits option.splits)
  obtain v' where v': "version_apply v ?e = Some v'" and r: "vs' = vs\<lparr>vs_manifestFile := Some h1, vs_current := v'\<rparr>" "s' = s2"
    using lg h w sy e1 e2 v(1) by (auto simp: logAndApply_def Let_def split: option.splits)
  have len: "length (v_Levels v) = NumLevels" using v(2) by (simp add: version_ok_def levels_ok_def)
  have upd: "vs_nextFileNum (update_counters ?e rs) = vs_nextFileNum vs" "vs_lastSeqNum (update_counters ?e rs) = vs_lastSeqNum vs"
    using v(3) by (auto simp: update_counters_def logged_edit_def)
  have live: "fm_FileNum f < vs_nextFileNum vs" if "f \<in> live_files v'" for f
  proof -
    have "f \<in> live_files v \<or> f \<in> set (NewFiles e)" using live_files_apply [OF len v'] that by (auto simp: logged_edit_def)
    then show ?thesis using v(3,4) nums by (auto intro: less_le_trans)
  qed
  have "replay newVersionSet newVersion (es @ [?e]) = (update_counters ?e rs, v')" by (simp add: replay_append rp v')
  then show ?thesis
    using inv ok d2 aw r version_ok_apply [OF v(2) v'] live upd by (auto simp: manifest_inv_def records_snoc)
qed

lemma live_files_new: "live_files newVersion = {}"
  by (auto simp: live_files_def newVersion_def)

lemma le_plus_one: "x + 1 \<noteq> 0 \<Longrightarrow> x \<le> x + (1 :: u64)"
proof -
  assume n: "x + 1 \<noteq> 0"
  have "unat x + 1 \<noteq> 2 ^ 64"
  proof
    assume "unat x + 1 = 2 ^ 64"
    then have "of_nat (unat x + 1) = (of_nat (2 ^ 64) :: u64)" by simp
    with n show False by simp
  qed
  with unsigned_less [of x, where ?'a = nat] show ?thesis by (simp add: no_olen_add_nat)
qed

lemma create_inv:
  assumes "\<not> has_file s manifestName" and "vs_recover newVersionSet s = Some (vs, s', None)"
  shows "manifest_inv [] vs s' (1, 0)"
proof -
  obtain s1 e1 where o1: "os_call s = (s1, e1)" by fastforce
  have e1: "e1 = None" using assms(2) by (cases e1) (auto simp: vs_recover_def o1)
  have nf: "\<not> has_file s1 manifestName" using assms(1) dir_names_os_call [OF o1] by (simp add: has_file_def)
  have c: "createManifest newVersionSet s1 = (vs, s', None)" using assms(2) nf by (simp add: vs_recover_def o1 e1)
  obtain s2 e2 where o2: "os_call s1 = (s2, e2)" by fastforce
  have e2: "e2 = None" using c by (cases e2) (auto simp: createManifest_def o2)
  have "\<not> has_file s2 manifestName" using nf dir_names_os_call [OF o2] by (simp add: has_file_def)
  then have r: "vs = newVersionSet\<lparr>vs_manifestFile := Some \<lparr>fd_name = manifestName, fd_pos = 0, fd_open = True\<rparr>\<rparr>"
      "s' = put_file manifestName \<lparr>fdata = [], fsynced = [], fisdir = False\<rparr> s2"
    using c by (simp_all add: createManifest_def o2 e2)
  show ?thesis
    by (auto simp: r manifest_inv_def records_def newVersionSet_def version_ok_new live_files_new)
qed

text \<open>A call that fails before it has written anything leaves the file as it was.\<close>

lemma refused_inv:
  assumes inv: "manifest_inv es vs s lg" and lg: "logAndApply vs s e = Some (vs', s', Some err)"
    and same: "fdata (file_of s' manifestName) = fdata (file_of s manifestName)"
  shows "manifest_inv es vs' s' lg"
proof -
  let ?r = "manifest_record (logged_edit vs e)"
  obtain h where h: "vs_manifestFile vs = Some h" "fd_name h = manifestName" "fd_open h" using inv by (auto simp: manifest_inv_def)
  obtain s1 h1 n e1 where w: "append_Write (s, h) ?r = ((s1, h1), n, e1)" by (metis prod_cases3 surj_pair)
  note aw = append_Write_partial [OF w h(3), unfolded h(2)]
  have r: "?r \<noteq> []" by (simp add: manifest_record_def Let_def PutUint32LE_not_nil)
  have "e1 \<noteq> None"
  proof
    assume e1: "e1 = None"
    obtain s2 e2 where sy: "file_Sync s1 h1 = (s2, e2)" by fastforce
    have "s' = s2" using lg h w sy e1 by (auto simp: logAndApply_def Let_def split: option.splits)
    moreover have "fdata (file_of s2 manifestName) = fdata (file_of s1 manifestName)"
    proof -
      obtain flt s' where "next_fault s1 = (flt, s')" by fastforce
      then show ?thesis using sy by (cases flt) (auto simp: file_Sync_def Let_def file_of_next_fault split: if_splits)
    qed
    ultimately show False using aw same e1 r by simp
  qed
  then have v: "vs' = vs\<lparr>vs_manifestFile := Some h1\<rparr>" "s' = s1" using lg h w by (auto simp: logAndApply_def Let_def)
  then show ?thesis using inv aw same by (auto simp: manifest_inv_def)
qed

lemma manifest_run_inv: "manifest_run vs s lg \<Longrightarrow> \<exists>es. manifest_inv es vs s lg"
proof (induction rule: manifest_run.induct)
  case (mr_new s vs s')
  then show ?case using create_inv by blast
next
  case (mr_log vs s lg e vs' s')
  then show ?case using log_inv by blast
next
  case (mr_refused vs s lg e vs' s' err)
  then show ?case using refused_inv by blast
next
  case (mr_alloc vs s lg)
  then obtain es where inv: "manifest_inv es vs s lg" by blast
  have "vs_nextFileNum vs \<le> vs_nextFileNum vs + 1"
    using mr_alloc(2) by (rule le_plus_one)
  then have "manifest_inv es (fst (allocFileNum vs)) s lg"
    using inv by (auto simp: manifest_inv_def allocFileNum_def Let_def)
  then show ?case by blast
next
  case (mr_seq vs s lg q)
  then show ?case by (auto simp: manifest_inv_def)
next
  case (mr_other vs s lg s')
  then show ?case by (auto simp: manifest_inv_def)
next
  case (mr_restart vs s lg s1 vs' s')
  then obtain es where "manifest_inv es vs s lg" by blast
  with recover_inv [OF this mr_restart(2)] mr_restart(3) show ?case by auto
qed

section \<open>Properties\<close>

text \<open>C31: Recovery after a crash. Take a state reached by a run (a new manifest, logged edits with numbers
  allocated before, failed calls of \<^verbatim>\<open>logAndApply\<close> that wrote nothing, other file operations, earlier
  restarts) and a crash that keeps the directory and at least the synced part of the MANIFEST. Then the
  recovered levels are exactly those that were in memory, and the next file number and the last sequence
  number are those that the last logged edit recorded; every live file has a smaller number than the next
  one. There is no panic and no corruption error: recovery fails only if opening the file fails, and
  succeeds if no system call fails.\<close>

theorem manifest_crash_recovery:
  assumes "manifest_run vs s lg" and "restart s s1"
  shows "\<exists>vs' s' err. vs_recover newVersionSet s1 = Some (vs', s', err) \<and>
    (err = None \<longrightarrow> v_Levels (vs_current vs') = v_Levels (vs_current vs) \<and> (vs_nextFileNum vs', vs_lastSeqNum vs') = lg \<and>
       (\<forall>f\<in>live_files (vs_current vs'). fm_FileNum f < snd (allocFileNum vs'))) \<and>
    (\<forall>e. err = Some e \<longrightarrow> (\<exists>x. e = ErrManifestOpen x \<or> e = ErrManifestCreate x)) \<and> (faults s1 = [] \<longrightarrow> err = None)"
proof -
  obtain es where "manifest_inv es vs s lg" using manifest_run_inv [OF assms(1)] by blast
  from recover_inv [OF this assms(2)] obtain vs' s' err where r: "vs_recover newVersionSet s1 = Some (vs', s', err)"
      "err = None \<longrightarrow> vs_current vs' = vs_current vs \<and> vs_nextFileNum vs' = fst lg \<and> vs_lastSeqNum vs' = snd lg \<and> manifest_inv es vs' s' lg"
      "\<forall>e. err = Some e \<longrightarrow> (\<exists>x. e = ErrManifestOpen x \<or> e = ErrManifestCreate x)" "faults s1 = [] \<longrightarrow> err = None"
    by (elim exE conjE) (rule that)
  moreover have "(vs_nextFileNum vs', vs_lastSeqNum vs') = lg \<and> (\<forall>f\<in>live_files (vs_current vs'). fm_FileNum f < snd (allocFileNum vs'))"
    if "err = None" using r(2) that by (auto simp: manifest_inv_def allocFileNum_def Let_def prod_eq_iff split: prod.splits)
  ultimately show ?thesis by (intro exI [of _ vs'] exI [of _ s'] exI [of _ err]) auto
qed

text \<open>C32: An incomplete last record blocks recovery. Whenever the MANIFEST of a run is followed by a part of the
  record of one more edit, as a crash inside \<^verbatim>\<open>logAndApply\<close> or a failed write leaves it, every recovery
  on these contents fails, whatever the system calls do. And a write that stops after some of the bytes
  does leave it so: the edit is reported as failed and not applied, but the part stays in the file.\<close>

theorem partial_record_blocks_recovery:
  assumes "manifest_run vs s lg" and "record_ok (logged_edit vs e)"
    and "0 < k" and "k < length (manifest_record (logged_edit vs e))"
  shows "(\<forall>s1. has_file s1 manifestName \<longrightarrow>
      fdata (file_of s1 manifestName) = fdata (file_of s manifestName) @ take k (manifest_record (logged_edit vs e)) \<longrightarrow>
      (\<exists>vs2 s2 err. vs_recover newVersionSet s1 = Some (vs2, s2, Some err))) \<and>
    (faults s = [Some k] \<longrightarrow> (\<exists>vs1 s1. logAndApply vs s e = Some (vs1, s1, Some (ErrManifestWrite ErrIO)) \<and> vs_current vs1 = vs_current vs \<and>
      has_file s1 manifestName \<and> fdata (file_of s1 manifestName) = fdata (file_of s manifestName) @ take k (manifest_record (logged_edit vs e))))"
proof (intro conjI allI impI)
  let ?r = "manifest_record (logged_edit vs e)"
  obtain es where inv: "manifest_inv es vs s lg" using manifest_run_inv [OF assms(1)] by blast
  obtain rs v where rp: "replay newVersionSet newVersion es = (rs, v)" by fastforce
  obtain err where rec: "recover_edits newVersionSet newVersion (records es @ take k ?r) = Some (rs, Inl err)"
    using recover_edits_records [of es newVersionSet newVersion "take k ?r"] inv
      recover_edits_partial [OF assms(2-4), of rs v] by (auto simp: manifest_inv_def rp)
  show "\<exists>vs2 s2 err. vs_recover newVersionSet s1 = Some (vs2, s2, Some err)"
    if s1: "has_file s1 manifestName" "fdata (file_of s1 manifestName) = fdata (file_of s manifestName) @ take k ?r" for s1
  proof -
    obtain s2 e2 where o: "os_call s1 = (s2, e2)" by fastforce
    have "has_file s2 manifestName" "file_of s2 = file_of s1" using dir_names_os_call [OF o] s1 by (simp_all add: has_file_def)
    moreover have "fdata (file_of s1 manifestName) = records es @ take k ?r" using s1(2) inv by (simp add: manifest_inv_def)
    ultimately show ?thesis using rec o by (cases e2) (auto simp: vs_recover_def)
  qed
  assume flt: "faults s = [Some k]"
  obtain h where h: "vs_manifestFile vs = Some h" "fd_name h = manifestName" "fd_open h" using inv by (auto simp: manifest_inv_def)
  obtain s1 h1 n e1 where w: "append_Write (s, h) ?r = ((s1, h1), n, e1)" by (metis prod_cases3 surj_pair)
  have n: "n = k" "e1 = Some ErrIO"
    using w flt assms(4) h(3) by (auto simp: append_Write_def file_Write_def next_fault_def Let_def)
  note aw = append_Write_partial [OF w h(3), unfolded h(2) n]
  have "logAndApply vs s e = Some (vs\<lparr>vs_manifestFile := Some h1\<rparr>, s1, Some (ErrManifestWrite ErrIO))"
    using h w n by (simp add: logAndApply_def)
  then show "\<exists>vs1 s1. logAndApply vs s e = Some (vs1, s1, Some (ErrManifestWrite ErrIO)) \<and> vs_current vs1 = vs_current vs \<and>
      has_file s1 manifestName \<and> fdata (file_of s1 manifestName) = fdata (file_of s manifestName) @ take k ?r"
    using aw by (intro exI [of _ "vs\<lparr>vs_manifestFile := Some h1\<rparr>"] exI [of _ s1]) simp
qed

section \<open>Witnesses\<close>

definition one_edit :: VersionEdit where
  "one_edit = emptyEdit\<lparr>NewFiles := [\<lparr>fm_FileNum = 0, fm_Level = 0, fm_Size = 9, fm_SmallestKey = [1], fm_LargestKey = [2]\<rparr>]\<rparr>"

lemma one_edit_ok: "record_ok (logged_edit vs one_edit)"
proof -
  have b: "length (PutUvarint x) \<le> 10" for x using length_PutUvarint by blast
  have "length (ve_encode (logged_edit vs one_edit)) \<le> 100"
    using b [of "vs_lastSeqNum vs"] b [of "vs_nextFileNum vs"] b [of 0] b [of 1] b [of 9]
    unfolding ve_encode_def logged_edit_def one_edit_def emptyEdit_def encode_newFile_def by simp
  moreover have "edit_ok (logged_edit vs one_edit)"
    by (simp add: edit_ok_def logged_edit_def one_edit_def emptyEdit_def file_ok_def NumLevels_def)
  ultimately show ?thesis by (simp add: record_ok_def)
qed

lemma new_run:
  "\<exists>vs s. manifest_run vs s (1, 0) \<and> vs_nextFileNum vs = 1 \<and> vs_lastSeqNum vs = 0 \<and> vs_current vs = newVersion \<and> faults s = fs"
proof -
  let ?s = "\<lparr>files = [], faults = None # None # fs\<rparr>"
  have "\<not> has_file ?s manifestName" by (simp add: has_file_map_of)
  moreover have "\<exists>vs s. vs_recover newVersionSet ?s = Some (vs, s, None) \<and> vs_nextFileNum vs = 1 \<and> vs_lastSeqNum vs = 0 \<and> vs_current vs = newVersion \<and> faults s = fs"
    by (simp add: vs_recover_def os_call_def next_fault_def has_file_map_of createManifest_def put_file_def newVersionSet_def)
  ultimately show ?thesis using mr_new by blast
qed

lemma log_live:
  assumes inv: "manifest_inv es vs s lg" and "faults s = []" and "record_ok (logged_edit vs e)"
  shows "\<exists>vs' s'. logAndApply vs s e = Some (vs', s', None) \<and> faults s' = [] \<and>
    vs_current vs' = the (version_apply (vs_current vs) (logged_edit vs e))"
proof -
  obtain h where h: "vs_manifestFile vs = Some h" "fd_open h" using inv by (auto simp: manifest_inv_def)
  have "edit_ok (logged_edit vs e)" using assms(3) by (simp add: record_ok_def)
  then obtain v where v: "version_apply (vs_current vs) (logged_edit vs e) = Some v" using version_apply_total by blast
  show ?thesis
    using h assms(2) v
    by (simp add: logAndApply_def append_Write_def file_Write_def file_Sync_def next_fault_def put_file_def Let_def)
qed

lemma one_run:
  "\<exists>vs s. manifest_run vs s (1, 0) \<and> length (v_Levels (vs_current vs) ! 0) = 1 \<and> faults s = []"
proof -
  obtain vs s where r: "manifest_run vs s (1, 0)" "vs_nextFileNum vs = 1" "vs_current vs = newVersion" "faults s = []" "vs_lastSeqNum vs = 0"
    using new_run by blast
  obtain es where inv: "manifest_inv es vs s (1, 0)" using manifest_run_inv [OF r(1)] by blast
  obtain vs' s' where l: "logAndApply vs s one_edit = Some (vs', s', None)" "faults s' = []"
      "vs_current vs' = the (version_apply newVersion (logged_edit vs one_edit))"
    using log_live [OF inv r(4) one_edit_ok] r(3) by auto
  have "manifest_run vs' s' (1, 0)"
    using mr_log [OF r(1) one_edit_ok _ l(1)] by (simp add: one_edit_def r(2,5))
  moreover obtain v where v: "version_apply newVersion (logged_edit vs one_edit) = Some v"
    using version_apply_total one_edit_ok by (force simp: record_ok_def)
  moreover have "length (v_Levels v ! 0) = 1"
    using version_apply_Some(2) [OF _ v]
    by (simp add: newVersion_def edit_files_def logged_edit_def one_edit_def emptyEdit_def NumLevels_def)
  ultimately show ?thesis using l by auto
qed

definition settle :: "os \<Rightarrow> os" where
  "settle s = s\<lparr>files := map (\<lambda>(n, f). (n, f\<lparr>fsynced := fdata f\<rparr>)) (files s)\<rparr>"

lemma restart_settle: "restart s (settle s)"
proof -
  have m: "map_of (map (\<lambda>(n, f). (n, f\<lparr>fsynced := fdata f\<rparr>)) xs) n = map_option (\<lambda>f. f\<lparr>fsynced := fdata f\<rparr>) (map_of xs n)"
    for xs :: "(string \<times> osfile) list" and n
    by (induction xs) auto
  have f: "fdata (file_of (settle s) n) = fdata (file_of s n) \<and> fisdir (file_of (settle s) n) = fisdir (file_of s n) \<and>
      fsynced (file_of (settle s) n) = fdata (file_of s n)" for n
    by (auto simp: file_of_def settle_def m split: option.splits)
  have "\<exists>k \<ge> length (fsynced (file_of s n)). fdata (file_of s n) = take k (fdata (file_of s n))" for n
    by (rule exI [of _ "max (length (fsynced (file_of s n))) (length (fdata (file_of s n)))"]) simp
  with f show ?thesis by (auto simp: restart_def crash_def dir_names_def settle_def)
qed

theorem manifest_crash_recovery_witness:
  "\<exists>vs s s1 vs' s'. manifest_run vs s (1, 0) \<and> restart s s1 \<and> vs_recover newVersionSet s1 = Some (vs', s', None) \<and>
     length (v_Levels (vs_current vs') ! 0) = 1 \<and> vs_nextFileNum vs' = 1"
proof -
  obtain vs s where r: "manifest_run vs s (1, 0)" "length (v_Levels (vs_current vs) ! 0) = 1" "faults s = []" using one_run by blast
  have "faults (settle s) = []" using r(3) by (simp add: settle_def)
  with manifest_crash_recovery [OF r(1) restart_settle] r restart_settle [of s] show ?thesis by (metis prod.inject)
qed

theorem partial_record_blocks_recovery_witness:
  "\<exists>vs s vs1 s1 vs2 s2 err. manifest_run vs s (1, 0) \<and> logAndApply vs s one_edit = Some (vs1, s1, Some (ErrManifestWrite ErrIO)) \<and>
     vs_recover newVersionSet s1 = Some (vs2, s2, Some err)"
proof -
  obtain vs s where r: "manifest_run vs s (1, 0)" "faults s = [Some 2]" using new_run by blast
  have "2 < length (manifest_record (logged_edit vs one_edit))" by (simp add: manifest_record_def Let_def)
  from partial_record_blocks_recovery [OF r(1) one_edit_ok _ this] r show ?thesis by fastforce
qed

end
