(* ===== verification/Lsm.thy ===== *)
theory Lsm
  imports Lsm_Iter Manifest
begin

text \<open>
  The database of \<^verbatim>\<open>pkg/lsm/lsm.go\<close> and \<^verbatim>\<open>flush.go\<close>: writes into the active memtable and its
  rotation, the read path through memtables and levels, snapshots, opening and closing, and the flush of
  sealed memtables. Memtables live in a store and are named by their index, so that a snapshot and the
  database share them. The state of the file system is threaded through; \<open>None\<close> is a panic. The random
  numbers of the skiplist are arguments. Each definition runs on its own, as under the locks; the
  operations that take the database in two steps are composed of these steps.
\<close>

section \<open>State\<close>

datatype lsm_error =
  ErrDBClosed | ErrKeyNotFound | ErrMkdir io_error | ErrRecover manifest_error | ErrOpenTable u64 sst_error |
  ErrMemtable skl_error | ErrManifestClose io_error

datatype flush_error =
  ErrFlushCreate io_error | ErrFlushAdd sst_error | ErrFlushWriter sst_error | ErrFlushSync io_error | ErrFlushClose io_error

record Options =
  o_MemtableSize :: int
  o_TableOptions :: WriterOptions
  o_BlockCacheSize :: int

definition ensureDefaults :: "Options \<Rightarrow> Options" where
  "ensureDefaults opts0 =
     (let opts = (if o_MemtableSize opts0 \<le> 0 then opts0\<lparr>o_MemtableSize := 64 * 1024 * 1024\<rparr> else opts0);
          opts = (if o_BlockCacheSize opts \<le> 0 then opts\<lparr>o_BlockCacheSize := 128 * 1024 * 1024\<rparr> else opts)
      in if wo_BlockSize (o_TableOptions opts) \<le> 0 then opts\<lparr>o_TableOptions := DefaultWriterOptions\<rparr> else opts)"

text \<open>An open table. Nothing writes to a table once it is in a version, and a removed file stays readable
  through its descriptor, so the file is what it held when it was opened.\<close>

record tableEntry =
  te_reader :: table_reader
  te_file :: reader_at

text \<open>\<open>db_tableCache\<close> is \<open>None\<close> for the nil map that \<^verbatim>\<open>Close\<close> leaves. The signals are channels of capacity
  one. \<open>db_imm\<close> holds the sealed memtables, the oldest first.\<close>

record DB =
  db_opts :: Options
  db_versions :: VersionSet
  db_cache :: "BlockCache option"
  db_heap :: "Memtable list"
  db_mem :: nat
  db_imm :: "nat list"
  db_seqNum :: u64
  db_tableCache :: "(u64 \<rightharpoonup> tableEntry) option"
  db_flushCh :: bool
  db_compactCh :: bool
  db_closed :: bool

definition memtable :: "DB \<Rightarrow> nat \<Rightarrow> Memtable" where
  "memtable db i = db_heap db ! i"

definition put_memtable :: "nat \<Rightarrow> Memtable \<Rightarrow> DB \<Rightarrow> DB" where
  "put_memtable i m db = db\<lparr>db_heap := (db_heap db)[i := m]\<rparr>"

definition sstablePath :: "u64 \<Rightarrow> string" where
  "sstablePath fileNum = pad_left 6 (CHR ''0'') (dec_digits (unat fileNum)) @ ''.sst''"

section \<open>Opening\<close>

definition lsm_Open :: "os \<Rightarrow> Options \<Rightarrow> (os \<times> (lsm_error + DB)) option" where
  "lsm_Open s opts0 =
     (let opts = ensureDefaults opts0 in
      case os_call s of
        (s, Some e) \<Rightarrow> Some (s, Inl (ErrMkdir e))
      | (s, None) \<Rightarrow>
        (case vs_recover newVersionSet s of
           None \<Rightarrow> None
         | Some (vs, s, Some e) \<Rightarrow> Some (s, Inl (ErrRecover e))
         | Some (vs, s, None) \<Rightarrow>
           (case mt_New (nat (o_MemtableSize opts)) of
              None \<Rightarrow> None
            | Some m \<Rightarrow>
                Some (s, Inr \<lparr>db_opts = opts, db_versions = vs, db_cache = Some (NewBlockCache (o_BlockCacheSize opts)),
                              db_heap = [m], db_mem = 0, db_imm = [], db_seqNum = vs_lastSeqNum vs,
                              db_tableCache = Some Map.empty, db_flushCh = False, db_compactCh = False, db_closed = False\<rparr>))))"

section \<open>Writing\<close>

definition rotateMemtable :: "DB \<Rightarrow> DB option" where
  "rotateMemtable db =
     map_option (\<lambda>m. db\<lparr>db_imm := db_imm db @ [db_mem db], db_heap := db_heap db @ [m], db_mem := length (db_heap db)\<rparr>)
       (mt_New (nat (o_MemtableSize (db_opts db))))"

definition signalFlush :: "DB \<Rightarrow> DB" where
  "signalFlush db = db\<lparr>db_flushCh := True\<rparr>"

definition signalCompaction :: "DB \<Rightarrow> DB" where
  "signalCompaction db = db\<lparr>db_compactCh := True\<rparr>"

text \<open>The sequence number is taken before the lock.\<close>

definition next_seq :: "DB \<Rightarrow> u64 \<times> DB" where
  "next_seq db =
     (let seq = db_seqNum db + 1
      in (seq, db\<lparr>db_seqNum := seq, db_versions := (db_versions db)\<lparr>vs_lastSeqNum := seq\<rparr>\<rparr>))"

text \<open>The critical section of \<^verbatim>\<open>Set\<close> and \<^verbatim>\<open>Delete\<close>: insert, and on an error rotate and insert again. The
  memtable operation takes one of the two random numbers.\<close>

definition locked_write :: "(Memtable \<Rightarrow> u32 \<Rightarrow> (Memtable \<times> skl_error option) option) \<Rightarrow> DB \<Rightarrow> u32 \<Rightarrow> u32 \<Rightarrow> (DB \<times> skl_error option) option" where
  "locked_write ins db r1 r2 =
     (case ins (memtable db (db_mem db)) r1 of
        None \<Rightarrow> None
      | Some (m, None) \<Rightarrow> Some (put_memtable (db_mem db) m db, None)
      | Some (m, Some _) \<Rightarrow>
          (case rotateMemtable (put_memtable (db_mem db) m db) of
             None \<Rightarrow> None
           | Some db \<Rightarrow>
               map_option (\<lambda>(m, err). (put_memtable (db_mem db) m db, err)) (ins (memtable db (db_mem db)) r2)))"

definition finish_write :: "DB \<times> skl_error option \<Rightarrow> DB \<times> lsm_error option" where
  "finish_write = (\<lambda>(db, err). (if db_imm db \<noteq> [] then signalFlush db else db, map_option ErrMemtable err))"

definition db_Set :: "DB \<Rightarrow> bytes \<Rightarrow> bytes \<Rightarrow> u32 \<Rightarrow> u32 \<Rightarrow> (DB \<times> lsm_error option) option" where
  "db_Set db key value r1 r2 =
     (if db_closed db then Some (db, Some ErrDBClosed)
      else let (seq, db) = next_seq db
           in map_option finish_write (locked_write (\<lambda>m rnd. mt_Set m key value seq rnd) db r1 r2))"

definition db_Delete :: "DB \<Rightarrow> bytes \<Rightarrow> u32 \<Rightarrow> u32 \<Rightarrow> (DB \<times> lsm_error option) option" where
  "db_Delete db key r1 r2 =
     (if db_closed db then Some (db, Some ErrDBClosed)
      else let (seq, db) = next_seq db
           in map_option finish_write (locked_write (\<lambda>m rnd. mt_Delete m key seq rnd) db r1 r2))"

section \<open>Reading memtables\<close>

definition getFromMemtable :: "Memtable \<Rightarrow> bytes \<Rightarrow> u64 \<Rightarrow> (bytes \<times> Kind) option option" where
  "getFromMemtable m key seq =
     (let seekKey = MakeInternalKey key seq KindSet in
      case si_SeekGE (mt_NewIterator m) seekKey of
        None \<Rightarrow> None
      | Some (it, False) \<Rightarrow> Some None
      | Some (it, True) \<Rightarrow>
          (case mi_UserKey it of
             None \<Rightarrow> None
           | Some u \<Rightarrow>
               if compareKeys u key \<noteq> 0 then Some None
               else case (si_Value it, mi_Kind it) of (Some v, Some k) \<Rightarrow> Some (Some (v, k)) | _ \<Rightarrow> None))"

text \<open>The memtables in the order of the search: the first that has the key decides.\<close>

fun get_mems :: "Memtable list \<Rightarrow> bytes \<Rightarrow> u64 \<Rightarrow> (lsm_error + bytes) option option" where
  "get_mems [] key seq = Some None"
| "get_mems (m # ms) key seq =
     (case getFromMemtable m key seq of
        None \<Rightarrow> None
      | Some (Some (val, kind)) \<Rightarrow> Some (Some (if kind = KindDelete then Inl ErrKeyNotFound else Inr val))
      | Some None \<Rightarrow> get_mems ms key seq)"

section \<open>Reading tables\<close>

definition OpenReader :: "os \<Rightarrow> string \<Rightarrow> u64 \<Rightarrow> (os \<times> (sst_error + tableEntry)) option" where
  "OpenReader s path fileID =
     (case os_call s of
        (s, Some e) \<Rightarrow> Some (s, Inl (ErrTableIO e))
      | (s, None) \<Rightarrow>
          if \<not> has_file s path then Some (s, Inl (ErrTableIO ErrIO))
          else case os_call s of
                 (s, Some e) \<Rightarrow> Some (fst (os_call s), Inl (ErrTableIO e))
               | (s, None) \<Rightarrow>
                   let data = fdata (file_of s path) in
                   (case NewReader (bytes_ReadAt data) (int (length data)) fileID of
                      None \<Rightarrow> None
                    | Some (Inl e) \<Rightarrow> Some (fst (os_call s), Inl e)
                    | Some (Inr r) \<Rightarrow> Some (s, Inr \<lparr>te_reader = r, te_file = bytes_ReadAt data\<rparr>)))"

text \<open>A reader that is not cached is opened and entered in the cache; that panics on a nil map.\<close>

definition getTableReader :: "DB \<Rightarrow> os \<Rightarrow> FileMeta \<Rightarrow> (DB \<times> os \<times> (lsm_error + tableEntry)) option" where
  "getTableReader db s f =
     (case Option.bind (db_tableCache db) (\<lambda>c. c (fm_FileNum f)) of
        Some tr \<Rightarrow> Some (db, s, Inr tr)
      | None \<Rightarrow>
          (case OpenReader s (sstablePath (fm_FileNum f)) (fm_FileNum f) of
             None \<Rightarrow> None
           | Some (s, Inl e) \<Rightarrow> Some (db, s, Inl (ErrOpenTable (fm_FileNum f) e))
           | Some (s, Inr tr) \<Rightarrow>
               map_option (\<lambda>c. (db\<lparr>db_tableCache := Some (c(fm_FileNum f \<mapsto> tr))\<rparr>, s, Inr tr)) (db_tableCache db)))"

definition new_table_iter :: "tableEntry \<Rightarrow> table_iter" where
  "new_table_iter tr = (te_file tr, te_reader tr, Reader_NewIterator)"

text \<open>The value is \<open>None\<close> for \<^verbatim>\<open>nil\<close>; the zero kind of a key that is not in the table is \<open>KindDelete\<close>.\<close>

definition getFromTable ::
  "DB \<Rightarrow> os \<Rightarrow> FileMeta \<Rightarrow> bytes \<Rightarrow> bytes \<Rightarrow> (DB \<times> os \<times> (lsm_error + bytes option \<times> Kind)) option" where
  "getFromTable db s f seekKey userKey =
     (case getTableReader db s f of
        None \<Rightarrow> None
      | Some (db, s, Inl e) \<Rightarrow> Some (db, s, Inl e)
      | Some (db, s, Inr tr) \<Rightarrow>
          (case table_SeekGE (new_table_iter tr) (db_cache db) seekKey of
             None \<Rightarrow> None
           | Some (it, cache, False) \<Rightarrow> Some (db\<lparr>db_cache := cache\<rparr>, s, Inr (None, 0))
           | Some (it, cache, True) \<Rightarrow>
               (case ti_Key (snd (snd it)) of
                  None \<Rightarrow> None
                | Some k \<Rightarrow>
                    if compareKeys (UserKey k) userKey \<noteq> 0 then Some (db\<lparr>db_cache := cache\<rparr>, s, Inr (None, 0))
                    else case ParseInternalKey k of (_, _, kind) \<Rightarrow>
                      if kind = KindDelete then Some (db\<lparr>db_cache := cache\<rparr>, s, Inr (None, KindDelete))
                      else map_option (\<lambda>v. (db\<lparr>db_cache := cache\<rparr>, s, Inr (Some v, KindSet))) (ti_Value (snd (snd it))))))"

text \<open>What the loops of \<^verbatim>\<open>getFromVersion\<close> do with the answer of a table: \<open>None\<close> goes on to the next.\<close>

definition table_verdict :: "lsm_error + bytes option \<times> Kind \<Rightarrow> (lsm_error + bytes) option" where
  "table_verdict r =
     (case r of
        Inl e \<Rightarrow> Some (Inl e)
      | Inr (val, kind) \<Rightarrow> if kind = KindDelete then Some (Inl ErrKeyNotFound) else map_option Inr val)"

text \<open>The files of level 0, in the order of the loop.\<close>

fun get_level0 :: "DB \<Rightarrow> os \<Rightarrow> FileMeta list \<Rightarrow> bytes \<Rightarrow> bytes \<Rightarrow> (DB \<times> os \<times> (lsm_error + bytes) option) option" where
  "get_level0 db s [] seekKey key = Some (db, s, None)"
| "get_level0 db s (f # fs) seekKey key =
     (if compareKeys key (UserKey (fm_SmallestKey f)) < 0 \<or> 0 < compareKeys key (UserKey (fm_LargestKey f))
      then get_level0 db s fs seekKey key
      else case getFromTable db s f seekKey key of
             None \<Rightarrow> None
           | Some (db, s, r) \<Rightarrow>
               (case table_verdict r of
                  Some a \<Rightarrow> Some (db, s, Some a)
                | None \<Rightarrow> get_level0 db s fs seekKey key))"

text \<open>The binary search of \<^verbatim>\<open>sort.Search\<close> on the interval from \<open>i\<close> to \<open>j\<close>.\<close>

function sort_Search :: "(nat \<Rightarrow> bool) \<Rightarrow> nat \<Rightarrow> nat \<Rightarrow> nat" where
  "sort_Search f i j =
     (if i < j then let h = (i + j) div 2 in if f h then sort_Search f i h else sort_Search f (h + 1) j else i)"
  by pat_completeness auto
termination
  by (relation "measure (\<lambda>(f, i, j). j - i)") (auto simp: div_less_iff_less_mult)

declare sort_Search.simps [simp del]

fun get_levels :: "DB \<Rightarrow> os \<Rightarrow> FileMeta list list \<Rightarrow> bytes \<Rightarrow> bytes \<Rightarrow> (DB \<times> os \<times> (lsm_error + bytes) option) option" where
  "get_levels db s [] seekKey key = Some (db, s, None)"
| "get_levels db s (fs # ls) seekKey key =
     (if fs = [] then get_levels db s ls seekKey key
      else
        let idx = sort_Search (\<lambda>i. 0 \<le> compareKeys (UserKey (fm_LargestKey (fs ! i))) key) 0 (length fs) in
        if length fs \<le> idx then get_levels db s ls seekKey key
        else if compareKeys key (UserKey (fm_SmallestKey (fs ! idx))) < 0 then get_levels db s ls seekKey key
        else case getFromTable db s (fs ! idx) seekKey key of
               None \<Rightarrow> None
             | Some (db, s, r) \<Rightarrow>
                 (case table_verdict r of
                    Some a \<Rightarrow> Some (db, s, Some a)
                  | None \<Rightarrow> get_levels db s ls seekKey key))"

definition getFromVersion :: "DB \<Rightarrow> os \<Rightarrow> Version \<Rightarrow> bytes \<Rightarrow> u64 \<Rightarrow> (DB \<times> os \<times> (lsm_error + bytes)) option" where
  "getFromVersion db s v key seq =
     (let seekKey = MakeInternalKey key seq KindSet in
      case get_level0 db s (rev (v_Levels v ! 0)) seekKey key of
        None \<Rightarrow> None
      | Some (db, s, Some a) \<Rightarrow> Some (db, s, a)
      | Some (db, s, None) \<Rightarrow>
          map_option (\<lambda>(db, s, a). (db, s, case a of Some a \<Rightarrow> a | None \<Rightarrow> Inl ErrKeyNotFound))
            (get_levels db s (map (\<lambda>l. v_Levels v ! l) [1..<NumLevels]) seekKey key))"

section \<open>Get and snapshots\<close>

text \<open>The locked part of both: reference the memtables and copy the list.\<close>

definition update_mems :: "(Memtable \<Rightarrow> Memtable) \<Rightarrow> nat list \<Rightarrow> DB \<Rightarrow> DB" where
  "update_mems f is db = fold (\<lambda>i db. put_memtable i (f (memtable db i)) db) is db"

definition grab_mems :: "DB \<Rightarrow> DB \<times> nat \<times> nat list" where
  "grab_mems db = (update_mems mt_Ref (db_mem db # db_imm db) db, db_mem db, db_imm db)"

definition release_mems :: "nat \<Rightarrow> nat list \<Rightarrow> DB \<Rightarrow> DB" where
  "release_mems mem imms db = update_mems (\<lambda>m. fst (mt_Unref m)) (mem # imms) db"

definition search_mems :: "DB \<Rightarrow> nat \<Rightarrow> nat list \<Rightarrow> bytes \<Rightarrow> u64 \<Rightarrow> (lsm_error + bytes) option option" where
  "search_mems db mem imms key seq = get_mems (map (memtable db) (mem # rev imms)) key seq"

definition db_Get :: "DB \<Rightarrow> os \<Rightarrow> bytes \<Rightarrow> (DB \<times> os \<times> (lsm_error + bytes)) option" where
  "db_Get db s key =
     (if db_closed db then Some (db, s, Inl ErrDBClosed)
      else
        let seq = db_seqNum db; (db, mem, imms) = grab_mems db in
        case search_mems db mem imms key seq of
          None \<Rightarrow> None
        | Some (Some a) \<Rightarrow> Some (release_mems mem imms db, s, a)
        | Some None \<Rightarrow>
            map_option (\<lambda>(db, s, a). (release_mems mem imms db, s, a)) (getFromVersion db s (vs_current (db_versions db)) key seq))"

record Snapshot =
  sn_seqNum :: u64
  sn_v :: Version
  sn_mem :: nat
  sn_imm :: "nat list"
  sn_closed :: bool

text \<open>\<^verbatim>\<open>NewSnapshot\<close> reads the sequence number and the version, and only then locks the memtables.\<close>

definition snapshot_version :: "DB \<Rightarrow> u64 \<times> Version" where
  "snapshot_version db = (db_seqNum db, vs_current (db_versions db))"

definition snapshot_mems :: "u64 \<times> Version \<Rightarrow> DB \<Rightarrow> DB \<times> Snapshot" where
  "snapshot_mems = (\<lambda>(seq, v) db.
     let (db, mem, imms) = grab_mems db
     in (db, \<lparr>sn_seqNum = seq, sn_v = v, sn_mem = mem, sn_imm = imms, sn_closed = False\<rparr>))"

definition NewSnapshot :: "DB \<Rightarrow> DB \<times> Snapshot" where
  "NewSnapshot db = snapshot_mems (snapshot_version db) db"

definition Snapshot_Get :: "Snapshot \<Rightarrow> DB \<Rightarrow> os \<Rightarrow> bytes \<Rightarrow> (DB \<times> os \<times> (lsm_error + bytes)) option" where
  "Snapshot_Get sn db s key =
     (if sn_closed sn then Some (db, s, Inl ErrDBClosed)
      else case search_mems db (sn_mem sn) (sn_imm sn) key (sn_seqNum sn) of
             None \<Rightarrow> None
           | Some (Some a) \<Rightarrow> Some (db, s, a)
           | Some None \<Rightarrow> getFromVersion db s (sn_v sn) key (sn_seqNum sn))"

definition Snapshot_SeqNum :: "Snapshot \<Rightarrow> u64" where
  "Snapshot_SeqNum sn = sn_seqNum sn"

definition Snapshot_Close :: "Snapshot \<Rightarrow> DB \<Rightarrow> Snapshot \<times> DB" where
  "Snapshot_Close sn db =
     (if sn_closed sn then (sn, db) else (sn\<lparr>sn_closed := True\<rparr>, release_mems (sn_mem sn) (sn_imm sn) db))"

definition LastAppliedSeqNum :: "DB \<Rightarrow> u64" where
  "LastAppliedSeqNum db = db_seqNum db"

section \<open>Flush\<close>

definition os_Remove :: "os \<Rightarrow> string \<Rightarrow> os" where
  "os_Remove s path =
     (case os_call s of (s, Some _) \<Rightarrow> s | (s, None) \<Rightarrow> s\<lparr>files := filter (\<lambda>(n, _). n \<noteq> path) (files s)\<rparr>)"

text \<open>\<^verbatim>\<open>for it.First(); it.Valid(); it.Next()\<close>\<close>

partial_function (option) flush_loop ::
  "table_writer \<Rightarrow> os \<times> fd \<Rightarrow> skl_Iterator \<Rightarrow> (table_writer \<times> (os \<times> fd) \<times> sst_error option) option" where
  "flush_loop w sh it =
     (if \<not> si_Valid it then Some (w, sh, None)
      else case (si_Key it, si_Value it) of
             (Some k, Some v) \<Rightarrow>
               (case Writer_Add file_Write w sh k v of
                  None \<Rightarrow> None
                | Some (w, sh, Some e) \<Rightarrow> Some (w, sh, Some e)
                | Some (w, sh, None) \<Rightarrow> (case si_Next it of None \<Rightarrow> None | Some (it, _) \<Rightarrow> flush_loop w sh it))
           | _ \<Rightarrow> None)"

definition close_file :: "os \<Rightarrow> os \<times> io_error option" where
  "close_file s = os_call s"

definition discard_file :: "os \<Rightarrow> string \<Rightarrow> os" where
  "discard_file s path = os_Remove (fst (close_file s)) path"

text \<open>The end of \<^verbatim>\<open>flush\<close>: close the writer, sync and close the file.\<close>

definition flush_finish :: "u64 \<Rightarrow> table_writer \<Rightarrow> os \<times> fd \<Rightarrow> os \<times> (flush_error + FileMeta)" where
  "flush_finish fileNum w sh =
     (case Writer_Close file_Write w sh of
        (w, (s, h), Inl e) \<Rightarrow> (discard_file s (sstablePath fileNum), Inl (ErrFlushWriter e))
      | (w, (s, h), Inr meta) \<Rightarrow>
          (case file_Sync s h of
             (s, Some e) \<Rightarrow> (fst (close_file s), Inl (ErrFlushSync e))
           | (s, None) \<Rightarrow>
               (case close_file s of
                  (s, Some e) \<Rightarrow> (s, Inl (ErrFlushClose e))
                | (s, None) \<Rightarrow> (s, Inr \<lparr>fm_FileNum = fileNum, fm_Level = 0, fm_Size = tm_Size meta,
                                       fm_SmallestKey = tm_SmallestKey meta, fm_LargestKey = tm_LargestKey meta\<rparr>))))"

definition db_flush :: "DB \<Rightarrow> os \<Rightarrow> Memtable \<Rightarrow> (DB \<times> os \<times> (flush_error + FileMeta)) option" where
  "db_flush db s mem =
     (let (vs, fileNum) = allocFileNum (db_versions db); db = db\<lparr>db_versions := vs\<rparr>; path = sstablePath fileNum in
      case OpenTrunc s path of
        (s, Inl e) \<Rightarrow> Some (db, s, Inl (ErrFlushCreate e))
      | (s, Inr h) \<Rightarrow>
          (case si_First (mt_NewIterator mem) of
             None \<Rightarrow> None
           | Some (it, _) \<Rightarrow>
               (case flush_loop (NewWriter (o_TableOptions (db_opts db))) (s, h) it of
                  None \<Rightarrow> None
                | Some (w, (s, h), Some e) \<Rightarrow> Some (db, discard_file s path, Inl (ErrFlushAdd e))
                | Some (w, sh, None) \<Rightarrow> Some (db, flush_finish fileNum w sh))))"

text \<open>One round of the loop of \<^verbatim>\<open>doFlush\<close>; the flag tells whether it goes round again.\<close>

definition doFlush_round :: "DB \<Rightarrow> os \<Rightarrow> (DB \<times> os \<times> bool) option" where
  "doFlush_round db s =
     (case db_imm db of
        [] \<Rightarrow> Some (db, s, False)
      | mem # _ \<Rightarrow>
          (case db_flush db s (memtable db mem) of
             None \<Rightarrow> None
           | Some (db, s, Inl _) \<Rightarrow> Some (db, s, False)
           | Some (db, s, Inr fm) \<Rightarrow>
               (case logAndApply (db_versions db) s (emptyEdit\<lparr>NewFiles := [fm]\<rparr>) of
                  None \<Rightarrow> None
                | Some (vs, s, Some _) \<Rightarrow> Some (db\<lparr>db_versions := vs\<rparr>, s, False)
                | Some (vs, s, None) \<Rightarrow>
                    Some (signalCompaction (release_mems mem [] (db\<lparr>db_versions := vs, db_imm := tl (db_imm db)\<rparr>)), s, True))))"

partial_function (option) doFlush :: "DB \<Rightarrow> os \<Rightarrow> (DB \<times> os) option" where
  "doFlush db s =
     (case doFlush_round db s of
        None \<Rightarrow> None
      | Some (db, s, again) \<Rightarrow> if again then doFlush db s else Some (db, s))"

text \<open>\<^verbatim>\<open>Close\<close> stops the loops in the background; the flush loop flushes the sealed memtables first.\<close>

definition db_Close :: "DB \<Rightarrow> os \<Rightarrow> (DB \<times> os \<times> lsm_error option) option" where
  "db_Close db s =
     (if db_closed db then Some (db, s, Some ErrDBClosed)
      else case doFlush (db\<lparr>db_closed := True\<rparr>) s of
             None \<Rightarrow> None
           | Some (db, s) \<Rightarrow>
               (case vs_close (db_versions db) s of
                  (vs, s, err) \<Rightarrow> Some (db\<lparr>db_tableCache := None, db_versions := vs\<rparr>, s, map_option ErrManifestClose err)))"

end
