(* ===== verification/Scan.thy ===== *)
theory Scan
  imports Lsm
begin

text \<open>
  \<^verbatim>\<open>NewIterator\<close> and \<^verbatim>\<open>DBIterator\<close> of \<^verbatim>\<open>pkg/lsm/lsm.go\<close>. \<^verbatim>\<open>findNextVisible\<close> holds the
  current user key as a slice of the key of a source and moves the merge iterator on while it compares
  with that slice. A block iterator writes its next key into the same array when it has room there
  (\<^verbatim>\<open>append\<close> in \<^verbatim>\<open>block.go\<close>), so the bytes of the slice can change under the comparison; the keys of a
  memtable stay. The capacity that \<^verbatim>\<open>append\<close> left is up to the runtime: \<open>inplace it it'\<close> tells whether the
  key of \<open>it'\<close> found room in the array of \<open>it\<close>; a key that is not longer does. An iterator reads the
  memtables as they are when it is made. \<open>None\<close> is a panic or a loop that does not return.
\<close>

section \<open>Opening\<close>

record DBIterator =
  di_merge :: "lsm_iter MergeIterator"
  di_key :: bytes
  di_val :: bytes
  di_valid :: bool
  di_mem :: "nat option"
  di_imm :: "nat list"
  di_v :: "Version option"

text \<open>The iterators of the files in order; a file whose reader cannot be opened is passed over.\<close>

fun table_iters :: "DB \<Rightarrow> os \<Rightarrow> FileMeta list \<Rightarrow> (DB \<times> os \<times> lsm_iter list) option" where
  "table_iters db s [] = Some (db, s, [])"
| "table_iters db s (f # fs) =
     (case getTableReader db s f of
        None \<Rightarrow> None
      | Some (db, s, Inl _) \<Rightarrow> table_iters db s fs
      | Some (db, s, Inr tr) \<Rightarrow>
          map_option (\<lambda>(db, s, its). (db, s, TableIter (new_table_iter tr) # its)) (table_iters db s fs))"

definition mem_iters :: "DB \<Rightarrow> nat \<Rightarrow> nat list \<Rightarrow> lsm_iter list" where
  "mem_iters db mem imms = map (\<lambda>i. MemIter (mt_NewIterator (memtable db i))) (mem # rev imms)"

definition NewIterator :: "DB \<Rightarrow> os \<Rightarrow> (DB \<times> os \<times> DBIterator) option" where
  "NewIterator db s =
     (let (db, mem, imms) = grab_mems db; v = vs_current (db_versions db) in
      map_option (\<lambda>(db, s, its).
          (db, s, \<lparr>di_merge = NewMergeIterator (mem_iters db mem imms @ its), di_key = [], di_val = [], di_valid = False,
                   di_mem = Some mem, di_imm = imms, di_v = Some v\<rparr>))
        (table_iters db s (rev (v_Levels v ! 0) @ concat (map (\<lambda>l. v_Levels v ! l) [1..<NumLevels]))))"

section \<open>The current user key\<close>

text \<open>Its bytes, and the source whose array they are in while that source may write to it.\<close>

record user_key =
  uk_bytes :: bytes
  uk_owner :: "nat option"

definition top_owner :: "lsm_iter MergeIterator \<Rightarrow> nat option" where
  "top_owner m = (case mi_h m of [] \<Rightarrow> None | t # _ \<Rightarrow> (case mi_iters m ! t of MemIter _ \<Rightarrow> None | TableIter _ \<Rightarrow> Some t))"

text \<open>What becomes of the slice \<open>u\<close> in the array of a table iterator that moves from \<open>it\<close> to \<open>it'\<close>. On the next
  entry of a block the key is written over the old one, or into a new array; a new block has an array of its own.\<close>

definition slice_after :: "(TableIterator \<Rightarrow> TableIterator \<Rightarrow> bool) \<Rightarrow> TableIterator \<Rightarrow> TableIterator \<Rightarrow> user_key \<Rightarrow> user_key" where
  "slice_after inplace it it' u =
     (if it' = it then u
      else case ti_Key it' of
             Some key \<Rightarrow>
               if ti_indexIter it' = ti_indexIter it \<and> inplace it it'
               then u\<lparr>uk_bytes := take (length (uk_bytes u)) (key @ drop (length key) (uk_bytes u))\<rparr>
               else u\<lparr>uk_owner := None\<rparr>
           | None \<Rightarrow> u\<lparr>uk_owner := None\<rparr>)"

definition user_key_after ::
  "(TableIterator \<Rightarrow> TableIterator \<Rightarrow> bool) \<Rightarrow> lsm_iter MergeIterator \<Rightarrow> lsm_iter MergeIterator \<Rightarrow> user_key \<Rightarrow> user_key" where
  "user_key_after inplace m m' u =
     (case uk_owner u of
        None \<Rightarrow> u
      | Some t \<Rightarrow>
          (case (mi_iters m ! t, mi_iters m' ! t) of
             (TableIter (_, _, it), TableIter (_, _, it')) \<Rightarrow> slice_after inplace it it' u
           | _ \<Rightarrow> u))"

partial_function (option) skipUserKey ::
  "(TableIterator \<Rightarrow> TableIterator \<Rightarrow> bool) \<Rightarrow> user_key \<Rightarrow> lsm_iter MergeIterator \<Rightarrow> BlockCache option \<Rightarrow>
   (lsm_iter MergeIterator \<times> BlockCache option) option" where
  "skipUserKey inplace u m cache =
     (case mi_Next li_Next li_Key m cache of
        None \<Rightarrow> None
      | Some (m', cache, ok) \<Rightarrow>
          if \<not> ok then Some (m', cache)
          else (case mi_Key li_Key m' of
             None \<Rightarrow> None
           | Some k \<Rightarrow>
               let u = user_key_after inplace m m' u in
               if compareKeys (UserKey k) (uk_bytes u) \<noteq> 0 then Some (m', cache) else skipUserKey inplace u m' cache))"

section \<open>Iterating\<close>

partial_function (option) findNextVisible ::
  "(TableIterator \<Rightarrow> TableIterator \<Rightarrow> bool) \<Rightarrow> DBIterator \<Rightarrow> BlockCache option \<Rightarrow> (DBIterator \<times> BlockCache option \<times> bool) option" where
  "findNextVisible inplace it cache =
     (if \<not> mi_Valid (di_merge it) then Some (it\<lparr>di_valid := False\<rparr>, cache, False)
      else case mi_Key li_Key (di_merge it) of
             None \<Rightarrow> None
           | Some ikey \<Rightarrow>
               (case ParseInternalKey ikey of (userKey, _, kind) \<Rightarrow>
                  let u = \<lparr>uk_bytes = userKey, uk_owner = top_owner (di_merge it)\<rparr> in
                  if kind = KindSet then
                    (case mi_Value li_Value (di_merge it) of
                       None \<Rightarrow> None
                     | Some val \<Rightarrow>
                         map_option (\<lambda>(m, cache). (it\<lparr>di_merge := m, di_key := userKey, di_val := val, di_valid := True\<rparr>, cache, True))
                           (skipUserKey inplace u (di_merge it) cache))
                  else
                    (case skipUserKey inplace u (di_merge it) cache of
                       None \<Rightarrow> None
                     | Some (m, cache) \<Rightarrow> findNextVisible inplace (it\<lparr>di_merge := m\<rparr>) cache)))"

definition DBIterator_First ::
  "(TableIterator \<Rightarrow> TableIterator \<Rightarrow> bool) \<Rightarrow> DBIterator \<Rightarrow> BlockCache option \<Rightarrow> (DBIterator \<times> BlockCache option \<times> bool) option" where
  "DBIterator_First inplace it cache =
     (case mi_First li_First li_Key (di_merge it) cache of
        None \<Rightarrow> None
      | Some (m, cache, False) \<Rightarrow> Some (it\<lparr>di_merge := m, di_valid := False\<rparr>, cache, False)
      | Some (m, cache, True) \<Rightarrow> findNextVisible inplace (it\<lparr>di_merge := m\<rparr>) cache)"

text \<open>The loop of \<^verbatim>\<open>SeekGE\<close> past user keys below the target.\<close>

partial_function (option) skip_below ::
  "(TableIterator \<Rightarrow> TableIterator \<Rightarrow> bool) \<Rightarrow> bytes \<Rightarrow> lsm_iter MergeIterator \<Rightarrow> BlockCache option \<Rightarrow>
   (lsm_iter MergeIterator \<times> BlockCache option) option" where
  "skip_below inplace target m cache =
     (if \<not> mi_Valid m then Some (m, cache)
      else case mi_Key li_Key m of
             None \<Rightarrow> None
           | Some k \<Rightarrow>
               if 0 \<le> compareKeys (UserKey k) target then Some (m, cache)
               else case skipUserKey inplace \<lparr>uk_bytes = UserKey k, uk_owner = top_owner m\<rparr> m cache of
                      None \<Rightarrow> None
                    | Some (m, cache) \<Rightarrow> skip_below inplace target m cache)"

definition maxSeqNum :: u64 where
  "maxSeqNum = 0xFFFFFFFFFFFFFF"

definition DBIterator_SeekGE ::
  "(TableIterator \<Rightarrow> TableIterator \<Rightarrow> bool) \<Rightarrow> DBIterator \<Rightarrow> BlockCache option \<Rightarrow> bytes \<Rightarrow> (DBIterator \<times> BlockCache option \<times> bool) option" where
  "DBIterator_SeekGE inplace it cache target =
     (case mi_SeekGE li_SeekGE li_Key (di_merge it) cache (MakeInternalKey target maxSeqNum KindSet) of
        None \<Rightarrow> None
      | Some (m, cache, False) \<Rightarrow> Some (it\<lparr>di_merge := m, di_valid := False\<rparr>, cache, False)
      | Some (m, cache, True) \<Rightarrow>
          (case skip_below inplace target m cache of
             None \<Rightarrow> None
           | Some (m, cache) \<Rightarrow>
               if \<not> mi_Valid m then Some (it\<lparr>di_merge := m, di_valid := False\<rparr>, cache, False)
               else findNextVisible inplace (it\<lparr>di_merge := m\<rparr>) cache))"

definition DBIterator_Next ::
  "(TableIterator \<Rightarrow> TableIterator \<Rightarrow> bool) \<Rightarrow> DBIterator \<Rightarrow> BlockCache option \<Rightarrow> (DBIterator \<times> BlockCache option \<times> bool) option" where
  "DBIterator_Next inplace it cache =
     (if \<not> di_valid it then Some (it, cache, False)
      else if \<not> mi_Valid (di_merge it) then Some (it\<lparr>di_valid := False\<rparr>, cache, False)
      else findNextVisible inplace it cache)"

definition DBIterator_Valid :: "DBIterator \<Rightarrow> bool" where
  "DBIterator_Valid it = di_valid it"

definition DBIterator_Key :: "DBIterator \<Rightarrow> bytes" where
  "DBIterator_Key it = di_key it"

definition DBIterator_Value :: "DBIterator \<Rightarrow> bytes" where
  "DBIterator_Value it = di_val it"

definition DBIterator_Close :: "DBIterator \<Rightarrow> DB \<Rightarrow> DBIterator \<times> DB" where
  "DBIterator_Close it db =
     (it\<lparr>di_mem := None, di_imm := [], di_v := None, di_valid := False\<rparr>,
      update_mems (\<lambda>m. fst (mt_Unref m)) ((case di_mem it of None \<Rightarrow> [] | Some m \<Rightarrow> [m]) @ di_imm it) db)"

end
