(* ===== verification/Lsm_Read.thy ===== *)
theory Lsm_Read
  imports Lsm
begin

text \<open>
  The read path of the database: what a lookup in memtables, in a table and in a version answers, in terms
  of the histories of operations they hold. In a version the first file whose range covers the key decides
  alone.
\<close>

section \<open>Answers\<close>

text \<open>What a lookup answers when an operation is the newest it can see.\<close>

definition answer :: "op option \<Rightarrow> lsm_error + bytes" where
  "answer x = (case x of Some (_, _, Some v) \<Rightarrow> Inr v | _ \<Rightarrow> Inl ErrKeyNotFound)"

definition op_value :: "op \<Rightarrow> bytes" where
  "op_value x = snd (op_entry x)"

lemma kinds_differ: "KindSet \<noteq> KindDelete"
  by (simp add: KindSet_def KindDelete_def)

lemma answer_kind: "answer (Some x) = (if op_kind x = KindDelete then Inl ErrKeyNotFound else Inr (op_value x))"
  by (cases x) (auto simp: answer_def op_kind_def op_value_def op_entry_def kinds_differ split: option.splits)

lemma visible_append: "visible (A @ B) key s = (case visible B key s of None \<Rightarrow> visible A key s | Some x \<Rightarrow> Some x)"
  by (auto simp: visible_def Let_def last_append filter_empty_conv split: option.splits)

lemma visible_later: "\<forall>x\<in>set B. s < op_seq x \<Longrightarrow> visible (A @ B) key s = visible A key s"
proof -
  assume "\<forall>x\<in>set B. s < op_seq x"
  then have "visible B key s = None" by (auto simp: visible_None not_le)
  then show ?thesis by (simp add: visible_append)
qed

section \<open>Memtables\<close>

lemma op_parse:
  assumes "history_ok H" and "x \<in> set H"
  shows "ParseInternalKey (fst (op_entry x)) = (fst x, op_seq x, op_kind x)" and "UserKey (fst (op_entry x)) = fst x"
proof -
  have "unat (op_seq x) < 2 ^ 48" using assms by (auto simp: history_defs)
  from op_entry_parse [OF this, of "fst x" "snd (snd x)", unfolded prod.collapse]
  show "ParseInternalKey (fst (op_entry x)) = (fst x, op_seq x, op_kind x)" "UserKey (fst (op_entry x)) = fst x"
    by (simp_all add: op_kind_def)
qed

lemma getFromMemtable_ok:
  assumes rep: "mt_rep m H" and H: "history_ok H" and k: "plain_key key" "unat s < 2 ^ 48"
  shows "getFromMemtable m key s = Some (map_option (\<lambda>x. (op_value x, op_kind x)) (visible H key s))"
proof (cases "visible H key s")
  case None
  then obtain it ok where "si_SeekGE (skl_NewIterator (mt_skl m)) (MakeInternalKey key s KindSet) = Some (it, ok)"
      "ok \<longrightarrow> (\<exists>k'. si_Key it = Some k' \<and> UserKey k' \<noteq> key)" using mt_seek [OF assms] by auto
  then show ?thesis using None by (cases ok) (auto simp: getFromMemtable_def mt_NewIterator_def mi_UserKey_def compareKeys_iff Let_def)
next
  case (Some x)
  then obtain it where "si_SeekGE (skl_NewIterator (mt_skl m)) (MakeInternalKey key s KindSet) = Some (it, True)"
      "si_Key it = Some (fst (op_entry x))" "si_Value it = Some (snd (op_entry x))" using mt_seek [OF assms] by auto
  moreover note v = visible_Some [OF H Some]
  ultimately show ?thesis using Some op_parse [OF H v(1)]
    by (simp add: getFromMemtable_def mt_NewIterator_def mi_UserKey_def mi_Kind_def compareKeys_iff op_value_def Let_def)
qed

text \<open>Memtables, the newest first, answer like one history.\<close>

lemma get_mems_ok:
  assumes "list_all2 mt_rep ms Hs" and "\<forall>H\<in>set Hs. history_ok H" and k: "plain_key key" "unat s < 2 ^ 48"
  shows "get_mems ms key s = Some (map_option (\<lambda>x. answer (Some x)) (visible (concat (rev Hs)) key s))"
  using assms(1,2)
proof (induction ms Hs rule: list_all2_induct)
  case Nil
  then show ?case by (simp add: visible_def)
next
  case (Cons m ms H Hs)
  have h: "history_ok H" "\<forall>H\<in>set Hs. history_ok H" using Cons.prems by simp_all
  show ?case
    using getFromMemtable_ok [OF Cons.hyps(1) h(1) k] Cons.IH [OF h(2)]
    by (auto simp: visible_append answer_kind split: option.splits)
qed

section \<open>Tables\<close>

text \<open>\<open>F\<close> tells the history that the table of every file number holds; a table that is not open yet can be
  opened.\<close>

definition holds :: "kv list \<Rightarrow> op list \<Rightarrow> bool" where
  "holds es H \<longleftrightarrow> sorted_keys es \<and> set es = op_entry ` set H \<and> history_ok H"

definition readable :: "tables \<Rightarrow> os \<Rightarrow> u64 \<Rightarrow> kv list \<Rightarrow> bool" where
  "readable T s n es \<longleftrightarrow> (let data = fdata (file_of s (sstablePath n)) in
     has_file s (sstablePath n) \<and> (\<exists>tr. NewReader (bytes_ReadAt data) (int (length data)) n = Some (Inr tr) \<and>
       table_src T (bytes_ReadAt data, tr, Reader_NewIterator) es))"

definition table_ok :: "tables \<Rightarrow> (u64 \<rightharpoonup> tableEntry) \<Rightarrow> os \<Rightarrow> u64 \<Rightarrow> op list \<Rightarrow> bool" where
  "table_ok T c s n H \<longleftrightarrow> (\<exists>es. holds es H \<and>
     (case c n of Some te \<Rightarrow> table_src T (new_table_iter te) es | None \<Rightarrow> readable T s n es))"

definition tables_ok :: "tables \<Rightarrow> (u64 \<rightharpoonup> op list) \<Rightarrow> DB \<Rightarrow> os \<Rightarrow> bool" where
  "tables_ok T F db s \<longleftrightarrow> cache_fits T (db_cache db) \<and>
     (\<exists>c. db_tableCache db = Some c \<and> dom c \<subseteq> dom F \<and> (\<forall>n H. F n = Some H \<longrightarrow> table_ok T c s n H))"

text \<open>A lookup changes nothing but the two caches and the schedule of faults.\<close>

definition lookup_frame :: "DB \<times> os \<Rightarrow> DB \<times> os \<Rightarrow> bool" where
  "lookup_frame = (\<lambda>(db, s) (db', s'). (\<exists>c c'. db' = db\<lparr>db_cache := c, db_tableCache := c'\<rparr>) \<and>
     file_of s' = file_of s \<and> dir_names s' = dir_names s \<and> (faults s = [] \<longrightarrow> s' = s))"

lemma lookup_frame_refl [simp]: "lookup_frame x x"
proof -
  obtain db s where x: "x = (db, s)" by (cases x)
  have "db = db\<lparr>db_cache := db_cache db, db_tableCache := db_tableCache db\<rparr>" by simp
  then show ?thesis unfolding x lookup_frame_def prod.case by blast
qed

lemma lookup_frameI:
  "db' = db\<lparr>db_cache := c, db_tableCache := c'\<rparr> \<Longrightarrow> file_of s' = file_of s \<Longrightarrow> dir_names s' = dir_names s \<Longrightarrow>
    (faults s = [] \<longrightarrow> s' = s) \<Longrightarrow> lookup_frame (db, s) (db', s')"
  unfolding lookup_frame_def prod.case by blast

lemma lookup_frame_trans: "lookup_frame x y \<Longrightarrow> lookup_frame y z \<Longrightarrow> lookup_frame x z"
  by (cases x, cases y, cases z) (fastforce simp: lookup_frame_def)

lemma lookup_frameD:
  assumes "lookup_frame (db, s) (db', s')"
  shows "db_heap db' = db_heap db" "db_mem db' = db_mem db" "db_imm db' = db_imm db" "db_seqNum db' = db_seqNum db"
    "db_versions db' = db_versions db" "db_closed db' = db_closed db" "db_opts db' = db_opts db"
    "file_of s' = file_of s" "dir_names s' = dir_names s" "faults s = [] \<Longrightarrow> s' = s"
    "db_flushCh db' = db_flushCh db" "db_compactCh db' = db_compactCh db"
  using assms by (auto simp: lookup_frame_def)

lemma OpenReader_ok:
  assumes "readable T s n es"
  shows "\<exists>s' r. OpenReader s (sstablePath n) n = Some (s', r) \<and> file_of s' = file_of s \<and> dir_names s' = dir_names s \<and>
    (faults s = [] \<longrightarrow> s' = s) \<and>
    (case r of Inl e \<Rightarrow> faults s \<noteq> [] \<and> (\<exists>x. e = ErrTableIO x) | Inr te \<Rightarrow> table_src T (new_table_iter te) es)"
proof -
  let ?path = "sstablePath n"
  let ?data = "fdata (file_of s ?path)"
  obtain tr where rd: "has_file s ?path" "NewReader (bytes_ReadAt ?data) (int (length ?data)) n = Some (Inr tr)"
      "table_src T (bytes_ReadAt ?data, tr, Reader_NewIterator) es" using assms by (auto simp: readable_def Let_def)
  obtain s1 e1 where c1: "os_call s = (s1, e1)" by fastforce
  obtain s2 e2 where c2: "os_call s1 = (s2, e2)" by fastforce
  obtain s3 e3 where c3: "os_call s2 = (s3, e3)" by fastforce
  note f = os_call_same [OF c1] os_call_same [OF c2] os_call_same [OF c3]
  have h: "has_file s1 ?path" using rd(1) f by (simp add: has_file_def)
  have nf: "e1 = None \<and> s1 = s \<and> e2 = None \<and> s2 = s" if "faults s = []" using that c1 c2 os_call_faultless [of s] by auto
  show ?thesis
  proof (cases "e1 = None \<and> e2 = None")
    case True
    then show ?thesis using c1 c2 h f rd(2,3) nf by (auto simp: OpenReader_def Let_def new_table_iter_def)
  next
    case False
    then show ?thesis using c1 c2 c3 h f nf by (cases e1; cases e2) (auto simp: OpenReader_def)
  qed
qed

lemma readable_frame: "file_of s' = file_of s \<Longrightarrow> dir_names s' = dir_names s \<Longrightarrow> readable T s' n es = readable T s n es"
  by (simp add: readable_def has_file_def)

lemma table_ok_frame:
  assumes "file_of s' = file_of s" and "dir_names s' = dir_names s"
  shows "table_ok T c s' n H = table_ok T c s n H"
  unfolding table_ok_def readable_frame [OF assms] by (rule refl)

lemma getTableReader_ok:
  assumes ok: "tables_ok T F db s" and F: "F (fm_FileNum f) = Some H"
  shows "\<exists>db' s' r. getTableReader db s f = Some (db', s', r) \<and> tables_ok T F db' s' \<and> lookup_frame (db, s) (db', s') \<and>
    (case r of Inl e \<Rightarrow> faults s \<noteq> [] \<and> (\<exists>x. e = ErrOpenTable (fm_FileNum f) (ErrTableIO x))
     | Inr te \<Rightarrow> \<exists>es. holds es H \<and> table_src T (new_table_iter te) es)"
proof -
  let ?n = "fm_FileNum f"
  obtain c where c: "db_tableCache db = Some c" "\<And>n H. F n = Some H \<Longrightarrow> table_ok T c s n H" and dc: "dom c \<subseteq> dom F"
    and cf: "cache_fits T (db_cache db)"
    using ok by (auto simp: tables_ok_def)
  obtain es where es: "holds es H" "case c ?n of Some te \<Rightarrow> table_src T (new_table_iter te) es | None \<Rightarrow> readable T s ?n es"
    using c(2) [OF F] by (auto simp: table_ok_def)
  show ?thesis
  proof (cases "c ?n")
    case (Some te)
    then show ?thesis using c(1) es ok by (auto simp: getTableReader_def intro!: exI [of _ es])
  next
    case None
    obtain s' r where r: "OpenReader s (sstablePath ?n) ?n = Some (s', r)" "file_of s' = file_of s" "dir_names s' = dir_names s"
        "faults s = [] \<longrightarrow> s' = s"
        "case r of Inl e \<Rightarrow> faults s \<noteq> [] \<and> (\<exists>x. e = ErrTableIO x) | Inr te \<Rightarrow> table_src T (new_table_iter te) es"
      using OpenReader_ok [of T s ?n es] es(2) None by auto
    show ?thesis
    proof (cases r)
      case (Inl e)
      have "tables_ok T F db s'" using ok unfolding tables_ok_def table_ok_frame [OF r(2,3)] by simp
      moreover have "lookup_frame (db, s) (db, s')" using r(2-4) lookup_frame_refl [of "(db, s)"] by (simp add: lookup_frame_def)
      ultimately show ?thesis using c(1) None r(1,5) Inl by (auto simp: getTableReader_def)
    next
      case (Inr te)
      let ?db = "db\<lparr>db_tableCache := Some (c(?n \<mapsto> te))\<rparr>"
      have "table_ok T (c(?n \<mapsto> te)) s' n H'" if "F n = Some H'" for n H'
      proof (cases "n = ?n")
        case True
        then show ?thesis using that F es(1) r(5) Inr by (auto simp: table_ok_def)
      next
        case False
        then show ?thesis using c(2) [OF that] unfolding table_ok_def readable_frame [OF r(2,3)] by simp
      qed
      then have "tables_ok T F ?db s'" using cf dc F by (auto simp: tables_ok_def)
      moreover have "lookup_frame (db, s) (?db, s')"
        by (rule lookup_frameI [where c = "db_cache db" and c' = "Some (c(?n \<mapsto> te))", OF _ r(2-4)]) simp
      moreover have "getTableReader db s f = Some (?db, s', Inr te)" using c(1) None r(1) Inr by (simp add: getTableReader_def)
      ultimately show ?thesis using es(1) r(5) Inr
        by (intro exI [of _ ?db] exI [of _ s'] exI [of _ "Inr te"]) (auto intro!: exI [of _ es])
    qed
  qed
qed

text \<open>What a lookup in a table returns, and what the search makes of it: it always decides.\<close>

definition table_result :: "op option \<Rightarrow> bytes option \<times> Kind" where
  "table_result x = (case x of None \<Rightarrow> (None, 0) | Some (_, _, None) \<Rightarrow> (None, KindDelete) | Some (_, _, Some v) \<Rightarrow> (Some v, KindSet))"

lemma verdict_result: "table_verdict (Inr (table_result x)) = Some (answer x)"
  by (auto simp: table_verdict_def table_result_def answer_def KindSet_def KindDelete_def split: option.splits)

lemma table_result_kind: "table_result (Some x) = (if op_kind x = KindDelete then (None, KindDelete) else (Some (op_value x), KindSet))"
  by (cases x) (auto simp: table_result_def op_kind_def op_value_def op_entry_def kinds_differ split: option.splits)

lemma getFromTable_ok:
  assumes ok: "tables_ok T F db s" and F: "F (fm_FileNum f) = Some H" and k: "plain_key key" "unat seq < 2 ^ 48"
  shows "\<exists>db' s' r. getFromTable db s f (MakeInternalKey key seq KindSet) key = Some (db', s', r) \<and> tables_ok T F db' s' \<and>
    lookup_frame (db, s) (db', s') \<and>
    (case r of Inl e \<Rightarrow> faults s \<noteq> [] \<and> (\<exists>x. e = ErrOpenTable (fm_FileNum f) (ErrTableIO x)) | Inr y \<Rightarrow> y = table_result (visible H key seq))"
proof -
  let ?T = "MakeInternalKey key seq KindSet"
  obtain db1 s1 r where r: "getTableReader db s f = Some (db1, s1, r)" "tables_ok T F db1 s1" "lookup_frame (db, s) (db1, s1)"
      "case r of Inl e \<Rightarrow> faults s \<noteq> [] \<and> (\<exists>x. e = ErrOpenTable (fm_FileNum f) (ErrTableIO x))
       | Inr te \<Rightarrow> \<exists>es. holds es H \<and> table_src T (new_table_iter te) es"
    using getTableReader_ok [OF ok F] by (elim exE conjE) (rule that)
  show ?thesis
  proof (cases r)
    case (Inl e)
    then show ?thesis using r by (intro exI [of _ db1] exI [of _ s1] exI [of _ "Inl e"]) (simp add: getFromTable_def)
  next
    case (Inr te)
    then obtain es where es: "holds es H" "table_src T (new_table_iter te) es" using r(4) by auto
    have H: "history_ok H" "set es = op_entry ` set H" "sorted_keys es" using es(1) by (simp_all add: holds_def)
    let ?R = "dropWhile (\<lambda>e. fst e < ?T) es"
    have fits: "cache_fits T (db_cache db1)" using r(2) by (simp add: tables_ok_def)
    obtain it g where it: "table_SeekGE (new_table_iter te) (db_cache db1) ?T = Some (it, g, ?R \<noteq> [])" "cache_fits T g"
        "?R \<noteq> [] \<longrightarrow> table_at T it es ?R"
      using tabf.seek_src [OF es(2) fits refl, of ?T] by (elim exE conjE) (rule that)
    let ?db = "db1\<lparr>db_cache := g\<rparr>"
    have ok': "tables_ok T F ?db s1" using r(2) it(2) by (simp add: tables_ok_def)
    have "lookup_frame (db1, s1) (?db, s1)" by (rule lookup_frameI [where c = g and c' = "db_tableCache db1"]) simp_all
    then have fr: "lookup_frame (db, s) (?db, s1)" by (rule lookup_frame_trans [OF r(3)])
    note v = seek_rest_visible [OF H k, unfolded seek_rest_def]
    have "getFromTable db s f ?T key = Some (?db, s1, Inr (table_result (visible H key seq)))"
    proof (cases ?R)
      case Nil
      have "visible H key seq = None" using v unfolding Nil by (auto split: option.splits)
      then show ?thesis using Nil it(1) r(1) Inr by (simp add: getFromTable_def table_result_def)
    next
      case (Cons e rest)
      then have at: "ti_Key (snd (snd it)) = Some (fst e)" "ti_Value (snd (snd it)) = Some (snd e)"
        using tabf.at_entry [of T it es e rest] it(3) by simp_all
      show ?thesis
      proof (cases "visible H key seq")
        case None
        then have "UserKey (fst e) \<noteq> key" using v Cons by simp
        then show ?thesis using None Cons it(1) r(1) Inr at by (simp add: getFromTable_def table_result_def compareKeys_iff)
      next
        case (Some x)
        then have e: "e = op_entry x" using v Cons by auto
        note vs = visible_Some [OF H(1) Some]
        show ?thesis using Some Cons it(1) r(1) Inr at e op_parse [OF H(1) vs(1)] vs(2)
          by (auto simp: getFromTable_def table_result_kind compareKeys_iff op_value_def)
      qed
    qed
    then show ?thesis using ok' fr by (intro exI [of _ ?db] exI [of _ s1] exI [of _ "Inr (table_result (visible H key seq))"]) simp
  qed
qed

section \<open>Versions\<close>

text \<open>On a monotone predicate \<^verbatim>\<open>sort.Search\<close> finds the first index where it holds.\<close>

lemma sort_Search_first:
  assumes "\<forall>a b. f a \<and> a \<le> b \<longrightarrow> f b" and "i \<le> j"
  shows "i \<le> sort_Search f i j \<and> sort_Search f i j \<le> j \<and> (\<forall>x. i \<le> x \<and> x < sort_Search f i j \<longrightarrow> \<not> f x) \<and>
    (sort_Search f i j < j \<longrightarrow> f (sort_Search f i j))"
  using assms
proof (induction f i j rule: sort_Search.induct)
  case (1 f i j)
  let ?h = "(i + j) div 2"
  show ?case
  proof (cases "i < j")
    case False
    then show ?thesis using "1.prems"(2) by (subst (1 2 3 4 5) sort_Search.simps) auto
  next
    case True
    then have b: "i \<le> ?h" "?h < j" by auto
    show ?thesis
    proof (cases "f ?h")
      case hit: True
      have e: "sort_Search f i j = sort_Search f i ?h" using True hit by (subst sort_Search.simps) (simp add: Let_def)
      note ih = "1.IH"(1) [OF True refl hit "1.prems"(1) b(1)]
      have "f (sort_Search f i ?h)"
      proof (cases "sort_Search f i ?h < ?h")
        case False
        then have "sort_Search f i ?h = ?h" using ih by linarith
        then show ?thesis using hit by metis
      qed (use ih in blast)
      moreover have "sort_Search f i ?h \<le> j" using ih b by linarith
      ultimately show ?thesis unfolding e using ih by blast
    next
      case miss: False
      have e: "sort_Search f i j = sort_Search f (?h + 1) j" using True miss by (subst sort_Search.simps) (simp add: Let_def)
      have j: "?h + 1 \<le> j" using b by linarith
      note ih = "1.IH"(2) [OF True refl miss "1.prems"(1) j]
      have "\<not> f x" if "i \<le> x \<and> x < sort_Search f (?h + 1) j" for x
        proof (cases "x \<le> ?h")
        case True
        then show ?thesis using miss "1.prems"(1) by blast
      next
        case False
        then have "?h + 1 \<le> x" by linarith
        then show ?thesis using ih that by blast
      qed
      moreover have "i \<le> sort_Search f (?h + 1) j" using ih b by linarith
      ultimately show ?thesis unfolding e using ih by blast
    qed
  qed
qed

definition covers :: "FileMeta \<Rightarrow> bytes \<Rightarrow> bool" where
  "covers f key \<longleftrightarrow> UserKey (fm_SmallestKey f) \<le> key \<and> key \<le> UserKey (fm_LargestKey f)"

text \<open>The file of a level above 0 that the binary search finds, if it covers the key.\<close>

definition level_file :: "FileMeta list \<Rightarrow> bytes \<Rightarrow> FileMeta option" where
  "level_file fs key =
     (let idx = sort_Search (\<lambda>i. key \<le> UserKey (fm_LargestKey (fs ! i))) 0 (length fs) in
      if idx < length fs \<and> UserKey (fm_SmallestKey (fs ! idx)) \<le> key then Some (fs ! idx) else None)"

fun first_some :: "('a \<Rightarrow> 'b option) \<Rightarrow> 'a list \<Rightarrow> 'b option" where
  "first_some g [] = None"
| "first_some g (x # xs) = (case g x of None \<Rightarrow> first_some g xs | Some y \<Rightarrow> Some y)"

definition deciding_file :: "Version \<Rightarrow> bytes \<Rightarrow> FileMeta option" where
  "deciding_file v key =
     (case find (\<lambda>f. covers f key) (rev (v_Levels v ! 0)) of
        Some f \<Rightarrow> Some f
      | None \<Rightarrow> first_some (\<lambda>l. level_file (v_Levels v ! l) key) [1..<NumLevels])"

lemma compareKeys_order: "(compareKeys a b < 0) = (a < b)" "(0 < compareKeys a b) = (b < a)" "(0 \<le> compareKeys a b) = (b \<le> a)"
proof -
  show 1: "(compareKeys a b < 0) = (a < b)" and "(0 < compareKeys a b) = (b < a)" by (auto simp: compareKeys_iff)
  show "(0 \<le> compareKeys a b) = (b \<le> a)" using 1 by (auto simp: not_less [symmetric])
qed

text \<open>What a lookup in a list of files returns when one file decides.\<close>

definition decided ::
  "tables \<Rightarrow> (u64 \<rightharpoonup> op list) \<Rightarrow> DB \<times> os \<Rightarrow> FileMeta option \<Rightarrow> bytes \<Rightarrow> u64 \<Rightarrow> (DB \<times> os \<times> (lsm_error + bytes) option) option \<Rightarrow> bool" where
  "decided T F dbs ff key seq res \<longleftrightarrow> (\<exists>db' s' r. res = Some (db', s', r) \<and> tables_ok T F db' s' \<and> lookup_frame dbs (db', s') \<and>
     (case ff of
        None \<Rightarrow> r = None
      | Some f \<Rightarrow> r = Some (answer (visible (the (F (fm_FileNum f))) key seq)) \<or>
          faults (snd dbs) \<noteq> [] \<and> (\<exists>x. r = Some (Inl (ErrOpenTable (fm_FileNum f) (ErrTableIO x))))))"

lemma decided_none: "tables_ok T F db s \<Longrightarrow> decided T F (db, s) None key seq (Some (db, s, None))"
  by (auto simp: decided_def)

lemma decided_table:
  assumes "tables_ok T F db s" and "F (fm_FileNum f) = Some H" and "plain_key key" "unat seq < 2 ^ 48"
  shows "decided T F (db, s) (Some f) key seq
    (case getFromTable db s f (MakeInternalKey key seq KindSet) key of None \<Rightarrow> None | Some (db, s, r) \<Rightarrow>
       (case table_verdict r of Some a \<Rightarrow> Some (db, s, Some a) | None \<Rightarrow> g db s))"
proof -
  obtain db' s' r where r: "getFromTable db s f (MakeInternalKey key seq KindSet) key = Some (db', s', r)" "tables_ok T F db' s'"
    "lookup_frame (db, s) (db', s')"
    "case r of Inl e \<Rightarrow> faults s \<noteq> [] \<and> (\<exists>x. e = ErrOpenTable (fm_FileNum f) (ErrTableIO x)) | Inr y \<Rightarrow> y = table_result (visible H key seq)"
    using getFromTable_ok [OF assms] by (elim exE conjE) (rule that)
  show ?thesis
  proof (cases r)
    case (Inl e)
    then show ?thesis using r by (simp add: decided_def table_verdict_def)
  next
    case (Inr y)
    then have "table_verdict r = Some (answer (visible H key seq))" using r(4) by (simp add: verdict_result)
    then show ?thesis using r assms(2) by (simp add: decided_def)
  qed
qed

lemma get_level0_ok:
  assumes "tables_ok T F db s" and "\<forall>f\<in>set fs. fm_FileNum f \<in> dom F" and k: "plain_key key" "unat seq < 2 ^ 48"
  shows "decided T F (db, s) (find (\<lambda>f. covers f key) fs) key seq (get_level0 db s fs (MakeInternalKey key seq KindSet) key)"
  using assms(2)
proof (induction fs)
  case Nil
  then show ?case using decided_none [OF assms(1)] by simp
next
  case (Cons f fs)
  obtain H where "F (fm_FileNum f) = Some H" using Cons.prems by auto
  from decided_table [OF assms(1) this k] Cons show ?case by (auto simp: covers_def compareKeys_order not_less)
qed

lemma get_levels_ok:
  assumes "tables_ok T F db s" and "\<forall>fs\<in>set ls. \<forall>f\<in>set fs. fm_FileNum f \<in> dom F" and k: "plain_key key" "unat seq < 2 ^ 48"
  shows "decided T F (db, s) (first_some (\<lambda>fs. level_file fs key) ls) key seq (get_levels db s ls (MakeInternalKey key seq KindSet) key)"
  using assms(2)
proof (induction ls)
  case Nil
  then show ?case using decided_none [OF assms(1)] by simp
next
  case (Cons fs ls)
  define idx where "idx = sort_Search (\<lambda>i. key \<le> UserKey (fm_LargestKey (fs ! i))) 0 (length fs)"
  show ?case
  proof (cases "idx < length fs \<and> UserKey (fm_SmallestKey (fs ! idx)) \<le> key")
    case True
    have "fs ! idx \<in> set fs" using True by simp
    then obtain H where "F (fm_FileNum (fs ! idx)) = Some H" using Cons.prems by fastforce
    from decided_table [OF assms(1) this k] True show ?thesis
      by (auto simp: level_file_def Let_def compareKeys_order simp flip: idx_def)
  next
    case False
    then have "level_file fs key = None" by (simp add: level_file_def Let_def flip: idx_def)
    then show ?thesis using Cons False by (auto simp: Let_def compareKeys_order not_le simp flip: idx_def)
  qed
qed

lemma first_some_map: "first_some g (map h xs) = first_some (\<lambda>x. g (h x)) xs"
  by (induction xs) (auto split: option.splits)

lemma getFromVersion_ok:
  assumes "tables_ok T F db s" and "length (v_Levels v) = NumLevels" and "\<forall>f\<in>live_files v. fm_FileNum f \<in> dom F"
    and k: "plain_key key" "unat seq < 2 ^ 48"
  shows "\<exists>db' s' r. getFromVersion db s v key seq = Some (db', s', r) \<and> tables_ok T F db' s' \<and> lookup_frame (db, s) (db', s') \<and>
     (case deciding_file v key of
        None \<Rightarrow> r = Inl ErrKeyNotFound
      | Some f \<Rightarrow> r = answer (visible (the (F (fm_FileNum f))) key seq) \<or>
          faults s \<noteq> [] \<and> (\<exists>x. r = Inl (ErrOpenTable (fm_FileNum f) (ErrTableIO x))))"
proof -
  let ?T = "MakeInternalKey key seq KindSet" and ?fs = "rev (v_Levels v ! 0)" and ?ls = "map (\<lambda>l. v_Levels v ! l) [1..<NumLevels]"
  have m: "\<forall>f\<in>set ?fs. fm_FileNum f \<in> dom F" "\<forall>fs\<in>set ?ls. \<forall>f\<in>set fs. fm_FileNum f \<in> dom F"
    using assms(3) by (auto simp: live_files_def NumLevels_def)
  note d0 = get_level0_ok [OF assms(1) m(1) k]
  show ?thesis
  proof (cases "find (\<lambda>f. covers f key) ?fs")
    case (Some f)
    then have df: "deciding_file v key = Some f" by (simp add: deciding_file_def)
    obtain db' s' r where "get_level0 db s ?fs ?T key = Some (db', s', r)" "tables_ok T F db' s'" "lookup_frame (db, s) (db', s')"
        "r = Some (answer (visible (the (F (fm_FileNum f))) key seq)) \<or>
          faults s \<noteq> [] \<and> (\<exists>x. r = Some (Inl (ErrOpenTable (fm_FileNum f) (ErrTableIO x))))"
      using d0 Some by (auto simp: decided_def)
    then show ?thesis using df by (auto simp: getFromVersion_def Let_def)
  next
    case None
    obtain db' s' where l0: "get_level0 db s ?fs ?T key = Some (db', s', None)" "tables_ok T F db' s'" "lookup_frame (db, s) (db', s')"
      using d0 None by (auto simp: decided_def)
    let ?ff = "first_some (\<lambda>fs. level_file fs key) ?ls"
    have df: "deciding_file v key = ?ff" using None by (simp add: deciding_file_def first_some_map)
    obtain db2 s2 r where l: "get_levels db' s' ?ls ?T key = Some (db2, s2, r)" "tables_ok T F db2 s2" "lookup_frame (db', s') (db2, s2)"
        "case ?ff of None \<Rightarrow> r = None
         | Some f \<Rightarrow> r = Some (answer (visible (the (F (fm_FileNum f))) key seq)) \<or>
          faults s' \<noteq> [] \<and> (\<exists>x. r = Some (Inl (ErrOpenTable (fm_FileNum f) (ErrTableIO x))))"
      using get_levels_ok [OF l0(2) m(2) k] unfolding decided_def snd_conv by (elim exE conjE) (rule that)
    have ft: "faults s \<noteq> []" if "faults s' \<noteq> []" using that lookup_frameD(10) [OF l0(3)] by auto
    define res where "res = (case r of Some a \<Rightarrow> a | None \<Rightarrow> Inl ErrKeyNotFound)"
    have g: "getFromVersion db s v key seq = Some (db2, s2, res)"
      using l0(1) l(1) by (simp add: getFromVersion_def Let_def res_def)
    have "case ?ff of None \<Rightarrow> res = Inl ErrKeyNotFound
        | Some f \<Rightarrow> res = answer (visible (the (F (fm_FileNum f))) key seq) \<or> faults s \<noteq> [] \<and> (\<exists>x. res = Inl (ErrOpenTable (fm_FileNum f) (ErrTableIO x)))"
      using l(4) ft by (cases ?ff) (auto simp: res_def)
    then show ?thesis unfolding df using g l(2) lookup_frame_trans [OF l0(3) l(3)]
      by (intro exI [of _ db2] exI [of _ s2] exI [of _ res] conjI)
  qed
qed

end
