(* ===== verification/Lsm_State.thy ===== *)
theory Lsm_State
  imports Lsm_Read
begin

text \<open>
  The state of the database as histories: every memtable and every table holds a history of operations.
  The lemmas show what writes, lookups and snapshots do to these histories and what lookups answer from
  them.
\<close>

section \<open>The histories of the memtables\<close>

definition room :: "op list \<Rightarrow> nat" where
  "room H = 100 + sum_list (map (\<lambda>x. op_size x + 3) H)"

abbreviation live_mems :: "DB \<Rightarrow> nat list" where
  "live_mems db \<equiv> db_imm db @ [db_mem db]"

definition hist :: "op list list \<Rightarrow> nat list \<Rightarrow> op list" where
  "hist HH is = concat (map ((!) HH) is)"

definition mem_size :: "DB \<Rightarrow> nat" where
  "mem_size db = nat (o_MemtableSize (db_opts db))"

definition mem_ok :: "nat \<Rightarrow> Memtable \<Rightarrow> op list \<Rightarrow> bool" where
  "mem_ok n m H \<longleftrightarrow> mt_rep m H \<and> history_ok H \<and> room H \<le> n"

definition active_ok :: "nat \<Rightarrow> Memtable \<Rightarrow> op list \<Rightarrow> bool" where
  "active_ok n m H \<longleftrightarrow> mem_ok n m H \<and> mt_open m \<and> length (arena_buf (skl_arena (mt_skl m))) = n \<and> unat (arena_n (skl_arena (mt_skl m))) = room H"

definition mems_ok :: "DB \<Rightarrow> op list list \<Rightarrow> bool" where
  "mems_ok db HH \<longleftrightarrow> list_all2 (mem_ok (mem_size db)) (db_heap db) HH \<and>
     active_ok (mem_size db) (memtable db (db_mem db)) (HH ! db_mem db) \<and>
     distinct (live_mems db) \<and> set (live_mems db) \<subseteq> {..<length HH}"

text \<open>Options that keep a memtable at 256 MB at most, and the tables below 4 GB; the default is 64 MB.\<close>

definition opts_ok :: "Options \<Rightarrow> bool" where
  "opts_ok opts \<longleftrightarrow> 100 \<le> o_MemtableSize opts \<and> o_MemtableSize opts \<le> 2 ^ 28 \<and> wo_BloomBitsPerKey (o_TableOptions opts) \<le> 64"

definition db_rep :: "tables \<Rightarrow> (u64 \<rightharpoonup> op list) \<Rightarrow> DB \<Rightarrow> os \<Rightarrow> op list list \<Rightarrow> bool" where
  "db_rep T F db s HH \<longleftrightarrow> \<not> db_closed db \<and> opts_ok (db_opts db) \<and> tables_ok T F db s \<and>
     length (v_Levels (vs_current (db_versions db))) = NumLevels \<and>
     (\<forall>f\<in>live_files (vs_current (db_versions db)). fm_FileNum f \<in> dom F) \<and>
     (\<forall>n. n \<in> dom F \<union> dom T \<longrightarrow> n < vs_nextFileNum (db_versions db)) \<and>
     (\<forall>h. vs_manifestFile (db_versions db) = Some h \<longrightarrow> fd_name h = manifestName) \<and>
     mems_ok db HH \<and> unat (db_seqNum db) < 2 ^ 48 \<and> (\<forall>H\<in>set HH. \<forall>x\<in>set H. op_seq x \<le> db_seqNum db)"

lemma mem_ok_refs [simp]: "mem_ok n (m\<lparr>mt_refs := r\<rparr>) H = mem_ok n m H" "active_ok n (m\<lparr>mt_refs := r\<rparr>) H = active_ok n m H"
  by (simp_all add: mem_ok_def active_ok_def mt_rep_def mt_open_def)

section \<open>References\<close>

lemma update_mems_simps: "update_mems f [] db = db" "update_mems f (i # is) db = update_mems f is (put_memtable i (f (memtable db i)) db)"
  by (simp_all add: update_mems_def)

lemma update_mems_heap: "db_heap (update_mems f is db) = fold (\<lambda>i h. h[i := f (h ! i)]) is (db_heap db)"
  by (induction "is" arbitrary: db) (simp_all add: update_mems_simps put_memtable_def memtable_def)

lemma update_mems_only: "update_mems f is db = db\<lparr>db_heap := db_heap (update_mems f is db)\<rparr>"
  by (induction "is" arbitrary: db) (simp_all add: update_mems_simps put_memtable_def, metis DB.surjective DB.update_convs(4))

lemma fold_update_nth:
  "distinct is \<Longrightarrow> set is \<subseteq> {..<length h} \<Longrightarrow>
    fold (\<lambda>i h. h[i := f (h ! i)]) is h ! j = (if j \<in> set is then f (h ! j) else h ! j) \<and> length (fold (\<lambda>i h. h[i := f (h ! i)]) is h) = length h"
proof (induction "is" arbitrary: h)
  case (Cons i "is")
  then show ?case using Cons.IH [of "h[i := f (h ! i)]"] by (auto simp: nth_list_update)
qed simp

lemma unref_ref: "fst (mt_Unref (mt_Ref m)) = m"
  by (simp add: mt_Unref_def mt_Ref_def)

text \<open>Releasing what was referenced restores the memtables.\<close>

lemma release_grabbed:
  assumes "distinct is" and "set is \<subseteq> {..<length (db_heap db)}" and "db_heap db' = db_heap (update_mems mt_Ref is db)"
  shows "db_heap (update_mems (\<lambda>m. fst (mt_Unref m)) is db') = db_heap db"
proof (rule nth_equalityI)
  let ?h = "fold (\<lambda>i h. h[i := mt_Ref (h ! i)]) is (db_heap db)"
  have h: "length ?h = length (db_heap db)" using fold_update_nth [OF assms(1,2)] by blast
  then have s: "set is \<subseteq> {..<length ?h}" using assms(2) by simp
  have e: "db_heap (update_mems (\<lambda>m. fst (mt_Unref m)) is db') = fold (\<lambda>i h. h[i := fst (mt_Unref (h ! i))]) is ?h"
    using assms(3) by (simp add: update_mems_heap)
  show "length (db_heap (update_mems (\<lambda>m. fst (mt_Unref m)) is db')) = length (db_heap db)"
    unfolding e using fold_update_nth [OF assms(1) s, of "\<lambda>m. fst (mt_Unref m)"] h by metis
  fix i
  show "db_heap (update_mems (\<lambda>m. fst (mt_Unref m)) is db') ! i = db_heap db ! i"
    unfolding e using fold_update_nth [OF assms(1) s, of "\<lambda>m. fst (mt_Unref m)" i] fold_update_nth [OF assms(1,2), of mt_Ref i]
    by (simp add: unref_ref)
qed

text \<open>Reference counts do not matter to the histories.\<close>

lemma mems_ok_refs:
  assumes "mems_ok db HH" and "\<And>m. \<exists>r. f m = m\<lparr>mt_refs := r\<rparr>"
  shows "mems_ok (update_mems f is db) HH"
  using assms(1)
proof (induction "is" arbitrary: db)
  case (Cons i "is")
  obtain r where r: "f (memtable db i) = (memtable db i)\<lparr>mt_refs := r\<rparr>" using assms(2) by blast
  let ?db = "put_memtable i (f (memtable db i)) db"
  have l: "length HH = length (db_heap db)" using Cons.prems by (auto simp: mems_ok_def dest: list_all2_lengthD)
  have "list_all2 (mem_ok (mem_size db)) (db_heap ?db) HH"
  proof (cases "i < length HH")
    case True
    then have "mem_ok (mem_size db) (f (memtable db i)) (HH ! i)"
      using Cons.prems unfolding r by (auto simp: mems_ok_def list_all2_conv_all_nth memtable_def)
    then show ?thesis using list_all2_update_cong [of _ "db_heap db" HH _ "HH ! i" i] Cons.prems by (simp add: mems_ok_def put_memtable_def)
  qed (use Cons.prems l in \<open>simp add: mems_ok_def put_memtable_def list_update_beyond\<close>)
  moreover have "active_ok (mem_size db) (memtable ?db (db_mem db)) (HH ! db_mem db)"
  proof (cases "i = db_mem db")
    case True
    have "active_ok (mem_size db) (f (memtable db i)) (HH ! i)" unfolding r using Cons.prems True by (simp add: mems_ok_def)
    then show ?thesis using Cons.prems l True by (simp add: mems_ok_def put_memtable_def memtable_def)
  qed (use Cons.prems in \<open>simp add: mems_ok_def put_memtable_def memtable_def\<close>)
  moreover have "mem_size ?db = mem_size db" "db_mem ?db = db_mem db" "db_imm ?db = db_imm db"
    by (simp_all add: mem_size_def put_memtable_def)
  ultimately have "mems_ok ?db HH" using Cons.prems by (simp add: mems_ok_def)
  from Cons.IH [OF this] show ?case by (simp add: update_mems_simps)
qed (simp add: update_mems_simps)

lemma refs_ops: "\<exists>r. mt_Ref m = m\<lparr>mt_refs := r\<rparr>" "\<exists>r. fst (mt_Unref m) = m\<lparr>mt_refs := r\<rparr>"
  by (auto simp: mt_Ref_def mt_Unref_def Let_def)

section \<open>Lookups\<close>

text \<open>The answer of the database: from the memtables, else from the file that decides.\<close>

definition db_answer :: "(u64 \<rightharpoonup> op list) \<Rightarrow> Version \<Rightarrow> op list \<Rightarrow> bytes \<Rightarrow> u64 \<Rightarrow> lsm_error + bytes" where
  "db_answer F v H key seq =
     (case visible H key seq of
        Some x \<Rightarrow> answer (Some x)
      | None \<Rightarrow> (case deciding_file v key of None \<Rightarrow> Inl ErrKeyNotFound | Some f \<Rightarrow> answer (visible (the (F (fm_FileNum f))) key seq)))"

text \<open>With failing system calls a table may not open; that is reported.\<close>

definition open_failed :: "os \<Rightarrow> lsm_error + bytes \<Rightarrow> bool" where
  "open_failed s r \<longleftrightarrow> faults s \<noteq> [] \<and> (\<exists>n x. r = Inl (ErrOpenTable n (ErrTableIO x)))"

lemma search_mems_ok:
  assumes ok: "list_all2 (mem_ok n) (db_heap db) HH" and ix: "set (mem # imms) \<subseteq> {..<length HH}"
    and k: "plain_key key" "unat seq < 2 ^ 48"
  shows "search_mems db mem imms key seq = Some (map_option (\<lambda>x. answer (Some x)) (visible (hist HH (imms @ [mem])) key seq))"
proof -
  have rep: "mt_rep (db_heap db ! i) (HH ! i)" "history_ok (HH ! i)" if "i \<in> set (mem # imms)" for i
    using ok ix that by (auto simp: list_all2_conv_all_nth mem_ok_def)
  let ?is = "mem # rev imms"
  have "list_all2 mt_rep (map (memtable db) ?is) (map ((!) HH) ?is)"
    using rep by (simp add: list_all2_conv_all_nth memtable_def nth_Cons split: nat.split) (simp add: rev_nth)
  moreover have "\<forall>H\<in>set (map ((!) HH) ?is). history_ok H" using rep(2) by auto
  moreover have "concat (rev (map ((!) HH) ?is)) = hist HH (imms @ [mem])" by (simp add: hist_def rev_map)
  ultimately show ?thesis unfolding search_mems_def using get_mems_ok [of "map (memtable db) ?is" "map ((!) HH) ?is" key seq] k by simp
qed

lemma lookup_ok:
  assumes tab: "tables_ok T F db s" and v: "length (v_Levels v) = NumLevels" "\<forall>f\<in>live_files v. fm_FileNum f \<in> dom F"
    and ok: "list_all2 (mem_ok n) (db_heap db) HH" and ix: "set (mem # imms) \<subseteq> {..<length HH}"
    and k: "plain_key key" "unat seq < 2 ^ 48"
  shows "\<exists>db' s' r. (case search_mems db mem imms key seq of None \<Rightarrow> None | Some (Some a) \<Rightarrow> Some (db, s, a)
      | Some None \<Rightarrow> getFromVersion db s v key seq) = Some (db', s', r) \<and> tables_ok T F db' s' \<and> lookup_frame (db, s) (db', s') \<and>
    (r = db_answer F v (hist HH (imms @ [mem])) key seq \<or> open_failed s r)"
proof -
  note m = search_mems_ok [OF ok ix k]
  show ?thesis
  proof (cases "visible (hist HH (imms @ [mem])) key seq")
    case (Some x)
    then show ?thesis using m tab by (simp add: db_answer_def)
  next
    case None
    obtain db' s' r where g: "getFromVersion db s v key seq = Some (db', s', r)" "tables_ok T F db' s'" "lookup_frame (db, s) (db', s')"
      "case deciding_file v key of None \<Rightarrow> r = Inl ErrKeyNotFound
      | Some f \<Rightarrow> r = answer (visible (the (F (fm_FileNum f))) key seq) \<or> faults s \<noteq> [] \<and> (\<exists>x. r = Inl (ErrOpenTable (fm_FileNum f) (ErrTableIO x)))"
      using getFromVersion_ok [OF tab v k] by (elim exE conjE) (rule that)
    have "r = db_answer F v (hist HH (imms @ [mem])) key seq \<or> open_failed s r"
      using g(4) None by (cases "deciding_file v key") (auto simp: db_answer_def open_failed_def)
    then show ?thesis using g(1-3) m None by simp
  qed
qed

text \<open>What a lookup or a new snapshot keeps of the state.\<close>

lemma db_rep_frame:
  assumes "db_rep T F db s HH" and "mems_ok db' HH" and "tables_ok T F db' s'" and "db_versions db' = db_versions db"
    and "db_seqNum db' = db_seqNum db" and "db_closed db' = db_closed db" and "db_opts db' = db_opts db"
  shows "db_rep T F db' s' HH"
  using assms by (simp add: db_rep_def)

lemma mems_ok_cong: "mems_ok db HH \<Longrightarrow> db_heap db' = db_heap db \<Longrightarrow> db_mem db' = db_mem db \<Longrightarrow> db_imm db' = db_imm db \<Longrightarrow>
    db_opts db' = db_opts db \<Longrightarrow> mems_ok db' HH"
  by (simp add: mems_ok_def mem_size_def memtable_def)

lemma tables_ok_cong: "tables_ok T F db s \<Longrightarrow> db_cache db' = db_cache db \<Longrightarrow> db_tableCache db' = db_tableCache db \<Longrightarrow> tables_ok T F db' s"
  by (simp add: tables_ok_def)

lemma update_mems_frame [simp]:
  "db_mem (update_mems f is db) = db_mem db" "db_imm (update_mems f is db) = db_imm db" "db_seqNum (update_mems f is db) = db_seqNum db"
  "db_versions (update_mems f is db) = db_versions db" "db_closed (update_mems f is db) = db_closed db" "db_opts (update_mems f is db) = db_opts db"
  "db_flushCh (update_mems f is db) = db_flushCh db" "db_compactCh (update_mems f is db) = db_compactCh db"
  "db_cache (update_mems f is db) = db_cache db" "db_tableCache (update_mems f is db) = db_tableCache db"
  by (subst update_mems_only, simp)+

lemma grabbed:
  assumes "mems_ok db HH" and "tables_ok T F db s"
  shows "mems_ok (fst (grab_mems db)) HH" and "tables_ok T F (fst (grab_mems db)) s" and "snd (grab_mems db) = (db_mem db, db_imm db)"
  using mems_ok_refs [OF assms(1) refs_ops(1)] tables_ok_cong [OF assms(2)] by (simp_all add: grab_mems_def)

lemma mems_okD:
  assumes "mems_ok db HH"
  shows "list_all2 (mem_ok (mem_size db)) (db_heap db) HH" and "set (db_mem db # db_imm db) \<subseteq> {..<length HH}"
    and "distinct (db_mem db # db_imm db)" and "length HH = length (db_heap db)"
  using assms by (auto simp: mems_ok_def dest: list_all2_lengthD)

lemma db_Get_ok:
  assumes rep: "db_rep T F db s HH" and key: "plain_key key"
  shows "\<exists>db' s' r. db_Get db s key = Some (db', s', r) \<and> db_rep T F db' s' HH \<and> lookup_frame (db, s) (db', s') \<and>
    (r = db_answer F (vs_current (db_versions db)) (hist HH (live_mems db)) key (db_seqNum db) \<or> open_failed s r)"
proof -
  let ?mem = "db_mem db" and ?imms = "db_imm db" and ?seq = "db_seqNum db" and ?v = "vs_current (db_versions db)"
  let ?is = "?mem # ?imms"
  have k: "plain_key key" "unat (db_seqNum db) < 2 ^ 48" using rep key by (simp_all add: db_rep_def)
  have m: "mems_ok db HH" "tables_ok T F db s" "\<not> db_closed db" "length (v_Levels ?v) = NumLevels" "\<forall>f\<in>live_files ?v. fm_FileNum f \<in> dom F"
    using rep by (simp_all add: db_rep_def)
  define db1 where "db1 = fst (grab_mems db)"
  have gm: "grab_mems db = (db1, ?mem, ?imms)" by (simp add: db1_def grab_mems_def)
  have h1: "db_heap db1 = db_heap (update_mems mt_Ref ?is db)" by (simp add: db1_def grab_mems_def)
  have f1: "db_versions db1 = db_versions db" by (simp add: db1_def grab_mems_def)
  note g = grabbed [OF m(1,2), folded db1_def]
  note d = mems_okD [OF g(1)] mems_okD [OF m(1)]
  obtain db2 s2 r where r: "(case search_mems db1 ?mem ?imms key ?seq of None \<Rightarrow> None | Some (Some a) \<Rightarrow> Some (db1, s, a)
      | Some None \<Rightarrow> getFromVersion db1 s ?v key ?seq) = Some (db2, s2, r)" "tables_ok T F db2 s2" "lookup_frame (db1, s) (db2, s2)"
    "r = db_answer F ?v (hist HH (?imms @ [?mem])) key ?seq \<or> open_failed s r"
    using lookup_ok [OF g(2) m(4,5) d(1) d(6) k] by (elim exE conjE) (rule that)
  note fr = lookup_frameD [OF r(3)]
  have st: "db_Get db s key = Some (release_mems ?mem ?imms db2, s2, r)"
    using r(1) m(3) by (auto simp: db_Get_def Let_def gm f1 split: option.splits)
  let ?db = "release_mems ?mem ?imms db2"
  have heap: "db_heap ?db = db_heap db"
    unfolding release_mems_def by (rule release_grabbed [OF d(7)]) (use d(6,8) fr(1) h1 in simp_all)
  have same: "db_mem ?db = ?mem" "db_imm ?db = ?imms" "db_seqNum ?db = ?seq" "db_versions ?db = db_versions db" "db_closed ?db = db_closed db"
    "db_opts ?db = db_opts db" "db_flushCh ?db = db_flushCh db" "db_compactCh ?db = db_compactCh db"
    using fr by (simp_all add: release_mems_def db1_def grab_mems_def)
  have "?db = db\<lparr>db_cache := db_cache ?db, db_tableCache := db_tableCache ?db\<rparr>"
    by (rule DB.equality) (use heap same in simp_all)
  then have lf: "lookup_frame (db, s) (?db, s2)" using fr(8-10) by (intro lookup_frameI) auto
  have "mems_ok ?db HH" by (rule mems_ok_cong [OF m(1) heap same(1,2,6)])
  moreover have "tables_ok T F ?db s2" using r(2) by (rule tables_ok_cong) (simp_all add: release_mems_def)
  ultimately have "db_rep T F ?db s2 HH" using same by (intro db_rep_frame [OF rep]) simp_all
  then show ?thesis using st lf r(4) by (intro exI [of _ ?db] exI [of _ s2] exI [of _ r]) simp
qed

section \<open>Writes\<close>

definition db_write :: "DB \<Rightarrow> bytes \<times> bytes option \<Rightarrow> u32 \<Rightarrow> u32 \<Rightarrow> (DB \<times> lsm_error option) option" where
  "db_write db x r1 r2 = (case x of (key, Some value) \<Rightarrow> db_Set db key value r1 r2 | (key, None) \<Rightarrow> db_Delete db key r1 r2)"

lemma db_write_eq:
  "\<not> db_closed db \<Longrightarrow> db_write db (key, ov) r1 r2 =
     map_option finish_write (locked_write (\<lambda>m rnd. mt_apply m (key, db_seqNum db + 1, ov) rnd)
       (db\<lparr>db_seqNum := db_seqNum db + 1, db_versions := (db_versions db)\<lparr>vs_lastSeqNum := db_seqNum db + 1\<rparr>\<rparr>) r1 r2)"
  by (cases ov) (simp_all add: db_write_def db_Set_def db_Delete_def next_seq_def mt_apply_def Let_def)

text \<open>An operation that fits in an empty memtable.\<close>

definition op_fits :: "DB \<Rightarrow> bytes \<times> bytes option \<Rightarrow> bool" where
  "op_fits db x = (case x of (key, ov) \<Rightarrow> plain_key key \<and> 100 + op_size (key, 0, ov) + 3 \<le> mem_size db)"

lemma op_size_seq: "op_size (key, seq, ov) = op_size (key, 0, ov)"
  by (cases ov) (simp_all add: op_size_def op_entry_def)

lemma room_snoc: "room (H @ [x]) = room H + op_size x + 3"
  by (simp add: room_def)

lemma history_snoc:
  assumes "history_ok H" and "\<forall>y\<in>set H. op_seq y < q" and "q \<noteq> 0" and "unat q < 2 ^ 48" and "plain_key key"
  shows "history_ok (H @ [(key, q, ov)])"
  using assms by (simp add: history_defs sorted_wrt_append)

text \<open>The memtables after a write: the operation is the last of the active one, which may be new.\<close>

definition written :: "DB \<Rightarrow> op list list \<Rightarrow> op \<Rightarrow> DB \<Rightarrow> op list list \<Rightarrow> bool" where
  "written db HH x db' HH' \<longleftrightarrow>
     db_mem db' = db_mem db \<and> db_imm db' = db_imm db \<and> HH' = HH[db_mem db := HH ! db_mem db @ [x]] \<or>
     mem_size db < room (HH ! db_mem db @ [x]) \<and> db_mem db' = length HH \<and> db_imm db' = live_mems db \<and> HH' = HH @ [[x]]"

lemma mem_ok_append:
  assumes "active_ok n m H" and "history_ok (H @ [x])" and "op_size x < 2 ^ 32"
  shows "\<exists>m' err. mt_apply m x rnd = Some (m', err) \<and>
    (if room (H @ [x]) \<le> n then err = None \<and> active_ok n m' (H @ [x]) else err \<noteq> None \<and> mem_ok n m' H)"
proof -
  have a: "mt_rep m H" "mt_open m" "length (arena_buf (skl_arena (mt_skl m))) = n" "unat (arena_n (skl_arena (mt_skl m))) = room H" "history_ok H" "room H \<le> n"
    using assms(1) by (simp_all add: active_ok_def mem_ok_def)
  have hs: "history_seqs (H @ [x])" using assms(2) by (simp add: history_ok_def)
  from mt_apply_ok [OF a(1,2) hs assms(3), of rnd] a assms(2) show ?thesis
    unfolding room_snoc by (auto simp: active_ok_def mem_ok_def room_snoc split: if_splits)
qed

lemma locked_write_ok:
  assumes ok: "mems_ok db HH" and opts: "opts_ok (db_opts db)" and H: "history_ok (HH ! db_mem db @ [x])" and fits: "room [x] \<le> mem_size db"
  shows "\<exists>db' HH'. locked_write (\<lambda>m rnd. mt_apply m x rnd) db r1 r2 = Some (db', None) \<and> mems_ok db' HH' \<and> written db HH x db' HH' \<and>
    (\<exists>h m i. db' = db\<lparr>db_heap := h, db_mem := m, db_imm := i\<rparr>)"
proof -
  let ?mem = "db_mem db" and ?n = "mem_size db" and ?m = "memtable db (db_mem db)"
  have n: "100 \<le> ?n" "?n < 2 ^ 32" using opts by (auto simp: opts_ok_def mem_size_def le_nat_iff nat_less_iff)
  have sz: "op_size x < 2 ^ 32" using fits n(2) by (simp add: room_def)
  note d = mems_okD [OF ok]
  have a: "active_ok ?n ?m (HH ! ?mem)" using ok by (simp add: mems_ok_def)
  have l: "?mem < length HH" "?mem < length (db_heap db)" using d(2,4) by simp_all
  obtain m1 err where m1: "mt_apply ?m x r1 = Some (m1, err)"
      "if room (HH ! ?mem @ [x]) \<le> ?n then err = None \<and> active_ok ?n m1 (HH ! ?mem @ [x]) else err \<noteq> None \<and> mem_ok ?n m1 (HH ! ?mem)"
    using mem_ok_append [OF a H sz, of r1] by (elim exE conjE) (rule that)
  show ?thesis
  proof (cases "room (HH ! ?mem @ [x]) \<le> ?n")
    case True
    let ?db = "put_memtable ?mem m1 db" and ?HH = "HH[?mem := HH ! ?mem @ [x]]"
    have act: "err = None" "active_ok ?n m1 (HH ! ?mem @ [x])" using m1(2) True by simp_all
    then have "list_all2 (mem_ok ?n) (db_heap ?db) ?HH"
      using list_all2_update_cong [OF d(1), of m1 "HH ! ?mem @ [x]" ?mem] by (simp add: put_memtable_def active_ok_def)
    then have "mems_ok ?db ?HH" using ok act(2) l d(4) by (auto simp: mems_ok_def mem_size_def put_memtable_def memtable_def)
    moreover have "locked_write (\<lambda>m rnd. mt_apply m x rnd) db r1 r2 = Some (?db, None)" using m1(1) act(1) by (simp add: locked_write_def)
    moreover have "written db HH x ?db ?HH" by (simp add: written_def put_memtable_def)
    moreover have "?db = db\<lparr>db_heap := (db_heap db)[?mem := m1], db_mem := ?mem, db_imm := db_imm db\<rparr>" by (simp add: put_memtable_def)
    ultimately show ?thesis by blast
  next
    case False
    have act: "err \<noteq> None" "mem_ok ?n m1 (HH ! ?mem)" using m1(2) False by simp_all
    obtain m2 where m2: "mt_New ?n = Some m2" "mt_rep m2 []" "mt_open m2" "length (arena_buf (skl_arena (mt_skl m2))) = ?n"
        "unat (arena_n (skl_arena (mt_skl m2))) = 100" using mt_New_ok [OF n] by blast
    have a2: "active_ok ?n m2 []" using m2 n(1) by (simp add: active_ok_def mem_ok_def history_defs room_def)
    have hx: "history_ok ([] @ [x])" using H by (auto simp: history_defs sorted_wrt_append)
    obtain m3 where m3: "mt_apply m2 x r2 = Some (m3, None)" "active_ok ?n m3 [x]"
      using mem_ok_append [OF a2 hx sz, of r2] fits by auto
    let ?h = "(db_heap db)[?mem := m1] @ [m3]" and ?HH = "HH @ [[x]]"
    let ?db = "db\<lparr>db_heap := ?h, db_mem := length (db_heap db), db_imm := live_mems db\<rparr>"
    let ?rot = "db\<lparr>db_heap := (db_heap db)[?mem := m1] @ [m2], db_mem := length (db_heap db), db_imm := live_mems db\<rparr>"
    have rot: "rotateMemtable (put_memtable ?mem m1 db) = Some ?rot"
      using m2(1) by (simp add: rotateMemtable_def put_memtable_def mem_size_def)
    have put: "put_memtable (db_mem ?rot) m3 ?rot = ?db" by (rule DB.equality) (simp_all add: put_memtable_def list_update_append)
    have "memtable ?rot (db_mem ?rot) = m2" by (simp add: memtable_def nth_append)
    then have "locked_write (\<lambda>m rnd. mt_apply m x rnd) db r1 r2 = Some (?db, None)"
      using m1(1) act(1) m3(1) rot put by (auto simp: locked_write_def)
    moreover have "list_all2 (mem_ok ?n) ?h ?HH"
      using list_all2_update_cong [OF d(1) act(2), of ?mem] m3(2) by (simp add: list_all2_appendI active_ok_def)
    then have "mems_ok ?db ?HH" using ok m3(2) d(4) l
      by (auto simp: mems_ok_def mem_size_def memtable_def nth_append)
    moreover have "written db HH x ?db ?HH" using False by (simp add: written_def d(4))
    ultimately show ?thesis by blast
  qed
qed

lemma hist_written:
  assumes "written db HH x db' HH'" and "distinct (live_mems db)" and "set (live_mems db) \<subseteq> {..<length HH}"
  shows "hist HH' (live_mems db') = hist HH (live_mems db) @ [x]"
proof -
  have e: "map ((!) (HH[db_mem db := y])) (db_imm db) = map ((!) HH) (db_imm db)" for y using assms(2) by (auto intro: map_cong nth_list_update_neq)
  have a: "map ((!) (HH @ [[x]])) is = map ((!) HH) is" if "set is \<subseteq> {..<length HH}" for "is" using that by (auto simp: nth_append intro!: map_cong)
  from assms(1) show ?thesis
  proof (unfold written_def, elim disjE conjE)
    assume "db_mem db' = db_mem db" "db_imm db' = db_imm db" "HH' = HH[db_mem db := HH ! db_mem db @ [x]]"
    then show ?thesis using assms(3) by (simp add: hist_def e del: map_eq_conv)
  next
    assume "mem_size db < room (HH ! db_mem db @ [x])" "db_mem db' = length HH" "db_imm db' = live_mems db" "HH' = HH @ [[x]]"
    then show ?thesis using assms(3) by (simp add: hist_def a nth_append del: map_eq_conv)
  qed
qed

lemma db_write_ok:
  assumes rep: "db_rep T F db s HH" and fits: "op_fits db (key, ov)" and seq: "unat (db_seqNum db) + 1 < 2 ^ 48"
  shows "\<exists>db' HH'. db_write db (key, ov) r1 r2 = Some (db', None) \<and> db_rep T F db' s HH' \<and> written db HH (key, db_seqNum db + 1, ov) db' HH' \<and>
    db_seqNum db' = db_seqNum db + 1 \<and> db_opts db' = db_opts db \<and> vs_current (db_versions db') = vs_current (db_versions db) \<and>
    vs_nextFileNum (db_versions db') = vs_nextFileNum (db_versions db) \<and> vs_manifestFile (db_versions db') = vs_manifestFile (db_versions db)"
proof -
  let ?q = "db_seqNum db + 1"
  let ?x = "(key, ?q, ov)" and ?db = "db\<lparr>db_seqNum := ?q, db_versions := (db_versions db)\<lparr>vs_lastSeqNum := ?q\<rparr>\<rparr>"
  have q: "unat ?q = unat (db_seqNum db) + 1" using seq unat_add_lem [of "db_seqNum db" 1, THEN iffD1] by simp
  then have qs: "?q \<noteq> 0" "unat ?q < 2 ^ 48" "y < ?q" if "y \<le> db_seqNum db" for y
    using seq that by (auto simp: word_less_nat_alt word_le_nat_alt unat_eq_zero)
  have r: "\<not> db_closed db" "mems_ok db HH" "opts_ok (db_opts db)" "\<forall>H\<in>set HH. \<forall>x\<in>set H. op_seq x \<le> db_seqNum db"
    using rep by (simp_all add: db_rep_def)
  note d = mems_okD [OF r(2)]
  have ok: "mems_ok ?db HH" by (rule mems_ok_cong [OF r(2)]) simp_all
  have mem: "HH ! db_mem db \<in> set HH" using d(2) by simp
  have hm: "history_ok (HH ! db_mem db)" using r(2) by (simp add: mems_ok_def active_ok_def mem_ok_def)
  have lt: "\<forall>y\<in>set (HH ! db_mem db). op_seq y < ?q" using r(4) mem qs(3) by blast
  have "plain_key key" using fits by (simp add: op_fits_def)
  then have "history_ok (HH ! db_mem db @ [?x])" by (rule history_snoc [OF hm lt qs(1,2) [OF order_refl]])
  then have H: "history_ok (HH ! db_mem ?db @ [?x])" by simp
  have f: "room [?x] \<le> mem_size ?db" using fits by (simp add: op_fits_def room_def op_size_seq [of key ?q] mem_size_def)
  have op: "opts_ok (db_opts ?db)" using r(3) by simp
  obtain db1 HH' where w: "locked_write (\<lambda>m rnd. mt_apply m ?x rnd) ?db r1 r2 = Some (db1, None)" "mems_ok db1 HH'" "written ?db HH ?x db1 HH'"
      "\<exists>h m i. db1 = ?db\<lparr>db_heap := h, db_mem := m, db_imm := i\<rparr>"
    using locked_write_ok [OF ok op H f, of r1 r2] by (elim exE conjE) (rule that, assumption, assumption, assumption, blast)
  let ?db' = "if db_imm db1 \<noteq> [] then signalFlush db1 else db1"
  have s1: "db_write db (key, ov) r1 r2 = Some (?db', None)" using w(1) by (simp add: db_write_eq [OF r(1)] finish_write_def)
  have same: "db_seqNum ?db' = ?q" "db_opts ?db' = db_opts db" "db_versions ?db' = (db_versions db)\<lparr>vs_lastSeqNum := ?q\<rparr>" "db_closed ?db' = db_closed db"
    "db_cache ?db' = db_cache db" "db_tableCache ?db' = db_tableCache db"
    by (insert w(4), (elim exE, simp add: signalFlush_def)+)
  have "mems_ok ?db' HH'" by (rule mems_ok_cong [OF w(2)]) (simp_all add: signalFlush_def)
  moreover have "written db HH ?x ?db' HH'" using w(3) by (auto simp: written_def signalFlush_def mem_size_def)
  moreover have "\<forall>H\<in>set HH'. \<forall>y\<in>set H. op_seq y \<le> ?q"
  proof -
    have "\<forall>H\<in>set HH'. H \<in> set HH \<or> H = HH ! db_mem db @ [?x] \<or> H = [?x]"
      using w(3) set_update_subset_insert [of HH "db_mem db" "HH ! db_mem db @ [?x]"] by (auto simp: written_def)
    then show ?thesis using r(4) mem qs(3) by (fastforce dest: less_imp_le)
  qed
  ultimately have "db_rep T F ?db' s HH'" using rep same qs(2) [OF order_refl] tables_ok_cong [of T F db s ?db']
    by (simp add: db_rep_def)
  then show ?thesis using s1 \<open>written db HH ?x ?db' HH'\<close> same by (intro exI [of _ ?db'] exI [of _ HH']) simp
qed

end
