(* ===== verification/Lsm_Flush.thy ===== *)
theory Lsm_Flush
  imports Lsm_State
begin

text \<open>
  The flush of a memtable: the table it writes holds the history of the memtable, and no other file
  changes, whatever calls fail. A round of \<^verbatim>\<open>doFlush\<close> keeps the histories of the database.
\<close>

section \<open>File names\<close>

definition digits_value :: "nat \<Rightarrow> string \<Rightarrow> nat" where
  "digits_value = foldl (\<lambda>a c. a * 10 + (of_char c - 48))"

lemma digits_value_dec: "\<exists>k. \<forall>acc. digits_value acc (dec_digits n) = acc * 10 ^ k + n"
proof (induction n rule: dec_digits.induct)
  case (1 n)
  show ?case
  proof (cases "n < 10")
    case True
    then show ?thesis by (subst dec_digits.simps) (auto simp: digits_value_def intro!: exI [of _ 1])
  next
    case False
    then obtain k where "\<forall>acc. digits_value acc (dec_digits (n div 10)) = acc * 10 ^ k + n div 10" using 1 by blast
    then show ?thesis using False
      by (subst dec_digits.simps) (auto simp: digits_value_def algebra_simps intro!: exI [of _ "Suc k"])
  qed
qed

lemma digits_value_zeros: "digits_value 0 (replicate k (CHR ''0'') @ cs) = digits_value 0 cs"
  by (induction k) (simp_all add: digits_value_def)

lemma sstablePath_inj: "sstablePath m = sstablePath n \<longleftrightarrow> m = n"
proof
  assume "sstablePath m = sstablePath n"
  then have "digits_value 0 (pad_left 6 (CHR ''0'') (dec_digits (unat m))) = digits_value 0 (pad_left 6 (CHR ''0'') (dec_digits (unat n)))"
    by (simp add: sstablePath_def)
  then have "digits_value 0 (dec_digits (unat m)) = digits_value 0 (dec_digits (unat n))" by (simp add: pad_left_def digits_value_zeros)
  then show "m = n" using digits_value_dec [of "unat m"] digits_value_dec [of "unat n"] by (auto simp: unat_arith_simps)
qed simp

lemma sstablePath_manifest: "sstablePath n \<noteq> manifestName"
proof
  assume "sstablePath n = manifestName"
  then have "last (sstablePath n) = last manifestName" by simp
  then show False by (simp add: sstablePath_def manifestName_def)
qed

section \<open>The other files\<close>

definition other_files :: "string set \<Rightarrow> os \<Rightarrow> os \<Rightarrow> bool" where
  "other_files P s s' \<longleftrightarrow> (\<forall>n. n \<notin> P \<longrightarrow> file_of s' n = file_of s n \<and> has_file s' n = has_file s n)"

lemma other_files_refl [simp]: "other_files P s s"
  by (simp add: other_files_def)

lemma other_files_trans: "other_files P s s' \<Longrightarrow> other_files P s' s'' \<Longrightarrow> other_files P s s''"
  by (simp add: other_files_def)

lemma other_files_mono: "other_files P s s' \<Longrightarrow> P \<subseteq> Q \<Longrightarrow> other_files Q s s'"
  by (auto simp: other_files_def)

lemma other_files_call: "os_call s = (s', err) \<Longrightarrow> other_files P s s'"
  by (simp add: other_files_def os_call_same has_file_def)

lemma other_files_put: "nm \<in> P \<Longrightarrow> other_files P s (put_file nm f s)"
  by (auto simp: other_files_def)

lemma other_files_fault: "next_fault s = (flt, s1) \<Longrightarrow> other_files P s s1"
  by (simp add: other_files_def file_of_next_fault has_file_cong [OF dir_names_next_fault])

lemma other_files_Write: "file_Write (s, h) p = ((s', h'), n, err) \<Longrightarrow> fd_name h \<in> P \<Longrightarrow> other_files P s s' \<and> fd_name h' = fd_name h"
  by (auto simp: file_Write_def Let_def split: if_splits prod.splits option.splits
      intro: other_files_trans [OF other_files_fault other_files_put])

lemma other_files_Sync: "file_Sync s h = (s', err) \<Longrightarrow> fd_name h \<in> P \<Longrightarrow> other_files P s s'"
  by (auto simp: file_Sync_def Let_def split: if_splits prod.splits option.splits
      intro: other_files_trans [OF other_files_fault other_files_put] other_files_fault)

lemma other_files_Remove: "p \<in> P \<Longrightarrow> other_files P s (os_Remove s p)"
proof -
  assume p: "p \<in> P"
  obtain s1 err where c: "os_call s = (s1, err)" by fastforce
  have m: "map_of (filter (\<lambda>(n, _). n \<noteq> p) xs) n = map_of xs n" if "n \<noteq> p" for n and xs :: "(string \<times> osfile) list"
    using that by (induction xs) auto
  have "other_files P s1 (s1\<lparr>files := filter (\<lambda>(n, _). n \<noteq> p) (files s1)\<rparr>)"
    unfolding other_files_def file_of_def has_file_map_of
  proof (intro allI impI)
    fix n assume "n \<notin> P"
    then have "n \<noteq> p" using p by blast
    note m [OF this, of "files s1"]
    then show "(case map_of (files (s1\<lparr>files := filter (\<lambda>(n, _). n \<noteq> p) (files s1)\<rparr>)) n of
          None \<Rightarrow> \<lparr>fdata = [], fsynced = [], fisdir = False\<rparr> | Some f \<Rightarrow> f) =
        (case map_of (files s1) n of None \<Rightarrow> \<lparr>fdata = [], fsynced = [], fisdir = False\<rparr> | Some f \<Rightarrow> f) \<and>
        (map_of (files (s1\<lparr>files := filter (\<lambda>(n, _). n \<noteq> p) (files s1)\<rparr>)) n \<noteq> None) = (map_of (files s1) n \<noteq> None)" by simp
  qed
  then show ?thesis using other_files_trans [OF other_files_call [OF c]] other_files_call [OF c]
    by (auto simp: os_Remove_def c split: option.split)
qed

lemma other_files_discard: "p \<in> P \<Longrightarrow> other_files P s (discard_file s p)"
proof -
  assume p: "p \<in> P"
  obtain s1 err where c: "os_call s = (s1, err)" by fastforce
  show ?thesis unfolding discard_file_def close_file_def c fst_conv
    by (rule other_files_trans [OF other_files_call [OF c] other_files_Remove [OF p]])
qed

lemma other_files_frame:
  assumes "file_frame (s, h) (s', h')" and "has_file s (fd_name h)" and "fd_name h \<in> P"
  shows "other_files P s s'"
proof -
  have "same_dir (fd_name h) s s'" using assms(1) by (simp add: file_frame_def)
  then have "\<forall>n. n \<noteq> fd_name h \<longrightarrow> file_of s' n = file_of s n" "dir_names s' = dir_names s" using assms(2) by (simp_all add: same_dir_def)
  then show ?thesis unfolding other_files_def has_file_def using assms(3) by metis
qed

lemma OpenTrunc_new:
  assumes "OpenTrunc s n = (s', r)"
  shows "other_files {n} s s'" and "r = Inr h \<Longrightarrow> fd_name h = n \<and> fresh_file (s', h) \<and> has_file s' n"
    and "r = Inr h \<Longrightarrow> faults s = [] \<Longrightarrow> faults s' = []"
    and "faults s = [] \<Longrightarrow> \<not> fisdir (file_of s n) \<Longrightarrow> \<exists>h. r = Inr h"
proof -
  obtain s1 err where c: "os_call s = (s1, err)" by fastforce
  show "other_files {n} s s'"
    using assms c other_files_call [OF c, of "{n}"] other_files_trans [OF other_files_call [OF c] other_files_put, of n "{n}"]
    by (auto simp: OpenTrunc_def split: option.splits if_splits)
  show "r = Inr h \<Longrightarrow> fd_name h = n \<and> fresh_file (s', h) \<and> has_file s' n"
    using assms c by (auto simp: OpenTrunc_def fresh_file_def split: option.splits if_splits)
  show "r = Inr h \<Longrightarrow> faults s = [] \<Longrightarrow> faults s' = []"
    "faults s = [] \<Longrightarrow> \<not> fisdir (file_of s n) \<Longrightarrow> \<exists>h. r = Inr h"
    using assms c os_call_faultless [of s]
    by (auto simp: OpenTrunc_def put_file_def split: option.splits if_splits)
qed

text \<open>No file becomes a directory.\<close>

definition dirs_same :: "os \<Rightarrow> os \<Rightarrow> bool" where
  "dirs_same s s' \<longleftrightarrow> (\<forall>n. fisdir (file_of s' n) = fisdir (file_of s n))"

lemma dirs_same_trans: "dirs_same s s' \<Longrightarrow> dirs_same s' s'' \<Longrightarrow> dirs_same s s''"
  by (simp add: dirs_same_def)

lemma dirs_same_dir: "same_dir nm s s' \<Longrightarrow> dirs_same s s'"
  unfolding same_dir_def dirs_same_def by metis

lemma dirs_same_call: "os_call s = (s', err) \<Longrightarrow> dirs_same s s'"
  by (simp add: dirs_same_def os_call_same)

lemma dirs_same_Open: "OpenTrunc s n = (s', r) \<Longrightarrow> dirs_same s s'"
  by (auto simp: OpenTrunc_def dirs_same_def dest: os_call_same split: prod.splits option.splits if_splits)

section \<open>The loop\<close>

lemma flush_loop_adds:
  "skl_rep (si_list it) (xs @ ys) \<Longrightarrow> si_nd it = hd0 (map sn_off ys) \<Longrightarrow>
    flush_loop w sh it = table_adds file_Write w sh (map node_entry ys)"
proof (induction ys arbitrary: xs it w sh)
  case Nil
  then show ?case by (subst flush_loop.simps) (simp add: si_Valid_def)
next
  case (Cons y ys)
  have y: "y \<in> set (xs @ y # ys)" by simp
  have nd: "si_nd it = sn_off y" using Cons.prems(2) by simp
  note e = si_entry_ok [OF Cons.prems(1) y nd] and n = si_Next_ok [OF Cons.prems(1) nd]
  have "flush_loop w' sh' (it\<lparr>si_nd := hd0 (map sn_off ys)\<rparr>) = table_adds file_Write w' sh' (map node_entry ys)" for w' sh'
    using Cons.prems(1) by (intro Cons.IH [of _ "xs @ [y]"]) simp_all
  then show ?case using e n by (subst flush_loop.simps) (auto simp: node_entry_def split: option.splits)
qed

lemma flush_loop_memtable:
  assumes "mt_rep m H" and "history_ok H"
  shows "\<exists>es it ok. holds es H \<and> si_First (mt_NewIterator m) = Some (it, ok) \<and> (\<forall>w sh. flush_loop w sh it = table_adds file_Write w sh es)"
proof -
  obtain N where N: "skl_rep (mt_skl m) N" "set (map node_entry N) = op_entry ` set H" using assms(1) by (auto simp: mt_rep_def)
  let ?it = "(mt_NewIterator m)\<lparr>si_nd := hd0 (map sn_off N)\<rparr>"
  have l: "si_list (mt_NewIterator m) = mt_skl m" by (simp add: mt_NewIterator_def skl_NewIterator_def)
  have "si_First (mt_NewIterator m) = Some (?it, N \<noteq> [])" using N(1) l by (intro si_First_ok) simp
  moreover have "flush_loop w sh ?it = table_adds file_Write w sh (map node_entry N)" for w sh
    using N(1) l by (intro flush_loop_adds [of _ "[]"]) simp_all
  moreover have "holds (map node_entry N) H" using N sorted_entries assms(2) by (simp add: holds_def)
  ultimately show ?thesis by blast
qed

section \<open>The size of the table\<close>

lemma op_seq_inj: "history_ok H \<Longrightarrow> inj_on op_entry (set H)"
proof (rule inj_onI)
  fix x y assume H: "history_ok H" "x \<in> set H" "y \<in> set H" "op_entry x = op_entry y"
  then show "x = y" using op_parse(1) [OF H(1,2)] op_parse(1) [OF H(1,3)] history_seq_inj [OF H(1-3)] by simp
qed

lemma holds_sum:
  fixes g :: "kv \<Rightarrow> nat"
  assumes "holds es H"
  shows "sum_list (map g es) = sum_list (map (\<lambda>x. g (op_entry x)) H)"
proof -
  have H: "history_ok H" "set es = op_entry ` set H" "sorted_keys es" using assms by (simp_all add: holds_def)
  have d: "distinct es" using H(3) strict_sorted_iff distinct_map by blast
  have "sorted_wrt (<) (map op_seq H)" using H(1) by (simp add: history_defs sorted_wrt_map)
  then have dH: "distinct H" using strict_sorted_iff distinct_map by blast
  have "sum_list (map g es) = sum g (op_entry ` set H)" using sum_list_distinct_conv_sum_set [OF d] H(2) by simp
  also have "\<dots> = sum (\<lambda>x. g (op_entry x)) (set H)" using sum.reindex [OF op_seq_inj [OF H(1)]] by (simp add: comp_def)
  finally show ?thesis using sum_list_distinct_conv_sum_set [OF dH, of "\<lambda>x. g (op_entry x)"] by (rule trans [OF _ sym])
qed

lemma table_bound_room:
  assumes es: "holds es H" and room: "room H \<le> 2 ^ 30" and bits: "wo_BloomBitsPerKey opts \<le> 64"
  shows "table_bound opts es < 2 ^ 32"
proof -
  let ?b = "nat (wo_BloomBitsPerKey (writer_options opts))"
  have b: "?b \<le> 64" using bits by (auto simp: writer_options_def DefaultWriterOptions_def Let_def)
  have s: "sum_list (map (\<lambda>e. 120 + 2 * length (fst e) + length (snd e)) es) \<le> 2 * sum_list (map (\<lambda>x. op_size x + 3) H)"
    unfolding holds_sum [OF es] sum_list_const_mult [symmetric] by (rule sum_list_mono) (simp add: op_size_def maxNodeSize fst_op_entry)
  have l: "length es = length H" using holds_sum [OF es, of "\<lambda>_. 1"] by (simp add: sum_list_triv)
  have "90 * length H \<le> sum_list (map (\<lambda>x. op_size x + 3) H)" by (induction H) (simp_all add: op_size_def maxNodeSize)
  then have n: "90 * length H + 100 \<le> 2 ^ 30" using room by (simp add: room_def)
  have "calcNLines (length H) ?b \<le> (length H * ?b + 511) div 512 + 2" by (simp add: calcNLines_def Let_def cacheLineBits_def add.commute)
  also have "\<dots> \<le> (length H * 64 + 511) div 512 + 2" using b by (intro add_right_mono div_le_mono mult_le_mono2)
  also have "\<dots> \<le> length H div 8 + 3" by linarith
  finally have "64 * calcNLines (length H) ?b \<le> 8 * length H + 192" by linarith
  then show ?thesis unfolding table_bound_def l using s n room by (simp add: room_def)
qed

section \<open>Writing the table\<close>

text \<open>A table file that can be opened, whatever else is known of tables.\<close>

definition table_file_ok :: "os \<Rightarrow> u64 \<Rightarrow> kv list \<Rightarrow> bool" where
  "table_file_ok s n es \<longleftrightarrow> (\<exists>r blks. \<forall>T. T n = Some (r, blks) \<longrightarrow> readable T s n es)"

lemma written_readable:
  assumes new: "fresh_file sh" and srt: "sorted_keys es" and wt: "write_table file_Write opts sh es = Some ((s', h'), Inr meta)"
    and small: "table_bound opts es < 2 ^ 32" and nm: "fd_name h' = sstablePath n"
    and has: "has_file s'' (sstablePath n)" and data: "fdata (file_of s'' (sstablePath n)) = fdata (file_of s' (sstablePath n))"
  shows "table_file_ok s'' n es"
proof -
  let ?fb = "file_bytes (s', h')"
  obtain tr r blks seps where o: "NewReader (bytes_ReadAt ?fb) (int (length ?fb)) n = Some (Inr tr)"
    "open_table [n \<mapsto> (r, blks)] (bytes_ReadAt ?fb) tr r blks seps" "concat blks = es"
    using open_written [OF new srt wt small refl, of n thesis] by blast
  have fb: "fdata (file_of s'' (sstablePath n)) = ?fb" using data nm by (simp add: file_bytes_def)
  have "readable T s'' n es" if T: "T n = Some (r, blks)" for T
  proof -
    have "open_table T (bytes_ReadAt ?fb) tr r blks seps" by (rule open_table_mono [OF o(2)]) (simp add: map_le_def T)
    then have "table_src T (bytes_ReadAt ?fb, tr, Reader_NewIterator) es" using o(3) unfolding table_src_def prod.case by blast
    then show ?thesis using o(1) has by (simp add: readable_def fb Let_def)
  qed
  then show ?thesis unfolding table_file_ok_def by blast
qed

text \<open>What a flush returns: no other file changes; on success the file holds the history.\<close>

definition flushed :: "os \<Rightarrow> u64 \<Rightarrow> kv list \<Rightarrow> os \<times> (flush_error + FileMeta) \<Rightarrow> bool" where
  "flushed s n es = (\<lambda>(s', r). other_files {sstablePath n} s s' \<and>
     (\<forall>fm. r = Inr fm \<longrightarrow> fm_FileNum fm = n \<and> fm_Level fm = 0 \<and> table_file_ok s' n es \<and>
        (es \<noteq> [] \<longrightarrow> fm_SmallestKey fm = fst (hd es) \<and> fm_LargestKey fm = fst (last es))))"

text \<open>The end of writing a table: close the writer, sync and close the file.\<close>

lemma close_table:
  assumes new: "fresh_file (s, h)" "has_file s (sstablePath n)" "fd_name h = sstablePath n" and srt: "sorted_keys es"
    and small: "table_bound opts es < 2 ^ 32" and len: "length es < 2 ^ 64"
    and add: "table_adds file_Write (NewWriter opts) (s, h) es = Some (w, sh, None)"
    and cl: "Writer_Close file_Write w sh = (w', (s3, h3), res)" and sy: "file_Sync s3 h3 = (s4, e4)" and c5: "close_file s4 = (s5, e5)"
  shows "other_files {sstablePath n} s s3" and "other_files {sstablePath n} s s4" and "other_files {sstablePath n} s s5" and "dirs_same s s5"
    and "res = Inr meta \<Longrightarrow> table_file_ok s5 n es \<and> tm_KeyCount meta = of_nat (length es) \<and>
      (es \<noteq> [] \<longrightarrow> tm_SmallestKey meta = fst (hd es) \<and> tm_LargestKey meta = fst (last es))"
    and "faults s = [] \<Longrightarrow> (\<exists>meta. res = Inr meta) \<and> e4 = None \<and> e5 = None \<and> faults s5 = []"
proof -
  let ?path = "sstablePath n"
  have c5': "os_call s4 = (s5, e5)" using c5 by (simp add: close_file_def)
  have wt: "write_table file_Write opts (s, h) es = Some ((s3, h3), res)" using add cl by (simp add: write_table_def)
  note wf = write_table_file [OF new(1) srt wt]
  have h3: "fd_name h3 = ?path" using wf(1) new(3) by (simp add: file_frame_def)
  have sd: "same_dir ?path s s3" using wf(1) new(3) by (simp add: file_frame_def)
  have has3: "has_file s3 ?path" using sd new(2) by (simp add: same_dir_def has_file_def)
  show o3: "other_files {?path} s s3" by (rule other_files_frame [OF wf(1)]) (use new in simp_all)
  show o4: "other_files {?path} s s4" by (rule other_files_trans [OF o3 other_files_Sync [OF sy]]) (simp add: h3)
  show "other_files {?path} s s5" by (rule other_files_trans [OF o4 other_files_call [OF c5']])
  note f4 = file_Sync_frame(1,2) [OF sy] and f5 = os_call_same [OF c5']
  show "dirs_same s s5" by (rule dirs_same_trans [OF dirs_same_trans [OF dirs_same_dir [OF sd] dirs_same_dir [OF f4(1)]] dirs_same_call [OF c5']])
  have has5: "has_file s5 ?path" using has3 f4(1) f5(2) h3(1) by (simp add: same_dir_def has_file_def)
  show "table_file_ok s5 n es \<and> tm_KeyCount meta = of_nat (length es) \<and>
      (es \<noteq> [] \<longrightarrow> tm_SmallestKey meta = fst (hd es) \<and> tm_LargestKey meta = fst (last es))" if rs: "res = Inr meta"
  proof -
    obtain k where "table_meta_of meta (file_bytes (s3, h3)) es k" using wf(4) [OF rs] by blast
    moreover have "table_file_ok s5 n es"
      by (rule written_readable [OF new(1) srt wt [unfolded rs] small h3(1) has5]) (use f4(2) f5(1) in simp)
    ultimately show ?thesis using len by (simp add: table_meta_of_def)
  qed
  show "(\<exists>meta. res = Inr meta) \<and> e4 = None \<and> e5 = None \<and> faults s5 = []" if fz: "faults s = []"
  proof -
    obtain meta where m: "res = Inr meta" using wf(2) fz by auto
    have "file_out (s, h) = []" "case (s, h) of (s, h) \<Rightarrow> faults s = [] \<and> fd_open h" using new(1) fz by (simp_all add: fresh_file_def file_out_def)
    then have l: "faults s3 = []" "fd_open h3" using fl.write_table_live [of "(s, h)" es opts] srt wt by auto
    then have "e4 = None" "faults s4 = []" using sy by (auto simp: file_Sync_def next_fault_def put_file_def Let_def)
    then show ?thesis using m c5' os_call_faultless [of s4] by auto
  qed
qed

lemma flush_finish_ok:
  assumes new: "fresh_file (s, h)" "has_file s (sstablePath n)" "fd_name h = sstablePath n" and srt: "sorted_keys es"
    and small: "table_bound opts es < 2 ^ 32" and len: "length es < 2 ^ 64"
    and add: "table_adds file_Write (NewWriter opts) (s, h) es = Some (w, sh, None)"
  shows "flushed s n es (flush_finish n w sh)" and "faults s = [] \<Longrightarrow> \<exists>s' fm. flush_finish n w sh = (s', Inr fm) \<and> faults s' = []"
proof -
  obtain w' s3 h3 res where cl: "Writer_Close file_Write w sh = (w', (s3, h3), res)" by (metis surj_pair)
  obtain s4 e4 where sy: "file_Sync s3 h3 = (s4, e4)" by fastforce
  obtain s5 e5 where c5: "close_file s4 = (s5, e5)" by fastforce
  note ct = close_table [OF assms cl sy c5]
  show "flushed s n es (flush_finish n w sh)"
  proof (cases res)
    case (Inl e)
    then show ?thesis using cl other_files_trans [OF ct(1) other_files_discard [of "sstablePath n"]] by (simp add: flush_finish_def flushed_def)
  next
    case (Inr meta)
    then show ?thesis using cl sy c5 ct(3) ct(5) [OF Inr]
      by (auto simp: flush_finish_def flushed_def split: option.split)
  qed
  show "\<exists>s' fm. flush_finish n w sh = (s', Inr fm) \<and> faults s' = []" if fz: "faults s = []"
    using ct(6) [OF fz] cl sy c5 by (auto simp: flush_finish_def)
qed

lemma adds_no_error:
  assumes "fresh_file (s, h)" and "sorted_keys es" and "faults s = []" and "table_adds file_Write (NewWriter opts) (s, h) es = Some (w, sh, err)"
  shows "err = None"
proof (rule ccontr)
  assume "err \<noteq> None"
  then obtain e where "write_table file_Write opts (s, h) es = Some (sh, Inl e)" using assms(4) by (auto simp: write_table_def)
  from write_table_file(2) [OF assms(1,2) this] assms(3) show False by simp
qed

lemma db_flush_ok:
  assumes mem: "mem_ok (mem_size db) m H" and opts: "opts_ok (db_opts db)" and al: "allocFileNum (db_versions db) = (vs, n)"
  shows "\<exists>s' r es. db_flush db s m = Some (db\<lparr>db_versions := vs\<rparr>, s', r) \<and> holds es H \<and> flushed s n es (s', r) \<and>
    (faults s = [] \<and> \<not> fisdir (file_of s (sstablePath n)) \<longrightarrow> faults s' = [] \<and> (\<exists>fm. r = Inr fm))"
proof -
  let ?path = "sstablePath n" and ?o = "o_TableOptions (db_opts db)"
  have H: "mt_rep m H" "history_ok H" "room H \<le> mem_size db" using mem by (simp_all add: mem_ok_def)
  obtain es it ok where es: "holds es H" "si_First (mt_NewIterator m) = Some (it, ok)" "\<And>w sh. flush_loop w sh it = table_adds file_Write w sh es"
    using flush_loop_memtable [OF H(1,2)] by blast
  have srt: "sorted_keys es" using es(1) by (simp add: holds_def)
  have room: "room H \<le> 2 ^ 30" using H(3) opts by (auto simp: opts_ok_def mem_size_def)
  have tb: "table_bound ?o es < 2 ^ 32" using table_bound_room [OF es(1) room] opts by (simp add: opts_ok_def)
  have "length es \<le> sum_list (map (\<lambda>e. 120 + 2 * length (fst e) + length (snd e)) es)" by (induction es) simp_all
  then have "length es \<le> table_bound ?o es" by (simp add: table_bound_def)
  then have len: "length es < 2 ^ 64" using tb by simp
  obtain s1 r1 where op: "OpenTrunc s ?path = (s1, r1)" by fastforce
  note o = OpenTrunc_new [OF op]
  show ?thesis
  proof (cases r1)
    case (Inl e)
    then have "db_flush db s m = Some (db\<lparr>db_versions := vs\<rparr>, s1, Inl (ErrFlushCreate e))" using op al by (simp add: db_flush_def)
    then show ?thesis using es(1) o(1,4) Inl by (intro exI [of _ s1] exI [of _ "Inl (ErrFlushCreate e)"] exI [of _ es]) (auto simp: flushed_def)
  next
    case (Inr h)
    have new: "fresh_file (s1, h)" "has_file s1 ?path" "fd_name h = ?path" using o(2) [OF Inr] by simp_all
    have out: "file_out (s1, h) = []" using new(1) by (simp add: fresh_file_def file_out_def)
    obtain sh' res where "write_table file_Write ?o (s1, h) es = Some (sh', res)"
      using fw.write_table_layout [OF out srt, of ?o] by (elim exE conjE) (rule that)
    then obtain w s2 h2 err where ad: "table_adds file_Write (NewWriter ?o) (s1, h) es = Some (w, (s2, h2), err)"
      by (auto simp: write_table_def split: option.splits)
    have ne: "err = None" if "faults s1 = []" using adds_no_error [OF new(1) srt that ad] .
    have fs: "faults s1 = []" if "faults s = []" using o(3) [OF Inr that] .
    show ?thesis
    proof (cases err)
      case (Some e)
      let ?s = "discard_file s2 ?path"
      have "other_files {?path} s1 s2" by (rule other_files_frame [OF ff.adds_frame [OF ad]]) (use new in simp_all)
      then have "other_files {?path} s ?s" by (intro other_files_trans [OF other_files_trans [OF o(1)] other_files_discard]) simp_all
      moreover have "db_flush db s m = Some (db\<lparr>db_versions := vs\<rparr>, ?s, Inl (ErrFlushAdd e))"
        using op al Inr es(2,3) ad Some by (simp add: db_flush_def)
      ultimately show ?thesis using es(1) ne fs Some
        by (intro exI [of _ ?s] exI [of _ "Inl (ErrFlushAdd e)"] exI [of _ es]) (auto simp: flushed_def)
    next
      case None
      obtain s' r where r: "flush_finish n w (s2, h2) = (s', r)" by fastforce
      note f = flush_finish_ok [OF new srt tb len ad [unfolded None], unfolded r]
      have "flushed s n es (s', r)" using f(1) other_files_trans [OF o(1)] by (simp add: flushed_def)
      moreover have "db_flush db s m = Some (db\<lparr>db_versions := vs\<rparr>, s', r)" using op al Inr es(2,3) ad None r by (simp add: db_flush_def)
      ultimately show ?thesis using es(1) f(2) fs by (intro exI [of _ s'] exI [of _ r] exI [of _ es]) auto
    qed
  qed
qed

section \<open>A round of the flush loop\<close>

lemma logAndApply_files:
  assumes lg: "logAndApply vs s e = Some (vs', s', err)" and nm: "\<forall>h. vs_manifestFile vs = Some h \<longrightarrow> fd_name h = manifestName"
  shows "other_files {manifestName} s s'" and "\<forall>h. vs_manifestFile vs' = Some h \<longrightarrow> fd_name h = manifestName"
    and "vs_nextFileNum vs' = vs_nextFileNum vs" and "vs_lastSeqNum vs' = vs_lastSeqNum vs"
    and "err \<noteq> None \<Longrightarrow> vs_current vs' = vs_current vs"
    and "err = None \<Longrightarrow> version_apply (vs_current vs) (logged_edit vs e) = Some (vs_current vs')"
proof -
  have "other_files {manifestName} s s' \<and> (\<forall>h. vs_manifestFile vs' = Some h \<longrightarrow> fd_name h = manifestName) \<and>
    vs_nextFileNum vs' = vs_nextFileNum vs \<and> vs_lastSeqNum vs' = vs_lastSeqNum vs \<and> (err \<noteq> None \<longrightarrow> vs_current vs' = vs_current vs) \<and>
    (err = None \<longrightarrow> version_apply (vs_current vs) (logged_edit vs e) = Some (vs_current vs'))"
  proof (cases "vs_manifestFile vs")
    case None
    then show ?thesis using lg by (auto simp: logAndApply_def Let_def)
  next
    case (Some h)
    have h: "fd_name h = manifestName" using nm Some by simp
    obtain s1 h1 n e1 where w: "append_Write (s, h) (manifest_record (logged_edit vs e)) = ((s1, h1), n, e1)" by (metis prod_cases3 surj_pair)
    have o1: "other_files {manifestName} s s1 \<and> fd_name h1 = manifestName"
      using other_files_Write [of s "h\<lparr>fd_pos := length (fdata (file_of s (fd_name h)))\<rparr>" _ s1 h1 n e1 "{manifestName}"] w h
      by (simp add: append_Write_def)
    obtain s2 e2 where sy: "file_Sync s1 h1 = (s2, e2)" by fastforce
    have o2: "other_files {manifestName} s s2"
      by (rule other_files_trans [OF conjunct1 [OF o1] other_files_Sync [OF sy]]) (simp add: o1)
    show ?thesis using lg Some w sy o1 o2 by (auto simp: logAndApply_def Let_def split: option.splits)
  qed
  then show "other_files {manifestName} s s'" "\<forall>h. vs_manifestFile vs' = Some h \<longrightarrow> fd_name h = manifestName"
    "vs_nextFileNum vs' = vs_nextFileNum vs" "vs_lastSeqNum vs' = vs_lastSeqNum vs"
    "err \<noteq> None \<Longrightarrow> vs_current vs' = vs_current vs"
    "err = None \<Longrightarrow> version_apply (vs_current vs) (logged_edit vs e) = Some (vs_current vs')" by simp_all
qed

lemma logAndApply_total: "version_apply (vs_current vs) (logged_edit vs e) = Some v' \<Longrightarrow> \<exists>vs' s' err. logAndApply vs s e = Some (vs', s', err)"
  by (auto simp: logAndApply_def Let_def split: option.splits prod.splits)

lemma logAndApply_live:
  assumes "faults s = []" and "vs_manifestFile vs = Some h" and "fd_open h" and "logAndApply vs s e = Some (vs', s', err)"
  shows "err = None \<and> faults s' = [] \<and> (\<exists>h'. vs_manifestFile vs' = Some h' \<and> fd_open h')"
proof -
  obtain s1 h1 n e1 where w: "append_Write (s, h) (manifest_record (logged_edit vs e)) = ((s1, h1), n, e1)" by (metis prod_cases3 surj_pair)
  have w1: "e1 = None" "faults s1 = []" "fd_open h1"
    using w assms(1,3) by (auto simp: append_Write_def file_Write_def next_fault_def put_file_def Let_def)
  obtain s2 e2 where sy: "file_Sync s1 h1 = (s2, e2)" by fastforce
  have "e2 = None" "faults s2 = []" using sy w1 by (auto simp: file_Sync_def next_fault_def put_file_def Let_def)
  then show ?thesis using assms(2,4) w sy w1 by (auto simp: logAndApply_def Let_def split: option.splits)
qed

lemma readable_other: "readable T s n es \<Longrightarrow> other_files P s s' \<Longrightarrow> sstablePath n \<notin> P \<Longrightarrow> T \<subseteq>\<^sub>m T' \<Longrightarrow> readable T' s' n es"
  unfolding readable_def other_files_def by (auto simp: Let_def dest: table_src_mono)

lemma table_file_ok_other: "table_file_ok s n es \<Longrightarrow> other_files P s s' \<Longrightarrow> sstablePath n \<notin> P \<Longrightarrow> table_file_ok s' n es"
  unfolding table_file_ok_def using readable_other [OF _ _ _ map_le_refl] by metis

lemma table_ok_other:
  assumes "table_ok T c s n H" and "other_files P s s'" and "sstablePath n \<notin> P" and "T \<subseteq>\<^sub>m T'"
  shows "table_ok T' c s' n H"
proof -
  obtain es where "holds es H" "case c n of Some te \<Rightarrow> table_src T (new_table_iter te) es | None \<Rightarrow> readable T s n es"
    using assms(1) by (auto simp: table_ok_def)
  then show ?thesis unfolding table_ok_def using readable_other [OF _ assms(2-4)] table_src_mono [OF _ assms(4)]
    by (intro exI [of _ es]) (cases "c n", simp_all)
qed

lemma tables_ok_other:
  assumes "tables_ok T F db s" and "other_files P s s'" and "\<forall>n\<in>dom F. sstablePath n \<notin> P" and "T \<subseteq>\<^sub>m T'"
  shows "tables_ok T' F db s'"
  using assms(1) table_ok_other [OF _ assms(2) _ assms(4)] cache_fits_mono [OF _ assms(4)] assms(3) unfolding tables_ok_def by blast

text \<open>A new table file.\<close>

lemma tables_ok_new:
  assumes ok: "tables_ok T F db s" and "n \<notin> dom F" "n \<notin> dom T" and "table_file_ok s n es" and "holds es H"
  shows "\<exists>x. tables_ok (T(n \<mapsto> x)) (F(n \<mapsto> H)) db s"
proof -
  obtain r blks where rb: "\<And>T. T n = Some (r, blks) \<Longrightarrow> readable T s n es" using assms(4) by (auto simp: table_file_ok_def)
  let ?T = "T(n \<mapsto> (r, blks))"
  have le: "T \<subseteq>\<^sub>m ?T" using assms(3) by (auto simp: map_le_def dom_def)
  obtain c where c: "db_tableCache db = Some c" "dom c \<subseteq> dom F" "\<And>n H. F n = Some H \<Longrightarrow> table_ok T c s n H" and cf: "cache_fits T (db_cache db)"
    using ok by (auto simp: tables_ok_def)
  have "c n = None" using c(2) assms(2) by auto
  then have "table_ok ?T c s n H" using rb [of ?T] assms(5) by (auto simp: table_ok_def)
  moreover have "table_ok ?T c s m H'" if "F m = Some H'" for m H'
    by (rule table_ok_other [OF c(3) [OF that] other_files_refl [of "{}"] _ le]) simp
  ultimately have "tables_ok ?T (F(n \<mapsto> H)) db s" using c(1,2) cache_fits_mono [OF cf le] by (auto simp: tables_ok_def)
  then show ?thesis by blast
qed

definition level0_grows :: "Version \<Rightarrow> FileMeta \<Rightarrow> Version \<Rightarrow> bool" where
  "level0_grows v f v' \<longleftrightarrow> length (v_Levels v') = NumLevels \<and> v_Levels v' ! 0 = v_Levels v ! 0 @ [f] \<and>
     (\<forall>l. 0 < l \<and> l < NumLevels \<longrightarrow> v_Levels v' ! l = sort_key fm_SmallestKey (v_Levels v ! l))"

lemma apply_level0:
  assumes "length (v_Levels v) = NumLevels" and "fm_Level f = 0"
  shows "\<exists>v'. version_apply v (logged_edit vs (emptyEdit\<lparr>NewFiles := [f]\<rparr>)) = Some v' \<and> level0_grows v f v'"
proof -
  let ?e = "logged_edit vs (emptyEdit\<lparr>NewFiles := [f]\<rparr>)"
  have "\<exists>ls. add_files (NewFiles ?e) ls0 = Some ls" for ls0
    using add_files_ok [of "NewFiles ?e"] assms(2) by (simp add: logged_edit_def NumLevels_def)
  then obtain v' where v': "version_apply v ?e = Some v'" by (fastforce simp: version_apply_def Let_def split: option.splits)
  have e: "edit_deletes ?e = (\<lambda>_. False)" "edit_files ?e l = (if l = 0 then [f] else [])" for l
    using assms(2) by (auto simp: edit_deletes_def edit_files_def logged_edit_def emptyEdit_def)
  show ?thesis using v' version_apply_Some [OF assms(1) v'] by (auto simp: level0_grows_def e)
qed

text \<open>What a round does to the state: it fails and leaves memtables and version alone, or the oldest sealed
  memtable becomes the newest table.\<close>

definition flush_moves :: "(u64 \<rightharpoonup> op list) \<Rightarrow> DB \<Rightarrow> op list list \<Rightarrow> (u64 \<rightharpoonup> op list) \<Rightarrow> DB \<Rightarrow> bool \<Rightarrow> bool" where
  "flush_moves F db HH F' db' ok \<longleftrightarrow>
     (if ok then \<exists>i rest n f es. db_imm db = i # rest \<and> db_imm db' = rest \<and> n = vs_nextFileNum (db_versions db) \<and>
        vs_nextFileNum (db_versions db') = n + 1 \<and> n \<notin> dom F \<and> F' = F(n \<mapsto> HH ! i) \<and> fm_FileNum f = n \<and>
        level0_grows (vs_current (db_versions db)) f (vs_current (db_versions db')) \<and> holds es (HH ! i) \<and>
        (es \<noteq> [] \<longrightarrow> fm_SmallestKey f = fst (hd es) \<and> fm_LargestKey f = fst (last es))
      else F' = F \<and> db_imm db' = db_imm db \<and> vs_current (db_versions db') = vs_current (db_versions db))"

definition keeps :: "DB \<Rightarrow> DB \<Rightarrow> bool" where
  "keeps db db' \<longleftrightarrow> db_mem db' = db_mem db \<and> db_seqNum db' = db_seqNum db \<and> db_opts db' = db_opts db"

lemma next_greater: "n + 1 \<noteq> 0 \<Longrightarrow> m < n \<Longrightarrow> m < n + (1 :: u64)"
  using le_plus_one [of n] by simp

lemma db_rep_version:
  assumes "db_rep T F db s HH" and "tables_ok T' F' db s'" and "length (v_Levels (vs_current vs)) = NumLevels"
    and "\<forall>f\<in>live_files (vs_current vs). fm_FileNum f \<in> dom F'" and "\<forall>n. n \<in> dom F' \<union> dom T' \<longrightarrow> n < vs_nextFileNum vs"
    and "\<forall>h. vs_manifestFile vs = Some h \<longrightarrow> fd_name h = manifestName"
  shows "db_rep T' F' (db\<lparr>db_versions := vs\<rparr>) s' HH"
  using assms tables_ok_cong [of T' F' db s' "db\<lparr>db_versions := vs\<rparr>"] mems_ok_cong [of db HH "db\<lparr>db_versions := vs\<rparr>"]
  by (simp add: db_rep_def)

lemma db_rep_sealed:
  assumes "db_rep T F db s HH" and "db_imm db = i # rest"
  shows "db_rep T F (signalCompaction (release_mems i [] (db\<lparr>db_imm := rest\<rparr>))) s HH"
proof -
  let ?db = "db\<lparr>db_imm := rest\<rparr>"
  have "mems_ok ?db HH" using assms by (simp add: db_rep_def mems_ok_def mem_size_def memtable_def)
  from mems_ok_refs [OF this refs_ops(2)] have "mems_ok (release_mems i [] ?db) HH" by (simp add: release_mems_def)
  then have "mems_ok (signalCompaction (release_mems i [] ?db)) HH" by (rule mems_ok_cong) (simp_all add: signalCompaction_def)
  moreover have "tables_ok T F (signalCompaction (release_mems i [] ?db)) s"
    by (rule tables_ok_cong [of T F db]) (use assms(1) in \<open>simp_all add: db_rep_def signalCompaction_def release_mems_def\<close>)
  ultimately show ?thesis using assms(1) by (intro db_rep_frame [OF assms(1)]) (simp_all add: signalCompaction_def release_mems_def)
qed

lemma doFlush_round_ok:
  assumes rep: "db_rep T F db s HH" and nx: "vs_nextFileNum (db_versions db) + 1 \<noteq> 0"
  shows "\<exists>db' s' ok T' F'. doFlush_round db s = Some (db', s', ok) \<and> db_rep T' F' db' s' HH \<and> T \<subseteq>\<^sub>m T' \<and> F \<subseteq>\<^sub>m F' \<and>
    keeps db db' \<and> flush_moves F db HH F' db' ok"
proof (cases "db_imm db")
  case Nil
  then have "doFlush_round db s = Some (db, s, False)" by (simp add: doFlush_round_def)
  then show ?thesis using rep
    by (intro exI [of _ db] exI [of _ s] exI [of _ False] exI [of _ T] exI [of _ F]) (simp add: keeps_def flush_moves_def)
next
  case (Cons i rest)
  let ?n = "vs_nextFileNum (db_versions db)" and ?v = "vs_current (db_versions db)"
  let ?vs = "(db_versions db)\<lparr>vs_nextFileNum := ?n + 1\<rparr>" and ?m = "memtable db i"
  let ?db = "db\<lparr>db_versions := ?vs\<rparr>"
  have r: "mems_ok db HH" "opts_ok (db_opts db)" "tables_ok T F db s" "length (v_Levels ?v) = NumLevels"
      "\<forall>f\<in>live_files ?v. fm_FileNum f \<in> dom F" "\<forall>m. m \<in> dom F \<union> dom T \<longrightarrow> m < ?n"
      "\<forall>h. vs_manifestFile (db_versions db) = Some h \<longrightarrow> fd_name h = manifestName"
    using rep by (simp_all add: db_rep_def)
  note d = mems_okD [OF r(1)]
  have m: "mem_ok (mem_size db) ?m (HH ! i)" using d(1,2,4) Cons by (auto simp: list_all2_conv_all_nth memtable_def)
  have al: "allocFileNum (db_versions db) = (?vs, ?n)" by (simp add: allocFileNum_def Let_def)
  have fresh: "?n \<notin> dom F" "?n \<notin> dom T" using r(6) by fastforce+
  have nums: "\<forall>m. m \<in> dom F \<union> dom T \<longrightarrow> m < ?n + 1" using r(6) next_greater [OF nx] by blast
  obtain s1 rs es where f: "db_flush db s ?m = Some (?db, s1, rs)" "holds es (HH ! i)" "flushed s ?n es (s1, rs)"
    using db_flush_ok [OF m r(2) al] by blast
  have o1: "other_files {sstablePath ?n} s s1" using f(3) by (simp add: flushed_def)
  have t1: "tables_ok T F db s1"
    by (rule tables_ok_other [OF r(3) o1 _ map_le_refl]) (use fresh in \<open>auto simp: sstablePath_inj\<close>)
  show ?thesis
  proof (cases rs)
    case (Inl e)
    have "doFlush_round db s = Some (?db, s1, False)" using Cons f(1) Inl by (simp add: doFlush_round_def)
    moreover have "db_rep T F ?db s1 HH" using r nums by (intro db_rep_version [OF rep t1]) simp_all
    ultimately show ?thesis
      by (intro exI [of _ ?db] exI [of _ s1] exI [of _ False] exI [of _ T] exI [of _ F]) (simp add: keeps_def flush_moves_def)
  next
    case (Inr fm)
    let ?e = "emptyEdit\<lparr>NewFiles := [fm]\<rparr>"
    have fm: "fm_FileNum fm = ?n" "fm_Level fm = 0" "table_file_ok s1 ?n es"
        "es \<noteq> [] \<longrightarrow> fm_SmallestKey fm = fst (hd es) \<and> fm_LargestKey fm = fst (last es)"
      using f(3) Inr by (simp_all add: flushed_def)
    obtain v' where v': "version_apply ?v (logged_edit ?vs ?e) = Some v'" "level0_grows ?v fm v'"
      using apply_level0 [OF r(4) fm(2)] by blast
    obtain vs2 s2 err where lg: "logAndApply ?vs s1 ?e = Some (vs2, s2, err)"
      using logAndApply_total [of ?vs ?e v' s1] v'(1) by auto
    note l = logAndApply_files [OF lg, simplified, OF r(7)]
    have t2: "tables_ok T F db s2"
      by (rule tables_ok_other [OF t1 l(1) _ map_le_refl]) (simp add: sstablePath_manifest)
    show ?thesis
    proof (cases err)
      case (Some e)
      let ?db2 = "?db\<lparr>db_versions := vs2\<rparr>"
      have "doFlush_round db s = Some (?db2, s2, False)" using Cons f(1) Inr lg Some by (simp add: doFlush_round_def)
      moreover have "db_rep T F (db\<lparr>db_versions := vs2\<rparr>) s2 HH" using r nums l Some by (intro db_rep_version [OF rep t2]) simp_all
      ultimately show ?thesis using l(5) Some
        by (intro exI [of _ ?db2] exI [of _ s2] exI [of _ False] exI [of _ T] exI [of _ F]) (simp add: keeps_def flush_moves_def)
    next
      case None
      have cur: "vs_current vs2 = v'" using l(6) None v'(1) by simp
      have "table_file_ok s2 ?n es" by (rule table_file_ok_other [OF fm(3) l(1)]) (simp add: sstablePath_manifest)
      then obtain x where t3: "tables_ok (T(?n \<mapsto> x)) (F(?n \<mapsto> HH ! i)) db s2" using tables_ok_new [OF t2 fresh _ f(2)] by blast
      let ?T = "T(?n \<mapsto> x)" and ?F = "F(?n \<mapsto> HH ! i)"
      have lt: "?n < ?n + 1" using nx le_plus_one [OF nx] by (metis add_cancel_left_right le_neq_trans zero_neq_one)
      have "live_files v' \<subseteq> live_files ?v \<union> {fm}"
        using live_files_apply [OF r(4) v'(1)] by (simp add: logged_edit_def)
      then have "\<forall>f\<in>live_files (vs_current vs2). fm_FileNum f \<in> dom ?F" using r(5) fm(1) cur by auto
      then have rep2: "db_rep ?T ?F (db\<lparr>db_versions := vs2\<rparr>) s2 HH"
        using v'(2) cur nums lt l(2,3) by (intro db_rep_version [OF rep t3]) (auto simp: level0_grows_def)
      let ?db2 = "signalCompaction (release_mems i [] (db\<lparr>db_versions := vs2, db_imm := rest\<rparr>))"
      have rep3: "db_rep ?T ?F ?db2 s2 HH" using db_rep_sealed [OF rep2, of i rest] Cons by simp
      have st: "doFlush_round db s = Some (?db2, s2, True)" using Cons f(1) Inr lg None by (simp add: doFlush_round_def)
      have "flush_moves F db HH ?F ?db2 True"
        unfolding flush_moves_def if_True
        by (intro exI [of _ i] exI [of _ rest] exI [of _ ?n] exI [of _ fm] exI [of _ es])
          (use Cons fresh(1) fm f(2) v'(2) cur l(3) in \<open>simp add: signalCompaction_def release_mems_def\<close>)
      moreover have "keeps db ?db2" by (simp add: keeps_def signalCompaction_def release_mems_def)
      moreover have "T \<subseteq>\<^sub>m ?T" "F \<subseteq>\<^sub>m ?F" using fresh by (auto simp: map_le_def dom_def)
      ultimately show ?thesis using st rep3
        by (intro exI [of _ ?db2] exI [of _ s2] exI [of _ True] exI [of _ ?T] exI [of _ ?F] conjI)
    qed
  qed
qed

section \<open>Without failing calls\<close>

text \<open>No call fails, no directory is in the way, and the manifest is open.\<close>

definition healthy :: "DB \<Rightarrow> os \<Rightarrow> bool" where
  "healthy db s \<longleftrightarrow> faults s = [] \<and> (\<forall>n. \<not> fisdir (file_of s n)) \<and> (\<exists>h. vs_manifestFile (db_versions db) = Some h \<and> fd_open h)"

lemma db_flush_dirs:
  assumes "db_flush db s m = Some (db', s', Inr fm)" and "mt_rep m H" and "history_ok H"
  shows "dirs_same s s'"
proof -
  obtain vs n where al: "allocFileNum (db_versions db) = (vs, n)" by fastforce
  obtain s1 r1 where op: "OpenTrunc s (sstablePath n) = (s1, r1)" by fastforce
  obtain h where h: "r1 = Inr h" using assms(1) al op by (cases r1) (auto simp: db_flush_def)
  obtain es it ok where it: "si_First (mt_NewIterator m) = Some (it, ok)" "\<And>w sh. flush_loop w sh it = table_adds file_Write w sh es"
    using flush_loop_memtable [OF assms(2,3)] by blast
  note st = assms(1) al op h it(1)
  obtain w s2 h2 err where fl: "flush_loop (NewWriter (o_TableOptions (db_opts db))) (s1, h) it = Some (w, (s2, h2), err)"
    using st by (auto simp: db_flush_def Let_def split: option.splits)
  have "file_frame (s1, h) (s2, h2)" using fl it(2) by (intro ff.adds_frame [of _ _ _ w _ err]) simp
  then have d2: "dirs_same s1 s2" by (auto simp: file_frame_def intro: dirs_same_dir)
  have e: "err = None" using st fl by (cases err) (auto simp: db_flush_def Let_def)
  then have fi: "flush_finish n w (s2, h2) = (s', Inr fm)" using st fl by (simp add: db_flush_def Let_def)
  obtain w3 s3 h3 res where cl: "Writer_Close file_Write w (s2, h2) = (w3, (s3, h3), res)" by (metis surj_pair)
  obtain s4 e4 where sy: "file_Sync s3 h3 = (s4, e4)" by fastforce
  obtain s5 e5 where c5: "os_call s4 = (s5, e5)" by fastforce
  have s5: "s' = s5" using fi cl sy c5 by (auto simp: flush_finish_def close_file_def split: sum.splits option.splits)
  have "file_frame (s2, h2) (s3, h3)" by (rule ff.Close_frame [OF cl])
  then have "same_dir (fd_name h2) s2 s3" by (simp add: file_frame_def)
  note d3 = dirs_same_dir [OF this] and d5 = dirs_same_trans [OF dirs_same_dir [OF file_Sync_frame(1) [OF sy]] dirs_same_call [OF c5]]
  show ?thesis unfolding s5 by (rule dirs_same_trans [OF dirs_same_trans [OF dirs_same_Open [OF op] d2] dirs_same_trans [OF d3 d5]])
qed

lemma logAndApply_dirs:
  assumes "logAndApply vs s e = Some (vs', s', err)"
  shows "dirs_same s s'"
proof (cases "vs_manifestFile vs")
  case None
  then show ?thesis using assms by (auto simp: logAndApply_def Let_def dirs_same_def)
next
  case (Some h)
  obtain s1 h1 k e1 where w: "append_Write (s, h) (manifest_record (logged_edit vs e)) = ((s1, h1), k, e1)" by (metis prod_cases3 surj_pair)
  have d1: "dirs_same s s1" using file_Write_frame [of s "h\<lparr>fd_pos := length (fdata (file_of s (fd_name h)))\<rparr>" _ s1 h1 k e1] w
    by (auto simp: append_Write_def file_frame_def intro: dirs_same_dir)
  obtain s2 e2 where sy: "file_Sync s1 h1 = (s2, e2)" by fastforce
  have "dirs_same s1 s2" by (rule dirs_same_dir [OF file_Sync_frame(1) [OF sy]])
  then show ?thesis using assms Some w sy d1 by (auto simp: logAndApply_def Let_def dirs_same_def split: option.splits)
qed

lemma healthy_round:
  assumes rep: "db_rep T F db s HH" and hl: "healthy db s" and rd: "doFlush_round db s = Some (db', s', ok)"
  shows "healthy db' s' \<and> ok = (db_imm db \<noteq> [])"
proof (cases "db_imm db")
  case Nil
  then show ?thesis using rd hl by (simp add: doFlush_round_def)
next
  case (Cons i rest)
  have r: "mems_ok db HH" "opts_ok (db_opts db)" using rep by (simp_all add: db_rep_def)
  note d = mems_okD [OF r(1)]
  have m: "mem_ok (mem_size db) (memtable db i) (HH ! i)" using d(1,2,4) Cons by (auto simp: list_all2_conv_all_nth memtable_def)
  obtain vs n where al: "allocFileNum (db_versions db) = (vs, n)" by fastforce
  obtain s1 fm where f: "db_flush db s (memtable db i) = Some (db\<lparr>db_versions := vs\<rparr>, s1, Inr fm)" "faults s1 = []"
    using db_flush_ok [OF m r(2) al] hl unfolding healthy_def by blast
  have d1: "dirs_same s s1" using db_flush_dirs [OF f(1)] m by (auto simp: mem_ok_def)
  obtain h where h: "vs_manifestFile vs = Some h" "fd_open h" using hl al by (auto simp: healthy_def allocFileNum_def Let_def)
  obtain vs2 s2 err where lg: "logAndApply vs s1 (emptyEdit\<lparr>NewFiles := [fm]\<rparr>) = Some (vs2, s2, err)"
    using rd Cons f(1) by (auto simp: doFlush_round_def split: option.splits)
  note l = logAndApply_live [OF f(2) h lg]
  have "dirs_same s1 s2" by (rule logAndApply_dirs [OF lg])
  then have "\<forall>n. \<not> fisdir (file_of s2 n)" using d1 hl by (simp add: healthy_def dirs_same_def)
  then show ?thesis using rd Cons f(1) lg l
    by (auto simp: doFlush_round_def healthy_def signalCompaction_def release_mems_def)
qed

section \<open>The whole loop\<close>

lemma doFlush_ok:
  "db_rep T F db s HH \<Longrightarrow> unat (vs_nextFileNum (db_versions db)) + length (db_imm db) < 2 ^ 64 \<Longrightarrow>
    \<exists>db' s' T' F'. doFlush db s = Some (db', s') \<and> db_rep T' F' db' s' HH \<and> T \<subseteq>\<^sub>m T' \<and> F \<subseteq>\<^sub>m F' \<and> keeps db db' \<and>
      (healthy db s \<longrightarrow> healthy db' s' \<and> db_imm db' = [])"
proof (induction "length (db_imm db)" arbitrary: T F db s)
  case 0
  then have "doFlush db s = Some (db, s)" by (subst doFlush.simps) (simp add: doFlush_round_def)
  then show ?case using "0.prems"(1) "0.hyps"
    by (intro exI [of _ db] exI [of _ s] exI [of _ T] exI [of _ F]) (simp add: keeps_def)
next
  case (Suc k)
  let ?n = "vs_nextFileNum (db_versions db)"
  have u: "unat ?n + 1 < 2 ^ 64" using Suc.hyps(2) Suc.prems(2) by linarith
  then have un: "unat (?n + 1) = unat ?n + 1" using unat_add_lem [of ?n 1, THEN iffD1] by simp
  then have nx: "?n + 1 \<noteq> 0" by (metis Suc_eq_plus1 nat.distinct(1) unat_0)
  obtain db1 s1 ok T1 F1 where r: "doFlush_round db s = Some (db1, s1, ok)" "db_rep T1 F1 db1 s1 HH" "T \<subseteq>\<^sub>m T1" "F \<subseteq>\<^sub>m F1" "keeps db db1"
      "flush_moves F db HH F1 db1 ok"
    using doFlush_round_ok [OF Suc.prems(1) nx] by (elim exE conjE) (rule that)
  have h: "healthy db1 s1 \<and> ok" if "healthy db s" using healthy_round [OF Suc.prems(1) that r(1)] Suc.hyps(2) by auto
  show ?case
  proof (cases ok)
    case False
    then have "doFlush db s = Some (db1, s1)" using r(1) by (subst doFlush.simps) simp
    then show ?thesis using r h False by (intro exI [of _ db1] exI [of _ s1] exI [of _ T1] exI [of _ F1]) auto
  next
    case True
    have m: "k = length (db_imm db1)" "vs_nextFileNum (db_versions db1) = ?n + 1" using r(6) True Suc.hyps(2) by (auto simp: flush_moves_def)
    have "unat (vs_nextFileNum (db_versions db1)) + length (db_imm db1) < 2 ^ 64" using m un Suc.hyps(2) Suc.prems(2) by simp
    from Suc.hyps(1) [OF m(1) r(2) this] obtain db' s' T' F' where i: "doFlush db1 s1 = Some (db', s')" "db_rep T' F' db' s' HH" "T1 \<subseteq>\<^sub>m T'"
        "F1 \<subseteq>\<^sub>m F'" "keeps db1 db'" "healthy db1 s1 \<longrightarrow> healthy db' s' \<and> db_imm db' = []" by (elim exE conjE) (rule that)
    have "doFlush db s = Some (db', s')" using r(1) True i(1) by (subst doFlush.simps) simp
    moreover have "keeps db db'" using r(5) i(5) by (simp add: keeps_def)
    ultimately show ?thesis using i(2,6) h map_le_trans [OF r(3) i(3)] map_le_trans [OF r(4) i(4)]
      by (intro exI [of _ db'] exI [of _ s'] exI [of _ T'] exI [of _ F']) blast
  qed
qed

end
