(* ===== verification/Compaction.thy ===== *)
theory Compaction
  imports Lsm_Flush
begin

text \<open>
  Compaction, from \<^verbatim>\<open>pkg/lsm/compaction.go\<close> and \<^verbatim>\<open>doCompaction\<close> of \<^verbatim>\<open>lsm.go\<close>: which files are picked, the
  merge of the picked tables into tables of the next level, the edit of the version, and the removal of
  the files. \<open>None\<close> is a panic or a loop that does not return. As in \<open>Lsm\<close>, each operation runs on its own.
\<close>

section \<open>Picking\<close>

record compactionPick =
  cp_level :: nat
  cp_outputLevel :: nat
  cp_inputs :: "FileMeta list"
  cp_overlaps :: "FileMeta list"

definition targetLevelSize :: "nat \<Rightarrow> u64" where
  "targetLevelSize level = fold (\<lambda>_ size. size * 10) [1..<level] (4 * 1024 * 1024)"

definition targetFileSize :: "nat \<Rightarrow> u64" where
  "targetFileSize level = fold (\<lambda>_ size. size * 2) [0..<level] (2 * 1024 * 1024)"

text \<open>A slice of no bytes may be \<^verbatim>\<open>nil\<close>: the keys of an empty table are, until they are read back from the
  manifest. \<open>nilk\<close> tells it for every file; \<open>None\<close> is \<^verbatim>\<open>nil\<close>.\<close>

definition key_slice :: "(FileMeta \<Rightarrow> bool) \<Rightarrow> FileMeta \<Rightarrow> bytes \<Rightarrow> bytes option" where
  "key_slice nilk f key = (if key = [] \<and> nilk f then None else Some key)"

definition slice_bytes :: "bytes option \<Rightarrow> bytes" where
  "slice_bytes k = (case k of None \<Rightarrow> [] | Some k \<Rightarrow> k)"

definition keyRange_step :: "(FileMeta \<Rightarrow> bool) \<Rightarrow> FileMeta \<Rightarrow> bytes option \<times> bytes option \<Rightarrow> bytes option \<times> bytes option" where
  "keyRange_step nilk f = (\<lambda>(smallest, largest).
     (if smallest = None \<or> compareKeys (fm_SmallestKey f) (slice_bytes smallest) < 0 then key_slice nilk f (fm_SmallestKey f) else smallest,
      if largest = None \<or> 0 < compareKeys (fm_LargestKey f) (slice_bytes largest) then key_slice nilk f (fm_LargestKey f) else largest))"

definition keyRange :: "(FileMeta \<Rightarrow> bool) \<Rightarrow> FileMeta list \<Rightarrow> bytes option \<times> bytes option" where
  "keyRange nilk fs = fold (keyRange_step nilk) fs (None, None)"

definition pickL0Compaction :: "(FileMeta \<Rightarrow> bool) \<Rightarrow> Version \<Rightarrow> compactionPick" where
  "pickL0Compaction nilk v =
     (let inputs = v_Levels v ! 0; (smallest, largest) = keyRange nilk inputs;
          overlaps = version_overlapping v 1 (slice_bytes smallest) (slice_bytes largest)
      in \<lparr>cp_level = 0, cp_outputLevel = 1, cp_inputs = inputs, cp_overlaps = overlaps\<rparr>)"

definition largest_file :: "FileMeta list \<Rightarrow> FileMeta option" where
  "largest_file fs = fold (\<lambda>f pick. case pick of None \<Rightarrow> Some f | Some p \<Rightarrow> if fm_Size p < fm_Size f then Some f else Some p) fs None"

definition pickLevelCompaction :: "Version \<Rightarrow> nat \<Rightarrow> compactionPick option" where
  "pickLevelCompaction v level =
     map_option (\<lambda>f. \<lparr>cp_level = level, cp_outputLevel = level + 1, cp_inputs = [f],
                      cp_overlaps = version_overlapping v (level + 1) (fm_SmallestKey f) (fm_LargestKey f)\<rparr>)
       (largest_file (v_Levels v ! level))"

text \<open>The first level above its target size.\<close>

definition pickCompaction :: "(FileMeta \<Rightarrow> bool) \<Rightarrow> Version \<Rightarrow> compactionPick option" where
  "pickCompaction nilk v =
     (if 4 \<le> length (v_Levels v ! 0) then Some (pickL0Compaction nilk v)
      else case find (\<lambda>level. targetLevelSize level < version_levelSize v level) [1..<NumLevels - 1] of
             None \<Rightarrow> None
           | Some level \<Rightarrow> pickLevelCompaction v level)"

section \<open>Output\<close>

datatype finish_error = FinishWriter sst_error | FinishSync io_error | FinishClose io_error

datatype compaction_error =
  ErrOpenInput u64 lsm_error | ErrOpenOverlap u64 lsm_error | ErrFinishOutput finish_error | ErrCreateOutput io_error |
  ErrAddOutput sst_error | ErrFinishLast finish_error | ErrLogAndApply manifest_error

text \<open>The variables of \<^verbatim>\<open>runCompaction\<close>: the writer with its file and its number, the finished files, and the
  size of the current output.\<close>

record outputs =
  out_current :: "(table_writer \<times> fd \<times> u64) option"
  out_files :: "FileMeta list"
  out_size :: u64

definition finishOutput :: "nat \<Rightarrow> os \<Rightarrow> outputs \<Rightarrow> os \<times> outputs \<times> finish_error option" where
  "finishOutput level s out =
     (case out_current out of
        None \<Rightarrow> (s, out, None)
      | Some (w, h, fileNum) \<Rightarrow>
          (case Writer_Close file_Write w (s, h) of
             (w, (s, h), Inl e) \<Rightarrow> (s, out, Some (FinishWriter e))
           | (w, (s, h), Inr meta) \<Rightarrow>
               (case file_Sync s h of
                  (s, Some e) \<Rightarrow> (s, out, Some (FinishSync e))
                | (s, None) \<Rightarrow>
                    (case close_file s of
                       (s, Some e) \<Rightarrow> (s, out, Some (FinishClose e))
                     | (s, None) \<Rightarrow>
                         (s, \<lparr>out_current = None,
                              out_files = out_files out @
                                (if 0 < tm_KeyCount meta
                                 then [\<lparr>fm_FileNum = fileNum, fm_Level = int level, fm_Size = tm_Size meta,
                                        fm_SmallestKey = tm_SmallestKey meta, fm_LargestKey = tm_LargestKey meta\<rparr>]
                                 else []),
                              out_size = 0\<rparr>, None)))))"

text \<open>Finish the current output and start the next.\<close>

definition nextOutput :: "nat \<Rightarrow> DB \<Rightarrow> os \<Rightarrow> outputs \<Rightarrow> DB \<times> os \<times> outputs \<times> compaction_error option" where
  "nextOutput level db s out =
     (case finishOutput level s out of
        (s, out, Some e) \<Rightarrow> (db, s, out, Some (ErrFinishOutput e))
      | (s, out, None) \<Rightarrow>
          let (vs, fileNum) = allocFileNum (db_versions db); db = db\<lparr>db_versions := vs\<rparr> in
          (case OpenTrunc s (sstablePath fileNum) of
             (s, Inl e) \<Rightarrow> (db, s, out, Some (ErrCreateOutput e))
           | (s, Inr h) \<Rightarrow>
               (db, s, out\<lparr>out_current := Some (NewWriter (o_TableOptions (db_opts db)), h, fileNum), out_size := 0\<rparr>, None)))"

text \<open>\<^verbatim>\<open>for merge.First(); merge.Valid(); merge.Next()\<close>\<close>

partial_function (option) compact_loop ::
  "nat \<Rightarrow> u64 \<Rightarrow> DB \<Rightarrow> os \<Rightarrow> outputs \<Rightarrow> lsm_iter MergeIterator \<Rightarrow> (DB \<times> os \<times> outputs \<times> compaction_error option) option" where
  "compact_loop level targetSize db s out merge =
     (if \<not> mi_Valid merge then Some (db, s, out, None)
      else case (if out_current out = None \<or> targetSize \<le> out_size out then nextOutput level db s out else (db, s, out, None)) of
             (db, s, out, Some e) \<Rightarrow> Some (db, s, out, Some e)
           | (db, s, out, None) \<Rightarrow>
               (case (mi_Key li_Key merge, mi_Value li_Value merge, out_current out) of
                  (Some key, Some val, Some (w, h, fileNum)) \<Rightarrow>
                    (case Writer_Add file_Write w (s, h) key val of
                       None \<Rightarrow> None
                     | Some (w, (s, h), Some e) \<Rightarrow> Some (db, s, out\<lparr>out_current := Some (w, h, fileNum)\<rparr>, Some (ErrAddOutput e))
                     | Some (w, (s, h), None) \<Rightarrow>
                         let out = out\<lparr>out_current := Some (w, h, fileNum), out_size := out_size out + of_nat (length key + length val)\<rparr> in
                         (case mi_Next li_Next li_Key merge (db_cache db) of
                            None \<Rightarrow> None
                          | Some (merge, cache, _) \<Rightarrow> compact_loop level targetSize (db\<lparr>db_cache := cache\<rparr>) s out merge))
                | _ \<Rightarrow> None))"

section \<open>Running\<close>

definition openTableIterator :: "DB \<Rightarrow> os \<Rightarrow> FileMeta \<Rightarrow> (DB \<times> os \<times> (lsm_error + lsm_iter)) option" where
  "openTableIterator db s f =
     map_option (\<lambda>(db, s, r). (db, s, case r of Inl e \<Rightarrow> Inl e | Inr tr \<Rightarrow> Inr (TableIter (new_table_iter tr)))) (getTableReader db s f)"

fun open_iters ::
  "(u64 \<Rightarrow> lsm_error \<Rightarrow> compaction_error) \<Rightarrow> DB \<Rightarrow> os \<Rightarrow> FileMeta list \<Rightarrow> (DB \<times> os \<times> (compaction_error + lsm_iter list)) option" where
  "open_iters wrap db s [] = Some (db, s, Inr [])"
| "open_iters wrap db s (f # fs) =
     (case openTableIterator db s f of
        None \<Rightarrow> None
      | Some (db, s, Inl e) \<Rightarrow> Some (db, s, Inl (wrap (fm_FileNum f) e))
      | Some (db, s, Inr it) \<Rightarrow>
          map_option (\<lambda>(db, s, r). (db, s, case r of Inl e \<Rightarrow> Inl e | Inr its \<Rightarrow> Inr (it # its))) (open_iters wrap db s fs))"

text \<open>The merge into output tables; the result are the files written.\<close>

definition write_outputs :: "nat \<Rightarrow> DB \<Rightarrow> os \<Rightarrow> lsm_iter list \<Rightarrow> (DB \<times> os \<times> (compaction_error + FileMeta list)) option" where
  "write_outputs level db s iters =
     (case mi_First li_First li_Key (NewMergeIterator iters) (db_cache db) of
        None \<Rightarrow> None
      | Some (merge, cache, _) \<Rightarrow>
          (case compact_loop level (targetFileSize level) (db\<lparr>db_cache := cache\<rparr>) s \<lparr>out_current = None, out_files = [], out_size = 0\<rparr> merge of
             None \<Rightarrow> None
           | Some (db, s, out, Some e) \<Rightarrow> Some (db, s, Inl e)
           | Some (db, s, out, None) \<Rightarrow>
               (case finishOutput level s out of
                  (s, out, Some e) \<Rightarrow> Some (db, s, Inl (ErrFinishLast e))
                | (s, out, None) \<Rightarrow> Some (db, s, Inr (out_files out)))))"

definition compaction_edit :: "compactionPick \<Rightarrow> FileMeta list \<Rightarrow> VersionEdit" where
  "compaction_edit pick outputFiles =
     emptyEdit\<lparr>DeletedFiles := map (\<lambda>f. (int (cp_level pick), fm_FileNum f)) (cp_inputs pick) @
                               map (\<lambda>f. (int (cp_outputLevel pick), fm_FileNum f)) (cp_overlaps pick),
               NewFiles := outputFiles\<rparr>"

definition remove_files :: "FileMeta list \<Rightarrow> os \<Rightarrow> os" where
  "remove_files fs s = fold (\<lambda>f s. os_Remove s (sstablePath (fm_FileNum f))) fs s"

definition runCompaction :: "compactionPick \<Rightarrow> DB \<Rightarrow> os \<Rightarrow> (DB \<times> os \<times> compaction_error option) option" where
  "runCompaction pick db s =
     (case open_iters ErrOpenInput db s (cp_inputs pick) of
        None \<Rightarrow> None
      | Some (db, s, Inl e) \<Rightarrow> Some (db, s, Some e)
      | Some (db, s, Inr its1) \<Rightarrow>
        (case open_iters ErrOpenOverlap db s (cp_overlaps pick) of
           None \<Rightarrow> None
         | Some (db, s, Inl e) \<Rightarrow> Some (db, s, Some e)
         | Some (db, s, Inr its2) \<Rightarrow>
           (case write_outputs (cp_outputLevel pick) db s (its1 @ its2) of
              None \<Rightarrow> None
            | Some (db, s, Inl e) \<Rightarrow> Some (db, s, Some e)
            | Some (db, s, Inr outputFiles) \<Rightarrow>
              (case logAndApply (db_versions db) s (compaction_edit pick outputFiles) of
                 None \<Rightarrow> None
               | Some (vs, s, Some e) \<Rightarrow> Some (db\<lparr>db_versions := vs\<rparr>, s, Some (ErrLogAndApply e))
               | Some (vs, s, None) \<Rightarrow>
                   Some (db\<lparr>db_versions := vs\<rparr>, remove_files (cp_overlaps pick) (remove_files (cp_inputs pick) s), None)))))"

definition evict_files :: "FileMeta list \<Rightarrow> DB \<Rightarrow> DB" where
  "evict_files fs db = fold (\<lambda>f db. db\<lparr>db_cache := map_option (\<lambda>c. cache_Evict c (fm_FileNum f)) (db_cache db)\<rparr>) fs db"

text \<open>One round of the loop of \<^verbatim>\<open>doCompaction\<close>; the flag tells whether it goes round again.\<close>

definition doCompaction_round :: "(FileMeta \<Rightarrow> bool) \<Rightarrow> DB \<Rightarrow> os \<Rightarrow> (DB \<times> os \<times> bool) option" where
  "doCompaction_round nilk db s =
     (case pickCompaction nilk (vs_current (db_versions db)) of
        None \<Rightarrow> Some (db, s, False)
      | Some pick \<Rightarrow>
          (case runCompaction pick db s of
             None \<Rightarrow> None
           | Some (db, s, Some _) \<Rightarrow> Some (db, s, False)
           | Some (db, s, None) \<Rightarrow> Some (evict_files (cp_overlaps pick) (evict_files (cp_inputs pick) db), s, True)))"

partial_function (option) doCompaction :: "(FileMeta \<Rightarrow> bool) \<Rightarrow> DB \<Rightarrow> os \<Rightarrow> (DB \<times> os) option" where
  "doCompaction nilk db s =
     (case doCompaction_round nilk db s of
        None \<Rightarrow> None
      | Some (db, s, again) \<Rightarrow> if again then doCompaction nilk db s else Some (db, s))"

end
