(* ===== verification/Compaction_Correct.thy ===== *)
theory Compaction_Correct
  imports Compaction
begin

text \<open>
  The merge of tables into output tables: whatever calls fail, no file but the outputs changes, and when
  all is written the outputs hold the merge of the inputs, cut into tables of bounded size.
\<close>

section \<open>Sizes\<close>

definition entry_size :: "kv \<Rightarrow> nat" where
  "entry_size e = length (fst e) + length (snd e)"

definition out_bytes :: "kv list \<Rightarrow> nat" where
  "out_bytes es = sum_list (map entry_size es)"

lemma out_bytes_simps [simp]: "out_bytes [] = 0" "out_bytes (e # es) = entry_size e + out_bytes es" "out_bytes (xs @ ys) = out_bytes xs + out_bytes ys"
  by (simp_all add: out_bytes_def)

text \<open>Entries of internal keys, none larger than 256 MB.\<close>

definition small_entries :: "kv list \<Rightarrow> bool" where
  "small_entries es \<longleftrightarrow> (\<forall>e\<in>set es. 8 \<le> length (fst e) \<and> entry_size e \<le> 2 ^ 28)"

lemma small_entries_append [simp]: "small_entries (xs @ ys) \<longleftrightarrow> small_entries xs \<and> small_entries ys"
  by (auto simp: small_entries_def)

text \<open>The contents of an output: without the last entry it is below the target size.\<close>

definition output_size_ok :: "kv list \<Rightarrow> bool" where
  "output_size_ok es \<longleftrightarrow> small_entries es \<and> out_bytes (butlast es) < 2 ^ 27"

lemma targetFileSize_bounds:
  assumes "level < NumLevels"
  shows "unat (targetFileSize level) \<le> 2 ^ 27" and "0 < targetFileSize level"
proof -
  have "fold (\<lambda>_ size. size * 2) [0..<k] a = a * 2 ^ k" for k and a :: u64 by (induction k) simp_all
  then have e: "targetFileSize level = 2097152 * 2 ^ level" by (simp add: targetFileSize_def)
  have "level = 0 \<or> level = 1 \<or> level = 2 \<or> level = 3 \<or> level = 4 \<or> level = 5 \<or> level = 6" using assms by (simp add: NumLevels_def) presburger
  then have "unat (targetFileSize level) \<le> 2 ^ 27 \<and> 0 < targetFileSize level" unfolding e by (elim disjE) simp_all
  then show "unat (targetFileSize level) \<le> 2 ^ 27" "0 < targetFileSize level" by simp_all
qed

lemma length_out_bytes: "small_entries es \<Longrightarrow> 8 * length es \<le> out_bytes es"
  by (induction es) (auto simp: small_entries_def entry_size_def)

lemma output_bound:
  assumes "output_size_ok es" and "wo_BloomBitsPerKey opts \<le> 64"
  shows "table_bound opts es < 2 ^ 32" and "length es < 2 ^ 64" and "out_bytes es < 2 ^ 32"
proof -
  let ?f = "\<lambda>e. 120 + 2 * length (fst e) + length (snd e)" and ?b = "nat (wo_BloomBitsPerKey (writer_options opts))"
  have small: "small_entries es" and ob: "out_bytes (butlast es) < 2 ^ 27" using assms(1) by (simp_all add: output_size_ok_def)
  have sb: "small_entries (butlast es)" using small by (auto simp: small_entries_def dest: in_set_butlastD)
  have "sum_list (map ?f xs) \<le> 17 * out_bytes xs" if "small_entries xs" for xs
    using that by (induction xs) (auto simp: small_entries_def entry_size_def)
  note s1 = this [OF sb]
  have s2: "sum_list (map ?f es) \<le> sum_list (map ?f (butlast es)) + 120 + 2 * 2 ^ 28"
  proof (cases es rule: rev_cases)
    case (snoc xs e)
    then have "entry_size e \<le> 2 ^ 28" using small by (simp add: small_entries_def)
    then show ?thesis using snoc by (simp add: entry_size_def)
  qed simp
  have l: "length es \<le> 2 ^ 24" using length_out_bytes [OF sb] ob by simp
  have b: "?b \<le> 64" using assms(2) by (auto simp: writer_options_def DefaultWriterOptions_def Let_def)
  have "calcNLines (length es) ?b \<le> (length es * ?b + 511) div 512 + 2" by (simp add: calcNLines_def Let_def cacheLineBits_def add.commute)
  also have "\<dots> \<le> (length es * 64 + 511) div 512 + 2" using b by (intro add_right_mono div_le_mono mult_le_mono2)
  also have "\<dots> \<le> length es div 8 + 3" by linarith
  finally have "64 * calcNLines (length es) ?b \<le> 8 * length es + 192" by linarith
  then show "table_bound opts es < 2 ^ 32" unfolding table_bound_def using s1 s2 ob l by simp
  show "length es < 2 ^ 64" using l by simp
  have "out_bytes es \<le> out_bytes (butlast es) + 2 ^ 28" using small by (cases es rule: rev_cases) (simp_all add: small_entries_def)
  then show "out_bytes es < 2 ^ 32" using ob by simp
qed

section \<open>A table being written\<close>

lemma table_adds_append:
  "table_adds wr w s (xs @ ys) =
     (case table_adds wr w s xs of None \<Rightarrow> None | Some (w, s, Some e) \<Rightarrow> Some (w, s, Some e) | Some (w, s, None) \<Rightarrow> table_adds wr w s ys)"
  by (induction xs arbitrary: w s) (auto split: option.splits)

definition calm :: "os \<Rightarrow> bool" where
  "calm s \<longleftrightarrow> faults s = [] \<and> (\<forall>n. \<not> fisdir (file_of s n))"

text \<open>The writer has taken \<open>cur\<close> into a file that was empty. The flag \<open>lv\<close> says that no call fails.\<close>

definition open_output :: "bool \<Rightarrow> WriterOptions \<Rightarrow> os \<Rightarrow> u64 \<Rightarrow> table_writer \<Rightarrow> fd \<Rightarrow> kv list \<Rightarrow> bool" where
  "open_output lv opts s n w h cur \<longleftrightarrow> (\<exists>s0 h0. fresh_file (s0, h0) \<and> has_file s0 (sstablePath n) \<and> fd_name h0 = sstablePath n \<and>
     (lv \<longrightarrow> calm s0) \<and> table_adds file_Write (NewWriter opts) (s0, h0) cur = Some (w, (s, h), None))"

lemma adds_total:
  assumes "fresh_file sh" and "sorted_keys es"
  shows "\<exists>w sh' err. table_adds file_Write (NewWriter opts) sh es = Some (w, sh', err)"
proof -
  obtain s h where sh: "sh = (s, h)" by fastforce
  have o: "file_out sh = []" using assms(1) by (simp add: sh fresh_file_def file_out_def)
  obtain sh' res where "write_table file_Write opts sh es = Some (sh', res)"
    using fw.write_table_layout [OF o assms(2), of opts] by (elim exE conjE) (rule that)
  then show ?thesis by (auto simp: write_table_def split: option.splits)
qed

lemma other_path: "other_files P s s' \<Longrightarrow> has_file s p \<Longrightarrow> p \<notin> P \<Longrightarrow> has_file s' p"
  by (simp add: other_files_def)

lemma open_output_add:
  assumes "open_output lv opts s n w h cur" and "sorted_keys (cur @ [e])"
  shows "\<exists>w' s' h' err. Writer_Add file_Write w (s, h) (fst e) (snd e) = Some (w', (s', h'), err) \<and> other_files {sstablePath n} s s' \<and>
    (err = None \<longrightarrow> open_output lv opts s' n w' h' (cur @ [e])) \<and> (lv \<longrightarrow> err = None \<and> calm s')"
proof -
  obtain s0 h0 where o: "fresh_file (s0, h0)" "has_file s0 (sstablePath n)" "fd_name h0 = sstablePath n" "lv \<longrightarrow> calm s0"
      "table_adds file_Write (NewWriter opts) (s0, h0) cur = Some (w, (s, h), None)" using assms(1) by (auto simp: open_output_def)
  obtain k v where e: "e = (k, v)" by fastforce
  obtain w' s' h' err where a: "table_adds file_Write (NewWriter opts) (s0, h0) (cur @ [e]) = Some (w', (s', h'), err)"
    using adds_total [OF o(1) assms(2), of opts] by (metis surj_pair)
  then have wa: "Writer_Add file_Write w (s, h) k v = Some (w', (s', h'), err)"
    using o(5) e by (auto simp: table_adds_append split: option.splits)
  have f0: "file_frame (s0, h0) (s, h)" and f1: "file_frame (s0, h0) (s', h')" and f2: "file_frame (s, h) (s', h')"
    using ff.adds_frame [OF o(5)] ff.adds_frame [OF a] ff.Add_frame [OF wa] by simp_all
  have hn: "fd_name h = sstablePath n" using f0 o(3) by (simp add: file_frame_def)
  have "has_file s (sstablePath n)" using f0 o(2,3) by (simp add: file_frame_def same_dir_def has_file_def)
  then have of: "other_files {sstablePath n} s s'" using other_files_frame [OF f2] hn by simp
  have "err = None \<and> calm s'" if lv
  proof -
    have c: "faults s0 = []" "\<forall>n. \<not> fisdir (file_of s0 n)" using o(4) that by (simp_all add: calm_def)
    have "case (s0, h0) of (s, h) \<Rightarrow> faults s = [] \<and> fd_open h" using o(1) c by (simp add: fresh_file_def)
    note fl.adds_live [OF this a]
    moreover have "dirs_same s0 s'" using f1 by (auto simp: file_frame_def intro: dirs_same_dir)
    ultimately show ?thesis using adds_no_error [OF o(1) assms(2) c(1) a] c(2) by (simp add: calm_def dirs_same_def)
  qed
  moreover have "open_output lv opts s' n w' h' (cur @ [e])" if "err = None"
    unfolding open_output_def using o a that by blast
  ultimately show ?thesis using wa of e by (intro exI [of _ w'] exI [of _ s'] exI [of _ h'] exI [of _ err]) simp
qed

section \<open>The outputs\<close>

definition output_file :: "nat \<Rightarrow> os \<Rightarrow> FileMeta \<Rightarrow> kv list \<Rightarrow> bool" where
  "output_file level s f es \<longleftrightarrow> fm_Level f = int level \<and> es \<noteq> [] \<and> table_file_ok s (fm_FileNum f) es \<and>
     fm_SmallestKey f = fst (hd es) \<and> fm_LargestKey f = fst (last es)"

definition new_paths :: "u64 \<Rightarrow> u64 \<Rightarrow> string set" where
  "new_paths n0 n = sstablePath ` {m. n0 \<le> m \<and> m < n}"

text \<open>The finished files hold \<open>ess\<close>, the current one \<open>cur\<close>; their numbers are new and ascending.\<close>

definition out_ok :: "bool \<Rightarrow> WriterOptions \<Rightarrow> nat \<Rightarrow> u64 \<Rightarrow> u64 \<Rightarrow> os \<Rightarrow> outputs \<Rightarrow> kv list list \<Rightarrow> kv list \<Rightarrow> bool" where
  "out_ok lv opts level n0 n s out ess cur \<longleftrightarrow> (lv \<longrightarrow> calm s) \<and> list_all2 (output_file level s) (out_files out) ess \<and>
     sorted_wrt (<) (map fm_FileNum (out_files out)) \<and> (\<forall>f\<in>set (out_files out). n0 \<le> fm_FileNum f \<and> fm_FileNum f < n) \<and>
     out_size out = of_nat (out_bytes cur) \<and>
     (case out_current out of
        None \<Rightarrow> cur = []
      | Some (w, h, m) \<Rightarrow> n0 \<le> m \<and> m < n \<and> (\<forall>f\<in>set (out_files out). fm_FileNum f < m) \<and> open_output lv opts s m w h cur)"

lemma outputs_other:
  assumes "list_all2 (output_file level s) fs ess" and "other_files P s s'" and "\<forall>f\<in>set fs. sstablePath (fm_FileNum f) \<notin> P"
  shows "list_all2 (output_file level s') fs ess"
proof (rule list.rel_mono_strong [OF assms(1)])
  fix f es assume "f \<in> set fs" and o: "output_file level s f es"
  then have "sstablePath (fm_FileNum f) \<notin> P" using assms(3) by blast
  then show "output_file level s' f es" using o table_file_ok_other [OF _ assms(2)] by (simp add: output_file_def)
qed

lemma new_paths_mono: "n \<le> n' \<Longrightarrow> new_paths n0 n \<subseteq> new_paths n0 n'"
  by (auto simp: new_paths_def)

lemma in_new_paths: "n0 \<le> m \<Longrightarrow> m < n \<Longrightarrow> {sstablePath m} \<subseteq> new_paths n0 n"
  by (auto simp: new_paths_def)

lemma calm_dirs: "calm s \<Longrightarrow> dirs_same s s' \<Longrightarrow> faults s' = [] \<Longrightarrow> calm s'"
  by (simp add: calm_def dirs_same_def)

lemma finishOutput_ok:
  assumes out: "out_ok lv opts level n0 n s out ess cur" and srt: "sorted_keys cur" and size: "output_size_ok cur"
    and bits: "wo_BloomBitsPerKey opts \<le> 64" and fin: "finishOutput level s out = (s', out', err)"
  shows "other_files (new_paths n0 n) s s'" and "lv \<Longrightarrow> err = None"
    and "err = None \<Longrightarrow> out_current out' = None \<and> out_ok lv opts level n0 n s' out' (ess @ (if cur = [] then [] else [cur])) []"
proof -
  have "other_files (new_paths n0 n) s s' \<and> (lv \<longrightarrow> err = None) \<and>
    (err = None \<longrightarrow> out_current out' = None \<and> out_ok lv opts level n0 n s' out' (ess @ (if cur = [] then [] else [cur])) [])"
  proof (cases "out_current out")
    case None
    then show ?thesis using fin out by (auto simp: finishOutput_def out_ok_def)
  next
    case (Some x)
    obtain w h m where x: "x = (w, h, m)" by (metis surj_pair)
    have m: "n0 \<le> m" "m < n" "\<forall>f\<in>set (out_files out). fm_FileNum f < m" "open_output lv opts s m w h cur"
      using out Some x by (simp_all add: out_ok_def)
    obtain s0 h0 where o: "fresh_file (s0, h0)" "has_file s0 (sstablePath m)" "fd_name h0 = sstablePath m" "lv \<longrightarrow> calm s0"
      "table_adds file_Write (NewWriter opts) (s0, h0) cur = Some (w, (s, h), None)" using m(4) by (auto simp: open_output_def)
    obtain w3 s3 h3 res where cl: "Writer_Close file_Write w (s, h) = (w3, (s3, h3), res)" by (metis surj_pair)
    obtain s4 e4 where sy: "file_Sync s3 h3 = (s4, e4)" by fastforce
    obtain s5 e5 where c5: "close_file s4 = (s5, e5)" by fastforce
    note ct = close_table [OF o(1-3) srt output_bound(1,2) [OF size bits] o(5) cl sy c5]
    have "other_files {sstablePath m} s s3" "other_files {sstablePath m} s s4" "other_files {sstablePath m} s s5"
    proof -
      have fr: "file_frame (s0, h0) (s, h)" "file_frame (s, h) (s3, h3)" using ff.adds_frame [OF o(5)] ff.Close_frame [OF cl] by simp_all
      have hn: "fd_name h = sstablePath m" "fd_name h3 = sstablePath m" using fr o(3) by (simp_all add: file_frame_def)
      have "has_file s (sstablePath m)" using fr(1) o(2,3) by (simp add: file_frame_def same_dir_def has_file_def)
      then show o3: "other_files {sstablePath m} s s3" using other_files_frame [OF fr(2)] hn by simp
      show o4: "other_files {sstablePath m} s s4" by (rule other_files_trans [OF o3 other_files_Sync [OF sy]]) (simp add: hn)
      show "other_files {sstablePath m} s s5" by (rule other_files_trans [OF o4]) (use c5 in \<open>auto simp: close_file_def intro: other_files_call\<close>)
    qed
    note of = this [THEN other_files_mono, OF in_new_paths [OF m(1,2)]] and o5 = this(3)
    have lv: "(\<exists>meta. res = Inr meta) \<and> e4 = None \<and> e5 = None \<and> calm s5" if lv
      using ct(4,6) o(4) that calm_dirs [of s0 s5] by (auto simp: calm_def)
    show ?thesis
    proof (cases "(\<exists>meta. res = Inr meta) \<and> e4 = None \<and> e5 = None")
      case False
      then show ?thesis using fin Some x cl sy c5 of lv by (cases res; cases e4; cases e5) (auto simp: finishOutput_def)
    next
      case True
      then obtain meta where r: "res = Inr meta" "e4 = None" "e5 = None" by blast
      note t = ct(5) [OF r(1)]
      let ?f = "\<lparr>fm_FileNum = m, fm_Level = int level, fm_Size = tm_Size meta, fm_SmallestKey = tm_SmallestKey meta, fm_LargestKey = tm_LargestKey meta\<rparr>"
      have "unat (tm_KeyCount meta) = length cur" using t output_bound(2) [OF size bits] by (simp add: unat_of_nat)
      then have kc: "(0 < tm_KeyCount meta) = (cur \<noteq> [])" by (auto simp: word_less_nat_alt)
      have e: "s' = s5" "err = None" "out' = \<lparr>out_current = None, out_files = out_files out @ (if cur \<noteq> [] then [?f] else []), out_size = 0\<rparr>"
        using fin Some x cl sy c5 r kc by (simp_all add: finishOutput_def)
      have l: "list_all2 (output_file level s5) (out_files out) ess"
        using out m(3) by (intro outputs_other [OF _ o5]) (auto simp: out_ok_def sstablePath_inj)
      have "output_file level s5 ?f cur" if "cur \<noteq> []" using t that by (simp add: output_file_def)
      then have "out_ok lv opts level n0 n s' out' (ess @ (if cur = [] then [] else [cur])) []"
        using out m l lv unfolding e by (auto simp: out_ok_def list_all2_appendI sorted_wrt_append)
      then show ?thesis using e of by simp
    qed
  qed
  then show "other_files (new_paths n0 n) s s'" "lv \<Longrightarrow> err = None"
    "err = None \<Longrightarrow> out_current out' = None \<and> out_ok lv opts level n0 n s' out' (ess @ (if cur = [] then [] else [cur])) []" by simp_all
qed

text \<open>The next output starts empty, in a file with the next number.\<close>

lemma nextOutput_ok:
  fixes db :: DB
  defines "n \<equiv> vs_nextFileNum (db_versions db)"
  assumes out: "out_ok lv opts level n0 n s out ess cur" and srt: "sorted_keys cur" and size: "output_size_ok cur"
    and opts: "opts = o_TableOptions (db_opts db)" "wo_BloomBitsPerKey opts \<le> 64" and n: "n0 \<le> n" "n + 1 \<noteq> 0"
    and nxt: "nextOutput level db s out = (db', s', out', err)"
  shows "\<exists>n'. db' = db\<lparr>db_versions := (db_versions db)\<lparr>vs_nextFileNum := n'\<rparr>\<rparr> \<and> n \<le> n' \<and> n' \<le> n + 1 \<and> other_files (new_paths n0 n') s s' \<and>
    (lv \<longrightarrow> err = None) \<and> (err = None \<longrightarrow> n' = n + 1 \<and> out_current out' \<noteq> None \<and>
      out_ok lv opts level n0 (n + 1) s' out' (ess @ (if cur = [] then [] else [cur])) [])"
proof -
  have nn: "n < n + 1" "n \<le> n + 1" using n(2) le_plus_one [OF n(2)] by (metis add_cancel_left_right le_neq_trans zero_neq_one, simp)
  obtain s1 out1 e1 where f: "finishOutput level s out = (s1, out1, e1)" by (metis surj_pair)
  note fo = finishOutput_ok [OF out srt size opts(2) f]
  have o1: "other_files (new_paths n0 (n + 1)) s s1" by (rule other_files_mono [OF fo(1) new_paths_mono [OF nn(2)]])
  show ?thesis
  proof (cases e1)
    case (Some e)
    then have "db' = db\<lparr>db_versions := (db_versions db)\<lparr>vs_nextFileNum := n\<rparr>\<rparr>" "s' = s1" "err \<noteq> None"
      using nxt f by (auto simp: nextOutput_def n_def)
    then show ?thesis using fo(1,2) Some nn(2) by (intro exI [of _ n]) auto
  next
    case None
    let ?db = "db\<lparr>db_versions := (db_versions db)\<lparr>vs_nextFileNum := n + 1\<rparr>\<rparr>"
    have out1: "out_current out1 = None" "out_ok lv opts level n0 n s1 out1 (ess @ (if cur = [] then [] else [cur])) []"
      using fo(3) None by simp_all
    have al: "allocFileNum (db_versions db) = ((db_versions db)\<lparr>vs_nextFileNum := n + 1\<rparr>, n)" by (simp add: allocFileNum_def Let_def n_def)
    obtain s2 r2 where op: "OpenTrunc s1 (sstablePath n) = (s2, r2)" by fastforce
    note ot = OpenTrunc_new [OF op]
    have in_p: "{sstablePath n} \<subseteq> new_paths n0 (n + 1)" by (rule in_new_paths [OF n(1) nn(1)])
    have o2: "other_files (new_paths n0 (n + 1)) s s2" by (rule other_files_trans [OF o1 other_files_mono [OF ot(1) in_p]])
    have lv: "\<exists>h. r2 = Inr h" "calm s2" if lv
    proof -
      have c: "calm s1" using out1(2) that by (simp add: out_ok_def)
      then show "\<exists>h. r2 = Inr h" using ot(4) by (simp add: calm_def)
      then show "calm s2" using ot(3) c calm_dirs [OF c dirs_same_Open [OF op]] by (auto simp: calm_def)
    qed
    show ?thesis
    proof (cases r2)
      case (Inl e)
      then have "db' = ?db" "s' = s2" "err \<noteq> None" using nxt f None al op by (auto simp: nextOutput_def)
      then show ?thesis using o2 lv(1) Inl nn(2) by (intro exI [of _ "n + 1"]) auto
    next
      case (Inr h)
      let ?out = "out1\<lparr>out_current := Some (NewWriter opts, h, n), out_size := 0\<rparr>"
      have e: "db' = ?db" "s' = s2" "err = None" "out' = ?out" using nxt f None al op Inr opts(1) by (auto simp: nextOutput_def)
      have h: "fd_name h = sstablePath n" "fresh_file (s2, h)" "has_file s2 (sstablePath n)" using ot(2) [OF Inr] by simp_all
      have "open_output lv opts s2 n (NewWriter opts) h []" unfolding open_output_def
        by (intro exI [of _ s2] exI [of _ h]) (use h lv(2) in simp)
      moreover have "list_all2 (output_file level s2) (out_files out1) (ess @ (if cur = [] then [] else [cur]))"
        using out1(2) by (intro outputs_other [OF _ ot(1)]) (auto simp: out_ok_def sstablePath_inj)
      ultimately have "out_ok lv opts level n0 (n + 1) s2 ?out (ess @ (if cur = [] then [] else [cur])) []"
        using out1(2) n(1) nn lv by (auto simp: out_ok_def intro: less_trans)
      then show ?thesis using e o2 nn by (intro exI [of _ "n + 1"]) simp
    qed
  qed
qed

section \<open>The loop\<close>

lemma mi_Next_flag: "mi_Next nx ky m g = Some (m', g', b) \<Longrightarrow> b = mi_Valid m'"
  by (auto simp: mi_Next_def mi_Valid_def split: list.splits option.splits)

lemma mi_First_flag: "mi_First fs ky m g = Some (m', g', b) \<Longrightarrow> b = mi_Valid m'"
  by (auto simp: mi_First_def mi_position_def mi_Valid_def)

definition merge_at :: "tables \<Rightarrow> lsm_iter MergeIterator \<Rightarrow> kv list \<Rightarrow> kv list \<Rightarrow> bool" where
  "merge_at T merge es rest \<longleftrightarrow> (if rest = [] then \<not> mi_Valid merge else li.mi_at_rest T merge es rest)"

lemma merge_at_Cons:
  assumes "merge_at T merge es (e # rest)" and "cache_fits T c"
  shows "mi_Valid merge" and "mi_Key li_Key merge = Some (fst e)" and "mi_Value li_Value merge = Some (snd e)"
    and "\<exists>m' c'. mi_Next li_Next li_Key merge c = Some (m', c', rest \<noteq> []) \<and> cache_fits T c' \<and> merge_at T m' es rest"
proof -
  have at: "li.mi_at_rest T merge es (e # rest)" using assms(1) by (simp add: merge_at_def)
  from lm.at_entry [OF at] show "mi_Valid merge" "mi_Key li_Key merge = Some (fst e)" "mi_Value li_Value merge = Some (snd e)" by simp_all
  obtain m' c' where n: "mi_Next li_Next li_Key merge c = Some (m', c', rest \<noteq> [])" "cache_fits T c'" "rest \<noteq> [] \<longrightarrow> li.mi_at_rest T m' es rest"
    using lm.next_at [OF at assms(2)] by (elim exE conjE) (rule that)
  have "merge_at T m' es rest" using n(3) mi_Next_flag [OF n(1)] by (auto simp: merge_at_def)
  then show "\<exists>m' c'. mi_Next li_Next li_Key merge c = Some (m', c', rest \<noteq> []) \<and> cache_fits T c' \<and> merge_at T m' es rest"
    using n(1,2) by blast
qed

text \<open>What the merge changes in the database: the block cache and the next file number.\<close>

definition compacting :: "DB \<Rightarrow> BlockCache option \<Rightarrow> u64 \<Rightarrow> DB" where
  "compacting db c n = db\<lparr>db_cache := c, db_versions := (db_versions db)\<lparr>vs_nextFileNum := n\<rparr>\<rparr>"

lemma compacting_simps [simp]:
  "db_cache (compacting db c n) = c" "(compacting db c n)\<lparr>db_cache := c'\<rparr> = compacting db c' n"
  "db_opts (compacting db c n) = db_opts db" "vs_nextFileNum (db_versions (compacting db c n)) = n"
  "(compacting db c n)\<lparr>db_versions := (db_versions (compacting db c n))\<lparr>vs_nextFileNum := n'\<rparr>\<rparr> = compacting db c n'"
  by (simp_all add: compacting_def)

lemma output_chosen:
  assumes out: "out_ok lv opts level n0 n s out ess cur" and srt: "sorted_keys cur" and size: "output_size_ok cur"
    and opts: "opts = o_TableOptions (db_opts db)" "wo_BloomBitsPerKey opts \<le> 64" and level: "level < NumLevels"
    and n: "n0 \<le> n" "unat n + 1 < 2 ^ 64"
    and ch: "(if out_current out = None \<or> targetFileSize level \<le> out_size out then nextOutput level (compacting db c n) s out
      else (compacting db c n, s, out, None)) = (db1, s1, out1, err1)"
  shows "\<exists>n1. db1 = compacting db c n1 \<and> n \<le> n1 \<and> unat n1 \<le> unat n + 1 \<and> other_files (new_paths n0 n1) s s1 \<and> (lv \<longrightarrow> err1 = None) \<and>
    (err1 = None \<longrightarrow> (\<exists>ess1 cur1. out_ok lv opts level n0 n1 s1 out1 ess1 cur1 \<and> out_current out1 \<noteq> None \<and>
      concat ess1 @ cur1 = concat ess @ cur \<and> (cur1 = [] \<or> cur1 = cur) \<and> out_bytes cur1 < 2 ^ 27))"
proof (cases "out_current out = None \<or> targetFileSize level \<le> out_size out")
  case True
  have un: "unat (n + 1) = unat n + 1" using n(2) unat_add_lem [of n 1, THEN iffD1] by simp
  then have nx: "n + 1 \<noteq> 0" by (metis Suc_eq_plus1 nat.distinct(1) unat_0)
  obtain n1 where "db1 = compacting db c n1" "n \<le> n1" "n1 \<le> n + 1" "other_files (new_paths n0 n1) s s1" "lv \<longrightarrow> err1 = None"
      "err1 = None \<longrightarrow> n1 = n + 1 \<and> out_current out1 \<noteq> None \<and> out_ok lv opts level n0 (n + 1) s1 out1 (ess @ (if cur = [] then [] else [cur])) []"
    using nextOutput_ok [of lv opts level n0 "compacting db c n" s out ess cur] True out srt size opts n(1) nx ch by auto
  moreover have "unat n1 \<le> unat n + 1" using \<open>n1 \<le> n + 1\<close> un by (simp add: word_le_nat_alt)
  moreover have "\<exists>ess1 cur1. out_ok lv opts level n0 n1 s1 out1 ess1 cur1 \<and> out_current out1 \<noteq> None \<and>
      concat ess1 @ cur1 = concat ess @ cur \<and> (cur1 = [] \<or> cur1 = cur) \<and> out_bytes cur1 < 2 ^ 27" if "err1 = None"
    by (intro exI [of _ "ess @ (if cur = [] then [] else [cur])"] exI [of _ "[]"]) (use calculation that in auto)
  ultimately show ?thesis by (intro exI [of _ n1]) simp
next
  case False
  then have e: "db1 = compacting db c n" "s1 = s" "out1 = out" "err1 = None" and cur: "out_current out \<noteq> None" using ch by (auto split: if_splits)
  have ob: "out_bytes cur < 2 ^ 32" by (rule output_bound(3) [OF size opts(2)])
  have "unat (out_size out) = out_bytes cur" using out ob by (simp add: out_ok_def unat_of_nat)
  moreover have "unat (out_size out) < unat (targetFileSize level)" using False by (simp add: word_le_nat_alt not_le)
  ultimately have "out_bytes cur < 2 ^ 27" using targetFileSize_bounds(1) [OF level] by simp
  then show ?thesis using e out cur by (intro exI [of _ n]) auto
qed

lemma out_ok_added:
  assumes out: "out_ok lv opts level n0 n s out ess cur" and "out_current out = Some (w, h, m)"
    and "open_output lv opts s' m w' h' (cur @ [e])" and "other_files {sstablePath m} s s'" and "lv \<longrightarrow> calm s'"
  shows "out_ok lv opts level n0 n s' (out\<lparr>out_current := Some (w', h', m), out_size := out_size out + of_nat (length (fst e) + length (snd e))\<rparr>) ess (cur @ [e])"
proof -
  have "list_all2 (output_file level s') (out_files out) ess"
    using assms(1,2) by (intro outputs_other [OF _ assms(4)]) (auto simp: out_ok_def sstablePath_inj)
  then show ?thesis using assms by (simp add: out_ok_def entry_size_def)
qed

lemma compact_loop_ok:
  assumes opts: "opts = o_TableOptions (db_opts db)" "wo_BloomBitsPerKey opts \<le> 64" and level: "level < NumLevels"
  shows "merge_at T merge es rest \<Longrightarrow> cache_fits T c \<Longrightarrow> out_ok lv opts level n0 n s out ess cur \<Longrightarrow> sorted_keys (cur @ rest) \<Longrightarrow>
    output_size_ok cur \<Longrightarrow> small_entries rest \<Longrightarrow> n0 \<le> n \<Longrightarrow> unat n + length rest < 2 ^ 64 \<Longrightarrow>
    \<exists>c' n' s' out' err. compact_loop level (targetFileSize level) (compacting db c n) s out merge = Some (compacting db c' n', s', out', err) \<and>
      cache_fits T c' \<and> n \<le> n' \<and> unat n' \<le> unat n + length rest \<and> other_files (new_paths n0 n') s s' \<and> (lv \<longrightarrow> err = None) \<and>
      (err = None \<longrightarrow> (\<exists>ess' cur'. out_ok lv opts level n0 n' s' out' ess' cur' \<and> concat ess' @ cur' = concat ess @ cur @ rest \<and>
        sorted_keys cur' \<and> output_size_ok cur'))"
proof (induction rest arbitrary: merge c n s out ess cur)
  case Nil
  then have "compact_loop level (targetFileSize level) (compacting db c n) s out merge = Some (compacting db c n, s, out, None)"
    by (subst compact_loop.simps) (simp add: merge_at_def)
  then show ?case using Nil.prems by (intro exI [of _ c] exI [of _ n] exI [of _ s] exI [of _ out] exI [of _ None]) auto
next
  case (Cons e rest)
  note m = merge_at_Cons [OF Cons.prems(1,2)]
  have srt: "sorted_keys cur" using Cons.prems(4) by (simp add: sorted_wrt_append)
  have u: "unat n + 1 < 2 ^ 64" using Cons.prems(8) by simp
  obtain db1 s1 out1 err1 where ch: "(if out_current out = None \<or> targetFileSize level \<le> out_size out then nextOutput level (compacting db c n) s out
      else (compacting db c n, s, out, None)) = (db1, s1, out1, err1)" by (metis surj_pair)
  obtain n1 where n1: "db1 = compacting db c n1" "n \<le> n1" "unat n1 \<le> unat n + 1" "other_files (new_paths n0 n1) s s1" "lv \<longrightarrow> err1 = None"
    and ok1: "err1 = None \<longrightarrow> (\<exists>ess1 cur1. out_ok lv opts level n0 n1 s1 out1 ess1 cur1 \<and> out_current out1 \<noteq> None \<and>
      concat ess1 @ cur1 = concat ess @ cur \<and> (cur1 = [] \<or> cur1 = cur) \<and> out_bytes cur1 < 2 ^ 27)"
    using output_chosen [OF Cons.prems(3) srt Cons.prems(5) opts level Cons.prems(7) u ch] by (elim exE conjE) (rule that)
  show ?case
  proof (cases err1)
    case (Some x)
    then have "compact_loop level (targetFileSize level) (compacting db c n) s out merge = Some (compacting db c n1, s1, out1, err1)"
      using m(1) ch n1(1) by (subst compact_loop.simps) simp
    then show ?thesis using n1 Cons.prems(2) Some by (intro exI [of _ c] exI [of _ n1] exI [of _ s1] exI [of _ out1] exI [of _ err1]) auto
  next
    case None
    obtain ess1 cur1 w h k where o1: "out_ok lv opts level n0 n1 s1 out1 ess1 cur1" "out_current out1 = Some (w, h, k)"
        "concat ess1 @ cur1 = concat ess @ cur" "cur1 = [] \<or> cur1 = cur" "out_bytes cur1 < 2 ^ 27"
      using ok1 None by fastforce
    have k: "n0 \<le> k" "k < n1" "open_output lv opts s1 k w h cur1" using o1(1,2) by (simp_all add: out_ok_def)
    have srt1: "sorted_keys ((cur1 @ [e]) @ rest)" using Cons.prems(4) o1(4) by (auto simp: sorted_wrt_append)
    then have srt2: "sorted_keys (cur1 @ [e])" by (simp add: sorted_wrt_append)
    have sz: "output_size_ok (cur1 @ [e])" using Cons.prems(5,6) o1(4,5) by (auto simp: output_size_ok_def small_entries_def)
    obtain w2 s2 h2 err2 where a: "Writer_Add file_Write w (s1, h) (fst e) (snd e) = Some (w2, (s2, h2), err2)" "other_files {sstablePath k} s1 s2"
        "err2 = None \<longrightarrow> open_output lv opts s2 k w2 h2 (cur1 @ [e])" "lv \<longrightarrow> err2 = None \<and> calm s2"
      using open_output_add [OF k(3) srt2] by (elim exE conjE) (rule that)
    have o2: "other_files (new_paths n0 n1) s s2"
      by (rule other_files_trans [OF n1(4) other_files_mono [OF a(2) in_new_paths [OF k(1,2)]]])
    obtain m' c' where nx: "mi_Next li_Next li_Key merge c = Some (m', c', rest \<noteq> [])" "cache_fits T c'" "merge_at T m' es rest"
      using m(4) by (elim exE conjE) (rule that)
    show ?thesis
    proof (cases err2)
      case (Some x)
      let ?out = "out1\<lparr>out_current := Some (w2, h2, k)\<rparr>"
      have "compact_loop level (targetFileSize level) (compacting db c n) s out merge = Some (compacting db c n1, s2, ?out, Some (ErrAddOutput x))"
        using m(1-3) ch n1(1) None o1(2) a(1) Some by (subst compact_loop.simps) simp
      then show ?thesis using n1 Cons.prems(2) o2 a(4) Some
        by (intro exI [of _ c] exI [of _ n1] exI [of _ s2] exI [of _ ?out] exI [of _ "Some (ErrAddOutput x)"]) auto
    next
      case None2: None
      let ?out = "out1\<lparr>out_current := Some (w2, h2, k), out_size := out_size out1 + of_nat (length (fst e) + length (snd e))\<rparr>"
      have lp: "compact_loop level (targetFileSize level) (compacting db c n) s out merge =
          compact_loop level (targetFileSize level) (compacting db c' n1) s2 ?out m'"
        using m(1-3) ch n1(1) None o1(2) a(1) None2 nx(1) by (subst compact_loop.simps) (simp add: Let_def)
      have ok2: "out_ok lv opts level n0 n1 s2 ?out ess1 (cur1 @ [e])"
        by (rule out_ok_added [OF o1(1,2) _ a(2)]) (use a(3,4) None2 in simp_all)
      have b: "small_entries rest" "n0 \<le> n1" "unat n1 + length rest < 2 ^ 64"
        using Cons.prems(6-8) n1(2,3) by (auto simp: small_entries_def intro: order_trans)
      obtain c3 n3 s3 out3 err3 where i: "compact_loop level (targetFileSize level) (compacting db c' n1) s2 ?out m' = Some (compacting db c3 n3, s3, out3, err3)"
          "cache_fits T c3" "n1 \<le> n3" "unat n3 \<le> unat n1 + length rest" "other_files (new_paths n0 n3) s2 s3" "lv \<longrightarrow> err3 = None"
          "err3 = None \<longrightarrow> (\<exists>ess' cur'. out_ok lv opts level n0 n3 s3 out3 ess' cur' \<and> concat ess' @ cur' = concat ess1 @ (cur1 @ [e]) @ rest \<and>
            sorted_keys cur' \<and> output_size_ok cur')"
        using Cons.IH [OF nx(3,2) ok2 srt1 sz b] by (elim exE conjE) (rule that)
      have "other_files (new_paths n0 n3) s s3" by (rule other_files_trans [OF other_files_mono [OF o2 new_paths_mono [OF i(3)]] i(5)])
      moreover have "concat ess1 @ (cur1 @ [e]) @ rest = concat ess @ cur @ e # rest" using o1(3) by (metis append.assoc append_Cons append_Nil)
      ultimately show ?thesis unfolding lp using i n1(2,3)
        by (intro exI [of _ c3] exI [of _ n3] exI [of _ s3] exI [of _ out3] exI [of _ err3] conjI) (simp_all, force?)
    qed
  qed
qed

end
