(* ===== verification/Compaction_State.thy ===== *)
theory Compaction_State
  imports Compaction_Correct
begin

text \<open>
  A compaction in the state of the database: the picked tables are opened, their merge is written to new
  tables, the version moves on to these, and the picked files are removed. The histories of the memtables
  and of all tables stay readable, those of the removed files through their open descriptors.
\<close>

section \<open>Writing the outputs\<close>

lemma out_ok_start: "(lv \<longrightarrow> calm s) \<Longrightarrow> out_ok lv opts level n n s \<lparr>out_current = None, out_files = [], out_size = 0\<rparr> [] []"
  by (simp add: out_ok_def)

lemma output_size_Nil: "output_size_ok []"
  by (simp add: output_size_ok_def small_entries_def)

lemma compacting_id: "db\<lparr>db_cache := c\<rparr> = compacting db c (vs_nextFileNum (db_versions db))"
  by (simp add: compacting_def)

lemma write_outputs_ok:
  assumes its: "list_all2 (lsm_src T) its ess" and c: "cache_fits T (db_cache db)" and small: "small_entries (merged ess)"
    and bits: "wo_BloomBitsPerKey (o_TableOptions (db_opts db)) \<le> 64" and level: "level < NumLevels"
    and n: "n = vs_nextFileNum (db_versions db)" "unat n + length (merged ess) < 2 ^ 64" and lv: "lv \<longrightarrow> calm s"
  shows "\<exists>c' n' s' r. write_outputs level db s its = Some (compacting db c' n', s', r) \<and> cache_fits T c' \<and> n \<le> n' \<and>
    unat n' \<le> unat n + length (merged ess) \<and> other_files (new_paths n n') s s' \<and> (lv \<longrightarrow> (\<exists>fs. r = Inr fs) \<and> calm s') \<and>
    (\<forall>fs. r = Inr fs \<longrightarrow> (\<exists>outs. list_all2 (output_file level s') fs outs \<and> concat outs = merged ess \<and>
       sorted_wrt (<) (map fm_FileNum fs) \<and> (\<forall>f\<in>set fs. n \<le> fm_FileNum f \<and> fm_FileNum f < n')))"
proof -
  let ?opts = "o_TableOptions (db_opts db)" and ?es = "merged ess" and ?out = "\<lparr>out_current = None, out_files = [], out_size = 0\<rparr>"
  have "li.mi_src T (NewMergeIterator its) ess" using its by (simp add: li.mi_src_def NewMergeIterator_def list_all2_conv_all_nth)
  then have src: "li.mi_source T (NewMergeIterator its) ?es" by (auto simp: li.mi_source_def)
  obtain m c1 where m: "mi_First li_First li_Key (NewMergeIterator its) (db_cache db) = Some (m, c1, ?es \<noteq> [])" "cache_fits T c1"
      "?es \<noteq> [] \<longrightarrow> li.mi_at_rest T m ?es ?es"
    using lm.first_src [OF src c] by (elim exE conjE) (rule that)
  have at: "merge_at T m ?es ?es" using m(3) mi_First_flag [OF m(1)] by (auto simp: merge_at_def)
  have srt: "sorted_keys ([] @ ?es)" using sorted_merged by simp
  obtain c2 n2 s2 out2 e2 where l: "compact_loop level (targetFileSize level) (compacting db c1 n) s ?out m = Some (compacting db c2 n2, s2, out2, e2)"
      "cache_fits T c2" "n \<le> n2" "unat n2 \<le> unat n + length ?es" "other_files (new_paths n n2) s s2" "lv \<longrightarrow> e2 = None"
      "e2 = None \<longrightarrow> (\<exists>ess' cur'. out_ok lv ?opts level n n2 s2 out2 ess' cur' \<and> concat ess' @ cur' = concat [] @ [] @ ?es \<and>
        sorted_keys cur' \<and> output_size_ok cur')"
    using compact_loop_ok [OF refl bits level at m(2) out_ok_start [OF lv] srt output_size_Nil small order_refl n(2)] by (elim exE conjE) (rule that)
  have w: "write_outputs level db s its =
      (case e2 of Some e \<Rightarrow> Some (compacting db c2 n2, s2, Inl e)
       | None \<Rightarrow> (case finishOutput level s2 out2 of
           (s, out, Some e) \<Rightarrow> Some (compacting db c2 n2, s, Inl (ErrFinishLast e))
         | (s, out, None) \<Rightarrow> Some (compacting db c2 n2, s, Inr (out_files out))))"
    using m(1) l(1) by (simp add: write_outputs_def compacting_id n(1) split: option.split)
  show ?thesis
  proof (cases e2)
    case (Some e)
    then show ?thesis using w l by (intro exI [of _ c2] exI [of _ n2] exI [of _ s2] exI [of _ "Inl e"]) simp
  next
    case None
    obtain ess' cur' where o: "out_ok lv ?opts level n n2 s2 out2 ess' cur'" "concat ess' @ cur' = ?es" "sorted_keys cur'" "output_size_ok cur'"
      using l(7) None by auto
    obtain s3 out3 e3 where f: "finishOutput level s2 out2 = (s3, out3, e3)" by (metis surj_pair)
    note fo = finishOutput_ok [OF o(1,3,4) bits f]
    have of: "other_files (new_paths n n2) s s3" by (rule other_files_trans [OF l(5) fo(1)])
    show ?thesis
    proof (cases e3)
      case (Some e)
      then show ?thesis using w None f l fo(2) of
        by (intro exI [of _ c2] exI [of _ n2] exI [of _ s3] exI [of _ "Inl (ErrFinishLast e)"]) auto
    next
      case None3: None
      let ?outs = "ess' @ (if cur' = [] then [] else [cur'])"
      have ok: "out_ok lv ?opts level n n2 s3 out3 ?outs []" using fo(3) None3 by simp
      have "list_all2 (output_file level s3) (out_files out3) ?outs \<and> concat ?outs = ?es \<and>
          sorted_wrt (<) (map fm_FileNum (out_files out3)) \<and> (\<forall>f\<in>set (out_files out3). n \<le> fm_FileNum f \<and> fm_FileNum f < n2)"
        using ok o(2) unfolding out_ok_def by auto
      moreover have "lv \<longrightarrow> calm s3" using ok by (simp add: out_ok_def)
      moreover have "write_outputs level db s its = Some (compacting db c2 n2, s3, Inr (out_files out3))" using w None f None3 by simp
      ultimately show ?thesis using l(2-4) of
        by (intro exI [of _ c2] exI [of _ n2] exI [of _ s3] exI [of _ "Inr (out_files out3)"]) blast
    qed
  qed
qed

section \<open>Opening the inputs\<close>

definition cached :: "DB \<Rightarrow> u64 \<Rightarrow> bool" where
  "cached db n \<longleftrightarrow> (\<exists>c. db_tableCache db = Some c \<and> n \<in> dom c)"

lemma getTableReader_cached:
  assumes "getTableReader db s f = Some (db', s', r)"
  shows "cached db n \<Longrightarrow> cached db' n" and "r = Inr te \<Longrightarrow> cached db' (fm_FileNum f)"
  using assms by (auto simp: getTableReader_def cached_def bind_eq_Some_conv dom_def split: option.splits sum.splits prod.splits)

lemma open_iters_ok:
  "tables_ok T F db s \<Longrightarrow> \<forall>f\<in>set fs. fm_FileNum f \<in> dom F \<Longrightarrow>
    \<exists>db' s' r. open_iters wrap db s fs = Some (db', s', r) \<and> tables_ok T F db' s' \<and> lookup_frame (db, s) (db', s') \<and>
      (\<forall>n. cached db n \<longrightarrow> cached db' n) \<and>
      (case r of Inl e \<Rightarrow> faults s \<noteq> []
       | Inr its \<Rightarrow> (\<forall>f\<in>set fs. cached db' (fm_FileNum f)) \<and>
           (\<exists>ess. list_all2 (lsm_src T) its ess \<and> list_all2 (\<lambda>f es. holds es (the (F (fm_FileNum f)))) fs ess))"
proof (induction fs arbitrary: db s)
  case Nil
  then show ?case by (intro exI [of _ db] exI [of _ s] exI [of _ "Inr []"]) simp
next
  case (Cons f fs)
  obtain H where H: "F (fm_FileNum f) = Some H" using Cons.prems(2) by auto
  obtain db1 s1 r1 where g: "getTableReader db s f = Some (db1, s1, r1)" "tables_ok T F db1 s1" "lookup_frame (db, s) (db1, s1)"
      "case r1 of Inl e \<Rightarrow> faults s \<noteq> [] \<and> (\<exists>x. e = ErrOpenTable (fm_FileNum f) (ErrTableIO x))
       | Inr te \<Rightarrow> \<exists>es. holds es H \<and> table_src T (new_table_iter te) es"
    using getTableReader_ok [OF Cons.prems(1) H] by (elim exE conjE) (rule that)
  note gc = getTableReader_cached [OF g(1)]
  show ?case
  proof (cases r1)
    case (Inl e)
    then show ?thesis using g gc
      by (intro exI [of _ db1] exI [of _ s1] exI [of _ "Inl (wrap (fm_FileNum f) e)"]) (auto simp: openTableIterator_def)
  next
    case (Inr te)
    obtain es where es: "holds es H" "table_src T (new_table_iter te) es" using g(4) Inr by auto
    have fs: "\<forall>f\<in>set fs. fm_FileNum f \<in> dom F" using Cons.prems(2) by simp
    obtain db2 s2 r2 where i: "open_iters wrap db1 s1 fs = Some (db2, s2, r2)" "tables_ok T F db2 s2" "lookup_frame (db1, s1) (db2, s2)"
        "\<forall>n. cached db1 n \<longrightarrow> cached db2 n"
        "case r2 of Inl e \<Rightarrow> faults s1 \<noteq> []
         | Inr its \<Rightarrow> (\<forall>f\<in>set fs. cached db2 (fm_FileNum f)) \<and>
             (\<exists>ess. list_all2 (lsm_src T) its ess \<and> list_all2 (\<lambda>f es. holds es (the (F (fm_FileNum f)))) fs ess)"
      using Cons.IH [OF g(2) fs] by (elim exE conjE) (rule that)
    have fr: "lookup_frame (db, s) (db2, s2)" by (rule lookup_frame_trans [OF g(3) i(3)])
    have ca: "\<forall>n. cached db n \<longrightarrow> cached db2 n" "cached db2 (fm_FileNum f)" using i(4) gc Inr by auto
    let ?it = "TableIter (new_table_iter te)"
    show ?thesis
    proof (cases r2)
      case (Inl e)
      then have "faults s \<noteq> []" using i(5) lookup_frameD(10) [OF g(3)] by auto
      then show ?thesis using g(1) Inr i(1,2) fr ca Inl
        by (intro exI [of _ db2] exI [of _ s2] exI [of _ "Inl e"]) (simp add: openTableIterator_def)
    next
      case Inr2: (Inr its)
      then obtain ess where "list_all2 (lsm_src T) its ess" "list_all2 (\<lambda>f es. holds es (the (F (fm_FileNum f)))) fs ess"
          "\<forall>f\<in>set fs. cached db2 (fm_FileNum f)" using i(5) by auto
      then have "list_all2 (lsm_src T) (?it # its) (es # ess) \<and> list_all2 (\<lambda>f es. holds es (the (F (fm_FileNum f)))) (f # fs) (es # ess)"
        using es H by simp
      then have "\<exists>ess. list_all2 (lsm_src T) (?it # its) ess \<and> list_all2 (\<lambda>f es. holds es (the (F (fm_FileNum f)))) (f # fs) ess" by blast
      then show ?thesis using g(1) Inr i(1,2) fr ca Inr2 \<open>\<forall>f\<in>set fs. cached db2 (fm_FileNum f)\<close>
        by (intro exI [of _ db2] exI [of _ s2] exI [of _ "Inr (?it # its)"]) (auto simp: openTableIterator_def)
    qed
  qed
qed

section \<open>Histories of the outputs\<close>

definition all_ops :: "op list list \<Rightarrow> op set" where
  "all_ops HH = (\<Union>H\<in>set HH. set H)"

text \<open>A sorted list of entries of operations with distinct sequence numbers is the contents of a table.\<close>

lemma holds_subset:
  assumes srt: "sorted_keys es" and es: "set es \<subseteq> op_entry ` U" and inj: "inj_on op_seq U"
    and U: "\<forall>x\<in>U. op_seq x \<noteq> 0 \<and> unat (op_seq x) < 2 ^ 48 \<and> plain_key (fst x)"
  shows "\<exists>H. holds es H \<and> set H \<subseteq> U"
proof -
  have "\<forall>e\<in>set es. \<exists>x\<in>U. e = op_entry x" using es by blast
  then obtain g where g: "\<forall>e\<in>set es. g e \<in> U \<and> e = op_entry (g e)" by metis
  let ?xs = "map g es"
  have sub: "set ?xs \<subseteq> U" using g by auto
  have "distinct es" using srt strict_sorted_iff distinct_map by blast
  moreover have "inj_on g (set es)" using g by (metis inj_onI)
  ultimately have d: "distinct ?xs" by (simp add: distinct_map)
  then have "distinct (map op_seq ?xs)" using inj_on_subset [OF inj sub] by (simp only: distinct_map)
  moreover have "mset (map op_seq (sort_key op_seq ?xs)) = mset (map op_seq ?xs)" by (simp only: mset_map mset_sort)
  ultimately have "distinct (map op_seq (sort_key op_seq ?xs))" by (metis mset_eq_imp_distinct_iff)
  then have "sorted_wrt (<) (map op_seq (sort_key op_seq ?xs))" by (simp add: strict_sorted_iff)
  then have "history_ok (sort_key op_seq ?xs)" using sub U by (auto simp: history_defs sorted_wrt_map)
  moreover have "set es = op_entry ` set ?xs"
  proof
    show "set es \<subseteq> op_entry ` set ?xs" using g by auto
    show "op_entry ` set ?xs \<subseteq> set es" using g by auto
  qed
  ultimately have "holds es (sort_key op_seq ?xs)" using srt by (simp add: holds_def)
  then show ?thesis using sub by (intro exI [of _ "sort_key op_seq ?xs"]) simp
qed

lemma tables_ok_outputs:
  assumes "list_all2 (output_file level s) fs outs"
  shows "tables_ok T F db s \<Longrightarrow> distinct (map fm_FileNum fs) \<Longrightarrow> \<forall>f\<in>set fs. fm_FileNum f \<notin> dom F \<union> dom T \<Longrightarrow>
    \<forall>es\<in>set outs. \<exists>H. holds es H \<and> set H \<subseteq> U \<Longrightarrow>
    \<exists>T' F'. tables_ok T' F' db s \<and> T \<subseteq>\<^sub>m T' \<and> F \<subseteq>\<^sub>m F' \<and> dom T' = dom T \<union> fm_FileNum ` set fs \<and> dom F' = dom F \<union> fm_FileNum ` set fs \<and>
      list_all2 (\<lambda>f es. \<exists>H. F' (fm_FileNum f) = Some H \<and> holds es H \<and> set H \<subseteq> U) fs outs"
  using assms
proof (induction fs outs arbitrary: T F rule: list_all2_induct)
  case Nil
  then show ?case by (intro exI [of _ T] exI [of _ F]) simp
next
  case (Cons f fs es outs)
  let ?n = "fm_FileNum f"
  obtain H where H: "holds es H" "set H \<subseteq> U" using Cons.prems(4) by auto
  have fr: "?n \<notin> dom F" "?n \<notin> dom T" using Cons.prems(3) by simp_all
  have "table_file_ok s ?n es" using Cons.hyps(1) by (simp add: output_file_def)
  then obtain x where t: "tables_ok (T(?n \<mapsto> x)) (F(?n \<mapsto> H)) db s" using tables_ok_new [OF Cons.prems(1) fr _ H(1)] by blast
  have p: "distinct (map fm_FileNum fs)" "\<forall>f'\<in>set fs. fm_FileNum f' \<notin> dom (F(?n \<mapsto> H)) \<union> dom (T(?n \<mapsto> x))"
      "\<forall>es\<in>set outs. \<exists>H. holds es H \<and> set H \<subseteq> U"
    using Cons.prems(2-4) by (auto simp: rev_image_eqI)
  obtain T' F' where i: "tables_ok T' F' db s" "T(?n \<mapsto> x) \<subseteq>\<^sub>m T'" "F(?n \<mapsto> H) \<subseteq>\<^sub>m F'" "dom T' = dom (T(?n \<mapsto> x)) \<union> fm_FileNum ` set fs"
      "dom F' = dom (F(?n \<mapsto> H)) \<union> fm_FileNum ` set fs"
      "list_all2 (\<lambda>f es. \<exists>H. F' (fm_FileNum f) = Some H \<and> holds es H \<and> set H \<subseteq> U) fs outs"
    using Cons.IH [OF t p] by (elim exE conjE) (rule that)
  have "F' ?n = Some H" using i(3) by (auto simp: map_le_def)
  moreover have "T \<subseteq>\<^sub>m T(?n \<mapsto> x)" "F \<subseteq>\<^sub>m F(?n \<mapsto> H)" using fr by (auto simp: map_le_def dom_def)
  ultimately show ?case using i H map_le_trans [OF _ i(2)] map_le_trans [OF _ i(3)]
    by (intro exI [of _ T'] exI [of _ F']) auto
qed

text \<open>Files that are open may be removed.\<close>

lemma tables_ok_removed:
  assumes "tables_ok T F db s" and "other_files P s s'" and "\<forall>n. sstablePath n \<in> P \<longrightarrow> cached db n"
  shows "tables_ok T F db s'"
proof -
  obtain c where c: "db_tableCache db = Some c" "dom c \<subseteq> dom F" "\<forall>n H. F n = Some H \<longrightarrow> table_ok T c s n H" and cf: "cache_fits T (db_cache db)"
    using assms(1) by (auto simp: tables_ok_def)
  have "table_ok T c s' n H" if n: "F n = Some H" for n H
  proof (cases "c n")
    case None
    then have "sstablePath n \<notin> P" using assms(3) c(1) by (auto simp: cached_def)
    then show ?thesis using table_ok_other [OF _ assms(2) _ map_le_refl] c(3) n by blast
  next
    case (Some te)
    moreover have "table_ok T c s n H" using c(3) n by blast
    ultimately show ?thesis by (simp add: table_ok_def)
  qed
  then show ?thesis using c cf by (auto simp: tables_ok_def)
qed

lemma remove_files_other: "other_files ((\<lambda>f. sstablePath (fm_FileNum f)) ` set fs) s (remove_files fs s)"
proof (induction fs arbitrary: s)
  case Nil
  then show ?case by (simp add: remove_files_def)
next
  case (Cons f fs)
  let ?P = "(\<lambda>f. sstablePath (fm_FileNum f)) ` set (f # fs)" and ?s = "os_Remove s (sstablePath (fm_FileNum f))"
  have "other_files ?P s ?s" by (rule other_files_Remove) simp
  moreover have "other_files ?P ?s (remove_files fs ?s)" by (rule other_files_mono [OF Cons.IH]) auto
  ultimately show ?case by (auto simp: remove_files_def intro: other_files_trans)
qed

lemma remove_files_calm: "calm s \<Longrightarrow> calm (remove_files fs s)"
proof (induction fs arbitrary: s)
  case Nil
  then show ?case by (simp add: remove_files_def)
next
  case (Cons f fs)
  let ?p = "sstablePath (fm_FileNum f)"
  have s: "os_Remove s ?p = s\<lparr>files := filter (\<lambda>(n, _). n \<noteq> ?p) (files s)\<rparr>"
    using Cons.prems os_call_faultless [of s] by (simp add: os_Remove_def calm_def)
  have "map_of (filter (\<lambda>(n, _). n \<noteq> ?p) xs) n = (if n = ?p then None else map_of xs n)" for n and xs :: "(string \<times> osfile) list"
    by (induction xs) auto
  then have "calm (os_Remove s ?p)" using Cons.prems unfolding s calm_def file_of_def by simp
  from Cons.IH [OF this] show ?case by (simp add: remove_files_def)
qed

section \<open>The merge of the inputs\<close>

definition picked_ops :: "(u64 \<rightharpoonup> op list) \<Rightarrow> FileMeta list \<Rightarrow> op set" where
  "picked_ops F fs = (\<Union>f\<in>set fs. set (the (F (fm_FileNum f))))"

lemma newest_Some: "newest ess k = Some v \<Longrightarrow> \<exists>es\<in>set ess. (k, v) \<in> set es"
  by (induction ess) (auto split: option.splits dest: map_of_SomeD)

text \<open>Entries that a key determines are merged like sets.\<close>

lemma set_merged:
  assumes "\<And>e e'. e \<in> (\<Union>es\<in>set ess. set es) \<Longrightarrow> e' \<in> (\<Union>es\<in>set ess. set es) \<Longrightarrow> fst e = fst e' \<Longrightarrow> e = e'"
  shows "set (merged ess) = (\<Union>es\<in>set ess. set es)"
proof -
  have d: "distinct (map fst (merged ess))" using sorted_merged strict_sorted_iff by blast
  have s: "(k, v) \<in> set (merged ess) \<longleftrightarrow> newest ess k = Some v" for k v
    using map_of_eq_Some_iff [OF d] by (simp add: map_of_merged)
  have "newest ess k = Some v" if "es \<in> set ess" "(k, v) \<in> set es" for es k v
  proof -
    have "k \<in> (\<Union>es\<in>set ess. fst ` set es)" using that by force
    then obtain v' where v': "newest ess k = Some v'" using newest_None [of ess k] by auto
    then obtain es' where "es' \<in> set ess" "(k, v') \<in> set es'" using newest_Some by blast
    then have "(k, v) = (k, v')" using that assms [of "(k, v)" "(k, v')"] by auto
    then show ?thesis using v' by simp
  qed
  then have "(k, v) \<in> set (merged ess) \<longleftrightarrow> (k, v) \<in> (\<Union>es\<in>set ess. set es)" for k v using s newest_Some by fast
  then show ?thesis by (intro set_eqI) (simp only: split_paired_all)
qed

definition ops_fine :: "DB \<Rightarrow> op list list \<Rightarrow> bool" where
  "ops_fine db HH \<longleftrightarrow> inj_on op_seq (all_ops HH) \<and> (\<forall>x\<in>all_ops HH. op_seq x \<noteq> 0 \<and> unat (op_seq x) < 2 ^ 48 \<and> plain_key (fst x) \<and>
     op_seq x \<le> db_seqNum db \<and> op_size x \<le> mem_size db)"

lemma ops_fine_rep:
  assumes "db_rep T F db s HH" and "inj_on op_seq (all_ops HH)"
  shows "ops_fine db HH"
proof -
  have r: "list_all2 (mem_ok (mem_size db)) (db_heap db) HH" "\<forall>H\<in>set HH. \<forall>x\<in>set H. op_seq x \<le> db_seqNum db"
    using assms(1) mems_okD(1) by (auto simp: db_rep_def)
  have "history_ok H \<and> room H \<le> mem_size db" if "H \<in> set HH" for H
    using r(1) that by (auto simp: list_all2_conv_all_nth in_set_conv_nth mem_ok_def)
  moreover have "op_size x \<le> room H" if "x \<in> set H" for x and H :: "op list"
  proof -
    have "op_size x + 3 \<le> sum_list (map (\<lambda>x. op_size x + 3) H)" using that by (intro member_le_sum_list) auto
    then show ?thesis by (simp add: room_def)
  qed
  ultimately show ?thesis using r(2) assms(2) unfolding ops_fine_def all_ops_def history_defs
    by (fastforce intro: le_trans)
qed

lemma op_key_inj:
  assumes "ops_fine db HH" and "x \<in> all_ops HH" "y \<in> all_ops HH" and "fst (op_entry x) = fst (op_entry y)"
  shows "x = y"
proof -
  have b: "unat (op_seq x) < 2 ^ 48" "unat (op_seq y) < 2 ^ 48" using assms(1-3) by (auto simp: ops_fine_def)
  have "op_seq x = op_seq y"
    using assms(4) op_entry_parse(1) [OF b(1), of "fst x" "snd (snd x)"] op_entry_parse(1) [OF b(2), of "fst y" "snd (snd y)"] by simp
  then show ?thesis using assms(1-3) by (auto simp: ops_fine_def inj_on_def)
qed

lemma merged_inputs:
  assumes fine: "ops_fine db HH" and sub: "\<forall>n H. F n = Some H \<longrightarrow> set H \<subseteq> all_ops HH" and mem: "mem_size db \<le> 2 ^ 28"
    and ess: "list_all2 (\<lambda>f es. holds es (the (F (fm_FileNum f)))) fs ess" and fs: "\<forall>f\<in>set fs. fm_FileNum f \<in> dom F"
  shows "set (merged ess) = op_entry ` picked_ops F fs" and "picked_ops F fs \<subseteq> all_ops HH" and "small_entries (merged ess)"
    and "length (merged ess) \<le> unat (db_seqNum db)"
proof -
  have sets: "(\<Union>es\<in>set ess. set es) = op_entry ` picked_ops F fs"
    using ess by (induction rule: list_all2_induct) (auto simp: picked_ops_def holds_def image_Un)
  show po: "picked_ops F fs \<subseteq> all_ops HH" using sub fs by (fastforce simp: picked_ops_def)
  show sm: "set (merged ess) = op_entry ` picked_ops F fs" unfolding sets [symmetric]
  proof (rule set_merged)
    fix e e' assume "e \<in> (\<Union>es\<in>set ess. set es)" "e' \<in> (\<Union>es\<in>set ess. set es)" "fst e = fst e'"
    then show "e = e'" unfolding sets using po op_key_inj [OF fine] by blast
  qed
  show "small_entries (merged ess)" unfolding small_entries_def sm
  proof (intro ballI)
    fix e assume "e \<in> op_entry ` picked_ops F fs"
    then obtain x where x: "e = op_entry x" "x \<in> all_ops HH" using po by blast
    then have "op_size x \<le> 2 ^ 28" using fine mem by (fastforce simp: ops_fine_def)
    then show "8 \<le> length (fst e) \<and> entry_size e \<le> 2 ^ 28" by (simp add: x(1) entry_size_def op_size_def fst_op_entry)
  qed
  have fin: "finite (all_ops HH)" by (simp add: all_ops_def)
  have "distinct (merged ess)" using sorted_merged [of ess] strict_sorted_iff distinct_map by blast
  then have "length (merged ess) = card (op_entry ` picked_ops F fs)" using sm distinct_card by metis
  also have "\<dots> \<le> card (picked_ops F fs)" using fin po card_image_le finite_subset by blast
  also have "\<dots> \<le> card (all_ops HH)" by (rule card_mono [OF fin po])
  also have "\<dots> = card ((\<lambda>x. unat (op_seq x)) ` all_ops HH)"
    using fine by (intro card_image [symmetric]) (simp add: ops_fine_def inj_on_def word_unat_eq_iff)
  also have "\<dots> \<le> card {1..unat (db_seqNum db)}"
    using fine by (intro card_mono) (auto simp: ops_fine_def word_le_nat_alt Suc_le_eq unat_gt_0)
  finally show "length (merged ess) \<le> unat (db_seqNum db)" by simp
qed

section \<open>The new version\<close>

abbreviation picked :: "compactionPick \<Rightarrow> FileMeta list" where
  "picked pick \<equiv> cp_inputs pick @ cp_overlaps pick"

text \<open>The levels after a compaction, and what the new files hold.\<close>

definition levels_after :: "Version \<Rightarrow> compactionPick \<Rightarrow> FileMeta list \<Rightarrow> Version \<Rightarrow> bool" where
  "levels_after v pick fs v' \<longleftrightarrow> length (v_Levels v') = NumLevels \<and>
     (\<forall>l<NumLevels. v_Levels v' ! l = (if l = 0 then id else sort_key fm_SmallestKey)
        (filter (\<lambda>f. fm_FileNum f \<notin> fm_FileNum ` set (picked pick)) (v_Levels v ! l) @ (if l = cp_outputLevel pick then fs else [])))"

definition compacted :: "(u64 \<rightharpoonup> op list) \<Rightarrow> Version \<Rightarrow> compactionPick \<Rightarrow> (u64 \<rightharpoonup> op list) \<Rightarrow> Version \<Rightarrow> bool" where
  "compacted F v pick F' v' \<longleftrightarrow> (\<exists>fs outs. levels_after v pick fs v' \<and>
     list_all2 (\<lambda>f es. es \<noteq> [] \<and> fm_SmallestKey f = fst (hd es) \<and> fm_LargestKey f = fst (last es) \<and>
       (\<exists>H. F' (fm_FileNum f) = Some H \<and> holds es H \<and> set H \<subseteq> picked_ops F (picked pick))) fs outs \<and>
     sorted_keys (concat outs) \<and> set (concat outs) = op_entry ` picked_ops F (picked pick) \<and>
     distinct (map fm_FileNum fs) \<and> (\<forall>f\<in>set fs. fm_FileNum f \<notin> dom F) \<and> dom F' = dom F \<union> fm_FileNum ` set fs)"

lemma apply_compaction:
  assumes len: "length (v_Levels v) = NumLevels" and lev: "\<forall>f\<in>set fs. fm_Level f = int (cp_outputLevel pick)" and out: "cp_outputLevel pick < NumLevels"
  shows "\<exists>v'. version_apply v (logged_edit vs (compaction_edit pick fs)) = Some v' \<and> levels_after v pick fs v'"
proof -
  let ?e = "logged_edit vs (compaction_edit pick fs)"
  have "\<exists>ls. add_files (NewFiles ?e) ls0 = Some ls" for ls0
    using add_files_ok [of "NewFiles ?e"] lev out by (simp add: logged_edit_def compaction_edit_def)
  then obtain v' where v': "version_apply v ?e = Some v'" by (fastforce simp: version_apply_def Let_def split: option.splits)
  have d: "edit_deletes ?e = (\<lambda>f. fm_FileNum f \<in> fm_FileNum ` set (picked pick))"
    by (auto simp: edit_deletes_def logged_edit_def compaction_edit_def image_Un image_image)
  have "filter (\<lambda>f. fm_Level f = int l) fs = (if l = cp_outputLevel pick then fs else [])" for l
    using lev by (auto simp: filter_empty_conv filter_id_conv)
  then have e: "edit_files ?e l = (if l = cp_outputLevel pick then fs else [])" for l
    by (simp add: edit_files_def logged_edit_def compaction_edit_def)
  note ap = version_apply_Some [OF len v', unfolded d e]
  have "levels_after v pick fs v'" unfolding levels_after_def
  proof (intro conjI allI impI)
    fix l assume "l < NumLevels"
    then show "v_Levels v' ! l = (if l = 0 then id else sort_key fm_SmallestKey)
        (filter (\<lambda>f. fm_FileNum f \<notin> fm_FileNum ` set (picked pick)) (v_Levels v ! l) @ (if l = cp_outputLevel pick then fs else []))"
      using ap(2) ap(3) [of l] by (cases "l = 0") simp_all
  qed (rule ap(1))
  then show ?thesis using v' by blast
qed

section \<open>A compaction\<close>

lemma tables_ok_cache: "tables_ok T F db s \<Longrightarrow> cache_fits T (db_cache db') \<Longrightarrow> db_tableCache db' = db_tableCache db \<Longrightarrow> tables_ok T F db' s"
  by (simp add: tables_ok_def)

lemma db_rep_looked: "db_rep T F db s HH \<Longrightarrow> lookup_frame (db, s) (db', s') \<Longrightarrow> tables_ok T F db' s' \<Longrightarrow> db_rep T F db' s' HH"
  by (rule db_rep_frame, assumption, rule mems_ok_cong [of db]) (simp_all add: lookup_frameD(1-7) db_rep_def)

lemma live_levels_after:
  assumes "levels_after v pick fs v'" and "\<forall>f\<in>live_files v. P f" and "\<forall>f\<in>set fs. P f"
  shows "\<forall>f\<in>live_files v'. P f"
proof
  fix f assume "f \<in> live_files v'"
  then obtain l where l: "l < NumLevels" "f \<in> set (v_Levels v' ! l)" by (auto simp: live_files_def)
  then have "f \<in> set (v_Levels v ! l) \<or> f \<in> set fs" using assms(1) by (auto simp: levels_after_def split: if_splits)
  then show "P f" using assms(2,3) l(1) by (auto simp: live_files_def)
qed

text \<open>What a compaction, from the opened inputs on, does to the state.\<close>

definition compaction_ends :: "tables \<Rightarrow> (u64 \<rightharpoonup> op list) \<Rightarrow> DB \<Rightarrow> os \<Rightarrow> op list list \<Rightarrow> compactionPick \<Rightarrow> (DB \<times> os \<times> compaction_error option) option \<Rightarrow> bool" where
  "compaction_ends T F db s HH pick res \<longleftrightarrow> (\<exists>db' s' err T' F'. res = Some (db', s', err) \<and> db_rep T' F' db' s' HH \<and> T \<subseteq>\<^sub>m T' \<and> F \<subseteq>\<^sub>m F' \<and>
     keeps db db' \<and> db_imm db' = db_imm db \<and>
     unat (vs_nextFileNum (db_versions db')) \<le> unat (vs_nextFileNum (db_versions db)) + unat (db_seqNum db) \<and>
     (healthy db s \<longrightarrow> err = None \<and> healthy db' s') \<and>
     (if err = None then compacted F (vs_current (db_versions db)) pick F' (vs_current (db_versions db'))
      else F' = F \<and> vs_current (db_versions db') = vs_current (db_versions db)))"

lemma compaction_failed:
  assumes "db_rep T F db' s' HH" and "keeps db db'" and "db_imm db' = db_imm db" and "vs_current (db_versions db') = vs_current (db_versions db)"
    and "unat (vs_nextFileNum (db_versions db')) \<le> unat (vs_nextFileNum (db_versions db)) + unat (db_seqNum db)" and "\<not> healthy db s"
  shows "compaction_ends T F db s HH pick (Some (db', s', Some e))"
  unfolding compaction_ends_def using assms by (intro exI [of _ db'] exI [of _ s'] exI [of _ "Some e"] exI [of _ T] exI [of _ F]) simp

lemma compaction_looked:
  assumes "compaction_ends T F db2 s2 HH pick res" and "lookup_frame (db, s) (db2, s2)" and "healthy db s \<Longrightarrow> healthy db2 s2"
  shows "compaction_ends T F db s HH pick res"
proof -
  obtain db' s' err T' F' where e: "res = Some (db', s', err)" "db_rep T' F' db' s' HH" "T \<subseteq>\<^sub>m T'" "F \<subseteq>\<^sub>m F'" "keeps db2 db'" "db_imm db' = db_imm db2"
      "unat (vs_nextFileNum (db_versions db')) \<le> unat (vs_nextFileNum (db_versions db2)) + unat (db_seqNum db2)"
      "healthy db2 s2 \<longrightarrow> err = None \<and> healthy db' s'"
      "if err = None then compacted F (vs_current (db_versions db2)) pick F' (vs_current (db_versions db'))
       else F' = F \<and> vs_current (db_versions db') = vs_current (db_versions db2)"
    using assms(1) unfolding compaction_ends_def by (elim exE conjE) (rule that)
  note d = lookup_frameD [OF assms(2)]
  have "keeps db db'" using e(5) d by (simp add: keeps_def)
  then show ?thesis using e assms(3) unfolding compaction_ends_def d
    by (intro exI [of _ db'] exI [of _ s'] exI [of _ err] exI [of _ T'] exI [of _ F']) simp
qed

text \<open>The edit is logged and applied, and the files are removed.\<close>

lemma compaction_applied:
  assumes rep: "db_rep T F db s HH" and fine: "ops_fine db HH" and out: "cp_outputLevel pick < NumLevels"
    and po: "picked_ops F (picked pick) \<subseteq> all_ops HH" and cd: "\<forall>f\<in>set (picked pick). cached db (fm_FileNum f)"
    and c: "cache_fits T c" and n: "n = vs_nextFileNum (db_versions db)" "n \<le> n'" "unat n' \<le> unat n + unat (db_seqNum db)"
    and of: "other_files (new_paths n n') s s1" and lv: "healthy db s \<longrightarrow> calm s1"
    and outs: "list_all2 (output_file (cp_outputLevel pick) s1) fs outs" "sorted_keys (concat outs)" "set (concat outs) = op_entry ` picked_ops F (picked pick)"
    and nums: "sorted_wrt (<) (map fm_FileNum fs)" "\<forall>f\<in>set fs. n \<le> fm_FileNum f \<and> fm_FileNum f < n'"
  shows "compaction_ends T F db s HH pick
    (case logAndApply (db_versions (compacting db c n')) s1 (compaction_edit pick fs) of
       None \<Rightarrow> None
     | Some (vs, s, Some e) \<Rightarrow> Some ((compacting db c n')\<lparr>db_versions := vs\<rparr>, s, Some (ErrLogAndApply e))
     | Some (vs, s, None) \<Rightarrow> Some ((compacting db c n')\<lparr>db_versions := vs\<rparr>, remove_files (cp_overlaps pick) (remove_files (cp_inputs pick) s), None))"
proof -
  let ?v = "vs_current (db_versions db)" and ?vs = "(db_versions db)\<lparr>vs_nextFileNum := n'\<rparr>" and ?e = "compaction_edit pick fs"
  let ?dc = "db\<lparr>db_cache := c\<rparr>"
  have r: "length (v_Levels ?v) = NumLevels" "\<forall>f\<in>live_files ?v. fm_FileNum f \<in> dom F" "tables_ok T F db s"
      "\<forall>m. m \<in> dom F \<union> dom T \<longrightarrow> m < n" "\<forall>h. vs_manifestFile (db_versions db) = Some h \<longrightarrow> fd_name h = manifestName"
    using rep n(1) by (simp_all add: db_rep_def)
  have tdc: "tables_ok T F ?dc s" by (rule tables_ok_cache [OF r(3)]) (simp_all add: c)
  have rdc: "db_rep T F ?dc s HH"
    by (rule db_rep_frame [OF rep mems_ok_cong tdc]) (use rep in \<open>simp_all add: db_rep_def\<close>)
  have cdb: "db_versions (compacting db c n') = ?vs" "(compacting db c n')\<lparr>db_versions := vs\<rparr> = ?dc\<lparr>db_versions := vs\<rparr>" for vs
    by (simp_all add: compacting_def)
  have np: "sstablePath m \<notin> new_paths n n'" if "m \<in> dom F" for m
    using r(4) that by (auto simp: new_paths_def sstablePath_inj)
  have t1: "tables_ok T F ?dc s1" by (rule tables_ok_other [OF tdc of _ map_le_refl]) (use np in blast)
  have lev: "\<forall>f\<in>set fs. fm_Level f = int (cp_outputLevel pick)" and ne: "list_all2 (\<lambda>f es. es \<noteq> [] \<and> fm_SmallestKey f = fst (hd es) \<and> fm_LargestKey f = fst (last es)) fs outs"
    using outs(1) by (auto simp: output_file_def list_all2_conv_all_nth in_set_conv_nth)
  obtain v' where v': "version_apply ?v (logged_edit ?vs ?e) = Some v'" "levels_after ?v pick fs v'" using apply_compaction [OF r(1) lev out] by blast
  obtain vs2 s2 err where lg: "logAndApply ?vs s1 ?e = Some (vs2, s2, err)" using logAndApply_total [of ?vs ?e v' s1] v'(1) by auto
  note l = logAndApply_files [OF lg, simplified, OF r(5)]
  have t2: "tables_ok T F ?dc s2" by (rule tables_ok_other [OF t1 l(1) _ map_le_refl]) (simp add: sstablePath_manifest)
  have live: "err = None \<and> healthy (?dc\<lparr>db_versions := vs2\<rparr>) s2 \<and> calm s2" if h: "healthy db s"
  proof -
    have c1: "faults s1 = []" "\<forall>n. \<not> fisdir (file_of s1 n)" using lv h by (simp_all add: calm_def)
    obtain h' where h': "vs_manifestFile ?vs = Some h'" "fd_open h'" using h by (auto simp: healthy_def)
    from logAndApply_live [OF c1(1) h' lg] show ?thesis using c1(2) logAndApply_dirs [OF lg] by (auto simp: healthy_def calm_def dirs_same_def)
  qed
  have nx: "\<forall>m. m \<in> dom F \<union> dom T \<longrightarrow> m < n'" using r(4) n(2) less_le_trans by blast
  show ?thesis
  proof (cases err)
    case (Some e)
    have "db_rep T F (?dc\<lparr>db_versions := vs2\<rparr>) s2 HH"
      using r l Some nx by (intro db_rep_version [OF rdc t2]) simp_all
    then show ?thesis unfolding cdb using lg Some live n l
      by (simp add: cdb) (rule compaction_failed, auto simp: keeps_def)
  next
    case None
    have cur: "vs_current vs2 = v'" using l(6) None v'(1) by simp
    have l2: "list_all2 (output_file (cp_outputLevel pick) s2) fs outs" by (rule outputs_other [OF outs(1) l(1)]) (simp add: sstablePath_manifest)
    have dist: "distinct (map fm_FileNum fs)" using nums(1) strict_sorted_iff by blast
    have fresh: "\<forall>f\<in>set fs. fm_FileNum f \<notin> dom F \<union> dom T" using nums(2) r(4) by (meson leD)
    have inj: "inj_on op_seq (picked_ops F (picked pick))" using fine po by (auto simp: ops_fine_def intro: inj_on_subset)
    have "\<forall>es\<in>set outs. \<exists>H. holds es H \<and> set H \<subseteq> picked_ops F (picked pick)"
    proof
      fix es assume es: "es \<in> set outs"
      have "sorted_keys es" using outs(2) es by (auto simp: in_set_conv_decomp sorted_wrt_append)
      moreover have "set es \<subseteq> op_entry ` picked_ops F (picked pick)" using outs(3) es by auto
      ultimately show "\<exists>H. holds es H \<and> set H \<subseteq> picked_ops F (picked pick)"
        using holds_subset [OF _ _ inj] fine po unfolding ops_fine_def by blast
    qed
    from tables_ok_outputs [OF l2 t2 dist fresh this]
    obtain T' F' where tf: "tables_ok T' F' ?dc s2" "T \<subseteq>\<^sub>m T'" "F \<subseteq>\<^sub>m F'" "dom T' = dom T \<union> fm_FileNum ` set fs" "dom F' = dom F \<union> fm_FileNum ` set fs"
        "list_all2 (\<lambda>f es. \<exists>H. F' (fm_FileNum f) = Some H \<and> holds es H \<and> set H \<subseteq> picked_ops F (picked pick)) fs outs"
      by (elim exE conjE) (rule that)
    let ?s = "remove_files (cp_overlaps pick) (remove_files (cp_inputs pick) s2)" and ?db = "?dc\<lparr>db_versions := vs2\<rparr>"
    let ?P = "(\<lambda>f. sstablePath (fm_FileNum f)) ` set (picked pick)"
    have "other_files ?P s2 ?s"
      by (rule other_files_trans [OF other_files_mono [OF remove_files_other] other_files_mono [OF remove_files_other]]) auto
    moreover have "\<forall>m. sstablePath m \<in> ?P \<longrightarrow> cached ?dc m" using cd by (auto simp: sstablePath_inj cached_def)
    ultimately have t3: "tables_ok T' F' ?dc ?s" by (rule tables_ok_removed [OF tf(1)])
    have "\<forall>f\<in>live_files v'. fm_FileNum f \<in> dom F'" by (rule live_levels_after [OF v'(2)]) (use r(2) tf(5) in auto)
    moreover have "length (v_Levels v') = NumLevels" using v'(2) by (simp add: levels_after_def)
    moreover have "\<forall>m. m \<in> dom F' \<union> dom T' \<longrightarrow> m < n'" using nx nums(2) tf(4,5) by auto
    ultimately have rep': "db_rep T' F' ?db ?s HH" using l(2,3) cur by (intro db_rep_version [OF rdc t3]) simp_all
    have "compacted F ?v pick F' v'" unfolding compacted_def
      by (rule exI [of _ fs], rule exI [of _ outs])
        (use v'(2) outs(2,3) dist fresh tf(5,6) ne in \<open>auto simp: list_all2_conv_all_nth\<close>)
    moreover have "healthy db s \<longrightarrow> healthy ?db ?s" using live remove_files_calm by (auto simp: healthy_def calm_def)
    ultimately show ?thesis unfolding compaction_ends_def using lg None rep' tf(2,3) n l(3) cur
      by (intro exI [of _ ?db] exI [of _ ?s] exI [of _ None] exI [of _ T'] exI [of _ F']) (simp add: cdb keeps_def)
  qed
qed

lemma runCompaction_ok:
  assumes rep: "db_rep T F db s HH" and inj: "inj_on op_seq (all_ops HH)" and sub: "\<forall>n H. F n = Some H \<longrightarrow> set H \<subseteq> all_ops HH"
    and mem: "mem_size db \<le> 2 ^ 28" and pick: "\<forall>f\<in>set (picked pick). fm_FileNum f \<in> dom F" and out: "cp_outputLevel pick < NumLevels"
    and nb: "unat (vs_nextFileNum (db_versions db)) + unat (db_seqNum db) < 2 ^ 64"
  shows "compaction_ends T F db s HH pick (runCompaction pick db s)"
proof -
  note fine = ops_fine_rep [OF rep inj]
  have t: "tables_ok T F db s" using rep by (simp add: db_rep_def)
  have pk: "\<forall>f\<in>set (cp_inputs pick). fm_FileNum f \<in> dom F" "\<forall>f\<in>set (cp_overlaps pick). fm_FileNum f \<in> dom F" using pick by auto
  obtain db1 s1 r1 where o1: "open_iters ErrOpenInput db s (cp_inputs pick) = Some (db1, s1, r1)" "tables_ok T F db1 s1"
      "lookup_frame (db, s) (db1, s1)" "\<forall>n. cached db n \<longrightarrow> cached db1 n"
      "case r1 of Inl e \<Rightarrow> faults s \<noteq> []
       | Inr its \<Rightarrow> (\<forall>f\<in>set (cp_inputs pick). cached db1 (fm_FileNum f)) \<and>
           (\<exists>ess. list_all2 (lsm_src T) its ess \<and> list_all2 (\<lambda>f es. holds es (the (F (fm_FileNum f)))) (cp_inputs pick) ess)"
    using open_iters_ok [OF t pk(1), where wrap = ErrOpenInput] by (elim exE conjE) (rule that)
  obtain db2 s2 r2 where o2: "open_iters ErrOpenOverlap db1 s1 (cp_overlaps pick) = Some (db2, s2, r2)" "tables_ok T F db2 s2"
      "lookup_frame (db1, s1) (db2, s2)" "\<forall>n. cached db1 n \<longrightarrow> cached db2 n"
      "case r2 of Inl e \<Rightarrow> faults s1 \<noteq> []
       | Inr its \<Rightarrow> (\<forall>f\<in>set (cp_overlaps pick). cached db2 (fm_FileNum f)) \<and>
           (\<exists>ess. list_all2 (lsm_src T) its ess \<and> list_all2 (\<lambda>f es. holds es (the (F (fm_FileNum f)))) (cp_overlaps pick) ess)"
    using open_iters_ok [OF o1(2) pk(2), where wrap = ErrOpenOverlap] by (elim exE conjE) (rule that)
  have fails: "compaction_ends T F db s HH pick (Some (db', s', Some e))"
    if "lookup_frame (db, s) (db', s')" "tables_ok T F db' s'" "\<not> healthy db s" for db' s' e
    using that lookup_frameD(2-7) [OF that(1)] by (intro compaction_failed db_rep_looked [OF rep]) (simp_all add: keeps_def)
  have fr: "lookup_frame (db, s) (db2, s2)" by (rule lookup_frame_trans [OF o1(3) o2(3)])
  note d = lookup_frameD [OF fr]
  show ?thesis
  proof (cases r1)
    case (Inl e)
    then have "runCompaction pick db s = Some (db1, s1, Some e)" "\<not> healthy db s" using o1(1,5) by (simp_all add: runCompaction_def healthy_def)
    then show ?thesis using fails [OF o1(3,2)] by simp
  next
    case Inr1: (Inr its1)
    show ?thesis
    proof (cases r2)
      case (Inl e)
      then have "runCompaction pick db s = Some (db2, s2, Some e)" "\<not> healthy db s"
        using o1(1) o2(1,5) Inr1 lookup_frameD(10) [OF o1(3)] by (auto simp: runCompaction_def healthy_def)
      then show ?thesis using fails [OF fr o2(2)] by simp
    next
      case (Inr its2)
      obtain ess1 ess2 where e1: "list_all2 (lsm_src T) its1 ess1" "list_all2 (\<lambda>f es. holds es (the (F (fm_FileNum f)))) (cp_inputs pick) ess1"
        and e2: "list_all2 (lsm_src T) its2 ess2" "list_all2 (\<lambda>f es. holds es (the (F (fm_FileNum f)))) (cp_overlaps pick) ess2"
        using o1(5) o2(5) Inr1 Inr by auto
      have cd: "\<forall>f\<in>set (picked pick). cached db2 (fm_FileNum f)" using o1(5) o2(4,5) Inr1 Inr by auto
      let ?ess = "ess1 @ ess2" and ?n = "vs_nextFileNum (db_versions db2)"
      have rep2: "db_rep T F db2 s2 HH" by (rule db_rep_looked [OF rep fr o2(2)])
      have fine2: "ops_fine db2 HH" by (rule ops_fine_rep [OF rep2 inj])
      have m2: "mem_size db2 \<le> 2 ^ 28" using mem d(7) by (simp add: mem_size_def)
      note mi = merged_inputs [OF fine2 sub m2 list_all2_appendI [OF e1(2) e2(2)] pick]
      have c2: "cache_fits T (db_cache db2)" using o2(2) by (simp add: tables_ok_def)
      have bits: "wo_BloomBitsPerKey (o_TableOptions (db_opts db2)) \<le> 64" using rep2 by (simp add: db_rep_def opts_ok_def)
      have n2: "unat ?n + length (merged ?ess) < 2 ^ 64" using mi(4) nb d(4,5) by simp
      have hs: "healthy db2 s2" if "healthy db s" using that d(5,10) by (simp add: healthy_def)
      have lv: "healthy db2 s2 \<longrightarrow> calm s2" by (simp add: healthy_def calm_def)
      obtain c3 n3 s3 r3 where w: "write_outputs (cp_outputLevel pick) db2 s2 (its1 @ its2) = Some (compacting db2 c3 n3, s3, r3)" "cache_fits T c3"
          "?n \<le> n3" "unat n3 \<le> unat ?n + length (merged ?ess)" "other_files (new_paths ?n n3) s2 s3" "healthy db2 s2 \<longrightarrow> (\<exists>fs. r3 = Inr fs) \<and> calm s3"
          "\<forall>fs. r3 = Inr fs \<longrightarrow> (\<exists>outs. list_all2 (output_file (cp_outputLevel pick) s3) fs outs \<and> concat outs = merged ?ess \<and>
             sorted_wrt (<) (map fm_FileNum fs) \<and> (\<forall>f\<in>set fs. ?n \<le> fm_FileNum f \<and> fm_FileNum f < n3))"
        using write_outputs_ok [OF list_all2_appendI [OF e1(1) e2(1)] c2 mi(3) bits out refl n2 lv] by (elim exE conjE) (rule that)
      have n3: "unat n3 \<le> unat ?n + unat (db_seqNum db2)" using w(4) mi(4) by linarith
      show ?thesis
      proof (cases r3)
        case Inl3: (Inl e)
        let ?dc = "db2\<lparr>db_cache := c3\<rparr>"
        have of: "\<forall>m\<in>dom F. sstablePath m \<notin> new_paths ?n n3"
          using rep2 by (auto simp: db_rep_def new_paths_def sstablePath_inj)
        have t3: "tables_ok T F ?dc s3"
          by (rule tables_ok_cache [OF tables_ok_other [OF o2(2) w(5) of map_le_refl]]) (simp_all add: w(2))
        have rdc: "db_rep T F ?dc s3 HH"
          by (rule db_rep_frame [OF rep2 mems_ok_cong t3]) (use rep2 in \<open>simp_all add: db_rep_def\<close>)
        have "db_rep T F (?dc\<lparr>db_versions := (db_versions db2)\<lparr>vs_nextFileNum := n3\<rparr>\<rparr>) s3 HH"
          using rep2 w(3) less_le_trans by (intro db_rep_version [OF rdc t3]) (auto simp: db_rep_def)
        then have "db_rep T F (compacting db2 c3 n3) s3 HH" by (simp add: compacting_def)
        moreover have "runCompaction pick db s = Some (compacting db2 c3 n3, s3, Some e)"
          using o1(1) o2(1) Inr1 Inr w(1) Inl3 by (simp add: runCompaction_def)
        moreover have "\<not> healthy db s" using w(6) Inl3 hs by auto
        ultimately show ?thesis using n3 d(2-7) by (auto simp: keeps_def compacting_def intro!: compaction_failed)
      next
        case Inr3: (Inr fs)
        obtain outs where outs: "list_all2 (output_file (cp_outputLevel pick) s3) fs outs" "concat outs = merged ?ess"
            "sorted_wrt (<) (map fm_FileNum fs)" "\<forall>f\<in>set fs. ?n \<le> fm_FileNum f \<and> fm_FileNum f < n3" using w(7) Inr3 by blast
        have run: "runCompaction pick db s = (case logAndApply (db_versions (compacting db2 c3 n3)) s3 (compaction_edit pick fs) of
            None \<Rightarrow> None
          | Some (vs, s, Some e) \<Rightarrow> Some ((compacting db2 c3 n3)\<lparr>db_versions := vs\<rparr>, s, Some (ErrLogAndApply e))
          | Some (vs, s, None) \<Rightarrow> Some ((compacting db2 c3 n3)\<lparr>db_versions := vs\<rparr>, remove_files (cp_overlaps pick) (remove_files (cp_inputs pick) s), None))"
          using o1(1) o2(1) Inr1 Inr w(1) Inr3 by (simp add: runCompaction_def)
        have "sorted_keys (concat outs)" "set (concat outs) = op_entry ` picked_ops F (picked pick)"
          using outs(2) sorted_merged [of ?ess] mi(1) by simp_all
        moreover have "healthy db2 s2 \<longrightarrow> calm s3" using w(6) by blast
        ultimately have "compaction_ends T F db2 s2 HH pick (runCompaction pick db s)" unfolding run
          using compaction_applied [OF rep2 fine2 out mi(2) cd w(2) refl w(3) n3 w(5) _ outs(1)] outs(3,4) by blast
        then show ?thesis by (rule compaction_looked [OF _ fr hs])
      qed
    qed
  qed
qed

end
