(* ===== verification/Compaction_Levels.thy ===== *)
theory Compaction_Levels
  imports Compaction_State
begin

text \<open>
  The invariant of the levels: every file has the range of the keys it holds, file numbers are unique, and
  above level 0 the ranges are disjoint and ascending. What is picked for a compaction keeps it, and a
  compaction keeps the set of operations that the tables hold.
\<close>

section \<open>The invariant\<close>

definition ranged :: "(u64 \<rightharpoonup> op list) \<Rightarrow> FileMeta \<Rightarrow> bool" where
  "ranged F f \<longleftrightarrow> (\<exists>H es. F (fm_FileNum f) = Some H \<and> holds es H \<and> es \<noteq> [] \<and> fm_SmallestKey f = fst (hd es) \<and> fm_LargestKey f = fst (last es))"

definition before :: "FileMeta \<Rightarrow> FileMeta \<Rightarrow> bool" where
  "before f g \<longleftrightarrow> fm_LargestKey f < fm_SmallestKey g"

definition levels_inv :: "FileMeta list list \<Rightarrow> bool" where
  "levels_inv ls \<longleftrightarrow> (\<forall>l<NumLevels. distinct (map fm_FileNum (ls ! l))) \<and>
     (\<forall>l<NumLevels. \<forall>m<NumLevels. \<forall>f\<in>set (ls ! l). \<forall>g\<in>set (ls ! m). fm_FileNum f = fm_FileNum g \<longrightarrow> l = m) \<and>
     (\<forall>l. 0 < l \<and> l < NumLevels \<longrightarrow> sorted_wrt before (ls ! l))"

definition version_inv :: "(u64 \<rightharpoonup> op list) \<Rightarrow> Version \<Rightarrow> bool" where
  "version_inv F v \<longleftrightarrow> length (v_Levels v) = NumLevels \<and> (\<forall>f\<in>live_files v. ranged F f) \<and> levels_inv (v_Levels v)"

text \<open>All operations in the tables of a version.\<close>

definition table_ops :: "(u64 \<rightharpoonup> op list) \<Rightarrow> Version \<Rightarrow> op set" where
  "table_ops F v = (\<Union>f\<in>live_files v. set (the (F (fm_FileNum f))))"

lemma sorted_ends:
  assumes "sorted_keys es" and "e \<in> set es"
  shows "fst (hd es) \<le> fst e" and "fst e \<le> fst (last es)"
proof -
  show "fst (hd es) \<le> fst e" using assms by (cases es) (auto dest: less_imp_le)
  show "fst e \<le> fst (last es)" using assms
  proof (induction es rule: rev_induct)
    case (snoc d es)
    then show ?case by (auto simp: sorted_wrt_append dest: less_imp_le)
  qed simp
qed

lemma ranged_keys:
  assumes "ranged F f"
  shows "fm_SmallestKey f \<le> fm_LargestKey f" and "fm_SmallestKey f \<noteq> []" "fm_LargestKey f \<noteq> []"
    and "x \<in> set (the (F (fm_FileNum f))) \<Longrightarrow> fm_SmallestKey f \<le> fst (op_entry x) \<and> fst (op_entry x) \<le> fm_LargestKey f"
proof -
  obtain H es where e: "F (fm_FileNum f) = Some H" "holds es H" "es \<noteq> []" "fm_SmallestKey f = fst (hd es)" "fm_LargestKey f = fst (last es)"
    using assms by (auto simp: ranged_def)
  have h: "sorted_keys es" "set es = op_entry ` set H" using e(2) by (simp_all add: holds_def)
  show "fm_SmallestKey f \<le> fm_LargestKey f" using sorted_ends(1) [OF h(1) last_in_set [OF e(3)]] e(4,5) by simp
  have "8 \<le> length (fst y)" if "y \<in> set es" for y using that h(2) by (auto simp: fst_op_entry)
  then have "8 \<le> length (fst (hd es))" "8 \<le> length (fst (last es))" using e(3) by simp_all
  then show "fm_SmallestKey f \<noteq> []" "fm_LargestKey f \<noteq> []" using e(4,5) by auto
  show "x \<in> set (the (F (fm_FileNum f))) \<Longrightarrow> fm_SmallestKey f \<le> fst (op_entry x) \<and> fst (op_entry x) \<le> fm_LargestKey f"
    using sorted_ends [OF h(1), of "op_entry x"] h(2) e(1,4,5) by simp
qed

lemma ranged_mono: "ranged F f \<Longrightarrow> F \<subseteq>\<^sub>m F' \<Longrightarrow> ranged F' f"
  unfolding ranged_def map_le_def by (metis domI)

lemma same_history: "F \<subseteq>\<^sub>m F' \<Longrightarrow> ranged F f \<Longrightarrow> F' (fm_FileNum f) = F (fm_FileNum f)"
  unfolding ranged_def map_le_def by (metis domI)

section \<open>Sorting a level\<close>

text \<open>Files of disjoint ranges are in order when sorted by their smallest keys.\<close>

lemma sort_before:
  assumes "\<forall>f\<in>set fs. fm_SmallestKey f \<le> fm_LargestKey f" and "distinct fs"
    and "\<forall>f\<in>set fs. \<forall>g\<in>set fs. f \<noteq> g \<longrightarrow> before f g \<or> before g f"
  shows "sorted_wrt before (sort_key fm_SmallestKey fs)"
proof -
  have "sorted_wrt (\<lambda>f g. fm_SmallestKey f \<le> fm_SmallestKey g) (sort_key fm_SmallestKey fs)"
    using sorted_sort_key [of fm_SmallestKey fs] by (simp only: sorted_wrt_map)
  moreover have "distinct (sort_key fm_SmallestKey fs)" using assms(2) by simp
  ultimately have "sorted_wrt (\<lambda>f g. fm_SmallestKey f \<le> fm_SmallestKey g \<and> f \<noteq> g) (sort_key fm_SmallestKey fs)"
    by (simp add: sorted_wrt_iff_nth_less distinct_conv_nth)
  then show ?thesis
  proof (rule sorted_wrt_mono_rel [rotated])
    fix f g assume m: "f \<in> set (sort_key fm_SmallestKey fs)" "g \<in> set (sort_key fm_SmallestKey fs)"
      and le: "fm_SmallestKey f \<le> fm_SmallestKey g \<and> f \<noteq> g"
    have "\<not> before g f"
    proof
      assume "before g f"
      then have "fm_LargestKey g < fm_SmallestKey g" using le by (auto simp: before_def)
      then show False using assms(1) m(2) by (auto dest: bspec)
    qed
    then show "before f g" using assms(3) m le by auto
  qed
qed

lemma sorted_before_pairs: "sorted_wrt before fs \<Longrightarrow> f \<in> set fs \<Longrightarrow> g \<in> set fs \<Longrightarrow> f \<noteq> g \<Longrightarrow> before f g \<or> before g f"
  by (induction fs) auto

section \<open>What is picked\<close>

text \<open>The picked files of the output level are those that overlap a range around the inputs.\<close>

definition good_pick :: "Version \<Rightarrow> compactionPick \<Rightarrow> bool" where
  "good_pick v pick \<longleftrightarrow> 0 < cp_outputLevel pick \<and> cp_outputLevel pick < NumLevels \<and> cp_inputs pick \<noteq> [] \<and>
     cp_outputLevel pick = cp_level pick + 1 \<and>
     set (cp_inputs pick) \<subseteq> set (v_Levels v ! cp_level pick) \<and>
     (cp_level pick = 0 \<longrightarrow> cp_inputs pick = v_Levels v ! 0) \<and>
     (\<exists>s t. (\<forall>f\<in>set (cp_inputs pick). s \<le> fm_SmallestKey f \<and> fm_LargestKey f \<le> t) \<and>
        cp_overlaps pick = version_overlapping v (cp_outputLevel pick) s t)"

lemma keyRange_ok:
  assumes "\<forall>f\<in>set fs. fm_SmallestKey f \<noteq> [] \<and> fm_LargestKey f \<noteq> []" and "fs \<noteq> []"
  shows "\<exists>s t. keyRange nilk fs = (Some s, Some t) \<and> (\<forall>f\<in>set fs. s \<le> fm_SmallestKey f \<and> fm_LargestKey f \<le> t)"
  using assms
proof (induction fs rule: rev_induct)
  case (snoc f fs)
  have k: "key_slice nilk f (fm_SmallestKey f) = Some (fm_SmallestKey f)" "key_slice nilk f (fm_LargestKey f) = Some (fm_LargestKey f)"
    using snoc.prems(1) by (simp_all add: key_slice_def)
  show ?case
  proof (cases "fs = []")
    case True
    then show ?thesis by (simp add: keyRange_def keyRange_step_def k)
  next
    case False
    then obtain s t where st: "keyRange nilk fs = (Some s, Some t)" "\<forall>f\<in>set fs. s \<le> fm_SmallestKey f \<and> fm_LargestKey f \<le> t"
      using snoc by auto
    have "keyRange nilk (fs @ [f]) = keyRange_step nilk f (keyRange nilk fs)" by (simp add: keyRange_def)
    also have "\<dots> = (Some (min s (fm_SmallestKey f)), Some (max t (fm_LargestKey f)))"
      by (auto simp: st(1) keyRange_step_def k slice_bytes_def compareKeys_order min_def max_def)
    finally show ?thesis using st(2) by (auto simp: min_def max_def)
  qed
qed simp

lemma largest_file_mem: "largest_file fs = Some f \<Longrightarrow> f \<in> set fs"
proof -
  have "fold (\<lambda>f pick. case pick of None \<Rightarrow> Some f | Some p \<Rightarrow> if fm_Size p < fm_Size f then Some f else Some p) fs p = Some f \<Longrightarrow> f \<in> set fs \<or> p = Some f" for p
    by (induction fs arbitrary: p) (auto split: option.splits if_splits)
  then show "largest_file fs = Some f \<Longrightarrow> f \<in> set fs" unfolding largest_file_def by blast
qed

lemma pickL0_good:
  assumes "version_inv F v" and "4 \<le> length (v_Levels v ! 0)"
  shows "good_pick v (pickL0Compaction nilk v)"
proof -
  let ?fs = "v_Levels v ! 0"
  have "\<forall>f\<in>set ?fs. ranged F f" using assms(1) by (auto simp: version_inv_def live_files_def NumLevels_def)
  then have "\<forall>f\<in>set ?fs. fm_SmallestKey f \<noteq> [] \<and> fm_LargestKey f \<noteq> []" using ranged_keys(2,3) by blast
  moreover have ne: "?fs \<noteq> []" using assms(2) by auto
  ultimately obtain s t where st: "keyRange nilk ?fs = (Some s, Some t)" "\<forall>f\<in>set ?fs. s \<le> fm_SmallestKey f \<and> fm_LargestKey f \<le> t"
    using keyRange_ok by blast
  have p: "pickL0Compaction nilk v = \<lparr>cp_level = 0, cp_outputLevel = 1, cp_inputs = ?fs, cp_overlaps = version_overlapping v 1 s t\<rparr>"
    by (simp add: pickL0Compaction_def st(1) slice_bytes_def)
  show ?thesis unfolding p good_pick_def using ne st(2) by (auto simp: NumLevels_def)
qed

lemma pickLevel_good:
  assumes "pickLevelCompaction v level = Some pick" and "0 < level" "level + 1 < NumLevels"
  shows "good_pick v pick"
proof -
  obtain f where f: "largest_file (v_Levels v ! level) = Some f"
      "pick = \<lparr>cp_level = level, cp_outputLevel = level + 1, cp_inputs = [f],
               cp_overlaps = version_overlapping v (level + 1) (fm_SmallestKey f) (fm_LargestKey f)\<rparr>"
    using assms(1) by (auto simp: pickLevelCompaction_def)
  show ?thesis unfolding f(2) good_pick_def using largest_file_mem [OF f(1)] assms(2,3) by auto
qed

lemma pick_good:
  assumes "version_inv F v" and "pickCompaction nilk v = Some pick"
  shows "good_pick v pick"
proof (cases "4 \<le> length (v_Levels v ! 0)")
  case True
  then show ?thesis using assms pickL0_good by (auto simp: pickCompaction_def)
next
  case False
  then obtain level where l: "find (\<lambda>level. targetLevelSize level < version_levelSize v level) [1..<NumLevels - 1] = Some level"
      "pickLevelCompaction v level = Some pick" using assms(2) by (auto simp: pickCompaction_def split: option.splits)
  have "level \<in> set [1..<NumLevels - 1]" using l(1) by (metis find_Some_iff nth_mem)
  then show ?thesis by (intro pickLevel_good [OF l(2)]) auto
qed

lemma good_pick_live:
  assumes "good_pick v pick"
  shows "set (picked pick) \<subseteq> live_files v"
proof -
  have "cp_level pick < NumLevels" using assms by (auto simp: good_pick_def)
  then show ?thesis using assms by (fastforce simp: good_pick_def live_files_def version_overlapping_def)
qed

section \<open>After a compaction\<close>

definition entries_of :: "(u64 \<rightharpoonup> op list) \<Rightarrow> FileMeta list \<Rightarrow> kv list list \<Rightarrow> bool" where
  "entries_of F fs outs \<longleftrightarrow> list_all2 (\<lambda>f es. es \<noteq> [] \<and> fm_SmallestKey f = fst (hd es) \<and> fm_LargestKey f = fst (last es) \<and>
     (\<exists>H. F (fm_FileNum f) = Some H \<and> holds es H)) fs outs \<and> sorted_keys (concat outs)"

lemma list_all2_member: "list_all2 P xs ys \<Longrightarrow> x \<in> set xs \<Longrightarrow> \<exists>y\<in>set ys. P x y"
  by (induction rule: list_all2_induct) auto

lemma entries_ranged: "entries_of F fs outs \<Longrightarrow> f \<in> set fs \<Longrightarrow> ranged F f"
  unfolding entries_of_def ranged_def by (blast dest: list_all2_member)

lemma ends_in_concat: "es \<in> set ess \<Longrightarrow> es \<noteq> [] \<Longrightarrow> hd es \<in> set (concat ess) \<and> last es \<in> set (concat ess)"
  by (auto intro!: bexI [of _ es])

lemma entries_within:
  assumes "entries_of F fs outs" and "f \<in> set fs"
  shows "\<exists>e\<in>set (concat outs). fm_SmallestKey f = fst e" and "\<exists>e\<in>set (concat outs). fm_LargestKey f = fst e"
proof -
  obtain es where "es \<in> set outs" "es \<noteq> []" "fm_SmallestKey f = fst (hd es)" "fm_LargestKey f = fst (last es)"
    using assms by (auto simp: entries_of_def dest: list_all2_member)
  moreover from this have "hd es \<in> set (concat outs)" "last es \<in> set (concat outs)" using ends_in_concat by blast+
  ultimately show "\<exists>e\<in>set (concat outs). fm_SmallestKey f = fst e" "\<exists>e\<in>set (concat outs). fm_LargestKey f = fst e" by blast+
qed

lemma entries_before:
  assumes "entries_of F fs outs"
  shows "sorted_wrt before fs"
proof -
  have l: "list_all2 (\<lambda>f es. es \<noteq> [] \<and> fm_SmallestKey f = fst (hd es) \<and> fm_LargestKey f = fst (last es) \<and>
     (\<exists>H. F (fm_FileNum f) = Some H \<and> holds es H)) fs outs" and s: "sorted_keys (concat outs)"
    using assms by (simp_all add: entries_of_def)
  from l s show ?thesis
  proof (induction rule: list_all2_induct)
    case (Cons f fs es outs)
    have "before f g" if g: "g \<in> set fs" for g
    proof -
      obtain es' where "es' \<in> set outs" "es' \<noteq> []" "fm_SmallestKey g = fst (hd es')"
        using list_all2_member [OF Cons.hyps(2) g] by blast
      moreover have "\<forall>x\<in>set es. \<forall>y\<in>set outs. \<forall>z\<in>set y. fst x < fst z" using Cons.prems by (simp add: sorted_wrt_append)
      ultimately have "fst (last es) < fst (hd es')" using Cons.hyps(1) by simp
      with \<open>fm_SmallestKey g = fst (hd es')\<close> show ?thesis using Cons.hyps(1) by (simp add: before_def)
    qed
    then show ?case using Cons by (simp add: sorted_wrt_append)
  qed simp
qed

lemma picked_between:
  assumes inv: "version_inv F v" and pick: "good_pick v pick" and r: "r \<in> set (v_Levels v ! cp_outputLevel pick)" "r \<notin> set (cp_overlaps pick)"
  shows "(\<forall>f\<in>set (picked pick). before r f) \<or> (\<forall>f\<in>set (picked pick). before f r)"
proof -
  let ?o = "cp_outputLevel pick"
  have o: "0 < ?o" "?o < NumLevels" using pick by (auto simp: good_pick_def)
  obtain s t where st: "\<forall>f\<in>set (cp_inputs pick). s \<le> fm_SmallestKey f \<and> fm_LargestKey f \<le> t" "cp_overlaps pick = version_overlapping v ?o s t"
    using pick by (auto simp: good_pick_def)
  have rg: "fm_SmallestKey f \<le> fm_LargestKey f" if "f \<in> set (v_Levels v ! ?o)" for f
    using inv ranged_keys(1) o(2) that by (auto simp: version_inv_def live_files_def)
  have "sorted_wrt before (v_Levels v ! ?o)" using inv o by (simp add: version_inv_def levels_inv_def)
  then have p: "before r p \<or> before p r" if "p \<in> set (cp_overlaps pick)" for p
    using sorted_before_pairs [of "v_Levels v ! ?o" r p] r st(2) that by (auto simp: version_overlapping_def)
  have ov: "s \<le> fm_LargestKey p \<and> fm_SmallestKey p \<le> t" if "p \<in> set (cp_overlaps pick)" for p
    using that st(2) by (auto simp: version_overlapping_def compareKeys_order not_less)
  have "t < fm_SmallestKey r \<or> fm_LargestKey r < s" using r st(2) by (auto simp: version_overlapping_def compareKeys_order)
  then show ?thesis
  proof
    assume t: "t < fm_SmallestKey r"
    have "before f r" if "f \<in> set (picked pick)" for f
    proof (cases "f \<in> set (cp_inputs pick)")
      case True
      then show ?thesis using st(1) t by (auto simp: before_def intro: le_less_trans)
    next
      case False
      then have f: "f \<in> set (cp_overlaps pick)" using that by simp
      have "fm_SmallestKey f < fm_LargestKey r" using ov [OF f] t rg [OF r(1)] by (meson le_less_trans less_le_trans)
      then show ?thesis using p [OF f] by (auto simp: before_def)
    qed
    then show ?thesis by blast
  next
    assume s: "fm_LargestKey r < s"
    have "before r f" if "f \<in> set (picked pick)" for f
    proof (cases "f \<in> set (cp_inputs pick)")
      case True
      then show ?thesis using st(1) s by (auto simp: before_def intro: less_le_trans)
    next
      case False
      then have f: "f \<in> set (cp_overlaps pick)" using that by simp
      have "fm_SmallestKey r < fm_LargestKey f" using ov [OF f] s rg [OF r(1)] by (meson le_less_trans less_le_trans)
      then show ?thesis using p [OF f] by (auto simp: before_def)
    qed
    then show ?thesis by blast
  qed
qed

lemma compactedD:
  assumes "compacted F v pick F' v'"
  obtains fs outs where "levels_after v pick fs v'" "entries_of F' fs outs" "set (concat outs) = op_entry ` picked_ops F (picked pick)"
    "distinct (map fm_FileNum fs)" "\<forall>f\<in>set fs. fm_FileNum f \<notin> dom F"
    "\<forall>f\<in>set fs. set (the (F' (fm_FileNum f))) \<subseteq> picked_ops F (picked pick)"
proof -
  obtain fs outs where c: "levels_after v pick fs v'"
     "list_all2 (\<lambda>f es. es \<noteq> [] \<and> fm_SmallestKey f = fst (hd es) \<and> fm_LargestKey f = fst (last es) \<and>
       (\<exists>H. F' (fm_FileNum f) = Some H \<and> holds es H \<and> set H \<subseteq> picked_ops F (picked pick))) fs outs"
     "sorted_keys (concat outs)" "set (concat outs) = op_entry ` picked_ops F (picked pick)"
     "distinct (map fm_FileNum fs)" "\<forall>f\<in>set fs. fm_FileNum f \<notin> dom F"
    using assms unfolding compacted_def by (elim exE conjE) (rule that)
  have "entries_of F' fs outs" unfolding entries_of_def using c(3) by (auto intro: list.rel_mono_strong [OF c(2)])
  moreover have "\<forall>f\<in>set fs. set (the (F' (fm_FileNum f))) \<subseteq> picked_ops F (picked pick)" using list_all2_member [OF c(2)] by fastforce
  ultimately show thesis using that c by blast
qed

lemma same_number:
  assumes "version_inv F v" and "f \<in> live_files v" "g \<in> live_files v" and "fm_FileNum f = fm_FileNum g"
  shows "f = g"
proof -
  obtain l m where l: "l < NumLevels" "f \<in> set (v_Levels v ! l)" and m: "m < NumLevels" "g \<in> set (v_Levels v ! m)"
    using assms(2,3) by (auto simp: live_files_def)
  have "l = m" using assms(1,4) l m unfolding version_inv_def levels_inv_def by blast
  moreover have "inj_on fm_FileNum (set (v_Levels v ! l))" using assms(1) l(1) by (simp add: version_inv_def levels_inv_def distinct_map)
  ultimately show ?thesis using l(2) m(2) assms(4) by (simp add: inj_on_def)
qed

lemma distinct_map_sort [simp]: "distinct (map g (sort_key k xs)) = distinct (map g xs)"
  by (rule mset_eq_imp_distinct_iff) (simp only: mset_map mset_sort)

lemma new_apart:
  assumes inv: "version_inv F v" and pick: "good_pick v pick" and ent: "entries_of F' fs outs"
    and ops: "set (concat outs) = op_entry ` picked_ops F (picked pick)"
    and r: "r \<in> set (v_Levels v ! cp_outputLevel pick)" "r \<notin> set (cp_overlaps pick)" and f: "f \<in> set fs"
  shows "before r f \<or> before f r"
proof -
  have b: "\<exists>p\<in>set (picked pick). fm_SmallestKey p \<le> fst e \<and> fst e \<le> fm_LargestKey p" if "e \<in> set (concat outs)" for e
  proof -
    have px: "\<exists>p x. e = op_entry x \<and> p \<in> set (picked pick) \<and> x \<in> set (the (F (fm_FileNum p)))"
      using that unfolding ops picked_ops_def by blast
    obtain p x where p: "e = op_entry x" "p \<in> set (picked pick)" "x \<in> set (the (F (fm_FileNum p)))" using px by blast
    have "ranged F p" using inv good_pick_live [OF pick] p(2) by (auto simp: version_inv_def)
    from ranged_keys(4) [OF this p(3)] show ?thesis using p(1,2) by blast
  qed
  obtain d e where de: "d \<in> set (concat outs)" "fm_SmallestKey f = fst d" "e \<in> set (concat outs)" "fm_LargestKey f = fst e"
    using entries_within [OF ent f] by blast
  obtain p q where pq: "p \<in> set (picked pick)" "fm_SmallestKey p \<le> fst d" "q \<in> set (picked pick)" "fst e \<le> fm_LargestKey q"
    using b [OF de(1)] b [OF de(3)] by blast
  from picked_between [OF inv pick r] show ?thesis
  proof
    assume "\<forall>f\<in>set (picked pick). before r f"
    then show ?thesis using pq(1,2) de(2) by (auto simp: before_def intro: less_le_trans)
  next
    assume "\<forall>f\<in>set (picked pick). before f r"
    then show ?thesis using pq(3,4) de(4) by (auto simp: before_def intro: le_less_trans)
  qed
qed

lemma compacted_inv:
  assumes inv: "version_inv F v" and pick: "good_pick v pick" and c: "compacted F v pick F' v'" and le: "F \<subseteq>\<^sub>m F'"
  shows "version_inv F' v'"
proof -
  obtain fs outs where fs: "levels_after v pick fs v'" "entries_of F' fs outs" "set (concat outs) = op_entry ` picked_ops F (picked pick)"
      "distinct (map fm_FileNum fs)" "\<forall>f\<in>set fs. fm_FileNum f \<notin> dom F" using compactedD [OF c] by metis
  let ?o = "cp_outputLevel pick"
  let ?new = "\<lambda>l. filter (\<lambda>f. fm_FileNum f \<notin> fm_FileNum ` set (picked pick)) (v_Levels v ! l) @ (if l = ?o then fs else [])"
  have o: "0 < ?o" "?o < NumLevels" using pick by (auto simp: good_pick_def)
  have lv: "v_Levels v' ! l = (if l = 0 then id else sort_key fm_SmallestKey) (?new l)" if "l < NumLevels" for l
    using fs(1) that by (simp add: levels_after_def)
  have lset: "set (v_Levels v' ! l) = set (?new l)" if "l < NumLevels" for l unfolding lv [OF that] by simp
  have live: "f \<in> live_files v" if "l < NumLevels" "f \<in> set (v_Levels v ! l)" for f l using that by (auto simp: live_files_def)
  have old: "fm_FileNum f \<in> dom F" if "f \<in> live_files v" for f using inv that by (auto simp: version_inv_def ranged_def)
  have rg: "\<forall>f\<in>live_files v'. ranged F' f"
    by (rule live_levels_after [OF fs(1)]) (use inv ranged_mono [OF _ le] entries_ranged [OF fs(2)] in \<open>auto simp: version_inv_def\<close>)
  have dist: "distinct (map fm_FileNum (?new l))" if l: "l < NumLevels" for l
  proof -
    have "fm_FileNum f \<noteq> fm_FileNum g" if "f \<in> set (v_Levels v ! l)" "g \<in> set fs" for f g
      using old [OF live [OF l that(1)]] fs(5) that(2) by metis
    then show ?thesis using inv l fs(4) by (auto simp: version_inv_def levels_inv_def distinct_map_filter)
  qed
  have uniq: "l = m" if lm: "l < NumLevels" "m < NumLevels" "f \<in> set (?new l)" "g \<in> set (?new m)" "fm_FileNum f = fm_FileNum g" for l m f g
  proof -
    have d: "f' \<in> set (v_Levels v ! l') \<and> fm_FileNum f' \<in> dom F \<or> l' = ?o \<and> fm_FileNum f' \<notin> dom F"
      if f': "l' < NumLevels" "f' \<in> set (?new l')" for f' l'
    proof (cases "f' \<in> set (v_Levels v ! l')")
      case True
      then show ?thesis using old [OF live [OF f'(1)]] by blast
    next
      case False
      then show ?thesis using f'(2) fs(5) by (auto split: if_splits)
    qed
    show ?thesis using d [OF lm(1,3)] d [OF lm(2,4)] lm(1,2,5) inv unfolding version_inv_def levels_inv_def by metis
  qed
  have srt: "sorted_wrt before (v_Levels v' ! l)" if l: "0 < l" "l < NumLevels" for l
  proof -
    have "sorted_wrt before (sort_key fm_SmallestKey (?new l))"
    proof (rule sort_before)
      have "\<forall>f\<in>set (v_Levels v' ! l). ranged F' f" using rg l(2) by (auto simp: live_files_def)
      then show "\<forall>f\<in>set (?new l). fm_SmallestKey f \<le> fm_LargestKey f" unfolding lset [OF l(2)] using ranged_keys(1) by blast
      show "distinct (?new l)" using dist [OF l(2)] distinct_map by blast
      show "\<forall>f\<in>set (?new l). \<forall>g\<in>set (?new l). f \<noteq> g \<longrightarrow> before f g \<or> before g f"
      proof (intro ballI impI)
        fix f g assume fg: "f \<in> set (?new l)" "g \<in> set (?new l)" "f \<noteq> g"
        have oldp: "f' \<in> set (v_Levels v ! l) \<and> f' \<notin> set (cp_overlaps pick) \<or> l = ?o \<and> f' \<in> set fs" if "f' \<in> set (?new l)" for f'
          using that by (auto split: if_splits)
        have ss: "sorted_wrt before (v_Levels v ! l)" using inv l by (simp add: version_inv_def levels_inv_def)
        have "before f g \<or> before g f" if "l = ?o" "f \<in> set fs" "g \<in> set fs"
          using sorted_before_pairs [OF entries_before [OF fs(2)]] that fg(3) by blast
        then show "before f g \<or> before g f"
          using oldp [OF fg(1)] oldp [OF fg(2)] sorted_before_pairs [OF ss _ _ fg(3)] new_apart [OF inv pick fs(2,3)] by blast
      qed
    qed
    then show ?thesis using lv [OF l(2)] l(1) by simp
  qed
  have "distinct (map fm_FileNum (v_Levels v' ! l))" if "l < NumLevels" for l using dist [OF that] lv [OF that] by (cases "l = 0") simp_all
  moreover have "\<forall>l<NumLevels. \<forall>m<NumLevels. \<forall>f\<in>set (v_Levels v' ! l). \<forall>g\<in>set (v_Levels v' ! m). fm_FileNum f = fm_FileNum g \<longrightarrow> l = m"
    using uniq lset by blast
  ultimately show ?thesis using srt rg fs(1) unfolding version_inv_def levels_inv_def levels_after_def by blast
qed

text \<open>The tables hold the same operations as before.\<close>

lemma compacted_ops:
  assumes inv: "version_inv F v" and pick: "good_pick v pick" and c: "compacted F v pick F' v'" and le: "F \<subseteq>\<^sub>m F'"
    and inj: "inj_on op_entry (table_ops F v)"
  shows "table_ops F' v' = table_ops F v"
proof -
  obtain fs outs where fs: "levels_after v pick fs v'" "entries_of F' fs outs" "set (concat outs) = op_entry ` picked_ops F (picked pick)"
      "\<forall>f\<in>set fs. set (the (F' (fm_FileNum f))) \<subseteq> picked_ops F (picked pick)" using compactedD [OF c] by metis
  let ?nums = "fm_FileNum ` set (picked pick)"
  have o: "cp_outputLevel pick < NumLevels" using pick by (auto simp: good_pick_def)
  have lset: "set (v_Levels v' ! l) = {f \<in> set (v_Levels v ! l). fm_FileNum f \<notin> ?nums} \<union> (if l = cp_outputLevel pick then set fs else {})"
    if "l < NumLevels" for l using fs(1) that by (auto simp: levels_after_def)
  have live': "live_files v' = {f \<in> live_files v. fm_FileNum f \<notin> ?nums} \<union> set fs"
    using lset o by (auto simp: live_files_def split: if_splits)
  have pk: "set (picked pick) \<subseteq> live_files v" by (rule good_pick_live [OF pick])
  then have live: "live_files v = {f \<in> live_files v. fm_FileNum f \<notin> ?nums} \<union> set (picked pick)" using same_number [OF inv] by blast
  have po: "picked_ops F (picked pick) \<subseteq> table_ops F v" using pk by (auto simp: picked_ops_def table_ops_def)
  have new: "(\<Union>f\<in>set fs. set (the (F' (fm_FileNum f)))) = picked_ops F (picked pick)"
  proof
    show "(\<Union>f\<in>set fs. set (the (F' (fm_FileNum f)))) \<subseteq> picked_ops F (picked pick)" using fs(4) by blast
    show "picked_ops F (picked pick) \<subseteq> (\<Union>f\<in>set fs. set (the (F' (fm_FileNum f))))"
    proof
      fix x assume x: "x \<in> picked_ops F (picked pick)"
      then obtain es where es: "es \<in> set outs" "op_entry x \<in> set es" using fs(3) by (metis (no_types, lifting) UN_E image_eqI set_concat)
      have "list_all2 (\<lambda>es f. \<exists>H. F' (fm_FileNum f) = Some H \<and> holds es H) outs fs"
        using fs(2) by (auto simp: entries_of_def list_all2_conv_all_nth)
      then obtain f H where f: "f \<in> set fs" "F' (fm_FileNum f) = Some H" "holds es H" using list_all2_member [OF _ es(1)] by blast
      then obtain y where y: "y \<in> set H" "op_entry y = op_entry x" using es(2) by (auto simp: holds_def)
      have "y \<in> picked_ops F (picked pick)" using fs(4) f(1,2) y(1) by fastforce
      then have "x = y" using inj_onD [OF inj y(2)] x po by blast
      then show "x \<in> (\<Union>f\<in>set fs. set (the (F' (fm_FileNum f))))" using f(1,2) y(1) by (intro UN_I [of f]) simp_all
    qed
  qed
  have "set (the (F' (fm_FileNum f))) = set (the (F (fm_FileNum f)))" if "f \<in> live_files v" for f
    using same_history [OF le] inv that by (simp add: version_inv_def)
  then have "table_ops F' v' = (\<Union>f\<in>{f \<in> live_files v. fm_FileNum f \<notin> ?nums}. set (the (F (fm_FileNum f)))) \<union> picked_ops F (picked pick)"
    unfolding table_ops_def live' UN_Un new by simp
  also have "\<dots> = table_ops F v" unfolding table_ops_def by (subst (2) live) (simp add: UN_Un picked_ops_def)
  finally show ?thesis .
qed

section \<open>After a flush\<close>

lemma flush_inv:
  assumes inv: "version_inv F v" and g: "level0_grows v f v'" and n: "fm_FileNum f = n" "n \<notin> dom F"
    and es: "holds es H" "es \<noteq> []" "fm_SmallestKey f = fst (hd es)" "fm_LargestKey f = fst (last es)"
  shows "version_inv (F(n \<mapsto> H)) v'" and "table_ops (F(n \<mapsto> H)) v' = table_ops F v \<union> set H"
proof -
  let ?F = "F(n \<mapsto> H)"
  have le: "F \<subseteq>\<^sub>m ?F" using n(2) by (auto simp: map_le_def)
  have lset: "set (v_Levels v' ! l) = set (v_Levels v ! l) \<union> (if l = 0 then {f} else {})" if "l < NumLevels" for l
    using g that by (auto simp: level0_grows_def)
  have "0 < NumLevels" by (simp add: NumLevels_def)
  then have live: "live_files v' = insert f (live_files v)" using lset unfolding live_files_def by (auto split: if_splits)
  have old: "fm_FileNum g \<in> dom F" if "g \<in> live_files v" for g using inv that by (auto simp: version_inv_def ranged_def)
  have fresh: "fm_FileNum g \<noteq> n" if "l < NumLevels" "g \<in> set (v_Levels v ! l)" for g l using old n(2) that by (fastforce simp: live_files_def)
  have rf: "ranged ?F f" unfolding ranged_def using es n(1) by auto
  have "distinct (map fm_FileNum (v_Levels v' ! l))" if l: "l < NumLevels" for l
  proof (cases "l = 0")
    case True
    have "fm_FileNum f \<notin> fm_FileNum ` set (v_Levels v ! 0)" using fresh [of 0] n(1) l True by (metis imageE)
    then show ?thesis using inv g True l by (simp add: version_inv_def levels_inv_def level0_grows_def)
  qed (use inv g l in \<open>simp add: version_inv_def levels_inv_def level0_grows_def\<close>)
  moreover have "\<forall>l<NumLevels. \<forall>m<NumLevels. \<forall>f\<in>set (v_Levels v' ! l). \<forall>g\<in>set (v_Levels v' ! m). fm_FileNum f = fm_FileNum g \<longrightarrow> l = m"
  proof (intro allI ballI impI)
    fix l m x y assume a: "l < NumLevels" "m < NumLevels" "x \<in> set (v_Levels v' ! l)" "y \<in> set (v_Levels v' ! m)" "fm_FileNum x = fm_FileNum y"
    have d: "z \<in> set (v_Levels v ! k) \<and> fm_FileNum z \<noteq> n \<or> k = 0 \<and> fm_FileNum z = n" if "k < NumLevels" "z \<in> set (v_Levels v' ! k)" for z k
      using that lset [OF that(1)] fresh [OF that(1)] n(1) by (auto split: if_splits)
    show "l = m" using d [OF a(1,3)] d [OF a(2,4)] a(1,2,5) inv unfolding version_inv_def levels_inv_def by metis
  qed
  moreover have "sorted_wrt before (v_Levels v' ! l)" if l: "0 < l" "l < NumLevels" for l
  proof -
    have fs: "sorted_wrt before (v_Levels v ! l)" "distinct (map fm_FileNum (v_Levels v ! l))" using inv l by (simp_all add: version_inv_def levels_inv_def)
    have "sorted_wrt before (sort_key fm_SmallestKey (v_Levels v ! l))"
    proof (rule sort_before)
      show "\<forall>f\<in>set (v_Levels v ! l). fm_SmallestKey f \<le> fm_LargestKey f"
        using inv ranged_keys(1) l(2) by (auto simp: version_inv_def live_files_def)
      show "distinct (v_Levels v ! l)" using fs(2) distinct_map by blast
      show "\<forall>f\<in>set (v_Levels v ! l). \<forall>g\<in>set (v_Levels v ! l). f \<noteq> g \<longrightarrow> before f g \<or> before g f" using sorted_before_pairs [OF fs(1)] by blast
    qed
    then show ?thesis using g l by (simp add: level0_grows_def)
  qed
  moreover have "\<forall>g\<in>live_files v'. ranged ?F g" using inv ranged_mono [OF _ le] rf live by (auto simp: version_inv_def)
  ultimately show "version_inv ?F v'" using g unfolding version_inv_def levels_inv_def level0_grows_def by blast
  have "set (the (?F (fm_FileNum g))) = set (the (F (fm_FileNum g)))" if "g \<in> live_files v" for g
    using same_history [OF le] inv that by (simp add: version_inv_def)
  then show "table_ops ?F v' = table_ops F v \<union> set H" using n(1) by (auto simp: table_ops_def live)
qed

end
