(* ===== verification/Compaction_Round.thy ===== *)
theory Compaction_Round
  imports Compaction_Levels
begin

text \<open>
  A round of \<^verbatim>\<open>doCompaction\<close> keeps the histories, the invariant of the levels and the operations in the
  tables, whatever calls fail, and moves entries down, so the loop comes to an end.
\<close>

section \<open>Evicting blocks\<close>

lemma cache_fits_evict: "cache_fits T cache \<Longrightarrow> cache_fits T (map_option (\<lambda>c. cache_Evict c n) cache)"
proof -
  assume fits: "cache_fits T cache"
  have "cache_good T' (map_option (\<lambda>c. cache_Evict c n) cache)" if good: "cache_good T' cache" for T'
  proof (cases cache)
    case (Some c)
    then obtain L where L: "cache_rep c L" "coherent T' L" using good by (auto simp: cache_good_def)
    obtain L' where "cache_rep (fst (cache_do (OpEvict n) c)) L'" "lru_do (bc_capacity c) (OpEvict n) L = (L', snd (cache_do (OpEvict n) c))"
      using cache_do_rep [OF L(1), of "OpEvict n"] by blast
    then have "cache_rep (cache_Evict c n) (filter (\<lambda>x. fst (fst x) \<noteq> n) L)" by simp
    moreover have "coherent T' (filter (\<lambda>x. fst (fst x) \<noteq> n) L)" using L(2) by (simp add: coherent_def)
    ultimately show ?thesis using Some by (auto simp: cache_good_def)
  qed simp
  then show ?thesis using fits by (simp add: cache_fits_def)
qed

lemma evict_files_only: "\<exists>c. evict_files fs db = db\<lparr>db_cache := c\<rparr> \<and> (cache_fits T (db_cache db) \<longrightarrow> cache_fits T c)"
proof (induction fs arbitrary: db)
  case Nil
  have "evict_files [] db = db\<lparr>db_cache := db_cache db\<rparr>" by (simp add: evict_files_def)
  then show ?case by blast
next
  case (Cons f fs)
  let ?db = "db\<lparr>db_cache := map_option (\<lambda>c. cache_Evict c (fm_FileNum f)) (db_cache db)\<rparr>"
  obtain c where "evict_files fs ?db = ?db\<lparr>db_cache := c\<rparr>" "cache_fits T (db_cache ?db) \<longrightarrow> cache_fits T c" using Cons.IH [of ?db] by blast
  then show ?case using cache_fits_evict [of T "db_cache db" "fm_FileNum f"] by (intro exI [of _ c]) (simp add: evict_files_def)
qed

section \<open>The invariant of the store\<close>

definition store_inv :: "(u64 \<rightharpoonup> op list) \<Rightarrow> DB \<Rightarrow> op list list \<Rightarrow> bool" where
  "store_inv F db HH \<longleftrightarrow> inj_on op_seq (all_ops HH) \<and> (\<forall>n H. F n = Some H \<longrightarrow> set H \<subseteq> all_ops HH) \<and>
     version_inv F (vs_current (db_versions db)) \<and> (\<forall>i\<in>set (db_imm db). HH ! i \<noteq> [])"

lemma store_tables:
  assumes "store_inv F db HH"
  shows "table_ops F (vs_current (db_versions db)) \<subseteq> all_ops HH"
proof -
  have "set (the (F (fm_FileNum f))) \<subseteq> all_ops HH" if f: "f \<in> live_files (vs_current (db_versions db))" for f
  proof -
    obtain H where "F (fm_FileNum f) = Some H" using assms f by (auto simp: store_inv_def version_inv_def ranged_def)
    then show ?thesis using assms by (simp add: store_inv_def)
  qed
  then show ?thesis by (auto simp: table_ops_def)
qed

lemma entry_inj:
  assumes "ops_fine db HH" and "U \<subseteq> all_ops HH"
  shows "inj_on op_entry U"
proof (rule inj_onI)
  fix x y assume "x \<in> U" "y \<in> U" "op_entry x = op_entry y"
  then show "x = y" using assms(2) by (intro op_key_inj [OF assms(1)]) auto
qed

section \<open>Progress\<close>

text \<open>The number of entries of a file, and a weight that falls when entries move down.\<close>

definition file_entries :: "(u64 \<rightharpoonup> op list) \<Rightarrow> FileMeta \<Rightarrow> nat" where
  "file_entries F f = card (set (the (F (fm_FileNum f))))"

definition weight :: "(u64 \<rightharpoonup> op list) \<Rightarrow> Version \<Rightarrow> nat" where
  "weight F v = (\<Sum>l<NumLevels. (6 - l) * sum (file_entries F) (set (v_Levels v ! l)))"

lemma ranged_entries: "ranged F f \<Longrightarrow> 0 < file_entries F f"
proof -
  assume "ranged F f"
  then obtain H es where "F (fm_FileNum f) = Some H" "holds es H" "es \<noteq> []" by (auto simp: ranged_def)
  then have "the (F (fm_FileNum f)) \<noteq> []" by (auto simp: holds_def)
  then show ?thesis by (simp add: file_entries_def card_gt_0_iff)
qed

lemma entries_sum:
  assumes "entries_of F fs outs" and "distinct (map fm_FileNum fs)"
  shows "sum (file_entries F) (set fs) = card (set (concat outs))"
proof -
  have l: "list_all2 (\<lambda>f es. es \<noteq> [] \<and> fm_SmallestKey f = fst (hd es) \<and> fm_LargestKey f = fst (last es) \<and>
     (\<exists>H. F (fm_FileNum f) = Some H \<and> holds es H)) fs outs" and s: "sorted_keys (concat outs)"
    using assms(1) by (simp_all add: entries_of_def)
  have len: "file_entries F f = length es" if "F (fm_FileNum f) = Some H" "holds es H" for f es H
  proof -
    have h: "sorted_keys es" "set es = op_entry ` set H" "history_ok H" using that(2) by (simp_all add: holds_def)
    have "distinct es" using h(1) strict_sorted_iff distinct_map by blast
    then have "length es = card (op_entry ` set H)" using h(2) distinct_card by metis
    also have "\<dots> = card (set H)" by (rule card_image [OF op_seq_inj [OF h(3)]])
    finally show ?thesis using that(1) by (simp add: file_entries_def)
  qed
  from l have "sum_list (map (file_entries F) fs) = length (concat outs)"
    by (induction rule: list_all2_induct) (auto simp: len)
  moreover have "sum_list (map (file_entries F) fs) = sum (file_entries F) (set fs)"
    using assms(2) by (intro sum_list_distinct_conv_sum_set) (simp add: distinct_map)
  moreover have "distinct (concat outs)" using s strict_sorted_iff distinct_map by blast
  ultimately show ?thesis using distinct_card by metis
qed

lemma compacted_weight:
  assumes inv: "version_inv F v" and pick: "good_pick v pick" and c: "compacted F v pick F' v'" and le: "F \<subseteq>\<^sub>m F'"
  shows "weight F' v' < weight F v"
proof -
  obtain fs outs where fs: "levels_after v pick fs v'" "entries_of F' fs outs" "set (concat outs) = op_entry ` picked_ops F (picked pick)"
      "distinct (map fm_FileNum fs)" "\<forall>f\<in>set fs. fm_FileNum f \<notin> dom F" using compactedD [OF c] by metis
  let ?o = "cp_outputLevel pick" and ?P = "set (picked pick)" and ?c = "file_entries F" and ?c' = "file_entries F'"
  have o: "0 < ?o" "?o < NumLevels" "?o = cp_level pick + 1" "cp_inputs pick \<noteq> []" "set (cp_inputs pick) \<subseteq> set (v_Levels v ! cp_level pick)"
      "set (cp_overlaps pick) \<subseteq> set (v_Levels v ! ?o)"
    using pick by (auto simp: good_pick_def version_overlapping_def)
  have pk: "?P \<subseteq> live_files v" by (rule good_pick_live [OF pick])
  have live: "f \<in> live_files v" if "l < NumLevels" "f \<in> set (v_Levels v ! l)" for f l using that by (auto simp: live_files_def)
  have num: "f \<in> ?P \<longleftrightarrow> fm_FileNum f \<in> fm_FileNum ` ?P" if "f \<in> live_files v" for f
    using same_number [OF inv that] pk by blast
  have same: "?c' f = ?c f" if "f \<in> live_files v" for f
    using same_history [OF le] inv that by (simp add: version_inv_def file_entries_def)
  have lset: "set (v_Levels v' ! l) = (set (v_Levels v ! l) - ?P) \<union> (if l = ?o then set fs else {})" if "l < NumLevels" for l
    using fs(1) that num [OF live [OF that]] by (auto simp: levels_after_def)
  have fresh: "(set (v_Levels v ! ?o) - ?P) \<inter> set fs = {}"
    using fs(5) inv live [OF o(2)] by (fastforce simp: version_inv_def ranged_def)
  have new: "sum ?c' (set (v_Levels v' ! l)) = sum ?c (set (v_Levels v ! l) - ?P) + (if l = ?o then sum ?c' (set fs) else 0)" if l: "l < NumLevels" for l
  proof -
    have "sum ?c' (set (v_Levels v ! l) - ?P) = sum ?c (set (v_Levels v ! l) - ?P)" using same live [OF l] by (intro sum.cong) auto
    then show ?thesis using lset [OF l] fresh by (simp add: sum.union_disjoint)
  qed
  have disj: "set (v_Levels v ! l) \<inter> set (v_Levels v ! m) = {}" if "l < NumLevels" "m < NumLevels" "l \<noteq> m" for l m
    using inv that unfolding version_inv_def levels_inv_def by blast
  have part: "set (v_Levels v ! l) \<inter> ?P = (if l = cp_level pick then set (cp_inputs pick) else if l = ?o then set (cp_overlaps pick) else {})"
    if l: "l < NumLevels" for l
  proof -
    have i: "set (v_Levels v ! l) \<inter> set (cp_inputs pick) = (if l = cp_level pick then set (cp_inputs pick) else {})"
      using o disj [OF l, of "cp_level pick"] by auto
    have "set (v_Levels v ! l) \<inter> set (cp_overlaps pick) = (if l = ?o then set (cp_overlaps pick) else {})"
      using o(2,6) disj [OF l, of ?o] by auto
    then show ?thesis unfolding set_append Int_Un_distrib i using o(3) by simp
  qed
  have old: "sum ?c (set (v_Levels v ! l)) = sum ?c (set (v_Levels v ! l) - ?P) +
      (if l = cp_level pick then sum ?c (set (cp_inputs pick)) else if l = ?o then sum ?c (set (cp_overlaps pick)) else 0)" if l: "l < NumLevels" for l
    using sum.Int_Diff [of "set (v_Levels v ! l)" ?c ?P] part [OF l] by simp
  define R where "R = (\<Sum>l<NumLevels. (6 - l) * sum ?c (set (v_Levels v ! l) - ?P))"
  have o2: "cp_level pick < NumLevels" "cp_level pick \<noteq> ?o" using o by simp_all
  have "weight F' v' = R + (\<Sum>l<NumLevels. (6 - l) * (if l = ?o then sum ?c' (set fs) else 0))"
    unfolding weight_def R_def sum.distrib [symmetric] by (intro sum.cong) (simp_all add: new distrib_left)
  then have w': "weight F' v' = R + (6 - ?o) * sum ?c' (set fs)" using o(2) by (simp add: if_distrib [of "\<lambda>x. (6 - _) * x"] cong: if_cong)
  have "weight F v = R + (\<Sum>l<NumLevels. (6 - l) * (if l = cp_level pick then sum ?c (set (cp_inputs pick)) else 0)) +
      (\<Sum>l<NumLevels. (6 - l) * (if l = ?o then sum ?c (set (cp_overlaps pick)) else 0))"
    unfolding weight_def R_def sum.distrib [symmetric] using old o2 by (intro sum.cong) (auto simp: distrib_left)
  then have w: "weight F v = R + (6 - cp_level pick) * sum ?c (set (cp_inputs pick)) + (6 - ?o) * sum ?c (set (cp_overlaps pick))"
    using o(2) o2(1) by (simp add: if_distrib [of "\<lambda>x. (6 - _) * x"] cong: if_cong)
  have "sum ?c' (set fs) = card (op_entry ` picked_ops F (picked pick))" using entries_sum [OF fs(2,4)] fs(3) by simp
  also have "\<dots> \<le> card (picked_ops F (picked pick))" by (rule card_image_le) (simp add: picked_ops_def)
  also have "\<dots> \<le> sum ?c (set (cp_inputs pick) \<union> set (cp_overlaps pick))"
    unfolding picked_ops_def file_entries_def set_append by (rule card_UN_le) simp
  also have "\<dots> \<le> sum ?c (set (cp_inputs pick)) + sum ?c (set (cp_overlaps pick))" by (simp add: sum_Un_nat)
  finally have fe: "(6 - ?o) * sum ?c' (set fs) \<le> (6 - ?o) * sum ?c (set (cp_inputs pick)) + (6 - ?o) * sum ?c (set (cp_overlaps pick))"
    by (metis distrib_left mult_le_mono2)
  obtain f where f: "f \<in> set (cp_inputs pick)" using o(4) by fastforce
  then have "ranged F f" using inv pk by (auto simp: version_inv_def)
  then have "0 < sum ?c (set (cp_inputs pick))" using ranged_entries f by (metis List.finite_set sum_pos2 zero_le)
  moreover have "6 - cp_level pick = Suc (6 - ?o)" using o(2,3) by (simp add: NumLevels_def)
  ultimately show ?thesis unfolding w w' using fe by simp
qed

section \<open>A round\<close>

text \<open>What compactions keep, and what they do when no call fails.\<close>

definition compaction_keeps :: "tables \<Rightarrow> (u64 \<rightharpoonup> op list) \<Rightarrow> DB \<Rightarrow> op list list \<Rightarrow> DB \<Rightarrow> os \<Rightarrow> tables \<Rightarrow> (u64 \<rightharpoonup> op list) \<Rightarrow> bool" where
  "compaction_keeps T F db HH db' s' T' F' \<longleftrightarrow> db_rep T' F' db' s' HH \<and> T \<subseteq>\<^sub>m T' \<and> F \<subseteq>\<^sub>m F' \<and> keeps db db' \<and> db_imm db' = db_imm db \<and>
     store_inv F' db' HH \<and> table_ops F' (vs_current (db_versions db')) = table_ops F (vs_current (db_versions db))"

lemma compaction_keeps_refl: "db_rep T F db s HH \<Longrightarrow> store_inv F db HH \<Longrightarrow> compaction_keeps T F db HH db s T F"
  by (simp add: compaction_keeps_def keeps_def)

lemma compaction_keeps_trans:
  "compaction_keeps T F db HH db1 s1 T1 F1 \<Longrightarrow> compaction_keeps T1 F1 db1 HH db2 s2 T2 F2 \<Longrightarrow> compaction_keeps T F db HH db2 s2 T2 F2"
  by (auto simp: compaction_keeps_def keeps_def intro: map_le_trans)

lemma rep_small: "db_rep T F db s HH \<Longrightarrow> mem_size db \<le> 2 ^ 28"
  by (simp add: db_rep_def opts_ok_def mem_size_def nat_le_iff)

lemma evict_files_rep:
  assumes "db_rep T F db s HH"
  shows "db_rep T F (evict_files fs db) s HH"
proof -
  obtain c where c: "evict_files fs db = db\<lparr>db_cache := c\<rparr>" "cache_fits T (db_cache db) \<longrightarrow> cache_fits T c" using evict_files_only by blast
  have "tables_ok T F db s" using assms by (simp add: db_rep_def)
  then have "tables_ok T F (db\<lparr>db_cache := c\<rparr>) s" using c(2) by (simp add: tables_ok_def)
  then show ?thesis unfolding c(1) using assms mems_ok_cong [of db HH "db\<lparr>db_cache := c\<rparr>"] by (intro db_rep_frame [OF assms]) (simp_all add: db_rep_def)
qed

lemma evict_files_fields [simp]:
  "db_versions (evict_files fs db) = db_versions db" "db_imm (evict_files fs db) = db_imm db" "db_mem (evict_files fs db) = db_mem db"
  "db_seqNum (evict_files fs db) = db_seqNum db" "db_opts (evict_files fs db) = db_opts db"
proof -
  obtain c where "evict_files fs db = db\<lparr>db_cache := c\<rparr>" using evict_files_only by blast
  then show "db_versions (evict_files fs db) = db_versions db" "db_imm (evict_files fs db) = db_imm db" "db_mem (evict_files fs db) = db_mem db"
    "db_seqNum (evict_files fs db) = db_seqNum db" "db_opts (evict_files fs db) = db_opts db" by simp_all
qed

lemma compacted_store:
  assumes fine: "ops_fine db HH" and inv: "store_inv F db HH" and pick: "good_pick (vs_current (db_versions db)) pick"
    and c: "compacted F (vs_current (db_versions db)) pick F' (vs_current (db_versions db'))" and le: "F \<subseteq>\<^sub>m F'" and imm: "db_imm db' = db_imm db"
  shows "store_inv F' db' HH" and "table_ops F' (vs_current (db_versions db')) = table_ops F (vs_current (db_versions db))"
proof -
  let ?v = "vs_current (db_versions db)"
  have vi: "version_inv F ?v" and sub: "\<forall>n H. F n = Some H \<longrightarrow> set H \<subseteq> all_ops HH" using inv by (simp_all add: store_inv_def)
  note to = store_tables [OF inv]
  show ops: "table_ops F' (vs_current (db_versions db')) = table_ops F ?v" by (rule compacted_ops [OF vi pick c le entry_inj [OF fine to]])
  obtain fs :: "FileMeta list" and outs where fs: "list_all2 (\<lambda>f es. es \<noteq> [] \<and> fm_SmallestKey f = fst (hd es) \<and> fm_LargestKey f = fst (last es) \<and>
       (\<exists>H. F' (fm_FileNum f) = Some H \<and> holds es H \<and> set H \<subseteq> picked_ops F (picked pick))) fs outs"
      "dom F' = dom F \<union> fm_FileNum ` set fs"
    using c unfolding compacted_def by (elim exE conjE) (rule that)
  have po: "picked_ops F (picked pick) \<subseteq> all_ops HH"
    using good_pick_live [OF pick] to by (fastforce simp: picked_ops_def table_ops_def)
  have "set H \<subseteq> all_ops HH" if n: "F' n = Some H" for n H
  proof (cases "n \<in> dom F")
    case True
    then have "F n = Some H" using le n by (simp add: map_le_def)
    then show ?thesis using sub by blast
  next
    case False
    then obtain f where f: "f \<in> set fs" "n = fm_FileNum f" using fs(2) n by blast
    then show ?thesis using list_all2_member [OF fs(1) f(1)] n po by auto
  qed
  then show "store_inv F' db' HH" using inv imm compacted_inv [OF vi pick c le] by (simp add: store_inv_def)
qed

lemma doCompaction_round_ok:
  assumes rep: "db_rep T F db s HH" and inv: "store_inv F db HH" and nb: "unat (vs_nextFileNum (db_versions db)) + unat (db_seqNum db) < 2 ^ 64"
  shows "\<exists>db' s' ok T' F'. doCompaction_round nilk db s = Some (db', s', ok) \<and> compaction_keeps T F db HH db' s' T' F' \<and>
    unat (vs_nextFileNum (db_versions db')) \<le> unat (vs_nextFileNum (db_versions db)) + unat (db_seqNum db) \<and>
    (ok \<longrightarrow> weight F' (vs_current (db_versions db')) < weight F (vs_current (db_versions db))) \<and>
    (healthy db s \<longrightarrow> healthy db' s' \<and> (\<not> ok \<longrightarrow> pickCompaction nilk (vs_current (db_versions db')) = None))"
proof (cases "pickCompaction nilk (vs_current (db_versions db))")
  case None
  then have "doCompaction_round nilk db s = Some (db, s, False)" by (simp add: doCompaction_round_def)
  then show ?thesis using compaction_keeps_refl [OF rep inv] None
    by (intro exI [of _ db] exI [of _ s] exI [of _ False] exI [of _ T] exI [of _ F]) simp
next
  case (Some pick)
  let ?v = "vs_current (db_versions db)"
  have vi: "version_inv F ?v" and inj: "inj_on op_seq (all_ops HH)" and sub: "\<forall>n H. F n = Some H \<longrightarrow> set H \<subseteq> all_ops HH"
    using inv by (simp_all add: store_inv_def)
  have pick: "good_pick ?v pick" by (rule pick_good [OF vi Some])
  have pk: "\<forall>f\<in>set (picked pick). fm_FileNum f \<in> dom F"
    using good_pick_live [OF pick] vi by (fastforce simp: version_inv_def ranged_def)
  have out: "cp_outputLevel pick < NumLevels" using pick by (simp add: good_pick_def)
  obtain db1 s1 err T' F' where r: "runCompaction pick db s = Some (db1, s1, err)" "db_rep T' F' db1 s1 HH" "T \<subseteq>\<^sub>m T'" "F \<subseteq>\<^sub>m F'" "keeps db db1"
      "db_imm db1 = db_imm db" "unat (vs_nextFileNum (db_versions db1)) \<le> unat (vs_nextFileNum (db_versions db)) + unat (db_seqNum db)"
      "healthy db s \<longrightarrow> err = None \<and> healthy db1 s1"
      "if err = None then compacted F ?v pick F' (vs_current (db_versions db1)) else F' = F \<and> vs_current (db_versions db1) = ?v"
    using runCompaction_ok [OF rep inj sub rep_small [OF rep] pk out nb] unfolding compaction_ends_def by (elim exE conjE) (rule that)
  show ?thesis
  proof (cases err)
    case err: (Some e)
    then have "doCompaction_round nilk db s = Some (db1, s1, False)" using Some r(1) by (simp add: doCompaction_round_def)
    moreover have "compaction_keeps T F db HH db1 s1 T' F'" using r inv err by (simp add: compaction_keeps_def store_inv_def)
    ultimately show ?thesis using r(7,8) err
      by (intro exI [of _ db1] exI [of _ s1] exI [of _ False] exI [of _ T'] exI [of _ F']) simp
  next
    case err: None
    let ?db = "evict_files (cp_overlaps pick) (evict_files (cp_inputs pick) db1)"
    have c: "compacted F ?v pick F' (vs_current (db_versions ?db))" and i: "db_imm ?db = db_imm db" using r(6,9) err by simp_all
    have "doCompaction_round nilk db s = Some (?db, s1, True)" using Some r(1) err by (simp add: doCompaction_round_def)
    moreover have "compaction_keeps T F db HH ?db s1 T' F'"
      using r(3-5) i evict_files_rep [OF evict_files_rep [OF r(2)]] compacted_store [OF ops_fine_rep [OF rep inj] inv pick c r(4) i]
      by (simp add: compaction_keeps_def keeps_def)
    moreover have "healthy db s \<longrightarrow> healthy ?db s1" using r(8) by (simp add: healthy_def)
    ultimately show ?thesis using r(7) compacted_weight [OF vi pick c r(4)]
      by (intro exI [of _ ?db] exI [of _ s1] exI [of _ True] exI [of _ T'] exI [of _ F']) simp
  qed
qed

section \<open>The loop\<close>

lemma doCompaction_ok:
  "db_rep T F db s HH \<Longrightarrow> store_inv F db HH \<Longrightarrow>
    unat (vs_nextFileNum (db_versions db)) + (weight F (vs_current (db_versions db)) + 1) * unat (db_seqNum db) < 2 ^ 64 \<Longrightarrow>
    \<exists>db' s' T' F'. doCompaction nilk db s = Some (db', s') \<and> compaction_keeps T F db HH db' s' T' F' \<and>
      (healthy db s \<longrightarrow> healthy db' s' \<and> pickCompaction nilk (vs_current (db_versions db')) = None)"
proof (induction "weight F (vs_current (db_versions db))" arbitrary: T F db s rule: less_induct)
  case less
  let ?n = "\<lambda>db. unat (vs_nextFileNum (db_versions db))" and ?w = "\<lambda>F db. weight F (vs_current (db_versions db))"
  have nb: "?n db + unat (db_seqNum db) < 2 ^ 64" using less.prems(3) by simp
  obtain db1 s1 ok T1 F1 where r: "doCompaction_round nilk db s = Some (db1, s1, ok)" "compaction_keeps T F db HH db1 s1 T1 F1"
      "?n db1 \<le> ?n db + unat (db_seqNum db)" "ok \<longrightarrow> ?w F1 db1 < ?w F db"
      "healthy db s \<longrightarrow> healthy db1 s1 \<and> (\<not> ok \<longrightarrow> pickCompaction nilk (vs_current (db_versions db1)) = None)"
    using doCompaction_round_ok [OF less.prems(1,2) nb, of nilk] by (elim exE conjE) (rule that)
  show ?case
  proof (cases ok)
    case False
    then have "doCompaction nilk db s = Some (db1, s1)" using r(1) by (subst doCompaction.simps) simp
    then show ?thesis using r(2,5) False by (intro exI [of _ db1] exI [of _ s1] exI [of _ T1] exI [of _ F1]) simp
  next
    case True
    have k: "db_rep T1 F1 db1 s1 HH" "store_inv F1 db1 HH" "db_seqNum db1 = db_seqNum db" using r(2) by (simp_all add: compaction_keeps_def keeps_def)
    have lt: "?w F1 db1 < ?w F db" using r(4) True by simp
    have "(?w F1 db1 + 1) * unat (db_seqNum db) \<le> ?w F db * unat (db_seqNum db)" using lt by (intro mult_le_mono1) simp
    then have "?n db1 + (?w F1 db1 + 1) * unat (db_seqNum db1) < 2 ^ 64" using r(3) less.prems(3) k(3) by (simp add: algebra_simps)
    from less.hyps [OF lt k(1,2) this] obtain db' s' T' F' where i: "doCompaction nilk db1 s1 = Some (db', s')" "compaction_keeps T1 F1 db1 HH db' s' T' F'"
        "healthy db1 s1 \<longrightarrow> healthy db' s' \<and> pickCompaction nilk (vs_current (db_versions db')) = None"
      by (elim exE conjE) (rule that)
    have "doCompaction nilk db s = Some (db', s')" using r(1) True i(1) by (subst doCompaction.simps) simp
    then show ?thesis using compaction_keeps_trans [OF r(2) i(2)] i(3) r(5)
      by (intro exI [of _ db'] exI [of _ s'] exI [of _ T'] exI [of _ F']) simp
  qed
qed

text \<open>The weight is bounded by the number of files.\<close>

lemma weight_bound:
  assumes rep: "db_rep T F db s HH" and inv: "store_inv F db HH"
  shows "weight F (vs_current (db_versions db)) \<le> 6 * (unat (db_seqNum db) * length (concat (v_Levels (vs_current (db_versions db)))))"
proof -
  let ?v = "vs_current (db_versions db)" and ?q = "unat (db_seqNum db)"
  have fine: "ops_fine db HH" using ops_fine_rep [OF rep] inv by (simp add: store_inv_def)
  have fin: "finite (all_ops HH)" by (simp add: all_ops_def)
  have "card (all_ops HH) = card ((\<lambda>x. unat (op_seq x)) ` all_ops HH)"
    using fine by (intro card_image [symmetric]) (simp add: ops_fine_def inj_on_def word_unat_eq_iff)
  also have "\<dots> \<le> card {1..?q}" using fine by (intro card_mono) (auto simp: ops_fine_def word_le_nat_alt Suc_le_eq unat_gt_0)
  finally have ca: "card (all_ops HH) \<le> ?q" by simp
  have fe: "file_entries F f \<le> ?q" if f: "f \<in> live_files ?v" for f
  proof -
    have "set (the (F (fm_FileNum f))) \<subseteq> all_ops HH" using store_tables [OF inv] f by (auto simp: table_ops_def)
    from card_mono [OF fin this] show ?thesis using ca by (simp add: file_entries_def)
  qed
  have len: "length (v_Levels ?v) = NumLevels" using rep by (simp add: db_rep_def)
  have lev: "(6 - l) * sum (file_entries F) (set (v_Levels ?v ! l)) \<le> 6 * (?q * length (v_Levels ?v ! l))" if l: "l < NumLevels" for l
  proof -
    have "sum (file_entries F) (set (v_Levels ?v ! l)) \<le> card (set (v_Levels ?v ! l)) * ?q"
      using sum_bounded_above [of "set (v_Levels ?v ! l)" "file_entries F" ?q] fe l by (auto simp: live_files_def)
    also have "\<dots> \<le> length (v_Levels ?v ! l) * ?q" by (intro mult_le_mono1 card_length)
    finally show ?thesis by (intro mult_le_mono) (simp_all add: mult.commute)
  qed
  have "weight F ?v \<le> (\<Sum>l<NumLevels. 6 * (?q * length (v_Levels ?v ! l)))" unfolding weight_def by (rule sum_mono) (use lev in simp)
  also have "\<dots> = 6 * (?q * length (concat (v_Levels ?v)))"
    by (simp add: sum_distrib_left [symmetric] length_concat sum_list_sum_nth atLeast0LessThan len)
  finally show ?thesis .
qed

end
