(* ===== verification/Lsm_Run.thy ===== *)
theory Lsm_Run
  imports Compaction_Round "HOL-Library.Sublist"
begin

text \<open>
  Runs of a database: writes, lookups, snapshots, flush rounds and compactions in any order, from a new
  directory on. The properties: the tables and memtables hold exactly the versions written; the ranges of
  the files above level 0 are disjoint; a snapshot keeps answering what the database answered when it was
  taken; with at most one table the database is a map; the flush and compaction loops return; and what goes
  wrong with a second table, with keys that are prefixes of one another, and when a flush runs inside
  \<^verbatim>\<open>NewSnapshot\<close>.
\<close>

section \<open>Runs\<close>

definition db_start :: "DB \<Rightarrow> os \<Rightarrow> bool" where
  "db_start db s \<longleftrightarrow> (\<exists>s0 opts. \<not> has_file s0 manifestName \<and> opts_ok (ensureDefaults opts) \<and> lsm_Open s0 opts = Some (s, Inr db))"

inductive db_step :: "DB \<times> os \<Rightarrow> (bytes \<times> bytes option) list \<Rightarrow> DB \<times> os \<Rightarrow> bool" where
  step_write: "db_step (db, s) [x] (db', s)" if "op_fits db x" and "unat (db_seqNum db) + 1 < 2 ^ 48" and "db_write db x r1 r2 = Some (db', err)"
| step_get: "db_step (db, s) [] (db', s')" if "plain_key key" and "db_Get db s key = Some (db', s', r)"
| step_snapshot: "db_step (db, s) [] (db', s)" if "NewSnapshot db = (db', sn)"
| step_flush: "db_step (db, s) [] (db', s')" if "vs_nextFileNum (db_versions db) + 1 \<noteq> 0" and "doFlush_round db s = Some (db', s', ok)"
| step_compact: "db_step (db, s) [] (db', s')" if "unat (vs_nextFileNum (db_versions db)) + unat (db_seqNum db) < 2 ^ 64" and
    "doCompaction_round nilk db s = Some (db', s', ok)"

inductive db_run :: "DB \<times> os \<Rightarrow> (bytes \<times> bytes option) list \<Rightarrow> DB \<times> os \<Rightarrow> bool" where
  run_refl: "db_run x [] x"
| run_step: "db_run x (ws @ ws') z" if "db_run x ws y" and "db_step y ws' z"

text \<open>Every memtable has only grown by operations with higher sequence numbers.\<close>

definition grown :: "u64 \<Rightarrow> op list list \<Rightarrow> op list list \<Rightarrow> bool" where
  "grown q HH HH' \<longleftrightarrow> length HH \<le> length HH' \<and> (\<forall>i<length HH. \<exists>ext. HH' ! i = HH ! i @ ext \<and> (\<forall>x\<in>set ext. q < op_seq x))"

lemma grown_refl [simp]: "grown q HH HH"
  by (simp add: grown_def)

lemma grown_trans:
  assumes "grown q A B" and "grown q' B C" and "q \<le> q'"
  shows "grown q A C"
  unfolding grown_def
proof (intro conjI allI impI)
  show "length A \<le> length C" using assms(1,2) by (simp add: grown_def)
  fix i assume i: "i < length A"
  obtain e1 where e1: "B ! i = A ! i @ e1" "\<forall>x\<in>set e1. q < op_seq x" using assms(1) i by (auto simp: grown_def)
  obtain e2 where e2: "C ! i = B ! i @ e2" "\<forall>x\<in>set e2. q' < op_seq x" using assms(1,2) i unfolding grown_def by (meson less_le_trans)
  have "q < op_seq x" if "x \<in> set (e1 @ e2)" for x
  proof (cases "x \<in> set e1")
    case False
    then have "q' < op_seq x" using that e2(2) by simp
    then show ?thesis by (rule le_less_trans [OF assms(3)])
  qed (use e1(2) in blast)
  then show "\<exists>ext. C ! i = A ! i @ ext \<and> (\<forall>x\<in>set ext. q < op_seq x)"
    using e1(1) e2(1) by (intro exI [of _ "e1 @ e2"]) simp
qed

lemma grown_written:
  assumes "written db HH x db' HH'" and "q < op_seq x"
  shows "grown q HH HH'"
proof -
  have "\<exists>ext. HH[db_mem db := HH ! db_mem db @ [x]] ! i = HH ! i @ ext \<and> (\<forall>y\<in>set ext. q < op_seq y)" if "i < length HH" for i
    using that assms(2) by (cases "i = db_mem db") auto
  then show ?thesis using assms(1) by (auto simp: written_def grown_def nth_append)
qed

lemma visible_grown:
  assumes "grown q HH HH'" and "set is \<subseteq> {..<length HH}"
  shows "visible (hist HH' is) key q = visible (hist HH is) key q"
  using assms(2)
proof (induction "is")
  case (Cons i "is")
  obtain ext where "HH' ! i = HH ! i @ ext" "\<forall>x\<in>set ext. q < op_seq x" using assms(1) Cons.prems by (auto simp: grown_def)
  then have "visible (HH' ! i) key q = visible (HH ! i) key q" by (simp add: visible_later)
  then show ?case using Cons by (simp add: hist_def visible_append split: option.split)
qed (simp add: hist_def)

section \<open>Every step keeps the histories\<close>

lemma snapshot_parts:
  assumes "NewSnapshot db = (db', sn)"
  shows "db' = fst (grab_mems db)" and "sn_seqNum sn = db_seqNum db" and "sn_v sn = vs_current (db_versions db)"
    and "sn_mem sn = db_mem db" and "sn_imm sn = db_imm db" and "\<not> sn_closed sn"
  using assms by (auto simp: NewSnapshot_def snapshot_mems_def snapshot_version_def grab_mems_def Let_def)

lemma db_rep_grab: "db_rep T F db s HH \<Longrightarrow> db_rep T F (fst (grab_mems db)) s HH"
  by (rule db_rep_frame, assumption, rule grabbed, auto simp: db_rep_def grab_mems_def intro!: tables_ok_cong [of T F db s])

text \<open>The operations a step writes, as they stand in the histories.\<close>

definition as_ops :: "op list \<Rightarrow> (bytes \<times> bytes option) list \<Rightarrow> bool" where
  "as_ops xs ws \<longleftrightarrow> map (\<lambda>x. (fst x, snd (snd x))) xs = ws"

definition steps_to :: "(u64 \<rightharpoonup> op list) \<Rightarrow> DB \<Rightarrow> op list list \<Rightarrow> (bytes \<times> bytes option) list \<Rightarrow> (u64 \<rightharpoonup> op list) \<Rightarrow> DB \<Rightarrow> op list list \<Rightarrow> bool" where
  "steps_to F db HH ws F' db' HH' \<longleftrightarrow> F \<subseteq>\<^sub>m F' \<and> grown (db_seqNum db) HH HH' \<and> db_seqNum db \<le> db_seqNum db' \<and>
     ((\<exists>xs. as_ops xs ws \<and> sorted_wrt (<) (map op_seq xs) \<and> (\<forall>x\<in>set xs. db_seqNum db < op_seq x \<and> op_seq x \<le> db_seqNum db') \<and> F' = F \<and> vs_current (db_versions db') = vs_current (db_versions db) \<and>
         hist HH' (live_mems db') = hist HH (live_mems db) @ xs) \<or>
      ws = [] \<and> HH' = HH \<and> keeps db db' \<and> flush_moves F db HH F' db' True \<or>
      ws = [] \<and> HH' = HH \<and> keeps db db' \<and> db_imm db' = db_imm db \<and> table_ops F' (vs_current (db_versions db')) = table_ops F (vs_current (db_versions db)))"

lemma all_ops_written:
  assumes "written db HH x db' HH'" and "db_mem db < length HH"
  shows "all_ops HH' = insert x (all_ops HH)"
proof -
  have "all_ops (HH[i := HH ! i @ [x]]) = insert x (all_ops HH)" if "i < length HH" for i
  proof -
    have "set (HH[i := HH ! i @ [x]]) = insert (HH ! i @ [x]) (set (take i HH) \<union> set (drop (Suc i) HH))" using that by (simp add: upd_conv_take_nth_drop)
    moreover have "set HH = insert (HH ! i) (set (take i HH) \<union> set (drop (Suc i) HH))" using that by (subst id_take_nth_drop [of i]) auto
    ultimately show ?thesis by (auto simp: all_ops_def)
  qed
  then show ?thesis using assms by (auto simp: written_def all_ops_def)
qed

lemma store_inv_written:
  assumes rep: "db_rep T F db s HH" and inv: "store_inv F db HH" and w: "written db HH x db' HH'" and new: "db_seqNum db < op_seq x"
    and fits: "room [x] \<le> mem_size db" and v: "vs_current (db_versions db') = vs_current (db_versions db)"
  shows "store_inv F db' HH'"
proof -
  have r: "db_mem db < length HH" "set (db_imm db) \<subseteq> {..<length HH}" "db_mem db \<notin> set (db_imm db)" "\<forall>H\<in>set HH. \<forall>y\<in>set H. op_seq y \<le> db_seqNum db"
    using rep by (auto simp: db_rep_def mems_ok_def)
  note ao = all_ops_written [OF w r(1)]
  have "op_seq x \<noteq> op_seq y" if y: "y \<in> all_ops HH" for y
  proof -
    obtain H where "H \<in> set HH" "y \<in> set H" using y by (auto simp: all_ops_def)
    then have "op_seq y \<le> db_seqNum db" using r(4) by blast
    then show ?thesis using new by auto
  qed
  then have nx: "op_seq x \<notin> op_seq ` (all_ops HH - {x})" by (intro notI, elim imageE DiffE) blast
  have "inj_on op_seq (all_ops HH)" using inv by (simp add: store_inv_def)
  then have "inj_on op_seq (all_ops HH')" unfolding ao inj_on_insert using nx by (rule conjI)
  moreover have "HH' ! i \<noteq> []" if i: "i \<in> set (db_imm db')" for i
    using w
  proof (unfold written_def, elim disjE conjE)
    assume "db_imm db' = db_imm db" "HH' = HH[db_mem db := HH ! db_mem db @ [x]]"
    then show ?thesis using i inv r by (auto simp: store_inv_def nth_list_update)
  next
    assume a: "mem_size db < room (HH ! db_mem db @ [x])" "db_imm db' = live_mems db" "HH' = HH @ [[x]]"
    have "HH ! db_mem db \<noteq> []" using a(1) fits by auto
    then show ?thesis using i inv r a(2,3) by (auto simp: store_inv_def nth_append)
  qed
  moreover have "F n = Some H \<Longrightarrow> set H \<subseteq> all_ops HH'" for n H using inv by (auto simp only: store_inv_def ao)
  ultimately show ?thesis using inv v unfolding store_inv_def by simp
qed

lemma store_inv_cong: "store_inv F db HH \<Longrightarrow> vs_current (db_versions db') = vs_current (db_versions db) \<Longrightarrow> db_imm db' = db_imm db \<Longrightarrow> store_inv F db' HH"
  by (simp add: store_inv_def)

lemma store_inv_flush:
  assumes inv: "store_inv F db HH" and m: "flush_moves F db HH F' db' True" and ix: "set (db_imm db) \<subseteq> {..<length HH}"
  shows "store_inv F' db' HH" and "\<exists>i rest. db_imm db = i # rest \<and> db_imm db' = rest \<and>
    table_ops F' (vs_current (db_versions db')) = table_ops F (vs_current (db_versions db)) \<union> set (HH ! i)"
proof -
  obtain i rest n f es where fm: "db_imm db = i # rest" "db_imm db' = rest" "n \<notin> dom F" "F' = F(n \<mapsto> HH ! i)" "fm_FileNum f = n"
      "level0_grows (vs_current (db_versions db)) f (vs_current (db_versions db'))" "holds es (HH ! i)"
      "es \<noteq> [] \<longrightarrow> fm_SmallestKey f = fst (hd es) \<and> fm_LargestKey f = fst (last es)"
    using m unfolding flush_moves_def if_True by (elim exE conjE) (rule that)
  have "HH ! i \<noteq> []" using inv fm(1) by (simp add: store_inv_def)
  then have ne: "es \<noteq> []" using fm(7) by (auto simp: holds_def)
  have vi: "version_inv F (vs_current (db_versions db))" using inv by (simp add: store_inv_def)
  note fl = flush_inv [OF vi fm(6,5,3,7) ne conjunct1 [OF mp [OF fm(8) ne]] conjunct2 [OF mp [OF fm(8) ne]], folded fm(4)]
  have "HH ! i \<in> set HH" using ix fm(1) by simp
  then have "set (HH ! i) \<subseteq> all_ops HH" by (auto simp: all_ops_def)
  then show "store_inv F' db' HH" using inv fl(1) fm(1,2,4) by (auto simp: store_inv_def)
  show "\<exists>i rest. db_imm db = i # rest \<and> db_imm db' = rest \<and>
    table_ops F' (vs_current (db_versions db')) = table_ops F (vs_current (db_versions db)) \<union> set (HH ! i)" using fl(2) fm(1,2) by blast
qed

lemma db_step_ok:
  assumes "db_step (db, s) ws (db', s')" and rep: "db_rep T F db s HH" and inv: "store_inv F db HH"
  shows "\<exists>T' F' HH'. db_rep T' F' db' s' HH' \<and> store_inv F' db' HH' \<and> steps_to F db HH ws F' db' HH'"
  using assms(1)
proof cases
  case (step_write x r1 r2 err)
  obtain key ov where x: "x = (key, ov)" by (cases x)
  let ?x = "(key, db_seqNum db + 1, ov)"
  obtain db1 HH' where w: "db_write db (key, ov) r1 r2 = Some (db1, None)" "db_rep T F db1 s HH'" "written db HH ?x db1 HH'"
      "db_seqNum db1 = db_seqNum db + 1" "vs_current (db_versions db1) = vs_current (db_versions db)"
    using db_write_ok [OF rep step_write(3) [unfolded x] step_write(4), of r1 r2] by (elim exE conjE) (rule that)
  have e: "db' = db1" using w(1) step_write x by simp
  have q: "db_seqNum db < db_seqNum db + 1" using step_write(4) unat_add_lem [of "db_seqNum db" 1, THEN iffD1] by (simp add: word_less_nat_alt)
  have d: "distinct (live_mems db)" "set (live_mems db) \<subseteq> {..<length HH}" using rep by (simp_all add: db_rep_def mems_ok_def)
  have "room [?x] \<le> mem_size db" using step_write(3) x op_size_seq [of key "db_seqNum db + 1" ov] by (simp add: op_fits_def room_def)
  then have "store_inv F db1 HH'" using q w(5) by (intro store_inv_written [OF rep inv w(3)]) simp_all
  moreover have "steps_to F db HH ws F db1 HH'"
    unfolding steps_to_def using w(4,5) q grown_written [OF w(3), of "db_seqNum db"] hist_written [OF w(3) d] step_write(1) x
    by (auto simp: as_ops_def intro!: exI [of _ "[?x]"])
  ultimately show ?thesis using w(2) e step_write(2) by blast
next
  case (step_get key r)
  obtain db1 s1 r1 where g: "db_Get db s key = Some (db1, s1, r1)" "db_rep T F db1 s1 HH" "lookup_frame (db, s) (db1, s1)"
    using db_Get_ok [OF rep step_get(2)] by blast
  have "steps_to F db HH [] F db' HH" unfolding steps_to_def
    using lookup_frameD [OF g(3)] g(1) step_get(3) by (auto simp: as_ops_def intro!: exI [of _ "[]"])
  moreover have "store_inv F db1 HH" by (rule store_inv_cong [OF inv]) (simp_all add: lookup_frameD [OF g(3)])
  ultimately show ?thesis using g(1,2) step_get by auto
next
  case (step_snapshot sn)
  have "db' = fst (grab_mems db)" using snapshot_parts(1) [OF step_snapshot(3)] .
  moreover from this have "steps_to F db HH [] F db' HH" unfolding steps_to_def
    by (auto simp: as_ops_def grab_mems_def intro!: exI [of _ "[]"])
  moreover have "store_inv F (fst (grab_mems db)) HH" by (rule store_inv_cong [OF inv]) (simp_all add: grab_mems_def)
  ultimately show ?thesis using db_rep_grab [OF rep] step_snapshot by auto
next
  case (step_flush ok)
  obtain db1 s1 b T' F' where r: "doFlush_round db s = Some (db1, s1, b)" "db_rep T' F' db1 s1 HH" "F \<subseteq>\<^sub>m F'" "keeps db db1" "flush_moves F db HH F' db1 b"
    using doFlush_round_ok [OF rep step_flush(2)] by (elim exE conjE) (rule that)
  have ix: "set (db_imm db) \<subseteq> {..<length HH}" using rep by (simp add: db_rep_def mems_ok_def)
  have "store_inv F' db1 HH"
    using r(5) store_inv_flush(1) [OF inv _ ix] store_inv_cong [OF inv, of db1] by (cases b) (auto simp: flush_moves_def)
  moreover have "steps_to F db HH [] F' db1 HH"
    using r(3-5) by (cases b) (auto simp: steps_to_def keeps_def flush_moves_def as_ops_def intro!: exI [of _ "[]"])
  ultimately show ?thesis using r(1,2) step_flush by auto
next
  case (step_compact nilk ok)
  obtain db1 s1 b T' F' where r: "doCompaction_round nilk db s = Some (db1, s1, b)" "compaction_keeps T F db HH db1 s1 T' F'"
    using doCompaction_round_ok [OF rep inv step_compact(2), of nilk] by (elim exE conjE) (rule that)
  have "steps_to F db HH [] F' db1 HH" using r(2) unfolding steps_to_def by (auto simp: compaction_keeps_def keeps_def)
  then show ?thesis using r step_compact by (auto simp: compaction_keeps_def)
qed

section \<open>Opening and running\<close>

lemma open_ok:
  assumes "db_start db s"
  shows "db_rep Map.empty Map.empty db s [[]] \<and> db_imm db = [] \<and> db_mem db = 0 \<and> vs_current (db_versions db) = newVersion \<and> db_seqNum db = 0 \<and>
    vs_nextFileNum (db_versions db) = 1"
proof -
  obtain s0 opts0 where o: "\<not> has_file s0 manifestName" "opts_ok (ensureDefaults opts0)" "lsm_Open s0 opts0 = Some (s, Inr db)"
    using assms by (auto simp: db_start_def)
  let ?o = "ensureDefaults opts0"
  obtain s1 where c: "os_call s0 = (s1, None)" using o(3) by (auto simp: lsm_Open_def Let_def split: prod.splits option.splits)
  have nf: "\<not> has_file s1 manifestName" using o(1) os_call_same [OF c] by (simp add: has_file_def)
  obtain vs where vs: "vs_recover newVersionSet s1 = Some (vs, s, None)"
    using o(3) c by (auto simp: lsm_Open_def Let_def split: prod.splits option.splits)
  have n: "100 \<le> nat (o_MemtableSize ?o)" "nat (o_MemtableSize ?o) < 2 ^ 32" using o(2) by (auto simp: opts_ok_def le_nat_iff nat_less_iff)
  obtain m where m: "mt_New (nat (o_MemtableSize ?o)) = Some m" "mt_rep m []" "mt_open m"
      "length (arena_buf (skl_arena (mt_skl m))) = nat (o_MemtableSize ?o)" "unat (arena_n (skl_arena (mt_skl m))) = 100"
    using mt_New_ok [OF n] by blast
  have db: "db = \<lparr>db_opts = ?o, db_versions = vs, db_cache = Some (NewBlockCache (o_BlockCacheSize ?o)), db_heap = [m], db_mem = 0, db_imm = [],
      db_seqNum = vs_lastSeqNum vs, db_tableCache = Some Map.empty, db_flushCh = False, db_compactCh = False, db_closed = False\<rparr>"
    using o(3) c vs m(1) by (simp add: lsm_Open_def Let_def)
  have v: "vs_current vs = newVersion" "vs_lastSeqNum vs = 0" "vs_nextFileNum vs = 1" "\<forall>h. vs_manifestFile vs = Some h \<longrightarrow> fd_name h = manifestName"
  proof -
    obtain s2 e2 where c2: "os_call s1 = (s2, e2)" by fastforce
    have nf2: "\<not> has_file s2 manifestName" using nf os_call_same [OF c2] by (simp add: has_file_def)
    have e2: "e2 = None" using vs c2 by (cases e2) (simp_all add: vs_recover_def)
    obtain s3 e3 where c3: "os_call s2 = (s3, e3)" by fastforce
    have "createManifest newVersionSet s2 = (vs, s, None)" using vs nf2 c2 e2 by (simp add: vs_recover_def)
    then have "vs = newVersionSet\<lparr>vs_manifestFile := Some \<lparr>fd_name = manifestName, fd_pos = 0, fd_open = True\<rparr>\<rparr>"
      using c3 by (cases e3) (simp_all add: createManifest_def)
    then show "vs_current vs = newVersion" "vs_lastSeqNum vs = 0" "vs_nextFileNum vs = 1" "\<forall>h. vs_manifestFile vs = Some h \<longrightarrow> fd_name h = manifestName"
      by (simp_all add: newVersionSet_def)
  qed
  have "active_ok (nat (o_MemtableSize ?o)) m []" using m n by (simp add: active_ok_def mem_ok_def history_defs room_def)
  then have "mems_ok db [[]]" by (simp add: db mems_ok_def mem_size_def memtable_def active_ok_def)
  moreover have "tables_ok Map.empty Map.empty db s" by (simp add: db tables_ok_def new_cache_fits)
  moreover have "live_files newVersion = {}" by (rule live_files_new)
  moreover have "length (v_Levels newVersion) = NumLevels" by (simp add: newVersion_def)
  ultimately have "db_rep Map.empty Map.empty db s [[]]" using v o(2) unfolding db_rep_def by (simp add: db)
  then show ?thesis using v by (simp add: db)
qed

definition range_of :: "FileMeta \<Rightarrow> op list \<Rightarrow> bool" where
  "range_of f H \<longleftrightarrow> (\<exists>es. holds es H \<and> (es \<noteq> [] \<longrightarrow> fm_SmallestKey f = fst (hd es) \<and> fm_LargestKey f = fst (last es)))"

text \<open>The history of all operations: that of the tables before those of the memtables.\<close>

definition total_inv :: "(u64 \<rightharpoonup> op list) \<Rightarrow> DB \<Rightarrow> op list list \<Rightarrow> (bytes \<times> bytes option) list \<Rightarrow> op list \<Rightarrow> bool" where
  "total_inv F db HH ws Hv \<longleftrightarrow> as_ops (Hv @ hist HH (live_mems db)) ws \<and> (\<forall>x\<in>set (Hv @ hist HH (live_mems db)). op_seq x \<le> db_seqNum db) \<and>
     sorted_wrt (<) (map op_seq (Hv @ hist HH (live_mems db))) \<and> table_ops F (vs_current (db_versions db)) = set Hv"

lemma sorted_seqs_append:
  assumes "sorted_wrt (<) (map op_seq A)" and "sorted_wrt (<) (map op_seq B)" and "\<forall>x\<in>set A. op_seq x \<le> q" and "\<forall>x\<in>set B. q < op_seq x"
  shows "sorted_wrt (<) (map op_seq (A @ B))"
  using assms by (auto simp: sorted_wrt_append intro: le_less_trans)

lemma total_step:
  assumes rep: "db_rep T F db s HH" and inv: "store_inv F db HH" and tot: "total_inv F db HH ws Hv" and st: "steps_to F db HH ws' F' db' HH'"
  shows "\<exists>Hv'. total_inv F' db' HH' (ws @ ws') Hv'"
proof -
  let ?v = "vs_current (db_versions db)" and ?v' = "vs_current (db_versions db')" and ?all = "Hv @ hist HH (live_mems db)"
  have ops: "as_ops ?all ws" "\<forall>x\<in>set ?all. op_seq x \<le> db_seqNum db" "sorted_wrt (<) (map op_seq ?all)" "table_ops F ?v = set Hv"
    using tot by (simp_all add: total_inv_def)
  have mono: "db_seqNum db \<le> db_seqNum db'" using st by (simp add: steps_to_def)
  then have le: "\<forall>x\<in>set ?all. op_seq x \<le> db_seqNum db'" using ops(2) order_trans by blast
  from st consider (wrote) xs where "as_ops xs ws'" "sorted_wrt (<) (map op_seq xs)" "\<forall>x\<in>set xs. db_seqNum db < op_seq x \<and> op_seq x \<le> db_seqNum db'"
      "F' = F" "?v' = ?v" "hist HH' (live_mems db') = hist HH (live_mems db) @ xs"
    | (flush) "ws' = []" "HH' = HH" "keeps db db'" "flush_moves F db HH F' db' True"
    | (compact) "ws' = []" "HH' = HH" "keeps db db'" "db_imm db' = db_imm db" "table_ops F' ?v' = table_ops F ?v" unfolding steps_to_def by blast
  then show ?thesis
  proof cases
    case wrote
    have "as_ops (?all @ xs) (ws @ ws')" using ops(1) wrote(1) by (simp add: as_ops_def)
    moreover have "sorted_wrt (<) (map op_seq (?all @ xs))" by (rule sorted_seqs_append [OF ops(3) wrote(2) ops(2)]) (use wrote(3) in blast)
    moreover have "\<forall>x\<in>set (?all @ xs). op_seq x \<le> db_seqNum db'" using le wrote(3) by auto
    ultimately have "total_inv F' db' HH' (ws @ ws') Hv" using ops(4) wrote(4-6) unfolding total_inv_def by simp
    then show ?thesis by blast
  next
    case flush
    have ix: "set (db_imm db) \<subseteq> {..<length HH}" using rep by (simp add: db_rep_def mems_ok_def)
    obtain i rest where fm: "db_imm db = i # rest" "db_imm db' = rest" "table_ops F' ?v' = table_ops F ?v \<union> set (HH ! i)"
      using store_inv_flush(2) [OF inv flush(4) ix] by blast
    have h: "?all = (Hv @ HH ! i) @ hist HH' (live_mems db')" using flush(2,3) fm(1,2) by (simp add: hist_def keeps_def)
    have "total_inv F' db' HH' (ws @ ws') (Hv @ HH ! i)"
      unfolding total_inv_def using ops(1,3) le unfolding h by (simp add: flush(1) fm(3) ops(4))
    then show ?thesis by blast
  next
    case compact
    then have "total_inv F' db' HH' (ws @ ws') Hv" using ops le by (simp add: total_inv_def keeps_def)
    then show ?thesis by blast
  qed
qed

definition run_inv :: "(u64 \<rightharpoonup> op list) \<Rightarrow> DB \<times> os \<Rightarrow> op list list \<Rightarrow> (bytes \<times> bytes option) list \<Rightarrow> bool" where
  "run_inv F x HH ws \<longleftrightarrow> (\<exists>T. db_rep T F (fst x) (snd x) HH) \<and> store_inv F (fst x) HH \<and> (\<exists>Hv. total_inv F (fst x) HH ws Hv)"

lemma start_inv: "db_start db s \<Longrightarrow> run_inv Map.empty (db, s) [[]] []"
proof -
  assume "db_start db s"
  note o = open_ok [OF this]
  have lf: "live_files newVersion = {}" by (rule live_files_new)
  have "levels_inv (v_Levels newVersion)" by (simp add: levels_inv_def newVersion_def)
  then have "version_inv Map.empty newVersion" using lf by (simp add: version_inv_def newVersion_def)
  then have "store_inv Map.empty db [[]]" using o by (simp add: store_inv_def all_ops_def)
  moreover have "total_inv Map.empty db [[]] [] []" using o lf by (simp add: total_inv_def as_ops_def hist_def table_ops_def)
  ultimately show ?thesis using o by (auto simp: run_inv_def)
qed

lemma db_run_ok: "db_run x ws y \<Longrightarrow> db_start (fst x) (snd x) \<Longrightarrow> \<exists>F HH. run_inv F y HH ws"
proof (induction rule: db_run.induct)
  case (run_refl x)
  then show ?case using start_inv [of "fst x" "snd x"] by auto
next
  case (run_step x ws y ws' z)
  obtain T F HH Hv where r: "db_rep T F (fst y) (snd y) HH" "store_inv F (fst y) HH" "total_inv F (fst y) HH ws Hv"
    using run_step by (auto simp: run_inv_def)
  have st: "db_step (fst y, snd y) ws' (fst z, snd z)" using run_step(2) by simp
  obtain T' F' HH' where r': "db_rep T' F' (fst z) (snd z) HH'" "store_inv F' (fst z) HH'" "steps_to F (fst y) HH ws' F' (fst z) HH'"
    using db_step_ok [OF st r(1,2)] by blast
  from total_step [OF r r'(3)] r'(1,2) show ?case by (auto simp: run_inv_def)
qed

lemma db_run_grown:
  "db_run x ws y \<Longrightarrow> db_rep T F (fst x) (snd x) HH \<Longrightarrow> store_inv F (fst x) HH \<Longrightarrow>
    \<exists>T' F' HH'. db_rep T' F' (fst y) (snd y) HH' \<and> store_inv F' (fst y) HH' \<and> F \<subseteq>\<^sub>m F' \<and> grown (db_seqNum (fst x)) HH HH' \<and>
      db_seqNum (fst x) \<le> db_seqNum (fst y)"
proof (induction rule: db_run.induct)
  case (run_refl x)
  then show ?case by (intro exI [of _ T] exI [of _ F] exI [of _ HH]) simp
next
  case (run_step x ws y ws' z)
  obtain T1 F1 HH1 where r: "db_rep T1 F1 (fst y) (snd y) HH1" "store_inv F1 (fst y) HH1" "F \<subseteq>\<^sub>m F1" "grown (db_seqNum (fst x)) HH HH1"
      "db_seqNum (fst x) \<le> db_seqNum (fst y)" using run_step by blast
  have st: "db_step (fst y, snd y) ws' (fst z, snd z)" using run_step(2) by simp
  obtain T2 F2 HH2 where r2: "db_rep T2 F2 (fst z) (snd z) HH2" "store_inv F2 (fst z) HH2" "steps_to F1 (fst y) HH1 ws' F2 (fst z) HH2"
    using db_step_ok [OF st r(1,2)] by blast
  have "F1 \<subseteq>\<^sub>m F2" "grown (db_seqNum (fst y)) HH1 HH2" "db_seqNum (fst y) \<le> db_seqNum (fst z)" using r2(3) by (simp_all add: steps_to_def)
  then show ?case using r2(1,2) map_le_trans [OF r(3)] grown_trans [OF r(4) _ r(5)] order_trans [OF r(5)] by blast
qed

section \<open>Snapshots\<close>

lemma level_file_member: "level_file fs key = Some f \<Longrightarrow> f \<in> set fs"
  by (auto simp: level_file_def Let_def split: if_splits)

lemma first_some_member: "first_some g xs = Some y \<Longrightarrow> \<exists>x\<in>set xs. g x = Some y"
  by (induction xs) (auto split: option.splits)

lemma deciding_live: "deciding_file v key = Some f \<Longrightarrow> f \<in> live_files v"
proof -
  assume d: "deciding_file v key = Some f"
  show ?thesis
  proof (cases "find (\<lambda>f. covers f key) (rev (v_Levels v ! 0))")
    case (Some f')
    then have "f' = f" using d by (simp add: deciding_file_def)
    then have "f \<in> set (v_Levels v ! 0)" using Some by (auto simp: find_Some_iff rev_nth)
    then show ?thesis by (auto simp: live_files_def NumLevels_def)
  next
    case None
    then obtain l where "l \<in> set [1..<NumLevels]" "level_file (v_Levels v ! l) key = Some f"
      using d first_some_member [of "\<lambda>l. level_file (v_Levels v ! l) key" "[1..<NumLevels]" f] by (auto simp: deciding_file_def)
    then show ?thesis using level_file_member by (auto simp: live_files_def)
  qed
qed

lemma db_answer_mono:
  assumes "F \<subseteq>\<^sub>m F'" and "\<forall>f\<in>live_files v. fm_FileNum f \<in> dom F" and "visible H' key seq = visible H key seq"
  shows "db_answer F' v H' key seq = db_answer F v H key seq"
proof -
  have "F' (fm_FileNum f) = F (fm_FileNum f)" if "deciding_file v key = Some f" for f
    using assms(1,2) deciding_live [OF that] by (auto simp: map_le_def)
  then show ?thesis unfolding db_answer_def using assms(3) by (auto split: option.split)
qed

lemma Snapshot_Get_ok:
  assumes rep: "db_rep T F db s HH" and inv: "store_inv F db HH" and sn: "NewSnapshot db = (db1, sn)" and run: "db_run (db1, s) ws (db2, s2)"
    and key: "plain_key key"
  shows "\<exists>db' s' r. Snapshot_Get sn db2 s2 key = Some (db', s', r) \<and>
    (r = db_answer F (vs_current (db_versions db)) (hist HH (live_mems db)) key (db_seqNum db) \<or> open_failed s2 r)"
proof -
  note p = snapshot_parts [OF sn]
  let ?v = "vs_current (db_versions db)" and ?q = "db_seqNum db"
  have q1: "db_seqNum db1 = ?q" by (simp add: p(1) grab_mems_def)
  have "db_rep T F db1 s HH" using db_rep_grab [OF rep] p(1) by simp
  moreover have "store_inv F db1 HH" by (rule store_inv_cong [OF inv]) (simp_all add: p(1) grab_mems_def)
  ultimately obtain T2 F2 HH2 where r: "db_rep T2 F2 db2 s2 HH2" "F \<subseteq>\<^sub>m F2" "grown ?q HH HH2"
    using db_run_grown [OF run, of T F HH] q1 by auto
  have ix: "set (db_mem db # db_imm db) \<subseteq> {..<length HH}" using rep mems_okD(2) by (simp add: db_rep_def)
  have ix2: "set (db_mem db # db_imm db) \<subseteq> {..<length HH2}" using ix r(3) by (auto simp: grown_def)
  have v: "length (v_Levels ?v) = NumLevels" "\<forall>f\<in>live_files ?v. fm_FileNum f \<in> dom F" "unat ?q < 2 ^ 48" using rep by (simp_all add: db_rep_def)
  have v2: "\<forall>f\<in>live_files ?v. fm_FileNum f \<in> dom F2" using v(2) map_le_implies_dom_le [OF r(2)] by blast
  have t2: "tables_ok T2 F2 db2 s2" "list_all2 (mem_ok (mem_size db2)) (db_heap db2) HH2" using r(1) mems_okD(1) by (simp_all add: db_rep_def)
  obtain db' s' x where x: "(case search_mems db2 (db_mem db) (db_imm db) key ?q of None \<Rightarrow> None | Some (Some a) \<Rightarrow> Some (db2, s2, a)
      | Some None \<Rightarrow> getFromVersion db2 s2 ?v key ?q) = Some (db', s', x)"
      "x = db_answer F2 ?v (hist HH2 (db_imm db @ [db_mem db])) key ?q \<or> open_failed s2 x"
    using lookup_ok [OF t2(1) v(1) v2 t2(2) ix2 key v(3)] by (elim exE conjE) (rule that)
  have "visible (hist HH2 (live_mems db)) key ?q = visible (hist HH (live_mems db)) key ?q" by (rule visible_grown [OF r(3)]) (use ix in auto)
  note e = db_answer_mono [OF r(2) v(2) this]
  have "Snapshot_Get sn db2 s2 key = Some (db', s', x)" unfolding Snapshot_Get_def p(2-5) if_not_P [OF p(6)] by (rule x(1))
  with x(2) e show ?thesis by (intro exI [of _ db'] exI [of _ s'] exI [of _ x]) simp
qed

text \<open>C9: A snapshot is isolated. In runs whose writes fit an empty memtable, for written and looked-up keys
  without the byte \<open>0xff\<close>: whatever writes, rotations, lookups, flushes and compactions follow, and whatever
  system calls fail on the way, a lookup in the snapshot gives the answer that the database gave when the
  snapshot was taken. On either side a table that a failing call keeps from being opened is reported
  instead.\<close>

theorem snapshot_isolation:
  assumes "db_start db0 s0" and "db_run (db0, s0) ws (db, s)" and "NewSnapshot db = (db1, sn)" and "db_run (db1, s) ws' (db2, s2)"
    and "plain_key key"
  shows "\<exists>a db3 s3 r3 db4 s4 r4. db_Get db s key = Some (db3, s3, r3) \<and> (r3 = a \<or> open_failed s r3) \<and>
    Snapshot_Get sn db2 s2 key = Some (db4, s4, r4) \<and> (r4 = a \<or> open_failed s2 r4)"
proof -
  obtain T F HH where rep: "db_rep T F db s HH" "store_inv F db HH" using db_run_ok [OF assms(2)] assms(1) by (auto simp: run_inv_def)
  from db_Get_ok [OF rep(1) assms(5)] Snapshot_Get_ok [OF rep assms(3-5)] show ?thesis by blast
qed

section \<open>A map\<close>

text \<open>What a map that takes the writes in order answers.\<close>

definition map_answer :: "(bytes \<times> bytes option) list \<Rightarrow> bytes \<Rightarrow> lsm_error + bytes" where
  "map_answer ws key = (case map_of (rev ws) key of Some (Some v) \<Rightarrow> Inr v | _ \<Rightarrow> Inl ErrKeyNotFound)"

lemma answer_map:
  "as_ops xs ws \<Longrightarrow> \<forall>x\<in>set xs. op_seq x \<le> q \<Longrightarrow> answer (visible xs key q) = map_answer ws key"
proof (induction xs arbitrary: ws rule: rev_induct)
  case Nil
  then show ?case by (simp add: as_ops_def visible_def answer_def map_answer_def)
next
  case (snoc x xs)
  have ws: "ws = map (\<lambda>x. (fst x, snd (snd x))) xs @ [(fst x, snd (snd x))]" using snoc.prems(1) by (simp add: as_ops_def)
  have "visible [x] key q = (if fst x = key then Some x else None)" using snoc.prems(2) by (simp add: visible_def)
  then show ?case using snoc.IH [of "map (\<lambda>x. (fst x, snd (snd x))) xs"] snoc.prems(2)
    by (cases x) (auto simp: ws visible_append as_ops_def map_answer_def answer_def split: option.split)
qed

definition prefix_free :: "bytes set \<Rightarrow> bool" where
  "prefix_free K \<longleftrightarrow> (\<forall>a\<in>K. \<forall>b\<in>K. \<not> strict_prefix a b)"

lemma ikey_le_user:
  assumes "MakeInternalKey u s k \<le> MakeInternalKey u' s' k'" and "\<not> strict_prefix u u'" and "\<not> strict_prefix u' u"
  shows "u \<le> u'"
proof (cases "u = u'")
  case False
  then have "u \<parallel> u'" using assms(2,3) by (auto simp: strict_prefix_def)
  then obtain p a x b y where d: "a \<noteq> b" "u = p @ a # x" "u' = p @ b # y" using parallel_decomp by blast
  have "\<not> u' < u"
  proof
    assume "u' < u"
    then have "b < a" using d by (auto simp: append_less_same)
    then have "MakeInternalKey u' s' k' < MakeInternalKey u s k" using d by (simp add: MakeInternalKey_trailer append_less_same)
    then show False using assms(1) by simp
  qed
  then show ?thesis by simp
qed simp

lemma sorted_keys_hd: "sorted_keys es \<Longrightarrow> e \<in> set es \<Longrightarrow> fst (hd es) \<le> fst e"
  by (cases es) (auto dest: less_imp_le)

lemma sorted_keys_last: "sorted_keys es \<Longrightarrow> e \<in> set es \<Longrightarrow> fst e \<le> fst (last es)"
proof (induction es)
  case (Cons d es)
  show ?case
  proof (cases "es = []")
    case False
    then have "fst d < fst (last es)" using Cons.prems(1) by simp
    then show ?thesis using Cons False by (auto dest: less_imp_le)
  qed (use Cons.prems(2) in simp)
qed simp

lemma range_covers:
  assumes "range_of f H" and "x \<in> set H" and "prefix_free (insert (fst x) (fst ` set H))"
  shows "covers f (fst x)"
proof -
  obtain es where es: "holds es H" "es \<noteq> [] \<longrightarrow> fm_SmallestKey f = fst (hd es) \<and> fm_LargestKey f = fst (last es)"
    using assms(1) by (auto simp: range_of_def)
  have H: "history_ok H" "set es = op_entry ` set H" "sorted_keys es" using es(1) by (simp_all add: holds_def)
  have xe: "op_entry x \<in> set es" using assms(2) H(2) by simp
  then have ne: "es \<noteq> []" by auto
  note lo = sorted_keys_hd [OF H(3) xe] and hi = sorted_keys_last [OF H(3) xe]
  obtain y where y: "y \<in> set H" "hd es = op_entry y" using H(2) hd_in_set [OF ne] by auto
  obtain z where z: "z \<in> set H" "last es = op_entry z" using H(2) last_in_set [OF ne] by auto
  have pf: "\<not> strict_prefix (fst a) (fst b)" if "a \<in> set H" "b \<in> set H" for a b using assms(3) that by (auto simp: prefix_free_def)
  have "fst y \<le> fst x" by (rule ikey_le_user [OF lo [unfolded y(2) fst_op_entry]]) (use pf y(1) assms(2) in blast)+
  moreover have "fst x \<le> fst z" by (rule ikey_le_user [OF hi [unfolded z(2) fst_op_entry]]) (use pf z(1) assms(2) in blast)+
  ultimately show ?thesis using es(2) ne y z op_parse(2) [OF H(1)] by (simp add: covers_def)
qed

lemma first_some_None: "(\<And>x. x \<in> set xs \<Longrightarrow> g x = None) \<Longrightarrow> first_some g xs = None"
  by (induction xs) auto

lemma level_file_Nil [simp]: "level_file [] key = None"
  by (simp add: level_file_def sort_Search.simps)

lemma deciding_level0:
  assumes "\<And>l. 0 < l \<Longrightarrow> l < NumLevels \<Longrightarrow> v_Levels v ! l = []"
  shows "deciding_file v key = find (\<lambda>f. covers f key) (rev (v_Levels v ! 0))"
proof -
  have "first_some (\<lambda>l. level_file (v_Levels v ! l) key) [1..<NumLevels] = None" by (rule first_some_None) (use assms in auto)
  then show ?thesis by (auto simp: deciding_file_def split: option.split)
qed

lemma level_file_single: "level_file [f] key = (if covers f key then Some f else None)"
proof -
  have "sort_Search P 0 (Suc 0) = (if P 0 then 0 else 1)" for P :: "nat \<Rightarrow> bool"
    by (subst sort_Search.simps, simp add: Let_def) (simp add: sort_Search.simps)
  then show ?thesis by (auto simp: level_file_def covers_def)
qed

lemma first_some_single: "k \<in> set xs \<Longrightarrow> (\<And>x. x \<in> set xs \<Longrightarrow> x \<noteq> k \<Longrightarrow> g x = None) \<Longrightarrow> first_some g xs = g k"
proof (induction xs)
  case (Cons x xs)
  show ?case
  proof (cases "k \<in> set xs")
    case True
    then have "first_some g xs = g k" using Cons by simp
    then show ?thesis using Cons.prems(2) [of x] by (cases "x = k") (auto split: option.split)
  next
    case False
    then have "x = k" "first_some g xs = None" using Cons.prems by (auto intro!: first_some_None)
    then show ?thesis by (auto split: option.split)
  qed
qed simp

text \<open>With one file, wherever it is, that file decides for the keys it covers.\<close>

lemma deciding_single:
  assumes k: "k < NumLevels" and v: "\<forall>l<NumLevels. v_Levels v ! l = (if l = k then [f] else [])"
  shows "deciding_file v key = (if covers f key then Some f else None)"
proof (cases "k = 0")
  case True
  then show ?thesis using deciding_level0 [of v key] v by (simp add: NumLevels_def)
next
  case False
  have "first_some (\<lambda>l. level_file (v_Levels v ! l) key) [1..<NumLevels] = level_file (v_Levels v ! k) key"
    using False k v by (intro first_some_single) auto
  moreover have "v_Levels v ! 0 = []" using False v by (simp add: NumLevels_def)
  ultimately show ?thesis using k v by (simp add: deciding_file_def level_file_single)
qed

lemma concat_single:
  assumes "concat ls = [f]"
  shows "\<exists>k<length ls. \<forall>l<length ls. ls ! l = (if l = k then [f] else [])"
  using assms
proof (induction ls)
  case (Cons xs ls)
  show ?case
  proof (cases "xs = []")
    case True
    then obtain k where "k < length ls" "\<forall>l<length ls. ls ! l = (if l = k then [f] else [])" using Cons by auto
    then show ?thesis using True by (intro exI [of _ "Suc k"]) (auto simp: nth_Cons split: nat.split)
  next
    case False
    then have "xs = [f]" "concat ls = []" using Cons.prems by (auto simp: append_eq_Cons_conv simp del: concat_eq_Nil_conv)
    then show ?thesis by (intro exI [of _ 0]) (auto simp: nth_Cons split: nat.split)
  qed
qed simp

lemma same_histories:
  assumes "sorted_wrt (<) (map op_seq A)" and "sorted_wrt (<) (map op_seq B)" and "set A = set B" and "inj_on op_seq (set A)"
  shows "A = B"
proof -
  have "set (map op_seq A) = set (map op_seq B)" using assms(3) by simp
  then have "map op_seq A = map op_seq B" using assms(1,2) by (intro sorted_distinct_set_unique) (simp_all add: strict_sorted_iff)
  then show ?thesis using inj_on_map_eq_map [of op_seq A B] assms(3,4) by simp
qed

lemma one_table_answer:
  assumes rep: "db_rep T F db s HH" and inv: "store_inv F db HH" and tot: "total_inv F db HH ws Hv"
    and one: "length (concat (v_Levels (vs_current (db_versions db)))) \<le> 1"
    and pf: "concat (v_Levels (vs_current (db_versions db))) = [] \<or> prefix_free (insert key (fst ` set ws))"
  shows "db_answer F (vs_current (db_versions db)) (hist HH (live_mems db)) key (db_seqNum db) = map_answer ws key"
proof -
  let ?v = "vs_current (db_versions db)" and ?H = "hist HH (live_mems db)" and ?q = "db_seqNum db"
  have len: "length (v_Levels ?v) = NumLevels" using rep by (simp add: db_rep_def)
  have t: "as_ops (Hv @ ?H) ws" "\<forall>x\<in>set (Hv @ ?H). op_seq x \<le> ?q" "sorted_wrt (<) (map op_seq (Hv @ ?H))" "table_ops F ?v = set Hv"
    using tot by (simp_all add: total_inv_def)
  have m: "answer (visible (Hv @ ?H) key ?q) = map_answer ws key" using t(1,2) by (rule answer_map)
  have "ws = map (\<lambda>x. (fst x, snd (snd x))) (Hv @ ?H)" using t(1) by (simp add: as_ops_def)
  then have fst_ws: "fst ` set ws = fst ` set (Hv @ ?H)" by (simp only: set_map image_image fst_conv)
  have live: "live_files ?v = set (concat (v_Levels ?v))" using len by (auto simp: live_files_def set_conv_nth [of "v_Levels ?v"])
  have "visible ?H key ?q = None \<Longrightarrow> (case deciding_file ?v key of None \<Rightarrow> Inl ErrKeyNotFound | Some f \<Rightarrow> answer (visible (the (F (fm_FileNum f))) key ?q)) =
      answer (visible Hv key ?q)"
  proof (cases "concat (v_Levels ?v)")
    case Nil
    then have e: "v_Levels ?v ! l = []" if "l < NumLevels" for l using that len by auto
    have "deciding_file ?v key = None" using deciding_level0 [of ?v key] e by (simp add: NumLevels_def)
    moreover have "live_files ?v = {}" unfolding live Nil by simp
    then have "Hv = []" using t(4) by (simp add: table_ops_def)
    ultimately show ?thesis by (simp add: visible_def answer_def)
  next
    case (Cons f rest)
    then have c: "concat (v_Levels ?v) = [f]" using one by simp
    have lf: "live_files ?v = {f}" using live c by simp
    obtain H es where f: "F (fm_FileNum f) = Some H" "holds es H" "es \<noteq> []" "fm_SmallestKey f = fst (hd es)" "fm_LargestKey f = fst (last es)"
      using inv lf by (auto simp: store_inv_def version_inv_def ranged_def)
    have "set H = set Hv" using t(4) lf f(1) by (simp add: table_ops_def)
    moreover have "sorted_wrt (<) (map op_seq H)" using f(2) by (simp add: holds_def history_defs sorted_wrt_map)
    moreover have "sorted_wrt (<) (map op_seq Hv)" using t(3) by (simp add: sorted_wrt_append)
    moreover have "inj_on op_seq (set Hv)" using calculation(3) strict_sorted_iff distinct_map by blast
    ultimately have H: "H = Hv" by (intro same_histories) simp_all
    have rg: "range_of f Hv" using f H by (auto simp: range_of_def)
    have d: "deciding_file ?v key = (if covers f key then Some f else None)"
      using concat_single [OF c] deciding_single [of _ ?v f key] len by auto
    have "covers f key" if vis: "visible Hv key ?q \<noteq> None"
    proof -
      obtain x where x: "x \<in> set Hv" "fst x = key" using vis unfolding visible_None by blast
      have "prefix_free (insert key (fst ` set Hv))" using pf c unfolding fst_ws by (auto simp: prefix_free_def)
      then show ?thesis using range_covers [OF rg x(1)] x(2) by simp
    qed
    then show ?thesis using d f(1) H by (cases "visible Hv key ?q") (auto simp: answer_def)
  qed
  then show ?thesis using m by (auto simp: db_answer_def visible_append split: option.splits)
qed

text \<open>C10: With at most one table the database is a map. After any run of writes that fit an empty memtable,
  lookups, snapshots, flushes and compactions, for written and looked-up keys without the byte \<open>0xff\<close>,
  with memtables rotated as they fill and whatever system calls failed, a lookup returns the value of the
  last write of its key, or reports that there is none. Once there is a table, this needs keys of which
  none is a prefix of another. A table that a failing call keeps from being opened is reported instead.\<close>

theorem db_is_map:
  assumes "db_start db0 s0" and "db_run (db0, s0) ws (db, s)" and "plain_key key"
    and "length (concat (v_Levels (vs_current (db_versions db)))) \<le> 1"
    and "concat (v_Levels (vs_current (db_versions db))) = [] \<or> prefix_free (insert key (fst ` set ws))"
  shows "\<exists>db' s' r. db_Get db s key = Some (db', s', r) \<and> (r = map_answer ws key \<or> open_failed s r)"
proof -
  obtain T F HH Hv where rep: "db_rep T F db s HH" and inv: "store_inv F db HH" and tot: "total_inv F db HH ws Hv"
    using db_run_ok [OF assms(2)] assms(1) by (auto simp: run_inv_def)
  from db_Get_ok [OF rep assms(3)] one_table_answer [OF rep inv tot assms(4,5)] show ?thesis by fastforce
qed

text \<open>C15: The flush loop returns. Whatever calls fail, and however many memtables are sealed, \<^verbatim>\<open>doFlush\<close> comes
  to an end; when no call fails, no sealed memtable is left.\<close>

theorem doFlush_returns:
  assumes "db_start db0 s0" and "db_run (db0, s0) ws (db, s)" and "unat (vs_nextFileNum (db_versions db)) + length (db_imm db) < 2 ^ 64"
  shows "\<exists>db' s'. doFlush db s = Some (db', s') \<and> (healthy db s \<longrightarrow> db_imm db' = [])"
proof -
  obtain T F HH where rep: "db_rep T F db s HH" using db_run_ok [OF assms(2)] assms(1) by (auto simp: run_inv_def)
  from doFlush_ok [OF rep assms(3)] show ?thesis by blast
qed

section \<open>Examples\<close>

text \<open>A database with memtables of 320 bytes, which hold two small operations or one large one.\<close>

definition demo_options :: Options where
  "demo_options = \<lparr>o_MemtableSize = 320, o_TableOptions = DefaultWriterOptions, o_BlockCacheSize = 100\<rparr>"

lemma demo_open: "\<exists>db s. db_start db s \<and> healthy db s \<and> mem_size db = 320"
proof -
  let ?s = "\<lparr>files = [], faults = []\<rparr>" and ?h = "\<lparr>fd_name = manifestName, fd_pos = 0, fd_open = True\<rparr>"
  let ?s' = "put_file manifestName \<lparr>fdata = [], fsynced = [], fisdir = False\<rparr> ?s" and ?vs = "newVersionSet\<lparr>vs_manifestFile := Some ?h\<rparr>"
  have o: "ensureDefaults demo_options = demo_options" by (simp add: ensureDefaults_def demo_options_def DefaultWriterOptions_def Let_def)
  have c: "os_call ?s = (?s, None)" by (rule os_call_faultless) simp
  have nf: "\<not> has_file ?s manifestName" by (simp add: has_file_def dir_names_def)
  have r: "vs_recover newVersionSet ?s = Some (?vs, ?s', None)" using c nf by (simp add: vs_recover_def createManifest_def)
  obtain m where m: "mt_New 320 = Some m" using mt_New_ok [of 320] by auto
  obtain db where db: "lsm_Open ?s demo_options = Some (?s', Inr db)" "db_versions db = ?vs" "db_opts db = demo_options"
    using c r m by (simp add: lsm_Open_def o Let_def) (simp add: demo_options_def)
  have "db_start db ?s'" unfolding db_start_def using nf db(1)
    by (intro exI [of _ ?s] exI [of _ demo_options]) (simp add: o, simp add: opts_ok_def demo_options_def DefaultWriterOptions_def)
  moreover have "healthy db ?s'" by (simp add: healthy_def db(2) put_file_def file_of_def)
  moreover have "mem_size db = 320" by (simp add: mem_size_def db(3) demo_options_def)
  ultimately show ?thesis by blast
qed

text \<open>Where a write goes.\<close>

lemma db_write_where:
  assumes rep: "db_rep T F db s HH" and fits: "op_fits db (key, ov)" and seq: "unat (db_seqNum db) + 1 < 2 ^ 48" and hl: "healthy db s"
    and x: "x = (key, db_seqNum db + 1, ov)"
  shows "\<exists>db'. db_step (db, s) [(key, ov)] (db', s) \<and> healthy db' s \<and> db_seqNum db' = db_seqNum db + 1 \<and> mem_size db' = mem_size db \<and>
    vs_current (db_versions db') = vs_current (db_versions db) \<and> vs_nextFileNum (db_versions db') = vs_nextFileNum (db_versions db) \<and>
    (if room (HH ! db_mem db @ [x]) \<le> mem_size db
     then db_rep T F db' s (HH[db_mem db := HH ! db_mem db @ [x]]) \<and> db_mem db' = db_mem db \<and> db_imm db' = db_imm db
     else db_rep T F db' s (HH @ [[x]]) \<and> db_mem db' = length HH \<and> db_imm db' = live_mems db)"
proof -
  obtain db' HH' where w: "db_write db (key, ov) 0 0 = Some (db', None)" "db_rep T F db' s HH'" "written db HH x db' HH'"
      "db_seqNum db' = db_seqNum db + 1" "db_opts db' = db_opts db" "vs_current (db_versions db') = vs_current (db_versions db)"
      "vs_nextFileNum (db_versions db') = vs_nextFileNum (db_versions db)" "vs_manifestFile (db_versions db') = vs_manifestFile (db_versions db)"
    using db_write_ok [OF rep fits seq, of 0 0, folded x] by (elim exE conjE) (rule that)
  have st: "db_step (db, s) [(key, ov)] (db', s)" by (rule step_write [OF fits seq w(1)])
  have sz: "mem_size db' = mem_size db" by (simp add: mem_size_def w(5))
  have mem: "db_mem db < length HH" using rep by (simp add: db_rep_def mems_ok_def)
  have full: "room (HH ! db_mem db @ [x]) \<le> mem_size db" if "HH' = HH[db_mem db := HH ! db_mem db @ [x]]" "db_mem db' = db_mem db"
    using w(2) that mem sz by (simp add: db_rep_def mems_ok_def active_ok_def mem_ok_def)
  have "healthy db' s" using hl w(8) by (simp add: healthy_def)
  with st sz w(2-4,6,7) full show ?thesis by (intro exI [of _ db']) (auto simp: written_def)
qed

text \<open>The state after a round without failing calls.\<close>

lemma demo_round:
  assumes rep: "db_rep T F db s HH" and hl: "healthy db s" and imm: "db_imm db = i # rest" and nx: "vs_nextFileNum (db_versions db) + 1 \<noteq> 0"
  shows "\<exists>db' s' T' f. doFlush_round db s = Some (db', s', True) \<and> db_step (db, s) [] (db', s') \<and> healthy db' s' \<and>
    db_rep T' (F(vs_nextFileNum (db_versions db) \<mapsto> HH ! i)) db' s' HH \<and> db_imm db' = rest \<and> db_mem db' = db_mem db \<and> db_seqNum db' = db_seqNum db \<and>
    fm_FileNum f = vs_nextFileNum (db_versions db) \<and> range_of f (HH ! i) \<and> vs_nextFileNum (db_versions db') = vs_nextFileNum (db_versions db) + 1 \<and>
    level0_grows (vs_current (db_versions db)) f (vs_current (db_versions db'))"
proof -
  obtain db' s' ok T' F' where r: "doFlush_round db s = Some (db', s', ok)" "db_rep T' F' db' s' HH" "keeps db db'" "flush_moves F db HH F' db' ok"
    using doFlush_round_ok [OF rep nx] by (elim exE conjE) (rule that)
  have h: "healthy db' s'" "ok" using healthy_round [OF rep hl r(1)] imm by simp_all
  obtain f es where "db_imm db' = rest" "vs_nextFileNum (db_versions db') = vs_nextFileNum (db_versions db) + 1" "F' = F(vs_nextFileNum (db_versions db) \<mapsto> HH ! i)"
      "fm_FileNum f = vs_nextFileNum (db_versions db)" "level0_grows (vs_current (db_versions db)) f (vs_current (db_versions db'))" "holds es (HH ! i)"
      "es \<noteq> [] \<longrightarrow> fm_SmallestKey f = fst (hd es) \<and> fm_LargestKey f = fst (last es)"
    using r(4) h(2) imm by (auto simp: flush_moves_def)
  moreover have "db_step (db, s) [] (db', s')" by (rule step_flush [OF nx r(1)])
  ultimately show ?thesis using r(1-3) h
    by (intro exI [of _ db'] exI [of _ s'] exI [of _ T'] exI [of _ f]) (auto simp: range_of_def keeps_def)
qed

abbreviation key_a :: bytes where "key_a \<equiv> [0x61]"
abbreviation key_b :: bytes where "key_b \<equiv> [0x62]"
abbreviation key_c :: bytes where "key_c \<equiv> [0x63]"
abbreviation key_ab :: bytes where "key_ab \<equiv> [0x61, 0x62]"

definition large :: bytes where
  "large = replicate 110 7"

text \<open>A sealed memtable with one key, and an active one with another.\<close>

lemma demo_sealed:
  "\<exists>db0 s0 db s. db_start db0 s0 \<and> db_run (db0, s0) [(key_b, Some large), (key_a, Some [1])] (db, s) \<and> healthy db s \<and>
     db_rep Map.empty Map.empty db s [[(key_b, 1, Some large)], [(key_a, 2, Some [1])]] \<and> db_imm db = [0] \<and> db_mem db = 1 \<and> db_seqNum db = 2 \<and>
     vs_current (db_versions db) = newVersion \<and> vs_nextFileNum (db_versions db) = 1 \<and> mem_size db = 320"
proof -
  obtain db0 s0 where d: "db_start db0 s0" "healthy db0 s0" "mem_size db0 = 320" using demo_open by blast
  note o = open_ok [OF d(1)]
  let ?x = "(key_b, 1, Some large) :: op" and ?y = "(key_a, 2, Some [1]) :: op"
  have sz: "op_size ?x = 215" "op_size (key_b, 0, Some large) = 215" "op_size ?y = 106" "op_size (key_a, 0, Some [1]) = 106"
    by (simp_all add: op_size_def maxNodeSize op_entry_def large_def)
  have pk: "plain_key key_a" "plain_key key_b" by (simp_all add: plain_key_def)
  have f0: "op_fits db0 (key_b, Some large)" using d(3) sz pk by (simp add: op_fits_def)
  have q0: "unat (db_seqNum db0) + 1 < 2 ^ 48" "?x = (key_b, db_seqNum db0 + 1, Some large)" using o by simp_all
  obtain db1 where w1: "db_step (db0, s0) [(key_b, Some large)] (db1, s0)" "healthy db1 s0" "db_seqNum db1 = 1" "mem_size db1 = 320"
      "vs_current (db_versions db1) = newVersion" "vs_nextFileNum (db_versions db1) = 1"
      "db_rep Map.empty Map.empty db1 s0 [[?x]]" "db_mem db1 = 0" "db_imm db1 = []"
    using db_write_where [OF conjunct1 [OF o] f0 q0(1) d(2) q0(2)] o d(3) sz by (auto simp: room_def split: if_splits)
  have f1: "op_fits db1 (key_a, Some [1])" using w1(4) sz pk by (simp add: op_fits_def)
  have q1: "unat (db_seqNum db1) + 1 < 2 ^ 48" "?y = (key_a, db_seqNum db1 + 1, Some [1])" using w1(3) by simp_all
  obtain db2 where w2: "db_step (db1, s0) [(key_a, Some [1])] (db2, s0)" "healthy db2 s0" "db_seqNum db2 = 2" "mem_size db2 = 320"
      "vs_current (db_versions db2) = newVersion" "vs_nextFileNum (db_versions db2) = 1"
      "db_rep Map.empty Map.empty db2 s0 [[?x], [?y]]" "db_mem db2 = 1" "db_imm db2 = [0]"
    using db_write_where [OF w1(7) f1 q1(1) w1(2) q1(2)] w1 sz by (auto simp: room_def split: if_splits)
  have "db_run (db0, s0) [(key_b, Some large), (key_a, Some [1])] (db2, s0)"
    using run_step [OF run_step [OF run_refl w1(1)] w2(1)] by simp
  then show ?thesis using d(1) w2 by blast
qed

lemma range_single:
  assumes "range_of f [x]"
  shows "covers f (fst x)"
proof (rule range_covers [OF assms])
  show "prefix_free (insert (fst x) (fst ` set [x]))" by (simp add: prefix_free_def)
qed simp

lemma visible_single [simp]: "visible [x] key q = (if fst x = key \<and> op_seq x \<le> q then Some x else None)"
  by (simp add: visible_def)

lemma healthy_open [simp]: "healthy db s \<Longrightarrow> \<not> open_failed s r"
  by (simp add: healthy_def open_failed_def)

lemma newVersion_levels: "length (v_Levels newVersion) = NumLevels"
  by (simp add: newVersion_def)

lemma deciding_grown:
  assumes "level0_grows v f v'" and "length (v_Levels v) = NumLevels" and "covers f key"
  shows "deciding_file v' key = Some f"
proof -
  have "v_Levels v' ! 0 = v_Levels v ! 0 @ [f]" using assms(1) by (simp add: level0_grows_def)
  then show ?thesis using assms(3) by (simp add: deciding_file_def)
qed

lemma demo_answer:
  assumes "db_rep T F db s [[(key_b, 1, Some large)], [(key_a, 2, Some [1])]]" and "healthy db s" and "db_imm db = [0]" "db_mem db = 1" "db_seqNum db = 2"
  shows "\<exists>a b. db_Get db s key_b = Some (a, b, Inr large)"
proof -
  have k: "plain_key key_b" by (simp add: plain_key_def)
  from db_Get_ok [OF assms(1) k] assms(2-) show ?thesis by (auto simp: db_answer_def hist_def visible_def answer_def word_le_nat_alt)
qed

theorem snapshot_isolation_witness:
  "\<exists>db0 s0 db s db1 sn db2 s2 a b. db_start db0 s0 \<and> db_run (db0, s0) [(key_b, Some large), (key_a, Some [1])] (db, s) \<and>
     NewSnapshot db = (db1, sn) \<and> doFlush_round db1 s = Some (db2, s2, True) \<and> Snapshot_Get sn db2 s2 key_b = Some (a, b, Inr large)"
proof -
  let ?x = "(key_b, 1, Some large) :: op" and ?y = "(key_a, 2, Some [1]) :: op"
  obtain db0 s0 db s where d: "db_start db0 s0" "db_run (db0, s0) [(key_b, Some large), (key_a, Some [1])] (db, s)" "healthy db s"
      "db_rep Map.empty Map.empty db s [[?x], [?y]]" "db_imm db = [0]" "db_mem db = 1" "db_seqNum db = 2"
      "vs_nextFileNum (db_versions db) = 1" using demo_sealed by (elim exE conjE) (rule that)
  obtain db1 sn where sn: "NewSnapshot db = (db1, sn)" by fastforce
  have d1: "db1 = fst (grab_mems db)" by (rule snapshot_parts(1) [OF sn])
  have r1: "db_rep Map.empty Map.empty db1 s [[?x], [?y]]" "healthy db1 s" "db_imm db1 = [0]" "vs_nextFileNum (db_versions db1) + 1 \<noteq> 0"
    using db_rep_grab [OF d(4)] d(3,5,8) by (simp_all add: d1 grab_mems_def healthy_def)
  obtain db2 s2 where f: "doFlush_round db1 s = Some (db2, s2, True)" "db_step (db1, s) [] (db2, s2)" "healthy db2 s2"
    using demo_round [OF r1] by blast
  have run: "db_run (db1, s) [] (db2, s2)" using run_step [OF run_refl f(2)] by simp
  have k: "plain_key key_b" by (simp add: plain_key_def)
  obtain a3 b3 where g: "db_Get db s key_b = Some (a3, b3, Inr large)" using demo_answer [OF d(4,3,5-7)] by blast
  obtain a4 b4 where "Snapshot_Get sn db2 s2 key_b = Some (a4, b4, Inr large)"
    using snapshot_isolation [OF d(1,2) sn run k] g healthy_open [OF d(3)] healthy_open [OF f(3)] by auto
  then show ?thesis using d(1,2) sn f(1) by blast
qed

lemma level0_grows_levels:
  assumes "level0_grows v f v'" and "length (v_Levels v) = NumLevels"
  shows "\<exists>l0 ls. v_Levels v = l0 # ls \<and> v_Levels v' = (l0 @ [f]) # map (sort_key fm_SmallestKey) ls"
proof -
  obtain l0 ls where l: "v_Levels v = l0 # ls" using assms(2) by (cases "v_Levels v") (simp_all add: NumLevels_def)
  have "v_Levels v' = (l0 @ [f]) # map (sort_key fm_SmallestKey) ls"
  proof (rule nth_equalityI)
    show len: "length (v_Levels v') = length ((l0 @ [f]) # map (sort_key fm_SmallestKey) ls)" using assms l by (simp add: level0_grows_def)
    fix i assume "i < length (v_Levels v')"
    then show "v_Levels v' ! i = ((l0 @ [f]) # map (sort_key fm_SmallestKey) ls) ! i" using assms l by (cases i) (auto simp: level0_grows_def)
  qed
  with l show ?thesis by blast
qed

lemma concat_first: "level0_grows newVersion f v' \<Longrightarrow> concat (v_Levels v') = [f]"
  using level0_grows_levels [OF _ newVersion_levels, of f v'] by (auto simp: newVersion_def NumLevels_def numeral_eq_Suc)

theorem db_is_map_witness:
  "\<exists>db0 s0 db s a b. db_start db0 s0 \<and> db_run (db0, s0) [(key_b, Some large), (key_a, Some [1])] (db, s) \<and> db_imm db = [] \<and>
     db_Get db s key_b = Some (a, b, Inr large)"
proof -
  let ?x = "(key_b, 1, Some large) :: op" and ?y = "(key_a, 2, Some [1]) :: op" and ?ws = "[(key_b, Some large), (key_a, Some [1])]"
  obtain db0 s0 db s where d: "db_start db0 s0" "db_run (db0, s0) ?ws (db, s)" "healthy db s"
      "db_rep Map.empty Map.empty db s [[?x], [?y]]" "db_imm db = [0]" "vs_current (db_versions db) = newVersion"
      "vs_nextFileNum (db_versions db) = 1" using demo_sealed by (elim exE conjE) (rule that)
  have nx: "vs_nextFileNum (db_versions db) + 1 \<noteq> 0" using d(7) by simp
  obtain db2 s2 f where r: "db_step (db, s) [] (db2, s2)" "healthy db2 s2" "db_imm db2 = []" "level0_grows newVersion f (vs_current (db_versions db2))"
    using demo_round [OF d(4,3,5) nx] d(6) by auto
  have run: "db_run (db0, s0) ?ws (db2, s2)" using run_step [OF d(2) r(1)] by simp
  have k: "plain_key key_b" by (simp add: plain_key_def)
  note c = concat_first [OF r(4)]
  have one: "length (concat (v_Levels (vs_current (db_versions db2)))) \<le> 1" unfolding c by simp
  have pf: "concat (v_Levels (vs_current (db_versions db2))) = [] \<or> prefix_free (insert key_b (fst ` set ?ws))" by (simp add: prefix_free_def strict_prefix_def)
  have "map_answer ?ws key_b = Inr large" by (simp add: map_answer_def)
  then obtain a b where "db_Get db2 s2 key_b = Some (a, b, Inr large)"
    using db_is_map [OF d(1) run k one pf] healthy_open [OF r(2)] by auto
  then show ?thesis using d(1) run r(3) by blast
qed

theorem doFlush_returns_witness:
  "\<exists>db0 s0 db s db' s'. db_start db0 s0 \<and> db_run (db0, s0) [(key_b, Some large), (key_a, Some [1])] (db, s) \<and> db_imm db \<noteq> [] \<and>
     doFlush db s = Some (db', s') \<and> db_imm db' = []"
proof -
  obtain db0 s0 db s where d: "db_start db0 s0" "db_run (db0, s0) [(key_b, Some large), (key_a, Some [1])] (db, s)" "healthy db s" "db_imm db = [0]"
      "vs_nextFileNum (db_versions db) = 1" using demo_sealed by (elim exE conjE) (rule that)
  have n: "unat (vs_nextFileNum (db_versions db)) + length (db_imm db) < 2 ^ 64" using d(4,5) by simp
  obtain db' s' where "doFlush db s = Some (db', s')" "db_imm db' = []" using doFlush_returns [OF d(1,2) n] d(3) by auto
  moreover have "db_imm db \<noteq> []" using d(4) by simp
  ultimately show ?thesis using d(1,2) by blast
qed

text \<open>C16: A flush inside \<^verbatim>\<open>NewSnapshot\<close> loses data in the snapshot. It reads the version before it locks the
  memtables; when a round of the flush loop runs in between, the memtable it moves into a table is in
  neither. Here the snapshot does not find a key that the database finds before and after.\<close>

theorem snapshot_race:
  "\<exists>db0 s0 db s db2 s2 db3 sn a1 b1 a2 b2 a3 b3. db_start db0 s0 \<and> db_run (db0, s0) [(key_b, Some large), (key_a, Some [1])] (db, s) \<and>
     doFlush_round db s = Some (db2, s2, True) \<and> snapshot_mems (snapshot_version db) db2 = (db3, sn) \<and>
     db_Get db s key_b = Some (a1, b1, Inr large) \<and> db_Get db2 s2 key_b = Some (a2, b2, Inr large) \<and>
     Snapshot_Get sn db3 s2 key_b = Some (a3, b3, Inl ErrKeyNotFound)"
proof -
  let ?x = "(key_b, 1, Some large) :: op" and ?y = "(key_a, 2, Some [1]) :: op"
  obtain db0 s0 db s where d: "db_start db0 s0" "db_run (db0, s0) [(key_b, Some large), (key_a, Some [1])] (db, s)" "healthy db s"
      "db_rep Map.empty Map.empty db s [[?x], [?y]]" "db_imm db = [0]" "db_mem db = 1" "db_seqNum db = 2" "vs_current (db_versions db) = newVersion"
      "vs_nextFileNum (db_versions db) = 1" using demo_sealed by (elim exE conjE) (rule that)
  have nx: "vs_nextFileNum (db_versions db) + 1 \<noteq> 0" using d(9) by simp
  obtain db2 s2 T f where r: "doFlush_round db s = Some (db2, s2, True)" "healthy db2 s2" "db_rep T [1 \<mapsto> [?x]] db2 s2 [[?x], [?y]]" "db_imm db2 = []"
      "db_mem db2 = 1" "db_seqNum db2 = 2" "fm_FileNum f = 1" "range_of f [?x]" "level0_grows newVersion f (vs_current (db_versions db2))"
    using demo_round [OF d(4,3,5) nx] d(6-9) by auto
  have k: "plain_key key_b" by (simp add: plain_key_def)
  have "covers f key_b" using range_single [OF r(8)] by simp
  then have df: "deciding_file (vs_current (db_versions db2)) key_b = Some f" by (rule deciding_grown [OF r(9) newVersion_levels])
  obtain a1 b1 where g1: "db_Get db s key_b = Some (a1, b1, Inr large)" using demo_answer [OF d(4,3,5-7)] by blast
  obtain a2 b2 where g2: "db_Get db2 s2 key_b = Some (a2, b2, Inr large)"
    using db_Get_ok [OF r(3) k] r(2,4-7) df by (auto simp: db_answer_def hist_def answer_def word_le_nat_alt)
  define db3 where "db3 = fst (grab_mems db2)"
  define sn where "sn = \<lparr>sn_seqNum = 2, sn_v = newVersion, sn_mem = 1, sn_imm = [], sn_closed = False\<rparr>"
  have sm: "snapshot_mems (snapshot_version db) db2 = (db3, sn)"
    using d(7,8) r(4,5) by (simp add: snapshot_mems_def snapshot_version_def grab_mems_def db3_def sn_def)
  have rep3: "db_rep T [1 \<mapsto> [?x]] db3 s2 [[?x], [?y]]" unfolding db3_def by (rule db_rep_grab [OF r(3)])
  have t3: "tables_ok T [1 \<mapsto> [?x]] db3 s2" "list_all2 (mem_ok (mem_size db3)) (db_heap db3) [[?x], [?y]]" using rep3 mems_okD(1) by (simp_all add: db_rep_def)
  have nv: "\<forall>f\<in>live_files newVersion. fm_FileNum f \<in> dom [1 \<mapsto> [?x]]" by (simp add: live_files_new)
  have dn: "deciding_file newVersion key_b = None" using deciding_level0 [of newVersion key_b] by (simp add: newVersion_def NumLevels_def)
  obtain a3 b3 where c: "(case search_mems db3 1 [] key_b 2 of None \<Rightarrow> None | Some (Some a) \<Rightarrow> Some (db3, s2, a)
      | Some None \<Rightarrow> getFromVersion db3 s2 newVersion key_b 2) = Some (a3, b3, Inl ErrKeyNotFound)"
    using lookup_ok [OF t3(1) newVersion_levels nv t3(2), of 1 "[]" key_b 2] k r(2) dn by (auto simp: db_answer_def hist_def)
  have sel: "sn_seqNum sn = 2" "sn_v sn = newVersion" "sn_mem sn = 1" "sn_imm sn = []" "\<not> sn_closed sn" by (simp_all add: sn_def)
  have g3: "Snapshot_Get sn db3 s2 key_b = Some (a3, b3, Inl ErrKeyNotFound)"
    unfolding Snapshot_Get_def sel(1-4) if_not_P [OF sel(5)] by (rule c)
  show ?thesis using d(1,2) r(1) sm g1 g2 g3 by blast
qed

text \<open>Two keys, one of them a prefix of the other, in a sealed memtable.\<close>

lemma demo_prefix:
  "\<exists>db0 s0 db s. db_start db0 s0 \<and> db_run (db0, s0) [(key_a, Some [1]), (key_ab, Some [2]), (key_c, Some [3])] (db, s) \<and> healthy db s \<and>
     db_rep Map.empty Map.empty db s [[(key_a, 1, Some [1]), (key_ab, 2, Some [2])], [(key_c, 3, Some [3])]] \<and> db_imm db = [0] \<and> db_mem db = 1 \<and>
     db_seqNum db = 3 \<and> vs_current (db_versions db) = newVersion \<and> vs_nextFileNum (db_versions db) = 1"
proof -
  obtain db0 s0 where d: "db_start db0 s0" "healthy db0 s0" "mem_size db0 = 320" using demo_open by blast
  note o = open_ok [OF d(1)]
  let ?x = "(key_a, 1, Some [1]) :: op" and ?y = "(key_ab, 2, Some [2]) :: op" and ?z = "(key_c, 3, Some [3]) :: op"
  have sz: "op_size ?x = 106" "op_size ?y = 107" "op_size ?z = 106"
      "op_size (key_a, 0, Some [1]) = 106" "op_size (key_ab, 0, Some [2]) = 107" "op_size (key_c, 0, Some [3]) = 106"
    by (simp_all add: op_size_def maxNodeSize op_entry_def)
  have pk: "plain_key key_a" "plain_key key_ab" "plain_key key_c" by (simp_all add: plain_key_def)
  have f0: "op_fits db0 (key_a, Some [1])" using d(3) sz pk by (simp add: op_fits_def)
  have q0: "unat (db_seqNum db0) + 1 < 2 ^ 48" "?x = (key_a, db_seqNum db0 + 1, Some [1])" using o by simp_all
  obtain db1 where w1: "db_step (db0, s0) [(key_a, Some [1])] (db1, s0)" "healthy db1 s0" "db_seqNum db1 = 1" "mem_size db1 = 320"
      "vs_current (db_versions db1) = newVersion" "vs_nextFileNum (db_versions db1) = 1"
      "db_rep Map.empty Map.empty db1 s0 [[?x]]" "db_mem db1 = 0" "db_imm db1 = []"
    using db_write_where [OF conjunct1 [OF o] f0 q0(1) d(2) q0(2)] o d(3) sz by (auto simp: room_def split: if_splits)
  have f1: "op_fits db1 (key_ab, Some [2])" using w1(4) sz pk by (simp add: op_fits_def)
  have q1: "unat (db_seqNum db1) + 1 < 2 ^ 48" "?y = (key_ab, db_seqNum db1 + 1, Some [2])" using w1(3) by simp_all
  obtain db2 where w2: "db_step (db1, s0) [(key_ab, Some [2])] (db2, s0)" "healthy db2 s0" "db_seqNum db2 = 2" "mem_size db2 = 320"
      "vs_current (db_versions db2) = newVersion" "vs_nextFileNum (db_versions db2) = 1"
      "db_rep Map.empty Map.empty db2 s0 [[?x, ?y]]" "db_mem db2 = 0" "db_imm db2 = []"
    using db_write_where [OF w1(7) f1 q1(1) w1(2) q1(2)] w1 sz by (auto simp: room_def split: if_splits)
  have f2: "op_fits db2 (key_c, Some [3])" using w2(4) sz pk by (simp add: op_fits_def)
  have q2: "unat (db_seqNum db2) + 1 < 2 ^ 48" "?z = (key_c, db_seqNum db2 + 1, Some [3])" using w2(3) by simp_all
  obtain db3 where w3: "db_step (db2, s0) [(key_c, Some [3])] (db3, s0)" "healthy db3 s0" "db_seqNum db3 = 3"
      "vs_current (db_versions db3) = newVersion" "vs_nextFileNum (db_versions db3) = 1"
      "db_rep Map.empty Map.empty db3 s0 [[?x, ?y], [?z]]" "db_mem db3 = 1" "db_imm db3 = [0]"
    using db_write_where [OF w2(7) f2 q2(1) w2(2) q2(2)] w2 sz by (auto simp: room_def split: if_splits)
  have "db_run (db0, s0) [(key_a, Some [1]), (key_ab, Some [2]), (key_c, Some [3])] (db3, s0)"
    using run_step [OF run_step [OF run_step [OF run_refl w1(1)] w2(1)] w3(1)] by simp
  then show ?thesis using d(1) w3 by blast
qed

text \<open>A table with two entries runs from the smaller to the larger.\<close>

lemma range_two:
  assumes "range_of f H" and "set H = {x, y}" and "fst (op_entry x) < fst (op_entry y)"
  shows "UserKey (fm_SmallestKey f) = fst x" and "UserKey (fm_LargestKey f) = fst y"
proof -
  obtain es where es: "holds es H" "es \<noteq> [] \<longrightarrow> fm_SmallestKey f = fst (hd es) \<and> fm_LargestKey f = fst (last es)"
    using assms(1) by (auto simp: range_of_def)
  have H: "set es = {op_entry x, op_entry y}" "sorted_keys es" "history_ok H" using es(1) assms(2) by (simp_all add: holds_def)
  have ne: "es \<noteq> []" using H(1) by auto
  have "hd es \<in> {op_entry x, op_entry y}" "last es \<in> {op_entry x, op_entry y}" using hd_in_set [OF ne] last_in_set [OF ne] H(1) by auto
  moreover have "fst (hd es) \<le> fst (op_entry x)" "fst (op_entry y) \<le> fst (last es)"
    using sorted_keys_hd [OF H(2)] sorted_keys_last [OF H(2)] H(1) by blast+
  ultimately have "hd es = op_entry x" "last es = op_entry y" using assms(3) by auto
  then show "UserKey (fm_SmallestKey f) = fst x" "UserKey (fm_LargestKey f) = fst y"
    using es(2) ne op_parse(2) [OF H(3)] assms(2) by simp_all
qed


text \<open>C17: A flush can lose a key that is a prefix of another. The smallest and largest internal keys of the
  table of \<open>a\<close> and \<open>ab\<close> give the range from \<open>ab\<close> to \<open>a\<close>, which covers neither, because the internal key of
  \<open>ab\<close> sorts below that of \<open>a\<close>. A lookup of \<open>a\<close> finds its value before the flush, and nothing after.\<close>

theorem flush_loses_prefix_key:
  "\<exists>db0 s0 db s db2 s2 a1 b1 a2 b2. db_start db0 s0 \<and>
     db_run (db0, s0) [(key_a, Some [1]), (key_ab, Some [2]), (key_c, Some [3])] (db, s) \<and>
     doFlush_round db s = Some (db2, s2, True) \<and> faults s2 = [] \<and>
     db_Get db s key_a = Some (a1, b1, Inr [1]) \<and> db_Get db2 s2 key_a = Some (a2, b2, Inl ErrKeyNotFound)"
proof -
  let ?x = "(key_a, 1, Some [1]) :: op" and ?y = "(key_ab, 2, Some [2]) :: op" and ?z = "(key_c, 3, Some [3]) :: op"
  obtain db0 s0 db s where d: "db_start db0 s0" "db_run (db0, s0) [(key_a, Some [1]), (key_ab, Some [2]), (key_c, Some [3])] (db, s)" "healthy db s"
      "db_rep Map.empty Map.empty db s [[?x, ?y], [?z]]" "db_imm db = [0]" "db_mem db = 1" "db_seqNum db = 3" "vs_current (db_versions db) = newVersion"
      "vs_nextFileNum (db_versions db) = 1" using demo_prefix by (elim exE conjE) (rule that)
  have nx: "vs_nextFileNum (db_versions db) + 1 \<noteq> 0" using d(9) by simp
  obtain db2 s2 T f where r: "doFlush_round db s = Some (db2, s2, True)" "healthy db2 s2" "db_rep T [1 \<mapsto> [?x, ?y]] db2 s2 [[?x, ?y], [?z]]" "db_imm db2 = []"
      "db_mem db2 = 1" "db_seqNum db2 = 3" "fm_FileNum f = 1" "range_of f [?x, ?y]" "level0_grows newVersion f (vs_current (db_versions db2))"
    using demo_round [OF d(4,3,5) nx] d(6-9) by auto
  have k: "plain_key key_a" by (simp add: plain_key_def)
  have o: "fst (op_entry ?y) < fst (op_entry ?x)" by code_simp
  have "set [?x, ?y] = {?y, ?x}" by auto
  from range_two [OF r(8) this o] have "\<not> covers f key_a" by (simp add: covers_def)
  then have df: "deciding_file (vs_current (db_versions db2)) key_a = None"
    using deciding_level0 [of "vs_current (db_versions db2)" key_a] r(9) by (simp add: level0_grows_def newVersion_def NumLevels_def)
  obtain a1 b1 where g1: "db_Get db s key_a = Some (a1, b1, Inr [1])"
    using db_Get_ok [OF d(4) k] d(3,5-8) by (auto simp: db_answer_def hist_def visible_def answer_def word_le_nat_alt)
  obtain a2 b2 where g2: "db_Get db2 s2 key_a = Some (a2, b2, Inl ErrKeyNotFound)"
    using db_Get_ok [OF r(3) k] r(2,4-7) df by (auto simp: db_answer_def hist_def)
  have "faults s2 = []" using r(2) by (simp add: healthy_def)
  then show ?thesis using d(1,2) r(1) g1 g2 by blast
qed

text \<open>Two sealed memtables, the newer one with keys on both sides of that of the older.\<close>

lemma demo_cover:
  "\<exists>db0 s0 db s. db_start db0 s0 \<and> db_run (db0, s0) [(key_b, Some large), (key_a, Some [1]), (key_c, Some [3]), (key_a, Some [4])] (db, s) \<and> healthy db s \<and>
     db_rep Map.empty Map.empty db s [[(key_b, 1, Some large)], [(key_a, 2, Some [1]), (key_c, 3, Some [3])], [(key_a, 4, Some [4])]] \<and> db_imm db = [0, 1] \<and>
     db_mem db = 2 \<and> db_seqNum db = 4 \<and> vs_current (db_versions db) = newVersion \<and> vs_nextFileNum (db_versions db) = 1"
proof -
  let ?x = "(key_b, 1, Some large) :: op" and ?y = "(key_a, 2, Some [1]) :: op" and ?z = "(key_c, 3, Some [3]) :: op" and ?u = "(key_a, 4, Some [4]) :: op"
  obtain db0 s0 db s where d: "db_start db0 s0" "db_run (db0, s0) [(key_b, Some large), (key_a, Some [1])] (db, s)" "healthy db s"
      "db_rep Map.empty Map.empty db s [[?x], [?y]]" "db_imm db = [0]" "db_mem db = 1" "db_seqNum db = 2" "vs_current (db_versions db) = newVersion"
      "vs_nextFileNum (db_versions db) = 1" "mem_size db = 320" using demo_sealed by (elim exE conjE) (rule that)
  have sz: "op_size ?y = 106" "op_size ?z = 106" "op_size ?u = 106" "op_size (key_c, 0, Some [3]) = 106" "op_size (key_a, 0, Some [4]) = 106"
    by (simp_all add: op_size_def maxNodeSize op_entry_def)
  have pk: "plain_key key_a" "plain_key key_c" by (simp_all add: plain_key_def)
  have f1: "op_fits db (key_c, Some [3])" using d(10) sz pk by (simp add: op_fits_def)
  have q1: "unat (db_seqNum db) + 1 < 2 ^ 48" "?z = (key_c, db_seqNum db + 1, Some [3])" using d(7) by simp_all
  obtain db1 where w1: "db_step (db, s) [(key_c, Some [3])] (db1, s)" "healthy db1 s" "db_seqNum db1 = 3" "mem_size db1 = 320"
      "vs_current (db_versions db1) = newVersion" "vs_nextFileNum (db_versions db1) = 1"
      "db_rep Map.empty Map.empty db1 s [[?x], [?y, ?z]]" "db_mem db1 = 1" "db_imm db1 = [0]"
    using db_write_where [OF d(4) f1 q1(1) d(3) q1(2)] d(5-10) sz by (auto simp: room_def split: if_splits)
  have f2: "op_fits db1 (key_a, Some [4])" using w1(4) sz pk by (simp add: op_fits_def)
  have q2: "unat (db_seqNum db1) + 1 < 2 ^ 48" "?u = (key_a, db_seqNum db1 + 1, Some [4])" using w1(3) by simp_all
  obtain db2 where w2: "db_step (db1, s) [(key_a, Some [4])] (db2, s)" "healthy db2 s" "db_seqNum db2 = 4"
      "vs_current (db_versions db2) = newVersion" "vs_nextFileNum (db_versions db2) = 1"
      "db_rep Map.empty Map.empty db2 s [[?x], [?y, ?z], [?u]]" "db_mem db2 = 2" "db_imm db2 = [0, 1]"
    using db_write_where [OF w1(7) f2 q2(1) w1(2) q2(2)] w1 sz by (auto simp: room_def split: if_splits)
  have "db_run (db0, s0) [(key_b, Some large), (key_a, Some [1]), (key_c, Some [3]), (key_a, Some [4])] (db2, s)"
    using run_step [OF run_step [OF d(2) w1(1)] w2(1)] by simp
  then show ?thesis using d(1) w2 by blast
qed

text \<open>C18: A newer table hides a key of an older one. When a table lacks the key but its range covers it,
  \<^verbatim>\<open>getFromTable\<close> returns the kind 0, which is that of a tombstone, and the search ends. Here a lookup of
  \<open>b\<close> finds its value until the second flush writes a table from \<open>a\<close> to \<open>c\<close>, and nothing afterwards.\<close>

theorem newer_table_hides_key:
  "\<exists>db0 s0 db s db2 s2 db3 s3 a1 b1 a2 b2. db_start db0 s0 \<and>
     db_run (db0, s0) [(key_b, Some large), (key_a, Some [1]), (key_c, Some [3]), (key_a, Some [4])] (db, s) \<and>
     doFlush_round db s = Some (db2, s2, True) \<and> doFlush_round db2 s2 = Some (db3, s3, True) \<and> faults s3 = [] \<and>
     db_Get db2 s2 key_b = Some (a1, b1, Inr large) \<and> db_Get db3 s3 key_b = Some (a2, b2, Inl ErrKeyNotFound)"
proof -
  let ?x = "(key_b, 1, Some large) :: op" and ?y = "(key_a, 2, Some [1]) :: op" and ?z = "(key_c, 3, Some [3]) :: op" and ?u = "(key_a, 4, Some [4]) :: op"
  let ?HH = "[[?x], [?y, ?z], [?u]]"
  obtain db0 s0 db s where d: "db_start db0 s0" "db_run (db0, s0) [(key_b, Some large), (key_a, Some [1]), (key_c, Some [3]), (key_a, Some [4])] (db, s)"
      "healthy db s" "db_rep Map.empty Map.empty db s ?HH" "db_imm db = [0, 1]" "db_mem db = 2" "db_seqNum db = 4" "vs_current (db_versions db) = newVersion"
      "vs_nextFileNum (db_versions db) = 1" using demo_cover by (elim exE conjE) (rule that)
  have nx: "vs_nextFileNum (db_versions db) + 1 \<noteq> 0" using d(9) by simp
  obtain db2 s2 T f where r: "doFlush_round db s = Some (db2, s2, True)" "healthy db2 s2" "db_rep T [1 \<mapsto> [?x]] db2 s2 ?HH" "db_imm db2 = [1]"
      "db_mem db2 = 2" "db_seqNum db2 = 4" "fm_FileNum f = 1" "range_of f [?x]" "level0_grows newVersion f (vs_current (db_versions db2))"
      "vs_nextFileNum (db_versions db2) = 2"
    using demo_round [OF d(4,3,5) nx] d(6-9) by auto
  have nx2: "vs_nextFileNum (db_versions db2) + 1 \<noteq> 0" using r(10) by simp
  obtain db3 s3 T3 f3 where r3: "doFlush_round db2 s2 = Some (db3, s3, True)" "healthy db3 s3" "db_rep T3 [1 \<mapsto> [?x], 2 \<mapsto> [?y, ?z]] db3 s3 ?HH" "db_imm db3 = []"
      "db_mem db3 = 2" "db_seqNum db3 = 4" "fm_FileNum f3 = 2" "range_of f3 [?y, ?z]"
      "level0_grows (vs_current (db_versions db2)) f3 (vs_current (db_versions db3))"
    using demo_round [OF r(3,2,4) nx2] r(5-10) by auto
  have k: "plain_key key_b" by (simp add: plain_key_def)
  have "covers f key_b" using range_single [OF r(8)] by simp
  then have df: "deciding_file (vs_current (db_versions db2)) key_b = Some f" by (rule deciding_grown [OF r(9) newVersion_levels])
  have o: "fst (op_entry ?y) < fst (op_entry ?z)" by code_simp
  have l2: "length (v_Levels (vs_current (db_versions db2))) = NumLevels" using r(3) by (simp add: db_rep_def)
  have "set [?y, ?z] = {?y, ?z}" by auto
  from range_two [OF r3(8) this o] have "covers f3 key_b" by (simp add: covers_def word_le_nat_alt word_less_nat_alt)
  then have df3: "deciding_file (vs_current (db_versions db3)) key_b = Some f3" by (rule deciding_grown [OF r3(9) l2])
  obtain a1 b1 where g1: "db_Get db2 s2 key_b = Some (a1, b1, Inr large)"
    using db_Get_ok [OF r(3) k] r(2,4-7) df by (auto simp: db_answer_def hist_def visible_def answer_def word_le_nat_alt)
  obtain a2 b2 where g2: "db_Get db3 s3 key_b = Some (a2, b2, Inl ErrKeyNotFound)"
    using db_Get_ok [OF r3(3) k] r3(2,4-7) df3 by (auto simp: db_answer_def hist_def visible_def answer_def)
  have "faults s3 = []" using r3(2) by (simp add: healthy_def)
  then show ?thesis using d(1,2) r(1) r3(1) g1 g2 by blast
qed

end
