(* ===== verification/Lsm_Store.thy ===== *)
theory Lsm_Store
  imports Lsm_Run
begin

text \<open>
  What a database keeps over a run that flushes and compacts. Its tables and memtables hold exactly the
  versions written; the files above level 0 have disjoint ranges, in order; the compaction loop comes to
  an end. The example at the end has four tables in level 0, which a compaction merges.
\<close>

section \<open>Contents\<close>

text \<open>The versions held by the tables on disk and by the memtables.\<close>

definition stored :: "DB \<Rightarrow> os \<Rightarrow> op set \<Rightarrow> bool" where
  "stored db s X \<longleftrightarrow> (\<exists>T F HH. db_rep T F db s HH \<and> X = table_ops F (vs_current (db_versions db)) \<union> set (hist HH (live_mems db)))"

text \<open>C12: Nothing is lost and nothing is invented. After any run, with whatever flushes, compactions and failing
  calls, the live tables on disk and the memtables hold exactly the versions written, a write each,
  with increasing sequence numbers; in particular a compaction drops no version and no tombstone.\<close>

theorem stored_versions:
  assumes "db_start db0 s0" and "db_run (db0, s0) ws (db, s)"
  shows "\<exists>xs. map (\<lambda>x. (fst x, snd (snd x))) xs = ws \<and> sorted_wrt (<) (map op_seq xs) \<and> stored db s (set xs)"
proof -
  obtain T F HH Hv where rep: "db_rep T F db s HH" and tot: "total_inv F db HH ws Hv"
    using db_run_ok [OF assms(2)] assms(1) by (auto simp: run_inv_def)
  then have "stored db s (set (Hv @ hist HH (live_mems db)))"
    unfolding stored_def by (intro exI [of _ T] exI [of _ F] exI [of _ HH]) (simp add: total_inv_def)
  with tot show ?thesis by (intro exI [of _ "Hv @ hist HH (live_mems db)"]) (simp add: total_inv_def as_ops_def)
qed

section \<open>Levels\<close>

lemma distinct_concat_map:
  assumes "\<forall>l<length ls. distinct (map g (ls ! l))"
    and "\<forall>l<length ls. \<forall>m<length ls. \<forall>x\<in>set (ls ! l). \<forall>y\<in>set (ls ! m). g x = g y \<longrightarrow> l = m"
  shows "distinct (map g (concat ls))"
  using assms
proof (induction ls)
  case (Cons xs ls)
  have tl: "distinct (map g (concat ls))"
  proof (rule Cons.IH)
    show "\<forall>l<length ls. distinct (map g (ls ! l))" using Cons.prems(1) by fastforce
    show "\<forall>l<length ls. \<forall>m<length ls. \<forall>x\<in>set (ls ! l). \<forall>y\<in>set (ls ! m). g x = g y \<longrightarrow> l = m"
      using Cons.prems(2) by (metis (no_types, lifting) Suc_inject Suc_mono length_Cons nth_Cons_Suc)
  qed
  have "g x \<noteq> g y" if xy: "x \<in> set xs" "y \<in> set (concat ls)" for x y
  proof
    assume e: "g x = g y"
    obtain m where m: "m < length ls" "y \<in> set (ls ! m)" using xy(2) by (auto simp: in_set_conv_nth [of _ ls])
    have "0 = Suc m" using Cons.prems(2) [rule_format, of 0 "Suc m" x y] xy(1) m e by simp
    then show False by simp
  qed
  then have "g ` set xs \<inter> g ` set (concat ls) = {}" by blast
  then show ?case using tl Cons.prems(1) [rule_format, of 0] by simp
qed simp

text \<open>C13: The invariant that lookups search a level by. In a database reached by a run whose writes fit an
  empty memtable, so that no empty table is flushed, the files of each level above 0 are in the order of
  their ranges, which do not overlap, every file's smallest key is at most its largest, and no file number
  occurs twice, neither in a level nor in two levels.\<close>

theorem level_ranges:
  assumes "db_start db0 s0" and "db_run (db0, s0) ws (db, s)"
  shows "(\<forall>l. 0 < l \<longrightarrow> l < NumLevels \<longrightarrow> sorted_wrt (\<lambda>f g. fm_LargestKey f < fm_SmallestKey g) (v_Levels (vs_current (db_versions db)) ! l)) \<and>
    (\<forall>f\<in>set (concat (v_Levels (vs_current (db_versions db)))). fm_SmallestKey f \<le> fm_LargestKey f) \<and>
    distinct (map fm_FileNum (concat (v_Levels (vs_current (db_versions db)))))"
proof -
  let ?v = "vs_current (db_versions db)"
  obtain T F HH where inv: "store_inv F db HH" using db_run_ok [OF assms(2)] assms(1) by (auto simp: run_inv_def)
  have v: "length (v_Levels ?v) = NumLevels" "\<forall>f\<in>live_files ?v. ranged F f" "levels_inv (v_Levels ?v)"
    using inv by (simp_all add: store_inv_def version_inv_def)
  have "live_files ?v = set (concat (v_Levels ?v))" using v(1) by (auto simp: live_files_def set_conv_nth [of "v_Levels ?v"])
  then have le: "\<forall>f\<in>set (concat (v_Levels ?v)). fm_SmallestKey f \<le> fm_LargestKey f" using v(2) ranged_keys(1) by blast
  have "sorted_wrt (\<lambda>f g. fm_LargestKey f < fm_SmallestKey g) (v_Levels ?v ! l)" if "0 < l" "l < NumLevels" for l
    using v(3) that by (simp add: levels_inv_def before_def [abs_def])
  moreover have "distinct (map fm_FileNum (concat (v_Levels ?v)))" 
    using v(1,3) by (intro distinct_concat_map) (simp_all add: levels_inv_def)
  ultimately show ?thesis using le by blast
qed

section \<open>The compaction loop\<close>

lemma db_run_trans: "db_run y ws' z \<Longrightarrow> db_run x ws y \<Longrightarrow> db_run x (ws @ ws') z"
proof (induction rule: db_run.induct)
  case (run_step y ws1 z1 ws2 z2)
  from db_run.run_step [OF run_step.IH [OF run_step.prems] run_step.hyps(2)] show ?case by simp
qed simp

text \<open>A level that is above its target size is not empty.\<close>

lemma largest_file_None: "largest_file fs = None \<Longrightarrow> fs = []"
proof -
  have "fold (\<lambda>f pick. case pick of None \<Rightarrow> Some f | Some p \<Rightarrow> if fm_Size p < fm_Size f then Some f else Some p) fs (Some g) \<noteq> None" for g and fs :: "FileMeta list"
    by (induction fs arbitrary: g) auto
  then show "largest_file fs = None \<Longrightarrow> fs = []" by (cases fs) (auto simp: largest_file_def)
qed

lemma nothing_to_compact:
  assumes "pickCompaction nilk v = None"
  shows "length (v_Levels v ! 0) < 4" and "0 < l \<Longrightarrow> l < NumLevels - 1 \<Longrightarrow> version_levelSize v l \<le> targetLevelSize l"
proof -
  have n: "length (v_Levels v ! 0) < 4"
    "case find (\<lambda>level. targetLevelSize level < version_levelSize v level) [1..<NumLevels - 1] of None \<Rightarrow> True | Some level \<Rightarrow> pickLevelCompaction v level = None"
    using assms by (auto simp: pickCompaction_def split: if_splits option.splits)
  show "length (v_Levels v ! 0) < 4" by (rule n(1))
  show "version_levelSize v l \<le> targetLevelSize l" if l: "0 < l" "l < NumLevels - 1"
  proof (cases "find (\<lambda>level. targetLevelSize level < version_levelSize v level) [1..<NumLevels - 1]")
    case None
    then have "l \<notin> set [1..<NumLevels - 1] \<or> version_levelSize v l \<le> targetLevelSize l" unfolding find_None_iff by (auto simp: not_less)
    then show ?thesis using l by simp
  next
    case (Some m)
    then have "largest_file (v_Levels v ! m) = None" using n(2) by (simp add: pickLevelCompaction_def)
    then have "v_Levels v ! m = []" by (rule largest_file_None)
    moreover have "targetLevelSize m < version_levelSize v m" using Some unfolding find_Some_iff by auto
    ultimately show ?thesis by (simp add: version_levelSize_def)
  qed
qed

text \<open>The loop is a run of compaction steps.\<close>

lemma doCompaction_run:
  "db_rep T F db s HH \<Longrightarrow> store_inv F db HH \<Longrightarrow>
    unat (vs_nextFileNum (db_versions db)) + (weight F (vs_current (db_versions db)) + 1) * unat (db_seqNum db) < 2 ^ 64 \<Longrightarrow>
    \<exists>x. doCompaction nilk db s = Some x \<and> db_run (db, s) [] x"
proof (induction "weight F (vs_current (db_versions db))" arbitrary: T F db s rule: less_induct)
  case less
  let ?n = "\<lambda>db. unat (vs_nextFileNum (db_versions db))" and ?w = "\<lambda>F db. weight F (vs_current (db_versions db))"
  have nb: "?n db + unat (db_seqNum db) < 2 ^ 64" using less.prems(3) by simp
  obtain db1 s1 ok T1 F1 where r: "doCompaction_round nilk db s = Some (db1, s1, ok)" "compaction_keeps T F db HH db1 s1 T1 F1"
      "?n db1 \<le> ?n db + unat (db_seqNum db)" "ok \<longrightarrow> ?w F1 db1 < ?w F db"
    using doCompaction_round_ok [OF less.prems(1,2) nb, of nilk] by (elim exE conjE) (rule that)
  have st: "db_run (db, s) [] (db1, s1)" using run_step [OF run_refl step_compact [OF nb r(1)]] by simp
  show ?case
  proof (cases ok)
    case False
    then have "doCompaction nilk db s = Some (db1, s1)" using r(1) by (subst doCompaction.simps) simp
    then show ?thesis using st by blast
  next
    case True
    have k: "db_rep T1 F1 db1 s1 HH" "store_inv F1 db1 HH" "db_seqNum db1 = db_seqNum db" using r(2) by (simp_all add: compaction_keeps_def keeps_def)
    have lt: "?w F1 db1 < ?w F db" using r(4) True by simp
    have "(?w F1 db1 + 1) * unat (db_seqNum db) \<le> ?w F db * unat (db_seqNum db)" using lt by (intro mult_le_mono1) simp
    then have "?n db1 + (?w F1 db1 + 1) * unat (db_seqNum db1) < 2 ^ 64" using r(3) k(3) less.prems(3) by simp
    from less.hyps [OF lt k(1,2) this] obtain x where "doCompaction nilk db1 s1 = Some x" "db_run (db1, s1) [] x" by blast
    moreover have "doCompaction nilk db s = doCompaction nilk db1 s1" using r(1) True by (subst doCompaction.simps) simp
    ultimately show ?thesis using db_run_trans [OF _ st] by auto
  qed
qed

lemma doCompaction_reaches:
  assumes "db_start db0 s0" and "db_run (db0, s0) ws (db, s)"
    and "unat (vs_nextFileNum (db_versions db)) + (6 * (unat (db_seqNum db) * length (concat (v_Levels (vs_current (db_versions db))))) + 1) *
      unat (db_seqNum db) < 2 ^ 64"
  shows "\<exists>db' s'. doCompaction nilk db s = Some (db', s') \<and> db_run (db0, s0) ws (db', s') \<and>
    (healthy db s \<longrightarrow> healthy db' s' \<and> pickCompaction nilk (vs_current (db_versions db')) = None)"
proof -
  let ?v = "vs_current (db_versions db)" and ?q = "unat (db_seqNum db)"
  obtain T F HH where rep: "db_rep T F db s HH" and inv: "store_inv F db HH" using db_run_ok [OF assms(2)] assms(1) by (auto simp: run_inv_def)
  have "(weight F ?v + 1) * ?q \<le> (6 * (?q * length (concat (v_Levels ?v))) + 1) * ?q"
    using weight_bound [OF rep inv] by (intro mult_le_mono1 add_le_mono1)
  then have nb: "unat (vs_nextFileNum (db_versions db)) + (weight F ?v + 1) * ?q < 2 ^ 64" using le_less_trans [OF add_left_mono assms(3)] by blast
  obtain db' s' where c: "doCompaction nilk db s = Some (db', s')" "db_run (db, s) [] (db', s')"
    using doCompaction_run [OF rep inv nb, of nilk] by auto
  have "db_run (db0, s0) ws (db', s')" using db_run_trans [OF c(2) assms(2)] by simp
  then show ?thesis using doCompaction_ok [OF rep inv nb, of nilk] c(1) by auto
qed

text \<open>C14: The compaction loop returns. It comes to an end, whatever calls fail, in a state that is reached by a
  run with the same writes, so that all other properties hold of it. When no call fails, there is nothing left
  to compact: level 0 has fewer than four tables, and each level up to the last but one is within its target
  size. The bound keeps the file numbers from running out.\<close>

theorem doCompaction_returns:
  assumes "db_start db0 s0" and "db_run (db0, s0) ws (db, s)"
    and "unat (vs_nextFileNum (db_versions db)) + (6 * (unat (db_seqNum db) * length (concat (v_Levels (vs_current (db_versions db))))) + 1) *
      unat (db_seqNum db) < 2 ^ 64"
  shows "\<exists>db' s'. doCompaction nilk db s = Some (db', s') \<and> db_run (db0, s0) ws (db', s') \<and>
    (healthy db s \<longrightarrow> healthy db' s' \<and> length (v_Levels (vs_current (db_versions db')) ! 0) < 4 \<and>
       (\<forall>l. 0 < l \<longrightarrow> l < NumLevels - 1 \<longrightarrow> version_levelSize (vs_current (db_versions db')) l \<le> targetLevelSize l))"
  using doCompaction_reaches [OF assms, of nilk] nothing_to_compact by blast

section \<open>An example\<close>

text \<open>Large writes each fill a memtable.\<close>

abbreviation demo_op :: "nat \<Rightarrow> op" where "demo_op i \<equiv> (key_a, of_nat (Suc i), Some large)"

lemma demo_writes:
  "n < 100 \<Longrightarrow> \<exists>db0 s0 db s. db_start db0 s0 \<and> db_run (db0, s0) (replicate (Suc n) (key_a, Some large)) (db, s) \<and> healthy db s \<and>
     db_rep Map.empty Map.empty db s (map (\<lambda>i. [demo_op i]) [0..<Suc n]) \<and> db_imm db = [0..<n] \<and> db_mem db = n \<and>
     db_seqNum db = of_nat (Suc n) \<and> vs_current (db_versions db) = newVersion \<and> vs_nextFileNum (db_versions db) = 1 \<and> mem_size db = 320"
proof (induction n)
  have sz: "op_size (key_a, q, Some large) = 215" for q by (simp add: op_size_def maxNodeSize op_entry_def large_def)
  have fits: "op_fits db (key_a, Some large)" if "mem_size db = 320" for db using that sz by (simp add: op_fits_def plain_key_def)
  case 0
  obtain db0 s0 where d: "db_start db0 s0" "healthy db0 s0" "mem_size db0 = 320" using demo_open by blast
  note o = open_ok [OF d(1)]
  have q0: "unat (db_seqNum db0) + 1 < 2 ^ 48" "demo_op 0 = (key_a, db_seqNum db0 + 1, Some large)" using o by simp_all
  obtain db1 where w1: "db_step (db0, s0) [(key_a, Some large)] (db1, s0)" "healthy db1 s0" "db_seqNum db1 = 1" "mem_size db1 = 320"
      "vs_current (db_versions db1) = newVersion" "vs_nextFileNum (db_versions db1) = 1"
      "db_rep Map.empty Map.empty db1 s0 [[demo_op 0]]" "db_mem db1 = 0" "db_imm db1 = []"
    using db_write_where [OF conjunct1 [OF o] fits [OF d(3)] q0(1) d(2) q0(2)] o d(3) sz by (auto simp: room_def split: if_splits)
  moreover have "db_run (db0, s0) (replicate (Suc 0) (key_a, Some large)) (db1, s0)" using run_step [OF run_refl w1(1)] by simp
  ultimately show ?case using d(1) by (intro exI [of _ db0] exI [of _ s0] exI [of _ db1]) simp
next
  have sz: "op_size (key_a, q, Some large) = 215" for q by (simp add: op_size_def maxNodeSize op_entry_def large_def)
  have fits: "op_fits db (key_a, Some large)" if "mem_size db = 320" for db using that sz by (simp add: op_fits_def plain_key_def)
  case (Suc n)
  let ?HH = "map (\<lambda>i. [demo_op i]) [0..<Suc n]"
  obtain db0 s0 db s where d: "db_start db0 s0" "db_run (db0, s0) (replicate (Suc n) (key_a, Some large)) (db, s)" "healthy db s"
      "db_rep Map.empty Map.empty db s ?HH" "db_imm db = [0..<n]" "db_mem db = n" "db_seqNum db = of_nat (Suc n)"
      "vs_current (db_versions db) = newVersion" "vs_nextFileNum (db_versions db) = 1" "mem_size db = 320"
    using Suc.IH [OF Suc_lessD [OF Suc.prems]] by (elim exE conjE) (rule that)
  have "unat (of_nat (Suc n) :: u64) = Suc n" using Suc.prems by (simp only: unat_of_nat) simp
  then have q: "unat (db_seqNum db) + 1 < 2 ^ 48" "demo_op (Suc n) = (key_a, db_seqNum db + 1, Some large)" using Suc.prems d(7) by (simp_all add: add.commute)
  have at: "?HH ! db_mem db = [demo_op n]" unfolding d(6) by (simp add: nth_append del: upt_Suc of_nat_Suc)
  have rm: "\<not> room (?HH ! db_mem db @ [demo_op (Suc n)]) \<le> mem_size db" unfolding at d(10) by (simp add: room_def sz del: of_nat_Suc)
  obtain db' where w: "db_step (db, s) [(key_a, Some large)] (db', s)" "healthy db' s" "db_seqNum db' = db_seqNum db + 1" "mem_size db' = mem_size db"
      "vs_current (db_versions db') = vs_current (db_versions db)" "vs_nextFileNum (db_versions db') = vs_nextFileNum (db_versions db)"
      "db_rep Map.empty Map.empty db' s (?HH @ [[demo_op (Suc n)]])" "db_mem db' = length ?HH" "db_imm db' = live_mems db"
    using db_write_where [OF d(4) fits [OF d(10)] q(1) d(3) q(2)] unfolding if_not_P [OF rm] by (elim exE conjE) (rule that)
  have "db_run (db0, s0) (replicate (Suc n) (key_a, Some large) @ [(key_a, Some large)]) (db', s)" by (rule run_step [OF d(2) w(1)])
  then have run: "db_run (db0, s0) (replicate (Suc (Suc n)) (key_a, Some large)) (db', s)" by (simp add: replicate_append_same)
  have h: "?HH @ [[demo_op (Suc n)]] = map (\<lambda>i. [demo_op i]) [0..<Suc (Suc n)]" by (simp del: of_nat_Suc)
  show ?case using d(1) run w(2) w(7) [unfolded h] w(3-6,8,9) d(5-10)
    by (intro exI [of _ db0] exI [of _ s0] exI [of _ db'] exI [of _ s]) (simp add: add.commute del: replicate_Suc)
qed

text \<open>Rounds without failing calls flush all sealed memtables.\<close>

lemma demo_flushes:
  "db_rep T F db s HH \<Longrightarrow> healthy db s \<Longrightarrow> unat (vs_nextFileNum (db_versions db)) + length (db_imm db) < 2 ^ 64 \<Longrightarrow>
    \<exists>db' s'. db_run (db, s) [] (db', s') \<and> healthy db' s' \<and> db_imm db' = [] \<and> db_seqNum db' = db_seqNum db \<and>
      unat (vs_nextFileNum (db_versions db')) = unat (vs_nextFileNum (db_versions db)) + length (db_imm db) \<and>
      length (v_Levels (vs_current (db_versions db')) ! 0) = length (v_Levels (vs_current (db_versions db)) ! 0) + length (db_imm db) \<and>
      length (concat (v_Levels (vs_current (db_versions db')))) = length (concat (v_Levels (vs_current (db_versions db)))) + length (db_imm db)"
proof (induction "db_imm db" arbitrary: T F db s)
  case Nil
  then show ?case using run_refl by (intro exI [of _ db] exI [of _ s]) simp
next
  case (Cons i rest)
  let ?n = "vs_nextFileNum (db_versions db)" and ?v = "vs_current (db_versions db)"
  have len: "length (db_imm db) = Suc (length rest)" using arg_cong [OF Cons.hyps(2), of length] by simp
  have n: "unat (?n + 1) = unat ?n + 1" using Cons.prems(3) len unat_add_lem [of ?n 1, THEN iffD1] by simp
  then have nx: "?n + 1 \<noteq> 0" by auto
  obtain db1 s1 T1 f where r: "db_step (db, s) [] (db1, s1)" "healthy db1 s1" "db_rep T1 (F(?n \<mapsto> HH ! i)) db1 s1 HH" "db_imm db1 = rest"
      "db_seqNum db1 = db_seqNum db" "vs_nextFileNum (db_versions db1) = ?n + 1" "level0_grows ?v f (vs_current (db_versions db1))"
    using demo_round [OF Cons.prems(1,2) Cons.hyps(2) [symmetric] nx] by (elim exE conjE) (rule that)
  have "length (v_Levels ?v) = NumLevels" using Cons.prems(1) by (simp add: db_rep_def)
  from level0_grows_levels [OF r(7) this] obtain l0 ls where l: "v_Levels ?v = l0 # ls"
      "v_Levels (vs_current (db_versions db1)) = (l0 @ [f]) # map (sort_key fm_SmallestKey) ls" by blast
  have c: "length (concat (map (sort_key fm_SmallestKey) ls)) = length (concat ls)" for ls :: "FileMeta list list" by (induction ls) auto
  have "unat (vs_nextFileNum (db_versions db1)) + length (db_imm db1) < 2 ^ 64" using Cons.prems(3) len n unfolding r(4,6) by simp
  from Cons.hyps(1) [OF r(4) [symmetric] r(3,2) this] obtain db' s' where i: "db_run (db1, s1) [] (db', s')" "healthy db' s'" "db_imm db' = []"
      "db_seqNum db' = db_seqNum db1" "unat (vs_nextFileNum (db_versions db')) = unat (vs_nextFileNum (db_versions db1)) + length (db_imm db1)"
      "length (v_Levels (vs_current (db_versions db')) ! 0) = length (v_Levels (vs_current (db_versions db1)) ! 0) + length (db_imm db1)"
      "length (concat (v_Levels (vs_current (db_versions db')))) = length (concat (v_Levels (vs_current (db_versions db1)))) + length (db_imm db1)"
    by (elim exE conjE) (rule that)
  have "db_run (db, s) [] (db', s')" using db_run_trans [OF i(1) run_step [OF run_refl r(1)]] by simp
  then show ?case using i(2-7) r(4-6) n l c len by (intro exI [of _ db'] exI [of _ s']) (simp del: length_concat)
qed

text \<open>Four tables in level 0.\<close>

lemma demo_tables:
  "\<exists>db0 s0 db s. db_start db0 s0 \<and> db_run (db0, s0) (replicate 5 (key_a, Some large)) (db, s) \<and> healthy db s \<and> db_seqNum db = 5 \<and>
     unat (vs_nextFileNum (db_versions db)) = 5 \<and> length (v_Levels (vs_current (db_versions db)) ! 0) = 4 \<and>
     length (concat (v_Levels (vs_current (db_versions db)))) = 4"
proof -
  have four: "4 < (100 :: nat)" by simp
  obtain db0 s0 db s where d: "db_start db0 s0" "db_run (db0, s0) (replicate (Suc 4) (key_a, Some large)) (db, s)" "healthy db s"
      "db_rep Map.empty Map.empty db s (map (\<lambda>i. [demo_op i]) [0..<Suc 4])" "db_imm db = [0..<4]" "db_seqNum db = of_nat (Suc 4)"
      "vs_current (db_versions db) = newVersion" "vs_nextFileNum (db_versions db) = 1"
    using demo_writes [OF four] by (elim exE conjE) (rule that)
  have n: "unat (vs_nextFileNum (db_versions db)) + length (db_imm db) < 2 ^ 64" using d(5,8) by simp
  have v: "length (v_Levels newVersion ! 0) = 0" "length (concat (v_Levels newVersion)) = 0" by (simp_all add: newVersion_def NumLevels_def)
  obtain db1 s1 where f: "db_run (db, s) [] (db1, s1)" "healthy db1 s1" "db_seqNum db1 = db_seqNum db"
      "unat (vs_nextFileNum (db_versions db1)) = unat (vs_nextFileNum (db_versions db)) + length (db_imm db)"
      "length (v_Levels (vs_current (db_versions db1)) ! 0) = length (v_Levels (vs_current (db_versions db)) ! 0) + length (db_imm db)"
      "length (concat (v_Levels (vs_current (db_versions db1)))) = length (concat (v_Levels (vs_current (db_versions db)))) + length (db_imm db)"
    using demo_flushes [OF d(4,3) n] by (elim exE conjE) (rule that)
  have "db_run (db0, s0) (replicate 5 (key_a, Some large)) (db1, s1)" using db_run_trans [OF f(1) d(2)] by (simp add: eval_nat_numeral)
  then show ?thesis using d(1,5-8) f(2-6) v
    by (intro exI [of _ db0] exI [of _ s0] exI [of _ db1] exI [of _ s1]) simp
qed

lemma demo_bound:
  assumes "db_seqNum db = 5" and "unat (vs_nextFileNum (db_versions db)) = 5" and "length (concat (v_Levels (vs_current (db_versions db)))) = 4"
  shows "unat (vs_nextFileNum (db_versions db)) + (6 * (unat (db_seqNum db) * length (concat (v_Levels (vs_current (db_versions db))))) + 1) *
      unat (db_seqNum db) < 2 ^ 64"
  unfolding assms by simp

text \<open>The tables merged.\<close>

lemma demo_compacted:
  "\<exists>db0 s0 db s. db_start db0 s0 \<and> db_run (db0, s0) (replicate 5 (key_a, Some large)) (db, s) \<and> healthy db s \<and>
     length (v_Levels (vs_current (db_versions db)) ! 0) < 4"
proof -
  obtain db0 s0 db s where d: "db_start db0 s0" "db_run (db0, s0) (replicate 5 (key_a, Some large)) (db, s)" "healthy db s" "db_seqNum db = 5"
      "unat (vs_nextFileNum (db_versions db)) = 5" "length (concat (v_Levels (vs_current (db_versions db)))) = 4"
    using demo_tables by (elim exE conjE) (rule that)
  from doCompaction_reaches [OF d(1,2) demo_bound [OF d(4-6)], of "\<lambda>_. False"] d(1,3) nothing_to_compact(1) show ?thesis by blast
qed

theorem stored_versions_witness:
  "\<exists>db0 s0 db s xs. db_start db0 s0 \<and> db_run (db0, s0) (replicate 5 (key_a, Some large)) (db, s) \<and>
     length (v_Levels (vs_current (db_versions db)) ! 0) < 4 \<and> length xs = 5 \<and> sorted_wrt (<) (map op_seq xs) \<and> stored db s (set xs)"
proof -
  obtain db0 s0 db s where d: "db_start db0 s0" "db_run (db0, s0) (replicate 5 (key_a, Some large)) (db, s)"
      "length (v_Levels (vs_current (db_versions db)) ! 0) < 4" using demo_compacted by blast
  obtain xs where x: "map (\<lambda>x. (fst x, snd (snd x))) xs = replicate 5 (key_a, Some large)" "sorted_wrt (<) (map op_seq xs)" "stored db s (set xs)"
    using stored_versions [OF d(1,2)] by blast
  have "length xs = 5" using arg_cong [OF x(1), of length] by simp
  then show ?thesis using d x(2,3) by blast
qed

theorem level_ranges_witness:
  "\<exists>db0 s0 db s. db_start db0 s0 \<and> db_run (db0, s0) (replicate 5 (key_a, Some large)) (db, s) \<and>
     length (v_Levels (vs_current (db_versions db)) ! 0) = 4 \<and> distinct (map fm_FileNum (concat (v_Levels (vs_current (db_versions db)))))"
proof -
  obtain db0 s0 db s where d: "db_start db0 s0" "db_run (db0, s0) (replicate 5 (key_a, Some large)) (db, s)"
      "length (v_Levels (vs_current (db_versions db)) ! 0) = 4" using demo_tables by blast
  from d level_ranges [OF d(1,2)] show ?thesis by blast
qed

theorem doCompaction_returns_witness:
  "\<exists>db0 s0 db s db' s'. db_start db0 s0 \<and> db_run (db0, s0) (replicate 5 (key_a, Some large)) (db, s) \<and>
     length (v_Levels (vs_current (db_versions db)) ! 0) = 4 \<and> doCompaction (\<lambda>_. False) db s = Some (db', s') \<and>
     length (v_Levels (vs_current (db_versions db')) ! 0) < 4"
proof -
  obtain db0 s0 db s where d: "db_start db0 s0" "db_run (db0, s0) (replicate 5 (key_a, Some large)) (db, s)" "healthy db s" "db_seqNum db = 5"
      "unat (vs_nextFileNum (db_versions db)) = 5" "length (v_Levels (vs_current (db_versions db)) ! 0) = 4"
      "length (concat (v_Levels (vs_current (db_versions db)))) = 4"
    using demo_tables by (elim exE conjE) (rule that)
  from doCompaction_returns [OF d(1,2) demo_bound [OF d(4,5,7)], of "\<lambda>_. False"] d(1-3,6) show ?thesis by blast
qed

end
