(* ===== verification/Scan_Correct.thy ===== *)
theory Scan_Correct
  imports Scan Lsm_Store
begin

text \<open>
  What iterating over a database yields, as long as its contents are in memtables: the live keys in order,
  each with the value last written. The merge of the memtables runs through all versions; the iterator
  takes the newest of each user key and passes over the others and over tombstones.
\<close>

section \<open>Merges of memtables\<close>











section \<open>The visible entries of a list of versions\<close>














section \<open>Histories\<close>













section \<open>The database\<close>

lemma grab_same [simp]: "db_versions (fst (grab_mems db)) = db_versions db" "db_mem (fst (grab_mems db)) = db_mem db"
    "db_imm (fst (grab_mems db)) = db_imm db"
  unfolding grab_mems_def fst_conv by (subst update_mems_only, simp)+






end
