(* ===== verification/Spec2Isabelle.thy ===== *)
theory Spec2Isabelle
  imports Codec_Instance Scan_Correct
begin

text \<open>
  A verification development for \<^verbatim>\<open>indexedwatch\<close>, a Go library with a write-ahead log, a
  schema registry on top of it, and an LSM-tree store. Definitions keep the names of the source, with
  a prefix where a name is used by several components.

  The log, bottom up:

  \<^item> \<^verbatim>\<open>Prelude\<close>: machine types, byte order, \<^verbatim>\<open>encoding/binary\<close>. \<^verbatim>\<open>Varint\<close>: its
    variable-length integers.
  \<^item> \<^verbatim>\<open>Crc\<close> (\<^verbatim>\<open>pkg/crc/crc.go\<close>): the digest, bit by bit over the Castagnoli polynomial;
    chaining, and the detection of every changed byte.
  \<^item> \<^verbatim>\<open>Go_IO\<close>: the operating system as the code uses it. A file has its contents and the part
    that an \<^verbatim>\<open>fsync\<close> made durable; every call that opens, creates, writes, truncates, syncs, closes or
    removes a file consumes one entry of a fault list, which decides whether it succeeds, fails, or (for a
    write) stops short. Reading the bytes of an open file does not fail. After a \<open>crash\<close> each file holds a
    prefix of its contents, at least as long as its synced contents, and the entries of the directory are
    as before; the code never syncs a directory, so this is an assumption on the file system.
    \<^verbatim>\<open>File_Frame\<close>: a write to a file leaves the other files alone.
  \<^item> \<^verbatim>\<open>PageWriter\<close>, \<^verbatim>\<open>Encoder\<close>, \<^verbatim>\<open>Decoder\<close> (the files of these names in
    \<^verbatim>\<open>pkg/wal\<close>): a record of state and one definition per method. The writer below is a
    parameter, its contract the locale \<^verbatim>\<open>io_writer\<close>, interpreted by the files of \<^verbatim>\<open>Go_IO\<close> and by
    a buffer in memory. Protobuf is generated code: the codec is a pair of parameters \<open>m\<close>, \<open>u\<close> with
    the hypothesis \<open>proto_codec m u\<close> (what is marshalled is unmarshalled), which
    \<^verbatim>\<open>Codec_Instance\<close> instantiates by a concrete codec for the witnesses.
  \<^item> \<^verbatim>\<open>Wal\<close> (\<^verbatim>\<open>wal.go\<close>, \<^verbatim>\<open>options.go\<close>, \<^verbatim>\<open>errors.go\<close>): the log as a record and one
    definition per function, every error branch included. \<^verbatim>\<open>Wal_Log\<close> gives the abstract log (a list
    of payloads), the relation \<open>wal_repr\<close> between the files and it, and shows that each operation
    keeps it; \<^verbatim>\<open>Wal_Recovery\<close> does so for closing, opening, reading and crashes and defines
    \<open>wal_run\<close>, the states reached by successful calls, with the payloads appended and how many of them
    are synced.
  \<^item> \<^verbatim>\<open>SyncGroup\<close> (\<^verbatim>\<open>sync_group.go\<close>): group commit as a step relation. A caller is idle, a
    follower waiting on its channel, the leader of a batch, notifying, or returned; appends of other
    goroutines interleave. The events record the order of appends and sync rounds.
  \<^item> \<^verbatim>\<open>Schema\<close>, \<^verbatim>\<open>Registry\<close> (\<^verbatim>\<open>pkg/schema\<close>): schemas, validation, log entries, the
    registry's operations over the log. The registry sees the log through the locale
    \<^verbatim>\<open>wal_log\<close>, which the log of \<^verbatim>\<open>Wal_Recovery\<close> interprets.

  The parts of the store (\<^verbatim>\<open>pkg/lsm\<close>):

  \<^item> \<^verbatim>\<open>Arena\<close> (\<^verbatim>\<open>arena\<close>): the allocator. \<^verbatim>\<open>Keys\<close> (\<^verbatim>\<open>memtable/internalkey.go\<close>):
    internal keys and their order. \<^verbatim>\<open>Skiplist\<close> (\<^verbatim>\<open>skiplist\<close>): nodes, towers and links down to the
    bytes of the arena; \<^verbatim>\<open>Skiplist_Correct\<close> relates them to a sorted list of nodes.
    \<^verbatim>\<open>Memtable\<close> (\<^verbatim>\<open>memtable/memtable.go\<close>): versions of user keys in a skiplist, as a history of
    operations.
  \<^item> \<^verbatim>\<open>Block\<close>, \<^verbatim>\<open>Block_Scan\<close>, \<^verbatim>\<open>Bloom\<close> (\<^verbatim>\<open>sstable\<close>): blocks with prefix compression,
    handles, checksums, Bloom filters. \<^verbatim>\<open>Table_Writer\<close>, \<^verbatim>\<open>Table_Reader\<close>, \<^verbatim>\<open>Cache\<close>
    (\<^verbatim>\<open>writer.go\<close>, \<^verbatim>\<open>reader.go\<close>, \<^verbatim>\<open>cache.go\<close>): tables, and the block cache as a linked list
    over a store of entries. \<^verbatim>\<open>Table_Correct\<close>, \<^verbatim>\<open>Table_Lookup\<close> and \<^verbatim>\<open>Table_File\<close> show that what
    is written is what is read, through any cache that holds blocks of tables only.
  \<^item> \<^verbatim>\<open>Version\<close>, \<^verbatim>\<open>Manifest\<close> (\<^verbatim>\<open>version.go\<close>): edits and their encoding, versions, the
    manifest file and its recovery.
  \<^item> \<^verbatim>\<open>Source\<close> is the interface \<^verbatim>\<open>Iterator\<close> as the locale \<open>sorted_source\<close>; the iterators of
    skiplists, tables and merges interpret it. \<^verbatim>\<open>Heap\<close> (\<^verbatim>\<open>container/heap\<close>), \<^verbatim>\<open>Merge\<close>
    (\<^verbatim>\<open>merge_iterator.go\<close>), \<^verbatim>\<open>Lsm_Iter\<close>: a merge of sources is a source.

  The database (\<^verbatim>\<open>pkg/lsm/lsm.go\<close>, \<^verbatim>\<open>flush.go\<close>, \<^verbatim>\<open>compaction.go\<close>):

  \<^item> \<^verbatim>\<open>Lsm\<close>: opening, writes with rotation, lookups in memtables and levels, snapshots, the flush and
    closing. Memtables live in a store and are named by their index. \<^verbatim>\<open>Lsm_Read\<close> and \<^verbatim>\<open>Lsm_State\<close>
    give the state as histories: \<open>db_rep T F db s HH\<close> says that memtable \<open>i\<close> holds the operations \<open>HH ! i\<close>
    and that the file \<open>n\<close> on disk is a table of the operations \<open>F n\<close>. \<^verbatim>\<open>Lsm_Flush\<close>: a flush writes the
    history of the memtable and changes no other file, whatever calls fail.
  \<^item> \<^verbatim>\<open>Compaction\<close>: picking, merging into outputs, the edit, removal, and the loop.
    \<^verbatim>\<open>Compaction_Correct\<close> shows what the outputs hold, \<^verbatim>\<open>Compaction_State\<close> what becomes of the
    histories, \<^verbatim>\<open>Compaction_Levels\<close> that the invariant of the levels is kept and \<^verbatim>\<open>Compaction_Round\<close>
    that the loop ends: a weight falls, the entries of each level counted with the levels below it.
  \<^item> \<^verbatim>\<open>Lsm_Run\<close> defines the runs of a database (\<open>db_run\<close>) as steps that write, look up, take
    snapshots, flush and compact in any order, with any system calls failing, and proves snapshot isolation,
    that with at most one table the database is a map, and where and how that fails with more.
    \<^verbatim>\<open>Lsm_Store\<close>: what the tables and memtables hold after a run, the order of the levels, and the end of
    the compaction loop. The writes of a run fit an empty memtable and have keys without the byte \<open>0xff\<close>;
    a write that does not fit seals an empty memtable and fails, and is in no run.
  \<^item> \<^verbatim>\<open>Scan\<close>: \<^verbatim>\<open>NewIterator\<close> and \<^verbatim>\<open>DBIterator\<close>. While \<^verbatim>\<open>skipUserKey\<close> compares, its user key is a
    slice of a key buffer, which a block iterator may overwrite; whether \<^verbatim>\<open>append\<close> finds room in the
    buffer is the parameter \<open>inplace\<close>. \<^verbatim>\<open>Scan_Correct\<close>: over memtables, whose keys stay, the iterator
    yields the live map in order. Over tables it does not in general, since the slice changes.

  \<open>None\<close> is a runtime panic of Go (a slice out of range, a nil pointer, an allocation that is too large) or a
  loop that does not return. Loops end by structural recursion or a measure, or are partial functions
  (\<open>mi_advance\<close>, \<open>skl_walk\<close>, \<open>link_level\<close>, \<open>flush_loop\<close>, \<open>doFlush\<close>, \<open>compact_loop\<close>, \<open>doCompaction\<close>, \<open>skipUserKey\<close>, \<open>findNextVisible\<close>,
  \<open>skip_below\<close>) that are shown to return, the last three over memtables. Two functions take a number of steps: \<open>read_rest\<close>, which reads a source in the statement
  of a property, with the number of entries, and \<open>cache_shrink\<close>, with the size of the map, from which each step
  removes an entry. Mutexes are modelled by the atomicity of the operation they protect.

  Not modelled: the generated protobuf code (\<^verbatim>\<open>gen\<close>), the command stub (\<^verbatim>\<open>cmd\<close>), the tutorial
  program under \<^verbatim>\<open>docs\<close>; errors of reads from open files (the decoder, the recovery of the MANIFEST and
  the readers of tables get the bytes of the file); the select loops of the goroutines in the background, of which a round
  is a step of a run; the reference counts of versions, which only guard memory; and the closing of the
  table files in \<^verbatim>\<open>Close\<close>, whose results are ignored.

  The properties below span components; those of a single component stand in its theory.
\<close>

section \<open>The log: what was appended is what is read\<close>

text \<open>C1: After any run of successful calls on a new log (appends, syncs, snapshots, reads, close and
  reopen, with rotations in between), \<^verbatim>\<open>ReadAll\<close> returns exactly the appended payloads in
  order, or the error of a failed system call; it never reports corruption or a closed log, and
  without a failing call it does return the payloads.\<close>

theorem wal_read_back:
  assumes codec: "proto_codec m u" and ctl: "storable m CrcType []"
    and run: "wal_run m u msnap opts w s L n" and rd: "WAL_ReadAll u w s = (w', s', res)"
  shows "(res = Inr L \<or> (\<exists>e. res = Inl (ErrIOwrap e))) \<and> (faults s = [] \<longrightarrow> res = Inr L)"
proof -
  from wal_run_repr [OF run codec ctl] obtain olds cur where "wal_repr m w s olds cur" "log_of olds cur = L" by blast
  with ReadAll_step [OF codec _ rd] show ?thesis by blast
qed

theorem wal_read_back_witness:
  "\<exists>w s w' s'. wal_run tiny_marshal tiny_unmarshal no_snapshot DefaultOptions w s [[1]] 1 \<and>
     WAL_ReadAll tiny_unmarshal w s = (w', s', Inr [[1]])"
proof -
  obtain w s where r: "wal_run tiny_marshal tiny_unmarshal no_snapshot DefaultOptions w s [[1]] 1"
    and f: "faults s = []" by (rule tiny_run)
  obtain w' s' res where rd: "WAL_ReadAll tiny_unmarshal w s = (w', s', res)" by (metis prod_cases3)
  from wal_read_back [OF tiny_codec tiny_storable_small(1) r rd] f r rd show ?thesis by blast
qed

lemma run_crash_prefix:
  assumes codec: "proto_codec m u" and ctl: "storable m CrcType []"
    and run: "wal_run m u msnap opts w s L n" and pre: "PreallocSize opts \<le> 0"
    and cr: "crash s s1" and op: "WAL_Open m u s1 opts' = (s2, Inr w2)"
    and rd: "WAL_ReadAll u w2 s2 = (w3, s3, Inr ds)"
  shows "\<exists>k. ds = take k L \<and> n \<le> length ds"
proof -
  from wal_run_repr [OF run codec ctl] pre obtain olds cur
    where r: "wal_repr m w s olds cur" "log_of olds cur = L" "durable m w s olds cur n" by blast
  from crash_open [OF codec r(1,3) cr op] obtain rs k
    where k: "wal_repr m w2 s2 olds rs" "log_of olds rs = take k L" "n \<le> length (log_of olds rs)"
    using r(2) by blast
  have "ds = take k L" using ReadAll_step [OF codec k(1) rd] k(2) by auto
  then show ?thesis using k(2,3) by auto
qed

text \<open>C2: Durability. Take a run of successful calls with a log without preallocation, and a crash after it
  that keeps the entries of the directory and cuts each file to a prefix no shorter than its synced part.
  If a log opened on what is left returns payloads, they are the first payloads of the run in order, and
  at least all those appended before the last successful sync.\<close>

theorem wal_crash_durability:
  assumes codec: "proto_codec m u" and ctl: "storable m CrcType []"
    and run: "wal_run m u msnap opts w s L n" and pre: "PreallocSize opts \<le> 0"
    and cr: "crash s s1" and op: "WAL_Open m u s1 opts' = (s2, Inr w2)"
    and rd: "WAL_ReadAll u w2 s2 = (w3, s3, Inr ds)"
  shows "n \<le> length ds \<and> ds = take (length ds) L"
proof -
  obtain k where k: "ds = take k L" "n \<le> length ds" using run_crash_prefix [OF assms] by blast
  then show ?thesis by (cases "k \<le> length L") auto
qed

theorem wal_crash_durability_witness:
  "\<exists>s s2 w2 w3 s3 ds. crash s s \<and> WAL_Open tiny_marshal tiny_unmarshal s DefaultOptions = (s2, Inr w2) \<and>
     WAL_ReadAll tiny_unmarshal w2 s2 = (w3, s3, Inr ds) \<and> 1 \<le> length ds \<and> ds = take (length ds) [[1]]"
proof -
  obtain w s where r: "wal_run tiny_marshal tiny_unmarshal no_snapshot DefaultOptions w s [[1]] 1"
    and f: "faults s = []" by (rule tiny_run)
  have pre: "PreallocSize DefaultOptions \<le> 0" by (simp add: DefaultOptions_def)
  from wal_run_repr [OF r tiny_codec tiny_storable_small(1)] pre obtain olds cur
    where k: "wal_repr tiny_marshal w s olds cur" "durable tiny_marshal w s olds cur 1" by blast
  from crash_open_live [OF tiny_codec k crash_refl f] obtain s2 w2
    where op: "WAL_Open tiny_marshal tiny_unmarshal s DefaultOptions = (s2, Inr w2)" and f2: "faults s2 = []" by blast
  from crash_open [OF tiny_codec k crash_refl op] obtain rs where "wal_repr tiny_marshal w2 s2 olds rs" by blast
  moreover obtain w3 s3 res where rd: "WAL_ReadAll tiny_unmarshal w2 s2 = (w3, s3, res)" by (metis prod_cases3)
  ultimately obtain ds where res: "res = Inr ds"
    using ReadAll_step [OF tiny_codec _ rd] f2 by blast
  from wal_crash_durability [OF tiny_codec tiny_storable_small(1) r pre crash_refl op rd [unfolded res]]
  show ?thesis using op rd res crash_refl by blast
qed

text \<open>C3: Recovery after a crash. After a run of successful calls with a log without preallocation, and a crash
  that keeps the entries of the directory and cuts each file at any byte after its synced part, opening the
  log succeeds and reading it returns payloads, if no system call fails from the crash on.\<close>

theorem wal_crash_recovers:
  assumes codec: "proto_codec m u" and ctl: "storable m CrcType []"
    and run: "wal_run m u msnap opts w s L n" and pre: "PreallocSize opts \<le> 0"
    and cr: "crash s s1" and lv: "faults s1 = []"
  shows "\<exists>s2 w2 w3 s3 ds. WAL_Open m u s1 opts' = (s2, Inr w2) \<and> WAL_ReadAll u w2 s2 = (w3, s3, Inr ds)"
proof -
  from wal_run_repr [OF run codec ctl] pre obtain olds cur
    where r: "wal_repr m w s olds cur" "durable m w s olds cur n" by blast
  from crash_open_live [OF codec r cr lv] obtain s2 w2
    where op: "WAL_Open m u s1 opts' = (s2, Inr w2)" and f2: "faults s2 = []" by blast
  from crash_open [OF codec r cr op] obtain rs where r2: "wal_repr m w2 s2 olds rs" by blast
  obtain w3 s3 res where rd: "WAL_ReadAll u w2 s2 = (w3, s3, res)" by (metis prod_cases3)
  from ReadAll_step [OF codec r2 rd] f2 op rd show ?thesis by blast
qed

theorem wal_crash_recovers_witness:
  "\<exists>s s2 w2 w3 s3 ds. WAL_Open tiny_marshal tiny_unmarshal s ResourceOptions = (s2, Inr w2) \<and>
     WAL_ReadAll tiny_unmarshal w2 s2 = (w3, s3, Inr ds)"
proof -
  obtain w s where r: "wal_run tiny_marshal tiny_unmarshal no_snapshot DefaultOptions w s [[1]] 1"
    and f: "faults s = []" by (rule tiny_run)
  have "PreallocSize DefaultOptions \<le> 0" by (simp add: DefaultOptions_def)
  from wal_crash_recovers [OF tiny_codec tiny_storable_small(1) r this crash_refl f] show ?thesis by blast
qed

text \<open>C8: On the state after a run, an append of a payload that marshals within the limit succeeds when
  no system call fails, except in one case: the chained CRC of the record happens to be zero,
  which the code takes for a missing CRC and reports as an error.\<close>

theorem wal_append_succeeds:
  assumes codec: "proto_codec m u" and ctl: "storable m CrcType []"
    and run: "wal_run m u msnap opts w s L n" and lv: "faults s = []"
    and st: "storable m DataType data" and seq: "w_seq w + 1 < 2 ^ 64"
    and nd: "\<not> fisdir (file_of s (WAL_segmentPath (w_seq w + 1)))"
    and ap: "WAL_Append m w s data = (w', s', res)"
  shows "(\<exists>off. res = Inr off \<and> wal_run m u msnap opts w' s' (L @ [data]) n) \<or>
    res = Inl ErrNoCRC \<and> data \<noteq> [] \<and> crc32_Update (Encoder_CRC (w_enc w)) data = 0"
proof -
  from wal_run_repr [OF run codec ctl] obtain olds cur where r: "wal_repr m w s olds cur" by blast
  then have "Encoder_CRC (w_enc w) = chain_end 0 cur" by (simp add: wal_repr_def cur_ok_def)
  with Append_live [OF r lv seq ctl st nd ap] run_append [OF run _ st seq] ap show ?thesis by auto
qed

theorem wal_append_succeeds_witness:
  "\<exists>w s w' s' off. WAL_Open tiny_marshal tiny_unmarshal empty_os DefaultOptions = (s, Inr w) \<and>
     WAL_Append tiny_marshal w s [1] = (w', s', Inr off)"
proof -
  obtain w s where op: "WAL_Open tiny_marshal tiny_unmarshal empty_os DefaultOptions = (s, Inr w)"
    and f: "faults s = []" and r: "wal_repr tiny_marshal w s [] [crc_record 0]" and q: "w_seq w = 0"
    and nd: "\<not> fisdir (file_of s (WAL_segmentPath 1))" by (rule tiny_open)
  have run: "wal_run tiny_marshal tiny_unmarshal no_snapshot DefaultOptions w s [] 0"
    using run_open [OF _ op] by simp
  obtain w' s' res where ap: "WAL_Append tiny_marshal w s [1] = (w', s', res)" by (metis prod_cases3)
  have "Encoder_CRC (w_enc w) = 0" using r by (simp add: wal_repr_def cur_ok_def crc_record_def)
  with wal_append_succeeds [OF tiny_codec tiny_storable_small(1) run f _ _ _ ap] q nd crc_one op ap
  show ?thesis by auto
qed

text \<open>A closed log stays closed: whether or not closing reported an error, every later append,
  snapshot, sync and read returns \<^verbatim>\<open>ErrClosed\<close> and changes nothing, and closing again
  returns no error.\<close>

theorem wal_closed:
  assumes "WAL_Close w s = (w', s', err)"
  shows "w_closed w' \<and> WAL_Append m w' t data = (w', t, Inl ErrClosed) \<and>
    WAL_SaveSnapshot m msnap w' t (Some sn) = (w', t, Some ErrClosed) \<and>
    WAL_Sync w' t = (w', t, Some ErrClosed) \<and> WAL_ReadAll u w' t = (w', t, Inl ErrClosed) \<and>
    WAL_Close w' t = (w', t, None)"
proof -
  have "w_closed w'"
    using assms by (auto simp: WAL_Close_def WAL_closeFile_def Let_def split: if_splits prod.splits option.splits)
  then show ?thesis
    by (simp add: WAL_Append_def WAL_SaveSnapshot_def WAL_Sync_def WAL_ReadAll_def WAL_Close_def)
qed

theorem wal_closed_witness:
  "\<exists>w' s' err. WAL_Close \<lparr>w_opts = DefaultOptions, w_file = \<lparr>fd_name = ''f'', fd_pos = 0, fd_open = False\<rparr>,
      w_enc = NewEncoder 0 0 16, w_seq = 0, w_offset = 0, w_closed = False\<rparr> empty_os = (w', s', err) \<and>
    WAL_Append tiny_marshal w' s' [1] = (w', s', Inl ErrClosed)"
proof -
  obtain w' s' err where c: "WAL_Close \<lparr>w_opts = DefaultOptions, w_file = \<lparr>fd_name = ''f'', fd_pos = 0, fd_open = False\<rparr>,
      w_enc = NewEncoder 0 0 16, w_seq = 0, w_offset = 0, w_closed = False\<rparr> empty_os = (w', s', err)"
    by (metis prod_cases3)
  from wal_closed [OF c] c show ?thesis by blast
qed

text \<open>A new segment, once \<^verbatim>\<open>createSegment\<close> succeeds, starts with a durable CRC
  checkpoint that carries the chain over from the previous segment, followed by zeros only; the
  other files of the directory are untouched, and the WAL continues in it.\<close>

theorem createSegment_checkpoint:
  assumes cr: "WAL_createSegment m w s q c = (w', s', None)" and q: "q < 2 ^ 64" and ctl: "storable m CrcType []"
  shows "(\<exists>z. fdata (file_of s' (WAL_segmentPath q)) = rec_frame m \<lparr>rtype = CrcType, rcrc = c, rdata = []\<rparr> @ replicate z 0) \<and>
    fsynced (file_of s' (WAL_segmentPath q)) = fdata (file_of s' (WAL_segmentPath q)) \<and>
    (\<forall>n. n \<noteq> WAL_segmentPath q \<longrightarrow> file_of s' n = file_of s n) \<and>
    w_seq w' = q \<and> Encoder_CRC (w_enc w') = c"
proof -
  note k = createSegment_ok [OF cr q ctl]
  have "file_out (s', w_file w') = frames m [crc_record c]" "tail_zero (s', w_file w')"
    "fd_name (w_file w') = WAL_segmentPath q"
    using k(1,2,5) by (auto simp: cur_ok_def)
  with tail_zero_content [of s' "w_file w'"]
  have "\<exists>z. fdata (file_of s' (WAL_segmentPath q)) = rec_frame m (crc_record c) @ replicate z 0" by auto
  moreover have "Encoder_CRC (w_enc w') = c" using k(1) by (simp add: cur_ok_def crc_record_def)
  ultimately show ?thesis using k(2,6,7) unfolding crc_record_def by blast
qed

theorem createSegment_checkpoint_witness:
  "\<exists>w' s'. WAL_createSegment tiny_marshal \<lparr>w_opts = DefaultOptions, w_file = \<lparr>fd_name = [], fd_pos = 0, fd_open = False\<rparr>,
      w_enc = NewEncoder 0 0 0, w_seq = 0, w_offset = 0, w_closed = False\<rparr> empty_os 1 77 = (w', s', None) \<and>
    fsynced (file_of s' (WAL_segmentPath 1)) = fdata (file_of s' (WAL_segmentPath 1)) \<and> Encoder_CRC (w_enc w') = 77"
proof -
  obtain w' s' where c: "WAL_createSegment tiny_marshal \<lparr>w_opts = DefaultOptions, w_file = \<lparr>fd_name = [], fd_pos = 0, fd_open = False\<rparr>,
      w_enc = NewEncoder 0 0 0, w_seq = 0, w_offset = 0, w_closed = False\<rparr> empty_os 1 77 = (w', s', None)"
    using createSegment_live [OF empty_os_simps(2,4) tiny_storable_small(1)] by blast
  from createSegment_checkpoint [OF c _ tiny_storable_small(1)] c show ?thesis by auto
qed

text \<open>C39: A flush that fails loses data for good: the payloads still in the buffer are dropped, the
  caller gets the error, but the next sync finds nothing to write and reports success, with the
  file as it was before.\<close>

theorem failed_sync_then_success_loses_data:
  assumes rep: "wal_repr m w s olds cur" and pend: "enc_pending (w_enc w) \<noteq> []" and flt: "faults s = [Some 0]"
  shows "\<exists>w1 s1 w2 s2. WAL_Sync w s = (w1, s1, Some (ErrIOwrap ErrIO)) \<and> WAL_Sync w1 s1 = (w2, s2, None) \<and>
    fdata (file_of s2 (WAL_segmentPath (w_seq w))) = fdata (file_of s (WAL_segmentPath (w_seq w))) \<and>
    enc_pending (w_enc w2) = [] \<and> frames m cur = file_out (s, w_file w) @ enc_pending (w_enc w)"
proof -
  have c: "cur_ok m w s cur" and nc: "\<not> w_closed w" using rep by (auto simp: wal_repr_def)
  then have op: "fd_open (w_file w)" and nm: "fd_name (w_file w) = WAL_segmentPath (w_seq w)"
    and tz: "tail_zero (s, w_file w)" and fr: "frames m cur = file_out (s, w_file w) @ enc_pending (w_enc w)"
    by (auto simp: cur_ok_def)
  have bb: "bufferedBytes (e_pw (w_enc w)) \<noteq> 0" using pend by (auto simp: enc_pending_def pw_pending_def)
  let ?nm = "WAL_segmentPath (w_seq w)"
  let ?f = "file_of s ?nm"
  have nf: "next_fault s = (Some 0, s\<lparr>faults := []\<rparr>)" using flt by (simp add: next_fault_def)
  have f1: "file_of (s\<lparr>faults := []\<rparr>) = file_of s" by (simp add: file_of_def fun_eq_iff)
  have "overwrite (fd_pos (w_file w)) [] (fdata ?f) = fdata ?f"
    using tz nm by (intro overwrite_Nil) (simp add: tail_zero_def)
  then have wr: "file_Write (s, w_file w) p = ((put_file ?nm ?f (s\<lparr>faults := []\<rparr>), w_file w), 0, Some ErrIO)" for p
    using op nm by (simp add: file_Write_def nf f1 Let_def)
  define s1 where "s1 = put_file ?nm ?f (s\<lparr>faults := []\<rparr>)"
  define e1 where "e1 = (w_enc w)\<lparr>e_pw := (e_pw (w_enc w))\<lparr>pageOffset :=
      (pageOffset (e_pw (w_enc w)) + bufferedBytes (e_pw (w_enc w))) mod pageBytes (e_pw (w_enc w)),
      bufferedBytes := 0\<rparr>\<rparr>"
  have fl: "Encoder_Flush file_Write (w_enc w) (s, w_file w) = (e1, (s1, w_file w), Some ErrIO)"
    using bb by (simp add: Encoder_Flush_def PageWriter_Flush_def wr Let_def e1_def s1_def)
  have fl2: "Encoder_Flush file_Write e1 (s1, w_file w) = (e1, (s1, w_file w), None)"
    by (simp add: Encoder_Flush_def PageWriter_Flush_def e1_def)
  have live: "faults s1 = []" by (simp add: s1_def put_file_def)
  from file_Sync_live [OF live op] obtain s2 where sy: "file_Sync s1 (w_file w) = (s2, None)" by blast
  note k = file_Sync_frame(2) [OF sy, of ?nm]
  have "fdata (file_of s2 ?nm) = fdata ?f" using k by (simp add: s1_def)
  moreover have "enc_pending e1 = []" by (simp add: enc_pending_def pw_pending_def e1_def)
  ultimately show ?thesis
    using nc fr by (simp add: WAL_Sync_def WAL_syncLocked_def fl fl2 sy)
qed

text \<open>A log whose first record is still in the buffer and whose next call will fail.\<close>

definition buffered_wal :: "wal \<times> os" where
  "buffered_wal =
     (\<lparr>w_opts = DefaultOptions, w_file = \<lparr>fd_name = WAL_segmentPath 0, fd_pos = 0, fd_open = True\<rparr>,
       w_enc = \<lparr>e_pw = \<lparr>pageOffset = 0, pageBytes = 4096, bufferedBytes = 16,
                  buf = rec_frame tiny_marshal (crc_record 0) @ replicate 4096 0, bufWatermarkBytes = 16\<rparr>,
                e_crc = crc_New 0, e_offset = 16\<rparr>,
       w_seq = 0, w_offset = 16, w_closed = False\<rparr>,
      \<lparr>files = [(WAL_segmentPath 0, \<lparr>fdata = [], fsynced = [], fisdir = False\<rparr>)], faults = [Some 0]\<rparr>)"

lemma buffered_wal_repr:
  "wal_repr tiny_marshal (fst buffered_wal) (snd buffered_wal) [] [crc_record 0]"
  "enc_pending (w_enc (fst buffered_wal)) \<noteq> []" "faults (snd buffered_wal) = [Some 0]"
proof -
  let ?p = "rec_frame tiny_marshal (crc_record 0)"
  have l: "length ?p = 16"
    by (simp add: rec_frame_def tiny_marshal_def crc_record_def CrcType_def length_frame
        encodeFrameSize_def length_PutUint32LE)
  have pend: "enc_pending (w_enc (fst buffered_wal)) = ?p"
    by (simp add: buffered_wal_def enc_pending_def pw_pending_def l)
  have inv: "enc_inv (w_enc (fst buffered_wal))"
    by (simp add: buffered_wal_def enc_inv_def pw_inv_def pw_fill_ok_def l)
  have "dir_segments (snd buffered_wal) = [(0, WAL_segmentPath 0)]"
    using segment_of_path [of 0 "\<lparr>fdata = [], fsynced = [], fisdir = False\<rparr>"]
    by (simp add: buffered_wal_def dir_segments_def map_filter_def)
  then show "wal_repr tiny_marshal (fst buffered_wal) (snd buffered_wal) [] [crc_record 0]"
    using pend inv good_log_crc_record [OF tiny_storable_small(1), of 0]
    by (simp add: wal_repr_def cur_ok_def buffered_wal_def file_out_def zero_extend_def file_of_def
        tail_zero_def has_file_def dir_names_def Encoder_CRC_def crc_record_def)
  show "enc_pending (w_enc (fst buffered_wal)) \<noteq> []" using pend l by auto
  show "faults (snd buffered_wal) = [Some 0]" by (simp add: buffered_wal_def)
qed

theorem failed_sync_then_success_loses_data_witness:
  "\<exists>w1 s1 w2 s2. WAL_Sync (fst buffered_wal) (snd buffered_wal) = (w1, s1, Some (ErrIOwrap ErrIO)) \<and>
     WAL_Sync w1 s1 = (w2, s2, None) \<and> enc_pending (w_enc w2) = []"
  using failed_sync_then_success_loses_data [OF buffered_wal_repr] by blast

section \<open>Group commit\<close>

text \<open>C6: A caller to whom the group commit returns a result got the result of a sync round that ran
  after its call; so a caller that gets \<^verbatim>\<open>nil\<close> had a successful flush and fsync that
  started after its call, in whatever order callers, rounds and appends interleave.\<close>

theorem group_commit_answers:
  assumes "sg_reach m w s g" and "sg_pc g i = Returned err"
  shows "\<exists>k < length (sg_events g). sg_called g i \<le> k \<and> sg_events g ! k = EvSync err"
  using sg_inv_reach [OF assms(1)] assms(2) by (simp add: sg_answers_def answered_def)

definition one_caller :: "wal \<Rightarrow> os \<Rightarrow> syncGroup" where
  "one_caller w s =
     (let g1 = sg_call (newSyncGroup w s) 0; g2 = sg_round g1 0 []
      in sg_finish g2 0 (snd (snd (WAL_Sync w s))))"

lemma one_caller_reach:
  "sg_reach m w s (one_caller w s)" "sg_pc (one_caller w s) 0 = Returned (snd (snd (WAL_Sync w s)))"
  "sg_events (one_caller w s) = [EvSync (snd (snd (WAL_Sync w s)))]"
proof -
  obtain w' s' r where sy: "WAL_Sync w s = (w', s', r)" by (metis prod_cases3)
  let ?init = "newSyncGroup w s"
  let ?g1 = "sg_call ?init 0"
  let ?g2 = "sg_round ?g1 0 []"
  have r1: "sg_reach m w s ?g1"
    by (rule reach_step [OF reach_init st_call]) (simp add: newSyncGroup_def)
  have "sg_pc ?g1 0 = Leading []" by (simp add: sg_call_def newSyncGroup_def)
  from reach_step [OF r1 st_round [OF this]] have r2: "sg_reach m w s ?g2" .
  have "sg_pc ?g2 0 = Notifying [] r" by (simp add: sg_round_def sg_call_def newSyncGroup_def sy)
  from reach_step [OF r2 st_finish [OF this]] show "sg_reach m w s (one_caller w s)"
    by (simp add: one_caller_def sy)
  show "sg_pc (one_caller w s) 0 = Returned (snd (snd (WAL_Sync w s)))"
    "sg_events (one_caller w s) = [EvSync (snd (snd (WAL_Sync w s)))]"
    by (simp_all add: one_caller_def sg_finish_def sg_round_def sg_call_def newSyncGroup_def sy)
qed

theorem group_commit_answers_witness:
  "\<exists>k < length (sg_events (one_caller (fst buffered_wal) (snd buffered_wal))).
     sg_called (one_caller (fst buffered_wal) (snd buffered_wal)) 0 \<le> k"
  using group_commit_answers [OF one_caller_reach(1,2)] by blast

text \<open>C5: Group commit over the log. Suppose every append and every sync round so far succeeded. Then the log
  is in the state of a run with the appended payloads, and when a caller got \<^verbatim>\<open>nil\<close>, the payloads
  appended before its call are among the synced ones: without preallocation, if the system then crashes and
  a log opened on what is left returns payloads, these start with all payloads appended before that call.\<close>

theorem group_commit_durable:
  assumes "sg_reach m w s g" and run: "wal_run m u msnap opts w s L n"
    and "\<forall>e\<in>set (sg_events g). ev_ok m e" and "w_seq w + length (sg_events g) + 1 < 2 ^ 64"
    and codec: "proto_codec m u" and ctl: "storable m CrcType []"
  shows "(\<exists>n'. wal_run m u msnap opts (sg_wal g) (sg_os g) (L @ appended (sg_events g)) n' \<and>
      (\<forall>i. sg_pc g i = Returned None \<longrightarrow> length (L @ appended (take (sg_called g i) (sg_events g))) \<le> n')) \<and>
    (PreallocSize opts \<le> 0 \<longrightarrow> (\<forall>i s1 opts' s2 w2 w3 s3 ds. sg_pc g i = Returned None \<longrightarrow> crash (sg_os g) s1 \<longrightarrow>
      WAL_Open m u s1 opts' = (s2, Inr w2) \<longrightarrow> WAL_ReadAll u w2 s2 = (w3, s3, Inr ds) \<longrightarrow>
      (\<exists>rest. ds = L @ appended (take (sg_called g i) (sg_events g)) @ rest)))"
proof -
  from sg_run [OF assms(1-4)] obtain n'
    where n': "wal_run m u msnap opts (sg_wal g) (sg_os g) (L @ appended (sg_events g)) n'"
      and k: "\<forall>k < length (sg_events g). sg_events g ! k = EvSync None \<longrightarrow>
        length (L @ appended (take k (sg_events g))) \<le> n'" by blast
  have "length (L @ appended (take (sg_called g i) (sg_events g))) \<le> n'" if "sg_pc g i = Returned None" for i
  proof -
    from sg_inv_reach [OF assms(1)] that have "answered g i None" unfolding sg_answers_def by blast
    then obtain j where j: "j < length (sg_events g)" "sg_called g i \<le> j" "sg_events g ! j = EvSync None"
      unfolding answered_def by blast
    have "take (sg_called g i) (sg_events g) = take (sg_called g i) (take j (sg_events g))"
      using j(2) by (simp add: min_def)
    then have "length (appended (take (sg_called g i) (sg_events g))) \<le> length (appended (take j (sg_events g)))"
      by (metis appended_take_le)
    with k j(1,3) show ?thesis by fastforce
  qed
  note len = this
  have "\<exists>rest. ds = L @ appended (take (sg_called g i) (sg_events g)) @ rest"
    if c: "PreallocSize opts \<le> 0" "sg_pc g i = Returned None" "crash (sg_os g) s1" "WAL_Open m u s1 opts' = (s2, Inr w2)"
      "WAL_ReadAll u w2 s2 = (w3, s3, Inr ds)" for i s1 opts' s2 w2 w3 s3 ds
  proof -
    obtain q where q: "ds = take q (L @ appended (sg_events g))" "n' \<le> length ds"
      using run_crash_prefix [OF codec ctl n' c(1,3-5)] by blast
    have "appended (sg_events g) = appended (take (sg_called g i) (sg_events g)) @ appended (drop (sg_called g i) (sg_events g))"
      by (metis appended_append append_take_drop_id)
    then have e: "L @ appended (sg_events g) = (L @ appended (take (sg_called g i) (sg_events g))) @ appended (drop (sg_called g i) (sg_events g))" by simp
    have "length (L @ appended (take (sg_called g i) (sg_events g))) \<le> q" using len [OF c(2)] q by simp
    then show ?thesis using q(1) unfolding e take_append by (intro exI) simp
  qed
  with n' len show ?thesis by blast
qed

theorem group_commit_durable_witness:
  "\<exists>w s n'. wal_run tiny_marshal tiny_unmarshal no_snapshot DefaultOptions
     (sg_wal (one_caller w s)) (sg_os (one_caller w s)) [[1]] n' \<and> sg_pc (one_caller w s) 0 = Returned None \<and> 1 \<le> n'"
proof -
  obtain w s where r: "wal_run tiny_marshal tiny_unmarshal no_snapshot DefaultOptions w s [[1]] 1"
    and f: "faults s = []" and q: "w_seq w \<le> 1" by (rule tiny_run)
  from wal_run_repr [OF r tiny_codec tiny_storable_small(1)] obtain olds cur
    where "wal_repr tiny_marshal w s olds cur" by blast
  from Sync_live [OF this f] obtain w' s' where sy: "WAL_Sync w s = (w', s', None)" by blast
  note oc = one_caller_reach [where w = w and s = s, unfolded sy, simplified]
  have ev: "\<forall>e\<in>set (sg_events (one_caller w s)). ev_ok tiny_marshal e" by (simp add: oc ev_ok_def)
  have sq: "w_seq w + length (sg_events (one_caller w s)) + 1 < 2 ^ 64" using q by (simp add: oc)
  from group_commit_durable [OF oc(1) r ev sq tiny_codec tiny_storable_small(1)] oc(2,3) show ?thesis by fastforce
qed

text \<open>C7: No wakeup is lost: a follower that has not got its result yet is in the pending list or in
  the batch of a leader that is still running, there is exactly one such leader, and nobody is
  queued when no leader runs.\<close>

theorem group_commit_no_lost_follower:
  assumes "sg_reach m w s g" and "sg_pc g j = Follower" and "sg_chan g j = None"
  shows "sg_syncing g \<and> (\<exists>l. (\<forall>i. leads (sg_pc g i) = (i = l)) \<and>
    (j \<in> set (sg_pending g) \<or> j \<in> set (batch_of (sg_pc g l))))"
proof -
  from sg_inv_reach [OF assms(1)] have inv: "sg_lead_ok g" "sg_no_lost g" by auto
  with assms(2,3) have j: "j \<in> set (sg_pending g) \<or> (\<exists>i. j \<in> set (batch_of (sg_pc g i)))"
    by (simp add: sg_no_lost_def)
  have sy: "sg_syncing g"
    using j inv(1) batch_leads by (fastforce simp: sg_lead_ok_def split: if_splits)
  with inv(1) obtain l where l: "sg_leader g l" by (auto simp: sg_lead_ok_def)
  then have "j \<in> set (sg_pending g) \<or> j \<in> set (batch_of (sg_pc g l))"
    using j batch_leads by (metis sg_leader_def)
  with sy l show ?thesis by (auto simp: sg_leader_def)
qed

theorem group_commit_no_lost_follower_witness:
  "sg_syncing (sg_call (sg_call (newSyncGroup (fst buffered_wal) (snd buffered_wal)) 0) 1) \<and>
   (\<exists>l. 1 \<in> set (sg_pending (sg_call (sg_call (newSyncGroup (fst buffered_wal) (snd buffered_wal)) 0) 1)) \<or>
      1 \<in> set (batch_of (sg_pc (sg_call (sg_call (newSyncGroup (fst buffered_wal) (snd buffered_wal)) 0) 1) l)))"
proof -
  let ?init = "newSyncGroup (fst buffered_wal) (snd buffered_wal)"
  let ?g = "sg_call (sg_call ?init 0) 1"
  have "sg_reach tiny_marshal (fst buffered_wal) (snd buffered_wal) (sg_call ?init 0)"
    by (rule reach_step [OF reach_init st_call]) (simp add: newSyncGroup_def)
  then have "sg_reach tiny_marshal (fst buffered_wal) (snd buffered_wal) ?g"
    by (rule reach_step [OF _ st_call]) (simp add: newSyncGroup_def sg_call_def)
  from group_commit_no_lost_follower [OF this, of 1] show ?thesis
    by (auto simp: newSyncGroup_def sg_call_def Let_def)
qed

section \<open>The schema registry\<close>

text \<open>C4: The registry survives a crash. Take a run of the registry in which every change was acknowledged (each
  call returned \<^verbatim>\<open>nil\<close>; restarts included), and a crash that keeps the entries of the directory and the
  synced part of each file. The registry opened on what is left holds exactly the schemas that were in
  memory, or the open fails because of a system call; when no call fails it opens.\<close>

theorem registry_crash_recovery:
  assumes run: "reg_run m u em eu r" and codec: "proto_codec m u" and ec: "entry_codec em eu"
    and ctl: "storable m CrcType []" and cr: "crash (snd (r_w r)) s1"
    and op: "Registry_Open m u eu s1 = (s2, res)"
  shows "(\<forall>r2. res = Inr r2 \<longrightarrow> r_types r2 = r_types r) \<and> (\<forall>e. res = Inl e \<longrightarrow> (\<exists>x. e = ErrSchemaWal x)) \<and>
    (faults s1 = [] \<longrightarrow> (\<exists>r2. res = Inr r2))"
proof -
  from reg_run_inv [OF run codec ec ctl] obtain L where L: "reg_rep (wal_rep m u) eu r L" by blast
  from reg_crash_open [OF codec L cr op] show ?thesis by blast
qed

theorem registry_crash_recovery_witness:
  "\<exists>(r :: (wal \<times> os) walRegistry) s2 r2. r_types r = [(''pods'', pod_schema)] \<and>
     Registry_Open tiny_marshal tiny_unmarshal tiny_parse (snd (r_w r)) = (s2, Inr r2) \<and> r_types r2 = r_types r"
proof -
  obtain r where r: "reg_run tiny_marshal tiny_unmarshal tiny_entry tiny_parse r"
    "r_types r = [(''pods'', pod_schema)]" "faults (snd (r_w r)) = []" by (rule tiny_registry)
  obtain s2 res where op: "Registry_Open tiny_marshal tiny_unmarshal tiny_parse (snd (r_w r)) = (s2, res)" by fastforce
  from registry_crash_recovery [OF r(1) tiny_codec tiny_entry_codec tiny_storable_small(1) crash_refl op] r(3)
  obtain r2 where "res = Inr r2" "r_types r2 = r_types r" by blast
  with r(2) op show ?thesis by blast
qed

text \<open>C23: In every state that a run of acknowledged changes and restarts reaches, the schemas are stored under
  their own type, no type twice, and each has a type and a primary key that is no wildcard, and secondary
  indexes that are nonempty, distinct and different from the primary key. So \<^verbatim>\<open>Validate\<close> accepts it or
  objects to a wildcard that is not at the end, the one rule that \<^verbatim>\<open>AddIndex\<close> does not check.\<close>

theorem registry_invariant:
  assumes run: "reg_run m u em eu r" and codec: "proto_codec m u" and ec: "entry_codec em eu"
    and ctl: "storable m CrcType []"
  shows "distinct (Registry_ListTypes r) \<and>
    (\<forall>t s. Registry_Get r t = Inr s \<longrightarrow> s_Type s = t \<and> t \<in> set (Registry_ListTypes r) \<and>
       s_Type s \<noteq> [] \<and> s_PrimaryKey s \<noteq> [] \<and> \<not> HasSuffix (s_PrimaryKey s) ''.*'' \<and>
       (\<forall>idx\<in>set (s_SecondaryIndexes s). idx \<noteq> [] \<and> idx \<noteq> s_PrimaryKey s) \<and> distinct (s_SecondaryIndexes s) \<and>
       Schema_Validate s \<in> {None, Some (ErrInvalidSchema WildcardNotAtEnd)})"
proof -
  from reg_run_inv [OF run codec ec ctl] have inv: "reg_inv (r_types r)" by blast
  then have "distinct (Registry_ListTypes r)" by (simp add: reg_inv_def Registry_ListTypes_def)
  moreover have "s_Type s = t \<and> schema_ok s \<and> t \<in> set (Registry_ListTypes r)" if "Registry_Get r t = Inr s" for t s
  proof -
    have m: "map_of (r_types r) t = Some s" using that by (auto simp: Registry_Get_def split: if_splits option.splits)
    then have "t \<in> set (Registry_ListTypes r)" by (force simp: Registry_ListTypes_def dest: map_of_SomeD)
    with reg_inv_lookup [OF inv m] show ?thesis by simp
  qed
  ultimately show ?thesis using schema_ok_Validate unfolding schema_ok_def index_ok_def by blast
qed

theorem registry_invariant_witness:
  "\<exists>r :: (wal \<times> os) walRegistry. r_types r = [(''pods'', pod_schema)] \<and> distinct (Registry_ListTypes r)"
proof -
  obtain r where r: "reg_run tiny_marshal tiny_unmarshal tiny_entry tiny_parse r"
    "r_types r = [(''pods'', pod_schema)]" by (rule tiny_registry)
  from registry_invariant [OF r(1) tiny_codec tiny_entry_codec tiny_storable_small(1)] r(2) show ?thesis by blast
qed

end
